(* ===== verification/Prelude.thy ===== *)
theory Prelude
  imports Main "HOL-Library.Word"
begin

text \<open>
  Shared ground of the development: the machine integers of Go, panics as values, the
  block operations of slices (\<^verbatim>\<open>copy\<close> and \<^verbatim>\<open>clear\<close>), and the collections of rewrite rules
  the component theories add to.

  Conventions. A Go slice is a list. Go's zero value of an element type is the constant \<open>0\<close>
  of the type class \<open>zero\<close>. A Go \<^verbatim>\<open>int\<close> is an \<open>int\<close>; where the code adds two of them and the
  sum may leave the 64-bit range the definition applies \<open>wrap64\<close>. A \<^verbatim>\<open>uint32\<close> or \<^verbatim>\<open>uint64\<close> is
  a word of that width, so its arithmetic wraps as the hardware does.
\<close>

section \<open>Collections of rewrite rules\<close>

named_theorems slice_simps \<open>lengths and elements of block copies and clears\<close>
named_theorems ring_simps \<open>ring indices and window contents\<close>

section \<open>Machine integers\<close>

type_synonym u32 = "32 word"
type_synonym u64 = "64 word"

text \<open>The conversion \<^verbatim>\<open>int(x)\<close> of an unsigned value is \<open>int (unat x)\<close> and stays in that form.\<close>

declare of_nat_unat [simp del]

lemma word_of_unat [simp]: "of_nat (unat (w :: 'a::len word)) = w"
  by (simp add: of_nat_unat)

lemma unat32_less: "unat (n :: u32) < 2 ^ 32"
  using unsigned_less [of n] by simp

lemma unat_wide [simp]: "unat (ucast (n :: u32) :: u64) = unat n"
  using unat32_less [of n] by (simp add: unsigned_ucast_eq take_bit_eq_mod)

definition maxInt :: int where
  "maxInt = 2 ^ 63 - 1"

definition wrap64 :: "int \<Rightarrow> int" where
  "wrap64 x = (x + 2 ^ 63) mod 2 ^ 64 - 2 ^ 63"

lemma wrap64_id: "- (2 ^ 63) \<le> x \<Longrightarrow> x \<le> maxInt \<Longrightarrow> wrap64 x = x"
  by (simp add: wrap64_def maxInt_def)

lemma wrap64_nonneg [simp]: "0 \<le> x \<Longrightarrow> x \<le> maxInt \<Longrightarrow> wrap64 x = x"
  by (simp add: wrap64_id)

lemma wrap64_over: "maxInt < x \<Longrightarrow> x \<le> 2 * maxInt \<Longrightarrow> wrap64 x = x - 2 ^ 64"
proof -
  assume b: "maxInt < x" "x \<le> 2 * maxInt"
  have "(x + 2 ^ 63) mod 2 ^ 64 = (x + 2 ^ 63 - 2 ^ 64) mod 2 ^ 64" by (simp only: minus_mod_self2)
  also have "\<dots> = x + 2 ^ 63 - 2 ^ 64"
    using b by (intro mod_pos_pos_trivial) (simp_all add: maxInt_def)
  finally show ?thesis by (simp add: wrap64_def)
qed

section \<open>Panics as values\<close>

text \<open>
  A method that panics leaves its receiver as it was at the panic, which a caller that recovers
  can observe. Hence the state is part of both outcomes. \<open>BoundsPanic\<close> is the run-time error of
  an index or slice expression out of range and \<open>NilPanic\<close> the one of a nil dereference; the
  others carry the message of the source.
\<close>

datatype go_panic = BoundsPanic | NilPanic | PanicMsg string

datatype ('s, 'r) outcome = Return 'r 's | Panic go_panic 's

primrec out_state :: "('s, 'r) outcome \<Rightarrow> 's" where
  "out_state (Return r s) = s"
| "out_state (Panic p s) = s"

text \<open>Running one call after another; a panic ends the sequence.\<close>

primrec then_do :: "('s, 'r) outcome \<Rightarrow> ('r \<Rightarrow> 's \<Rightarrow> ('s, 't) outcome) \<Rightarrow> ('s, 't) outcome" where
  "then_do (Return r s) f = f r s"
| "then_do (Panic p s) f = Panic p s"

section \<open>Slices\<close>

text \<open>
  \<open>blit xs i ys\<close> is \<^verbatim>\<open>copy(xs[i:], ys)\<close>: it copies as many elements of \<open>ys\<close> as fit.
  \<open>clear_range xs lo hi\<close> is \<^verbatim>\<open>clear(xs[lo:hi])\<close>.
\<close>

definition blit :: "'a list \<Rightarrow> nat \<Rightarrow> 'a list \<Rightarrow> 'a list" where
  "blit xs i ys = take i xs @ take (length xs - i) ys @ drop (i + length ys) xs"

definition clear_range :: "('a::zero) list \<Rightarrow> nat \<Rightarrow> nat \<Rightarrow> 'a list" where
  "clear_range xs lo hi = take lo xs @ replicate (min hi (length xs) - lo) 0 @ drop (max lo hi) xs"

lemma length_blit [simp, slice_simps]: "length (blit xs i ys) = length xs"
  by (auto simp: blit_def min_def)

lemma nth_blit [slice_simps]:
  "j < length xs \<Longrightarrow> blit xs i ys ! j = (if i \<le> j \<and> j < i + length ys then ys ! (j - i) else xs ! j)"
  by (auto simp: blit_def nth_append min_def)

lemma blit_Nil [simp]: "blit xs i [] = xs"
  by (simp add: blit_def)

lemma length_clear_range [simp, slice_simps]: "length (clear_range xs lo hi) = length xs"
  by (auto simp: clear_range_def min_def max_def)

lemma nth_clear_range [slice_simps]:
  "j < length xs \<Longrightarrow> clear_range xs lo hi ! j = (if lo \<le> j \<and> j < hi then 0 else xs ! j)"
  by (auto simp: clear_range_def nth_append min_def max_def)

lemma clear_range_empty [simp]: "clear_range xs lo lo = xs"
  by (simp add: clear_range_def)

lemma take_drop_eq_map:
  "s + n \<le> length xs \<Longrightarrow> take n (drop s xs) = map (\<lambda>i. xs ! (s + i)) [0..<n]"
  by (rule nth_equalityI) auto

end
