(* ===== verification/XSlices.thy ===== *)
theory XSlices
  imports Prelude
begin

text \<open>
  The slice helpers of \<^verbatim>\<open>xslices/slices.go\<close>. Each loop of the source is a recursion over the
  list of elements with the loop's variables as accumulators; \<open>IndexOf\<close>, \<open>SliceContains\<close> and
  \<open>Reverse\<close> call the standard \<^verbatim>\<open>slices\<close> package, whose loops are written out. The lemmas give
  each helper its reference definition over the list library.
\<close>

section \<open>Definitions\<close>

text \<open>\<open>Unique\<close>: \<open>seen\<close> is the map of elements met so far, \<open>unique\<close> the slice built.\<close>

fun Unique_loop :: "'e set \<Rightarrow> 'e list \<Rightarrow> 'e list \<Rightarrow> 'e list" where
  "Unique_loop seen unique [] = unique"
| "Unique_loop seen unique (item # rest) =
     (if item \<in> seen then Unique_loop seen unique rest
      else Unique_loop (insert item seen) (unique @ [item]) rest)"

definition Unique :: "'e list \<Rightarrow> 'e list" where
  "Unique inSlice = Unique_loop {} [] inSlice"

text \<open>\<^verbatim>\<open>slices.Reverse\<close> swaps the ends and moves inwards: \<^verbatim>\<open>for i, j := 0, len(s)-1; i < j;\<close>.\<close>

function Reverse_loop :: "'e list \<Rightarrow> nat \<Rightarrow> nat \<Rightarrow> 'e list" where
  "Reverse_loop xs i j =
     (if i < j then Reverse_loop (xs[i := xs ! j, j := xs ! i]) (Suc i) (j - 1) else xs)"
  by pat_completeness auto
termination
  by (relation "measure (\<lambda>(xs, i, j). j - i)") auto

declare Reverse_loop.simps [simp del]

definition Reverse :: "'e list \<Rightarrow> 'e list" where
  "Reverse inSlice = Reverse_loop inSlice 0 (length inSlice - 1)"

text \<open>\<open>Reversed\<close> allocates a zeroed slice and stores item \<open>i\<close> at index \<open>len-1-i\<close>.\<close>

fun Reversed_loop :: "nat \<Rightarrow> nat \<Rightarrow> 'e list \<Rightarrow> 'e list \<Rightarrow> 'e list" where
  "Reversed_loop n i reversed [] = reversed"
| "Reversed_loop n i reversed (item # rest) =
     Reversed_loop n (Suc i) (reversed[n - 1 - i := item]) rest"

definition Reversed :: "('e::zero) list \<Rightarrow> 'e list" where
  "Reversed inSlice = Reversed_loop (length inSlice) 0 (replicate (length inSlice) 0) inSlice"

fun IndexOf_loop :: "nat \<Rightarrow> 'e list \<Rightarrow> 'e \<Rightarrow> int" where
  "IndexOf_loop i [] element = -1"
| "IndexOf_loop i (x # rest) element =
     (if x = element then int i else IndexOf_loop (Suc i) rest element)"

definition IndexOf :: "'e list \<Rightarrow> 'e \<Rightarrow> int" where
  "IndexOf inSlice element = IndexOf_loop 0 inSlice element"

text \<open>\<open>LastIndexOf\<close> counts down; the loop variable \<open>i\<close> is the first argument less one.\<close>

fun LastIndexOf_loop :: "nat \<Rightarrow> 'e list \<Rightarrow> 'e \<Rightarrow> int" where
  "LastIndexOf_loop 0 inSlice element = -1"
| "LastIndexOf_loop (Suc i) inSlice element =
     (if inSlice ! i = element then int i else LastIndexOf_loop i inSlice element)"

definition LastIndexOf :: "'e list \<Rightarrow> 'e \<Rightarrow> int" where
  "LastIndexOf inSlice element = LastIndexOf_loop (length inSlice) inSlice element"

fun IndicesOf_loop :: "nat \<Rightarrow> nat list \<Rightarrow> 'e list \<Rightarrow> 'e \<Rightarrow> nat list" where
  "IndicesOf_loop i indices [] element = indices"
| "IndicesOf_loop i indices (item # rest) element =
     IndicesOf_loop (Suc i) (if item = element then indices @ [i] else indices) rest element"

definition IndicesOf :: "'e list \<Rightarrow> 'e \<Rightarrow> nat list" where
  "IndicesOf inSlice element = IndicesOf_loop 0 [] inSlice element"

text \<open>\<^verbatim>\<open>slices.Contains(s, v)\<close> is \<^verbatim>\<open>Index(s, v) >= 0\<close>.\<close>

definition SliceContains :: "'e list \<Rightarrow> 'e \<Rightarrow> bool" where
  "SliceContains inSlice element \<longleftrightarrow> 0 \<le> IndexOf inSlice element"

fun Partition_loop :: "('e \<Rightarrow> bool) \<Rightarrow> 'e list \<Rightarrow> 'e list \<Rightarrow> 'e list \<Rightarrow> 'e list \<times> 'e list" where
  "Partition_loop predicate trueSlice falseSlice [] = (trueSlice, falseSlice)"
| "Partition_loop predicate trueSlice falseSlice (item # rest) =
     (if predicate item then Partition_loop predicate (trueSlice @ [item]) falseSlice rest
      else Partition_loop predicate trueSlice (falseSlice @ [item]) rest)"

definition Partition :: "'e list \<Rightarrow> ('e \<Rightarrow> bool) \<Rightarrow> 'e list \<times> 'e list" where
  "Partition inSlice predicate = Partition_loop predicate [] [] inSlice"

section \<open>Lemmas\<close>

lemma Unique_loop_set: "set (Unique_loop seen unique xs) = set unique \<union> (set xs - seen)"
  by (induction seen unique xs rule: Unique_loop.induct) auto

lemma Unique_loop_distinct:
  "distinct unique \<Longrightarrow> set unique \<subseteq> seen \<Longrightarrow> distinct (Unique_loop seen unique xs)"
  by (induction seen unique xs rule: Unique_loop.induct) auto

text \<open>First-seen order: element \<open>x\<close> precedes \<open>y\<close> in the result as it does in the input.\<close>

definition first_seen :: "'e list \<Rightarrow> 'e list" where
  "first_seen xs = map (\<lambda>i. xs ! i) (filter (\<lambda>i. xs ! i \<notin> set (take i xs)) [0..<length xs])"

lemma first_seen_snoc:
  "first_seen (xs @ [x]) = first_seen xs @ (if x \<in> set xs then [] else [x])"
proof -
  have "filter (\<lambda>i. (xs @ [x]) ! i \<notin> set (take i (xs @ [x]))) [0..<length xs]
      = filter (\<lambda>i. xs ! i \<notin> set (take i xs)) [0..<length xs]"
    by (rule filter_cong) (auto simp: nth_append)
  then show ?thesis by (auto simp: first_seen_def nth_append)
qed

lemma Unique_loop_first_seen:
  "Unique_loop (set pre) (first_seen pre) xs = first_seen (pre @ xs)"
proof (induction xs arbitrary: pre)
  case Nil
  then show ?case by simp
next
  case (Cons x xs)
  have step: "insert x (set pre) = set (pre @ [x])" by simp
  show ?case
    using Cons.IH [of "pre @ [x]"]
    by (cases "x \<in> set pre") (auto simp: first_seen_snoc insert_absorb)
qed

lemma length_Reverse_loop [simp]: "length (Reverse_loop xs i j) = length xs"
proof (induction xs i j rule: Reverse_loop.induct)
  case (1 xs i j)
  then show ?case by (cases "i < j") (simp_all add: Reverse_loop.simps [of xs i j])
qed

lemma Reverse_loop_nth:
  assumes "j < length xs" and "k < length xs"
  shows "Reverse_loop xs i j ! k = (if i \<le> k \<and> k \<le> j then xs ! (i + j - k) else xs ! k)"
  using assms
proof (induction xs i j rule: Reverse_loop.induct)
  case (1 xs i j)
  show ?case
  proof (cases "i < j")
    case False
    then have "i \<le> k \<and> k \<le> j \<Longrightarrow> i + j - k = k" by auto
    with False show ?thesis by (simp add: Reverse_loop.simps [of xs i j])
  next
    case True
    let ?ys = "xs[i := xs ! j, j := xs ! i]"
    have eq: "Reverse_loop xs i j = Reverse_loop ?ys (Suc i) (j - 1)"
      using True by (simp add: Reverse_loop.simps [of xs i j])
    have IH: "Reverse_loop ?ys (Suc i) (j - 1) ! k =
        (if Suc i \<le> k \<and> k \<le> j - 1 then ?ys ! (i + j - k) else ?ys ! k)"
      using "1.IH" [OF True] "1.prems" True by simp
    consider "k = i" | "k = j" | "Suc i \<le> k \<and> k \<le> j - 1" | "k < i \<or> j < k"
      using True by linarith
    then show ?thesis
    proof cases
      case 3
      then have "i + j - k \<noteq> i" "i + j - k \<noteq> j" "i \<le> k" "k \<le> j" by auto
      with 3 IH eq show ?thesis by simp
    qed (use True "1.prems" IH eq in \<open>auto simp: nth_list_update\<close>)
  qed
qed

lemma Reverse_eq_rev: "Reverse xs = rev xs"
proof (cases "xs = []")
  case True
  then show ?thesis by (simp add: Reverse_def Reverse_loop.simps)
next
  case False
  then show ?thesis
    by (intro nth_equalityI) (auto simp: Reverse_def Reverse_loop_nth rev_nth)
qed

lemma length_Reversed_loop [simp]: "length (Reversed_loop n i ys xs) = length ys"
  by (induction n i ys xs rule: Reversed_loop.induct) auto

lemma Reversed_loop_nth:
  assumes "length ys = n" and "i + length xs = n" and "k < n"
  shows "Reversed_loop n i ys xs ! k = (if k < length xs then xs ! (length xs - 1 - k) else ys ! k)"
  using assms
proof (induction n i ys xs rule: Reversed_loop.induct)
  case (2 n i ys x xs)
  then have IH: "Reversed_loop n (Suc i) (ys[n - 1 - i := x]) xs ! k =
      (if k < length xs then xs ! (length xs - 1 - k) else ys[n - 1 - i := x] ! k)"
    by simp
  have pos: "n - 1 - i = length xs" using "2.prems" by simp
  show ?case
  proof (cases "k < length xs")
    case True
    then have "length xs - k = Suc (length xs - 1 - k)" by simp
    with True IH show ?thesis by simp
  next
    case False
    with IH pos "2.prems" show ?thesis by (auto simp: nth_list_update)
  qed
qed auto

lemma IndexOf_loop_miss: "element \<notin> set xs \<Longrightarrow> IndexOf_loop i xs element = -1"
  by (induction xs arbitrary: i) auto

lemma IndexOf_loop_hit:
  "element \<in> set xs \<Longrightarrow> \<exists>k < length xs. IndexOf_loop i xs element = int (i + k) \<and> xs ! k = element
     \<and> element \<notin> set (take k xs)"
proof (induction xs arbitrary: i)
  case (Cons x xs)
  show ?case
  proof (cases "x = element")
    case True
    then show ?thesis by (intro exI [of _ 0]) simp
  next
    case False
    with Cons.prems have "element \<in> set xs" by simp
    from Cons.IH [OF this, of "Suc i"] obtain k where "k < length xs"
      "IndexOf_loop (Suc i) xs element = int (Suc i + k)" "xs ! k = element"
      "element \<notin> set (take k xs)" by blast
    with False show ?thesis by (intro exI [of _ "Suc k"]) auto
  qed
qed simp

lemma LastIndexOf_loop_spec:
  "n \<le> length xs \<Longrightarrow>
     (case LastIndexOf_loop n xs e of j \<Rightarrow>
        if e \<in> set (take n xs) then 0 \<le> j \<and> nat j < n \<and> xs ! nat j = e \<and> (\<forall>k. nat j < k \<and> k < n \<longrightarrow> xs ! k \<noteq> e)
        else j = -1)"
proof (induction n)
  case (Suc n)
  then have t: "set (take (Suc n) xs) = insert (xs ! n) (set (take n xs))"
    by (simp add: take_Suc_conv_app_nth)
  show ?case
  proof (cases "xs ! n = e")
    case True
    then show ?thesis using t by auto
  next
    case False
    with Suc t show ?thesis by (auto simp: less_Suc_eq)
  qed
qed simp

lemma IndicesOf_loop_eq:
  "IndicesOf_loop i acc xs e = acc @ map (\<lambda>k. i + k) (filter (\<lambda>k. xs ! k = e) [0..<length xs])"
proof (induction i acc xs e rule: IndicesOf_loop.induct)
  case (2 i acc x xs e)
  have up: "[0..<length (x # xs)] = 0 # map Suc [0..<length xs]"
    by (simp add: map_Suc_upt upt_conv_Cons del: upt_Suc)
  have fm: "filter (\<lambda>k. (x # xs) ! k = e) (map Suc ks) = map Suc (filter (\<lambda>k. xs ! k = e) ks)" for ks
    by (induction ks) auto
  show ?case
    using 2 by (simp only: IndicesOf_loop.simps up filter.simps fm) (auto simp: comp_def)
qed simp

lemma Partition_loop_eq:
  "Partition_loop p ts fs xs = (ts @ filter p xs, fs @ filter (\<lambda>x. \<not> p x) xs)"
  by (induction p ts fs xs rule: Partition_loop.induct) auto

lemma filter_upt_hd:
  "k < n \<Longrightarrow> P k \<Longrightarrow> (\<forall>j < k. \<not> P j) \<Longrightarrow> \<exists>ks. filter P [0..<n] = k # ks"
proof -
  assume k: "k < n" "P k" "\<forall>j < k. \<not> P j"
  have "[0..<n] = [0..<k] @ k # [Suc k..<n]"
    using k(1) by (metis le0 less_imp_le upt_add_eq_append upt_conv_Cons le_add_diff_inverse)
  moreover have "filter P [0..<k] = []" using k(3) by (auto simp: filter_empty_conv)
  ultimately show ?thesis using k(2) by simp
qed

lemma filter_upt_last:
  "k < n \<Longrightarrow> P k \<Longrightarrow> (\<forall>j. k < j \<and> j < n \<longrightarrow> \<not> P j) \<Longrightarrow> \<exists>ks. filter P [0..<n] = ks @ [k]"
proof -
  assume k: "k < n" "P k" "\<forall>j. k < j \<and> j < n \<longrightarrow> \<not> P j"
  have "[0..<n] = [0..<k] @ k # [Suc k..<n]"
    using k(1) by (metis le0 less_imp_le upt_add_eq_append upt_conv_Cons le_add_diff_inverse)
  moreover have "filter P [Suc k..<n] = []" using k(3) by (auto simp: filter_empty_conv)
  ultimately show ?thesis using k(2) by simp
qed

section \<open>Properties\<close>

text \<open>
  C38. \<^verbatim>\<open>Unique\<close> keeps the first occurrence of each element, in order, and nothing else.
\<close>

theorem Unique_correct:
  "Unique xs = first_seen xs \<and> set (Unique xs) = set xs \<and> distinct (Unique xs)"
proof (intro conjI)
  show "Unique xs = first_seen xs"
    using Unique_loop_first_seen [of "[]" xs] by (simp add: Unique_def first_seen_def)
qed (simp_all add: Unique_def Unique_loop_set Unique_loop_distinct)

text \<open>
  C39. The index functions agree: \<^verbatim>\<open>IndicesOf\<close> lists the positions of the element in increasing
  order, \<^verbatim>\<open>IndexOf\<close> is the first and \<^verbatim>\<open>LastIndexOf\<close> the last of them, or -1, and \<^verbatim>\<open>Contains\<close> holds
  when there is one.
\<close>

theorem index_functions_agree:
  "IndicesOf xs e = filter (\<lambda>k. xs ! k = e) [0..<length xs]
   \<and> IndexOf xs e = (if IndicesOf xs e = [] then -1 else int (hd (IndicesOf xs e)))
   \<and> LastIndexOf xs e = (if IndicesOf xs e = [] then -1 else int (last (IndicesOf xs e)))
   \<and> (SliceContains xs e \<longleftrightarrow> IndicesOf xs e \<noteq> [])"
proof -
  have ind: "IndicesOf xs e = filter (\<lambda>k. xs ! k = e) [0..<length xs]"
    by (simp add: IndicesOf_def IndicesOf_loop_eq)
  have nil: "IndicesOf xs e = [] \<longleftrightarrow> e \<notin> set xs"
    by (auto simp: ind filter_empty_conv in_set_conv_nth)
  have first: "IndexOf xs e = (if IndicesOf xs e = [] then -1 else int (hd (IndicesOf xs e)))"
  proof (cases "e \<in> set xs")
    case True
    from IndexOf_loop_hit [OF this, of 0] obtain k where k: "k < length xs"
      "IndexOf xs e = int k" "xs ! k = e" "e \<notin> set (take k xs)"
      by (auto simp: IndexOf_def)
    then have "\<forall>j < k. xs ! j \<noteq> e" by (auto simp: in_set_conv_nth)
    with k filter_upt_hd [of k "length xs" "\<lambda>k. xs ! k = e"] show ?thesis by (auto simp: ind)
  qed (use nil in \<open>simp add: IndexOf_def IndexOf_loop_miss\<close>)
  have last: "LastIndexOf xs e = (if IndicesOf xs e = [] then -1 else int (last (IndicesOf xs e)))"
  proof (cases "e \<in> set xs")
    case True
    with LastIndexOf_loop_spec [of "length xs" xs e]
    obtain k where k: "LastIndexOf xs e = int k" "k < length xs" "xs ! k = e"
      "\<forall>j. k < j \<and> j < length xs \<longrightarrow> xs ! j \<noteq> e"
      by (auto simp: LastIndexOf_def split: if_splits intro: that [of "nat (LastIndexOf_loop (length xs) xs e)"])
    with filter_upt_last [of k "length xs" "\<lambda>k. xs ! k = e"] show ?thesis by (auto simp: ind)
  next
    case False
    with LastIndexOf_loop_spec [of "length xs" xs e] nil show ?thesis by (simp add: LastIndexOf_def)
  qed
  from ind first last nil show ?thesis by (auto simp: SliceContains_def)
qed

text \<open>
  C40. \<^verbatim>\<open>Partition\<close> splits a slice by its predicate and keeps the order in both parts;
  \<^verbatim>\<open>Reverse\<close> in place and the copying \<^verbatim>\<open>Reversed\<close> both reverse, so they undo each other.
\<close>

theorem Partition_Reversed_correct:
  "Partition xs p = (filter p xs, filter (\<lambda>x. \<not> p x) xs)
   \<and> Reversed ys = rev ys \<and> Reverse ys = rev ys \<and> Reverse (Reversed ys) = ys"
proof -
  have "Reversed ys = rev ys"
    by (rule nth_equalityI) (auto simp: Reversed_def Reversed_loop_nth rev_nth)
  then show ?thesis by (simp add: Partition_def Partition_loop_eq Reverse_eq_rev)
qed

end
