(* ===== verification/GoMaps.thy ===== *)
theory GoMaps
  imports Prelude
begin

text \<open>
  Go maps and their iteration, and the map helpers of \<^verbatim>\<open>xmaps/maps.go\<close>.

  A map is a partial function with a finite domain. The order in which \<^verbatim>\<open>range\<close> visits a map is
  unspecified and may differ between two loops over the same map, so every definition that ranges
  over a map takes the order as a parameter \<open>it\<close>: \<open>it n S\<close> is the order in which the \<open>n\<close>-th
  \<^verbatim>\<open>range\<close> statement of the function visits the key set \<open>S\<close>. The locale \<open>map_range\<close> states what
  the language promises of it: each key is visited exactly once.
\<close>

type_synonym 'k iteration = "nat \<Rightarrow> 'k set \<Rightarrow> 'k list"

locale map_range =
  fixes it :: "nat \<Rightarrow> 'k set \<Rightarrow> 'k list"
  assumes it_set: "finite S \<Longrightarrow> set (it n S) = S"
    and it_distinct: "finite S \<Longrightarrow> distinct (it n S)"
begin

lemma it_length: "finite S \<Longrightarrow> length (it n S) = card S"
  using it_set it_distinct distinct_card by metis

lemma it_empty [simp]: "it n {} = []"
  using it_set [of "{}" n] by simp

end

text \<open>Visiting the keys in increasing order is one permitted iteration.\<close>

interpretation sorted_range: map_range "\<lambda>n (S :: nat set). sorted_list_of_set S"
  by unfold_locales simp_all

section \<open>xmaps\<close>

datatype 'v xmaps_error = ErrDuplicateValue 'v

definition range_entries :: "'k iteration \<Rightarrow> nat \<Rightarrow> ('k \<rightharpoonup> 'v) \<Rightarrow> ('k \<times> 'v) list" where
  "range_entries it n source = map (\<lambda>key. (key, the (source key))) (it n (dom source))"

fun Keys_loop :: "'k list \<Rightarrow> ('k \<times> 'v) list \<Rightarrow> 'k list" where
  "Keys_loop keys [] = keys"
| "Keys_loop keys ((key, _) # rest) = Keys_loop (keys @ [key]) rest"

definition Keys :: "'k iteration \<Rightarrow> ('k \<rightharpoonup> 'v) \<Rightarrow> 'k list" where
  "Keys it source = Keys_loop [] (range_entries it 0 source)"

fun Values_loop :: "'v list \<Rightarrow> ('k \<times> 'v) list \<Rightarrow> 'v list" where
  "Values_loop values [] = values"
| "Values_loop values ((_, value) # rest) = Values_loop (values @ [value]) rest"

definition Values :: "'k iteration \<Rightarrow> ('k \<rightharpoonup> 'v) \<Rightarrow> 'v list" where
  "Values it source = Values_loop [] (range_entries it 0 source)"

fun Invert_loop :: "('v \<rightharpoonup> 'k) \<Rightarrow> ('k \<times> 'v) list \<Rightarrow> 'v xmaps_error + ('v \<rightharpoonup> 'k)" where
  "Invert_loop inverted [] = Inr inverted"
| "Invert_loop inverted ((key, value) # rest) =
     (case inverted value of
        Some _ \<Rightarrow> Inl (ErrDuplicateValue value)
      | None \<Rightarrow> Invert_loop (inverted(value \<mapsto> key)) rest)"

definition Invert :: "'k iteration \<Rightarrow> ('k \<rightharpoonup> 'v) \<Rightarrow> 'v xmaps_error + ('v \<rightharpoonup> 'k)" where
  "Invert it source = Invert_loop Map.empty (range_entries it 0 source)"

fun copy_entries :: "('k \<rightharpoonup> 'v) \<Rightarrow> ('k \<times> 'v) list \<Rightarrow> ('k \<rightharpoonup> 'v)" where
  "copy_entries merged [] = merged"
| "copy_entries merged ((key, value) # rest) = copy_entries (merged(key \<mapsto> value)) rest"

fun Merge_loop :: "'k iteration \<Rightarrow> nat \<Rightarrow> ('k \<rightharpoonup> 'v) \<Rightarrow> ('k \<rightharpoonup> 'v) list \<Rightarrow> ('k \<rightharpoonup> 'v)" where
  "Merge_loop it n merged [] = merged"
| "Merge_loop it n merged (source # rest) =
     Merge_loop it (Suc n) (copy_entries merged (range_entries it n source)) rest"

definition Merge :: "'k iteration \<Rightarrow> ('k \<rightharpoonup> 'v) list \<Rightarrow> ('k \<rightharpoonup> 'v)" where
  "Merge it sources = Merge_loop it 0 Map.empty sources"

section \<open>Lemmas\<close>

lemma Keys_loop_eq: "Keys_loop ks es = ks @ map fst es"
  by (induction ks es rule: Keys_loop.induct) auto

lemma Values_loop_eq: "Values_loop vs es = vs @ map snd es"
  by (induction vs es rule: Values_loop.induct) auto

lemma copy_entries_eq: "copy_entries m es = m ++ map_of (rev es)"
proof (induction es arbitrary: m)
  case (Cons e es)
  obtain k v where e: "e = (k, v)" by (cases e)
  show ?case by (simp only: e copy_entries.simps Cons.IH rev.simps map_of_append) (auto simp: map_add_def fun_eq_iff split: option.splits)
qed simp

text \<open>Inversion of a list of entries succeeds exactly when the values are distinct and new.\<close>

lemma Invert_loop_ok:
  "distinct (map snd es) \<Longrightarrow> set (map snd es) \<inter> dom acc = {} \<Longrightarrow>
     Invert_loop acc es = Inr (acc ++ map_of (map prod.swap es))"
proof (induction es arbitrary: acc)
  case (Cons e es)
  obtain k w where e: "e = (k, w)" by (cases e)
  with Cons.prems have none: "acc w = None" and w: "w \<notin> set (map snd es)" by auto
  have "set (map snd es) \<inter> dom (acc(w \<mapsto> k)) = {}" using Cons.prems w e by auto
  then have "Invert_loop (acc(w \<mapsto> k)) es = Inr (acc(w \<mapsto> k) ++ map_of (map prod.swap es))"
    using Cons.IH Cons.prems by simp
  moreover have "map_of (map prod.swap es) w = None"
    using w by (force simp: map_of_eq_None_iff)
  ultimately show ?case
    using none by (auto simp: e map_add_def fun_eq_iff split: option.splits)
qed simp

lemma Invert_loop_fail:
  "\<not> (distinct (map snd es) \<and> set (map snd es) \<inter> dom acc = {}) \<Longrightarrow>
     \<exists>v i. Invert_loop acc es = Inl (ErrDuplicateValue v) \<and> i < length es \<and> snd (es ! i) = v
       \<and> (v \<in> dom acc \<or> (\<exists>j < i. snd (es ! j) = v))"
proof (induction es arbitrary: acc)
  case (Cons e rest)
  obtain key w where e: "e = (key, w)" by (cases e)
  show ?case
  proof (cases "acc w")
    case (Some k)
    then show ?thesis by (intro exI [of _ w] exI [of _ 0]) (auto simp: e)
  next
    case None
    with Cons.prems e have "\<not> (distinct (map snd rest) \<and> set (map snd rest) \<inter> dom (acc(w \<mapsto> key)) = {})"
      by auto
    from Cons.IH [OF this] obtain v i where
      r: "Invert_loop (acc(w \<mapsto> key)) rest = Inl (ErrDuplicateValue v)" "i < length rest"
      "snd (rest ! i) = v" "v \<in> dom (acc(w \<mapsto> key)) \<or> (\<exists>j < i. snd (rest ! j) = v)" by blast
    show ?thesis
    proof (intro exI conjI)
      show "Invert_loop acc (e # rest) = Inl (ErrDuplicateValue v)" using r(1) None by (simp add: e)
      show "Suc i < length (e # rest)" using r(2) by simp
      show "snd ((e # rest) ! Suc i) = v" using r(3) by simp
      show "v \<in> dom acc \<or> (\<exists>j < Suc i. snd ((e # rest) ! j) = v)"
        using r(4) by (auto simp: e intro: exI [of _ 0] split: if_splits)
    qed
  qed
qed simp

context map_range
begin

lemma set_range_entries:
  "finite (dom m) \<Longrightarrow> set (range_entries it n m) = {(k, v). m k = Some v}"
  by (force simp: range_entries_def it_set)

lemma keys_range_entries: "finite (dom m) \<Longrightarrow> map fst (range_entries it n m) = it n (dom m)"
  by (simp add: range_entries_def comp_def)

lemma map_of_range_entries: "finite (dom m) \<Longrightarrow> map_of (rev (range_entries it n m)) = m"
proof -
  assume fin: "finite (dom m)"
  have d: "distinct (map fst (range_entries it n m))"
    using fin by (simp add: keys_range_entries it_distinct)
  show ?thesis
  proof
    fix k
    show "map_of (rev (range_entries it n m)) k = m k"
    proof (cases "m k")
      case None
      with fin show ?thesis
        by (auto simp: map_of_eq_None_iff set_range_entries simp flip: rev_map)
    next
      case (Some v)
      with fin have "(k, v) \<in> set (rev (range_entries it n m))" by (simp add: set_range_entries)
      moreover have "distinct (map fst (rev (range_entries it n m)))" using d by (simp flip: rev_map)
      ultimately show ?thesis using Some by simp
    qed
  qed
qed

lemma distinct_values_range_entries:
  "finite (dom m) \<Longrightarrow> distinct (map snd (range_entries it n m)) \<longleftrightarrow> inj_on m (dom m)"
proof -
  assume fin: "finite (dom m)"
  have "distinct (map snd (range_entries it n m))
      \<longleftrightarrow> inj_on (the \<circ> m) (set (it n (dom m)))"
    using fin by (simp add: range_entries_def distinct_map it_distinct comp_def)
  also have "\<dots> \<longleftrightarrow> inj_on m (dom m)"
    using fin by (auto simp: it_set inj_on_def dom_def)
  finally show ?thesis .
qed

lemma Merge_loop_eq:
  "\<forall>m \<in> set ms. finite (dom m) \<Longrightarrow> Merge_loop it n acc ms = foldl (++) acc ms"
  by (induction ms arbitrary: n acc) (auto simp: copy_entries_eq map_of_range_entries)

end

lemma Invert_ok:
  assumes "map_range it" "finite (dom source)" "inj_on source (dom source)"
  shows "\<exists>acc. Invert it source = Inr acc \<and> (\<forall>k v. acc v = Some k \<longleftrightarrow> source k = Some v)"
proof -
  let ?es = "range_entries it 0 source"
  let ?inv = "map_of (map prod.swap ?es)"
  have d: "distinct (map snd ?es)"
    using map_range.distinct_values_range_entries [OF assms(1,2)] assms(3) by simp
  then have "Invert it source = Inr ?inv"
    using Invert_loop_ok [of ?es Map.empty] by (simp add: Invert_def)
  moreover have "?inv v = Some k \<longleftrightarrow> source k = Some v" for k v
  proof -
    have "distinct (map fst (map prod.swap ?es))" using d by (simp add: comp_def)
    then have "?inv v = Some k \<longleftrightarrow> (v, k) \<in> set (map prod.swap ?es)" by (simp add: map_of_eq_Some_iff)
    also have "\<dots> \<longleftrightarrow> (k, v) \<in> set ?es" by force
    finally show ?thesis using map_range.set_range_entries [OF assms(1,2)] by simp
  qed
  ultimately show ?thesis by blast
qed

lemma Invert_error:
  assumes "map_range it" "finite (dom source)" "\<not> inj_on source (dom source)"
  shows "\<exists>v k k'. Invert it source = Inl (ErrDuplicateValue v) \<and> k \<noteq> k'
    \<and> source k = Some v \<and> source k' = Some v"
proof -
  let ?es = "range_entries it 0 source"
  have "\<not> distinct (map snd ?es)"
    using map_range.distinct_values_range_entries [OF assms(1,2)] assms(3) by simp
  then obtain v i j where r: "Invert it source = Inl (ErrDuplicateValue v)" "i < length ?es"
    "j < i" "snd (?es ! i) = v" "snd (?es ! j) = v"
    using Invert_loop_fail [of ?es Map.empty] by (auto simp: Invert_def)
  have mem: "?es ! i \<in> set ?es" "?es ! j \<in> set ?es" using r by simp_all
  have "distinct (map fst ?es)"
    using map_range.keys_range_entries [OF assms(1,2)] map_range.it_distinct [OF assms(1,2)] by simp
  then have "fst (?es ! i) \<noteq> fst (?es ! j)"
    using r(2,3) nth_eq_iff_index_eq [of "map fst ?es" i j] by auto
  with mem r show ?thesis
    using map_range.set_range_entries [OF assms(1,2)]
    by (intro exI [of _ v] exI [of _ "fst (?es ! i)"] exI [of _ "fst (?es ! j)"])
      (auto simp: prod_eq_iff split: prod.splits)
qed

section \<open>Properties\<close>

text \<open>C36. \<^verbatim>\<open>Merge\<close> of any list of maps looks a key up in the last map that has it.\<close>

theorem Merge_later_wins:
  assumes "map_range it" and "\<forall>m \<in> set sources. finite (dom m)"
  shows "Merge it sources k =
    (case filter (\<lambda>m. k \<in> dom m) (rev sources) of [] \<Rightarrow> None | m # _ \<Rightarrow> m k)"
proof -
  have "foldl (++) acc ms k = (case filter (\<lambda>m. k \<in> dom m) (rev ms) of [] \<Rightarrow> acc k | m # _ \<Rightarrow> m k)"
    for acc :: "'a \<rightharpoonup> 'b" and ms
    by (induction ms rule: rev_induct) (auto simp: map_add_def split: option.splits)
  then show ?thesis
    using map_range.Merge_loop_eq [OF assms] by (simp add: Merge_def)
qed

theorem Merge_later_wins_witness:
  "Merge (\<lambda>n. sorted_list_of_set) [[1 \<mapsto> (2::nat), 3 \<mapsto> 4], [(1::nat) \<mapsto> 7]] 1 = Some 7"
  by (subst Merge_later_wins [OF sorted_range.map_range_axioms]) simp_all

text \<open>
  C35. \<^verbatim>\<open>Invert\<close> returns the inverse map when no two keys share a value, and inverting it again
  gives the source back; otherwise it returns the error with a value that two keys share.
\<close>

theorem Invert_correct:
  assumes "map_range it" and "map_range it'" and "finite (dom source)"
  shows "if inj_on source (dom source)
    then \<exists>inverted. Invert it source = Inr inverted
           \<and> (\<forall>k v. inverted v = Some k \<longleftrightarrow> source k = Some v)
           \<and> Invert it' inverted = Inr source
    else \<exists>v k k'. Invert it source = Inl (ErrDuplicateValue v) \<and> k \<noteq> k'
           \<and> source k = Some v \<and> source k' = Some v"
proof (cases "inj_on source (dom source)")
  case True
  from Invert_ok [OF assms(1,3) True] obtain m where
    m: "Invert it source = Inr m" "\<And>k v. m v = Some k \<longleftrightarrow> source k = Some v" by blast
  have "dom m = (the \<circ> source) ` dom source" using m(2) by (force simp: dom_def)
  then have fin: "finite (dom m)" using assms(3) by simp
  have "inj_on m (dom m)"
  proof (rule inj_onI)
    fix v w assume v: "v \<in> dom m" and eq: "m v = m w"
    from v obtain k where k: "m v = Some k" by blast
    with eq have "m w = Some k" by simp
    with k show "v = w" using m(2) by simp
  qed
  from Invert_ok [OF assms(2) fin this] obtain m' where
    m': "Invert it' m = Inr m'" "\<And>k v. m' k = Some v \<longleftrightarrow> m v = Some k" by blast
  have "m' k = source k" for k
    using m'(2) m(2) by (metis option.exhaust)
  then have "m' = source" by (rule ext)
  with True m m'(1) show ?thesis by auto
qed (use Invert_error [OF assms(1,3)] in simp)

theorem Invert_correct_witness:
  "\<exists>inverted. Invert (\<lambda>n. sorted_list_of_set) [(1::nat) \<mapsto> (5::nat), 2 \<mapsto> 6] = Inr inverted
     \<and> inverted 6 = Some 2"
proof -
  have inj: "inj_on [(1::nat) \<mapsto> (5::nat), 2 \<mapsto> 6] (dom [(1::nat) \<mapsto> (5::nat), 2 \<mapsto> 6])"
    by (auto simp: inj_on_def)
  show ?thesis
    using Invert_correct [OF sorted_range.map_range_axioms sorted_range.map_range_axioms,
        of "[(1::nat) \<mapsto> (5::nat), 2 \<mapsto> 6]"] inj by auto
qed

text \<open>C37. \<^verbatim>\<open>Keys\<close> lists every key once, and \<^verbatim>\<open>Values\<close> the value of each key once.\<close>

theorem Keys_Values_correct:
  assumes "map_range it" and "finite (dom source)"
  shows "distinct (Keys it source) \<and> set (Keys it source) = dom source
    \<and> map Some (Values it source) = map source (Keys it source)"
proof -
  have "Keys it source = it 0 (dom source)"
    using map_range.keys_range_entries [OF assms] by (simp add: Keys_def Keys_loop_eq)
  moreover have "map Some (Values it source) = map source (it 0 (dom source))"
    using map_range.it_set [OF assms] by (auto simp: Values_def Values_loop_eq range_entries_def)
  ultimately show ?thesis using map_range.it_set [OF assms] map_range.it_distinct [OF assms] by simp
qed

theorem Keys_Values_correct_witness:
  "set (Keys (\<lambda>n. sorted_list_of_set) [(1::nat) \<mapsto> True, 2 \<mapsto> False]) = {1, 2}"
  using Keys_Values_correct [OF sorted_range.map_range_axioms, of "[(1::nat) \<mapsto> True, 2 \<mapsto> False]"]
  by auto

end
