(* ===== verification/GoSet.thy ===== *)
theory GoSet
  imports GoMaps
begin

text \<open>
  The map-backed set of \<^verbatim>\<open>set/set.go\<close>. \<open>entries\<close> is \<open>None\<close> for the nil map of a zero-value Set and
  \<open>Some S\<close> for a map with key set \<open>S\<close>. Assigning into a nil map panics, which \<open>assign\<close> reports as
  \<open>None\<close>; every method that assigns returns an option, and the lemmas show that no call panics.
  Methods that range over a map take the iteration order, as \<open>GoMaps\<close> explains. Methods that
  modify their receiver and read a second Set work on a heap of Sets indexed by pointer, so that
  passing the receiver as the argument is covered.
\<close>

section \<open>Definitions\<close>

record 'k goset =
  entries :: "'k set option"

type_synonym 'k sheap = "nat \<Rightarrow> 'k goset"

definition zeroSet :: "'k goset" where
  "zeroSet = \<lparr>entries = None\<rparr>"

definition Set_New :: "'k goset" where
  "Set_New = \<lparr>entries = Some {}\<rparr>"

text \<open>The keys a \<^verbatim>\<open>range\<close>, a lookup or \<^verbatim>\<open>len\<close> sees; a nil map reads as empty.\<close>

definition elems :: "'k goset \<Rightarrow> 'k set" where
  "elems s = (case entries s of None \<Rightarrow> {} | Some S \<Rightarrow> S)"

definition assign :: "'k \<Rightarrow> 'k goset \<Rightarrow> 'k goset option" where
  "assign element s =
     (case entries s of None \<Rightarrow> None | Some S \<Rightarrow> Some (s\<lparr>entries := Some (insert element S)\<rparr>))"

fun assign_all :: "'k list \<Rightarrow> 'k goset \<Rightarrow> 'k goset option" where
  "assign_all [] s = Some s"
| "assign_all (element # rest) s =
     (case assign element s of None \<Rightarrow> None | Some s' \<Rightarrow> assign_all rest s')"

definition delete_key :: "'k \<Rightarrow> 'k goset \<Rightarrow> 'k goset" where
  "delete_key element s =
     (case entries s of None \<Rightarrow> s | Some S \<Rightarrow> s\<lparr>entries := Some (S - {element})\<rparr>)"

fun delete_all :: "'k list \<Rightarrow> 'k goset \<Rightarrow> 'k goset" where
  "delete_all [] s = s"
| "delete_all (element # rest) s = delete_all rest (delete_key element s)"

definition ensureEntries :: "'k goset \<Rightarrow> 'k goset" where
  "ensureEntries s = (if entries s = None then s\<lparr>entries := Some {}\<rparr> else s)"

definition Set_Add :: "'k goset \<Rightarrow> 'k \<Rightarrow> 'k goset option" where
  "Set_Add s element = assign element (ensureEntries s)"

fun Set_Add_loop :: "'k goset \<Rightarrow> 'k list \<Rightarrow> 'k goset option" where
  "Set_Add_loop result [] = Some result"
| "Set_Add_loop result (element # rest) =
     (case Set_Add result element of None \<Rightarrow> None | Some r \<Rightarrow> Set_Add_loop r rest)"

definition Set_Of :: "'k list \<Rightarrow> 'k goset option" where
  "Set_Of elements = Set_Add_loop \<lparr>entries = Some {}\<rparr> elements"

definition Set_FromSlice :: "'k list \<Rightarrow> 'k goset option" where
  "Set_FromSlice keys = Set_Of keys"

definition Set_AddAll :: "'k goset \<Rightarrow> 'k list \<Rightarrow> 'k goset option" where
  "Set_AddAll s seq = assign_all seq (ensureEntries s)"

definition Set_Collect :: "'k list \<Rightarrow> 'k goset option" where
  "Set_Collect seq = Set_AddAll Set_New seq"

definition Set_Remove :: "'k goset \<Rightarrow> 'k \<Rightarrow> 'k goset" where
  "Set_Remove s element = delete_key element s"

text \<open>\<^verbatim>\<open>maps.DeleteFunc\<close> deletes the keys that satisfy the predicate.\<close>

fun DeleteFunc_loop :: "('k \<Rightarrow> bool) \<Rightarrow> 'k list \<Rightarrow> 'k goset \<Rightarrow> 'k goset" where
  "DeleteFunc_loop del [] s = s"
| "DeleteFunc_loop del (k # rest) s =
     DeleteFunc_loop del rest (if del k then delete_key k s else s)"

definition Set_RemoveFunc :: "'k iteration \<Rightarrow> 'k goset \<Rightarrow> ('k \<Rightarrow> bool) \<Rightarrow> 'k goset" where
  "Set_RemoveFunc it s predicate = DeleteFunc_loop predicate (it 0 (elems s)) s"

definition Set_Len :: "'k goset \<Rightarrow> nat" where
  "Set_Len s = card (elems s)"

definition Set_IsEmpty :: "'k goset \<Rightarrow> bool" where
  "Set_IsEmpty s \<longleftrightarrow> Set_Len s = 0"

definition smallerFirst :: "'k goset \<Rightarrow> 'k goset \<Rightarrow> 'k goset \<times> 'k goset" where
  "smallerFirst first second = (if Set_Len first < Set_Len second then (first, second) else (second, first))"

definition Set_Contains :: "'k goset \<Rightarrow> 'k \<Rightarrow> bool" where
  "Set_Contains s element \<longleftrightarrow> element \<in> elems s"

text \<open>The loops \<^verbatim>\<open>for element := range m { if keep(element) { result.entries[element] = ... } }\<close>.\<close>

fun assign_if :: "('k \<Rightarrow> bool) \<Rightarrow> 'k list \<Rightarrow> 'k goset \<Rightarrow> 'k goset option" where
  "assign_if keep [] result = Some result"
| "assign_if keep (element # rest) result =
     (if keep element
      then (case assign element result of None \<Rightarrow> None | Some r \<Rightarrow> assign_if keep rest r)
      else assign_if keep rest result)"

definition Set_Difference :: "'k iteration \<Rightarrow> 'k goset \<Rightarrow> 'k goset \<Rightarrow> 'k goset option" where
  "Set_Difference it s other = assign_if (\<lambda>element. \<not> Set_Contains other element) (it 0 (elems s)) Set_New"

definition Set_Intersection :: "'k iteration \<Rightarrow> 'k goset \<Rightarrow> 'k goset \<Rightarrow> 'k goset option" where
  "Set_Intersection it s other =
     (case smallerFirst s other of (smaller, larger) \<Rightarrow>
        assign_if (Set_Contains larger) (it 0 (elems smaller)) Set_New)"

definition Set_Clone :: "'k iteration \<Rightarrow> 'k goset \<Rightarrow> 'k goset option" where
  "Set_Clone it s = assign_all (it 0 (elems s)) \<lparr>entries = Some {}\<rparr>"

definition Set_Union :: "'k iteration \<Rightarrow> 'k goset \<Rightarrow> 'k goset \<Rightarrow> 'k goset option" where
  "Set_Union it s other =
     (case smallerFirst s other of (smaller, larger) \<Rightarrow>
        (case Set_Clone it larger of
           None \<Rightarrow> None
         | Some result \<Rightarrow> assign_all (it 1 (elems smaller)) result))"

definition Set_Disjunction :: "'k iteration \<Rightarrow> 'k goset \<Rightarrow> 'k goset \<Rightarrow> 'k goset option" where
  "Set_Disjunction it s other =
     (case Set_Union it s other of
        None \<Rightarrow> None
      | Some result \<Rightarrow>
          (case Set_Intersection (\<lambda>n. it (n + 2)) s other of
             None \<Rightarrow> None
           | Some intersection \<Rightarrow> Some (delete_all (it 3 (elems intersection)) result)))"

fun Set_ContainsFunc_loop :: "('k \<Rightarrow> bool) \<Rightarrow> 'k list \<Rightarrow> bool" where
  "Set_ContainsFunc_loop predicate [] = False"
| "Set_ContainsFunc_loop predicate (element # rest) =
     (if predicate element then True else Set_ContainsFunc_loop predicate rest)"

definition Set_ContainsFunc :: "'k iteration \<Rightarrow> 'k goset \<Rightarrow> ('k \<Rightarrow> bool) \<Rightarrow> bool" where
  "Set_ContainsFunc it s predicate = Set_ContainsFunc_loop predicate (it 0 (elems s))"

definition Set_Filter :: "'k iteration \<Rightarrow> 'k goset \<Rightarrow> ('k \<Rightarrow> bool) \<Rightarrow> 'k goset option" where
  "Set_Filter it s predicate = assign_if predicate (it 0 (elems s)) Set_New"

text \<open>
  \<open>Set_All\<close> drives a consumer: the consumer's state is threaded and the loop stops when \<open>yield\<close>
  answers false. \<open>Set_ToSlice\<close> appends every element.
\<close>

fun Set_All_loop :: "('k \<Rightarrow> 'c \<Rightarrow> bool \<times> 'c) \<Rightarrow> 'k list \<Rightarrow> 'c \<Rightarrow> 'c" where
  "Set_All_loop yield [] c = c"
| "Set_All_loop yield (element # rest) c =
     (case yield element c of (continue, c') \<Rightarrow> if continue then Set_All_loop yield rest c' else c')"

definition Set_All :: "'k iteration \<Rightarrow> 'k goset \<Rightarrow> ('k \<Rightarrow> 'c \<Rightarrow> bool \<times> 'c) \<Rightarrow> 'c \<Rightarrow> 'c" where
  "Set_All it s yield c = Set_All_loop yield (it 0 (elems s)) c"

fun Set_ToSlice_loop :: "'k list \<Rightarrow> 'k list \<Rightarrow> 'k list" where
  "Set_ToSlice_loop elements [] = elements"
| "Set_ToSlice_loop elements (element # rest) = Set_ToSlice_loop (elements @ [element]) rest"

definition Set_ToSlice :: "'k iteration \<Rightarrow> 'k goset \<Rightarrow> 'k list" where
  "Set_ToSlice it s = Set_ToSlice_loop [] (it 0 (elems s))"

fun Set_ContainsAll :: "'k goset \<Rightarrow> 'k list \<Rightarrow> bool" where
  "Set_ContainsAll s [] = True"
| "Set_ContainsAll s (element # rest) = (if \<not> Set_Contains s element then False else Set_ContainsAll s rest)"

definition Set_IsSubset :: "'k iteration \<Rightarrow> 'k goset \<Rightarrow> 'k goset \<Rightarrow> bool" where
  "Set_IsSubset it s other =
     (if Set_Len s > Set_Len other then False else Set_ContainsAll other (it 0 (elems s)))"

definition Set_IsSuperset :: "'k iteration \<Rightarrow> 'k goset \<Rightarrow> 'k goset \<Rightarrow> bool" where
  "Set_IsSuperset it s other = Set_IsSubset it other s"

definition Set_Equals :: "'k iteration \<Rightarrow> 'k goset \<Rightarrow> 'k goset \<Rightarrow> bool" where
  "Set_Equals it s other \<longleftrightarrow> Set_Len s = Set_Len other \<and> Set_IsSubset it s other"

fun Set_IsDisjoint_loop :: "'k goset \<Rightarrow> 'k list \<Rightarrow> bool" where
  "Set_IsDisjoint_loop larger [] = True"
| "Set_IsDisjoint_loop larger (element # rest) =
     (if Set_Contains larger element then False else Set_IsDisjoint_loop larger rest)"

definition Set_IsDisjoint :: "'k iteration \<Rightarrow> 'k goset \<Rightarrow> 'k goset \<Rightarrow> bool" where
  "Set_IsDisjoint it s other =
     (case smallerFirst s other of (smaller, larger) \<Rightarrow>
        Set_IsDisjoint_loop larger (it 0 (elems smaller)))"

definition Set_Clear :: "'k goset \<Rightarrow> 'k goset" where
  "Set_Clear s = s\<lparr>entries := Some {}\<rparr>"

definition Set_RemoveAll :: "'k goset \<Rightarrow> 'k list \<Rightarrow> 'k goset" where
  "Set_RemoveAll s seq = delete_all seq s"

subsection \<open>In-place operations on a heap of Sets\<close>

definition Set_Update :: "'k iteration \<Rightarrow> 'k sheap \<Rightarrow> nat \<Rightarrow> nat \<Rightarrow> 'k sheap option" where
  "Set_Update it h s other =
     (let h1 = h(s := ensureEntries (h s))
      in case assign_all (it 0 (elems (h1 other))) (h1 s) of
           None \<Rightarrow> None | Some r \<Rightarrow> Some (h1(s := r)))"

definition Set_DifferenceUpdate :: "'k iteration \<Rightarrow> 'k sheap \<Rightarrow> nat \<Rightarrow> nat \<Rightarrow> 'k sheap" where
  "Set_DifferenceUpdate it h s other = h(s := delete_all (it 0 (elems (h other))) (h s))"

definition Set_IntersectionUpdate :: "'k iteration \<Rightarrow> 'k sheap \<Rightarrow> nat \<Rightarrow> nat \<Rightarrow> 'k sheap option" where
  "Set_IntersectionUpdate it h s other =
     (case smallerFirst (h s) (h other) of (smaller, larger) \<Rightarrow>
        (case assign_if (Set_Contains larger) (it 0 (elems smaller)) \<lparr>entries = Some {}\<rparr> of
           None \<Rightarrow> None
         | Some kept \<Rightarrow> Some (h(s := (h s)\<lparr>entries := entries kept\<rparr>))))"

fun Set_DisjunctionUpdate_loop :: "'k list \<Rightarrow> 'k goset \<Rightarrow> 'k goset option" where
  "Set_DisjunctionUpdate_loop [] s = Some s"
| "Set_DisjunctionUpdate_loop (element # rest) s =
     (if Set_Contains s element then Set_DisjunctionUpdate_loop rest (delete_key element s)
      else (case assign element s of None \<Rightarrow> None | Some s' \<Rightarrow> Set_DisjunctionUpdate_loop rest s'))"

definition Set_DisjunctionUpdate :: "'k iteration \<Rightarrow> 'k sheap \<Rightarrow> nat \<Rightarrow> nat \<Rightarrow> 'k sheap option" where
  "Set_DisjunctionUpdate it h s other =
     (if other = s then Some (h(s := Set_Clear (h s)))
      else (case Set_DisjunctionUpdate_loop (it 0 (elems (h other))) (ensureEntries (h s)) of
              None \<Rightarrow> None | Some r \<Rightarrow> Some (h(s := r))))"

section \<open>Lemmas\<close>

text \<open>A result that did not panic and holds exactly the elements of \<open>S\<close>, in a real map.\<close>

definition holds :: "'k goset option \<Rightarrow> 'k set \<Rightarrow> bool" where
  "holds r S \<longleftrightarrow> (\<exists>s. r = Some s \<and> entries s = Some S)"

lemma elems_simps [simp]:
  "entries s = Some S \<Longrightarrow> elems s = S"
  "entries s = None \<Longrightarrow> elems s = {}"
  by (simp_all add: elems_def)

lemma elems_ensureEntries [simp]: "entries (ensureEntries s) = Some (elems s)"
  by (cases "entries s") (auto simp: ensureEntries_def)

lemma elems_delete_key [simp]: "elems (delete_key e s) = elems s - {e}"
  by (cases "entries s") (auto simp: delete_key_def)

lemma entries_delete_key: "entries s = Some S \<Longrightarrow> entries (delete_key e s) = Some (S - {e})"
  by (simp add: delete_key_def)

lemma elems_delete_all [simp]: "elems (delete_all es s) = elems s - set es"
  by (induction es arbitrary: s) auto

lemma elems_DeleteFunc_loop: "elems (DeleteFunc_loop p es s) = elems s - {e \<in> set es. p e}"
  by (induction es arbitrary: s) auto

lemma assign_Some: "entries s = Some S \<Longrightarrow> \<exists>s'. assign e s = Some s' \<and> entries s' = Some (insert e S)"
  by (simp add: assign_def)

lemma assign_if_holds: "entries s = Some S \<Longrightarrow> holds (assign_if p es s) (S \<union> {e \<in> set es. p e})"
proof (induction es arbitrary: s S)
  case (Cons e es)
  obtain s' where s': "assign e s = Some s'" "entries s' = Some (insert e S)"
    using assign_Some [OF Cons.prems] by blast
  show ?case
  proof (cases "p e")
    case True
    then have "{x \<in> set (e # es). p x} = insert e {x \<in> set es. p x}" by auto
    with True Cons.IH [OF s'(2)] s'(1) show ?thesis by simp
  next
    case False
    then have "{x \<in> set (e # es). p x} = {x \<in> set es. p x}" by auto
    with False Cons.IH [OF Cons.prems] show ?thesis by simp
  qed
qed (simp add: holds_def)

lemma assign_all_eq: "assign_all es s = assign_if (\<lambda>_. True) es s"
  by (induction es arbitrary: s) (auto split: option.splits)

lemma assign_all_holds: "entries s = Some S \<Longrightarrow> holds (assign_all es s) (S \<union> set es)"
  using assign_if_holds [of s S "\<lambda>_. True" es] by (simp add: assign_all_eq)

lemma Add_loop_holds: "entries s = Some S \<Longrightarrow> holds (Set_Add_loop s es) (S \<union> set es)"
proof (induction es arbitrary: s S)
  case (Cons e es)
  from Cons.prems have "ensureEntries s = s" by (simp add: ensureEntries_def)
  with assign_Some [OF Cons.prems, of e] obtain s' where
    "Set_Add s e = Some s'" "entries s' = Some (insert e S)" by (auto simp: Set_Add_def)
  with Cons.IH [of s' "insert e S"] show ?case by simp
qed (simp add: holds_def)

lemma ContainsAll_iff: "Set_ContainsAll s es \<longleftrightarrow> set es \<subseteq> elems s"
  by (induction es) (auto simp: Set_Contains_def)

lemma ContainsFunc_loop_iff: "Set_ContainsFunc_loop p es \<longleftrightarrow> (\<exists>e \<in> set es. p e)"
  by (induction es) auto

lemma IsDisjoint_loop_iff: "Set_IsDisjoint_loop s es \<longleftrightarrow> set es \<inter> elems s = {}"
  by (induction es) (auto simp: Set_Contains_def)

lemma ToSlice_loop_eq: "Set_ToSlice_loop acc es = acc @ es"
  by (induction es arbitrary: acc) auto

lemma DisjunctionUpdate_loop_holds:
  "entries s = Some S \<Longrightarrow> distinct es \<Longrightarrow>
     holds (Set_DisjunctionUpdate_loop es s) ((S - set es) \<union> (set es - S))"
proof (induction es arbitrary: s S)
  case (Cons e es)
  show ?case
  proof (cases "e \<in> S")
    case True
    with Cons.IH [OF entries_delete_key [OF Cons.prems(1)], of e] Cons.prems
    have "holds (Set_DisjunctionUpdate_loop (e # es) s) ((S - {e} - set es) \<union> (set es - (S - {e})))"
      by (simp add: Set_Contains_def)
    moreover have "(S - {e} - set es) \<union> (set es - (S - {e})) = (S - set (e # es)) \<union> (set (e # es) - S)"
      using True Cons.prems(2) by auto
    ultimately show ?thesis by simp
  next
    case False
    obtain s' where s': "assign e s = Some s'" "entries s' = Some (insert e S)"
      using assign_Some [OF Cons.prems(1)] by blast
    with False Cons.IH [OF s'(2)] Cons.prems
    have "holds (Set_DisjunctionUpdate_loop (e # es) s) ((insert e S - set es) \<union> (set es - insert e S))"
      by (simp add: Set_Contains_def)
    moreover have "(insert e S - set es) \<union> (set es - insert e S) = (S - set (e # es)) \<union> (set (e # es) - S)"
      using False Cons.prems(2) by auto
    ultimately show ?thesis by simp
  qed
qed (simp add: holds_def)

lemma smallerFirst_cases:
  "smallerFirst s t = (a, b) \<Longrightarrow> (a = s \<and> b = t) \<or> (a = t \<and> b = s)"
  by (auto simp: smallerFirst_def split: if_splits)

context map_range
begin

lemma it_shift: "map_range (\<lambda>n. it (n + k))"
  by unfold_locales (simp_all add: it_set it_distinct)

lemma Difference_holds: "finite (elems s) \<Longrightarrow> holds (Set_Difference it s t) (elems s - elems t)"
  using assign_if_holds [of Set_New "{}" "\<lambda>e. \<not> Set_Contains t e" "it 0 (elems s)"]
  by (simp add: Set_Difference_def Set_New_def Set_Contains_def it_set set_diff_eq)

lemma Filter_holds: "finite (elems s) \<Longrightarrow> holds (Set_Filter it s p) {e \<in> elems s. p e}"
  using assign_if_holds [of Set_New "{}" p "it 0 (elems s)"]
  by (simp add: Set_Filter_def Set_New_def it_set)

lemma Clone_holds: "finite (elems s) \<Longrightarrow> holds (Set_Clone it s) (elems s)"
  using assign_all_holds [of "\<lparr>entries = Some {}\<rparr>" "{}" "it 0 (elems s)"]
  by (simp add: Set_Clone_def it_set)

lemma keep_common_holds:
  "finite (elems s) \<Longrightarrow> finite (elems t) \<Longrightarrow> smallerFirst s t = (a, b) \<Longrightarrow>
     holds (assign_if (Set_Contains b) (it n (elems a)) \<lparr>entries = Some {}\<rparr>) (elems s \<inter> elems t)"
proof -
  assume fin: "finite (elems s)" "finite (elems t)" and sf: "smallerFirst s t = (a, b)"
  then have a: "finite (elems a)" and ab: "elems a \<inter> elems b = elems s \<inter> elems t"
    using smallerFirst_cases [OF sf] by auto
  show ?thesis
    using assign_if_holds [of "\<lparr>entries = Some {}\<rparr>" "{}" "Set_Contains b" "it n (elems a)"]
    by (simp add: it_set a Set_Contains_def flip: ab) (simp add: Int_def)
qed

lemma Intersection_holds:
  "finite (elems s) \<Longrightarrow> finite (elems t) \<Longrightarrow> holds (Set_Intersection it s t) (elems s \<inter> elems t)"
  using keep_common_holds [of s t]
  by (auto simp: Set_Intersection_def Set_New_def split: prod.splits)

lemma Union_holds:
  "finite (elems s) \<Longrightarrow> finite (elems t) \<Longrightarrow> holds (Set_Union it s t) (elems s \<union> elems t)"
proof -
  assume fin: "finite (elems s)" "finite (elems t)"
  obtain a b where sf: "smallerFirst s t = (a, b)" by fastforce
  then have ab: "finite (elems a)" "finite (elems b)" "elems b \<union> elems a = elems s \<union> elems t"
    using smallerFirst_cases [OF sf] fin by auto
  obtain r where r: "Set_Clone it b = Some r" "entries r = Some (elems b)"
    using Clone_holds [OF ab(2)] by (auto simp: holds_def)
  show ?thesis
    using assign_all_holds [OF r(2), of "it 1 (elems a)"] ab
    by (simp add: Set_Union_def sf r it_set)
qed

lemma Disjunction_holds:
  "finite (elems s) \<Longrightarrow> finite (elems t) \<Longrightarrow>
     \<exists>r. Set_Disjunction it s t = Some r \<and> elems r = (elems s - elems t) \<union> (elems t - elems s)"
proof -
  assume fin: "finite (elems s)" "finite (elems t)"
  obtain u where u: "Set_Union it s t = Some u" "entries u = Some (elems s \<union> elems t)"
    using Union_holds [OF fin] by (auto simp: holds_def)
  obtain i where i: "Set_Intersection (\<lambda>n. it (n + 2)) s t = Some i" "entries i = Some (elems s \<inter> elems t)"
    using map_range.Intersection_holds [OF it_shift [of 2] fin] unfolding holds_def by blast
  have "elems i = elems s \<inter> elems t" "elems u = elems s \<union> elems t" using u(2) i(2) by simp_all
  then show ?thesis
    using fin by (simp only: Set_Disjunction_def u(1) i(1) option.case) (auto simp: it_set)
qed

lemma IsSubset_iff:
  "finite (elems s) \<Longrightarrow> finite (elems t) \<Longrightarrow> Set_IsSubset it s t \<longleftrightarrow> elems s \<subseteq> elems t"
  using card_mono [of "elems t" "elems s"]
  by (auto simp: Set_IsSubset_def Set_Len_def ContainsAll_iff it_set)

lemma IsDisjoint_iff:
  "finite (elems s) \<Longrightarrow> finite (elems t) \<Longrightarrow> Set_IsDisjoint it s t \<longleftrightarrow> elems s \<inter> elems t = {}"
  using smallerFirst_cases [of s t]
  by (fastforce simp: Set_IsDisjoint_def IsDisjoint_loop_iff it_set split: prod.splits)

lemma Update_spec:
  "finite (elems (h t)) \<Longrightarrow> \<exists>h'. Set_Update it h s t = Some h' \<and> elems (h' s) = elems (h s) \<union> elems (h t)
     \<and> (\<forall>p. p = s \<or> h' p = h p)"
proof -
  assume fin: "finite (elems (h t))"
  let ?h = "h(s := ensureEntries (h s))"
  have e: "elems (?h t) = elems (h t)" by simp
  have "holds (assign_all (it 0 (elems (?h t))) (?h s)) (elems (h s) \<union> set (it 0 (elems (?h t))))"
    by (rule assign_all_holds) simp
  moreover have "set (it 0 (elems (?h t))) = elems (h t)"
    unfolding e using fin by (rule it_set)
  ultimately have "holds (assign_all (it 0 (elems (?h t))) (?h s)) (elems (h s) \<union> elems (h t))"
    by (simp only:)
  then show ?thesis by (auto simp: Set_Update_def Let_def holds_def)
qed

lemma IntersectionUpdate_spec:
  "finite (elems (h s)) \<Longrightarrow> finite (elems (h t)) \<Longrightarrow>
     \<exists>h'. Set_IntersectionUpdate it h s t = Some h' \<and> elems (h' s) = elems (h s) \<inter> elems (h t)
       \<and> (\<forall>p. p = s \<or> h' p = h p)"
proof -
  assume fin: "finite (elems (h s))" "finite (elems (h t))"
  obtain a b where sf: "smallerFirst (h s) (h t) = (a, b)" by fastforce
  from keep_common_holds [OF fin sf, of 0] show ?thesis
    by (auto simp: Set_IntersectionUpdate_def sf holds_def)
qed

lemma DisjunctionUpdate_spec:
  "finite (elems (h t)) \<Longrightarrow>
     \<exists>h'. Set_DisjunctionUpdate it h s t = Some h'
       \<and> elems (h' s) = (elems (h s) - elems (h t)) \<union> (elems (h t) - elems (h s))
       \<and> (\<forall>p. p = s \<or> h' p = h p)"
proof (cases "t = s")
  case True
  then show ?thesis by (simp add: Set_DisjunctionUpdate_def Set_Clear_def)
next
  case False
  assume fin: "finite (elems (h t))"
  with False DisjunctionUpdate_loop_holds [of "ensureEntries (h s)" "elems (h s)" "it 0 (elems (h t))"]
  show ?thesis by (auto simp: Set_DisjunctionUpdate_def holds_def it_set it_distinct)
qed

end

section \<open>Properties\<close>

text \<open>
  C32. For every iteration order of the maps, the operations that build a new Set return exactly
  the union, intersection, difference, symmetric difference, copy and selection of their inputs,
  and none of them assigns into a nil map, zero-value Sets included.
\<close>

theorem Set_operations_correct:
  assumes "map_range it" and "finite (elems s)" and "finite (elems t)"
  shows "(\<exists>r. Set_Union it s t = Some r \<and> elems r = elems s \<union> elems t)
    \<and> (\<exists>r. Set_Intersection it s t = Some r \<and> elems r = elems s \<inter> elems t)
    \<and> (\<exists>r. Set_Difference it s t = Some r \<and> elems r = elems s - elems t)
    \<and> (\<exists>r. Set_Disjunction it s t = Some r \<and> elems r = (elems s - elems t) \<union> (elems t - elems s))
    \<and> (\<exists>r. Set_Clone it s = Some r \<and> elems r = elems s)
    \<and> (\<exists>r. Set_Filter it s p = Some r \<and> elems r = {e \<in> elems s. p e}
         \<and> elems (Set_RemoveFunc it s p) = elems s - elems r)"
proof -
  note f = assms(2,3)
  have rf: "elems (Set_RemoveFunc it s p) = elems s - {e \<in> elems s. p e}"
    using map_range.it_set [OF assms(1,2)] by (simp add: Set_RemoveFunc_def elems_DeleteFunc_loop)
  show ?thesis
    using map_range.Union_holds [OF assms] map_range.Intersection_holds [OF assms]
      map_range.Difference_holds [OF assms(1,2), of t] map_range.Disjunction_holds [OF assms]
      map_range.Clone_holds [OF assms(1,2)] map_range.Filter_holds [OF assms(1,2), of p] rf
    by (auto simp: holds_def)
qed

theorem Set_operations_correct_witness:
  "\<exists>r. Set_Disjunction (\<lambda>n. sorted_list_of_set) \<lparr>entries = Some {1, 2 :: nat}\<rparr> zeroSet = Some r
     \<and> elems r = {1, 2}"
  using Set_operations_correct [OF sorted_range.map_range_axioms,
      of "\<lparr>entries = Some {1, 2 :: nat}\<rparr>" zeroSet "\<lambda>_. True"]
  by (auto simp: zeroSet_def elems_def)

text \<open>
  C33. The operations that modify the receiver in place give it the union, difference,
  intersection or symmetric difference and change no other Set, also when a Set is passed to
  itself.
\<close>

theorem Set_in_place_correct:
  assumes "map_range it" and "finite (elems (h s))" and "finite (elems (h t))"
  shows "(\<exists>h'. Set_Update it h s t = Some h' \<and> elems (h' s) = elems (h s) \<union> elems (h t)
           \<and> (\<forall>p. p = s \<or> h' p = h p))
    \<and> (case Set_DifferenceUpdate it h s t of h' \<Rightarrow> elems (h' s) = elems (h s) - elems (h t)
           \<and> (\<forall>p. p = s \<or> h' p = h p))
    \<and> (\<exists>h'. Set_IntersectionUpdate it h s t = Some h' \<and> elems (h' s) = elems (h s) \<inter> elems (h t)
           \<and> (\<forall>p. p = s \<or> h' p = h p))
    \<and> (\<exists>h'. Set_DisjunctionUpdate it h s t = Some h'
           \<and> elems (h' s) = (elems (h s) - elems (h t)) \<union> (elems (h t) - elems (h s))
           \<and> (\<forall>p. p = s \<or> h' p = h p))"
proof -
  have d: "case Set_DifferenceUpdate it h s t of h' \<Rightarrow> elems (h' s) = elems (h s) - elems (h t)
           \<and> (\<forall>p. p = s \<or> h' p = h p)"
    using map_range.it_set [OF assms(1,3)] by (simp add: Set_DifferenceUpdate_def)
  show ?thesis
    by (intro conjI map_range.Update_spec map_range.IntersectionUpdate_spec
        map_range.DisjunctionUpdate_spec assms d)
qed

theorem Set_in_place_correct_witness:
  "\<exists>h'. Set_DisjunctionUpdate (\<lambda>n. sorted_list_of_set) (\<lambda>p. \<lparr>entries = Some {p}\<rparr>) 0 (0::nat) = Some h'
     \<and> elems (h' 0) = {}"
  using Set_in_place_correct [OF sorted_range.map_range_axioms, of "\<lambda>p. \<lparr>entries = Some {p}\<rparr>" 0 0]
  by auto

text \<open>
  C34. The queries decide membership, inclusion, equality, disjointness and emptiness of the
  element sets; \<^verbatim>\<open>Of\<close>, \<^verbatim>\<open>FromSlice\<close>, \<^verbatim>\<open>Collect\<close>, \<^verbatim>\<open>Add\<close> and \<^verbatim>\<open>AddAll\<close> never panic and collect their
  arguments, and \<^verbatim>\<open>ToSlice\<close> lists each element once.
\<close>

theorem Set_queries_correct:
  assumes "map_range it" and "finite (elems s)" and "finite (elems t)"
  shows "(Set_Contains s x \<longleftrightarrow> x \<in> elems s)
    \<and> (Set_IsSubset it s t \<longleftrightarrow> elems s \<subseteq> elems t) \<and> (Set_IsSuperset it s t \<longleftrightarrow> elems t \<subseteq> elems s)
    \<and> (Set_Equals it s t \<longleftrightarrow> elems s = elems t) \<and> (Set_IsDisjoint it s t \<longleftrightarrow> elems s \<inter> elems t = {})
    \<and> (Set_ContainsFunc it s p \<longleftrightarrow> (\<exists>e \<in> elems s. p e)) \<and> (Set_IsEmpty s \<longleftrightarrow> elems s = {})
    \<and> distinct (Set_ToSlice it s) \<and> set (Set_ToSlice it s) = elems s \<and> length (Set_ToSlice it s) = Set_Len s
    \<and> holds (Set_Of es) (set es) \<and> holds (Set_FromSlice es) (set es) \<and> holds (Set_Collect es) (set es)
    \<and> holds (Set_Add s x) (insert x (elems s)) \<and> holds (Set_AddAll s es) (elems s \<union> set es)
    \<and> elems (Set_Remove s x) = elems s - {x} \<and> elems (Set_RemoveAll s es) = elems s - set es"
proof -
  note its = map_range.it_set [OF assms(1)]
  have eq: "Set_Equals it s t \<longleftrightarrow> elems s = elems t"
    using card_subset_eq [OF assms(3), of "elems s"] map_range.IsSubset_iff [OF assms]
    by (auto simp: Set_Equals_def Set_Len_def)
  have q: "Set_ContainsFunc it s p \<longleftrightarrow> (\<exists>e \<in> elems s. p e)" "Set_IsEmpty s \<longleftrightarrow> elems s = {}"
    using assms(2) its by (auto simp: Set_ContainsFunc_def ContainsFunc_loop_iff Set_IsEmpty_def Set_Len_def)
  have sl: "distinct (Set_ToSlice it s)" "set (Set_ToSlice it s) = elems s" "length (Set_ToSlice it s) = Set_Len s"
    using assms(2) its map_range.it_distinct [OF assms(1)] map_range.it_length [OF assms(1)]
    by (auto simp: Set_ToSlice_def ToSlice_loop_eq Set_Len_def)
  have c: "holds (Set_Of es) (set es)" "holds (Set_Collect es) (set es)"
    "holds (Set_Add s x) (insert x (elems s))" "holds (Set_AddAll s es) (elems s \<union> set es)"
    using Add_loop_holds [of "\<lparr>entries = Some {}\<rparr>" "{}" es] assign_all_holds [of "ensureEntries Set_New" "{}" es]
      assign_Some [of "ensureEntries s" "elems s" x] assign_all_holds [of "ensureEntries s" "elems s" es]
    by (auto simp: Set_Of_def Set_Collect_def Set_AddAll_def Set_Add_def Set_New_def holds_def)
  show ?thesis
    using eq q sl c map_range.IsSubset_iff [OF assms] map_range.IsSubset_iff [OF assms(1,3,2)]
      map_range.IsDisjoint_iff [OF assms]
    by (simp add: Set_Contains_def Set_IsSuperset_def Set_FromSlice_def Set_Remove_def Set_RemoveAll_def)
qed

theorem Set_queries_correct_witness:
  "Set_Contains \<lparr>entries = Some {1, 2 :: nat}\<rparr> 2 \<and> \<not> Set_Contains zeroSet (2 :: nat)
   \<and> Set_IsSubset (\<lambda>n. sorted_list_of_set) zeroSet \<lparr>entries = Some {1, 2 :: nat}\<rparr>
   \<and> \<not> Set_IsSubset (\<lambda>n. sorted_list_of_set) \<lparr>entries = Some {1, 2 :: nat}\<rparr> zeroSet
   \<and> Set_ContainsFunc (\<lambda>n. sorted_list_of_set) \<lparr>entries = Some {1, 2 :: nat}\<rparr> even
   \<and> length (Set_ToSlice (\<lambda>n. sorted_list_of_set) \<lparr>entries = Some {1, 2 :: nat}\<rparr>) = 2"
  using Set_queries_correct [OF sorted_range.map_range_axioms, where s = zeroSet
      and t = "\<lparr>entries = Some {1, 2 :: nat}\<rparr>" and x = 2 and p = even and es = "[]"]
    Set_queries_correct [OF sorted_range.map_range_axioms, where t = zeroSet
      and s = "\<lparr>entries = Some {1, 2 :: nat}\<rparr>" and x = 2 and p = even and es = "[]"]
  by (simp add: zeroSet_def Set_Len_def)

end
