(* ===== verification/Buffer.thy ===== *)
theory Buffer
  imports Prelude
begin

text \<open>
  The fixed-capacity buffer of \<^verbatim>\<open>buffer/buffer.go\<close>. The record keeps the backing array (whose
  length is its capacity) and the three counters of the source. Every slice expression of the code
  is checked: out of range it is a \<open>BoundsPanic\<close> that leaves the state reached so far. Sums of Go
  ints wrap at 64 bits. A slice that shares memory with the buffer is a view: its bounds and its
  capacity limit in the backing array.
\<close>

section \<open>Definitions\<close>

record 'a buffer =
  buf_data :: "'a list"
  buf_start :: int
  buf_length :: int
  buf_highWater :: int

type_synonym view = "int \<times> int \<times> int"

definition add64 :: "int \<Rightarrow> int \<Rightarrow> int" where
  "add64 a b = wrap64 (a + b)"

definition sub64 :: "int \<Rightarrow> int \<Rightarrow> int" where
  "sub64 a b = wrap64 (a - b)"

definition slice_ok :: "'a list \<Rightarrow> int \<Rightarrow> int \<Rightarrow> bool" where
  "slice_ok xs lo hi \<longleftrightarrow> 0 \<le> lo \<and> lo \<le> hi \<and> hi \<le> int (length xs)"

definition slice_of :: "'a list \<Rightarrow> int \<Rightarrow> int \<Rightarrow> 'a list" where
  "slice_of xs lo hi = take (nat (hi - lo)) (drop (nat lo) xs)"

definition NewBuffer :: "int \<Rightarrow> go_panic + ('a::zero) buffer" where
  "NewBuffer capacity =
     (if capacity < 0 then Inl (PanicMsg ''buffer: negative capacity'')
      else Inr \<lparr>buf_data = replicate (nat capacity) 0, buf_start = 0, buf_length = 0, buf_highWater = 0\<rparr>)"

definition Buffer_Len :: "'a buffer \<Rightarrow> int" where
  "Buffer_Len b = buf_length b"

definition Buffer_Cap :: "'a buffer \<Rightarrow> int" where
  "Buffer_Cap b = int (length (buf_data b))"

definition Buffer_Available :: "'a buffer \<Rightarrow> int" where
  "Buffer_Available b = sub64 (Buffer_Cap b) (buf_length b)"

definition raiseHighWater :: "'a buffer \<Rightarrow> int \<Rightarrow> 'a buffer" where
  "raiseHighWater b endp = (if endp > buf_highWater b then b\<lparr>buf_highWater := endp\<rparr> else b)"

definition checkCount :: "'a buffer \<Rightarrow> int \<Rightarrow> string \<Rightarrow> go_panic option" where
  "checkCount b count operation =
     (if count < 0 \<or> count > buf_length b
      then Some (PanicMsg (''buffer: '' @ operation @ '' out of range'')) else None)"

definition resetStartIfEmpty :: "'a buffer \<Rightarrow> 'a buffer" where
  "resetStartIfEmpty b = (if buf_length b = 0 then b\<lparr>buf_start := 0\<rparr> else b)"

definition Buffer_AvailableBuffer :: "'a buffer \<Rightarrow> ('a buffer, view) outcome" where
  "Buffer_AvailableBuffer b =
     (let endp = add64 (buf_start b) (buf_length b);
          b1 = raiseHighWater b (Buffer_Cap b)
      in if slice_ok (buf_data b1) endp endp then Return (endp, endp, Buffer_Cap b1) b1
         else Panic BoundsPanic b1)"

definition Buffer_Slice :: "'a buffer \<Rightarrow> ('a buffer, view) outcome" where
  "Buffer_Slice b =
     (let endp = add64 (buf_start b) (buf_length b)
      in if slice_ok (buf_data b) (buf_start b) endp then Return (buf_start b, endp, endp) b
         else Panic BoundsPanic b)"

definition Buffer_Reset :: "'a buffer \<Rightarrow> 'a buffer" where
  "Buffer_Reset b = b\<lparr>buf_start := 0, buf_length := 0\<rparr>"

text \<open>\<^verbatim>\<open>clear(b.data[lo:hi])\<close>.\<close>

definition clear_data :: "('a::zero) buffer \<Rightarrow> int \<Rightarrow> int \<Rightarrow> ('a buffer, unit) outcome" where
  "clear_data b lo hi =
     (if slice_ok (buf_data b) lo hi
      then Return () (b\<lparr>buf_data := clear_range (buf_data b) (nat lo) (nat hi)\<rparr>)
      else Panic BoundsPanic b)"

definition Buffer_ResetAndZero :: "('a::zero) buffer \<Rightarrow> ('a buffer, unit) outcome" where
  "Buffer_ResetAndZero b =
     (case clear_data b (buf_start b) (add64 (buf_start b) (buf_length b)) of
        Panic p b1 \<Rightarrow> Panic p b1
      | Return _ b1 \<Rightarrow> Return () (b1\<lparr>buf_start := 0, buf_length := 0\<rparr>))"

definition Buffer_Truncate :: "'a buffer \<Rightarrow> int \<Rightarrow> ('a buffer, unit) outcome" where
  "Buffer_Truncate b newLength =
     (case checkCount b newLength ''truncate'' of
        Some p \<Rightarrow> Panic p b
      | None \<Rightarrow> Return () (resetStartIfEmpty (b\<lparr>buf_length := newLength\<rparr>)))"

definition Buffer_TruncateAndZero :: "('a::zero) buffer \<Rightarrow> int \<Rightarrow> ('a buffer, unit) outcome" where
  "Buffer_TruncateAndZero b newLength =
     (case checkCount b newLength ''truncate'' of
        Some p \<Rightarrow> Panic p b
      | None \<Rightarrow>
          (case clear_data b (add64 (buf_start b) newLength) (add64 (buf_start b) (buf_length b)) of
             Panic p b1 \<Rightarrow> Panic p b1
           | Return _ b1 \<Rightarrow> Return () (resetStartIfEmpty (b1\<lparr>buf_length := newLength\<rparr>))))"

definition Buffer_Consume :: "'a buffer \<Rightarrow> int \<Rightarrow> ('a buffer, unit) outcome" where
  "Buffer_Consume b count =
     (case checkCount b count ''consume'' of
        Some p \<Rightarrow> Panic p b
      | None \<Rightarrow> Return () (resetStartIfEmpty
          (b\<lparr>buf_start := add64 (buf_start b) count, buf_length := sub64 (buf_length b) count\<rparr>)))"

definition Buffer_ConsumeAndZero :: "('a::zero) buffer \<Rightarrow> int \<Rightarrow> ('a buffer, unit) outcome" where
  "Buffer_ConsumeAndZero b count =
     (case checkCount b count ''consume'' of
        Some p \<Rightarrow> Panic p b
      | None \<Rightarrow>
          (case clear_data b (buf_start b) (add64 (buf_start b) count) of
             Panic p b1 \<Rightarrow> Panic p b1
           | Return _ b1 \<Rightarrow> Return () (resetStartIfEmpty
               (b1\<lparr>buf_start := add64 (buf_start b1) count, buf_length := sub64 (buf_length b1) count\<rparr>))))"

definition Buffer_ConsumeRight :: "'a buffer \<Rightarrow> int \<Rightarrow> ('a buffer, unit) outcome" where
  "Buffer_ConsumeRight b count =
     (case checkCount b count ''consume'' of
        Some p \<Rightarrow> Panic p b
      | None \<Rightarrow> Buffer_Truncate b (sub64 (buf_length b) count))"

definition Buffer_ConsumeRightAndZero :: "('a::zero) buffer \<Rightarrow> int \<Rightarrow> ('a buffer, unit) outcome" where
  "Buffer_ConsumeRightAndZero b count =
     (case checkCount b count ''consume'' of
        Some p \<Rightarrow> Panic p b
      | None \<Rightarrow> Buffer_TruncateAndZero b (sub64 (buf_length b) count))"

text \<open>\<^verbatim>\<open>copy(b.data[0:b.length], b.data[b.start:b.start+b.length])\<close>.\<close>

definition move_front :: "'a buffer \<Rightarrow> ('a buffer, unit) outcome" where
  "move_front b =
     (let lo = buf_start b; hi = add64 (buf_start b) (buf_length b)
      in if slice_ok (buf_data b) 0 (buf_length b) \<and> slice_ok (buf_data b) lo hi
         then Return () (b\<lparr>buf_data := blit (buf_data b) 0 (slice_of (buf_data b) lo hi)\<rparr>)
         else Panic BoundsPanic b)"

definition Buffer_Compact :: "'a buffer \<Rightarrow> ('a buffer, unit) outcome" where
  "Buffer_Compact b =
     (if buf_start b = 0 \<or> buf_length b = 0 then Return () (b\<lparr>buf_start := 0\<rparr>)
      else case move_front b of
             Panic p b1 \<Rightarrow> Panic p b1
           | Return _ b1 \<Rightarrow> Return () (b1\<lparr>buf_start := 0\<rparr>))"

definition Buffer_CompactAndZero :: "('a::zero) buffer \<Rightarrow> ('a buffer, unit) outcome" where
  "Buffer_CompactAndZero b =
     (case (if buf_start b > 0 \<and> buf_length b > 0 then move_front b else Return () b) of
        Panic p b1 \<Rightarrow> Panic p b1
      | Return _ b1 \<Rightarrow>
          (let b2 = b1\<lparr>buf_start := 0\<rparr>
           in case (if buf_highWater b2 > buf_length b2
                    then clear_data b2 (buf_length b2) (buf_highWater b2) else Return () b2) of
                Panic p b3 \<Rightarrow> Panic p b3
              | Return _ b3 \<Rightarrow> Return () (b3\<lparr>buf_highWater := buf_length b3\<rparr>)))"

definition Buffer_Append :: "'a buffer \<Rightarrow> 'a list \<Rightarrow> ('a buffer, unit) outcome" where
  "Buffer_Append b values =
     (let count = int (length values)
      in if count = 0 then Return () b
         else if add64 (buf_length b) count > Buffer_Cap b
         then Panic (PanicMsg ''buffer: append would exceed capacity'') b
         else (let tail = sub64 (Buffer_Cap b) (add64 (buf_start b) (buf_length b))
               in case (if tail < count then Buffer_Compact b else Return () b) of
                    Panic p b1 \<Rightarrow> Panic p b1
                  | Return _ b1 \<Rightarrow>
                      (let off = add64 (buf_start b1) (buf_length b1)
                       in if slice_ok (buf_data b1) off (Buffer_Cap b1)
                          then (let b2 = b1\<lparr>buf_data := blit (buf_data b1) (nat off) values,
                                            buf_length := add64 (buf_length b1) count\<rparr>
                                in Return () (raiseHighWater b2 (add64 (buf_start b2) (buf_length b2))))
                          else Panic BoundsPanic b1)))"

definition Buffer_grow :: "('a::zero) buffer \<Rightarrow> int \<Rightarrow> bool \<Rightarrow> ('a buffer, view) outcome" where
  "Buffer_grow b count shouldZero =
     (if count < 0 then Panic (PanicMsg ''buffer: negative grow'') b
      else if add64 (buf_length b) count > Buffer_Cap b
      then Panic (PanicMsg ''buffer: grow would exceed capacity'') b
      else (let tail = sub64 (Buffer_Cap b) (add64 (buf_start b) (buf_length b))
            in case (if tail < count
                     then (if shouldZero then Buffer_CompactAndZero b else Buffer_Compact b)
                     else Return () b) of
                 Panic p b1 \<Rightarrow> Panic p b1
               | Return _ b1 \<Rightarrow>
                   (let start = add64 (buf_start b1) (buf_length b1);
                        endp = add64 start count;
                        b2 = b1\<lparr>buf_length := add64 (buf_length b1) count\<rparr>
                    in case (if shouldZero then clear_data b2 start endp else Return () b2) of
                         Panic p b3 \<Rightarrow> Panic p b3
                       | Return _ b3 \<Rightarrow>
                           (let b4 = raiseHighWater b3 endp
                            in if slice_ok (buf_data b4) start endp then Return (start, endp, endp) b4
                               else Panic BoundsPanic b4))))"

definition Buffer_Grow :: "('a::zero) buffer \<Rightarrow> int \<Rightarrow> ('a buffer, view) outcome" where
  "Buffer_Grow b count = Buffer_grow b count False"

definition Buffer_GrowAndZero :: "('a::zero) buffer \<Rightarrow> int \<Rightarrow> ('a buffer, view) outcome" where
  "Buffer_GrowAndZero b count = Buffer_grow b count True"

definition resetAndZeroAll :: "('a::zero) buffer \<Rightarrow> ('a buffer, unit) outcome" where
  "resetAndZeroAll b =
     (case clear_data b 0 (buf_highWater b) of
        Panic p b1 \<Rightarrow> Panic p b1
      | Return _ b1 \<Rightarrow> Return () (b1\<lparr>buf_start := 0, buf_length := 0, buf_highWater := 0\<rparr>))"

section \<open>Invariant and contents\<close>

definition live :: "'a buffer \<Rightarrow> 'a list" where
  "live b = slice_of (buf_data b) (buf_start b) (buf_start b + buf_length b)"

definition buffer_inv :: "('a::zero) buffer \<Rightarrow> bool" where
  "buffer_inv b \<longleftrightarrow> 0 \<le> buf_start b \<and> 0 \<le> buf_length b
     \<and> buf_start b + buf_length b \<le> buf_highWater b \<and> buf_highWater b \<le> Buffer_Cap b
     \<and> Buffer_Cap b \<le> maxInt
     \<and> (buf_length b = 0 \<longrightarrow> buf_start b = 0)
     \<and> (\<forall>i < length (buf_data b). buf_highWater b \<le> int i \<longrightarrow> buf_data b ! i = 0)"

text \<open>Under the invariant no sum of the counters leaves the 64-bit range.\<close>

lemma inv_start: "buffer_inv b \<Longrightarrow> 0 \<le> buf_start b"
  and inv_length: "buffer_inv b \<Longrightarrow> 0 \<le> buf_length b"
  and inv_end: "buffer_inv b \<Longrightarrow> buf_start b + buf_length b \<le> buf_highWater b"
  and inv_high: "buffer_inv b \<Longrightarrow> buf_highWater b \<le> Buffer_Cap b"
  and inv_cap: "buffer_inv b \<Longrightarrow> Buffer_Cap b \<le> maxInt"
  and inv_zero: "buffer_inv b \<Longrightarrow> i < length (buf_data b) \<Longrightarrow> buf_highWater b \<le> int i \<Longrightarrow> buf_data b ! i = 0"
  by (simp_all add: buffer_inv_def)

lemmas inv_bounds = inv_start inv_length inv_end inv_high inv_cap

lemma add64_id: "0 \<le> a + b \<Longrightarrow> a + b \<le> maxInt \<Longrightarrow> add64 a b = a + b"
  by (simp add: add64_def)

lemma sub64_id: "0 \<le> a - b \<Longrightarrow> a - b \<le> maxInt \<Longrightarrow> sub64 a b = a - b"
  by (simp add: sub64_def)

lemma inv_end64 [simp]: "buffer_inv b \<Longrightarrow> add64 (buf_start b) (buf_length b) = buf_start b + buf_length b"
  using inv_bounds [of b] by (intro add64_id) auto

lemma inv_available [simp]: "buffer_inv b \<Longrightarrow> Buffer_Available b = Buffer_Cap b - buf_length b"
  using inv_bounds [of b] unfolding Buffer_Available_def by (intro sub64_id) auto

lemma length_slice_of [simp]: "slice_ok xs lo hi \<Longrightarrow> length (slice_of xs lo hi) = nat (hi - lo)"
  by (auto simp: slice_of_def slice_ok_def)

lemma nth_slice_of: "slice_ok xs lo hi \<Longrightarrow> i < nat (hi - lo) \<Longrightarrow> slice_of xs lo hi ! i = xs ! (nat lo + i)"
  by (auto simp: slice_of_def slice_ok_def)

lemma slice_of_split:
  "slice_ok xs lo hi \<Longrightarrow> lo \<le> mid \<Longrightarrow> mid \<le> hi \<Longrightarrow> slice_of xs lo hi = slice_of xs lo mid @ slice_of xs mid hi"
proof -
  assume a: "slice_ok xs lo hi" "lo \<le> mid" "mid \<le> hi"
  then have "nat (hi - lo) = nat (mid - lo) + nat (hi - mid)" "nat (mid - lo) + nat lo = nat mid"
    by (auto simp: slice_ok_def)
  then show ?thesis by (simp add: slice_of_def take_add drop_drop)
qed

lemma inv_slice_ok: "buffer_inv b \<Longrightarrow> slice_ok (buf_data b) (buf_start b) (buf_start b + buf_length b)"
  using inv_bounds [of b] by (auto simp: slice_ok_def Buffer_Cap_def)

lemma length_live: "buffer_inv b \<Longrightarrow> int (length (live b)) = Buffer_Len b"
  using inv_length [of b] by (simp add: live_def inv_slice_ok Buffer_Len_def)

lemma live_length: "buffer_inv b \<Longrightarrow> length (live b) = nat (buf_length b)"
  by (simp add: live_def inv_slice_ok)

lemma live_eqI:
  assumes "slice_ok (buf_data b) (buf_start b) (buf_start b + buf_length b)" "length xs = nat (buf_length b)"
    and "\<And>i. i < length xs \<Longrightarrow> buf_data b ! (nat (buf_start b) + i) = xs ! i"
  shows "live b = xs"
  by (rule nth_equalityI) (use assms in \<open>simp_all add: live_def nth_slice_of\<close>)

lemma nth_live: "buffer_inv b \<Longrightarrow> i < nat (buf_length b) \<Longrightarrow> live b ! i = buf_data b ! (nat (buf_start b) + i)"
  by (simp add: live_def nth_slice_of inv_slice_ok)

text \<open>Changing only the counters selects a part of the live elements.\<close>

lemma live_drop_take:
  assumes "buffer_inv b" "0 \<le> n" "0 \<le> m" "n + m \<le> buf_length b"
  shows "live (b\<lparr>buf_start := buf_start b + n, buf_length := m\<rparr>) = take (nat m) (drop (nat n) (live b))"
  using assms inv_slice_ok [OF assms(1)] inv_start [OF assms(1)]
  by (intro live_eqI) (auto simp: slice_ok_def live_length nth_live nat_add_distrib add.assoc)

lemma Cap_updates [simp]:
  "Buffer_Cap (b\<lparr>buf_start := x\<rparr>) = Buffer_Cap b" "Buffer_Cap (b\<lparr>buf_length := x\<rparr>) = Buffer_Cap b"
  "Buffer_Cap (b\<lparr>buf_highWater := x\<rparr>) = Buffer_Cap b" "Buffer_Cap (resetStartIfEmpty b) = Buffer_Cap b"
  "Buffer_Cap (raiseHighWater b x) = Buffer_Cap b"
  "Buffer_Cap (b\<lparr>buf_data := clear_range xs lo hi\<rparr>) = int (length xs)"
  "Buffer_Cap (b\<lparr>buf_data := blit xs i ys\<rparr>) = int (length xs)"
  by (simp_all add: Buffer_Cap_def resetStartIfEmpty_def raiseHighWater_def)

lemma live_updates [simp]:
  "live (b\<lparr>buf_highWater := x\<rparr>) = live b" "live (raiseHighWater b x) = live b"
  by (simp_all add: live_def raiseHighWater_def)

lemma live_resetStart [simp]: "live (resetStartIfEmpty b) = live b"
  by (auto simp: resetStartIfEmpty_def live_def slice_of_def)

lemma data_resetStart [simp]: "buf_data (resetStartIfEmpty b) = buf_data b"
  by (simp add: resetStartIfEmpty_def)

lemma start_same: "buf_start b = 0 \<Longrightarrow> b\<lparr>buf_start := 0\<rparr> = b"
  by simp

lemma inv_shrink:
  assumes "buffer_inv b" "0 \<le> n" "0 \<le> m" "n + m \<le> buf_length b"
  shows "buffer_inv (resetStartIfEmpty (b\<lparr>buf_start := buf_start b + n, buf_length := m\<rparr>))"
  using assms by (auto simp: buffer_inv_def resetStartIfEmpty_def Buffer_Cap_def)

text \<open>Clearing elements outside the live region keeps the live elements and the invariant.\<close>

lemma inv_clear: "buffer_inv b \<Longrightarrow> buffer_inv (b\<lparr>buf_data := clear_range (buf_data b) lo hi\<rparr>)"
  by (auto simp: buffer_inv_def Buffer_Cap_def nth_clear_range)

lemma live_clear:
  assumes "buffer_inv b" "int hi \<le> buf_start b \<or> buf_start b + buf_length b \<le> int lo"
  shows "live (b\<lparr>buf_data := clear_range (buf_data b) lo hi\<rparr>) = live b"
  using inv_slice_ok [OF assms(1)] inv_bounds [OF assms(1)] assms
  by (intro live_eqI) (auto simp: slice_ok_def live_length nth_live nth_clear_range)

section \<open>Behaviour of the operations\<close>

lemma NewBuffer_inv: "0 \<le> n \<Longrightarrow> n \<le> maxInt \<Longrightarrow> NewBuffer n = Inr b \<Longrightarrow>
    buffer_inv b \<and> live b = [] \<and> Buffer_Cap b = n"
  by (auto simp: NewBuffer_def buffer_inv_def live_def slice_of_def Buffer_Cap_def)

lemma Truncate_ok:
  assumes "buffer_inv b" "0 \<le> n" "n \<le> buf_length b"
  shows "\<exists>b'. Buffer_Truncate b n = Return () b' \<and> buffer_inv b' \<and> live b' = take (nat n) (live b)
    \<and> Buffer_Cap b' = Buffer_Cap b"
  using inv_shrink [of b 0 n] live_drop_take [of b 0 n] assms
  by (auto simp: Buffer_Truncate_def checkCount_def)

lemma Consume_ok:
  assumes "buffer_inv b" "0 \<le> n" "n \<le> buf_length b"
  shows "\<exists>b'. Buffer_Consume b n = Return () b' \<and> buffer_inv b' \<and> live b' = drop (nat n) (live b)
    \<and> Buffer_Cap b' = Buffer_Cap b"
proof -
  have a: "add64 (buf_start b) n = buf_start b + n" "sub64 (buf_length b) n = buf_length b - n"
    using assms inv_bounds [OF assms(1)] by (auto intro!: add64_id sub64_id)
  have "live (b\<lparr>buf_start := buf_start b + n, buf_length := buf_length b - n\<rparr>) = drop (nat n) (live b)"
    using live_drop_take [of b n "buf_length b - n"] assms by (simp add: live_length nat_diff_distrib)
  with inv_shrink [of b n "buf_length b - n"] assms a show ?thesis
    by (auto simp: Buffer_Consume_def checkCount_def)
qed

lemma ConsumeRight_ok:
  assumes "buffer_inv b" "0 \<le> n" "n \<le> buf_length b"
  shows "\<exists>b'. Buffer_ConsumeRight b n = Return () b' \<and> buffer_inv b'
    \<and> live b' = take (length (live b) - nat n) (live b) \<and> Buffer_Cap b' = Buffer_Cap b"
proof -
  have "sub64 (buf_length b) n = buf_length b - n"
    using assms inv_bounds [OF assms(1)] by (auto intro!: sub64_id)
  then show ?thesis
    using Truncate_ok [of b "buf_length b - n"] assms
    by (auto simp: Buffer_ConsumeRight_def checkCount_def live_length nat_diff_distrib)
qed

text \<open>The zeroing removals behave as their plain forms on an array with the removed part cleared.\<close>

lemma TruncateAndZero_ok:
  assumes "buffer_inv b" "0 \<le> n" "n \<le> buf_length b"
  defines "d \<equiv> clear_range (buf_data b) (nat (buf_start b + n)) (nat (buf_start b + buf_length b))"
  shows "\<exists>b'. Buffer_TruncateAndZero b n = Return () b' \<and> buffer_inv b' \<and> live b' = take (nat n) (live b)
    \<and> buf_data b' = d \<and> Buffer_Cap b' = Buffer_Cap b"
proof -
  let ?b = "b\<lparr>buf_data := d\<rparr>"
  have e: "add64 (buf_start b) n = buf_start b + n"
    using assms inv_bounds [OF assms(1)] by (auto intro!: add64_id)
  have c: "clear_data b (buf_start b + n) (buf_start b + buf_length b) = Return () ?b"
    using assms inv_slice_ok [OF assms(1)] by (simp add: clear_data_def slice_ok_def)
  have i: "buffer_inv (b\<lparr>buf_length := n\<rparr>)" if "n \<noteq> 0" using assms that by (auto simp: buffer_inv_def)
  have l: "live (?b\<lparr>buf_length := n\<rparr>) = live (b\<lparr>buf_length := n\<rparr>)"
  proof (cases "n = 0")
    case False
    from live_clear [OF i [OF this], of "nat (buf_start b + buf_length b)" "nat (buf_start b + n)"]
    show ?thesis using assms inv_start [OF assms(1)] by (simp add: d_def live_def)
  qed (simp add: live_def slice_of_def)
  show ?thesis
    using inv_shrink [OF inv_clear [OF assms(1)], of 0 n "nat (buf_start b + n)" "nat (buf_start b + buf_length b)"]
      live_drop_take [of b 0 n] assms e c l
    by (auto simp: Buffer_TruncateAndZero_def checkCount_def d_def Buffer_Cap_def)
qed

lemma ConsumeAndZero_ok:
  assumes "buffer_inv b" "0 \<le> n" "n \<le> buf_length b"
  defines "d \<equiv> clear_range (buf_data b) (nat (buf_start b)) (nat (buf_start b + n))"
  shows "\<exists>b'. Buffer_ConsumeAndZero b n = Return () b' \<and> buffer_inv b' \<and> live b' = drop (nat n) (live b)
    \<and> buf_data b' = d \<and> Buffer_Cap b' = Buffer_Cap b"
proof -
  let ?b = "b\<lparr>buf_data := d\<rparr>"
  let ?c = "\<lambda>b. b\<lparr>buf_start := buf_start b + n, buf_length := buf_length b - n\<rparr>"
  have e: "add64 (buf_start b) n = buf_start b + n" "sub64 (buf_length b) n = buf_length b - n"
    using assms inv_bounds [OF assms(1)] by (auto intro!: add64_id sub64_id)
  have c: "clear_data b (buf_start b) (buf_start b + n) = Return () ?b"
    using assms inv_slice_ok [OF assms(1)] by (simp add: clear_data_def slice_ok_def)
  have l: "live (?c ?b) = live (?c b)"
    using inv_slice_ok [OF assms(1)] inv_start [OF assms(1)] assms(2,3)
    by (intro live_eqI) (auto simp: slice_ok_def d_def live_def nth_slice_of nth_clear_range)
  have "live (?c b) = drop (nat n) (live b)"
    using live_drop_take [of b n "buf_length b - n"] assms by (simp add: live_length nat_diff_distrib)
  then show ?thesis
    using inv_shrink [OF inv_clear [OF assms(1)], of n "buf_length b - n" "nat (buf_start b)" "nat (buf_start b + n)"]
      assms e c l
    by (auto simp: Buffer_ConsumeAndZero_def checkCount_def d_def Buffer_Cap_def)
qed

lemma move_front_ok:
  assumes "buffer_inv b"
  defines "d \<equiv> blit (buf_data b) 0 (live b)"
  shows "move_front b = Return () (b\<lparr>buf_data := d\<rparr>)" "length d = length (buf_data b)"
    "buffer_inv (b\<lparr>buf_data := d, buf_start := 0\<rparr>)" "live (b\<lparr>buf_data := d, buf_start := 0\<rparr>) = live b"
proof -
  note bs = inv_bounds [OF assms(1)] inv_slice_ok [OF assms(1)]
  show "move_front b = Return () (b\<lparr>buf_data := d\<rparr>)"
    using bs assms(1) by (simp add: move_front_def Let_def d_def live_def slice_ok_def Buffer_Cap_def)
  show "length d = length (buf_data b)" by (simp add: d_def)
  show "live (b\<lparr>buf_data := d, buf_start := 0\<rparr>) = live b"
    using bs live_length [OF assms(1)]
    by (intro live_eqI) (auto simp: slice_ok_def d_def nth_blit)
  show "buffer_inv (b\<lparr>buf_data := d, buf_start := 0\<rparr>)"
    using assms(1) live_length [OF assms(1)]
    by (auto simp: buffer_inv_def d_def nth_blit Buffer_Cap_def)
qed

lemma Compact_ok:
  assumes "buffer_inv b"
  shows "\<exists>b'. Buffer_Compact b = Return () b' \<and> buffer_inv b' \<and> live b' = live b \<and> buf_start b' = 0
    \<and> buf_length b' = buf_length b \<and> Buffer_Cap b' = Buffer_Cap b"
proof (cases "buf_start b = 0 \<or> buf_length b = 0")
  case True
  then have "buf_start b = 0" using assms by (auto simp: buffer_inv_def)
  with True assms show ?thesis by (auto simp: Buffer_Compact_def start_same)
next
  case False
  then show ?thesis using move_front_ok [OF assms] by (auto simp: Buffer_Compact_def Buffer_Cap_def)
qed

lemma CompactAndZero_ok:
  assumes "buffer_inv b"
  shows "\<exists>b'. Buffer_CompactAndZero b = Return () b' \<and> buffer_inv b' \<and> live b' = live b \<and> buf_start b' = 0
    \<and> buf_length b' = buf_length b \<and> buf_highWater b' = buf_length b
    \<and> (\<forall>i < length (buf_data b'). buf_length b \<le> int i \<longrightarrow> buf_data b' ! i = 0)
    \<and> Buffer_Cap b' = Buffer_Cap b"
proof -
  obtain b1 where b1: "(if buf_start b > 0 \<and> buf_length b > 0 then move_front b else Return () b) = Return () b1"
    "buffer_inv (b1\<lparr>buf_start := 0\<rparr>)" "live (b1\<lparr>buf_start := 0\<rparr>) = live b"
    "buf_length b1 = buf_length b" "buf_highWater b1 = buf_highWater b" "length (buf_data b1) = length (buf_data b)"
  proof (cases "buf_start b > 0 \<and> buf_length b > 0")
    case True
    with move_front_ok [OF assms] that show ?thesis by auto
  next
    case False
    then have "buf_start b = 0" using assms by (auto simp: buffer_inv_def)
    with False assms that [of b] show ?thesis by (auto simp: start_same)
  qed
  define b2 where "b2 = b1\<lparr>buf_start := 0\<rparr>"
  note bs = inv_bounds [OF b1(2), folded b2_def]
  define d where "d = clear_range (buf_data b2) (nat (buf_length b2)) (nat (buf_highWater b2))"
  have c: "(if buf_highWater b2 > buf_length b2 then clear_data b2 (buf_length b2) (buf_highWater b2)
      else Return () b2) = Return () (b2\<lparr>buf_data := d\<rparr>)"
    using bs by (auto simp: clear_data_def slice_ok_def d_def Buffer_Cap_def b2_def)
  have z: "i < length d \<Longrightarrow> buf_length b \<le> int i \<Longrightarrow> d ! i = 0" for i
    using inv_zero [OF b1(2)] bs b1(4,5)
    by (cases "buf_highWater b2 \<le> int i") (auto simp: d_def nth_clear_range b2_def)
  have "live (b2\<lparr>buf_data := d\<rparr>) = live b2"
    using live_clear [of b2 "nat (buf_highWater b2)" "nat (buf_length b2)"] b1(2) bs
    by (simp add: d_def b2_def)
  moreover have "buffer_inv (b2\<lparr>buf_data := d, buf_highWater := buf_length b2\<rparr>)"
    using b1(2) bs z b1(4) by (auto simp: buffer_inv_def b2_def Buffer_Cap_def d_def)
  moreover have "Buffer_CompactAndZero b = Return () (b2\<lparr>buf_data := d, buf_highWater := buf_length b2\<rparr>)"
    unfolding Buffer_CompactAndZero_def b1(1) outcome.case Let_def b2_def [symmetric] c by simp
  moreover have "buf_start b2 = 0" "live b2 = live b" "buf_length b2 = buf_length b"
    "length d = length (buf_data b)"
    using b1(3,4,6) by (simp_all add: b2_def d_def)
  ultimately show ?thesis using z by (simp add: Buffer_Cap_def)
qed

text \<open>Both Append and grow first make the tail long enough, compacting if it is not.\<close>

lemma make_room:
  assumes "buffer_inv b" "0 \<le> n" "buf_length b + n \<le> Buffer_Cap b"
    and "\<exists>b1. compacted = Return () b1 \<and> buffer_inv b1 \<and> live b1 = live b \<and> buf_start b1 = 0
      \<and> buf_length b1 = buf_length b \<and> Buffer_Cap b1 = Buffer_Cap b"
  shows "\<exists>b1. (if sub64 (Buffer_Cap b) (add64 (buf_start b) (buf_length b)) < n then compacted else Return () b)
      = Return () b1
    \<and> buffer_inv b1 \<and> live b1 = live b \<and> buf_length b1 = buf_length b \<and> Buffer_Cap b1 = Buffer_Cap b
    \<and> buf_start b1 + buf_length b1 + n \<le> Buffer_Cap b1"
proof -
  have "sub64 (Buffer_Cap b) (buf_start b + buf_length b) = Buffer_Cap b - (buf_start b + buf_length b)"
    using inv_bounds [OF assms(1)] by (intro sub64_id) auto
  with assms show ?thesis by auto
qed

lemma inv_write:
  assumes "buffer_inv b" "buf_start b + buf_length b + int (length xs) \<le> Buffer_Cap b" "xs \<noteq> []"
  defines "e \<equiv> buf_start b + buf_length b"
  defines "b' \<equiv> raiseHighWater (b\<lparr>buf_data := blit (buf_data b) (nat e) xs,
     buf_length := buf_length b + int (length xs)\<rparr>) (e + int (length xs))"
  shows "buffer_inv b'" "live b' = live b @ xs" "Buffer_Cap b' = Buffer_Cap b"
proof -
  note bs = inv_bounds [OF assms(1)]
  show "buffer_inv b'"
    using assms(1,2) bs unfolding buffer_inv_def b'_def e_def
    by (auto simp: raiseHighWater_def nth_blit Buffer_Cap_def)
  have "slice_ok (buf_data b') (buf_start b') (buf_start b' + buf_length b')"
    using \<open>buffer_inv b'\<close> by (rule inv_slice_ok)
  then show "live b' = live b @ xs"
    using bs live_length [OF assms(1)] nth_live [OF assms(1)] assms(2)
    by (intro live_eqI)
      (auto simp: b'_def e_def raiseHighWater_def nth_blit nth_append Buffer_Cap_def nat_add_distrib)
  show "Buffer_Cap b' = Buffer_Cap b" by (simp add: b'_def Buffer_Cap_def raiseHighWater_def)
qed

lemma Append_ok:
  assumes "buffer_inv b" "buf_length b + int (length values) \<le> Buffer_Cap b"
  shows "\<exists>b'. Buffer_Append b values = Return () b' \<and> buffer_inv b' \<and> live b' = live b @ values
    \<and> Buffer_Cap b' = Buffer_Cap b"
proof (cases "values = []")
  case True
  with assms show ?thesis by (simp add: Buffer_Append_def)
next
  case False
  let ?n = "int (length values)"
  note bs = inv_bounds [OF assms(1)]
  have fits: "add64 (buf_length b) ?n = buf_length b + ?n" using bs assms by (intro add64_id) auto
  obtain b1 where c: "(if sub64 (Buffer_Cap b) (add64 (buf_start b) (buf_length b)) < ?n
      then Buffer_Compact b else Return () b) = Return () b1"
    and r: "buffer_inv b1" "live b1 = live b" "buf_length b1 = buf_length b" "Buffer_Cap b1 = Buffer_Cap b"
    "buf_start b1 + buf_length b1 + ?n \<le> Buffer_Cap b1"
    using make_room [OF assms(1) _ assms(2), of "Buffer_Compact b"] Compact_ok [OF assms(1)] by auto
  note bs1 = inv_bounds [OF r(1)]
  have ar: "add64 (buf_length b1) ?n = buf_length b1 + ?n"
    "add64 (buf_start b1) (buf_length b1 + ?n) = buf_start b1 + buf_length b1 + ?n"
    using bs1 r(5) by (simp_all add: add64_id add.assoc)
  have ok: "slice_ok (buf_data b1) (buf_start b1 + buf_length b1) (Buffer_Cap b1)"
    using bs1 by (simp add: slice_ok_def Buffer_Cap_def)
  have "Buffer_Append b values = Return () (raiseHighWater (b1\<lparr>buf_data := blit (buf_data b1)
      (nat (buf_start b1 + buf_length b1)) values, buf_length := buf_length b1 + ?n\<rparr>)
      (buf_start b1 + buf_length b1 + ?n))"
    using False assms(2) fits c ar ok r(1) unfolding Buffer_Append_def Let_def c by simp
  then show ?thesis using inv_write [OF r(1,5) False] r by simp
qed

lemma Append_full:
  assumes "buffer_inv b" "Buffer_Cap b < buf_length b + int (length values)"
    "buf_length b + int (length values) \<le> maxInt"
  shows "Buffer_Append b values = Panic (PanicMsg ''buffer: append would exceed capacity'') b"
proof -
  have "add64 (buf_length b) (int (length values)) = buf_length b + int (length values)"
    using inv_bounds [OF assms(1)] assms by (intro add64_id) auto
  moreover have "values \<noteq> []" using inv_bounds [OF assms(1)] assms(2) by auto
  ultimately show ?thesis using assms(2) by (simp add: Buffer_Append_def)
qed

text \<open>Extending the live region over the following elements of the array.\<close>

lemma inv_extend:
  assumes "buffer_inv b" "0 < n" "buf_start b + buf_length b + n \<le> Buffer_Cap b"
  defines "e \<equiv> buf_start b + buf_length b"
  defines "b' \<equiv> raiseHighWater (b\<lparr>buf_length := buf_length b + n\<rparr>) (e + n)"
  shows "buffer_inv b'" "live b' = live b @ slice_of (buf_data b) e (e + n)"
proof -
  note bs = inv_bounds [OF assms(1)]
  show inv: "buffer_inv b'"
    using assms(1-3) bs unfolding buffer_inv_def b'_def e_def
    by (auto simp: raiseHighWater_def Buffer_Cap_def)
  have "slice_ok (buf_data b) (buf_start b) (e + n)"
    using bs assms(2,3) by (simp add: slice_ok_def e_def Buffer_Cap_def)
  from slice_of_split [OF this, of e] show "live b' = live b @ slice_of (buf_data b) e (e + n)"
    using bs assms(2) by (simp add: b'_def live_def e_def raiseHighWater_def add.assoc)
qed

lemma slice_of_clear: "slice_ok xs lo hi \<Longrightarrow> slice_of (clear_range xs (nat lo) (nat hi)) lo hi = replicate (nat (hi - lo)) 0"
  by (rule nth_equalityI) (auto simp: slice_ok_def nth_slice_of nth_clear_range)

lemma grow_ok:
  assumes "buffer_inv b" "0 \<le> n" "buf_length b + n \<le> Buffer_Cap b"
  shows "\<exists>b' e new. Buffer_grow b n z = Return (e, e + n, e + n) b' \<and> buffer_inv b' \<and> live b' = live b @ new
    \<and> int (length new) = n \<and> (z \<longrightarrow> new = replicate (nat n) 0)
    \<and> slice_of (buf_data b') e (e + n) = new \<and> e = buf_start b' + buf_length b
    \<and> Buffer_Cap b' = Buffer_Cap b"
proof -
  note bs = inv_bounds [OF assms(1)]
  have fits: "add64 (buf_length b) n = buf_length b + n" using bs assms by (intro add64_id) auto
  let ?compact = "\<lambda>b. if z then Buffer_CompactAndZero b else Buffer_Compact b"
  have cz: "\<exists>b1. ?compact b = Return () b1 \<and> buffer_inv b1 \<and> live b1 = live b \<and> buf_start b1 = 0
      \<and> buf_length b1 = buf_length b \<and> Buffer_Cap b1 = Buffer_Cap b"
    using Compact_ok [OF assms(1)] CompactAndZero_ok [OF assms(1)] by auto
  obtain b1 where c: "(if sub64 (Buffer_Cap b) (add64 (buf_start b) (buf_length b)) < n
      then ?compact b else Return () b) = Return () b1"
    and r: "buffer_inv b1" "live b1 = live b" "buf_length b1 = buf_length b" "Buffer_Cap b1 = Buffer_Cap b"
    "buf_start b1 + buf_length b1 + n \<le> Buffer_Cap b1"
    using make_room [OF assms cz] by blast
  note bs1 = inv_bounds [OF r(1)]
  define e where "e = buf_start b1 + buf_length b1"
  define bz where "bz = (if z then b1\<lparr>buf_data := clear_range (buf_data b1) (nat e) (nat (e + n))\<rparr> else b1)"
  have invz: "buffer_inv bz" using inv_clear [OF r(1)] r(1) by (auto simp: bz_def)
  have bzf: "buf_start bz = buf_start b1" "buf_length bz = buf_length b1" "Buffer_Cap bz = Buffer_Cap b1"
    "live bz = live b"
    using live_clear [OF r(1), of "nat (e + n)" "nat e"] bs1 r(2)
    by (auto simp: bz_def e_def Buffer_Cap_def)
  have ar: "add64 (buf_length b1) n = buf_length b1 + n" "add64 e n = e + n"
    using bs1 r(5) assms(2) by (auto simp: e_def intro!: add64_id)
  have ok: "slice_ok (buf_data b1) e (e + n)" "slice_ok (buf_data bz) e (e + n)"
    using bs1 r(5) assms(2) bzf(3) by (auto simp: slice_ok_def e_def Buffer_Cap_def)
  define b' where "b' = raiseHighWater (bz\<lparr>buf_length := buf_length bz + n\<rparr>) (e + n)"
  have run: "Buffer_grow b n z = Return (e, e + n, e + n) b'"
    using assms(2,3) fits c ar ok r(1) bzf unfolding Buffer_grow_def Let_def c b'_def
    by (auto simp: e_def [symmetric] clear_data_def bz_def raiseHighWater_def)
  define new where "new = slice_of (buf_data bz) e (e + n)"
  have "live b' = live b @ new \<and> buffer_inv b'"
  proof (cases "n = 0")
    case True
    then have "b' = bz" using inv_bounds [OF invz] bzf by (simp add: b'_def e_def raiseHighWater_def)
    with True invz bzf show ?thesis by (simp add: new_def slice_of_def)
  next
    case False
    with inv_extend [OF invz, of n] r(5) assms(2) bzf show ?thesis by (simp add: b'_def new_def e_def)
  qed
  moreover have "z \<longrightarrow> new = replicate (nat n) 0"
    using slice_of_clear [OF ok(1)] by (simp add: new_def bz_def)
  moreover have "buf_data b' = buf_data bz" "buf_start b' = buf_start b1"
    using bzf by (simp_all add: b'_def raiseHighWater_def)
  ultimately show ?thesis
    using run ok(2) assms(2) r bzf
    by (intro exI [of _ b'] exI [of _ e] exI [of _ new])
      (auto simp: new_def e_def b'_def)
qed

lemma Reset_ok: "buffer_inv b \<Longrightarrow> buffer_inv (Buffer_Reset b) \<and> live (Buffer_Reset b) = []"
  by (auto simp: buffer_inv_def Buffer_Reset_def live_def slice_of_def Buffer_Cap_def)

lemma ResetAndZero_ok:
  assumes "buffer_inv b"
  shows "\<exists>b'. Buffer_ResetAndZero b = Return () b' \<and> buffer_inv b' \<and> live b' = []
    \<and> buf_data b' = clear_range (buf_data b) (nat (buf_start b)) (nat (buf_start b + buf_length b))"
proof -
  have "clear_data b (buf_start b) (buf_start b + buf_length b)
      = Return () (b\<lparr>buf_data := clear_range (buf_data b) (nat (buf_start b)) (nat (buf_start b + buf_length b))\<rparr>)"
    using inv_slice_ok [OF assms] by (simp add: clear_data_def)
  with Reset_ok [OF inv_clear [OF assms], of "nat (buf_start b)" "nat (buf_start b + buf_length b)"] assms
  show ?thesis by (simp add: Buffer_ResetAndZero_def Buffer_Reset_def)
qed

text \<open>A full wipe gives the buffer that \<^verbatim>\<open>NewBuffer\<close> returns, whatever was written before.\<close>

lemma resetAndZeroAll_fresh:
  assumes "buffer_inv b"
  shows "\<exists>b'. resetAndZeroAll b = Return () b' \<and> NewBuffer (Buffer_Cap b) = Inr b'"
proof -
  note bs = inv_bounds [OF assms]
  have "clear_range (buf_data b) 0 (nat (buf_highWater b)) = replicate (length (buf_data b)) 0"
    using inv_zero [OF assms] bs by (intro nth_equalityI) (auto simp: nth_clear_range)
  moreover have "slice_ok (buf_data b) 0 (buf_highWater b)"
    using bs by (simp add: slice_ok_def Buffer_Cap_def)
  ultimately show ?thesis
    by (simp add: resetAndZeroAll_def clear_data_def NewBuffer_def Buffer_Cap_def)
qed

lemma AvailableBuffer_ok:
  assumes "buffer_inv b"
  defines "e \<equiv> buf_start b + buf_length b"
  shows "\<exists>b'. Buffer_AvailableBuffer b = Return (e, e, Buffer_Cap b) b' \<and> buffer_inv b' \<and> live b' = live b
    \<and> buf_data b' = buf_data b \<and> buf_start b' = buf_start b \<and> buf_length b' = buf_length b
    \<and> buf_highWater b' = Buffer_Cap b"
proof -
  note bs = inv_bounds [OF assms(1)]
  have "slice_ok (buf_data (raiseHighWater b (Buffer_Cap b))) e e"
    using bs by (simp add: slice_ok_def raiseHighWater_def Buffer_Cap_def e_def)
  moreover have "buffer_inv (raiseHighWater b (Buffer_Cap b))"
    using assms(1) by (auto simp: buffer_inv_def raiseHighWater_def Buffer_Cap_def)
  ultimately show ?thesis
    using assms(1) bs by (auto simp: Buffer_AvailableBuffer_def Let_def raiseHighWater_def e_def Buffer_Cap_def)
qed

subsection \<open>Writing through a view\<close>

text \<open>
  A caller stores elements through the slice that \<open>Grow\<close> or \<open>AvailableBuffer\<close> returned. The
  high-water mark already covers the view, so the invariant survives any such store.
\<close>

definition fill_view :: "'a buffer \<Rightarrow> int \<Rightarrow> 'a list \<Rightarrow> 'a buffer" where
  "fill_view b lo xs = b\<lparr>buf_data := blit (buf_data b) (nat lo) xs\<rparr>"

lemma fill_view_inv:
  "buffer_inv b \<Longrightarrow> 0 \<le> lo \<Longrightarrow> lo + int (length xs) \<le> buf_highWater b \<Longrightarrow> buffer_inv (fill_view b lo xs)"
  by (auto simp: buffer_inv_def fill_view_def Buffer_Cap_def nth_blit)

lemma fill_view_live:
  assumes "buffer_inv b" "live b = xs @ ys" "length zs = length ys" "lo = buf_start b + int (length xs)"
  shows "live (fill_view b lo zs) = xs @ zs"
proof (rule live_eqI)
  note bs = inv_bounds [OF assms(1)] inv_slice_ok [OF assms(1)]
  show "slice_ok (buf_data (fill_view b lo zs)) (buf_start (fill_view b lo zs))
      (buf_start (fill_view b lo zs) + buf_length (fill_view b lo zs))"
    using bs by (simp add: fill_view_def slice_ok_def)
  have len: "nat (buf_length b) = length xs + length ys"
    using live_length [OF assms(1)] assms(2) by simp
  then show "length (xs @ zs) = nat (buf_length (fill_view b lo zs))"
    using assms(3) by (simp add: fill_view_def)
  fix i assume i: "i < length (xs @ zs)"
  then have "buf_data b ! (nat (buf_start b) + i) = (xs @ ys) ! i"
    using nth_live [OF assms(1), of i] len assms(2,3) by simp
  moreover have "nat lo = nat (buf_start b) + length xs" using assms(4) bs by simp
  moreover have "nat (buf_start b) + i < length (buf_data b)"
    using i len assms(3) bs by (simp add: slice_ok_def)
  ultimately show "buf_data (fill_view b lo zs) ! (nat (buf_start (fill_view b lo zs)) + i) = (xs @ zs) ! i"
    using i assms(3) by (auto simp: fill_view_def nth_blit nth_append)
qed

section \<open>The deque the buffer implements\<close>

text \<open>
  The contract a client of the buffer relies on: the contents are a list of at most \<open>capacity\<close>
  elements, removals and additions at the ends are those of the list, and a call that cannot be
  served panics and leaves the buffer as it was.
\<close>

datatype 'a deque_op = Append_op "'a list" | Consume_op int | ConsumeRight_op int

fun spec_op :: "int \<Rightarrow> 'a list \<Rightarrow> 'a deque_op \<Rightarrow> 'a list option" where
  "spec_op capacity xs (Append_op ys) =
     (if int (length xs) + int (length ys) \<le> capacity then Some (xs @ ys) else None)"
| "spec_op capacity xs (Consume_op n) =
     (if 0 \<le> n \<and> n \<le> int (length xs) then Some (drop (nat n) xs) else None)"
| "spec_op capacity xs (ConsumeRight_op n) =
     (if 0 \<le> n \<and> n \<le> int (length xs) then Some (take (length xs - nat n) xs) else None)"

text \<open>A sequence of calls by a caller that recovers from panics: final contents and outcomes.\<close>

fun spec_run :: "int \<Rightarrow> 'a list \<Rightarrow> 'a deque_op list \<Rightarrow> 'a list \<times> bool list" where
  "spec_run capacity xs [] = (xs, [])"
| "spec_run capacity xs (opn # rest) =
     (case spec_op capacity xs opn of
        None \<Rightarrow> (case spec_run capacity xs rest of (ys, oks) \<Rightarrow> (ys, False # oks))
      | Some xs' \<Rightarrow> (case spec_run capacity xs' rest of (ys, oks) \<Rightarrow> (ys, True # oks)))"

fun impl_run :: "('b \<Rightarrow> 'a deque_op \<Rightarrow> ('b, unit) outcome) \<Rightarrow> 'b \<Rightarrow> 'a deque_op list \<Rightarrow> 'b \<times> bool list" where
  "impl_run step b [] = (b, [])"
| "impl_run step b (opn # rest) =
     (case step b opn of
        Panic p b' \<Rightarrow> (case impl_run step b' rest of (c, oks) \<Rightarrow> (c, False # oks))
      | Return _ b' \<Rightarrow> (case impl_run step b' rest of (c, oks) \<Rightarrow> (c, True # oks)))"

locale bounded_deque =
  fixes invar :: "'b \<Rightarrow> bool"
    and contents :: "'b \<Rightarrow> 'a list"
    and capacity :: "'b \<Rightarrow> int"
    and accepts :: "int \<Rightarrow> 'a deque_op \<Rightarrow> bool"
    and step :: "'b \<Rightarrow> 'a deque_op \<Rightarrow> ('b, unit) outcome"
  assumes step_ok: "invar b \<Longrightarrow> spec_op (capacity b) (contents b) opn = Some xs \<Longrightarrow>
      \<exists>b'. step b opn = Return () b' \<and> invar b' \<and> contents b' = xs \<and> capacity b' = capacity b"
    and step_fail: "invar b \<Longrightarrow> accepts (capacity b) opn \<Longrightarrow> spec_op (capacity b) (contents b) opn = None \<Longrightarrow>
      \<exists>p. step b opn = Panic p b"
begin

lemma run_refines:
  "invar b \<Longrightarrow> list_all (accepts (capacity b)) ops \<Longrightarrow>
     (case impl_run step b ops of (b', oks) \<Rightarrow> invar b' \<and> capacity b' = capacity b
        \<and> spec_run (capacity b) (contents b) ops = (contents b', oks))"
proof (induction ops arbitrary: b)
  case (Cons opn ops)
  show ?case
  proof (cases "spec_op (capacity b) (contents b) opn")
    case None
    with Cons.prems obtain p where "step b opn = Panic p b" using step_fail by auto
    with None Cons.IH [OF Cons.prems(1)] Cons.prems(2) show ?thesis by (auto split: prod.splits)
  next
    case (Some xs)
    with Cons.prems obtain b1 where b1: "step b opn = Return () b1" "invar b1" "contents b1 = xs"
      "capacity b1 = capacity b" using step_ok by blast
    with Some Cons.IH [OF b1(2)] Cons.prems(2) show ?thesis by (auto split: prod.splits)
  qed
qed simp

end

fun Buffer_step :: "'a buffer \<Rightarrow> 'a deque_op \<Rightarrow> ('a buffer, unit) outcome" where
  "Buffer_step b (Append_op values) = Buffer_Append b values"
| "Buffer_step b (Consume_op n) = Buffer_Consume b n"
| "Buffer_step b (ConsumeRight_op n) = Buffer_ConsumeRight b n"

text \<open>
  The check of \<^verbatim>\<open>Append\<close> adds the lengths before it compares, so it decides correctly as long as the
  sum of the capacity and the number of values is an int. Elements that occupy memory never reach
  that bound; for a zero-sized element type see \<open>Append_overflow_corrupts\<close> below.
\<close>

fun op_in_range :: "int \<Rightarrow> 'a deque_op \<Rightarrow> bool" where
  "op_in_range capacity (Append_op values) \<longleftrightarrow> capacity + int (length values) < 2 ^ 63"
| "op_in_range capacity _ \<longleftrightarrow> True"

lemma inv_len_le_cap: "buffer_inv b \<Longrightarrow> buf_length b \<le> Buffer_Cap b"
  using inv_bounds [of b] by linarith

interpretation buffer_deque: bounded_deque
  buffer_inv live Buffer_Cap op_in_range Buffer_step
proof (unfold_locales, goal_cases)
  case (1 b opn xs)
  then have b: "buffer_inv b" by simp
  have len: "int (length (live b)) = buf_length b" using length_live [OF b] by (simp add: Buffer_Len_def)
  show ?case
  proof (cases opn)
    case (Append_op vs)
    then show ?thesis using 1(2) len Append_ok [OF b, of vs] by (auto split: if_splits)
  next
    case (Consume_op n)
    then show ?thesis using 1(2) len Consume_ok [OF b, of n] by (auto split: if_splits)
  next
    case (ConsumeRight_op n)
    then show ?thesis using 1(2) len ConsumeRight_ok [OF b, of n] by (auto split: if_splits)
  qed
next
  case (2 b opn)
  then have b: "buffer_inv b" by simp
  have len: "int (length (live b)) = buf_length b" using length_live [OF b] by (simp add: Buffer_Len_def)
  show ?case
    using 2(2,3) len Append_full [OF b] inv_len_le_cap [OF b]
    by (cases opn)
      (auto simp: Buffer_Consume_def Buffer_ConsumeRight_def checkCount_def maxInt_def split: if_splits)
qed

section \<open>Properties\<close>

text \<open>
  C23. Any sequence of \<^verbatim>\<open>Append\<close>, \<^verbatim>\<open>Consume\<close> and \<^verbatim>\<open>ConsumeRight\<close> calls, panicking calls included,
  refines the bounded list: the same calls succeed, the live elements are the list, and the
  invariant and the capacity are kept. It is assumed that the capacity plus the number of values of
  each \<^verbatim>\<open>Append\<close> is below \<open>2^63\<close>; only elements of size zero can break that.
\<close>

theorem Buffer_run_refines:
  assumes "buffer_inv b" and "list_all (op_in_range (Buffer_Cap b)) ops"
  shows "case impl_run Buffer_step b ops of (b', oks) \<Rightarrow>
    buffer_inv b' \<and> Buffer_Cap b' = Buffer_Cap b
    \<and> spec_run (Buffer_Cap b) (live b) ops = (live b', oks)"
  using buffer_deque.run_refines [of b ops] assms by (auto split: prod.splits)

definition example_buffer :: "int buffer" where
  "example_buffer = \<lparr>buf_data = [0, 0, 0, 0], buf_start = 0, buf_length = 0, buf_highWater = 0\<rparr>"

lemma example_buffer_inv:
  "buffer_inv example_buffer" "Buffer_Cap example_buffer = 4" "live example_buffer = []"
  by (auto simp: example_buffer_def buffer_inv_def Buffer_Cap_def maxInt_def live_def slice_of_def
      nth_Cons split: nat.splits)

theorem Buffer_run_refines_witness:
  "live (fst (impl_run Buffer_step example_buffer
     [Append_op [10, 20, 30], Consume_op 2, Append_op [40, 50, 60], Append_op [70]])) = [30, 40, 50, 60]"
    (is "live (fst (impl_run _ _ ?ops)) = _")
proof -
  obtain b oks where r: "impl_run Buffer_step example_buffer ?ops = (b, oks)" by fastforce
  have ops: "list_all (op_in_range (Buffer_Cap example_buffer)) ?ops"
    unfolding example_buffer_inv(2) by simp
  have spec: "spec_run 4 [] ?ops = ([30, 40, 50, 60], [True, True, True, False])" by simp
  show ?thesis
    using Buffer_run_refines [OF example_buffer_inv(1) ops] unfolding r example_buffer_inv(2,3) spec
    by (simp only: fst_conv split_conv prod.inject)
qed

text \<open>
  C28. \<^verbatim>\<open>CompactAndZero\<close> keeps the live elements, moves them to index 0 and leaves every other
  element of the backing array zero, although it clears only up to the high-water mark.
\<close>

theorem CompactAndZero_wipes:
  assumes "buffer_inv b"
  shows "\<exists>b'. Buffer_CompactAndZero b = Return () b' \<and> buffer_inv b'
    \<and> buf_data b' = live b @ replicate (nat (Buffer_Cap b - Buffer_Len b)) 0 \<and> live b' = live b"
proof -
  obtain b' where b': "Buffer_CompactAndZero b = Return () b'" "buffer_inv b'" "live b' = live b"
    "buf_start b' = 0" "buf_length b' = buf_length b" "Buffer_Cap b' = Buffer_Cap b"
    "\<forall>i < length (buf_data b'). buf_length b \<le> int i \<longrightarrow> buf_data b' ! i = 0"
    using CompactAndZero_ok [OF assms] by blast
  note bs = inv_bounds [OF assms]
  have "buf_data b' = live b @ replicate (nat (Buffer_Cap b - Buffer_Len b)) 0"
  proof (rule nth_equalityI)
    show "length (buf_data b') = length (live b @ replicate (nat (Buffer_Cap b - Buffer_Len b)) 0)"
      using b'(6) live_length [OF assms] bs by (simp add: Buffer_Cap_def Buffer_Len_def)
    fix i assume i: "i < length (buf_data b')"
    then show "buf_data b' ! i = (live b @ replicate (nat (Buffer_Cap b - Buffer_Len b)) 0) ! i"
      using nth_live [OF b'(2), of i] b'(3-7) live_length [OF assms] bs
      by (auto simp: nth_append Buffer_Cap_def Buffer_Len_def)
  qed
  with b' show ?thesis by blast
qed

theorem CompactAndZero_wipes_witness:
  "\<exists>b'. Buffer_CompactAndZero \<lparr>buf_data = [7, 8, 9, 0 :: int], buf_start = 1, buf_length = 1, buf_highWater = 3\<rparr>
     = Return () b' \<and> buf_data b' = [8, 0, 0, 0]"
proof -
  have i: "buffer_inv \<lparr>buf_data = [7, 8, 9, 0 :: int], buf_start = 1, buf_length = 1, buf_highWater = 3\<rparr>"
    by (auto simp: buffer_inv_def Buffer_Cap_def maxInt_def nth_Cons split: nat.splits)
  show ?thesis
    using CompactAndZero_wipes [OF i] by (auto simp: live_def slice_of_def Buffer_Cap_def Buffer_Len_def numeral_eq_Suc)
qed

text \<open>
  C30. Growing by \<open>n\<close> and storing \<open>n\<close> elements through the returned slice gives the contents an
  \<^verbatim>\<open>Append\<close> of those elements gives, and \<^verbatim>\<open>GrowAndZero\<close> returns only zeroes, although the array
  may hold stale elements there.
\<close>

theorem Grow_fill_is_Append:
  assumes "buffer_inv b" and "buf_length b + int (length xs) \<le> Buffer_Cap b"
  shows "\<exists>b1 b2 lo. Buffer_Grow b (int (length xs)) = Return (lo, lo + int (length xs), lo + int (length xs)) b1
    \<and> Buffer_Append b xs = Return () b2
    \<and> buffer_inv (fill_view b1 lo xs) \<and> live (fill_view b1 lo xs) = live b2
    \<and> (\<exists>b3 lo3. Buffer_GrowAndZero b (int (length xs)) = Return (lo3, lo3 + int (length xs), lo3 + int (length xs)) b3
         \<and> live b3 = live b @ replicate (length xs) 0)"
proof -
  let ?n = "int (length xs)"
  obtain b1 e new where g: "Buffer_grow b ?n False = Return (e, e + ?n, e + ?n) b1" "buffer_inv b1"
    "live b1 = live b @ new" "int (length new) = ?n" "e = buf_start b1 + buf_length b"
    using grow_ok [OF assms(1) _ assms(2), of False] by auto
  obtain b2 where a: "Buffer_Append b xs = Return () b2" "live b2 = live b @ xs"
    using Append_ok [OF assms] by blast
  obtain b3 e3 where z: "Buffer_grow b ?n True = Return (e3, e3 + ?n, e3 + ?n) b3"
    "live b3 = live b @ replicate (nat ?n) 0"
    using grow_ok [OF assms(1) _ assms(2), of True] by auto
  have e: "e = buf_start b1 + int (length (live b))"
    using g(5) live_length [OF assms(1)] inv_length [OF assms(1)] by simp
  have len: "buf_length b1 = buf_length b + ?n"
    using length_live [OF g(2)] length_live [OF assms(1)] g(3,4) by (simp add: Buffer_Len_def)
  have "live (fill_view b1 e xs) = live b @ xs" using fill_view_live [OF g(2,3) _ e] g(4) by simp
  moreover have "buffer_inv (fill_view b1 e xs)"
    using inv_bounds [OF g(2)] inv_length [OF assms(1)] len g(5) by (intro fill_view_inv [OF g(2)]) auto
  ultimately show ?thesis
    using g(1) a z by (auto simp: Buffer_Grow_def Buffer_GrowAndZero_def)
qed

theorem Grow_fill_is_Append_witness:
  "\<exists>b1 b2 lo. Buffer_Grow example_buffer 2 = Return (lo, lo + 2, lo + 2) b1
     \<and> Buffer_Append example_buffer [5, 6] = Return () b2 \<and> live (fill_view b1 lo [5, 6]) = live b2"
  using Grow_fill_is_Append [OF example_buffer_inv(1), of "[5, 6]"]
  by (auto simp: example_buffer_inv example_buffer_def Buffer_Cap_def)

text \<open>
  C31. The capacity check of \<^verbatim>\<open>grow\<close> adds before it compares. On a buffer that is not empty, a
  count near the largest int makes the sum wrap to a negative number, so the check passes, and the
  call ends in a run-time bounds error with the buffer's length already negative: a caller that
  recovers has a broken buffer, where a count that is merely too large panics with nothing changed.
\<close>

theorem grow_overflow_corrupts:
  assumes "buffer_inv b" and "0 < buf_length b" and "maxInt - buf_length b < n" and "n \<le> maxInt"
  shows "\<exists>b'. Buffer_grow b n z = Panic BoundsPanic b' \<and> buf_length b' = buf_length b + n - 2 ^ 64
    \<and> buf_length b' < 0 \<and> \<not> buffer_inv b'"
proof -
  note bs = inv_bounds [OF assms(1)]
  have lm: "buf_length b \<le> maxInt" using bs by linarith
  have neg: "buf_length b + n - 2 ^ 64 < 0" using assms(4) lm by (simp add: maxInt_def)
  have w: "add64 (buf_length b) n = buf_length b + n - 2 ^ 64"
    using assms(3,4) lm by (simp add: add64_def wrap64_over)
  have n: "0 \<le> n" using assms(3) lm by linarith
  have "sub64 (Buffer_Cap b) (buf_start b + buf_length b) = Buffer_Cap b - (buf_start b + buf_length b)"
    using bs by (intro sub64_id) auto
  then have t: "sub64 (Buffer_Cap b) (add64 (buf_start b) (buf_length b)) < n"
    using assms(1,3) bs by simp
  obtain b1 where b1: "(if z then Buffer_CompactAndZero b else Buffer_Compact b) = Return () b1"
    "buf_start b1 = 0" "buf_length b1 = buf_length b"
    using Compact_ok [OF assms(1)] CompactAndZero_ok [OF assms(1)] by (cases z) auto
  have s: "add64 (buf_start b1) (buf_length b1) = buf_length b"
    using b1 bs by (simp add: add64_id lm)
  have bad: "\<not> slice_ok xs (buf_length b) (buf_length b + n - 2 ^ 64)" for xs :: "'a list"
    using neg assms(2) by (simp add: slice_ok_def)
  have cap: "\<not> buf_length b + n - 2 ^ 64 > Buffer_Cap b" using neg bs by linarith
  have "\<exists>b'. Buffer_grow b n z = Panic BoundsPanic b' \<and> buf_length b' = buf_length b + n - 2 ^ 64"
    unfolding Buffer_grow_def Let_def
    using n w cap t b1 s bad
    by (auto simp: clear_data_def raiseHighWater_def)
  with neg show ?thesis by (auto simp: buffer_inv_def)
qed

theorem grow_overflow_corrupts_witness:
  "\<exists>b'. Buffer_grow \<lparr>buf_data = [1 :: int, 0], buf_start = 0, buf_length = 1, buf_highWater = 1\<rparr> maxInt False
     = Panic BoundsPanic b' \<and> buf_length b' = - (2 ^ 63)"
proof -
  have i: "buffer_inv \<lparr>buf_data = [1 :: int, 0], buf_start = 0, buf_length = 1, buf_highWater = 1\<rparr>"
    by (auto simp: buffer_inv_def Buffer_Cap_def maxInt_def nth_Cons split: nat.splits)
  show ?thesis using grow_overflow_corrupts [OF i, of maxInt False] by (auto simp: maxInt_def)
qed

text \<open>
  The same overflow in \<^verbatim>\<open>Append\<close>, where it needs a slice of more than \<open>2^62\<close> elements on one side and
  so an element type of size zero: the check passes, nothing panics, and the call returns with a
  negative length.
\<close>

lemma Append_overflow_corrupts:
  assumes "buffer_inv b" and "maxInt < buf_length b + int (length values)" and "int (length values) \<le> maxInt"
  shows "\<exists>b'. Buffer_Append b values = Return () b' \<and> buf_length b' = buf_length b + int (length values) - 2 ^ 64
    \<and> buf_length b' < 0 \<and> \<not> buffer_inv b'"
proof -
  note bs = inv_bounds [OF assms(1)]
  let ?n = "int (length values)"
  have lm: "buf_length b \<le> maxInt" using bs by linarith
  have neg: "buf_length b + ?n - 2 ^ 64 < 0" using assms(3) lm by (simp add: maxInt_def)
  have w: "add64 (buf_length b) ?n = buf_length b + ?n - 2 ^ 64"
    using assms(2,3) lm by (simp add: add64_def wrap64_over)
  have "sub64 (Buffer_Cap b) (buf_start b + buf_length b) = Buffer_Cap b - (buf_start b + buf_length b)"
    using bs by (intro sub64_id) auto
  then have t: "sub64 (Buffer_Cap b) (add64 (buf_start b) (buf_length b)) < ?n"
    using assms(1,2) bs by simp
  obtain b1 where b1: "Buffer_Compact b = Return () b1" "buf_start b1 = 0" "buf_length b1 = buf_length b" "Buffer_Cap b1 = Buffer_Cap b"
    using Compact_ok [OF assms(1)] by auto
  have s: "add64 (buf_start b1) (buf_length b1) = buf_length b" "slice_ok (buf_data b1) (buf_length b) (Buffer_Cap b1)"
    using b1 bs by (simp_all add: add64_id lm slice_ok_def Buffer_Cap_def)
  have c: "\<not> buf_length b + ?n - 2 ^ 64 > Buffer_Cap b" "?n \<noteq> 0" using neg bs lm assms(2) by linarith+
  have "\<exists>b'. Buffer_Append b values = Return () b' \<and> buf_length b' = buf_length b + ?n - 2 ^ 64"
    unfolding Buffer_Append_def Let_def using w c t b1 s by (auto simp: raiseHighWater_def)
  with neg show ?thesis by (auto simp: buffer_inv_def)
qed

text \<open>The overflow can happen: a full buffer of \<open>2^62\<close> zero-sized elements and as many values.\<close>

lemma Append_overflow_happens:
  "\<exists>b'. Buffer_Append \<lparr>buf_data = replicate (2 ^ 62) (0 :: 'a::zero), buf_start = 0, buf_length = 2 ^ 62, buf_highWater = 2 ^ 62\<rparr>
     (replicate (2 ^ 62) 0) = Return () b' \<and> buf_length b' = - (2 ^ 63)"
proof -
  have i: "buffer_inv \<lparr>buf_data = replicate (2 ^ 62) (0 :: 'a::zero), buf_start = 0, buf_length = 2 ^ 62, buf_highWater = 2 ^ 62\<rparr>"
    by (auto simp: buffer_inv_def Buffer_Cap_def maxInt_def)
  show ?thesis using Append_overflow_corrupts [OF i, of "replicate (2 ^ 62) 0"] by (auto simp: maxInt_def)
qed

end
