(* ===== verification/BytesBuffer.thy ===== *)
theory BytesBuffer
  imports Buffer
begin

text \<open>
  The byte buffer of \<^verbatim>\<open>buffer/bytes_buffer.go\<close>: the reader and writer methods on top of the
  buffer of the theory Buffer. A byte is an 8-bit word and a Go string its list of bytes. The
  contract is a bounded pipe: writes append what fits, reads take from the front.
\<close>

section \<open>Definitions\<close>

type_synonym byte = "8 word"

datatype io_error = ErrFull | EOF

definition NewBytesBuffer :: "int \<Rightarrow> go_panic + byte buffer" where
  "NewBytesBuffer capacity = NewBuffer capacity"

definition BytesBuffer_Write :: "byte buffer \<Rightarrow> byte list \<Rightarrow> (byte buffer, int \<times> io_error option) outcome" where
  "BytesBuffer_Write b p =
     (let available = Buffer_Available b
      in if available < int (length p)
         then (if available < 0 then Panic BoundsPanic b
               else case Buffer_Append b (take (nat available) p) of
                      Panic e b1 \<Rightarrow> Panic e b1
                    | Return _ b1 \<Rightarrow> Return (available, Some ErrFull) b1)
         else case Buffer_Append b p of
                Panic e b1 \<Rightarrow> Panic e b1
              | Return _ b1 \<Rightarrow> Return (int (length p), None) b1)"

definition BytesBuffer_WriteString :: "byte buffer \<Rightarrow> byte list \<Rightarrow> (byte buffer, int \<times> io_error option) outcome" where
  "BytesBuffer_WriteString b txt = BytesBuffer_Write b txt"

definition BytesBuffer_WriteByte :: "byte buffer \<Rightarrow> byte \<Rightarrow> (byte buffer, io_error option) outcome" where
  "BytesBuffer_WriteByte b x =
     (if Buffer_Available b = 0 then Return (Some ErrFull) b
      else case Buffer_Append b [x] of
             Panic e b1 \<Rightarrow> Panic e b1
           | Return _ b1 \<Rightarrow> Return None b1)"

definition BytesBuffer_Bytes :: "byte buffer \<Rightarrow> (byte buffer, view) outcome" where
  "BytesBuffer_Bytes b = Buffer_Slice b"

definition BytesBuffer_String :: "byte buffer \<Rightarrow> (byte buffer, byte list) outcome" where
  "BytesBuffer_String b =
     (case Buffer_Slice b of
        Panic e b1 \<Rightarrow> Panic e b1
      | Return (lo, hi, lim) b1 \<Rightarrow> Return (slice_of (buf_data b1) lo hi) b1)"

text \<open>\<^verbatim>\<open>Read\<close> also returns the destination slice with what it copied into it.\<close>

definition BytesBuffer_Read :: "byte buffer \<Rightarrow> byte list \<Rightarrow> (byte buffer, int \<times> io_error option \<times> byte list) outcome" where
  "BytesBuffer_Read b p =
     (if length p = 0 then Return (0, None, p) b
      else if Buffer_Len b = 0 then Return (0, Some EOF, p) b
      else case Buffer_Slice b of
             Panic e b1 \<Rightarrow> Panic e b1
           | Return (lo, hi, lim) b1 \<Rightarrow>
               (let src = slice_of (buf_data b1) lo hi;
                    n = int (min (length p) (length src))
                in case Buffer_Consume b1 n of
                     Panic e b2 \<Rightarrow> Panic e b2
                   | Return _ b2 \<Rightarrow> Return (n, None, blit p 0 src) b2))"

section \<open>Behaviour of each method\<close>

lemma Slice_ok: "buffer_inv b \<Longrightarrow>
    Buffer_Slice b = Return (buf_start b, buf_start b + buf_length b, buf_start b + buf_length b) b"
  by (simp add: Buffer_Slice_def inv_slice_ok Let_def)

lemma String_ok: "buffer_inv b \<Longrightarrow> BytesBuffer_String b = Return (live b) b"
  by (simp add: BytesBuffer_String_def Slice_ok live_def)

lemma Write_ok:
  fixes p :: "byte list"
  assumes "buffer_inv b"
  defines "n \<equiv> min (length p) (nat (Buffer_Cap b - buf_length b))"
  shows "\<exists>b'. BytesBuffer_Write b p = Return (int n, if n < length p then Some ErrFull else None) b'
    \<and> buffer_inv b' \<and> live b' = live b @ take n p \<and> Buffer_Cap b' = Buffer_Cap b"
proof -
  have c: "0 \<le> Buffer_Cap b - buf_length b" using inv_len_le_cap [OF assms(1)] by simp
  show ?thesis
  proof (cases "Buffer_Cap b - buf_length b < int (length p)")
    case True
    then have n: "int n = Buffer_Cap b - buf_length b" "n = nat (Buffer_Cap b - buf_length b)" "n < length p"
      using c by (auto simp: n_def)
    then show ?thesis
      using Append_ok [OF assms(1), of "take n p"] True c assms(1)
      by (auto simp: BytesBuffer_Write_def)
  next
    case False
    then have "n = length p" by (auto simp: n_def)
    then show ?thesis
      using Append_ok [OF assms(1), of p] False assms(1) by (auto simp: BytesBuffer_Write_def)
  qed
qed

lemma WriteByte_ok:
  assumes "buffer_inv b"
  shows "\<exists>b'. BytesBuffer_WriteByte b x = Return (if buf_length b < Buffer_Cap b then None else Some ErrFull) b'
    \<and> buffer_inv b' \<and> live b' = (if buf_length b < Buffer_Cap b then live b @ [x] else live b)
    \<and> Buffer_Cap b' = Buffer_Cap b"
  using Append_ok [OF assms, of "[x]"] assms inv_len_le_cap [OF assms]
  by (auto simp: BytesBuffer_WriteByte_def)

lemma blit_take: "blit p 0 (take (length p) xs) = blit p 0 xs"
  by (simp add: blit_def min_def)

lemma Read_ok:
  fixes p :: "byte list"
  assumes "buffer_inv b"
  defines "n \<equiv> min (length p) (length (live b))"
  shows "\<exists>b'. BytesBuffer_Read b p
      = Return (int n, if p \<noteq> [] \<and> live b = [] then Some EOF else None, blit p 0 (take n (live b))) b'
    \<and> buffer_inv b' \<and> live b' = drop n (live b) \<and> Buffer_Cap b' = Buffer_Cap b"
proof (cases "p = [] \<or> live b = []")
  case True
  moreover from True have "n = 0" by (auto simp: n_def)
  moreover have "Buffer_Len b = 0 \<longleftrightarrow> live b = []" using length_live [OF assms(1)] by auto
  ultimately show ?thesis using assms(1) by (auto simp: BytesBuffer_Read_def)
next
  case False
  have len: "Buffer_Len b = int (length (live b))" "buf_length b = int (length (live b))"
    using length_live [OF assms(1)] by (simp_all add: Buffer_Len_def)
  have s: "slice_of (buf_data b) (buf_start b) (buf_start b + buf_length b) = live b" by (simp add: live_def)
  have "blit p 0 (take n (live b)) = blit p 0 (live b)"
    by (cases "length p \<le> length (live b)") (simp_all add: n_def blit_take min_def)
  with False len s Consume_ok [OF assms(1), of "int n"] show ?thesis
    by (auto simp: BytesBuffer_Read_def Slice_ok [OF assms(1)] n_def Let_def)
qed

section \<open>The bounded pipe\<close>

datatype pipe_op = Write_op "byte list" | WriteString_op "byte list" | WriteByte_op byte | Read_op "byte list"

datatype pipe_obs = Wrote int "io_error option" | Got int "io_error option" "byte list"

definition pipe_put :: "nat \<Rightarrow> byte list \<Rightarrow> byte list \<Rightarrow> byte list \<times> pipe_obs" where
  "pipe_put cap xs p =
     (let n = min (length p) (cap - length xs)
      in (xs @ take n p, Wrote (int n) (if n < length p then Some ErrFull else None)))"

fun pipe_spec :: "nat \<Rightarrow> byte list \<Rightarrow> pipe_op \<Rightarrow> byte list \<times> pipe_obs" where
  "pipe_spec cap xs (Write_op p) = pipe_put cap xs p"
| "pipe_spec cap xs (WriteString_op p) = pipe_put cap xs p"
| "pipe_spec cap xs (WriteByte_op x) = pipe_put cap xs [x]"
| "pipe_spec cap xs (Read_op p) =
     (let n = min (length p) (length xs)
      in (drop n xs, Got (int n) (if p \<noteq> [] \<and> xs = [] then Some EOF else None) (blit p 0 (take n xs))))"

fun pipe_spec_run :: "nat \<Rightarrow> byte list \<Rightarrow> pipe_op list \<Rightarrow> byte list \<times> pipe_obs list" where
  "pipe_spec_run cap xs [] = (xs, [])"
| "pipe_spec_run cap xs (opn # ops) =
     (let (ys, obs) = pipe_spec cap xs opn; (zs, rest) = pipe_spec_run cap ys ops in (zs, obs # rest))"

text \<open>The same calls on the byte buffer; \<open>None\<close> is a panic. \<open>WriteByte\<close> reports no count: it wrote
  one byte unless it failed.\<close>

definition map_return :: "('r \<Rightarrow> 'q) \<Rightarrow> ('s, 'r) outcome \<Rightarrow> ('s \<times> 'q) option" where
  "map_return f out = (case out of Panic _ _ \<Rightarrow> None | Return r s \<Rightarrow> Some (s, f r))"

fun pipe_step :: "byte buffer \<Rightarrow> pipe_op \<Rightarrow> (byte buffer \<times> pipe_obs) option" where
  "pipe_step b (Write_op p) = map_return (\<lambda>(n, e). Wrote n e) (BytesBuffer_Write b p)"
| "pipe_step b (WriteString_op p) = map_return (\<lambda>(n, e). Wrote n e) (BytesBuffer_WriteString b p)"
| "pipe_step b (WriteByte_op x) =
     map_return (\<lambda>e. Wrote (if e = None then 1 else 0) e) (BytesBuffer_WriteByte b x)"
| "pipe_step b (Read_op p) = map_return (\<lambda>(n, e, q). Got n e q) (BytesBuffer_Read b p)"

fun pipe_run :: "byte buffer \<Rightarrow> pipe_op list \<Rightarrow> (byte buffer \<times> pipe_obs list) option" where
  "pipe_run b [] = Some (b, [])"
| "pipe_run b (opn # ops) =
     (case pipe_step b opn of
        None \<Rightarrow> None
      | Some (b1, obs) \<Rightarrow> map_option (\<lambda>(b2, rest). (b2, obs # rest)) (pipe_run b1 ops))"

lemma pipe_step_refines:
  assumes "buffer_inv b"
  shows "\<exists>b' obs. pipe_step b opn = Some (b', obs) \<and> buffer_inv b' \<and> Buffer_Cap b' = Buffer_Cap b
    \<and> pipe_spec (length (buf_data b)) (live b) opn = (live b', obs)"
proof -
  have room: "nat (Buffer_Cap b - buf_length b) = length (buf_data b) - length (live b)"
    using live_length [OF assms] inv_length [OF assms] by (simp add: Buffer_Cap_def nat_diff_distrib')
  show ?thesis
  proof (cases opn)
    case (Write_op p)
    with Write_ok [OF assms, of p] show ?thesis by (auto simp: map_return_def room pipe_put_def Let_def)
  next
    case (WriteString_op p)
    with Write_ok [OF assms, of p] show ?thesis
      by (auto simp: map_return_def room pipe_put_def Let_def BytesBuffer_WriteString_def)
  next
    case (WriteByte_op x)
    moreover have "buf_length b < Buffer_Cap b \<longleftrightarrow> length (live b) < length (buf_data b)"
      using live_length [OF assms] inv_length [OF assms] by (auto simp: Buffer_Cap_def)
    ultimately show ?thesis using WriteByte_ok [OF assms, of x] by (auto simp: map_return_def pipe_put_def Let_def)
  next
    case (Read_op p)
    with Read_ok [OF assms, of p] show ?thesis by (auto simp: map_return_def Let_def)
  qed
qed

lemma pipe_run_refines:
  "buffer_inv b \<Longrightarrow> \<exists>b' obs. pipe_run b ops = Some (b', obs) \<and> buffer_inv b' \<and> Buffer_Cap b' = Buffer_Cap b
    \<and> pipe_spec_run (length (buf_data b)) (live b) ops = (live b', obs)"
proof (induction ops arbitrary: b)
  case (Cons opn ops)
  obtain b1 o1 where s: "pipe_step b opn = Some (b1, o1)" "buffer_inv b1" "Buffer_Cap b1 = Buffer_Cap b"
    "pipe_spec (length (buf_data b)) (live b) opn = (live b1, o1)"
    using pipe_step_refines [OF Cons.prems] by blast
  moreover have "length (buf_data b1) = length (buf_data b)" using s(3) by (simp add: Buffer_Cap_def)
  ultimately show ?case using Cons.IH [OF s(2)] by (auto split: prod.splits)
qed simp

text \<open>What a sequence of calls accepted from the writers and handed to the readers.\<close>

fun accepted :: "pipe_op list \<Rightarrow> pipe_obs list \<Rightarrow> byte list" where
  "accepted (Write_op p # ops) (Wrote n e # obs) = take (nat n) p @ accepted ops obs"
| "accepted (WriteString_op p # ops) (Wrote n e # obs) = take (nat n) p @ accepted ops obs"
| "accepted (WriteByte_op x # ops) (Wrote n e # obs) = take (nat n) [x] @ accepted ops obs"
| "accepted (_ # ops) (_ # obs) = accepted ops obs"
| "accepted _ _ = []"

fun delivered :: "pipe_obs list \<Rightarrow> byte list" where
  "delivered [] = []"
| "delivered (Got n e q # obs) = take (nat n) q @ delivered obs"
| "delivered (Wrote n e # obs) = delivered obs"

lemma take_blit: "n \<le> length p \<Longrightarrow> length xs = n \<Longrightarrow> take n (blit p 0 xs) = xs"
  by (simp add: blit_def)

lemma spec_run_stream:
  "length xs \<le> cap \<Longrightarrow> pipe_spec_run cap xs ops = (ys, obs) \<Longrightarrow>
     xs @ accepted ops obs = delivered obs @ ys \<and> length ys \<le> cap"
proof (induction ops arbitrary: xs obs)
  case (Cons opn ops)
  obtain zs o1 rest where s: "pipe_spec cap xs opn = (zs, o1)" "pipe_spec_run cap zs ops = (ys, rest)" "obs = o1 # rest"
    using Cons.prems(2) by (auto split: prod.splits)
  have z: "length zs \<le> cap" using s(1) Cons.prems(1) by (cases opn) (auto simp: pipe_put_def Let_def)
  note ih = Cons.IH [OF z s(2)]
  have "xs @ accepted (opn # ops) (o1 # rest) = delivered [o1] @ zs @ accepted ops rest"
    using s(1) by (cases opn) (auto simp: pipe_put_def Let_def take_blit)
  moreover have "delivered (o1 # rest) = delivered [o1] @ delivered rest" by (cases o1) simp_all
  ultimately show ?case using ih s(3) by simp
qed simp

section \<open>Properties\<close>

text \<open>
  C26. A byte buffer is a bounded pipe. No sequence of \<^verbatim>\<open>Write\<close>, \<^verbatim>\<open>WriteString\<close>, \<^verbatim>\<open>WriteByte\<close> and
  \<^verbatim>\<open>Read\<close> calls panics, every call returns the count, error and data the pipe returns, and no
  byte is lost, duplicated or reordered: the live bytes at the start followed by the accepted
  ones are the delivered bytes followed by the live bytes at the end.
\<close>

theorem BytesBuffer_is_pipe:
  assumes "buffer_inv b"
  shows "\<exists>b' obs. pipe_run b ops = Some (b', obs) \<and> buffer_inv b'
    \<and> pipe_spec_run (length (buf_data b)) (live b) ops = (live b', obs)
    \<and> live b @ accepted ops obs = delivered obs @ live b'
    \<and> BytesBuffer_String b' = Return (live b') b'"
proof -
  obtain b' obs where r: "pipe_run b ops = Some (b', obs)" "buffer_inv b'"
    "pipe_spec_run (length (buf_data b)) (live b) ops = (live b', obs)"
    using pipe_run_refines [OF assms] by blast
  moreover have "length (live b) \<le> length (buf_data b)"
    using live_length [OF assms] inv_len_le_cap [OF assms] by (simp add: Buffer_Cap_def)
  ultimately show ?thesis using spec_run_stream [OF _ r(3)] String_ok [OF r(2)] by auto
qed

theorem BytesBuffer_is_pipe_witness:
  "\<exists>b'. pipe_run \<lparr>buf_data = [0, 0, 0], buf_start = 0, buf_length = 0, buf_highWater = 0\<rparr>
       [Write_op [1, 2, 3, 4], Read_op [0, 0], Read_op [], WriteByte_op 9]
     = Some (b', [Wrote 3 (Some ErrFull), Got 2 None [1, 2], Got 0 None [], Wrote 1 None]) \<and> live b' = [3, 9]"
  (is "\<exists>b'. pipe_run ?b ?ops = _ \<and> _")
proof -
  have i: "buffer_inv ?b" by (auto simp: buffer_inv_def Buffer_Cap_def maxInt_def nth_Cons split: nat.splits)
  have l: "live ?b = []" "length (buf_data ?b) = 3" by (simp_all add: live_def slice_of_def)
  have s: "pipe_spec_run 3 [] ?ops = ([3, 9], [Wrote 3 (Some ErrFull), Got 2 None [1, 2], Got 0 None [], Wrote 1 None])"
    by (simp add: pipe_put_def Let_def blit_def)
  show ?thesis using BytesBuffer_is_pipe [OF i, of ?ops] unfolding l s by (auto simp del: pipe_run.simps)
qed

end
