(* ===== verification/BufferPool.thy ===== *)
theory BufferPool
  imports Buffer
begin

text \<open>
  The pool of reusable buffers of \<^verbatim>\<open>buffer/pool.go\<close>. The standard library's \<^verbatim>\<open>sync.Pool\<close> is the
  list of the buffers it keeps: \<^verbatim>\<open>Get\<close> may take any of them or call \<^verbatim>\<open>New\<close>, and the garbage
  collector may drop any of them at any time. Which one is an argument of the definitions, so
  the lemmas hold for every choice.
\<close>

section \<open>Definitions\<close>

record 'a pool =
  pl_free :: "'a buffer list"
  pl_capacity :: int
  pl_zeroOnPut :: bool

definition NewPool :: "int \<Rightarrow> bool \<Rightarrow> go_panic + 'a pool" where
  "NewPool capacity zeroOnPut =
     (if capacity < 0 then Inl (PanicMsg ''buffer: negative capacity'')
      else Inr \<lparr>pl_free = [], pl_capacity = capacity, pl_zeroOnPut = zeroOnPut\<rparr>)"

definition remove_nth :: "nat \<Rightarrow> 'b list \<Rightarrow> 'b list" where
  "remove_nth c xs = take c xs @ drop (Suc c) xs"

text \<open>\<open>c\<close> is the kept buffer \<^verbatim>\<open>sync.Pool\<close> picks; past the end it calls \<^verbatim>\<open>New\<close>.\<close>

definition Pool_Get :: "('a::zero) pool \<Rightarrow> nat \<Rightarrow> go_panic + ('a buffer \<times> 'a pool)" where
  "Pool_Get p c =
     (if c < length (pl_free p) then Inr (pl_free p ! c, p\<lparr>pl_free := remove_nth c (pl_free p)\<rparr>)
      else case NewBuffer (pl_capacity p) of
             Inl e \<Rightarrow> Inl e
           | Inr b \<Rightarrow> Inr (b, p))"

definition Pool_accepts :: "'a pool \<Rightarrow> 'a buffer \<Rightarrow> bool" where
  "Pool_accepts p released \<longleftrightarrow> Buffer_Cap released = pl_capacity p"

text \<open>The state of \<^verbatim>\<open>Put\<close> is the pool and the released buffer, \<open>None\<close> for a nil pointer.\<close>

definition Pool_Put :: "('a::zero) pool \<Rightarrow> 'a buffer option \<Rightarrow> ('a pool \<times> 'a buffer option, unit) outcome" where
  "Pool_Put p released =
     (case released of
        None \<Rightarrow> Return () (p, None)
      | Some b \<Rightarrow>
          (case (if pl_zeroOnPut p then resetAndZeroAll b else Return () (Buffer_Reset b)) of
             Panic e b1 \<Rightarrow> Panic e (p, Some b1)
           | Return _ b1 \<Rightarrow>
               (if Pool_accepts p b1 then Return () (p\<lparr>pl_free := b1 # pl_free p\<rparr>, Some b1)
                else Return () (p, Some b1))))"

section \<open>Every history of a pool\<close>

text \<open>
  A pool is created, buffers are taken and returned in any order, also buffers of other capacities
  and buffers that never came from the pool, and kept buffers vanish.
\<close>

inductive pool_reach :: "('a::zero) pool \<Rightarrow> bool" where
  created: "n \<le> maxInt \<Longrightarrow> NewPool n z = Inr p \<Longrightarrow> pool_reach p"
| got: "pool_reach p \<Longrightarrow> Pool_Get p c = Inr (b, p') \<Longrightarrow> pool_reach p'"
| was_put: "pool_reach p \<Longrightarrow> buffer_inv b \<Longrightarrow> Pool_Put p (Some b) = Return () (p', b') \<Longrightarrow> pool_reach p'"
| dropped: "pool_reach p \<Longrightarrow> pool_reach (p\<lparr>pl_free := remove_nth c (pl_free p)\<rparr>)"

definition kept_ok :: "('a::zero) pool \<Rightarrow> 'a buffer \<Rightarrow> bool" where
  "kept_ok p b \<longleftrightarrow> buffer_inv b \<and> live b = [] \<and> Buffer_Cap b = pl_capacity p
     \<and> (pl_zeroOnPut p \<longrightarrow> NewBuffer (pl_capacity p) = Inr b)"

definition pool_inv :: "('a::zero) pool \<Rightarrow> bool" where
  "pool_inv p \<longleftrightarrow> 0 \<le> pl_capacity p \<and> pl_capacity p \<le> maxInt \<and> list_all (kept_ok p) (pl_free p)"

lemma list_all_remove_nth: "list_all P xs \<Longrightarrow> list_all P (remove_nth c xs)"
  by (auto simp: remove_nth_def list_all_iff dest: in_set_takeD in_set_dropD)

lemma list_all_nth: "list_all P xs \<Longrightarrow> c < length xs \<Longrightarrow> P (xs ! c)"
  by (simp add: list_all_length)

lemma kept_ok_free [simp]: "kept_ok (p\<lparr>pl_free := xs\<rparr>) = kept_ok p"
  by (simp add: kept_ok_def fun_eq_iff)

lemma Put_ok:
  assumes "buffer_inv b"
  shows "\<exists>b'. Pool_Put p (Some b) = Return ()
      (if Buffer_Cap b = pl_capacity p then p\<lparr>pl_free := b' # pl_free p\<rparr> else p, Some b')
    \<and> buffer_inv b' \<and> live b' = [] \<and> Buffer_Cap b' = Buffer_Cap b
    \<and> (pl_zeroOnPut p \<longrightarrow> NewBuffer (Buffer_Cap b) = Inr b')"
proof (cases "pl_zeroOnPut p")
  case True
  obtain b' where b': "resetAndZeroAll b = Return () b'" "NewBuffer (Buffer_Cap b) = Inr b'"
    using resetAndZeroAll_fresh [OF assms] by blast
  have "buffer_inv b' \<and> live b' = [] \<and> Buffer_Cap b' = Buffer_Cap b"
    using b'(2) inv_cap [OF assms] by (intro NewBuffer_inv) (simp_all add: Buffer_Cap_def)
  with True b' show ?thesis by (simp add: Pool_Put_def Pool_accepts_def)
next
  case False
  have "live (Buffer_Reset b) = []" by (simp add: Buffer_Reset_def live_def slice_of_def)
  moreover have "buffer_inv (Buffer_Reset b)"
    using assms inv_bounds [OF assms] by (auto simp: buffer_inv_def Buffer_Reset_def Buffer_Cap_def)
  moreover have "Buffer_Cap (Buffer_Reset b) = Buffer_Cap b" by (simp add: Buffer_Reset_def Buffer_Cap_def)
  ultimately show ?thesis using False by (simp add: Pool_Put_def Pool_accepts_def)
qed

lemma Get_ok:
  fixes p :: "('a::zero) pool"
  assumes "pool_inv p"
  shows "\<exists>b p'. Pool_Get p c = Inr (b, p') \<and> kept_ok p b \<and> pool_inv p'"
proof (cases "c < length (pl_free p)")
  case True
  then show ?thesis
    using assms by (auto simp: Pool_Get_def pool_inv_def list_all_remove_nth dest: list_all_nth)
next
  case False
  obtain b :: "'a buffer" where "NewBuffer (pl_capacity p) = Inr b"
    using assms by (auto simp: NewBuffer_def pool_inv_def)
  with False show ?thesis
    using assms NewBuffer_inv [of "pl_capacity p" b] by (auto simp: Pool_Get_def pool_inv_def kept_ok_def)
qed

lemma reach_inv: "pool_reach p \<Longrightarrow> pool_inv p"
proof (induction rule: pool_reach.induct)
  case (created n z p)
  then show ?case by (auto simp: NewPool_def pool_inv_def split: if_splits)
next
  case (got p c b p')
  then show ?case using Get_ok [of p c] by auto
next
  case (was_put p b p' b')
  then show ?case using Put_ok [of b p] by (auto simp: pool_inv_def kept_ok_def split: if_splits)
next
  case (dropped p c)
  then show ?case by (simp add: pool_inv_def list_all_remove_nth)
qed

section \<open>Properties\<close>

text \<open>
  C27. After any history \<^verbatim>\<open>Get\<close> returns an empty buffer of the pool's capacity, whatever the pool
  picks. With \<^verbatim>\<open>zeroOnPut\<close> it cannot be told from a new one: no element stored by an earlier
  owner, removed or not, is left in its array. \<^verbatim>\<open>Put\<close> accepts every valid buffer and empties it.
\<close>

theorem Pool_hands_out_clean:
  assumes "pool_reach p" and "buffer_inv b"
  shows "(\<exists>r p'. Pool_Get p c = Inr (r, p') \<and> buffer_inv r \<and> live r = [] \<and> Buffer_Cap r = pl_capacity p
      \<and> (pl_zeroOnPut p \<longrightarrow> NewBuffer (pl_capacity p) = Inr r))
    \<and> (\<exists>p' b'. Pool_Put p (Some b) = Return () (p', Some b') \<and> live b' = []
      \<and> (Buffer_Cap b \<noteq> pl_capacity p \<longrightarrow> p' = p))"
  using Get_ok [OF reach_inv [OF assms(1)], of c] Put_ok [OF assms(2), of p]
  by (auto simp: kept_ok_def)

theorem Pool_hands_out_clean_witness:
  "\<exists>p r p'. Pool_Put (\<lparr>pl_free = [], pl_capacity = 2, pl_zeroOnPut = True\<rparr> :: int pool)
       (Some \<lparr>buf_data = [5, 7], buf_start = 0, buf_length = 1, buf_highWater = 2\<rparr>) = Return () p
     \<and> length (pl_free (fst p)) = 1 \<and> Pool_Get (fst p) 0 = Inr (r, p') \<and> buf_data r = [0, 0]"
proof -
  let ?p = "\<lparr>pl_free = [], pl_capacity = 2, pl_zeroOnPut = True\<rparr> :: int pool"
  let ?b = "\<lparr>buf_data = [5, 7], buf_start = 0, buf_length = 1, buf_highWater = 2\<rparr> :: int buffer"
  have r: "pool_reach ?p" by (rule created [of 2 True]) (simp_all add: NewPool_def maxInt_def)
  have i: "buffer_inv ?b" by (auto simp: buffer_inv_def Buffer_Cap_def maxInt_def)
  obtain p b where p: "Pool_Put ?p (Some ?b) = Return () (p, b)" "pl_capacity p = 2" "pl_zeroOnPut p"
    "length (pl_free p) = 1"
    using Put_ok [OF i, of ?p] by (auto simp: Buffer_Cap_def)
  have "pool_reach p" by (rule was_put [OF r i p(1)])
  from Pool_hands_out_clean [OF this i, of 0] p show ?thesis by (auto simp: NewBuffer_def numeral_eq_Suc)
qed

end
