(* ===== verification/RingShared.thy ===== *)
theory RingShared
  imports Prelude
begin

text \<open>
  The errors of \<^verbatim>\<open>ring/errors.go\<close> and \<^verbatim>\<open>ring/dpdk/errors.go\<close> and the construction and length
  checks of \<^verbatim>\<open>ring/internal/shared\<close> that both queue families use. An error value is a sentinel,
  returned as it is or wrapped by \<^verbatim>\<open>fmt.Errorf\<close>; the message text is not modelled. A function that
  returns an \<^verbatim>\<open>error\<close> returns an option, \<open>None\<close> for nil.
\<close>

unbundle bit_operations_syntax

section \<open>Definitions\<close>

datatype sentinel =
    ErrInvalidCount | ErrFull | ErrEmpty | ErrExceedsCapacity | ErrInvalidMaxBatch | ErrExceedsMaxBatch
  | ErrInvalidSpinsBeforeYield | ErrInvalidMaxHeadTailDistance | ErrHeadTailDistanceRequiresRelaxed
  | ErrUnsupportedOption

datatype ring_error = Sentinel sentinel | Wrap ring_error

text \<open>\<^verbatim>\<open>errors.Is\<close> on these values.\<close>

fun errors_Is :: "ring_error \<Rightarrow> sentinel \<Rightarrow> bool" where
  "errors_Is (Sentinel s) t \<longleftrightarrow> s = t"
| "errors_Is (Wrap e) t \<longleftrightarrow> errors_Is e t"

definition MaxCount :: int where
  "MaxCount = 2 ^ 30"

definition CheckCapacity :: "int \<Rightarrow> ring_error option" where
  "CheckCapacity count =
     (let inRange = (count \<ge> 1 \<and> count \<le> MaxCount);
          isPowerOfTwo = (count AND (count - 1) = 0)
      in if \<not> inRange \<or> \<not> isPowerOfTwo then Some (Wrap (Sentinel ErrInvalidCount)) else None)"

definition CheckMaxBatch :: "int \<Rightarrow> int \<Rightarrow> ring_error option" where
  "CheckMaxBatch maxBatch count =
     (if maxBatch \<ge> 1 \<and> maxBatch \<le> count then None else Some (Wrap (Sentinel ErrInvalidMaxBatch)))"

definition BatchLengthError :: "int \<Rightarrow> u32 \<Rightarrow> u32 \<Rightarrow> ring_error" where
  "BatchLengthError len maxBatch capacity =
     (if len > int (unat capacity) then Wrap (Sentinel ErrExceedsCapacity)
      else Wrap (Sentinel ErrExceedsMaxBatch))"

section \<open>The power-of-two test\<close>

lemma and_pred_zero:
  fixes n :: int
  assumes "0 < n"
  shows "n AND (n - 1) = 0 \<longleftrightarrow> (\<exists>k. n = 2 ^ k)"
  using assms
proof (induction "nat n" arbitrary: n rule: less_induct)
  case less
  show ?case
  proof (cases "even n")
    case True
    then obtain m where m: "n = 2 * m" by auto
    with less.prems have pos: "0 < m" "nat m < nat n" by auto
    have half: "(2 * m - 1) div 2 = m - 1" by presburger
    have "n AND (n - 1) = 2 * (m AND (m - 1))"
      using m half by (subst and_int_rec) auto
    then have "n AND (n - 1) = 0 \<longleftrightarrow> (\<exists>k. m = 2 ^ k)" using less.hyps [OF pos(2,1)] by simp
    also have "\<dots> \<longleftrightarrow> (\<exists>k. n = 2 ^ k)"
    proof
      assume "\<exists>k. m = 2 ^ k"
      then obtain k where "m = 2 ^ k" ..
      then have "n = 2 ^ Suc k" using m by simp
      then show "\<exists>k. n = 2 ^ k" ..
    next
      assume "\<exists>k. n = 2 ^ k"
      then obtain k where k: "n = 2 ^ k" ..
      with m show "\<exists>k. m = 2 ^ k" by (cases k) (auto, presburger)
    qed
    finally show ?thesis .
  next
    case False
    then obtain m where m: "n = 2 * m + 1" by (auto elim: oddE)
    then have a: "n AND (n - 1) = 2 * m" by (subst and_int_rec) auto
    have "n = 2 ^ k \<Longrightarrow> m = 0" for k using m by (cases k) (auto, presburger)
    then show ?thesis using a m by (auto intro: exI [of _ 0])
  qed
qed

lemma CheckCapacity_iff: "CheckCapacity count = None \<longleftrightarrow> (\<exists>k \<le> 30. count = 2 ^ k)"
proof
  assume "CheckCapacity count = None"
  then have c: "1 \<le> count" "count \<le> 2 ^ 30" "count AND (count - 1) = 0"
    by (auto simp: CheckCapacity_def MaxCount_def Let_def split: if_splits)
  then obtain k where k: "count = 2 ^ k" using and_pred_zero [of count] by auto
  have "k \<le> 30" by (rule power_le_imp_le_exp [of "2 :: int"]) (use c(2) k in auto)
  with k show "\<exists>k \<le> 30. count = 2 ^ k" by blast
next
  assume "\<exists>k \<le> 30. count = 2 ^ k"
  then obtain k where k: "k \<le> 30" "count = 2 ^ k" by blast
  then have "count \<le> 2 ^ 30" using power_increasing [OF k(1), of "2 :: int"] by simp
  moreover have "count AND (count - 1) = 0" using and_pred_zero [of count] k(2) by auto
  ultimately show "CheckCapacity count = None" using k by (simp add: CheckCapacity_def MaxCount_def Let_def)
qed

lemma CheckCapacity_error: "CheckCapacity count = Some e \<Longrightarrow> e = Wrap (Sentinel ErrInvalidCount)"
  by (auto simp: CheckCapacity_def Let_def split: if_splits)

lemma CheckMaxBatch_None: "CheckMaxBatch m count = None \<longleftrightarrow> 1 \<le> m \<and> m \<le> count"
  by (simp add: CheckMaxBatch_def)

lemma check_then_Inr: "(case x of None \<Rightarrow> y | Some e \<Rightarrow> Inl (f e)) = Inr c \<longleftrightarrow> x = None \<and> y = Inr c"
  by (simp split: option.split)

end
