(* ===== verification/DpdkOptions.thy ===== *)
theory DpdkOptions
  imports RingShared
begin

text \<open>
  The construction options of \<^verbatim>\<open>ring/dpdk/options.go\<close>: the configuration, the option functions
  and the validation every constructor runs before it allocates.
\<close>

section \<open>Definitions\<close>

datatype syncMode = modeSingle | modeMulti | modeRelaxed

record config =
  prodMode :: syncMode
  consMode :: syncMode
  maxEnqueueBatch :: int
  maxDequeueBatch :: int
  keepDequeued :: bool
  exactBatchCounts :: bool
  spinsBeforeYield :: int
  spinsBeforeYieldSet :: bool
  maxProducerHeadTailDistance :: int
  maxConsumerHeadTailDistance :: int
  producerHeadTailDistanceSet :: bool
  consumerHeadTailDistanceSet :: bool

type_synonym Option = "config \<Rightarrow> config"

definition WithRelaxedMultiProdEnqueue :: Option where
  "WithRelaxedMultiProdEnqueue cfg = cfg\<lparr>prodMode := modeRelaxed\<rparr>"

definition WithRelaxedMultiConsDequeue :: Option where
  "WithRelaxedMultiConsDequeue cfg = cfg\<lparr>consMode := modeRelaxed\<rparr>"

definition WithMaxEnqueueBatch :: "int \<Rightarrow> Option" where
  "WithMaxEnqueueBatch n cfg = cfg\<lparr>maxEnqueueBatch := n\<rparr>"

definition WithMaxDequeueBatch :: "int \<Rightarrow> Option" where
  "WithMaxDequeueBatch n cfg = cfg\<lparr>maxDequeueBatch := n\<rparr>"

definition WithMaxBatch :: "int \<Rightarrow> Option" where
  "WithMaxBatch n cfg = cfg\<lparr>maxEnqueueBatch := n, maxDequeueBatch := n\<rparr>"

definition WithoutDequeueClearing :: Option where
  "WithoutDequeueClearing cfg = cfg\<lparr>keepDequeued := True\<rparr>"

definition WithExactBatchCounts :: Option where
  "WithExactBatchCounts cfg = cfg\<lparr>exactBatchCounts := True\<rparr>"

definition WithSpinsBeforeYield :: "int \<Rightarrow> Option" where
  "WithSpinsBeforeYield n cfg = cfg\<lparr>spinsBeforeYield := n, spinsBeforeYieldSet := True\<rparr>"

definition WithMaxProducerHeadTailDistance :: "int \<Rightarrow> Option" where
  "WithMaxProducerHeadTailDistance distance cfg =
     cfg\<lparr>maxProducerHeadTailDistance := distance, producerHeadTailDistanceSet := True\<rparr>"

definition WithMaxConsumerHeadTailDistance :: "int \<Rightarrow> Option" where
  "WithMaxConsumerHeadTailDistance distance cfg =
     cfg\<lparr>maxConsumerHeadTailDistance := distance, consumerHeadTailDistanceSet := True\<rparr>"

definition defaultSpinsBeforeYield :: int where
  "defaultSpinsBeforeYield = 8192"

definition defaultConfig :: "int \<Rightarrow> syncMode \<Rightarrow> syncMode \<Rightarrow> config" where
  "defaultConfig count producerMode consumerMode =
     \<lparr>prodMode = producerMode, consMode = consumerMode, maxEnqueueBatch = count, maxDequeueBatch = count,
      keepDequeued = False, exactBatchCounts = False, spinsBeforeYield = defaultSpinsBeforeYield,
      spinsBeforeYieldSet = False, maxProducerHeadTailDistance = 0, maxConsumerHeadTailDistance = 0,
      producerHeadTailDistanceSet = False, consumerHeadTailDistanceSet = False\<rparr>"

definition checkSpinsBeforeYield :: "int \<Rightarrow> ring_error option" where
  "checkSpinsBeforeYield spins =
     (if spins \<ge> 0 \<and> spins \<le> 2 ^ 31 - 1 then None else Some (Wrap (Sentinel ErrInvalidSpinsBeforeYield)))"

definition checkTopologyMode :: "syncMode \<Rightarrow> syncMode \<Rightarrow> ring_error option" where
  "checkTopologyMode mode initialMode =
     (let compatible = (if initialMode \<noteq> modeSingle then mode = modeMulti \<or> mode = modeRelaxed
                        else mode = modeSingle)
      in if compatible then None else Some (Wrap (Sentinel ErrUnsupportedOption)))"

definition checkHeadTailDistanceNumber :: "int \<Rightarrow> ring_error option" where
  "checkHeadTailDistanceNumber distance =
     (if distance < 0 then Some (Sentinel ErrInvalidMaxHeadTailDistance)
      else if distance > 2 ^ 32 - 1 then Some (Sentinel ErrInvalidMaxHeadTailDistance)
      else None)"

definition checkHeadTailDistance :: "int \<Rightarrow> bool \<Rightarrow> syncMode \<Rightarrow> bool \<Rightarrow> ring_error option" where
  "checkHeadTailDistance distance explicit mode serialized =
     (if \<not> explicit then None
      else case checkHeadTailDistanceNumber distance of
             Some e \<Rightarrow> Some (Wrap e)
           | None \<Rightarrow>
               (if serialized then Some (Wrap (Sentinel ErrUnsupportedOption))
                else if mode \<noteq> modeRelaxed then Some (Wrap (Sentinel ErrHeadTailDistanceRequiresRelaxed))
                else None))"

definition resolveHeadTailDistance :: "syncMode \<Rightarrow> int \<Rightarrow> int \<Rightarrow> bool \<Rightarrow> u32" where
  "resolveHeadTailDistance mode count distance explicit =
     (if mode \<noteq> modeRelaxed then 0
      else if explicit then of_int distance
      else of_int (count div 8))"

text \<open>The validation in the order of the source; each check returns the first error it finds.\<close>

definition resolveConfig :: "int \<Rightarrow> syncMode \<Rightarrow> syncMode \<Rightarrow> bool \<Rightarrow> Option list \<Rightarrow> ring_error + config" where
  "resolveConfig count producerMode consumerMode fixedTopology options =
     (case CheckCapacity count of
        Some e \<Rightarrow> Inl (Wrap e)
      | None \<Rightarrow>
     (let cfg = fold (\<lambda>option cfg. option cfg) options (defaultConfig count producerMode consumerMode)
      in case CheckMaxBatch (maxEnqueueBatch cfg) count of
        Some e \<Rightarrow> Inl (Wrap e)
      | None \<Rightarrow>
     (case CheckMaxBatch (maxDequeueBatch cfg) count of
        Some e \<Rightarrow> Inl (Wrap e)
      | None \<Rightarrow>
     (case checkSpinsBeforeYield (spinsBeforeYield cfg) of
        Some e \<Rightarrow> Inl (Wrap e)
      | None \<Rightarrow>
     (case (if fixedTopology then
              (case checkTopologyMode (prodMode cfg) producerMode of
                 Some e \<Rightarrow> Some e
               | None \<Rightarrow>
                   (case checkTopologyMode (consMode cfg) consumerMode of
                      Some e \<Rightarrow> Some e
                    | None \<Rightarrow>
                        (let serialized = (producerMode = modeSingle \<and> consumerMode = modeSingle)
                         in if serialized \<and> spinsBeforeYieldSet cfg
                            then Some (Wrap (Sentinel ErrUnsupportedOption)) else None)))
            else None) of
        Some e \<Rightarrow> Inl e
      | None \<Rightarrow>
     (case checkHeadTailDistance (maxProducerHeadTailDistance cfg) (producerHeadTailDistanceSet cfg)
             (prodMode cfg) (fixedTopology \<and> producerMode = modeSingle) of
        Some e \<Rightarrow> Inl e
      | None \<Rightarrow>
     (case checkHeadTailDistance (maxConsumerHeadTailDistance cfg) (consumerHeadTailDistanceSet cfg)
             (consMode cfg) (fixedTopology \<and> consumerMode = modeSingle) of
        Some e \<Rightarrow> Inl e
      | None \<Rightarrow> Inr cfg)))))))"

section \<open>What a resolved configuration guarantees\<close>

definition side_ok :: "syncMode \<Rightarrow> syncMode \<Rightarrow> int \<Rightarrow> bool \<Rightarrow> bool" where
  "side_ok initial mode distance explicit \<longleftrightarrow>
     (mode = modeSingle \<longleftrightarrow> initial = modeSingle)
     \<and> (explicit \<longrightarrow> mode = modeRelaxed \<and> 0 \<le> distance \<and> distance < 2 ^ 32)"

definition config_ok :: "int \<Rightarrow> syncMode \<Rightarrow> syncMode \<Rightarrow> config \<Rightarrow> bool" where
  "config_ok count producerMode consumerMode cfg \<longleftrightarrow>
     1 \<le> maxEnqueueBatch cfg \<and> maxEnqueueBatch cfg \<le> count
     \<and> 1 \<le> maxDequeueBatch cfg \<and> maxDequeueBatch cfg \<le> count
     \<and> 0 \<le> spinsBeforeYield cfg \<and> spinsBeforeYield cfg < 2 ^ 31
     \<and> (producerMode = modeSingle \<and> consumerMode = modeSingle \<longrightarrow> \<not> spinsBeforeYieldSet cfg)
     \<and> side_ok producerMode (prodMode cfg) (maxProducerHeadTailDistance cfg) (producerHeadTailDistanceSet cfg)
     \<and> side_ok consumerMode (consMode cfg) (maxConsumerHeadTailDistance cfg) (consumerHeadTailDistanceSet cfg)"

lemma checkTopologyMode_None: "checkTopologyMode mode initial = None \<longleftrightarrow> (mode = modeSingle \<longleftrightarrow> initial = modeSingle)"
  by (cases mode; cases initial) (simp_all add: checkTopologyMode_def)

lemma checkHeadTailDistance_None:
  "checkHeadTailDistance d explicit mode serialized = None \<longleftrightarrow>
     (explicit \<longrightarrow> 0 \<le> d \<and> d < 2 ^ 32 \<and> \<not> serialized \<and> mode = modeRelaxed)"
  by (auto simp: checkHeadTailDistance_def checkHeadTailDistanceNumber_def split: option.splits if_splits)

lemma checkSpins_None: "checkSpinsBeforeYield n = None \<longleftrightarrow> 0 \<le> n \<and> n < 2 ^ 31"
  by (auto simp: checkSpinsBeforeYield_def)

lemma check_then_None: "(case x of None \<Rightarrow> y | Some e \<Rightarrow> Some e) = None \<longleftrightarrow> x = None \<and> y = None"
  by (simp split: option.split)

lemmas check_None = check_then_Inr check_then_None checkTopologyMode_None checkHeadTailDistance_None
  CheckMaxBatch_None checkSpins_None CheckCapacity_iff

lemma resolveConfig_Inr:
  "resolveConfig count pm cm True options = Inr cfg \<longleftrightarrow>
     (\<exists>k \<le> 30. count = 2 ^ k) \<and> cfg = fold (\<lambda>option cfg. option cfg) options (defaultConfig count pm cm)
     \<and> config_ok count pm cm cfg"
  unfolding resolveConfig_def Let_def
  by (simp only: check_None if_True simp_thms) (auto simp: config_ok_def side_ok_def)

lemma resolveConfig_default:
  assumes "k \<le> 30"
  shows "resolveConfig (2 ^ k) pm cm True [] = Inr (defaultConfig (2 ^ k) pm cm)"
  unfolding resolveConfig_Inr
  using assms by (auto simp: config_ok_def side_ok_def defaultConfig_def defaultSpinsBeforeYield_def)

section \<open>Properties\<close>

text \<open>
  C24. The validation of a queue's options accepts exactly the valid configurations: a capacity that
  is a power of two up to \<open>2^30\<close>, and options that, applied in order to the defaults, leave batch
  limits between 1 and the capacity, a spin bound in range, modes that fit the topology, and
  explicit distances only on relaxed sides. Nothing else of the configuration changes.
\<close>

theorem resolveConfig_accepts:
  "resolveConfig count pm cm True options = Inr cfg \<longleftrightarrow>
     (\<exists>k. k \<le> 30 \<and> count = 2 ^ k)
     \<and> cfg = fold (\<lambda>option cfg. option cfg) options (defaultConfig count pm cm)
     \<and> config_ok count pm cm cfg"
  by (rule resolveConfig_Inr)

end
