(* ===== verification/RingStore.thy ===== *)
theory RingStore
  imports RingShared
begin

text \<open>
  The slot array every queue of \<^verbatim>\<open>ring/dpdk\<close> and \<^verbatim>\<open>ring/frontier\<close> shares: positions are wrapping
  words, a slot is a position masked with the capacity minus one, and a batch is moved in two
  copies, up to the end of the array and from its start. The definitions are those copies; the
  lemmas show that they act on a window of consecutive positions.
\<close>

section \<open>Definitions\<close>

definition slot :: "u32 \<Rightarrow> u32 \<Rightarrow> nat" where
  "slot pos msk = unat (pos AND msk)"

text \<open>The number of elements of a batch that fit before the end of the array.\<close>

definition first_part :: "u32 \<Rightarrow> u32 \<Rightarrow> u32 \<Rightarrow> nat" where
  "first_part start msk len = unat (min len (msk + 1 - (start AND msk)))"

text \<open>\<^verbatim>\<open>copy(entries[base:base+first], items[:first]); copy(entries[:length-first], items[first:])\<close>.\<close>

definition copy_in :: "'a list \<Rightarrow> u32 \<Rightarrow> u32 \<Rightarrow> 'a list \<Rightarrow> 'a list" where
  "copy_in entries msk start items =
     (let base = slot start msk; first = first_part start msk (of_nat (length items))
      in blit (blit entries base (take first items)) 0 (drop first items))"

text \<open>What \<^verbatim>\<open>copy(dst[:first], entries[base:base+first]); copy(dst[first:length], entries[:length-first])\<close> reads.\<close>

definition copy_out :: "'a list \<Rightarrow> u32 \<Rightarrow> u32 \<Rightarrow> u32 \<Rightarrow> 'a list" where
  "copy_out entries msk start len =
     (let base = slot start msk; first = first_part start msk len
      in take first (drop base entries) @ take (unat len - first) entries)"

text \<open>\<^verbatim>\<open>clear(entries[base:base+first]); clear(entries[:length-first])\<close>.\<close>

definition clear_slots :: "('a::zero) list \<Rightarrow> u32 \<Rightarrow> u32 \<Rightarrow> u32 \<Rightarrow> 'a list" where
  "clear_slots entries msk start len =
     (let base = slot start msk; first = first_part start msk len
      in clear_range (clear_range entries base (base + first)) 0 (unat len - first))"

section \<open>Geometry\<close>

definition geom :: "'a list \<Rightarrow> u32 \<Rightarrow> bool" where
  "geom entries msk \<longleftrightarrow> (\<exists>k \<le> 30. length entries = 2 ^ k \<and> msk = 2 ^ k - 1)"

lemma geomE:
  assumes "geom es msk"
  obtains k where "k \<le> 30" "length es = 2 ^ k" "msk = 2 ^ k - 1"
  using assms by (auto simp: geom_def)

lemma unat_and_mask: "unat ((x :: u32) AND (2 ^ k - 1)) = unat x mod 2 ^ k"
proof -
  have "x AND (2 ^ k - 1) = take_bit k x" by (simp add: take_bit_eq_mask mask_eq_exp_minus_1)
  then show ?thesis by (simp only: unsigned_take_bit_eq) (simp only: take_bit_eq_mod)
qed

lemma unat_exp: "k \<le> 30 \<Longrightarrow> unat (2 ^ k :: u32) = 2 ^ k"
proof -
  assume "k \<le> 30"
  then have "(2 :: nat) ^ k < 2 ^ 32" by (intro power_strict_increasing) auto
  then show ?thesis using unat_of_nat [of "2 ^ k", where 'a = 32] by simp
qed

lemma geom_cap: "geom es msk \<Longrightarrow> unat (msk + 1) = length es"
  by (auto simp: geom_def unat_exp)

lemma geom_pos: "geom es msk \<Longrightarrow> 0 < length es"
  by (auto simp: geom_def)

lemma geom_le: "geom es msk \<Longrightarrow> length es \<le> 2 ^ 30"
  using power_increasing [of _ 30 "2 :: nat"] by (auto simp: geom_def)

lemma geom_slot: "geom es msk \<Longrightarrow> slot pos msk = unat pos mod length es"
  by (auto simp: geom_def slot_def unat_and_mask)

lemma geom_length: "geom es msk \<Longrightarrow> length es' = length es \<Longrightarrow> geom es' msk"
  by (simp add: geom_def)

lemma geom_dvd: "geom es msk \<Longrightarrow> length es dvd 2 ^ 32"
proof -
  assume "geom es msk"
  then obtain k where "k \<le> 30" "length es = 2 ^ k" by (auto simp: geom_def)
  moreover from this(1) have "(2 :: nat) ^ k dvd 2 ^ 32" by (intro le_imp_power_dvd) simp
  ultimately show ?thesis by simp
qed

text \<open>A wrapped position and the unbounded one name the same slot.\<close>

lemma slot_add: "geom es msk \<Longrightarrow> slot (pos + of_nat i) msk = (unat pos + i) mod length es"
proof -
  assume g: "geom es msk"
  have "unat (pos + of_nat i) = (unat pos + i) mod 2 ^ 32"
    by (simp add: unat_word_ariths unat_of_nat mod_simps)
  then show ?thesis using geom_slot [OF g] mod_mod_cancel [OF geom_dvd [OF g]] by simp
qed

section \<open>Windows of consecutive positions\<close>

text \<open>The elements in the \<open>n\<close> slots from position \<open>pos\<close> on.\<close>

definition window :: "'a list \<Rightarrow> u32 \<Rightarrow> nat \<Rightarrow> 'a list" where
  "window es pos n = map (\<lambda>i. es ! ((unat pos + i) mod length es)) [0..<n]"

lemma length_window [simp]: "length (window es pos n) = n"
  by (simp add: window_def)

lemma nth_window: "i < n \<Longrightarrow> window es pos n ! i = es ! ((unat pos + i) mod length es)"
  by (simp add: window_def)

lemma window_0 [simp]: "window es pos 0 = []"
  by (simp add: window_def)

lemma window_shift:
  fixes pos :: u32
  assumes "geom es msk"
  shows "es ! ((unat (pos + of_nat m) + i) mod length es) = es ! ((unat pos + (m + i)) mod length es)"
  using slot_add [OF assms, of "pos + of_nat m" i] slot_add [OF assms, of pos "m + i"]
  by (simp add: add.assoc)

lemma window_add:
  assumes "geom es msk"
  shows "window es pos (m + n) = window es pos m @ window es (pos + of_nat m) n"
proof (rule nth_equalityI)
  fix i assume "i < length (window es pos (m + n))"
  then show "window es pos (m + n) ! i = (window es pos m @ window es (pos + of_nat m) n) ! i"
    using window_shift [OF assms, of pos m "i - m"] by (cases "i < m") (simp_all add: nth_window nth_append)
qed simp

lemma window_drop:
  assumes "geom es msk" "m \<le> n"
  shows "window es (pos + of_nat m) (n - m) = drop m (window es pos n)"
  using window_add [OF assms(1), of pos m "n - m"] assms(2) by simp

lemma window_take: "m \<le> n \<Longrightarrow> take m (window es pos n) = window es pos m"
  by (simp add: window_def take_map)

section \<open>The two-part copies act on windows\<close>

lemma geom_base_lt: "geom es msk \<Longrightarrow> slot pos msk < length es"
  using geom_pos [of es msk] by (simp add: geom_slot)

lemma geom_first:
  assumes "geom es msk" "unat len \<le> length es"
  shows "first_part start msk len = min (unat len) (length es - slot start msk)"
proof -
  have "start AND msk \<le> msk + 1"
    using geom_base_lt [OF assms(1), of start] geom_cap [OF assms(1)]
    by (simp add: word_le_nat_alt slot_def)
  then have "unat (msk + 1 - (start AND msk)) = length es - slot start msk"
    using geom_cap [OF assms(1)] by (simp add: unat_sub slot_def)
  then show ?thesis by (simp add: first_part_def min_def word_le_nat_alt)
qed

text \<open>The index of slot \<open>j\<close> in a window that starts at slot \<open>b\<close>.\<close>

definition offset_in :: "nat \<Rightarrow> nat \<Rightarrow> nat \<Rightarrow> nat" where
  "offset_in N b j = (if b \<le> j then j - b else N - b + j)"

lemma offset_in_slot: "b < N \<Longrightarrow> i < N \<Longrightarrow> offset_in N b ((b + i) mod N) = i"
  by (cases "b + i < N") (auto simp: offset_in_def mod_if)

lemma len_word: "n \<le> length es \<Longrightarrow> geom es msk \<Longrightarrow> unat (of_nat n :: u32) = n"
  using geom_le [of es msk] by (simp add: unat_of_nat)

lemma nth_copy_in_raw:
  assumes "geom es msk" "length items \<le> length es" "j < length es"
  shows "copy_in es msk start items ! j
    = (let i = offset_in (length es) (slot start msk) j in if i < length items then items ! i else es ! j)"
  using assms geom_base_lt [OF assms(1), of start] geom_first [OF assms(1), of "of_nat (length items)" start]
  by (auto simp: copy_in_def Let_def len_word nth_blit offset_in_def min_def add.commute)

lemma nth_clear_slots_raw:
  assumes "geom es msk" "unat len \<le> length es" "j < length es"
  shows "clear_slots es msk start len ! j
    = (if offset_in (length es) (slot start msk) j < unat len then 0 else es ! j)"
  using assms geom_base_lt [OF assms(1), of start] geom_first [OF assms(1,2), of start]
  by (auto simp: clear_slots_def Let_def nth_clear_range offset_in_def min_def)

lemma length_copy_in [simp]: "length (copy_in es msk start items) = length es"
  by (simp add: copy_in_def Let_def)

lemma length_clear_slots [simp]: "length (clear_slots es msk start len) = length es"
  by (simp add: clear_slots_def Let_def)

lemma slot_offset:
  assumes "geom es msk" "i < length es"
  shows "offset_in (length es) (slot start msk) ((unat start + i) mod length es) = i"
  using offset_in_slot [OF geom_base_lt [OF assms(1), of start] assms(2)] geom_slot [OF assms(1), of start]
  by (simp add: mod_simps)

lemma nth_copy_in:
  assumes "geom es msk" "length items \<le> length es" "i < length es"
  shows "copy_in es msk start items ! ((unat start + i) mod length es)
    = (if i < length items then items ! i else es ! ((unat start + i) mod length es))"
  using nth_copy_in_raw [OF assms(1,2)] slot_offset [OF assms(1,3)] geom_pos [OF assms(1)]
  by (simp add: Let_def)

lemma nth_clear_slots:
  assumes "geom es msk" "unat len \<le> length es" "i < length es"
  shows "clear_slots es msk start len ! ((unat start + i) mod length es)
    = (if i < unat len then 0 else es ! ((unat start + i) mod length es))"
  using nth_clear_slots_raw [OF assms(1,2)] slot_offset [OF assms(1,3)] geom_pos [OF assms(1)]
  by simp

lemma copy_out_window:
  assumes "geom es msk" "unat len \<le> length es"
  shows "copy_out es msk start len = window es start (unat len)"
proof (rule nth_equalityI)
  let ?b = "slot start msk"
  note b = geom_base_lt [OF assms(1), of start] and f = geom_first [OF assms, of start]
  show l: "length (copy_out es msk start len) = length (window es start (unat len))"
    using b f assms(2) by (auto simp: copy_out_def Let_def min_def)
  fix i assume "i < length (copy_out es msk start len)"
  then have i: "i < unat len" using l by simp
  have m: "(unat start + i) mod length es = (if ?b + i < length es then ?b + i else ?b + i - length es)"
  proof -
    have "(unat start + i) mod length es = (?b + i) mod length es"
      using geom_slot [OF assms(1), of start] by (simp add: mod_simps)
    then show ?thesis using b i assms(2) by (simp add: mod_if)
  qed
  show "copy_out es msk start len ! i = window es start (unat len) ! i"
  proof (cases "?b + i < length es")
    case True
    then have "i < first_part start msk len" using f i by simp
    with True b i show ?thesis by (auto simp: copy_out_def Let_def nth_window m nth_append)
  next
    case False
    then have "first_part start msk len = length es - ?b" using f i by simp
    moreover have "i - (length es - ?b) = ?b + i - length es" using b False by simp
    ultimately show ?thesis
      using False b i assms(2) by (auto simp: copy_out_def Let_def nth_window m nth_append)
  qed
qed

end
