(* ===== verification/RingFifo.thy ===== *)
theory RingFifo
  imports RingStore
begin

text \<open>
  The contract every queue of \<^verbatim>\<open>ring/dpdk\<close> and \<^verbatim>\<open>ring/frontier\<close> has between calls: a bounded FIFO
  list with batch limits, whose batch calls may report a stale count that is never too high. The
  locale \<open>fifo_queue\<close> is that contract; what a client may conclude from it, for any sequence of
  calls, is proved once there. The second half is the position arithmetic the queues share.
\<close>

section \<open>Calls and results\<close>

datatype 'a qop =
    Enqueue_op 'a | Dequeue_op
  | EnqueueBulk_op "'a list" | EnqueueBurst_op "'a list"
  | DequeueBulk_op "'a list" | DequeueBurst_op "'a list"
  | Count_op | Reset_op

text \<open>The dequeue batch calls take the destination slice and return it as they leave it.\<close>

datatype 'a qres =
    Enqueued "ring_error option"
  | Dequeued 'a "ring_error option"
  | BulkIn int "ring_error option"
  | BurstIn int int
  | BulkOut int "ring_error option" "'a list"
  | BurstOut int int "'a list"
  | Counted int
  | ResetDone

record qconf =
  qc_cap :: nat
  qc_maxE :: nat
  qc_maxD :: nat
  qc_exact :: bool

section \<open>The bounded FIFO\<close>

definition burst_in :: "qconf \<Rightarrow> 'a list \<Rightarrow> 'a list \<Rightarrow> nat" where
  "burst_in cf xs items = min (min (length items) (qc_maxE cf)) (qc_cap cf - length xs)"

definition burst_out :: "qconf \<Rightarrow> 'a list \<Rightarrow> 'a list \<Rightarrow> nat" where
  "burst_out cf xs dst = min (min (length dst) (qc_maxD cf)) (length xs)"

fun fifo_next :: "qconf \<Rightarrow> 'a list \<Rightarrow> 'a qop \<Rightarrow> 'a list" where
  "fifo_next cf xs (Enqueue_op x) = (if length xs < qc_cap cf then xs @ [x] else xs)"
| "fifo_next cf xs Dequeue_op = drop 1 xs"
| "fifo_next cf xs (EnqueueBulk_op items) =
     (if length items \<le> qc_maxE cf \<and> length xs + length items \<le> qc_cap cf then xs @ items else xs)"
| "fifo_next cf xs (EnqueueBurst_op items) = xs @ take (burst_in cf xs items) items"
| "fifo_next cf xs (DequeueBulk_op dst) =
     (if length dst \<le> qc_maxD cf \<and> length dst \<le> length xs then drop (length dst) xs else xs)"
| "fifo_next cf xs (DequeueBurst_op dst) = drop (burst_out cf xs dst) xs"
| "fifo_next cf xs Count_op = xs"
| "fifo_next cf xs Reset_op = []"

text \<open>
  A reported count is at most the real one, and equal to it when \<open>fresh\<close> holds: with
  \<^verbatim>\<open>WithExactBatchCounts\<close>, for a call that failed or moved less than its clamped request, and for
  a call of length zero.
\<close>

definition reports :: "bool \<Rightarrow> int \<Rightarrow> nat \<Rightarrow> bool" where
  "reports fresh r real \<longleftrightarrow> 0 \<le> r \<and> r \<le> int real \<and> (fresh \<longrightarrow> r = int real)"

definition length_error :: "qconf \<Rightarrow> nat \<Rightarrow> ring_error" where
  "length_error cf n =
     Wrap (Sentinel (if n > qc_cap cf then ErrExceedsCapacity else ErrExceedsMaxBatch))"

definition fifo_result :: "qconf \<Rightarrow> ('a::zero) list \<Rightarrow> 'a qop \<Rightarrow> 'a qres \<Rightarrow> bool" where
  "fifo_result cf xs opn r =
     (case (opn, r) of
        (Enqueue_op x, Enqueued e) \<Rightarrow>
          e = (if length xs < qc_cap cf then None else Some (Sentinel ErrFull))
      | (Dequeue_op, Dequeued v e) \<Rightarrow>
          (if xs = [] then v = 0 \<and> e = Some (Sentinel ErrEmpty) else v = hd xs \<and> e = None)
      | (EnqueueBulk_op items, BulkIn free e) \<Rightarrow>
          (if length items > qc_maxE cf
           then e = Some (length_error cf (length items)) \<and> reports True free (qc_cap cf - length xs)
           else if length xs + length items > qc_cap cf
           then e = Some (Sentinel ErrFull) \<and> reports True free (qc_cap cf - length xs)
           else e = None \<and> reports (qc_exact cf \<or> items = []) free (qc_cap cf - length xs - length items))
      | (EnqueueBurst_op items, BurstIn n free) \<Rightarrow>
          n = int (burst_in cf xs items)
          \<and> reports (qc_exact cf \<or> items = [] \<or> burst_in cf xs items < min (length items) (qc_maxE cf))
              free (qc_cap cf - length xs - burst_in cf xs items)
      | (DequeueBulk_op dst, BulkOut avail e out) \<Rightarrow>
          (if length dst > qc_maxD cf
           then e = Some (length_error cf (length dst)) \<and> out = dst \<and> reports True avail (length xs)
           else if length dst > length xs
           then e = Some (Sentinel ErrEmpty) \<and> out = dst \<and> reports True avail (length xs)
           else e = None \<and> out = take (length dst) xs
             \<and> reports (qc_exact cf \<or> dst = []) avail (length xs - length dst))
      | (DequeueBurst_op dst, BurstOut n avail out) \<Rightarrow>
          n = int (burst_out cf xs dst) \<and> out = take (burst_out cf xs dst) xs @ drop (burst_out cf xs dst) dst
          \<and> reports (qc_exact cf \<or> dst = [] \<or> burst_out cf xs dst < min (length dst) (qc_maxD cf))
              avail (length xs - burst_out cf xs dst)
      | (Count_op, Counted n) \<Rightarrow> n = int (length xs)
      | (Reset_op, ResetDone) \<Rightarrow> True
      | _ \<Rightarrow> False)"

section \<open>Sequences of calls\<close>

text \<open>\<open>None\<close> is a call that does not return.\<close>

fun queue_run :: "('q \<Rightarrow> 'a qop \<Rightarrow> ('q \<times> 'a qres) option) \<Rightarrow> 'q \<Rightarrow> 'a qop list \<Rightarrow> ('q \<times> 'a qres list) option" where
  "queue_run step q [] = Some (q, [])"
| "queue_run step q (opn # ops) =
     (case step q opn of
        None \<Rightarrow> None
      | Some (q1, r) \<Rightarrow> map_option (\<lambda>(q2, rs). (q2, r # rs)) (queue_run step q1 ops))"

fun results_allowed :: "qconf \<Rightarrow> ('a::zero) list \<Rightarrow> 'a qop list \<Rightarrow> 'a qres list \<Rightarrow> bool" where
  "results_allowed cf xs [] rs \<longleftrightarrow> rs = []"
| "results_allowed cf xs (opn # ops) rs \<longleftrightarrow>
     (case rs of [] \<Rightarrow> False
      | r # rs' \<Rightarrow> fifo_result cf xs opn r \<and> results_allowed cf (fifo_next cf xs opn) ops rs')"

text \<open>The elements a sequence of calls says it accepted and handed out.\<close>

definition enqueued :: "'a qop \<Rightarrow> 'a qres \<Rightarrow> 'a list" where
  "enqueued opn r =
     (case (opn, r) of
        (Enqueue_op x, Enqueued None) \<Rightarrow> [x]
      | (EnqueueBulk_op items, BulkIn free None) \<Rightarrow> items
      | (EnqueueBurst_op items, BurstIn n free) \<Rightarrow> take (nat n) items
      | _ \<Rightarrow> [])"

fun dequeued :: "'a qres \<Rightarrow> 'a list" where
  "dequeued (Dequeued v None) = [v]"
| "dequeued (BulkOut avail None out) = out"
| "dequeued (BurstOut n avail out) = take (nat n) out"
| "dequeued _ = []"

definition all_enqueued :: "'a qop list \<Rightarrow> 'a qres list \<Rightarrow> 'a list" where
  "all_enqueued ops rs = concat (map2 enqueued ops rs)"

definition all_dequeued :: "'a qres list \<Rightarrow> 'a list" where
  "all_dequeued rs = concat (map dequeued rs)"

definition conf_ok :: "qconf \<Rightarrow> bool" where
  "conf_ok cf \<longleftrightarrow> qc_maxE cf \<le> qc_cap cf \<and> qc_maxD cf \<le> qc_cap cf"

lemma fifo_next_bounded: "length xs \<le> qc_cap cf \<Longrightarrow> length (fifo_next cf xs opn) \<le> qc_cap cf"
  by (cases opn) (auto simp: burst_in_def burst_out_def)

text \<open>The burst calls hand the clamped request to the batch routine.\<close>

lemma burst_in_clamped:
  fixes items :: "'a list" and cf :: qconf
  defines "T \<equiv> take (min (length items) (qc_maxE cf)) items"
  shows "burst_in cf xs items = min (length T) (qc_cap cf - length xs)"
    and "length T = min (length items) (qc_maxE cf)" "take (burst_in cf xs items) T = take (burst_in cf xs items) items"
  by (auto simp: T_def burst_in_def min.absorb1 min.coboundedI1)

lemma burst_out_clamped:
  fixes dst :: "'a list" and cf :: qconf
  defines "T \<equiv> take (min (length dst) (qc_maxD cf)) dst"
  shows "burst_out cf xs dst = min (length T) (length xs)" "length T = min (length dst) (qc_maxD cf)"
    and "drop (burst_out cf xs dst) T @ drop (min (length dst) (qc_maxD cf)) dst = drop (burst_out cf xs dst) dst"
proof -
  have "drop n (take m dst) @ drop m dst = drop n dst" if "n \<le> m" "m \<le> length dst" for n m
    using that by (metis append_take_drop_id drop_append diff_is_0_eq' drop_0 length_take min.absorb2)
  moreover have "burst_out cf xs dst \<le> min (length dst) (qc_maxD cf)" by (auto simp: burst_out_def)
  ultimately show "drop (burst_out cf xs dst) T @ drop (min (length dst) (qc_maxD cf)) dst = drop (burst_out cf xs dst) dst"
    unfolding T_def by simp
qed (auto simp: T_def burst_out_def)

lemma reports_fewer: "reports b r n \<Longrightarrow> (b' \<Longrightarrow> b) \<Longrightarrow> reports b' r n"
  by (auto simp: reports_def)

text \<open>One call moves exactly the elements it reports, in order.\<close>

lemma fifo_step_stream:
  assumes "fifo_result cf xs opn r" "opn \<noteq> Reset_op" "length xs \<le> qc_cap cf"
  shows "xs @ enqueued opn r = dequeued r @ fifo_next cf xs opn"
  using assms
  by (cases opn; cases r)
    (auto simp: fifo_result_def enqueued_def burst_in_def burst_out_def drop_Suc neq_Nil_conv split: if_splits)

text \<open>
  The contract of a queue whose positions may run out: \<open>fits q n\<close> says that \<open>n\<close> more elements can be
  accepted before a position overflows. A queue whose positions wrap is a \<open>fifo_queue\<close>, where
  everything fits.
\<close>

fun op_size :: "'a qop \<Rightarrow> nat" where
  "op_size (Enqueue_op x) = 1"
| "op_size (EnqueueBulk_op items) = length items"
| "op_size (EnqueueBurst_op items) = length items"
| "op_size _ = 0"

definition ops_size :: "'a qop list \<Rightarrow> nat" where
  "ops_size ops = (\<Sum>opn\<leftarrow>ops. op_size opn)"

lemma ops_size_simps [simp]: "ops_size [] = 0" "ops_size (opn # ops) = op_size opn + ops_size ops"
  by (simp_all add: ops_size_def)

definition fifo_outcome :: "('q \<Rightarrow> bool) \<Rightarrow> ('q \<Rightarrow> qconf) \<Rightarrow> ('q \<Rightarrow> ('a::zero) list) \<Rightarrow> ('q \<Rightarrow> nat \<Rightarrow> bool) \<Rightarrow> nat
    \<Rightarrow> 'q \<Rightarrow> 'a qop \<Rightarrow> ('q \<times> 'a qres) option \<Rightarrow> bool" where
  "fifo_outcome invar conf contents fits n q opn out \<longleftrightarrow>
     (\<exists>q' r. out = Some (q', r) \<and> invar q' \<and> conf q' = conf q \<and> fits q' n
        \<and> contents q' = fifo_next (conf q) (contents q) opn \<and> fifo_result (conf q) (contents q) opn r)"

lemma fifo_outcomeI:
  "out = Some (q', r) \<Longrightarrow> invar q' \<Longrightarrow> conf q' = conf q \<Longrightarrow> fits q' n \<Longrightarrow>
     contents q' = fifo_next (conf q) (contents q) opn \<Longrightarrow> fifo_result (conf q) (contents q) opn r \<Longrightarrow>
     fifo_outcome invar conf contents fits n q opn out"
  by (auto simp: fifo_outcome_def)

locale fifo_queue_within =
  fixes invar :: "'q \<Rightarrow> bool"
    and conf :: "'q \<Rightarrow> qconf"
    and contents :: "'q \<Rightarrow> ('a::zero) list"
    and fits :: "'q \<Rightarrow> nat \<Rightarrow> bool"
    and step :: "'q \<Rightarrow> 'a qop \<Rightarrow> ('q \<times> 'a qres) option"
  assumes bounded: "invar q \<Longrightarrow> length (contents q) \<le> qc_cap (conf q)"
    and step_within: "invar q \<Longrightarrow> fits q (op_size opn + n) \<Longrightarrow>
      fifo_outcome invar conf contents fits n q opn (step q opn)"
begin

lemma run_within:
  "invar q \<Longrightarrow> fits q (ops_size ops) \<Longrightarrow> \<exists>q' rs. queue_run step q ops = Some (q', rs) \<and> invar q' \<and> conf q' = conf q
     \<and> contents q' = fold (\<lambda>opn xs. fifo_next (conf q) xs opn) ops (contents q)
     \<and> results_allowed (conf q) (contents q) ops rs"
proof (induction ops arbitrary: q)
  case (Cons opn ops)
  obtain q1 r where s: "step q opn = Some (q1, r)" "invar q1" "conf q1 = conf q" "fits q1 (ops_size ops)"
    "contents q1 = fifo_next (conf q) (contents q) opn" "fifo_result (conf q) (contents q) opn r"
    using step_within [OF Cons.prems(1)] Cons.prems(2) unfolding fifo_outcome_def by force
  from Cons.IH [OF s(2,4)] s show ?case by auto
qed simp

lemma stream_within:
  "invar q \<Longrightarrow> fits q (ops_size ops) \<Longrightarrow> Reset_op \<notin> set ops \<Longrightarrow> queue_run step q ops = Some (q', rs) \<Longrightarrow>
     contents q @ all_enqueued ops rs = all_dequeued rs @ contents q'"
proof (induction ops arbitrary: q rs)
  case (Cons opn ops)
  obtain q1 r where s: "step q opn = Some (q1, r)" "invar q1" "fits q1 (ops_size ops)"
    "contents q1 = fifo_next (conf q) (contents q) opn" "fifo_result (conf q) (contents q) opn r"
    using step_within [OF Cons.prems(1)] Cons.prems(2) unfolding fifo_outcome_def by force
  then obtain rs1 where rs: "queue_run step q1 ops = Some (q', rs1)" "rs = r # rs1"
    using Cons.prems(4) by (auto split: option.splits)
  have "contents q @ enqueued opn r = dequeued r @ contents q1"
    using fifo_step_stream [OF s(5)] Cons.prems(3) bounded [OF Cons.prems(1)] s(4) by auto
  then have "contents q @ all_enqueued (opn # ops) rs = dequeued r @ (contents q1 @ all_enqueued ops rs1)"
    using rs(2) by (simp add: all_enqueued_def)
  also have "\<dots> = all_dequeued rs @ contents q'"
    using Cons.IH [OF s(2,3) _ rs(1)] Cons.prems(3) rs(2) by (simp add: all_dequeued_def)
  finally show ?case .
qed (simp add: all_enqueued_def all_dequeued_def)

end

locale fifo_queue =
  fixes invar :: "'q \<Rightarrow> bool"
    and conf :: "'q \<Rightarrow> qconf"
    and contents :: "'q \<Rightarrow> ('a::zero) list"
    and step :: "'q \<Rightarrow> 'a qop \<Rightarrow> ('q \<times> 'a qres) option"
  assumes bounded: "invar q \<Longrightarrow> length (contents q) \<le> qc_cap (conf q)"
    and step_refines: "invar q \<Longrightarrow> \<exists>q' r. step q opn = Some (q', r) \<and> invar q' \<and> conf q' = conf q
      \<and> contents q' = fifo_next (conf q) (contents q) opn \<and> fifo_result (conf q) (contents q) opn r"

sublocale fifo_queue \<subseteq> within: fifo_queue_within invar conf contents "\<lambda>_ _. True" step
  by unfold_locales (use bounded step_refines in \<open>auto simp: fifo_outcome_def\<close>)

context fifo_queue begin

lemmas run_total = within.run_within [OF _ TrueI]

lemmas run_stream = within.stream_within [OF _ TrueI]

end

section \<open>Batch routines\<close>

text \<open>
  What a queue's two batch routines promise: \<open>put q items fixed\<close> and \<open>get q dst fixed\<close> move the whole
  request or, when \<open>fixed\<close> is not set, the part that fits. The bulk and burst methods follow.
\<close>

definition admitted :: "bool \<Rightarrow> nat \<Rightarrow> nat \<Rightarrow> nat" where
  "admitted fixed len room = (if fixed \<and> room < len then 0 else min len room)"

lemma enqueue_admitted:
  assumes "m = admitted True 1 (qc_cap cf - length xs)"
  shows "fifo_next cf xs (Enqueue_op x) = xs @ take m [x]"
    and "fifo_result cf xs (Enqueue_op x) (Enqueued (if m = 0 then Some (Sentinel ErrFull) else None))"
  using assms by (auto simp: admitted_def fifo_result_def)

lemma dequeue_admitted:
  assumes "m = admitted True 1 (length xs)"
  shows "fifo_next cf xs Dequeue_op = drop m xs"
    and "fifo_result cf xs Dequeue_op
      (Dequeued (if m = 0 then 0 else hd xs) (if m = 0 then Some (Sentinel ErrEmpty) else None))"
  using assms by (auto simp: admitted_def fifo_result_def Suc_le_eq)

locale fifo_batches_within =
  fixes invar :: "'q \<Rightarrow> bool"
    and conf :: "'q \<Rightarrow> qconf"
    and contents :: "'q \<Rightarrow> ('a::zero) list"
    and fits :: "'q \<Rightarrow> nat \<Rightarrow> bool"
    and put :: "'q \<Rightarrow> 'a list \<Rightarrow> bool \<Rightarrow> ('q \<times> int \<times> int) option"
    and get :: "'q \<Rightarrow> 'a list \<Rightarrow> bool \<Rightarrow> ('q \<times> int \<times> int \<times> 'a list) option"
  assumes content_le: "invar q \<Longrightarrow> length (contents q) \<le> qc_cap (conf q)"
    and conf_okay: "invar q \<Longrightarrow> conf_ok (conf q)"
    and fits_less: "fits q n \<Longrightarrow> k \<le> n \<Longrightarrow> fits q k"
    and put_within: "invar q \<Longrightarrow> length items \<le> qc_cap (conf q) \<Longrightarrow> fits q (length items + n) \<Longrightarrow>
      m = admitted fixed (length items) (qc_cap (conf q) - length (contents q)) \<Longrightarrow>
      \<exists>q' rem. put q items fixed = Some (q', int m, rem) \<and> invar q' \<and> conf q' = conf q \<and> fits q' n
        \<and> contents q' = contents q @ take m items
        \<and> reports (qc_exact (conf q) \<or> items = [] \<or> m < length items) rem
            (qc_cap (conf q) - length (contents q) - m)"
    and get_within: "invar q \<Longrightarrow> length dst \<le> qc_cap (conf q) \<Longrightarrow> fits q n \<Longrightarrow>
      m = admitted fixed (length dst) (length (contents q)) \<Longrightarrow>
      \<exists>q' rem. get q dst fixed = Some (q', int m, rem, take m (contents q) @ drop m dst) \<and> invar q' \<and> conf q' = conf q
        \<and> fits q' n
        \<and> contents q' = drop m (contents q)
        \<and> reports (qc_exact (conf q) \<or> dst = [] \<or> m < length dst) rem (length (contents q) - m)"
begin

lemma bulk_in_within:
  assumes "invar q" "length items \<le> qc_maxE (conf q)" "fits q (length items + n)"
  shows "\<exists>q' moved rem. put q items True = Some (q', moved, rem) \<and> invar q' \<and> conf q' = conf q \<and> fits q' n
    \<and> contents q' = fifo_next (conf q) (contents q) (EnqueueBulk_op items)
    \<and> (moved = 0 \<longleftrightarrow> items = [] \<or> moved \<noteq> int (length items))
    \<and> fifo_result (conf q) (contents q) (EnqueueBulk_op items)
        (BulkIn rem (if moved \<noteq> int (length items) then Some (Sentinel ErrFull) else None))"
proof -
  have len: "length items \<le> qc_cap (conf q)" using assms conf_okay [OF assms(1)] by (simp add: conf_ok_def)
  let ?m = "admitted True (length items) (qc_cap (conf q) - length (contents q))"
  from put_within [OF assms(1) len assms(3) refl, of True] obtain q' rem where
    p: "put q items True = Some (q', int ?m, rem)" "invar q'" "conf q' = conf q" "fits q' n" "contents q' = contents q @ take ?m items"
    "reports (qc_exact (conf q) \<or> items = [] \<or> ?m < length items) rem (qc_cap (conf q) - length (contents q) - ?m)"
    by blast
  with content_le [OF assms(1)] assms(2) show ?thesis
    by (intro exI [of _ q'] exI [of _ "int ?m"] exI [of _ rem])
      (auto simp: fifo_result_def admitted_def split: if_splits)
qed

lemma burst_in_within:
  assumes "invar q" "fits q (length items + n)"
  shows "\<exists>q' moved rem. put q (take (min (length items) (qc_maxE (conf q))) items) False = Some (q', moved, rem)
    \<and> invar q' \<and> conf q' = conf q \<and> fits q' n
    \<and> contents q' = fifo_next (conf q) (contents q) (EnqueueBurst_op items)
    \<and> fifo_result (conf q) (contents q) (EnqueueBurst_op items) (BurstIn moved rem)"
proof -
  let ?T = "take (min (length items) (qc_maxE (conf q))) items"
  have le: "length ?T \<le> qc_cap (conf q)" using conf_okay [OF assms(1)] by (auto simp: conf_ok_def)
  note b = burst_in_clamped [where cf = "conf q" and items = items]
  have m: "burst_in (conf q) (contents q) items = admitted False (length ?T) (qc_cap (conf q) - length (contents q))"
    using b(1) by (simp add: admitted_def)
  have f: "fits q (length ?T + n)" by (rule fits_less [OF assms(2)]) simp
  from put_within [OF assms(1) le f m] b show ?thesis
    by (auto simp: fifo_result_def elim: reports_fewer)
qed

lemma bulk_out_within:
  assumes "invar q" "length dst \<le> qc_maxD (conf q)" "fits q n"
  shows "\<exists>q' moved rem out. get q dst True = Some (q', moved, rem, out) \<and> invar q' \<and> conf q' = conf q \<and> fits q' n
    \<and> contents q' = fifo_next (conf q) (contents q) (DequeueBulk_op dst)
    \<and> (moved = 0 \<longleftrightarrow> dst = [] \<or> moved \<noteq> int (length dst))
    \<and> fifo_result (conf q) (contents q) (DequeueBulk_op dst)
        (BulkOut rem (if moved \<noteq> int (length dst) then Some (Sentinel ErrEmpty) else None) out)"
proof -
  have len: "length dst \<le> qc_cap (conf q)" using assms conf_okay [OF assms(1)] by (simp add: conf_ok_def)
  let ?m = "admitted True (length dst) (length (contents q))"
  from get_within [OF assms(1) len assms(3) refl, of True] obtain q' rem where
    p: "get q dst True = Some (q', int ?m, rem, take ?m (contents q) @ drop ?m dst)" "invar q'" "conf q' = conf q" "fits q' n"
    "contents q' = drop ?m (contents q)"
    "reports (qc_exact (conf q) \<or> dst = [] \<or> ?m < length dst) rem (length (contents q) - ?m)"
    by blast
  with assms(2) show ?thesis
    by (intro exI [of _ q'] exI [of _ "int ?m"] exI [of _ rem] exI [of _ "take ?m (contents q) @ drop ?m dst"])
      (auto simp: fifo_result_def admitted_def split: if_splits)
qed

lemma burst_out_within:
  assumes "invar q" "fits q n"
  shows "\<exists>q' moved rem out. get q (take (min (length dst) (qc_maxD (conf q))) dst) False = Some (q', moved, rem, out)
    \<and> invar q' \<and> conf q' = conf q \<and> fits q' n
    \<and> contents q' = fifo_next (conf q) (contents q) (DequeueBurst_op dst)
    \<and> fifo_result (conf q) (contents q) (DequeueBurst_op dst)
        (BurstOut moved rem (out @ drop (min (length dst) (qc_maxD (conf q))) dst))"
proof -
  let ?T = "take (min (length dst) (qc_maxD (conf q))) dst"
  have le: "length ?T \<le> qc_cap (conf q)" using conf_okay [OF assms(1)] by (auto simp: conf_ok_def)
  note b = burst_out_clamped [where cf = "conf q" and dst = dst]
  have m: "burst_out (conf q) (contents q) dst = admitted False (length ?T) (length (contents q))"
    using b(1) by (simp add: admitted_def)
  from get_within [OF assms(1) le assms(2) m] b show ?thesis
    by (auto simp: fifo_result_def elim: reports_fewer)
qed

end

locale fifo_batches =
  fixes invar :: "'q \<Rightarrow> bool"
    and conf :: "'q \<Rightarrow> qconf"
    and contents :: "'q \<Rightarrow> ('a::zero) list"
    and put :: "'q \<Rightarrow> 'a list \<Rightarrow> bool \<Rightarrow> ('q \<times> int \<times> int) option"
    and get :: "'q \<Rightarrow> 'a list \<Rightarrow> bool \<Rightarrow> ('q \<times> int \<times> int \<times> 'a list) option"
  assumes content_le: "invar q \<Longrightarrow> length (contents q) \<le> qc_cap (conf q)"
    and conf_okay: "invar q \<Longrightarrow> conf_ok (conf q)"
    and put_ok: "invar q \<Longrightarrow> length items \<le> qc_cap (conf q) \<Longrightarrow>
      m = admitted fixed (length items) (qc_cap (conf q) - length (contents q)) \<Longrightarrow>
      \<exists>q' rem. put q items fixed = Some (q', int m, rem) \<and> invar q' \<and> conf q' = conf q
        \<and> contents q' = contents q @ take m items
        \<and> reports (qc_exact (conf q) \<or> items = [] \<or> m < length items) rem
            (qc_cap (conf q) - length (contents q) - m)"
    and get_ok: "invar q \<Longrightarrow> length dst \<le> qc_cap (conf q) \<Longrightarrow>
      m = admitted fixed (length dst) (length (contents q)) \<Longrightarrow>
      \<exists>q' rem. get q dst fixed = Some (q', int m, rem, take m (contents q) @ drop m dst) \<and> invar q' \<and> conf q' = conf q
        \<and> contents q' = drop m (contents q)
        \<and> reports (qc_exact (conf q) \<or> dst = [] \<or> m < length dst) rem (length (contents q) - m)"

sublocale fifo_batches \<subseteq> within: fifo_batches_within invar conf contents "\<lambda>_ _. True" put get
  by unfold_locales (use content_le conf_okay put_ok get_ok in auto)

context fifo_batches begin

lemmas bulk_in = within.bulk_in_within [OF _ _ TrueI]

lemmas burst_in = within.burst_in_within [OF _ TrueI]

lemmas bulk_out = within.bulk_out_within [OF _ _ TrueI]

lemmas burst_out = within.burst_out_within [OF _ TrueI]

end

end
