(* ===== verification/RingPositions.thy ===== *)
theory RingPositions
  imports RingFifo
begin

text \<open>
  Position arithmetic of a queue between calls. The producer side knows its own position \<open>p\<close> and a
  cached copy \<open>cc\<close> of the consumer's; the consumer side its position \<open>c\<close> and a cached copy \<open>cp\<close> of
  the producer's. All are 32-bit words that wrap. The admission fragments of the code, which first
  try the cached copy and then refresh it, are the definitions.
\<close>

section \<open>Admission fragments\<close>

text \<open>One element, serialized producer: the free count and the cached position after the check.\<close>

definition serial_free1 :: "u32 \<Rightarrow> bool \<Rightarrow> u32 \<Rightarrow> u32 \<Rightarrow> u32 \<Rightarrow> u32 \<times> u32" where
  "serial_free1 capacity exact cached cursor published =
     (let free = capacity + cached - cursor
      in if exact \<or> free = 0 \<or> free > capacity then (published, capacity + published - cursor)
         else (cached, free))"

text \<open>A batch of \<open>len\<close> elements, serialized producer.\<close>

definition serial_free :: "u32 \<Rightarrow> bool \<Rightarrow> u32 \<Rightarrow> u32 \<Rightarrow> u32 \<Rightarrow> u32 \<Rightarrow> u32 \<times> u32" where
  "serial_free capacity exact len cached cursor published =
     (let free = capacity + cached - cursor
      in if exact \<or> len = 0 \<or> free < len \<or> free > capacity
         then (published, capacity + published - cursor)
         else (cached, free))"

text \<open>One element and a batch, serialized consumer.\<close>

definition serial_avail1 :: "u32 \<Rightarrow> bool \<Rightarrow> u32 \<Rightarrow> u32 \<Rightarrow> u32 \<Rightarrow> u32 \<times> u32" where
  "serial_avail1 capacity exact cached cursor published =
     (let available = cached - cursor
      in if exact \<or> available = 0 \<or> available > capacity then (published, published - cursor)
         else (cached, available))"

definition serial_avail :: "u32 \<Rightarrow> bool \<Rightarrow> u32 \<Rightarrow> u32 \<Rightarrow> u32 \<Rightarrow> u32 \<Rightarrow> u32 \<times> u32" where
  "serial_avail capacity exact len cached cursor published =
     (let available = cached - cursor
      in if exact \<or> len = 0 \<or> available < len \<or> available > capacity
         then (published, published - cursor)
         else (cached, available))"

text \<open>
  The position of the other side a reservation on a concurrent side uses: its cached copy, or the
  published one when the cached one does not admit the request.
\<close>

definition multi_consumer :: "u32 \<Rightarrow> bool \<Rightarrow> u32 \<Rightarrow> u32 \<Rightarrow> u32 \<Rightarrow> u32 \<Rightarrow> u32" where
  "multi_consumer capacity exact requested cached head published =
     (if exact \<or> requested = 0 \<or> head - cached > capacity - requested then published else cached)"

definition multi_producer :: "u32 \<Rightarrow> bool \<Rightarrow> u32 \<Rightarrow> u32 \<Rightarrow> u32 \<Rightarrow> u32 \<Rightarrow> u32" where
  "multi_producer capacity exact requested cached head published =
     (if exact \<or> requested = 0 \<or> cached - head - requested > capacity - requested then published else cached)"

lemma serial_free1_eq: "serial_free1 cap exact cc p pub = serial_free cap exact 1 cc p pub"
  by (simp add: serial_free1_def serial_free_def Let_def word_less_nat_alt unat_eq_zero)

lemma serial_avail1_eq: "serial_avail1 cap exact cp c pub = serial_avail cap exact 1 cp c pub"
  by (simp add: serial_avail1_def serial_avail_def Let_def word_less_nat_alt unat_eq_zero)

section \<open>The position invariant\<close>

definition ring_inv :: "'a list \<Rightarrow> u32 \<Rightarrow> u32 \<Rightarrow> u32 \<Rightarrow> u32 \<Rightarrow> u32 \<Rightarrow> bool" where
  "ring_inv es msk p cc c cp \<longleftrightarrow> geom es msk \<and> unat (p - cc) \<le> length es
     \<and> unat (p - c) \<le> unat (p - cc) \<and> unat (cp - c) \<le> unat (p - c)"

definition ring_contents :: "'a list \<Rightarrow> u32 \<Rightarrow> u32 \<Rightarrow> 'a list" where
  "ring_contents es p c = window es c (unat (p - c))"

lemma ring_geom: "ring_inv es msk p cc c cp \<Longrightarrow> geom es msk"
  and ring_cc: "ring_inv es msk p cc c cp \<Longrightarrow> unat (p - cc) \<le> length es"
  and ring_c: "ring_inv es msk p cc c cp \<Longrightarrow> unat (p - c) \<le> unat (p - cc)"
  and ring_cp: "ring_inv es msk p cc c cp \<Longrightarrow> unat (cp - c) \<le> unat (p - c)"
  by (simp_all add: ring_inv_def)

lemma ring_count_le: "ring_inv es msk p cc c cp \<Longrightarrow> unat (p - c) \<le> length es"
  using ring_cc ring_c le_trans by blast

lemma length_contents [simp]: "length (ring_contents es p c) = unat (p - c)"
  by (simp add: ring_contents_def)

lemma ring_refresh_cc: "ring_inv es msk p cc c cp \<Longrightarrow> ring_inv es msk p c c cp"
  by (auto simp: ring_inv_def)

lemma ring_refresh_cp: "ring_inv es msk p cc c cp \<Longrightarrow> ring_inv es msk p cc c p"
  by (auto simp: ring_inv_def)

lemma ring_new: "geom es msk \<Longrightarrow> ring_inv es msk p p p p"
  by (simp add: ring_inv_def)

section \<open>Word arithmetic on distances\<close>

lemma unat_add_small: "unat (d :: u32) + n \<le> 2 ^ 30 \<Longrightarrow> unat (d + of_nat n) = unat d + n"
  by (simp add: unat_word_ariths unat_of_nat)

lemma unat_sub_small: "n \<le> unat (d :: u32) \<Longrightarrow> unat (d - of_nat n) = unat d - n"
proof -
  assume n: "n \<le> unat d"
  have "unat d < 2 ^ 32" using unsigned_less [of d] by simp
  with n have u: "unat (of_nat n :: u32) = n" by (simp add: unat_of_nat)
  with n have "of_nat n \<le> d" by (simp add: word_le_nat_alt)
  with u show ?thesis by (simp add: unat_sub)
qed

lemma cap_minus:
  assumes "geom es msk" "unat (p - q) \<le> length es"
  shows "unat (msk + 1 + q - p) = length es - unat (p - q)"
proof -
  have "msk + 1 + q - p = (msk + 1) - (p - q)" by simp
  moreover have "p - q \<le> msk + 1" using assms geom_cap [OF assms(1)] by (simp add: word_le_nat_alt)
  ultimately show ?thesis using geom_cap [OF assms(1)] by (simp only: unat_sub)
qed

section \<open>Admission\<close>

lemma serial_free_ok:
  assumes "ring_inv es msk p cc c cp"
  shows "\<exists>cc' free. serial_free (msk + 1) exact len cc p c = (cc', free) \<and> ring_inv es msk p cc' c cp
    \<and> unat free = length es - unat (p - cc') \<and> unat free \<le> length es - unat (p - c) \<and> free \<le> msk + 1
    \<and> (exact \<or> len = 0 \<or> free < len \<longrightarrow> cc' = c)"
proof -
  note g = ring_geom [OF assms] and cap = geom_cap [OF ring_geom [OF assms]]
  have cc: "unat (msk + 1 + cc - p) = length es - unat (p - cc)" by (rule cap_minus [OF g ring_cc [OF assms]])
  have c: "unat (msk + 1 + c - p) = length es - unat (p - c)" by (rule cap_minus [OF g ring_count_le [OF assms]])
  show ?thesis
  proof (cases "exact \<or> len = 0 \<or> msk + 1 + cc - p < len \<or> msk + 1 + cc - p > msk + 1")
    case True
    then have "serial_free (msk + 1) exact len cc p c = (c, msk + 1 + c - p)"
      by (simp add: serial_free_def Let_def)
    with c cap show ?thesis
      using ring_refresh_cc [OF assms] by (simp add: word_le_nat_alt)
  next
    case False
    then have "serial_free (msk + 1) exact len cc p c = (cc, msk + 1 + cc - p)"
      by (simp add: serial_free_def Let_def)
    with False cc cap ring_c [OF assms] show ?thesis
      using assms by (simp add: word_le_nat_alt)
  qed
qed

lemma serial_avail_ok:
  assumes "ring_inv es msk p cc c cp"
  shows "\<exists>cp' avail. serial_avail (msk + 1) exact len cp c p = (cp', avail) \<and> ring_inv es msk p cc c cp'
    \<and> avail = cp' - c \<and> unat avail \<le> unat (p - c) \<and> avail \<le> msk + 1
    \<and> (exact \<or> len = 0 \<or> avail < len \<longrightarrow> cp' = p)"
proof -
  have le: "cp - c \<le> msk + 1" "p - c \<le> msk + 1"
    using geom_cap [OF ring_geom [OF assms]] ring_count_le [OF assms] ring_cp [OF assms]
    by (simp_all add: word_le_nat_alt)
  show ?thesis
    using le assms ring_refresh_cp [OF assms] ring_cp [OF assms]
    by (cases "exact \<or> len = 0 \<or> cp - c < len \<or> cp - c > msk + 1")
      (auto simp: serial_avail_def Let_def)
qed

text \<open>Under the invariant the concurrent sides admit what the serialized sides admit.\<close>

lemma multi_consumer_eq:
  assumes "ring_inv es msk p cc c cp" "unat len \<le> length es"
  shows "serial_free (msk + 1) exact len cc p c
    = (let q = multi_consumer (msk + 1) exact len cc p c in (q, msk + 1 + q - p))"
proof -
  note cap = geom_cap [OF ring_geom [OF assms(1)]]
  have a: "unat (msk + 1 + cc - p) = length es - unat (p - cc)"
    by (rule cap_minus [OF ring_geom ring_cc, OF assms(1) assms(1)])
  have b: "unat (msk + 1 - len) = length es - unat len"
    using assms(2) cap by (simp add: unat_sub word_le_nat_alt)
  have "msk + 1 + cc - p < len \<or> msk + 1 < msk + 1 + cc - p \<longleftrightarrow> p - cc > msk + 1 - len"
    using a b cap ring_cc [OF assms(1)] assms(2) by (auto simp: word_less_nat_alt)
  then show ?thesis by (auto simp: serial_free_def multi_consumer_def Let_def)
qed

lemma multi_producer_eq:
  assumes "ring_inv es msk p cc c cp" "unat len \<le> length es"
  shows "serial_avail (msk + 1) exact len cp c p
    = (let q = multi_producer (msk + 1) exact len cp c p in (q, q - c))"
proof -
  note cap = geom_cap [OF ring_geom [OF assms(1)]] and le = geom_le [OF ring_geom [OF assms(1)]]
  have cp: "unat (cp - c) \<le> length es" using ring_cp [OF assms(1)] ring_count_le [OF assms(1)] by simp
  have b: "unat (msk + 1 - len) = length es - unat len"
    using assms(2) cap by (simp add: unat_sub word_le_nat_alt)
  have "cp - c < len \<or> msk + 1 < cp - c \<longleftrightarrow> cp - c - len > msk + 1 - len"
  proof (cases "cp - c < len")
    case True
    then have "unat (cp - c - len) = 2 ^ 32 + unat (cp - c) - unat len"
      by (simp add: unat_sub_if' word_less_nat_alt)
    with True b cp le assms(2) show ?thesis by (simp add: word_less_nat_alt)
  next
    case False
    then have "unat (cp - c - len) = unat (cp - c) - unat len" by (simp add: unat_sub)
    with False b cp cap assms(2) show ?thesis by (auto simp: word_less_nat_alt)
  qed
  then show ?thesis by (auto simp: serial_avail_def multi_producer_def Let_def)
qed

section \<open>Moving elements\<close>

lemma slot_from_producer:
  fixes p c :: u32
  assumes "geom es msk" "i < unat (p - c)" "unat (p - c) \<le> length es"
  shows "(unat c + i) mod length es = (unat p + (length es - unat (p - c) + i)) mod length es"
proof -
  have "p = c + of_nat (unat (p - c))" by simp
  then have "(unat p + (length es - unat (p - c) + i)) mod length es
      = slot (c + of_nat (unat (p - c)) + of_nat (length es - unat (p - c) + i)) msk"
    using slot_add [OF assms(1), of p] by metis
  also have "\<dots> = slot (c + of_nat (length es + i)) msk"
    using assms(3) by (simp add: add.commute flip: of_nat_add add.assoc)
  also have "\<dots> = (unat c + (length es + i)) mod length es" by (rule slot_add [OF assms(1)])
  finally show ?thesis by (metis add.assoc add.commute mod_add_self2)
qed

lemma ring_push:
  assumes "ring_inv es msk p cc c cp" "unat (p - cc) + length xs \<le> length es"
  shows "ring_inv (copy_in es msk p xs) msk (p + of_nat (length xs)) cc c cp"
    and "ring_contents (copy_in es msk p xs) (p + of_nat (length xs)) c = ring_contents es p c @ xs"
proof -
  note g = ring_geom [OF assms(1)]
  have small: "unat (p - cc) + length xs \<le> 2 ^ 30" using assms(2) geom_le [OF g] by simp
  have d: "p + of_nat (length xs) - q = (p - q) + of_nat (length xs)" for q :: u32 by simp
  have cc: "unat (p + of_nat (length xs) - cc) = unat (p - cc) + length xs"
    unfolding d using small by (rule unat_add_small)
  have c: "unat (p + of_nat (length xs) - c) = unat (p - c) + length xs"
    unfolding d using small ring_c [OF assms(1)] by (intro unat_add_small) simp
  show "ring_inv (copy_in es msk p xs) msk (p + of_nat (length xs)) cc c cp"
    using assms(1,2) geom_length [OF g, of "copy_in es msk p xs"] by (auto simp: ring_inv_def cc c)
  have g': "geom (copy_in es msk p xs) msk" by (rule geom_length [OF g]) simp
  have len: "length xs \<le> length es" using assms(2) by simp
  have old: "window (copy_in es msk p xs) c (unat (p - c)) = window es c (unat (p - c))"
  proof (rule nth_equalityI)
    fix i assume "i < length (window (copy_in es msk p xs) c (unat (p - c)))"
    then have i: "i < unat (p - c)" by simp
    note sl = slot_from_producer [OF g i ring_count_le [OF assms(1)]]
    have "length es - unat (p - c) + i < length es" using i ring_count_le [OF assms(1)] by simp
    moreover have "\<not> length es - unat (p - c) + i < length xs" using assms(2) ring_c [OF assms(1)] by simp
    ultimately have "copy_in es msk p xs ! ((unat c + i) mod length es) = es ! ((unat c + i) mod length es)"
      unfolding sl by (simp only: nth_copy_in [OF g len] if_False)
    then show "window (copy_in es msk p xs) c (unat (p - c)) ! i = window es c (unat (p - c)) ! i"
      using i by (simp add: nth_window)
  qed simp
  have new: "window (copy_in es msk p xs) p (length xs) = xs"
    using nth_copy_in [OF g len] len by (intro nth_equalityI) (auto simp: nth_window)
  have "p = c + of_nat (unat (p - c))" by simp
  then show "ring_contents (copy_in es msk p xs) (p + of_nat (length xs)) c = ring_contents es p c @ xs"
    using window_add [OF g', of c "unat (p - c)" "length xs"] old new unfolding ring_contents_def c by simp
qed

lemma ring_pop:
  assumes "ring_inv es msk p cc c cp" "n \<le> unat (cp - c)"
  shows "ring_inv es msk p cc (c + of_nat n) cp"
    and "ring_contents es p (c + of_nat n) = drop n (ring_contents es p c)"
    and "window es c n = take n (ring_contents es p c)"
proof -
  have np: "n \<le> unat (p - c)" using assms ring_cp [OF assms(1)] by simp
  have d: "q - (c + of_nat n) = (q - c) - of_nat n" for q :: u32 by simp
  have "unat (cp - (c + of_nat n)) = unat (cp - c) - n" unfolding d by (rule unat_sub_small [OF assms(2)])
  moreover have p: "unat (p - (c + of_nat n)) = unat (p - c) - n" unfolding d by (rule unat_sub_small [OF np])
  ultimately show "ring_inv es msk p cc (c + of_nat n) cp" using assms(1) by (auto simp: ring_inv_def)
  show "ring_contents es p (c + of_nat n) = drop n (ring_contents es p c)"
    unfolding ring_contents_def p by (rule window_drop [OF ring_geom [OF assms(1)] np])
  show "window es c n = take n (ring_contents es p c)"
    unfolding ring_contents_def by (rule window_take [OF np, symmetric])
qed

lemma ring_pop_clear:
  assumes "ring_inv es msk p cc c cp" "unat n \<le> unat (cp - c)"
  shows "ring_inv (clear_slots es msk c n) msk p cc (c + n) cp"
    and "ring_contents (clear_slots es msk c n) p (c + n) = drop (unat n) (ring_contents es p c)"
proof -
  note g = ring_geom [OF assms(1)] and pop = ring_pop [OF assms]
  have n: "c + of_nat (unat n) = c + n" by simp
  show "ring_inv (clear_slots es msk c n) msk p cc (c + n) cp"
    using pop(1) geom_length [OF g, of "clear_slots es msk c n"] by (simp add: n ring_inv_def)
  have np: "unat n \<le> unat (p - c)" "unat (p - c) \<le> length es"
    using assms ring_cp [OF assms(1)] ring_count_le [OF assms(1)] by simp_all
  have "ring_contents (clear_slots es msk c n) p (c + n) = ring_contents es p (c + n)"
  proof (rule nth_equalityI)
    fix i assume "i < length (ring_contents (clear_slots es msk c n) p (c + n))"
    then have i: "i < unat (p - (c + n))" by simp
    have "unat (p - (c + n)) = unat (p - c) - unat n"
      using unat_sub_small [OF np(1)] by (simp add: diff_diff_add)
    with i np have lt: "unat n + i < length es" by simp
    have "(unat (c + n) + i) mod length es = (unat c + (unat n + i)) mod length es"
      using slot_add [OF g, of "c + n" i] slot_add [OF g, of c "unat n + i"] by (simp add: add.assoc)
    then show "ring_contents (clear_slots es msk c n) p (c + n) ! i = ring_contents es p (c + n) ! i"
      using i nth_clear_slots [OF g _ lt, of n c] np by (simp add: ring_contents_def nth_window)
  qed simp
  then show "ring_contents (clear_slots es msk c n) p (c + n) = drop (unat n) (ring_contents es p c)"
    using pop(2) n by simp
qed

section \<open>Single elements\<close>

lemma copy_in_one:
  assumes "geom es msk"
  shows "es[slot p msk := x] = copy_in es msk p [x]"
proof (rule nth_equalityI)
  fix j assume "j < length (es[slot p msk := x])"
  then show "es[slot p msk := x] ! j = copy_in es msk p [x] ! j"
    using nth_copy_in_raw [OF assms, of "[x]" j p] geom_base_lt [OF assms, of p] geom_pos [OF assms]
    by (cases "j = slot p msk") (auto simp: nth_list_update offset_in_def Let_def Suc_le_eq)
qed simp

lemma clear_one:
  assumes "geom es msk"
  shows "es[slot c msk := 0] = clear_slots es msk c 1"
proof (rule nth_equalityI)
  fix j assume "j < length (es[slot c msk := 0])"
  then show "es[slot c msk := 0] ! j = clear_slots es msk c 1 ! j"
    using nth_clear_slots_raw [OF assms, of 1 j c] geom_base_lt [OF assms, of c] geom_pos [OF assms]
    by (cases "j = slot c msk") (auto simp: nth_list_update offset_in_def Suc_le_eq)
qed simp

lemma min_one: "min (1 :: u32) x = (if x = 0 then 0 else 1)"
  by (simp add: min_def word_le_nat_alt unat_eq_zero Suc_le_eq)

lemma copy_out_one: "geom es msk \<Longrightarrow> copy_out es msk start 1 = [es ! slot start msk]"
  using copy_out_window [of es msk 1 start] geom_pos [of es msk]
  by (simp add: window_def geom_slot Suc_le_eq)

lemma first_element:
  assumes "geom es msk" "0 < unat (p - c)"
  shows "es ! slot c msk = hd (ring_contents es p c)"
proof -
  have "hd (ring_contents es p c) = ring_contents es p c ! 0"
    using assms(2) by (intro hd_conv_nth) (simp flip: length_0_conv)
  then show ?thesis using assms by (simp add: ring_contents_def nth_window geom_slot)
qed

section \<open>Admission and transfer together\<close>

text \<open>
  What the callers of the fragments need: how many elements are admitted, what is left, and the
  state after the transfer. The counts are natural numbers from here on.
\<close>

lemma len_word_0: "n \<le> length es \<Longrightarrow> geom es msk \<Longrightarrow> of_nat n = (0 :: u32) \<longleftrightarrow> n = 0"
proof
  assume a: "n \<le> length es" "geom es msk" "of_nat n = (0 :: u32)"
  show "n = 0" using len_word [OF a(1,2)] unfolding a(3) by simp
qed simp

lemma put_admits:
  assumes inv: "ring_inv es msk p cc c cp" and len: "length items \<le> length es"
  obtains cc' free n where
    "serial_free (msk + 1) exact (of_nat (length items)) cc p c = (cc', free)"
    "\<not> msk + 1 < free" "min (of_nat (length items)) free = n"
    "free < of_nat (length items) \<longleftrightarrow> length es - unat (p - c) < length items"
    "unat n = min (length items) (length es - unat (p - c))"
    "ring_inv es msk p cc' c cp"
    "ring_inv (copy_in es msk p (take (unat n) items)) msk (p + n) cc' c cp"
    "ring_contents (copy_in es msk p (take (unat n) items)) (p + n) c
      = ring_contents es p c @ take (unat n) items"
    "unat free \<le> length es - unat (p - c)" "unat (free - n) = unat free - unat n"
    "exact \<or> items = [] \<or> unat n < length items \<Longrightarrow> unat free = length es - unat (p - c)"
proof -
  note g = ring_geom [OF inv]
  have l: "unat (of_nat (length items) :: u32) = length items" by (rule len_word [OF len g])
  have l0: "of_nat (length items) = (0 :: u32) \<longleftrightarrow> items = []" using len_word_0 [OF len g] by simp
  obtain cc' free where s: "serial_free (msk + 1) exact (of_nat (length items)) cc p c = (cc', free)"
    "ring_inv es msk p cc' c cp" "unat free = length es - unat (p - cc')"
    "unat free \<le> length es - unat (p - c)" "free \<le> msk + 1"
    "exact \<or> of_nat (length items) = (0 :: u32) \<or> free < of_nat (length items) \<Longrightarrow> cc' = c"
    using serial_free_ok [OF inv, of exact "of_nat (length items)"] by blast
  define n where "n = min (of_nat (length items)) free"
  have n: "unat n = min (length items) (unat free)" using l by (simp add: n_def min_def word_le_nat_alt)
  have lt: "free < of_nat (length items) \<longleftrightarrow> unat free < length items" using l by (simp add: word_less_nat_alt)
  have full: "unat free = length es - unat (p - c)" if "cc' = c" using s(3) that by simp
  have low: "unat free < length items \<Longrightarrow> unat free = length es - unat (p - c)" using s(6) lt full by blast
  have n': "unat n = min (length items) (length es - unat (p - c))"
    using n low s(4) by (cases "unat free < length items") auto
  have sub: "unat (free - n) = unat free - unat n"
    using n by (intro unat_sub) (simp add: word_le_nat_alt)
  have room: "unat (p - cc') + length (take (unat n) items) \<le> length es"
    using n s(3) ring_cc [OF s(2)] by simp
  have len_take: "of_nat (length (take (unat n) items)) = n"
  proof -
    have "length (take (unat n) items) = unat n" using n by simp
    then show ?thesis by (simp only: of_nat_unat ucast_id)
  qed
  note push = ring_push [OF s(2) room, unfolded len_take]
  show ?thesis
  proof (rule that [OF s(1)])
    show "\<not> msk + 1 < free" using s(5) by simp
    show "min (of_nat (length items)) free = n" by (simp add: n_def)
    show "free < of_nat (length items) \<longleftrightarrow> length es - unat (p - c) < length items"
      using lt low s(4) by linarith
    show "unat n = min (length items) (length es - unat (p - c))" by (rule n')
    show "unat free = length es - unat (p - c)" if "exact \<or> items = [] \<or> unat n < length items"
      using that s(6) l0 lt n full by auto
  qed (use s push sub in simp_all)
qed

lemma get_admits:
  assumes inv: "ring_inv es msk p cc c cp" and len: "length dst \<le> length es"
  obtains cp' avail n where
    "serial_avail (msk + 1) exact (of_nat (length dst)) cp c p = (cp', avail)"
    "\<not> msk + 1 < avail" "min (of_nat (length dst)) avail = n"
    "avail < of_nat (length dst) \<longleftrightarrow> unat (p - c) < length dst"
    "unat n = min (length dst) (unat (p - c))"
    "ring_inv es msk p cc c cp'"
    "ring_inv es msk p cc (c + n) cp'" "ring_contents es p (c + n) = drop (unat n) (ring_contents es p c)"
    "ring_inv (clear_slots es msk c n) msk p cc (c + n) cp'"
    "ring_contents (clear_slots es msk c n) p (c + n) = drop (unat n) (ring_contents es p c)"
    "copy_out es msk c n = take (unat n) (ring_contents es p c)"
    "unat avail \<le> unat (p - c)" "unat (avail - n) = unat avail - unat n"
    "exact \<or> dst = [] \<or> unat n < length dst \<Longrightarrow> unat avail = unat (p - c)"
proof -
  note g = ring_geom [OF inv]
  have l: "unat (of_nat (length dst) :: u32) = length dst" by (rule len_word [OF len g])
  have l0: "of_nat (length dst) = (0 :: u32) \<longleftrightarrow> dst = []" using len_word_0 [OF len g] by simp
  obtain cp' avail where s: "serial_avail (msk + 1) exact (of_nat (length dst)) cp c p = (cp', avail)"
    "ring_inv es msk p cc c cp'" "avail = cp' - c" "unat avail \<le> unat (p - c)" "avail \<le> msk + 1"
    "exact \<or> of_nat (length dst) = (0 :: u32) \<or> avail < of_nat (length dst) \<Longrightarrow> cp' = p"
    using serial_avail_ok [OF inv, of exact "of_nat (length dst)"] by blast
  define n where "n = min (of_nat (length dst)) avail"
  have n: "unat n = min (length dst) (unat avail)" using l by (simp add: n_def min_def word_le_nat_alt)
  have lt: "avail < of_nat (length dst) \<longleftrightarrow> unat avail < length dst" using l by (simp add: word_less_nat_alt)
  have low: "unat avail < length dst \<Longrightarrow> unat avail = unat (p - c)" using s(3,6) lt by blast
  have n': "unat n = min (length dst) (unat (p - c))"
    using n low s(4) by (cases "unat avail < length dst") auto
  have sub: "unat (avail - n) = unat avail - unat n"
    using n by (intro unat_sub) (simp add: word_le_nat_alt)
  have np: "unat n \<le> unat (cp' - c)" using n s(3) by simp
  have cn: "c + of_nat (unat n) = c + n" by simp
  note pop = ring_pop [OF s(2) np, unfolded cn] and clr = ring_pop_clear [OF s(2) np]
  have "unat n \<le> length es" using n' ring_count_le [OF inv] by simp
  note out = copy_out_window [OF g this, of c]
  show ?thesis
  proof (rule that [OF s(1)])
    show "\<not> msk + 1 < avail" using s(5) by simp
    show "min (of_nat (length dst)) avail = n" by (simp add: n_def)
    show "avail < of_nat (length dst) \<longleftrightarrow> unat (p - c) < length dst"
      using lt low s(4) by linarith
    show "unat n = min (length dst) (unat (p - c))" by (rule n')
    show "unat avail = unat (p - c)" if "exact \<or> dst = [] \<or> unat n < length dst"
      using that s(3,6) l0 lt n by auto
  qed (use s pop clr out sub in simp_all)
qed

section \<open>Fresh arrays and limits\<close>

lemma geom_new: "k \<le> 30 \<Longrightarrow> geom (replicate (nat (2 ^ k)) x) (of_int (2 ^ k - 1))"
  by (auto simp: geom_def nat_power_eq)

lemma unat_of_batch: "0 \<le> m \<Longrightarrow> m \<le> 2 ^ k \<Longrightarrow> k \<le> 30 \<Longrightarrow> unat (of_int m :: u32) = nat m"
proof -
  assume m: "0 \<le> m" "m \<le> 2 ^ k" "k \<le> 30"
  have "(2 :: int) ^ k \<le> 2 ^ 30" using m(3) by (intro power_increasing) auto
  then have "nat m < 2 ^ 32" using m by simp
  moreover have "(of_int m :: u32) = of_nat (nat m)" using m(1) by simp
  ultimately show ?thesis by (simp add: unat_of_nat)
qed

end
