(* ===== verification/DpdkSPSC.thy ===== *)
theory DpdkSPSC
  imports DpdkOptions RingPositions
begin

text \<open>
  The queue with one producer and one consumer, \<^verbatim>\<open>ring/dpdk/spsc.go\<close>. The two \<^verbatim>\<open>entries\<close> slices of
  the source share one array, so the array is a field of the queue. Each method is the whole call
  run without interference from the other side.
\<close>

section \<open>Definitions\<close>

record spscProducer =
  sp_mask :: u32
  sp_cursor :: u32
  sp_cachedConsumer :: u32
  sp_maxBatch :: u32
  sp_exactBatchCounts :: bool
  sp_published :: u32

record spscConsumer =
  sc_mask :: u32
  sc_cursor :: u32
  sc_cachedProducer :: u32
  sc_clearOnDequeue :: bool
  sc_maxBatch :: u32
  sc_exactBatchCounts :: bool
  sc_published :: u32

record 'a SPSCQueue =
  spsc_entries :: "'a list"
  spsc_producer :: spscProducer
  spsc_consumer :: spscConsumer

definition NewSPSCQueue :: "int \<Rightarrow> Option list \<Rightarrow> ring_error + ('a::zero) SPSCQueue" where
  "NewSPSCQueue count options =
     (case resolveConfig count modeSingle modeSingle True options of
        Inl e \<Rightarrow> Inl e
      | Inr cfg \<Rightarrow> Inr
          \<lparr>spsc_entries = replicate (nat count) 0,
           spsc_producer = \<lparr>sp_mask = of_int (count - 1), sp_cursor = 0, sp_cachedConsumer = 0,
             sp_maxBatch = of_int (maxEnqueueBatch cfg), sp_exactBatchCounts = exactBatchCounts cfg,
             sp_published = 0\<rparr>,
           spsc_consumer = \<lparr>sc_mask = of_int (count - 1), sc_cursor = 0, sc_cachedProducer = 0,
             sc_clearOnDequeue = (\<not> keepDequeued cfg), sc_maxBatch = of_int (maxDequeueBatch cfg),
             sc_exactBatchCounts = exactBatchCounts cfg, sc_published = 0\<rparr>\<rparr>)"

definition SPSC_Capacity :: "'a SPSCQueue \<Rightarrow> int" where
  "SPSC_Capacity r = int (unat (sp_mask (spsc_producer r) + 1))"

definition SPSC_MaxEnqueueBatch :: "'a SPSCQueue \<Rightarrow> int" where
  "SPSC_MaxEnqueueBatch r = int (unat (sp_maxBatch (spsc_producer r)))"

definition SPSC_MaxDequeueBatch :: "'a SPSCQueue \<Rightarrow> int" where
  "SPSC_MaxDequeueBatch r = int (unat (sc_maxBatch (spsc_consumer r)))"

definition SPSC_Count :: "'a SPSCQueue \<Rightarrow> int" where
  "SPSC_Count r =
     (let consumer = sc_published (spsc_consumer r); producer = sp_published (spsc_producer r)
      in int (unat (min (producer - consumer) (sp_mask (spsc_producer r) + 1))))"

definition SPSC_Free :: "'a SPSCQueue \<Rightarrow> int" where
  "SPSC_Free r = SPSC_Capacity r - SPSC_Count r"

definition SPSC_Full :: "'a SPSCQueue \<Rightarrow> bool" where
  "SPSC_Full r \<longleftrightarrow> SPSC_Count r = SPSC_Capacity r"

definition SPSC_Empty :: "'a SPSCQueue \<Rightarrow> bool" where
  "SPSC_Empty r \<longleftrightarrow> SPSC_Count r = 0"

definition SPSC_Reset :: "('a::zero) SPSCQueue \<Rightarrow> 'a SPSCQueue" where
  "SPSC_Reset r =
     r\<lparr>spsc_entries := replicate (length (spsc_entries r)) 0,
       spsc_producer := (spsc_producer r)\<lparr>sp_cursor := 0, sp_cachedConsumer := 0, sp_published := 0\<rparr>,
       spsc_consumer := (spsc_consumer r)\<lparr>sc_cursor := 0, sc_cachedProducer := 0, sc_published := 0\<rparr>\<rparr>"

text \<open>
  The ends of the methods: the cached position is stored, then elements are written and the cursor
  is advanced and published, or elements are read, cleared and released.
\<close>

definition spsc_store_cachedConsumer :: "'a SPSCQueue \<Rightarrow> u32 \<Rightarrow> 'a SPSCQueue" where
  "spsc_store_cachedConsumer r cached =
     r\<lparr>spsc_producer := (spsc_producer r)\<lparr>sp_cachedConsumer := cached\<rparr>\<rparr>"

definition spsc_store_cachedProducer :: "'a SPSCQueue \<Rightarrow> u32 \<Rightarrow> 'a SPSCQueue" where
  "spsc_store_cachedProducer r cached =
     r\<lparr>spsc_consumer := (spsc_consumer r)\<lparr>sc_cachedProducer := cached\<rparr>\<rparr>"

definition spsc_push :: "'a SPSCQueue \<Rightarrow> 'a list \<Rightarrow> u32 \<Rightarrow> 'a SPSCQueue" where
  "spsc_push r es len =
     (let producer = spsc_producer r; cursor = sp_cursor producer + len
      in r\<lparr>spsc_entries := es, spsc_producer := producer\<lparr>sp_cursor := cursor, sp_published := cursor\<rparr>\<rparr>)"

definition spsc_pop :: "'a SPSCQueue \<Rightarrow> 'a list \<Rightarrow> u32 \<Rightarrow> 'a SPSCQueue" where
  "spsc_pop r es len =
     (let consumer = spsc_consumer r; cursor = sc_cursor consumer + len
      in r\<lparr>spsc_entries := es, spsc_consumer := consumer\<lparr>sc_cursor := cursor, sc_published := cursor\<rparr>\<rparr>)"

definition SPSC_Enqueue :: "'a SPSCQueue \<Rightarrow> 'a \<Rightarrow> 'a SPSCQueue \<times> ring_error option" where
  "SPSC_Enqueue r item =
     (let producer = spsc_producer r;
          capacity = sp_mask producer + 1;
          (cached, free) = serial_free1 capacity False (sp_cachedConsumer producer) (sp_cursor producer)
            (sc_published (spsc_consumer r));
          r1 = spsc_store_cachedConsumer r cached
      in if free = 0 \<or> free > capacity then (r1, Some (Sentinel ErrFull))
         else (spsc_push r1 ((spsc_entries r)[slot (sp_cursor producer) (sp_mask producer) := item]) 1, None))"

definition SPSC_Dequeue :: "('a::zero) SPSCQueue \<Rightarrow> 'a SPSCQueue \<times> 'a \<times> ring_error option" where
  "SPSC_Dequeue r =
     (let consumer = spsc_consumer r;
          capacity = sc_mask consumer + 1;
          (cached, available) = serial_avail1 capacity False (sc_cachedProducer consumer) (sc_cursor consumer)
            (sp_published (spsc_producer r));
          r1 = spsc_store_cachedProducer r cached
      in if available = 0 \<or> available > capacity then (r1, 0, Some (Sentinel ErrEmpty))
         else (let index = slot (sc_cursor consumer) (sc_mask consumer);
                   v = spsc_entries r ! index;
                   es = (if sc_clearOnDequeue consumer then (spsc_entries r)[index := 0] else spsc_entries r)
               in (spsc_pop r1 es 1, v, None)))"

definition SPSC_enqueueBatch :: "'a SPSCQueue \<Rightarrow> 'a list \<Rightarrow> bool \<Rightarrow> 'a SPSCQueue \<times> int \<times> int" where
  "SPSC_enqueueBatch r items fixed =
     (let producer = spsc_producer r;
          capacity = sp_mask producer + 1;
          len = of_nat (length items);
          (cached, free) = serial_free capacity (sp_exactBatchCounts producer) len (sp_cachedConsumer producer)
            (sp_cursor producer) (sc_published (spsc_consumer r));
          r1 = spsc_store_cachedConsumer r cached
      in if free > capacity then (r1, 0, int (unat capacity))
         else if fixed \<and> free < len then (r1, 0, int (unat free))
         else (let n = min len free
               in if n = 0 then (r1, 0, int (unat free))
                  else (spsc_push r1 (copy_in (spsc_entries r) (sp_mask producer) (sp_cursor producer)
                          (take (unat n) items)) n,
                        int (unat n), int (unat (free - n)))))"

definition SPSC_dequeueBatch :: "('a::zero) SPSCQueue \<Rightarrow> 'a list \<Rightarrow> bool \<Rightarrow> 'a SPSCQueue \<times> int \<times> int \<times> 'a list" where
  "SPSC_dequeueBatch r dst fixed =
     (let consumer = spsc_consumer r;
          capacity = sc_mask consumer + 1;
          len = of_nat (length dst);
          (cached, available) = serial_avail capacity (sc_exactBatchCounts consumer) len
            (sc_cachedProducer consumer) (sc_cursor consumer) (sp_published (spsc_producer r));
          r1 = spsc_store_cachedProducer r cached
      in if available > capacity then (r1, 0, int (unat capacity), dst)
         else if fixed \<and> available < len then (r1, 0, int (unat available), dst)
         else (let n = min len available
               in if n = 0 then (r1, 0, int (unat available), dst)
                  else (let out = copy_out (spsc_entries r) (sc_mask consumer) (sc_cursor consumer) n;
                            es = (if sc_clearOnDequeue consumer
                                  then clear_slots (spsc_entries r) (sc_mask consumer) (sc_cursor consumer) n
                                  else spsc_entries r)
                        in (spsc_pop r1 es n, int (unat n), int (unat (available - n)),
                            out @ drop (unat n) dst))))"

definition SPSC_EnqueueBulk :: "'a SPSCQueue \<Rightarrow> 'a list \<Rightarrow> 'a SPSCQueue \<times> int \<times> ring_error option" where
  "SPSC_EnqueueBulk r items =
     (let producer = spsc_producer r; capacity = sp_mask producer + 1
      in if length items > unat (sp_maxBatch producer)
         then (let fresh = capacity + sc_published (spsc_consumer r) - sp_cursor producer
               in (r, int (unat (min fresh capacity)),
                   Some (BatchLengthError (int (length items)) (sp_maxBatch producer) capacity)))
         else if length items = 1
         then (let (cached, free) = serial_free1 capacity (sp_exactBatchCounts producer)
                     (sp_cachedConsumer producer) (sp_cursor producer) (sc_published (spsc_consumer r));
                   r1 = spsc_store_cachedConsumer r cached
               in if free > capacity then (r1, int (unat capacity), Some (Sentinel ErrFull))
                  else if free = 0 then (r1, 0, Some (Sentinel ErrFull))
                  else (spsc_push r1 ((spsc_entries r)[slot (sp_cursor producer) (sp_mask producer) := items ! 0]) 1,
                        int (unat (free - 1)), None))
         else (let (r1, moved, remaining) = SPSC_enqueueBatch r items True
               in (r1, remaining, if moved \<noteq> int (length items) then Some (Sentinel ErrFull) else None)))"

definition SPSC_EnqueueBurst :: "'a SPSCQueue \<Rightarrow> 'a list \<Rightarrow> 'a SPSCQueue \<times> int \<times> int" where
  "SPSC_EnqueueBurst r items =
     (let producer = spsc_producer r; capacity = sp_mask producer + 1;
          len = min (length items) (unat (sp_maxBatch producer))
      in if len = 1
         then (let (cached, free) = serial_free1 capacity (sp_exactBatchCounts producer)
                     (sp_cachedConsumer producer) (sp_cursor producer) (sc_published (spsc_consumer r));
                   r1 = spsc_store_cachedConsumer r cached
               in if free > capacity then (r1, 0, int (unat capacity))
                  else if free = 0 then (r1, 0, 0)
                  else (spsc_push r1 ((spsc_entries r)[slot (sp_cursor producer) (sp_mask producer) := items ! 0]) 1,
                        1, int (unat (free - 1))))
         else SPSC_enqueueBatch r (take len items) False)"

definition SPSC_DequeueBulk :: "('a::zero) SPSCQueue \<Rightarrow> 'a list \<Rightarrow> 'a SPSCQueue \<times> int \<times> ring_error option \<times> 'a list" where
  "SPSC_DequeueBulk r dst =
     (let consumer = spsc_consumer r; capacity = sc_mask consumer + 1
      in if length dst > unat (sc_maxBatch consumer)
         then (let fresh = sp_published (spsc_producer r) - sc_cursor consumer
               in (r, int (unat (min fresh capacity)),
                   Some (BatchLengthError (int (length dst)) (sc_maxBatch consumer) capacity), dst))
         else if length dst = 1
         then (let (cached, available) = serial_avail1 capacity (sc_exactBatchCounts consumer)
                     (sc_cachedProducer consumer) (sc_cursor consumer) (sp_published (spsc_producer r));
                   r1 = spsc_store_cachedProducer r cached
               in if available > capacity then (r1, int (unat capacity), Some (Sentinel ErrEmpty), dst)
                  else if available = 0 then (r1, 0, Some (Sentinel ErrEmpty), dst)
                  else (let index = slot (sc_cursor consumer) (sc_mask consumer);
                            es = (if sc_clearOnDequeue consumer then (spsc_entries r)[index := 0] else spsc_entries r)
                        in (spsc_pop r1 es 1, int (unat (available - 1)), None, dst[0 := spsc_entries r ! index])))
         else (let (r1, moved, remaining, out) = SPSC_dequeueBatch r dst True
               in (r1, remaining, if moved \<noteq> int (length dst) then Some (Sentinel ErrEmpty) else None, out)))"

definition SPSC_DequeueBurst :: "('a::zero) SPSCQueue \<Rightarrow> 'a list \<Rightarrow> 'a SPSCQueue \<times> int \<times> int \<times> 'a list" where
  "SPSC_DequeueBurst r dst =
     (let consumer = spsc_consumer r; capacity = sc_mask consumer + 1;
          len = min (length dst) (unat (sc_maxBatch consumer))
      in if len = 1
         then (let (cached, available) = serial_avail1 capacity (sc_exactBatchCounts consumer)
                     (sc_cachedProducer consumer) (sc_cursor consumer) (sp_published (spsc_producer r));
                   r1 = spsc_store_cachedProducer r cached
               in if available > capacity then (r1, 0, int (unat capacity), dst)
                  else if available = 0 then (r1, 0, 0, dst)
                  else (let index = slot (sc_cursor consumer) (sc_mask consumer);
                            es = (if sc_clearOnDequeue consumer then (spsc_entries r)[index := 0] else spsc_entries r)
                        in (spsc_pop r1 es 1, 1, int (unat (available - 1)), dst[0 := spsc_entries r ! index])))
         else (let (r1, moved, remaining, out) = SPSC_dequeueBatch r (take len dst) False
               in (r1, moved, remaining, out @ drop len dst)))"

section \<open>Invariant\<close>

definition SPSC_inv :: "'a SPSCQueue \<Rightarrow> bool" where
  "SPSC_inv r \<longleftrightarrow>
     ring_inv (spsc_entries r) (sp_mask (spsc_producer r)) (sp_cursor (spsc_producer r))
       (sp_cachedConsumer (spsc_producer r)) (sc_cursor (spsc_consumer r)) (sc_cachedProducer (spsc_consumer r))
     \<and> sc_mask (spsc_consumer r) = sp_mask (spsc_producer r)
     \<and> sp_published (spsc_producer r) = sp_cursor (spsc_producer r)
     \<and> sc_published (spsc_consumer r) = sc_cursor (spsc_consumer r)
     \<and> sc_exactBatchCounts (spsc_consumer r) = sp_exactBatchCounts (spsc_producer r)
     \<and> unat (sp_maxBatch (spsc_producer r)) \<le> length (spsc_entries r)
     \<and> unat (sc_maxBatch (spsc_consumer r)) \<le> length (spsc_entries r)"

definition SPSC_conf :: "'a SPSCQueue \<Rightarrow> qconf" where
  "SPSC_conf r = \<lparr>qc_cap = length (spsc_entries r), qc_maxE = unat (sp_maxBatch (spsc_producer r)),
     qc_maxD = unat (sc_maxBatch (spsc_consumer r)), qc_exact = sp_exactBatchCounts (spsc_producer r)\<rparr>"

definition SPSC_contents :: "'a SPSCQueue \<Rightarrow> 'a list" where
  "SPSC_contents r = ring_contents (spsc_entries r) (sp_cursor (spsc_producer r)) (sc_cursor (spsc_consumer r))"

lemmas spsc_defs = SPSC_inv_def SPSC_conf_def SPSC_contents_def spsc_store_cachedConsumer_def
  spsc_store_cachedProducer_def spsc_push_def spsc_pop_def

lemma SPSC_ring: "SPSC_inv r \<Longrightarrow>
    ring_inv (spsc_entries r) (sp_mask (spsc_producer r)) (sp_cursor (spsc_producer r))
       (sp_cachedConsumer (spsc_producer r)) (sc_cursor (spsc_consumer r)) (sc_cachedProducer (spsc_consumer r))"
  by (simp add: SPSC_inv_def)

lemma SPSC_bounded: "SPSC_inv r \<Longrightarrow> length (SPSC_contents r) \<le> qc_cap (SPSC_conf r)"
  using ring_count_le [OF SPSC_ring] by (simp add: spsc_defs)

section \<open>The batch operations\<close>

lemma SPSC_enqueueBatch_ok:
  fixes fixed :: bool
  assumes "SPSC_inv r" "length items \<le> qc_cap (SPSC_conf r)"
  defines "N \<equiv> qc_cap (SPSC_conf r) - length (SPSC_contents r)"
  defines "m \<equiv> admitted fixed (length items) N"
  shows "\<exists>r' rem. SPSC_enqueueBatch r items fixed = (r', int m, rem) \<and> SPSC_inv r' \<and> SPSC_conf r' = SPSC_conf r
    \<and> SPSC_contents r' = SPSC_contents r @ take m items
    \<and> reports (qc_exact (SPSC_conf r) \<or> items = [] \<or> m < length items) rem (N - m)"
proof -
  let ?p = "spsc_producer r" and ?c = "spsc_consumer r"
  have len: "length items \<le> length (spsc_entries r)" using assms(2) by (simp add: SPSC_conf_def)
  have N: "N = length (spsc_entries r) - unat (sp_cursor ?p - sc_cursor ?c)"
    by (simp add: N_def SPSC_conf_def SPSC_contents_def)
  have pub: "sc_published ?c = sc_cursor ?c" using assms(1) by (simp add: SPSC_inv_def)
  show ?thesis
  proof (rule put_admits [OF SPSC_ring [OF assms(1)] len, of "sp_exactBatchCounts ?p"], goal_cases)
    case (1 cc' free n)
    note a = 1 [folded N]
    have m: "m = (if fixed \<and> N < length items then 0 else unat n)" using a(5) by (simp add: m_def admitted_def)
    show ?case
    proof (cases "fixed \<and> N < length items \<or> n = 0")
      case True
      then have "m = 0" using m by auto
      with True a show ?thesis
        using assms(1) by (auto simp: SPSC_enqueueBatch_def Let_def pub reports_def spsc_defs)
    next
      case False
      with m have "m = unat n" "\<not> (fixed \<and> free < of_nat (length items))" using a(4) by auto
      with False a show ?thesis
        using assms(1) by (auto simp: SPSC_enqueueBatch_def Let_def pub reports_def spsc_defs)
    qed
  qed
qed

lemma SPSC_dequeueBatch_ok:
  fixes fixed :: bool and r :: "('a::zero) SPSCQueue"
  assumes "SPSC_inv r" "length dst \<le> qc_cap (SPSC_conf r)"
  defines "D \<equiv> length (SPSC_contents r)"
  defines "m \<equiv> admitted fixed (length dst) D"
  shows "\<exists>r' rem. SPSC_dequeueBatch r dst fixed = (r', int m, rem, take m (SPSC_contents r) @ drop m dst)
    \<and> SPSC_inv r' \<and> SPSC_conf r' = SPSC_conf r \<and> SPSC_contents r' = drop m (SPSC_contents r)
    \<and> reports (qc_exact (SPSC_conf r) \<or> dst = [] \<or> m < length dst) rem (D - m)"
proof -
  let ?p = "spsc_producer r" and ?c = "spsc_consumer r"
  have len: "length dst \<le> length (spsc_entries r)" using assms(2) by (simp add: SPSC_conf_def)
  have D: "D = unat (sp_cursor ?p - sc_cursor ?c)" by (simp add: D_def SPSC_contents_def)
  have pub: "sp_published ?p = sp_cursor ?p" "sc_mask ?c = sp_mask ?p"
    "sc_exactBatchCounts ?c = sp_exactBatchCounts ?p"
    using assms(1) by (simp_all add: SPSC_inv_def)
  show ?thesis
  proof (rule get_admits [OF SPSC_ring [OF assms(1)] len, of "sp_exactBatchCounts ?p"], goal_cases)
    case (1 cp' avail n)
    note a = 1 [folded D]
    have m: "m = (if fixed \<and> D < length dst then 0 else unat n)" using a(5) by (simp add: m_def admitted_def)
    show ?case
    proof (cases "fixed \<and> D < length dst \<or> n = 0")
      case True
      then have "m = 0" using m by auto
      with True a show ?thesis
        using assms(1) by (auto simp: SPSC_dequeueBatch_def Let_def pub reports_def spsc_defs)
    next
      case False
      with m have "m = unat n" "\<not> (fixed \<and> avail < of_nat (length dst))" using a(4) by auto
      with False a show ?thesis
        using assms(1) by (auto simp: SPSC_dequeueBatch_def Let_def pub reports_def spsc_defs)
    qed
  qed
qed

section \<open>The single-element fast paths\<close>

text \<open>A batch call of length one takes a shorter path; it does what the batch routine does.\<close>

lemma SPSC_enqueue_one:
  assumes "SPSC_inv r"
  shows "SPSC_enqueueBatch r [x] fixed =
    (let (cached, free) = serial_free1 (sp_mask (spsc_producer r) + 1) (sp_exactBatchCounts (spsc_producer r))
           (sp_cachedConsumer (spsc_producer r)) (sp_cursor (spsc_producer r)) (sc_published (spsc_consumer r));
         r1 = spsc_store_cachedConsumer r cached
     in if free > sp_mask (spsc_producer r) + 1 then (r1, 0, int (unat (sp_mask (spsc_producer r) + 1)))
        else if free = 0 then (r1, 0, 0)
        else (spsc_push r1 ((spsc_entries r)[slot (sp_cursor (spsc_producer r)) (sp_mask (spsc_producer r)) := x]) 1,
              1, int (unat (free - 1))))"
  using copy_in_one [OF ring_geom [OF SPSC_ring [OF assms]]]
  by (auto simp: SPSC_enqueueBatch_def serial_free1_eq Let_def min_one word_less_nat_alt unat_eq_zero
      split: prod.splits)

lemma SPSC_dequeue_one:
  assumes "SPSC_inv r"
  shows "SPSC_dequeueBatch r [x] fixed =
    (let consumer = spsc_consumer r;
         (cached, available) = serial_avail1 (sc_mask consumer + 1) (sc_exactBatchCounts consumer)
           (sc_cachedProducer consumer) (sc_cursor consumer) (sp_published (spsc_producer r));
         r1 = spsc_store_cachedProducer r cached
     in if available > sc_mask consumer + 1 then (r1, 0, int (unat (sc_mask consumer + 1)), [x])
        else if available = 0 then (r1, 0, 0, [x])
        else (let index = slot (sc_cursor consumer) (sc_mask consumer);
                  es = (if sc_clearOnDequeue consumer then (spsc_entries r)[index := 0] else spsc_entries r)
              in (spsc_pop r1 es 1, 1, int (unat (available - 1)), [spsc_entries r ! index])))"
proof -
  have g: "geom (spsc_entries r) (sc_mask (spsc_consumer r))"
    using ring_geom [OF SPSC_ring [OF assms]] assms by (simp add: SPSC_inv_def)
  have "unat (1 :: u32) \<le> length (spsc_entries r)" using geom_pos [OF g] by (simp add: Suc_le_eq)
  then have "copy_out (spsc_entries r) (sc_mask (spsc_consumer r)) c 1
      = [spsc_entries r ! slot c (sc_mask (spsc_consumer r))]" for c
    using copy_out_window [OF g, of 1 c] by (simp add: window_def geom_slot [OF g])
  then show ?thesis
    using clear_one [OF g]
    by (auto simp: SPSC_dequeueBatch_def serial_avail1_eq Let_def min_one word_less_nat_alt unat_eq_zero
        split: prod.splits)
qed

interpretation spsc_batches: fifo_batches SPSC_inv SPSC_conf SPSC_contents
  "\<lambda>r items fixed. Some (SPSC_enqueueBatch r items fixed)" "\<lambda>r dst fixed. Some (SPSC_dequeueBatch r dst fixed)"
proof unfold_locales
  fix r :: "'a SPSCQueue" assume "SPSC_inv r"
  then show "length (SPSC_contents r) \<le> qc_cap (SPSC_conf r)" by (rule SPSC_bounded)
next
  fix r :: "'a SPSCQueue" assume "SPSC_inv r"
  then show "conf_ok (SPSC_conf r)" by (simp add: SPSC_inv_def SPSC_conf_def conf_ok_def)
qed (use SPSC_enqueueBatch_ok SPSC_dequeueBatch_ok in auto)

section \<open>The exported methods\<close>

lemma SPSC_Enqueue_ok:
  assumes "SPSC_inv r"
  shows "\<exists>r' e. SPSC_Enqueue r x = (r', e) \<and> SPSC_inv r' \<and> SPSC_conf r' = SPSC_conf r
    \<and> SPSC_contents r' = fifo_next (SPSC_conf r) (SPSC_contents r) (Enqueue_op x)
    \<and> fifo_result (SPSC_conf r) (SPSC_contents r) (Enqueue_op x) (Enqueued e)"
proof -
  let ?p = "spsc_producer r" and ?c = "spsc_consumer r"
  note g = ring_geom [OF SPSC_ring [OF assms]]
  have len: "length [x] \<le> length (spsc_entries r)" using geom_pos [OF g] by (simp add: Suc_le_eq)
  have pub: "sc_published ?c = sc_cursor ?c" using assms by (simp add: SPSC_inv_def)
  show ?thesis
  proof (rule put_admits [OF SPSC_ring [OF assms] len, of False], goal_cases)
    case (1 cc' free n)
    have f: "free = 0 \<longleftrightarrow> length (spsc_entries r) \<le> unat (sp_cursor ?p - sc_cursor ?c)"
      using 1(4) by (auto simp: word_less_nat_alt unat_eq_zero)
    moreover have "n = (if free = 0 then 0 else 1)" using 1(3) by (simp add: min_one)
    ultimately show ?case
      using 1 assms copy_in_one [OF g, of "sp_cursor ?p" x]
      by (auto simp: SPSC_Enqueue_def serial_free1_eq Let_def pub fifo_result_def spsc_defs)
  qed
qed

lemma SPSC_Dequeue_ok:
  fixes r :: "('a::zero) SPSCQueue"
  assumes "SPSC_inv r"
  shows "\<exists>r' v e. SPSC_Dequeue r = (r', v, e) \<and> SPSC_inv r' \<and> SPSC_conf r' = SPSC_conf r
    \<and> SPSC_contents r' = fifo_next (SPSC_conf r) (SPSC_contents r) Dequeue_op
    \<and> fifo_result (SPSC_conf r) (SPSC_contents r) Dequeue_op (Dequeued v e)"
proof -
  let ?p = "spsc_producer r" and ?c = "spsc_consumer r"
  note g = ring_geom [OF SPSC_ring [OF assms]]
  have len: "length [0 :: 'a] \<le> length (spsc_entries r)" using geom_pos [OF g] by (simp add: Suc_le_eq)
  have pub: "sp_published ?p = sp_cursor ?p" "sc_mask ?c = sp_mask ?p" using assms by (simp_all add: SPSC_inv_def)
  show ?thesis
  proof (rule get_admits [OF SPSC_ring [OF assms] len, of False], goal_cases)
    case (1 cp' avail n)
    have f: "avail = 0 \<longleftrightarrow> unat (sp_cursor ?p - sc_cursor ?c) = 0"
      using 1(4) by (auto simp: word_less_nat_alt unat_eq_zero)
    have e: "SPSC_contents r = [] \<longleftrightarrow> avail = 0"
      using f by (simp add: SPSC_contents_def flip: length_0_conv)
    have n: "n = (if avail = 0 then 0 else 1)" using 1(3) by (simp add: min_one)
    have v: "avail \<noteq> 0 \<Longrightarrow> spsc_entries r ! slot (sc_cursor ?c) (sp_mask ?p) = hd (SPSC_contents r)"
      unfolding SPSC_contents_def by (rule first_element [OF g]) (use f in simp)
    show ?case
      using 1 assms n e v clear_one [OF g, of "sc_cursor ?c"]
      by (cases "avail = 0")
        (auto simp: SPSC_Dequeue_def serial_avail1_eq Let_def pub fifo_result_def spsc_defs drop_Suc)
  qed
qed

lemma SPSC_cap: "SPSC_inv r \<Longrightarrow> unat (sp_mask (spsc_producer r) + 1) = qc_cap (SPSC_conf r)"
  using geom_cap [OF ring_geom [OF SPSC_ring]] by (simp add: SPSC_conf_def)

lemma SPSC_fresh:
  assumes "SPSC_inv r"
  shows "unat (min (sp_mask (spsc_producer r) + 1 + sc_published (spsc_consumer r) - sp_cursor (spsc_producer r))
      (sp_mask (spsc_producer r) + 1)) = qc_cap (SPSC_conf r) - length (SPSC_contents r)"
    and "unat (min (sp_published (spsc_producer r) - sc_cursor (spsc_consumer r)) (sc_mask (spsc_consumer r) + 1))
      = length (SPSC_contents r)"
  using cap_minus [OF ring_geom ring_count_le, OF SPSC_ring SPSC_ring, OF assms assms] SPSC_cap [OF assms]
    ring_count_le [OF SPSC_ring [OF assms]] assms
  by (auto simp: SPSC_inv_def SPSC_conf_def SPSC_contents_def min_def word_le_nat_alt)

lemma SPSC_EnqueueBulk_ok:
  assumes "SPSC_inv r"
  shows "\<exists>r' free e. SPSC_EnqueueBulk r items = (r', free, e) \<and> SPSC_inv r' \<and> SPSC_conf r' = SPSC_conf r
    \<and> SPSC_contents r' = fifo_next (SPSC_conf r) (SPSC_contents r) (EnqueueBulk_op items)
    \<and> fifo_result (SPSC_conf r) (SPSC_contents r) (EnqueueBulk_op items) (BulkIn free e)"
proof (cases "length items > unat (sp_maxBatch (spsc_producer r))")
  case True
  then have "SPSC_EnqueueBulk r items = (r, int (qc_cap (SPSC_conf r) - length (SPSC_contents r)),
      Some (length_error (SPSC_conf r) (length items)))"
    using SPSC_fresh(1) [OF assms] SPSC_cap [OF assms]
    by (simp add: SPSC_EnqueueBulk_def Let_def BatchLengthError_def length_error_def)
  moreover have "qc_maxE (SPSC_conf r) < length items" using True by (simp add: SPSC_conf_def)
  ultimately show ?thesis using assms by (simp add: fifo_result_def reports_def)
next
  case False
  have "SPSC_EnqueueBulk r items = (let (r1, moved, remaining) = SPSC_enqueueBatch r items True
      in (r1, remaining, if moved \<noteq> int (length items) then Some (Sentinel ErrFull) else None))"
  proof (cases "length items = 1")
    case True
    then obtain x where "items = [x]" by (auto simp: length_Suc_conv)
    with True False show ?thesis
      by (auto simp: SPSC_EnqueueBulk_def SPSC_enqueue_one [OF assms] Let_def split: prod.splits)
  qed (use False in \<open>simp add: SPSC_EnqueueBulk_def Let_def\<close>)
  moreover have "length items \<le> qc_maxE (SPSC_conf r)" using False by (simp add: SPSC_conf_def)
  note spsc_batches.bulk_in [OF assms this]
  ultimately show ?thesis by auto
qed

lemma SPSC_EnqueueBurst_ok:
  assumes "SPSC_inv r"
  shows "\<exists>r' n free. SPSC_EnqueueBurst r items = (r', n, free) \<and> SPSC_inv r' \<and> SPSC_conf r' = SPSC_conf r
    \<and> SPSC_contents r' = fifo_next (SPSC_conf r) (SPSC_contents r) (EnqueueBurst_op items)
    \<and> fifo_result (SPSC_conf r) (SPSC_contents r) (EnqueueBurst_op items) (BurstIn n free)"
proof -
  let ?len = "min (length items) (qc_maxE (SPSC_conf r))"
  have c: "unat (sp_maxBatch (spsc_producer r)) = qc_maxE (SPSC_conf r)" by (simp add: SPSC_conf_def)
  have "SPSC_EnqueueBurst r items = SPSC_enqueueBatch r (take ?len items) False"
  proof (cases "?len = 1")
    case True
    then have "take ?len items = [items ! 0]" by (cases items) auto
    with True show ?thesis
      by (simp add: SPSC_EnqueueBurst_def SPSC_enqueue_one [OF assms] Let_def c)
  qed (simp add: SPSC_EnqueueBurst_def Let_def c)
  with spsc_batches.burst_in [OF assms] show ?thesis by simp
qed

lemma SPSC_DequeueBulk_ok:
  fixes r :: "('a::zero) SPSCQueue"
  assumes "SPSC_inv r"
  shows "\<exists>r' avail e out. SPSC_DequeueBulk r dst = (r', avail, e, out) \<and> SPSC_inv r' \<and> SPSC_conf r' = SPSC_conf r
    \<and> SPSC_contents r' = fifo_next (SPSC_conf r) (SPSC_contents r) (DequeueBulk_op dst)
    \<and> fifo_result (SPSC_conf r) (SPSC_contents r) (DequeueBulk_op dst) (BulkOut avail e out)"
proof (cases "length dst > unat (sc_maxBatch (spsc_consumer r))")
  case True
  then have "SPSC_DequeueBulk r dst = (r, int (length (SPSC_contents r)),
      Some (length_error (SPSC_conf r) (length dst)), dst)"
    using SPSC_fresh(2) [OF assms] SPSC_cap [OF assms] assms
    by (simp add: SPSC_DequeueBulk_def Let_def BatchLengthError_def length_error_def SPSC_inv_def)
  moreover have "qc_maxD (SPSC_conf r) < length dst" using True by (simp add: SPSC_conf_def)
  ultimately show ?thesis using assms by (simp add: fifo_result_def reports_def)
next
  case False
  have "SPSC_DequeueBulk r dst = (let (r1, moved, remaining, out) = SPSC_dequeueBatch r dst True
      in (r1, remaining, if moved \<noteq> int (length dst) then Some (Sentinel ErrEmpty) else None, out))"
  proof (cases "length dst = 1")
    case True
    then obtain x where "dst = [x]" by (auto simp: length_Suc_conv)
    with True False show ?thesis
      by (auto simp: SPSC_DequeueBulk_def SPSC_dequeue_one [OF assms] Let_def split: prod.splits)
  qed (use False in \<open>simp add: SPSC_DequeueBulk_def Let_def\<close>)
  moreover have "length dst \<le> qc_maxD (SPSC_conf r)" using False by (simp add: SPSC_conf_def)
  note spsc_batches.bulk_out [OF assms this]
  ultimately show ?thesis by auto
qed

lemma SPSC_DequeueBurst_ok:
  fixes r :: "('a::zero) SPSCQueue"
  assumes "SPSC_inv r"
  shows "\<exists>r' n avail out. SPSC_DequeueBurst r dst = (r', n, avail, out) \<and> SPSC_inv r' \<and> SPSC_conf r' = SPSC_conf r
    \<and> SPSC_contents r' = fifo_next (SPSC_conf r) (SPSC_contents r) (DequeueBurst_op dst)
    \<and> fifo_result (SPSC_conf r) (SPSC_contents r) (DequeueBurst_op dst) (BurstOut n avail out)"
proof -
  let ?len = "min (length dst) (qc_maxD (SPSC_conf r))"
  have c: "unat (sc_maxBatch (spsc_consumer r)) = qc_maxD (SPSC_conf r)" by (simp add: SPSC_conf_def)
  have "SPSC_DequeueBurst r dst = (let (r1, moved, remaining, out) = SPSC_dequeueBatch r (take ?len dst) False
      in (r1, moved, remaining, out @ drop ?len dst))"
  proof (cases "?len = 1")
    case True
    then obtain x xs where "dst = x # xs" "take ?len dst = [x]" by (cases dst) auto
    with True show ?thesis
      by (auto simp: SPSC_DequeueBurst_def SPSC_dequeue_one [OF assms] Let_def c split: prod.splits)
  qed (simp add: SPSC_DequeueBurst_def Let_def c)
  with spsc_batches.burst_out [OF assms, of dst] show ?thesis by auto
qed

section \<open>The queue is a bounded FIFO\<close>

fun SPSC_step :: "('a::zero) SPSCQueue \<Rightarrow> 'a qop \<Rightarrow> ('a SPSCQueue \<times> 'a qres) option" where
  "SPSC_step r (Enqueue_op x) = (case SPSC_Enqueue r x of (r', e) \<Rightarrow> Some (r', Enqueued e))"
| "SPSC_step r Dequeue_op = (case SPSC_Dequeue r of (r', v, e) \<Rightarrow> Some (r', Dequeued v e))"
| "SPSC_step r (EnqueueBulk_op xs) = (case SPSC_EnqueueBulk r xs of (r', free, e) \<Rightarrow> Some (r', BulkIn free e))"
| "SPSC_step r (EnqueueBurst_op xs) = (case SPSC_EnqueueBurst r xs of (r', n, free) \<Rightarrow> Some (r', BurstIn n free))"
| "SPSC_step r (DequeueBulk_op dst) =
     (case SPSC_DequeueBulk r dst of (r', avail, e, out) \<Rightarrow> Some (r', BulkOut avail e out))"
| "SPSC_step r (DequeueBurst_op dst) =
     (case SPSC_DequeueBurst r dst of (r', n, avail, out) \<Rightarrow> Some (r', BurstOut n avail out))"
| "SPSC_step r Count_op = Some (r, Counted (SPSC_Count r))"
| "SPSC_step r Reset_op = Some (SPSC_Reset r, ResetDone)"

lemma SPSC_Count_ok: "SPSC_inv r \<Longrightarrow> SPSC_Count r = int (length (SPSC_contents r))"
  using SPSC_fresh(2) [of r] by (simp add: SPSC_Count_def Let_def SPSC_inv_def)

lemma SPSC_Reset_ok:
  assumes "SPSC_inv r"
  shows "SPSC_inv (SPSC_Reset r) \<and> SPSC_conf (SPSC_Reset r) = SPSC_conf r \<and> SPSC_contents (SPSC_Reset r) = []"
  using assms ring_new [OF geom_length [OF ring_geom [OF SPSC_ring [OF assms]]],
    of "replicate (length (spsc_entries r)) 0" 0]
  by (simp add: SPSC_Reset_def spsc_defs ring_contents_def)

interpretation spsc: fifo_queue SPSC_inv SPSC_conf SPSC_contents SPSC_step
proof unfold_locales
  fix r :: "'a SPSCQueue" and opn
  assume r: "SPSC_inv r"
  show "\<exists>r' res. SPSC_step r opn = Some (r', res) \<and> SPSC_inv r' \<and> SPSC_conf r' = SPSC_conf r
      \<and> SPSC_contents r' = fifo_next (SPSC_conf r) (SPSC_contents r) opn
      \<and> fifo_result (SPSC_conf r) (SPSC_contents r) opn res"
  proof (cases opn)
    case (Enqueue_op x)
    then show ?thesis using SPSC_Enqueue_ok [OF r, of x] by auto
  next
    case Dequeue_op
    then show ?thesis using SPSC_Dequeue_ok [OF r] by auto
  next
    case (EnqueueBulk_op xs)
    then show ?thesis using SPSC_EnqueueBulk_ok [OF r, of xs] by auto
  next
    case (EnqueueBurst_op xs)
    then show ?thesis using SPSC_EnqueueBurst_ok [OF r, of xs] by auto
  next
    case (DequeueBulk_op dst)
    then show ?thesis using SPSC_DequeueBulk_ok [OF r, of dst] by auto
  next
    case (DequeueBurst_op dst)
    then show ?thesis using SPSC_DequeueBurst_ok [OF r, of dst] by auto
  next
    case Count_op
    then show ?thesis using r by (simp add: SPSC_Count_ok fifo_result_def)
  next
    case Reset_op
    then show ?thesis using SPSC_Reset_ok [OF r] by (simp add: fifo_result_def)
  qed
qed (rule SPSC_bounded)

lemma NewSPSCQueue_ok:
  fixes r :: "('a::zero) SPSCQueue"
  assumes "NewSPSCQueue count options = Inr r"
  shows "SPSC_inv r \<and> SPSC_contents r = [] \<and> int (qc_cap (SPSC_conf r)) = count"
proof -
  obtain cfg where cfg: "resolveConfig count modeSingle modeSingle True options = Inr cfg"
    using assms by (auto simp: NewSPSCQueue_def split: sum.splits)
  then obtain k where k: "k \<le> 30" "count = 2 ^ k" and ok: "config_ok count modeSingle modeSingle cfg"
    by (auto simp: resolveConfig_Inr)
  have b: "unat (of_int (maxEnqueueBatch cfg) :: u32) \<le> 2 ^ k" "unat (of_int (maxDequeueBatch cfg) :: u32) \<le> 2 ^ k"
    using ok k unat_of_batch [of "maxEnqueueBatch cfg" k] unat_of_batch [of "maxDequeueBatch cfg" k]
    by (simp_all add: config_ok_def nat_le_iff)
  show ?thesis
    using assms cfg b ring_new [OF geom_new [OF k(1), of "0 :: 'a"], of 0]
    by (auto simp: NewSPSCQueue_def spsc_defs ring_contents_def k(2) nat_power_eq)
qed

section \<open>Properties\<close>

text \<open>
  C1. A new single-producer single-consumer queue behaves as a bounded FIFO under every sequence of
  calls: every call returns, its errors, moved elements and counts are those the FIFO allows, no
  element is lost, duplicated or reordered, and the count queries are exact between calls.
\<close>

theorem SPSC_is_bounded_fifo:
  fixes r :: "('a::zero) SPSCQueue"
  assumes "NewSPSCQueue count options = Inr r"
  shows "\<exists>r' rs. queue_run SPSC_step r ops = Some (r', rs)
    \<and> results_allowed (SPSC_conf r) [] ops rs
    \<and> SPSC_contents r' = fold (\<lambda>opn xs. fifo_next (SPSC_conf r) xs opn) ops []
    \<and> (Reset_op \<notin> set ops \<longrightarrow> all_enqueued ops rs = all_dequeued rs @ SPSC_contents r')
    \<and> SPSC_Count r' = int (length (SPSC_contents r')) \<and> SPSC_Capacity r' = count
    \<and> (SPSC_Full r' \<longleftrightarrow> SPSC_Free r' = 0) \<and> (SPSC_Empty r' \<longleftrightarrow> SPSC_contents r' = [])"
proof -
  have new: "SPSC_inv r" "SPSC_contents r = []" "int (qc_cap (SPSC_conf r)) = count"
    using NewSPSCQueue_ok [OF assms] by simp_all
  obtain r' rs where run: "queue_run SPSC_step r ops = Some (r', rs)" "SPSC_inv r'" "SPSC_conf r' = SPSC_conf r"
    "SPSC_contents r' = fold (\<lambda>opn xs. fifo_next (SPSC_conf r) xs opn) ops []"
    "results_allowed (SPSC_conf r) [] ops rs"
    using spsc.run_total [OF new(1), of ops] new(2) by auto
  moreover have "SPSC_Capacity r' = count"
    using SPSC_cap [OF run(2)] run(3) new(3) by (simp add: SPSC_Capacity_def)
  moreover have "Reset_op \<notin> set ops \<longrightarrow> all_enqueued ops rs = all_dequeued rs @ SPSC_contents r'"
    using spsc.run_stream [OF new(1) _ run(1)] new(2) by simp
  ultimately show ?thesis
    using SPSC_Count_ok [OF run(2)] by (auto simp: SPSC_Full_def SPSC_Free_def SPSC_Empty_def)
qed

theorem SPSC_is_bounded_fifo_witness:
  "\<exists>(r :: int SPSCQueue) r' rs. NewSPSCQueue 4 [] = Inr r
     \<and> queue_run SPSC_step r [EnqueueBulk_op [1, 2, 3], Dequeue_op, EnqueueBurst_op [4, 5, 6], Dequeue_op]
       = Some (r', rs) \<and> SPSC_contents r' = [3, 4, 5] \<and> SPSC_Capacity r' = 4"
proof -
  obtain r :: "int SPSCQueue" where r: "NewSPSCQueue 4 [] = Inr r" "qc_cap (SPSC_conf r) = 4"
    "qc_maxE (SPSC_conf r) = 4"
    using resolveConfig_default [of 2 modeSingle modeSingle]
    by (simp add: NewSPSCQueue_def SPSC_conf_def defaultConfig_def)
  from SPSC_is_bounded_fifo [OF r(1),
      of "[EnqueueBulk_op [1, 2, 3], Dequeue_op, EnqueueBurst_op [4, 5, 6], Dequeue_op]"]
  show ?thesis using r by (auto simp: burst_in_def simp del: queue_run.simps)
qed

end
