(* ===== verification/DpdkRing.thy ===== *)
theory DpdkRing
  imports RingPositions
begin

text \<open>
  The waiting loops and the relaxed tail words of \<^verbatim>\<open>ring/dpdk/ring.go\<close>. A relaxed index packs a
  position and an operation counter into 64 bits. The loops read words other goroutines write, so
  they take what their atomic operations observe as an argument: the \<open>i\<close>-th load, or for a
  compare-and-swap loop the loads of attempt \<open>i\<close> and the value the swap finds. A loop that never
  ends is \<open>None\<close>. A run without interference is the constant observation.
\<close>

section \<open>Definitions\<close>

definition pack :: "u32 \<Rightarrow> u32 \<Rightarrow> u64" where
  "pack pos cnt = push_bit 32 (ucast pos) OR ucast cnt"

definition unpackPos :: "u64 \<Rightarrow> u32" where
  "unpackPos w = ucast (drop_bit 32 w)"

definition unpackCnt :: "u64 \<Rightarrow> u32" where
  "unpackCnt w = ucast w"

text \<open>The result of \<^verbatim>\<open>spinForTail\<close> and the number of loads done by then.\<close>

primrec spinForTail :: "(nat \<Rightarrow> u32) \<Rightarrow> u32 \<Rightarrow> nat \<Rightarrow> nat \<Rightarrow> bool \<times> nat" where
  "spinForTail tail want 0 i = (False, i)"
| "spinForTail tail want (Suc spins) i =
     (if tail i = want then (True, Suc i) else spinForTail tail want spins (Suc i))"

partial_function (option) yieldForTail :: "(nat \<Rightarrow> u32) \<Rightarrow> u32 \<Rightarrow> nat \<Rightarrow> nat option" where
  "yieldForTail tail want i = (if tail i = want then Some (Suc i) else yieldForTail tail want (Suc i))"

definition waitForTail :: "(nat \<Rightarrow> u32) \<Rightarrow> u32 \<Rightarrow> int \<Rightarrow> nat option" where
  "waitForTail tail want spins =
     (case spinForTail tail want (nat spins) 0 of
        (True, i) \<Rightarrow> Some i
      | (False, i) \<Rightarrow> yieldForTail tail want i)"

definition headWithinDistance :: "u64 \<Rightarrow> u64 \<Rightarrow> u32 \<Rightarrow> u64 \<times> bool" where
  "headWithinDistance head tail htdMax =
     (let tailPos = unpackPos tail; w = head in (w, unpackPos w - tailPos \<le> htdMax))"

text \<open>Check \<open>i\<close> loads \<open>tail i\<close> and then \<open>head i\<close>.\<close>

primrec spinForDistance :: "(nat \<Rightarrow> u64) \<Rightarrow> (nat \<Rightarrow> u64) \<Rightarrow> u32 \<Rightarrow> nat \<Rightarrow> nat \<Rightarrow> u64 option \<times> nat" where
  "spinForDistance head tail htdMax 0 i = (None, i)"
| "spinForDistance head tail htdMax (Suc spins) i =
     (case headWithinDistance (head i) (tail i) htdMax of
        (w, ok) \<Rightarrow> if ok then (Some w, i) else spinForDistance head tail htdMax spins (Suc i))"

partial_function (option) yieldForDistance :: "(nat \<Rightarrow> u64) \<Rightarrow> (nat \<Rightarrow> u64) \<Rightarrow> u32 \<Rightarrow> nat \<Rightarrow> u64 option" where
  "yieldForDistance head tail htdMax i =
     (case headWithinDistance (head i) (tail i) htdMax of
        (w, ok) \<Rightarrow> if ok then Some w else yieldForDistance head tail htdMax (Suc i))"

definition waitHeadTailDistance :: "(nat \<Rightarrow> u64) \<Rightarrow> (nat \<Rightarrow> u64) \<Rightarrow> u32 \<Rightarrow> int \<Rightarrow> u64 option" where
  "waitHeadTailDistance head tail htdMax spins =
     (case spinForDistance head tail htdMax (nat spins) 0 of
        (Some w, i) \<Rightarrow> Some w
      | (None, i) \<Rightarrow> yieldForDistance head tail htdMax i)"

definition nextTail :: "u64 \<Rightarrow> u64 \<Rightarrow> u64" where
  "nextTail tail head =
     (let cnt = unpackCnt tail + 1;
          pos = unpackPos tail
      in pack (if cnt = unpackCnt head then unpackPos head else pos) cnt)"

text \<open>
  Attempt \<open>i\<close> loads the tail and then the head, and its swap finds the third value. The result is
  the tail word stored and whether the tail's position moved.
\<close>

partial_function (option) publishRelaxed :: "(nat \<Rightarrow> u64 \<times> u64 \<times> u64) \<Rightarrow> nat \<Rightarrow> (u64 \<times> bool) option" where
  "publishRelaxed obs i =
     (case obs i of
        (old, head, found) \<Rightarrow>
          (let nxt = nextTail old head
           in if found = old then Some (nxt, unpackPos nxt \<noteq> unpackPos old)
              else publishRelaxed obs (Suc i)))"

text \<open>
  Attempt \<open>i\<close> loads the mirror and then the relaxed tail, and its swap finds the third value. The
  result is the position stored, \<open>None\<close> inside when the mirror needs no raise.
\<close>

partial_function (option) raiseMirror :: "(nat \<Rightarrow> u32 \<times> u64 \<times> u32) \<Rightarrow> nat \<Rightarrow> u32 option option" where
  "raiseMirror obs i =
     (case obs i of
        (mirrorPos, tail, found) \<Rightarrow>
          (let tailPos = unpackPos tail
           in if sint (tailPos - mirrorPos) \<le> 0 then Some None
              else if found = mirrorPos then Some (Some tailPos)
              else raiseMirror obs (Suc i)))"

section \<open>Packed words\<close>

lemma unpack_pack [simp]: "unpackPos (pack pos cnt) = pos" "unpackCnt (pack pos cnt) = cnt"
  by (rule bit_word_eqI;
      auto simp: pack_def unpackPos_def unpackCnt_def bit_or_iff bit_push_bit_iff bit_ucast_iff bit_drop_bit_eq
        dest: bit_imp_le_length)+

lemma pack_unpack [simp]: "pack (unpackPos w) (unpackCnt w) = w"
  by (rule bit_word_eqI)
    (auto simp: pack_def unpackPos_def unpackCnt_def bit_or_iff bit_push_bit_iff bit_ucast_iff bit_drop_bit_eq
      dest: bit_imp_le_length)

lemma ucast_up_down [simp]: "ucast (ucast (x :: u32) :: u64) = x"
  by (rule bit_word_eqI) (auto simp: bit_ucast_iff dest: bit_imp_le_length)

lemma unpack_0 [simp]: "unpackPos 0 = 0" "unpackCnt 0 = 0"
  by (simp_all add: unpackPos_def unpackCnt_def)

lemma pack_eq_iff: "pack p c = pack p' c' \<longleftrightarrow> p = p' \<and> c = c'"
  using unpack_pack by metis

section \<open>The waits\<close>

lemma yieldForTail_first:
  "tail (i + d) = want \<Longrightarrow> (\<forall>j < d. tail (i + j) \<noteq> want) \<Longrightarrow> yieldForTail tail want i = Some (Suc (i + d))"
proof (induction d arbitrary: i)
  case 0
  then show ?case by (subst yieldForTail.simps) simp
next
  case (Suc d)
  then have "tail i \<noteq> want" by force
  moreover have "yieldForTail tail want (Suc i) = Some (Suc (Suc i + d))"
    using Suc.prems by (intro Suc.IH) auto
  ultimately show ?case by (subst yieldForTail.simps) simp
qed

lemma yieldForTail_sees:
  assumes "yieldForTail tail want i = Some n"
  shows "\<exists>j \<ge> i. tail j = want"
proof (rule yieldForTail.raw_induct [where P = "\<lambda>tail want i n. \<exists>j \<ge> i. tail j = want", OF _ assms])
  fix yield tail and want :: u32 and i n
  assume ih: "\<And>tail want i n. yield tail want i = Some n \<Longrightarrow> \<exists>j \<ge> i. tail j = want"
    and s: "(if tail i = want then Some (Suc i) else yield tail want (Suc i)) = Some n"
  show "\<exists>j \<ge> i. tail j = want"
  proof (cases "tail i = want")
    case False
    with s have "yield tail want (Suc i) = Some n" by simp
    from ih [OF this] obtain j where "Suc i \<le> j" "tail j = want" by blast
    then show ?thesis by (intro exI [of _ j]) simp
  qed auto
qed

lemma spinForTail_first:
  "spinForTail tail want spins i = (True, n) \<longleftrightarrow>
     (\<exists>d < spins. n = Suc (i + d) \<and> tail (i + d) = want \<and> (\<forall>j < d. tail (i + j) \<noteq> want))"
proof (induction spins arbitrary: i)
  case (Suc spins)
  show ?case
  proof (cases "tail i = want")
    case True
    then show ?thesis by (auto intro: exI [of _ 0]) (metis add.right_neutral not_gr0)
  next
    case False
    have "(\<exists>d < spins. n = Suc (Suc i + d) \<and> tail (Suc i + d) = want \<and> (\<forall>j < d. tail (Suc i + j) \<noteq> want))
      \<longleftrightarrow> (\<exists>d < Suc spins. n = Suc (i + d) \<and> tail (i + d) = want \<and> (\<forall>j < d. tail (i + j) \<noteq> want))"
      (is "?L \<longleftrightarrow> ?R")
    proof
      assume ?L
      then obtain d where "d < spins" "n = Suc (Suc i + d)" "tail (Suc i + d) = want"
        "\<forall>j < d. tail (Suc i + j) \<noteq> want" by blast
      with False show ?R by (intro exI [of _ "Suc d"]) (auto simp: less_Suc_eq_0_disj)
    next
      assume ?R
      then obtain d where d: "d < Suc spins" "n = Suc (i + d)" "tail (i + d) = want" "\<forall>j < d. tail (i + j) \<noteq> want"
        by blast
      with False obtain e where "d = Suc e" by (cases d) auto
      with d show ?L by (intro exI [of _ e]) auto
    qed
    with False Suc show ?thesis by simp
  qed
qed simp

lemma spinForTail_miss:
  "spinForTail tail want spins i = (False, n) \<longleftrightarrow> n = i + spins \<and> (\<forall>j < spins. tail (i + j) \<noteq> want)"
  by (induction spins arbitrary: i) (auto simp: less_Suc_eq_0_disj)

text \<open>The wait ends with the first load that sees the wanted position, whatever the spin bound.\<close>

lemma waitForTail_eq:
  "waitForTail tail want spins = (if \<exists>i. tail i = want then Some (Suc (LEAST i. tail i = want)) else None)"
proof (cases "\<exists>i. tail i = want")
  case True
  define l where "l = (LEAST i. tail i = want)"
  have l: "tail l = want" "\<forall>j < l. tail j \<noteq> want"
    using LeastI_ex [OF True] not_less_Least by (auto simp: l_def)
  have "waitForTail tail want spins = Some (Suc l)"
  proof (cases "spinForTail tail want (nat spins) 0")
    case (Pair b n)
    show ?thesis
    proof (cases b)
      case True
      with Pair obtain d where "n = Suc d" "tail d = want" "\<forall>j < d. tail j \<noteq> want"
        using spinForTail_first [of tail want "nat spins" 0 n] by auto
      then have "d = l" using l nat_neq_iff [of d l] by auto
      with Pair True \<open>n = Suc d\<close> show ?thesis by (simp add: waitForTail_def)
    next
      case False
      with Pair have n: "n = nat spins" "\<forall>j < n. tail j \<noteq> want"
        using spinForTail_miss [of tail want "nat spins" 0 n] by auto
      with l(1) have "n \<le> l" using not_le_imp_less [of n l] by blast
      then have "yieldForTail tail want n = Some (Suc l)"
        using yieldForTail_first [of tail n "l - n" want] l by auto
      with Pair False show ?thesis by (simp add: waitForTail_def)
    qed
  qed
  with True show ?thesis by (simp add: l_def)
next
  case False
  then have "yieldForTail tail want n = None" for n
    using yieldForTail_sees [of tail want n] by (cases "yieldForTail tail want n") auto
  moreover have "spinForTail tail want (nat spins) 0 = (False, nat spins)"
    using False spinForTail_miss [of tail want "nat spins" 0] by simp
  ultimately show ?thesis using False by (simp add: waitForTail_def)
qed

lemma waitForTail_now: "waitForTail (\<lambda>_. t) t spins = Some (Suc 0)"
  by (simp add: waitForTail_eq)

lemma waitDistance_now:
  assumes "unpackPos head - unpackPos tail \<le> htdMax"
  shows "waitHeadTailDistance (\<lambda>_. head) (\<lambda>_. tail) htdMax spins = Some head"
  using assms by (cases "nat spins")
    (simp_all add: waitHeadTailDistance_def headWithinDistance_def yieldForDistance.simps)

section \<open>Publishing without interference\<close>

lemma publishRelaxed_now: "publishRelaxed (\<lambda>_. (old, head, old)) 0
    = Some (nextTail old head, unpackPos (nextTail old head) \<noteq> unpackPos old)"
  by (simp add: publishRelaxed.simps Let_def)

lemma raiseMirror_now: "raiseMirror (\<lambda>_. (mirror, tail, mirror)) 0
    = Some (if sint (unpackPos tail - mirror) \<le> 0 then None else Some (unpackPos tail))"
  by (simp add: raiseMirror.simps Let_def)

lemma sint_small: "unat (d :: u32) \<le> 2 ^ 30 \<Longrightarrow> sint d = int (unat d)"
  by (simp add: sint_uint signed_take_bit_int_eq_self uint_nat)

text \<open>The counter reaches the head's exactly when the last unfinished operation finishes.\<close>

lemma nextTail_last: "nextTail (pack p c) (pack p' (c + 1)) = pack p' (c + 1)"
  by (simp add: nextTail_def)

end
