(* ===== verification/DpdkMPSC.thy ===== *)
theory DpdkMPSC
  imports DpdkOptions DpdkRing
begin

text \<open>
  The queue with many producers and one consumer, \<^verbatim>\<open>ring/dpdk/mpsc.go\<close>, with ordered and relaxed
  producers. A method is the whole call run without interference; its loops are partial functions,
  so that a call that would wait forever is \<open>None\<close>.
\<close>

section \<open>Definitions\<close>

record mpscProducerConfig =
  mpc_mask :: u32
  mpc_maxBatch :: u32
  mpc_spinsBeforeYield :: u32
  mpc_htdMax :: u32
  mpc_relaxed :: bool
  mpc_exactBatchCounts :: bool

record mpscProducerReservation =
  mpr_headRTS :: u64
  mpr_head :: u32
  mpr_cachedConsumer :: u32

record mpscProducerPublication =
  mpp_tailRTS :: u64
  mpp_published :: u32

record mpscConsumer =
  mc_mask :: u32
  mc_cursor :: u32
  mc_cachedProducer :: u32
  mc_clearOnDequeue :: bool
  mc_maxBatch :: u32
  mc_exactBatchCounts :: bool

record 'a MPSCQueue =
  mpsc_entries :: "'a list"
  mpsc_producerConfig :: mpscProducerConfig
  mpsc_producerReservation :: mpscProducerReservation
  mpsc_producerPublication :: mpscProducerPublication
  mpsc_consumer :: mpscConsumer
  mpsc_consumerPublished :: u32

definition NewMPSCQueue :: "int \<Rightarrow> Option list \<Rightarrow> ring_error + ('a::zero) MPSCQueue" where
  "NewMPSCQueue count options =
     (case resolveConfig count modeMulti modeSingle True options of
        Inl e \<Rightarrow> Inl e
      | Inr cfg \<Rightarrow> Inr
          \<lparr>mpsc_entries = replicate (nat count) 0,
           mpsc_producerConfig = \<lparr>mpc_mask = of_int (count - 1), mpc_maxBatch = of_int (maxEnqueueBatch cfg),
             mpc_spinsBeforeYield = of_int (spinsBeforeYield cfg),
             mpc_htdMax = resolveHeadTailDistance (prodMode cfg) count (maxProducerHeadTailDistance cfg)
               (producerHeadTailDistanceSet cfg),
             mpc_relaxed = (prodMode cfg = modeRelaxed), mpc_exactBatchCounts = exactBatchCounts cfg\<rparr>,
           mpsc_producerReservation = \<lparr>mpr_headRTS = 0, mpr_head = 0, mpr_cachedConsumer = 0\<rparr>,
           mpsc_producerPublication = \<lparr>mpp_tailRTS = 0, mpp_published = 0\<rparr>,
           mpsc_consumer = \<lparr>mc_mask = of_int (count - 1), mc_cursor = 0, mc_cachedProducer = 0,
             mc_clearOnDequeue = (\<not> keepDequeued cfg), mc_maxBatch = of_int (maxDequeueBatch cfg),
             mc_exactBatchCounts = exactBatchCounts cfg\<rparr>,
           mpsc_consumerPublished = 0\<rparr>)"

definition MPSC_Capacity :: "'a MPSCQueue \<Rightarrow> int" where
  "MPSC_Capacity r = int (unat (mpc_mask (mpsc_producerConfig r) + 1))"

definition MPSC_MaxEnqueueBatch :: "'a MPSCQueue \<Rightarrow> int" where
  "MPSC_MaxEnqueueBatch r = int (unat (mpc_maxBatch (mpsc_producerConfig r)))"

definition MPSC_MaxDequeueBatch :: "'a MPSCQueue \<Rightarrow> int" where
  "MPSC_MaxDequeueBatch r = int (unat (mc_maxBatch (mpsc_consumer r)))"

definition MPSC_Count :: "'a MPSCQueue \<Rightarrow> int" where
  "MPSC_Count r =
     (let consumer = mpsc_consumerPublished r; producer = mpp_published (mpsc_producerPublication r)
      in int (unat (min (producer - consumer) (mpc_mask (mpsc_producerConfig r) + 1))))"

definition MPSC_Free :: "'a MPSCQueue \<Rightarrow> int" where
  "MPSC_Free r = MPSC_Capacity r - MPSC_Count r"

definition MPSC_Full :: "'a MPSCQueue \<Rightarrow> bool" where
  "MPSC_Full r \<longleftrightarrow> MPSC_Count r = MPSC_Capacity r"

definition MPSC_Empty :: "'a MPSCQueue \<Rightarrow> bool" where
  "MPSC_Empty r \<longleftrightarrow> MPSC_Count r = 0"

definition MPSC_Reset :: "('a::zero) MPSCQueue \<Rightarrow> 'a MPSCQueue" where
  "MPSC_Reset r =
     r\<lparr>mpsc_entries := replicate (length (mpsc_entries r)) 0,
       mpsc_producerReservation := \<lparr>mpr_headRTS = 0, mpr_head = 0, mpr_cachedConsumer = 0\<rparr>,
       mpsc_producerPublication := \<lparr>mpp_tailRTS = 0, mpp_published = 0\<rparr>,
       mpsc_consumer := (mpsc_consumer r)\<lparr>mc_cursor := 0, mc_cachedProducer := 0\<rparr>,
       mpsc_consumerPublished := 0\<rparr>"

definition mpscProducerHead :: "'a MPSCQueue \<Rightarrow> u32" where
  "mpscProducerHead r =
     (if mpc_relaxed (mpsc_producerConfig r) then unpackPos (mpr_headRTS (mpsc_producerReservation r))
      else mpr_head (mpsc_producerReservation r))"

text \<open>One reservation attempt with a head word loaded before: start, count, remaining, retry.\<close>

definition mpscAttemptProducer ::
    "'a MPSCQueue \<Rightarrow> u64 \<Rightarrow> u32 \<Rightarrow> bool \<Rightarrow> bool \<Rightarrow> 'a MPSCQueue \<times> u32 \<times> u32 \<times> u32 \<times> bool" where
  "mpscAttemptProducer r w requested fixed exact =
     (let config = mpsc_producerConfig r; reservation = mpsc_producerReservation r;
          head = (if mpc_relaxed config then unpackPos w else ucast w);
          capacity = mpc_mask config + 1;
          cached = mpr_cachedConsumer reservation;
          published = multi_consumer capacity exact requested cached head (mpsc_consumerPublished r);
          reservation1 = (if published \<noteq> cached then reservation\<lparr>mpr_cachedConsumer := published\<rparr> else reservation);
          r1 = r\<lparr>mpsc_producerReservation := reservation1\<rparr>;
          free = capacity + published - head
      in if free > capacity then (r1, head, 0, capacity, requested \<noteq> 0)
         else if fixed \<and> free < requested then (r1, head, 0, free, False)
         else (let count = min requested free
               in if count = 0 then (r1, head, 0, free, False)
                  else if mpc_relaxed config
                  then (if mpr_headRTS reservation1 = w
                        then (r1\<lparr>mpsc_producerReservation := reservation1\<lparr>mpr_headRTS :=
                                 pack (head + count) (unpackCnt w + 1)\<rparr>\<rparr>, head, count, free - count, False)
                        else (r1, head, 0, 0, True))
                  else (if mpr_head reservation1 = head
                        then (r1\<lparr>mpsc_producerReservation := reservation1\<lparr>mpr_head := head + count\<rparr>\<rparr>,
                              head, count, free - count, False)
                        else (r1, head, 0, 0, True))))"

partial_function (option) mpscReserveProducer ::
    "'a MPSCQueue \<Rightarrow> u32 \<Rightarrow> bool \<Rightarrow> bool \<Rightarrow> ('a MPSCQueue \<times> u32 \<times> u32 \<times> u32) option" where
  "mpscReserveProducer r requested fixed exact =
     (case (if mpc_relaxed (mpsc_producerConfig r)
            then waitHeadTailDistance (\<lambda>_. mpr_headRTS (mpsc_producerReservation r))
                   (\<lambda>_. mpp_tailRTS (mpsc_producerPublication r)) (mpc_htdMax (mpsc_producerConfig r))
                   (int (unat (mpc_spinsBeforeYield (mpsc_producerConfig r))))
            else Some (ucast (mpr_head (mpsc_producerReservation r)))) of
        None \<Rightarrow> None
      | Some head \<Rightarrow>
          (case mpscAttemptProducer r head requested fixed exact of
             (r1, start, count, remaining, retry) \<Rightarrow>
               if \<not> retry then Some (r1, start, count, remaining)
               else mpscReserveProducer r1 requested fixed exact))"

definition mpscWriteProducer :: "'a MPSCQueue \<Rightarrow> u32 \<Rightarrow> 'a list \<Rightarrow> 'a MPSCQueue" where
  "mpscWriteProducer r start items =
     (let msk = mpc_mask (mpsc_producerConfig r)
      in if length items = 1 then r\<lparr>mpsc_entries := (mpsc_entries r)[slot start msk := items ! 0]\<rparr>
         else r\<lparr>mpsc_entries := copy_in (mpsc_entries r) msk start items\<rparr>)"

definition mpscPublishProducer :: "'a MPSCQueue \<Rightarrow> u32 \<Rightarrow> u32 \<Rightarrow> 'a MPSCQueue option" where
  "mpscPublishProducer r start count =
     (let publication = mpsc_producerPublication r
      in if mpc_relaxed (mpsc_producerConfig r)
         then (case publishRelaxed
                 (\<lambda>_. (mpp_tailRTS publication, mpr_headRTS (mpsc_producerReservation r), mpp_tailRTS publication)) 0 of
                 None \<Rightarrow> None
               | Some (tail, moved) \<Rightarrow>
                   (let publication1 = publication\<lparr>mpp_tailRTS := tail\<rparr>
                    in if moved
                       then (case raiseMirror (\<lambda>_. (mpp_published publication1, tail, mpp_published publication1)) 0 of
                               None \<Rightarrow> None
                             | Some None \<Rightarrow> Some (r\<lparr>mpsc_producerPublication := publication1\<rparr>)
                             | Some (Some pos) \<Rightarrow>
                                 Some (r\<lparr>mpsc_producerPublication := publication1\<lparr>mpp_published := pos\<rparr>\<rparr>))
                       else Some (r\<lparr>mpsc_producerPublication := publication1\<rparr>)))
         else (case waitForTail (\<lambda>_. mpp_published publication) start
                      (int (unat (mpc_spinsBeforeYield (mpsc_producerConfig r)))) of
                 None \<Rightarrow> None
               | Some _ \<Rightarrow> Some (r\<lparr>mpsc_producerPublication := publication\<lparr>mpp_published := start + count\<rparr>\<rparr>)))"

definition mpscReleaseConsumer :: "'a MPSCQueue \<Rightarrow> u32 \<Rightarrow> 'a MPSCQueue" where
  "mpscReleaseConsumer r count =
     (let cursor = mc_cursor (mpsc_consumer r) + count
      in r\<lparr>mpsc_consumer := (mpsc_consumer r)\<lparr>mc_cursor := cursor\<rparr>, mpsc_consumerPublished := cursor\<rparr>)"

text \<open>Reads an interval into a destination of its length and clears it when enabled.\<close>

definition mpscReadConsumer :: "('a::zero) MPSCQueue \<Rightarrow> u32 \<Rightarrow> 'a list \<Rightarrow> 'a MPSCQueue \<times> 'a list" where
  "mpscReadConsumer r start dst =
     (let consumer = mpsc_consumer r; len = of_nat (length dst); base = slot start (mc_mask consumer)
      in if length dst = 1
         then (if mc_clearOnDequeue consumer then r\<lparr>mpsc_entries := (mpsc_entries r)[base := 0]\<rparr> else r,
               [mpsc_entries r ! base])
         else (if mc_clearOnDequeue consumer
               then r\<lparr>mpsc_entries := clear_slots (mpsc_entries r) (mc_mask consumer) start len\<rparr> else r,
               copy_out (mpsc_entries r) (mc_mask consumer) start len))"

definition mpsc_store_cachedProducer :: "'a MPSCQueue \<Rightarrow> u32 \<Rightarrow> 'a MPSCQueue" where
  "mpsc_store_cachedProducer r cached = r\<lparr>mpsc_consumer := (mpsc_consumer r)\<lparr>mc_cachedProducer := cached\<rparr>\<rparr>"

definition mpscDequeueBatch :: "('a::zero) MPSCQueue \<Rightarrow> 'a list \<Rightarrow> bool \<Rightarrow> 'a MPSCQueue \<times> int \<times> int \<times> 'a list" where
  "mpscDequeueBatch r dst fixed =
     (let consumer = mpsc_consumer r;
          capacity = mc_mask consumer + 1;
          len = of_nat (length dst);
          (cached, available) = serial_avail capacity (mc_exactBatchCounts consumer) len
            (mc_cachedProducer consumer) (mc_cursor consumer) (mpp_published (mpsc_producerPublication r));
          r1 = mpsc_store_cachedProducer r cached
      in if available > capacity then (r1, 0, int (unat capacity), dst)
         else if fixed \<and> available < len then (r1, 0, int (unat available), dst)
         else (let n = min len available
               in if n = 0 then (r1, 0, int (unat available), dst)
                  else (let (r2, out) = mpscReadConsumer r1 (mc_cursor consumer) (take (unat n) dst)
                        in (mpscReleaseConsumer r2 n, int (unat n), int (unat (available - n)),
                            out @ drop (unat n) dst))))"

definition MPSC_Enqueue :: "'a MPSCQueue \<Rightarrow> 'a \<Rightarrow> ('a MPSCQueue \<times> ring_error option) option" where
  "MPSC_Enqueue r item =
     (case mpscReserveProducer r 1 True False of
        None \<Rightarrow> None
      | Some (r1, start, count, _) \<Rightarrow>
          if count = 0 then Some (r1, Some (Sentinel ErrFull))
          else (let r2 = r1\<lparr>mpsc_entries := (mpsc_entries r1)[slot start (mpc_mask (mpsc_producerConfig r1)) := item]\<rparr>
                in case mpscPublishProducer r2 start count of
                     None \<Rightarrow> None
                   | Some r3 \<Rightarrow> Some (r3, None)))"

definition MPSC_Dequeue :: "('a::zero) MPSCQueue \<Rightarrow> 'a MPSCQueue \<times> 'a \<times> ring_error option" where
  "MPSC_Dequeue r =
     (let consumer = mpsc_consumer r;
          capacity = mc_mask consumer + 1;
          (cached, available) = serial_avail1 capacity False (mc_cachedProducer consumer) (mc_cursor consumer)
            (mpp_published (mpsc_producerPublication r));
          r1 = mpsc_store_cachedProducer r cached
      in if available = 0 \<or> available > capacity then (r1, 0, Some (Sentinel ErrEmpty))
         else (let index = slot (mc_cursor consumer) (mc_mask consumer);
                   v = mpsc_entries r1 ! index;
                   r2 = (if mc_clearOnDequeue consumer then r1\<lparr>mpsc_entries := (mpsc_entries r1)[index := 0]\<rparr> else r1)
               in (mpscReleaseConsumer r2 1, v, None)))"

definition MPSC_EnqueueBulk :: "'a MPSCQueue \<Rightarrow> 'a list \<Rightarrow> ('a MPSCQueue \<times> int \<times> ring_error option) option" where
  "MPSC_EnqueueBulk r items =
     (let producer = mpsc_producerConfig r; capacity = mpc_mask producer + 1
      in if length items > unat capacity \<or> length items > unat (mpc_maxBatch producer)
         then (let head = mpscProducerHead r; fresh = capacity + mpsc_consumerPublished r - head
               in Some (r, int (unat (min fresh capacity)),
                        Some (BatchLengthError (int (length items)) (mpc_maxBatch producer) capacity)))
         else (case mpscReserveProducer r (of_nat (length items)) True (mpc_exactBatchCounts producer) of
                 None \<Rightarrow> None
               | Some (r1, start, count, remaining) \<Rightarrow>
                   if count = 0
                   then (if length items = 0 then Some (r1, int (unat remaining), None)
                         else Some (r1, int (unat remaining), Some (Sentinel ErrFull)))
                   else (case mpscPublishProducer (mpscWriteProducer r1 start items) start count of
                           None \<Rightarrow> None
                         | Some r2 \<Rightarrow> Some (r2, int (unat remaining), None))))"

definition MPSC_EnqueueBurst :: "'a MPSCQueue \<Rightarrow> 'a list \<Rightarrow> ('a MPSCQueue \<times> int \<times> int) option" where
  "MPSC_EnqueueBurst r items =
     (let producer = mpsc_producerConfig r;
          len = min (length items) (unat (mpc_maxBatch producer))
      in case mpscReserveProducer r (of_nat len) False (mpc_exactBatchCounts producer) of
           None \<Rightarrow> None
         | Some (r1, start, count, remaining) \<Rightarrow>
             if count = 0 then Some (r1, 0, int (unat remaining))
             else (case mpscPublishProducer (mpscWriteProducer r1 start (take (unat count) items)) start count of
                     None \<Rightarrow> None
                   | Some r2 \<Rightarrow> Some (r2, int (unat count), int (unat remaining))))"

definition MPSC_DequeueBulk :: "('a::zero) MPSCQueue \<Rightarrow> 'a list \<Rightarrow> 'a MPSCQueue \<times> int \<times> ring_error option \<times> 'a list" where
  "MPSC_DequeueBulk r dst =
     (let consumer = mpsc_consumer r; capacity = mc_mask consumer + 1
      in if length dst > unat capacity \<or> length dst > unat (mc_maxBatch consumer)
         then (let cursor = mc_cursor consumer; fresh = mpp_published (mpsc_producerPublication r) - cursor
               in (r, int (unat (min fresh capacity)),
                   Some (BatchLengthError (int (length dst)) (mc_maxBatch consumer) capacity), dst))
         else (let (r1, moved, remaining, out) = mpscDequeueBatch r dst True
               in (r1, remaining, if moved \<noteq> int (length dst) then Some (Sentinel ErrEmpty) else None, out)))"

definition MPSC_DequeueBurst :: "('a::zero) MPSCQueue \<Rightarrow> 'a list \<Rightarrow> 'a MPSCQueue \<times> int \<times> int \<times> 'a list" where
  "MPSC_DequeueBurst r dst =
     (let len = min (length dst) (unat (mc_maxBatch (mpsc_consumer r)));
          (r1, moved, remaining, out) = mpscDequeueBatch r (take len dst) False
      in (r1, moved, remaining, out @ drop len dst))"

section \<open>Invariant\<close>

definition MPSC_inv :: "'a MPSCQueue \<Rightarrow> bool" where
  "MPSC_inv r \<longleftrightarrow>
     ring_inv (mpsc_entries r) (mpc_mask (mpsc_producerConfig r)) (mpscProducerHead r)
       (mpr_cachedConsumer (mpsc_producerReservation r)) (mc_cursor (mpsc_consumer r))
       (mc_cachedProducer (mpsc_consumer r))
     \<and> mc_mask (mpsc_consumer r) = mpc_mask (mpsc_producerConfig r)
     \<and> mpp_published (mpsc_producerPublication r) = mpscProducerHead r
     \<and> (mpc_relaxed (mpsc_producerConfig r) \<longrightarrow>
          mpp_tailRTS (mpsc_producerPublication r) = mpr_headRTS (mpsc_producerReservation r))
     \<and> mpsc_consumerPublished r = mc_cursor (mpsc_consumer r)
     \<and> mc_exactBatchCounts (mpsc_consumer r) = mpc_exactBatchCounts (mpsc_producerConfig r)
     \<and> unat (mpc_maxBatch (mpsc_producerConfig r)) \<le> length (mpsc_entries r)
     \<and> unat (mc_maxBatch (mpsc_consumer r)) \<le> length (mpsc_entries r)"

definition MPSC_conf :: "'a MPSCQueue \<Rightarrow> qconf" where
  "MPSC_conf r = \<lparr>qc_cap = length (mpsc_entries r), qc_maxE = unat (mpc_maxBatch (mpsc_producerConfig r)),
     qc_maxD = unat (mc_maxBatch (mpsc_consumer r)), qc_exact = mpc_exactBatchCounts (mpsc_producerConfig r)\<rparr>"

definition MPSC_contents :: "'a MPSCQueue \<Rightarrow> 'a list" where
  "MPSC_contents r = ring_contents (mpsc_entries r) (mpscProducerHead r) (mc_cursor (mpsc_consumer r))"

lemmas mpsc_defs = MPSC_inv_def MPSC_conf_def MPSC_contents_def mpscProducerHead_def
  mpsc_store_cachedProducer_def mpscReleaseConsumer_def

lemma MPSC_ring: "MPSC_inv r \<Longrightarrow>
    ring_inv (mpsc_entries r) (mpc_mask (mpsc_producerConfig r)) (mpscProducerHead r)
       (mpr_cachedConsumer (mpsc_producerReservation r)) (mc_cursor (mpsc_consumer r))
       (mc_cachedProducer (mpsc_consumer r))"
  by (simp add: MPSC_inv_def)

lemma MPSC_bounded: "MPSC_inv r \<Longrightarrow> length (MPSC_contents r) \<le> qc_cap (MPSC_conf r)"
  using ring_count_le [OF MPSC_ring] by (simp add: MPSC_contents_def MPSC_conf_def)

section \<open>Enqueueing\<close>

text \<open>Reservation, copy and publication, as the three enqueue methods compose them.\<close>

definition mpsc_put :: "'a MPSCQueue \<Rightarrow> bool \<Rightarrow> 'a list \<Rightarrow> bool \<Rightarrow> ('a MPSCQueue \<times> int \<times> int) option" where
  "mpsc_put r exact items fixed =
     (case mpscReserveProducer r (of_nat (length items)) fixed exact of
        None \<Rightarrow> None
      | Some (r1, start, count, remaining) \<Rightarrow>
          if count = 0 then Some (r1, 0, int (unat remaining))
          else map_option (\<lambda>r2. (r2, int (unat count), int (unat remaining)))
                 (mpscPublishProducer (mpscWriteProducer r1 start (take (unat count) items)) start count))"

definition mpsc_reserved :: "'a MPSCQueue \<Rightarrow> u32 \<Rightarrow> u32 \<Rightarrow> 'a MPSCQueue" where
  "mpsc_reserved r cached count =
     (let reservation = mpsc_producerReservation r; relaxed = mpc_relaxed (mpsc_producerConfig r)
      in r\<lparr>mpsc_producerReservation := \<lparr>
           mpr_headRTS = (if relaxed \<and> count \<noteq> 0
                          then pack (mpscProducerHead r + count) (unpackCnt (mpr_headRTS reservation) + 1)
                          else mpr_headRTS reservation),
           mpr_head = (if \<not> relaxed \<and> count \<noteq> 0 then mpr_head reservation + count else mpr_head reservation),
           mpr_cachedConsumer = cached\<rparr>\<rparr>)"

lemma mpsc_reserved_simps [simp]:
  "mpsc_entries (mpsc_reserved r cc n) = mpsc_entries r"
  "mpsc_producerConfig (mpsc_reserved r cc n) = mpsc_producerConfig r"
  "mpsc_producerPublication (mpsc_reserved r cc n) = mpsc_producerPublication r"
  "mpsc_consumer (mpsc_reserved r cc n) = mpsc_consumer r"
  "mpsc_consumerPublished (mpsc_reserved r cc n) = mpsc_consumerPublished r"
  "mpr_cachedConsumer (mpsc_producerReservation (mpsc_reserved r cc n)) = cc"
  by (simp_all add: mpsc_reserved_def Let_def)

lemma mpsc_reserved_RTS: "mpc_relaxed (mpsc_producerConfig r) \<Longrightarrow>
    mpr_headRTS (mpsc_producerReservation (mpsc_reserved r cc n))
      = (if n = 0 then mpr_headRTS (mpsc_producerReservation r)
         else pack (mpscProducerHead r + n) (unpackCnt (mpr_headRTS (mpsc_producerReservation r)) + 1))"
  by (simp add: mpsc_reserved_def Let_def)

lemma mpsc_head_frame [simp]:
  "mpscProducerHead (r\<lparr>mpsc_entries := es\<rparr>) = mpscProducerHead r"
  "mpscProducerHead (r\<lparr>mpsc_producerPublication := pb\<rparr>) = mpscProducerHead r"
  "mpscProducerHead (r\<lparr>mpsc_consumer := co\<rparr>) = mpscProducerHead r"
  "mpscProducerHead (r\<lparr>mpsc_consumerPublished := cp\<rparr>) = mpscProducerHead r"
  by (simp_all add: mpscProducerHead_def)

lemma mpsc_reserved_head [simp]: "mpscProducerHead (mpsc_reserved r cc n) = mpscProducerHead r + n"
  by (simp add: mpsc_reserved_def Let_def mpscProducerHead_def)

lemma mpsc_attempt:
  fixes r :: "'a MPSCQueue" and fixed :: bool
  assumes "MPSC_inv r" "unat len \<le> length (mpsc_entries r)"
    and "serial_free (mpc_mask (mpsc_producerConfig r) + 1) exact len (mpr_cachedConsumer (mpsc_producerReservation r))
      (mpscProducerHead r) (mc_cursor (mpsc_consumer r)) = (cc', free)"
    and "\<not> mpc_mask (mpsc_producerConfig r) + 1 < free"
  defines "count \<equiv> (if fixed \<and> free < len then 0 else min len free)"
  shows "mpscReserveProducer r len fixed exact = Some (mpsc_reserved r cc' count, mpscProducerHead r, count, free - count)"
proof -
  let ?head = "if mpc_relaxed (mpsc_producerConfig r) then mpr_headRTS (mpsc_producerReservation r)
    else ucast (mpr_head (mpsc_producerReservation r))"
  have pos: "(if mpc_relaxed (mpsc_producerConfig r) then unpackPos ?head else ucast ?head) = mpscProducerHead r"
    by (simp add: mpscProducerHead_def ucast_up_down)
  have seen: "multi_consumer (mpc_mask (mpsc_producerConfig r) + 1) exact len
      (mpr_cachedConsumer (mpsc_producerReservation r)) (mpscProducerHead r) (mpsc_consumerPublished r) = cc'"
    "mpc_mask (mpsc_producerConfig r) + 1 + cc' - mpscProducerHead r = free"
    using multi_consumer_eq [OF MPSC_ring [OF assms(1)] assms(2), of exact] assms(1,3)
    by (auto simp: MPSC_inv_def Let_def)
  have "mpscAttemptProducer r ?head len fixed exact
      = (mpsc_reserved r cc' count, mpscProducerHead r, count, free - count, False)"
    unfolding mpscAttemptProducer_def Let_def pos seen
    using assms(4) by (auto simp: mpsc_reserved_def Let_def count_def mpscProducerHead_def ucast_up_down)
  moreover have "waitHeadTailDistance (\<lambda>_. mpr_headRTS (mpsc_producerReservation r))
      (\<lambda>_. mpp_tailRTS (mpsc_producerPublication r)) (mpc_htdMax (mpsc_producerConfig r)) spins
      = Some (mpr_headRTS (mpsc_producerReservation r))" if "mpc_relaxed (mpsc_producerConfig r)" for spins
    using assms(1) that by (intro waitDistance_now) (simp add: MPSC_inv_def)
  ultimately show ?thesis
    by (subst mpscReserveProducer.simps) auto
qed

lemma mpsc_publish:
  assumes "MPSC_inv r" "n \<noteq> 0" "unat n \<le> length (mpsc_entries r)"
  shows "\<exists>publication. mpscPublishProducer ((mpsc_reserved r cc' n)\<lparr>mpsc_entries := es\<rparr>) (mpscProducerHead r) n
    = Some ((mpsc_reserved r cc' n)\<lparr>mpsc_entries := es, mpsc_producerPublication := publication\<rparr>)
    \<and> mpp_published publication = mpscProducerHead r + n
    \<and> (mpc_relaxed (mpsc_producerConfig r) \<longrightarrow>
         mpp_tailRTS publication = pack (mpscProducerHead r + n) (unpackCnt (mpr_headRTS (mpsc_producerReservation r)) + 1))"
proof (cases "mpc_relaxed (mpsc_producerConfig r)")
  case False
  with assms(1) show ?thesis
    by (auto simp: mpscPublishProducer_def mpsc_reserved_def Let_def MPSC_inv_def waitForTail_now)
next
  case True
  let ?w = "mpr_headRTS (mpsc_producerReservation r)"
  have pos: "mpscProducerHead r = unpackPos ?w" using True by (simp add: mpscProducerHead_def)
  have w: "mpp_tailRTS (mpsc_producerPublication r) = pack (mpscProducerHead r) (unpackCnt ?w)"
    "mpp_published (mpsc_producerPublication r) = mpscProducerHead r"
    using assms(1) True pos by (simp_all add: MPSC_inv_def)
  have "sint n = int (unat n)" "unat n > 0"
    using assms(2,3) geom_le [OF ring_geom [OF MPSC_ring [OF assms(1)]]]
    by (auto intro!: sint_small simp: unat_gt_0)
  with True assms(2) w show ?thesis
    by (auto simp: mpscPublishProducer_def mpsc_reserved_def Let_def publishRelaxed_now raiseMirror_now nextTail_last)
qed

lemma mpsc_write:
  assumes "geom (mpsc_entries r) (mpc_mask (mpsc_producerConfig r))"
  shows "mpscWriteProducer r start items
    = r\<lparr>mpsc_entries := copy_in (mpsc_entries r) (mpc_mask (mpsc_producerConfig r)) start items\<rparr>"
proof (cases "length items = 1")
  case True
  then obtain x where "items = [x]" by (auto simp: length_Suc_conv)
  then show ?thesis using copy_in_one [OF assms] by (simp add: mpscWriteProducer_def)
qed (simp add: mpscWriteProducer_def Let_def)

lemma mpsc_put_ok:
  fixes r :: "'a MPSCQueue" and fixed :: bool
  assumes "MPSC_inv r" "length items \<le> qc_cap (MPSC_conf r)"
  defines "N \<equiv> qc_cap (MPSC_conf r) - length (MPSC_contents r)"
  defines "m \<equiv> admitted fixed (length items) N"
  shows "\<exists>r' rem. mpsc_put r exact items fixed = Some (r', int m, rem) \<and> MPSC_inv r' \<and> MPSC_conf r' = MPSC_conf r
    \<and> MPSC_contents r' = MPSC_contents r @ take m items
    \<and> reports (exact \<or> items = [] \<or> m < length items) rem (N - m)"
proof -
  let ?p = "mpscProducerHead r" and ?c = "mc_cursor (mpsc_consumer r)"
  note g = ring_geom [OF MPSC_ring [OF assms(1)]]
  have len: "length items \<le> length (mpsc_entries r)" using assms(2) by (simp add: MPSC_conf_def)
  have N: "N = length (mpsc_entries r) - unat (?p - ?c)" by (simp add: N_def MPSC_conf_def MPSC_contents_def)
  have lw: "unat (of_nat (length items) :: u32) \<le> length (mpsc_entries r)" using len_word [OF len g] len by simp
  show ?thesis
  proof (rule put_admits [OF MPSC_ring [OF assms(1)] len, of exact], goal_cases)
    case (1 cc' free n)
    note a = 1 [folded N]
    have m: "m = (if fixed \<and> N < length items then 0 else unat n)" using a(5) by (simp add: m_def admitted_def)
    note res = mpsc_attempt [OF assms(1) lw a(1,2), of fixed]
    show ?case
    proof (cases "fixed \<and> N < length items \<or> n = 0")
      case True
      then have "m = 0" using m by auto
      moreover have "(if fixed \<and> free < of_nat (length items) then 0 else min (of_nat (length items)) free) = 0"
        using True a(3,4) by auto
      ultimately have put: "mpsc_put r exact items fixed = Some (mpsc_reserved r cc' 0, int m, int (unat free))"
        using res by (simp add: mpsc_put_def)
      have "MPSC_inv (mpsc_reserved r cc' 0)" using assms(1) a(6) by (simp add: MPSC_inv_def mpsc_reserved_RTS)
      moreover have "reports (exact \<or> items = [] \<or> m < length items) (int (unat free)) (N - m)"
        using a(5,9,11) \<open>m = 0\<close> True by (auto simp: reports_def)
      ultimately show ?thesis using put \<open>m = 0\<close> by (simp add: MPSC_conf_def MPSC_contents_def)
    next
      case False
      then have n: "m = unat n" "\<not> (fixed \<and> free < of_nat (length items))" "n \<noteq> 0" "unat n \<le> length (mpsc_entries r)"
        using m a(4,5) N by auto
      obtain pb where pb: "mpscPublishProducer ((mpsc_reserved r cc' n)\<lparr>mpsc_entries :=
          copy_in (mpsc_entries r) (mpc_mask (mpsc_producerConfig r)) ?p (take (unat n) items)\<rparr>) ?p n
        = Some ((mpsc_reserved r cc' n)\<lparr>mpsc_entries :=
          copy_in (mpsc_entries r) (mpc_mask (mpsc_producerConfig r)) ?p (take (unat n) items),
          mpsc_producerPublication := pb\<rparr>)"
        "mpp_published pb = ?p + n"
        "mpc_relaxed (mpsc_producerConfig r) \<Longrightarrow>
           mpp_tailRTS pb = pack (?p + n) (unpackCnt (mpr_headRTS (mpsc_producerReservation r)) + 1)"
        using mpsc_publish [OF assms(1) n(3,4)] by blast
      have w: "mpscWriteProducer (mpsc_reserved r cc' n) ?p (take (unat n) items)
        = (mpsc_reserved r cc' n)\<lparr>mpsc_entries :=
            copy_in (mpsc_entries r) (mpc_mask (mpsc_producerConfig r)) ?p (take (unat n) items)\<rparr>"
        using mpsc_write [of "mpsc_reserved r cc' n"] g by (simp add: mpsc_reserved_def Let_def)
      have put: "mpsc_put r exact items fixed = Some ((mpsc_reserved r cc' n)\<lparr>mpsc_entries :=
          copy_in (mpsc_entries r) (mpc_mask (mpsc_producerConfig r)) ?p (take (unat n) items),
          mpsc_producerPublication := pb\<rparr>, int (unat n), int (unat (free - n)))"
        using res n(2,3) a(3) w pb(1) by (auto simp: mpsc_put_def)
      moreover have "reports (exact \<or> items = [] \<or> m < length items) (int (unat (free - n))) (N - m)"
        using a(9,10,11) n(1) by (auto simp: reports_def)
      ultimately show ?thesis
        using a(7,8) n(1,3) pb(2,3) assms(1)
        by (simp add: MPSC_inv_def MPSC_conf_def MPSC_contents_def mpsc_reserved_RTS)
    qed
  qed
qed

section \<open>Dequeueing\<close>

lemma mpsc_read:
  assumes "geom (mpsc_entries r) (mc_mask (mpsc_consumer r))" "length dst = unat n"
  shows "mpscReadConsumer r start dst =
    (if mc_clearOnDequeue (mpsc_consumer r)
     then r\<lparr>mpsc_entries := clear_slots (mpsc_entries r) (mc_mask (mpsc_consumer r)) start n\<rparr> else r,
     copy_out (mpsc_entries r) (mc_mask (mpsc_consumer r)) start n)"
proof (cases "length dst = 1")
  case True
  then have "n = 1" using assms(2) word_unat_eq_iff [of n 1] by simp
  with True show ?thesis
    using clear_one [OF assms(1), of start] copy_out_one [OF assms(1)] by (simp add: mpscReadConsumer_def Let_def)
qed (use assms(2) in \<open>simp add: mpscReadConsumer_def Let_def\<close>)

lemma mpsc_get_ok:
  fixes fixed :: bool and r :: "('a::zero) MPSCQueue"
  assumes "MPSC_inv r" "length dst \<le> qc_cap (MPSC_conf r)"
  defines "D \<equiv> length (MPSC_contents r)"
  defines "m \<equiv> admitted fixed (length dst) D"
  shows "\<exists>r' rem. mpscDequeueBatch r dst fixed = (r', int m, rem, take m (MPSC_contents r) @ drop m dst)
    \<and> MPSC_inv r' \<and> MPSC_conf r' = MPSC_conf r \<and> MPSC_contents r' = drop m (MPSC_contents r)
    \<and> reports (qc_exact (MPSC_conf r) \<or> dst = [] \<or> m < length dst) rem (D - m)"
proof -
  let ?c = "mpsc_consumer r"
  note g = ring_geom [OF MPSC_ring [OF assms(1)]]
  have len: "length dst \<le> length (mpsc_entries r)" using assms(2) by (simp add: MPSC_conf_def)
  have D: "D = unat (mpscProducerHead r - mc_cursor ?c)" by (simp add: D_def MPSC_contents_def)
  have pub: "mpp_published (mpsc_producerPublication r) = mpscProducerHead r"
    "mc_mask ?c = mpc_mask (mpsc_producerConfig r)"
    "mc_exactBatchCounts ?c = mpc_exactBatchCounts (mpsc_producerConfig r)"
    using assms(1) by (simp_all add: MPSC_inv_def)
  show ?thesis
  proof (rule get_admits [OF MPSC_ring [OF assms(1)] len, of "mpc_exactBatchCounts (mpsc_producerConfig r)"], goal_cases)
    case (1 cp' avail n)
    note a = 1 [folded D]
    have m: "m = (if fixed \<and> D < length dst then 0 else unat n)" using a(5) by (simp add: m_def admitted_def)
    show ?case
    proof (cases "fixed \<and> D < length dst \<or> n = 0")
      case True
      then have "m = 0" using m by auto
      with True a show ?thesis
        using assms(1) by (auto simp: mpscDequeueBatch_def Let_def pub reports_def MPSC_inv_def MPSC_conf_def
            MPSC_contents_def mpsc_store_cachedProducer_def)
    next
      case False
      with m have n: "m = unat n" "\<not> (fixed \<and> avail < of_nat (length dst))" "unat n \<le> length dst" using a(4,5) by auto
      have "mpscReadConsumer (mpsc_store_cachedProducer r cp') (mc_cursor ?c) (take (unat n) dst) =
        (if mc_clearOnDequeue ?c then (mpsc_store_cachedProducer r cp')\<lparr>mpsc_entries :=
           clear_slots (mpsc_entries r) (mpc_mask (mpsc_producerConfig r)) (mc_cursor ?c) n\<rparr>
         else mpsc_store_cachedProducer r cp',
         take (unat n) (MPSC_contents r))"
        using mpsc_read [of "mpsc_store_cachedProducer r cp'" "take (unat n) dst" n] g n(3) a(11) pub(2)
        by (simp add: mpsc_store_cachedProducer_def MPSC_contents_def)
      with False n a show ?thesis
        using assms(1) by (auto simp: mpscDequeueBatch_def Let_def pub reports_def MPSC_inv_def MPSC_conf_def
            MPSC_contents_def mpsc_store_cachedProducer_def mpscReleaseConsumer_def)
    qed
  qed
qed

interpretation mpsc_batches: fifo_batches MPSC_inv MPSC_conf MPSC_contents
  "\<lambda>r items fixed. mpsc_put r (qc_exact (MPSC_conf r)) items fixed" "\<lambda>r dst fixed. Some (mpscDequeueBatch r dst fixed)"
proof unfold_locales
  fix r :: "'a MPSCQueue" assume "MPSC_inv r"
  then show "length (MPSC_contents r) \<le> qc_cap (MPSC_conf r)" by (rule MPSC_bounded)
next
  fix r :: "'a MPSCQueue" assume "MPSC_inv r"
  then show "conf_ok (MPSC_conf r)" by (simp add: MPSC_inv_def MPSC_conf_def conf_ok_def)
qed (use mpsc_put_ok mpsc_get_ok in auto)

section \<open>The exported methods\<close>

lemma MPSC_cap: "MPSC_inv r \<Longrightarrow> unat (mpc_mask (mpsc_producerConfig r) + 1) = qc_cap (MPSC_conf r)"
  using geom_cap [OF ring_geom [OF MPSC_ring]] by (simp add: MPSC_conf_def)

lemma MPSC_fresh:
  assumes "MPSC_inv r"
  shows "unat (min (mpc_mask (mpsc_producerConfig r) + 1 + mpsc_consumerPublished r - mpscProducerHead r)
      (mpc_mask (mpsc_producerConfig r) + 1)) = qc_cap (MPSC_conf r) - length (MPSC_contents r)"
    and "unat (min (mpscProducerHead r - mc_cursor (mpsc_consumer r)) (mpc_mask (mpsc_producerConfig r) + 1))
      = length (MPSC_contents r)"
  using cap_minus [OF ring_geom ring_count_le, OF MPSC_ring MPSC_ring, OF assms assms] MPSC_cap [OF assms]
    ring_count_le [OF MPSC_ring [OF assms]] assms
  by (auto simp: MPSC_inv_def MPSC_conf_def MPSC_contents_def min_def word_le_nat_alt)

lemma MPSC_Enqueue_ok:
  assumes "MPSC_inv r"
  shows "\<exists>r' e. MPSC_Enqueue r x = Some (r', e) \<and> MPSC_inv r' \<and> MPSC_conf r' = MPSC_conf r
    \<and> MPSC_contents r' = fifo_next (MPSC_conf r) (MPSC_contents r) (Enqueue_op x)
    \<and> fifo_result (MPSC_conf r) (MPSC_contents r) (Enqueue_op x) (Enqueued e)"
proof -
  let ?m = "admitted True 1 (qc_cap (MPSC_conf r) - length (MPSC_contents r))"
  have len: "length [x] \<le> qc_cap (MPSC_conf r)"
    using geom_pos [OF ring_geom [OF MPSC_ring [OF assms]]] by (simp add: MPSC_conf_def Suc_le_eq)
  obtain r' rem where p: "mpsc_put r False [x] True = Some (r', int ?m, rem)" "MPSC_inv r'" "MPSC_conf r' = MPSC_conf r"
    "MPSC_contents r' = MPSC_contents r @ take ?m [x]"
    using mpsc_put_ok [OF assms len, of False True] by auto
  obtain r1 start count rest where res: "mpscReserveProducer r 1 True False = Some (r1, start, count, rest)"
    using p(1) by (auto simp: mpsc_put_def split: option.splits)
  have "MPSC_Enqueue r x = Some (r', if ?m = 0 then Some (Sentinel ErrFull) else None)"
  proof (cases "count = 0")
    case True
    with p(1) res show ?thesis by (simp add: mpsc_put_def MPSC_Enqueue_def)
  next
    case False
    then have "0 < unat count" by (simp add: unat_gt_0)
    moreover have "unat count = ?m" using False p(1) res by (auto simp: mpsc_put_def)
    ultimately have "unat count = 1" "?m = 1" by (auto simp: admitted_def split: if_splits)
    with False p(1) res show ?thesis by (auto simp: mpsc_put_def MPSC_Enqueue_def mpscWriteProducer_def)
  qed
  with p(2-4) show ?thesis
    using enqueue_admitted [of ?m "MPSC_conf r" "MPSC_contents r" x] by simp
qed

lemma MPSC_EnqueueBulk_ok:
  assumes "MPSC_inv r"
  shows "\<exists>r' free e. MPSC_EnqueueBulk r items = Some (r', free, e) \<and> MPSC_inv r' \<and> MPSC_conf r' = MPSC_conf r
    \<and> MPSC_contents r' = fifo_next (MPSC_conf r) (MPSC_contents r) (EnqueueBulk_op items)
    \<and> fifo_result (MPSC_conf r) (MPSC_contents r) (EnqueueBulk_op items) (BulkIn free e)"
proof (cases "length items > qc_maxE (MPSC_conf r)")
  case True
  then have "MPSC_EnqueueBulk r items = Some (r, int (qc_cap (MPSC_conf r) - length (MPSC_contents r)),
      Some (length_error (MPSC_conf r) (length items)))"
    using MPSC_fresh(1) [OF assms] MPSC_cap [OF assms]
    by (simp add: MPSC_EnqueueBulk_def Let_def BatchLengthError_def length_error_def MPSC_conf_def)
  with True show ?thesis using assms by (simp add: fifo_result_def reports_def)
next
  case False
  then have short: "\<not> (length items > unat (mpc_mask (mpsc_producerConfig r) + 1)
      \<or> length items > unat (mpc_maxBatch (mpsc_producerConfig r)))"
    using assms MPSC_cap [OF assms] by (auto simp: MPSC_inv_def MPSC_conf_def)
  obtain r' moved rem where p: "mpsc_put r (qc_exact (MPSC_conf r)) items True = Some (r', moved, rem)"
    and k: "MPSC_inv r'" "MPSC_conf r' = MPSC_conf r"
      "MPSC_contents r' = fifo_next (MPSC_conf r) (MPSC_contents r) (EnqueueBulk_op items)"
    and z: "moved = 0 \<longleftrightarrow> items = [] \<or> moved \<noteq> int (length items)"
    and f: "fifo_result (MPSC_conf r) (MPSC_contents r) (EnqueueBulk_op items)
      (BulkIn rem (if moved \<noteq> int (length items) then Some (Sentinel ErrFull) else None))"
    using mpsc_batches.bulk_in [OF assms, of items] False by auto
  obtain r1 start count rest where res: "mpscReserveProducer r (of_nat (length items)) True
      (mpc_exactBatchCounts (mpsc_producerConfig r)) = Some (r1, start, count, rest)"
    using p by (auto simp: mpsc_put_def MPSC_conf_def split: option.splits)
  have "MPSC_EnqueueBulk r items = Some (r', rem, if moved \<noteq> int (length items) then Some (Sentinel ErrFull) else None)"
  proof (cases "count = 0")
    case True
    with p res z short show ?thesis by (auto simp: mpsc_put_def MPSC_EnqueueBulk_def MPSC_conf_def Let_def)
  next
    case False
    then have "moved = int (unat count)" "moved \<noteq> 0"
      using p res by (auto simp: mpsc_put_def MPSC_conf_def unat_eq_zero)
    with z have "unat count = length items" "moved = int (length items)" by auto
    with False p res short show ?thesis by (auto simp: mpsc_put_def MPSC_EnqueueBulk_def MPSC_conf_def Let_def)
  qed
  with k f show ?thesis by simp
qed

lemma MPSC_EnqueueBurst_ok:
  assumes "MPSC_inv r"
  shows "\<exists>r' n free. MPSC_EnqueueBurst r items = Some (r', n, free) \<and> MPSC_inv r' \<and> MPSC_conf r' = MPSC_conf r
    \<and> MPSC_contents r' = fifo_next (MPSC_conf r) (MPSC_contents r) (EnqueueBurst_op items)
    \<and> fifo_result (MPSC_conf r) (MPSC_contents r) (EnqueueBurst_op items) (BurstIn n free)"
proof -
  let ?len = "min (length items) (qc_maxE (MPSC_conf r))"
  obtain r' moved rem where p: "mpsc_put r (qc_exact (MPSC_conf r)) (take ?len items) False = Some (r', moved, rem)"
    and k: "MPSC_inv r'" "MPSC_conf r' = MPSC_conf r"
      "MPSC_contents r' = fifo_next (MPSC_conf r) (MPSC_contents r) (EnqueueBurst_op items)"
    and f: "fifo_result (MPSC_conf r) (MPSC_contents r) (EnqueueBurst_op items) (BurstIn moved rem)"
    using mpsc_batches.burst_in [OF assms, of items] by blast
  have le: "moved \<le> int ?len" using f by (auto simp: fifo_result_def burst_in_def)
  obtain r1 start count rest where res: "mpscReserveProducer r (of_nat ?len) False
      (mpc_exactBatchCounts (mpsc_producerConfig r)) = Some (r1, start, count, rest)"
    using p by (auto simp: mpsc_put_def MPSC_conf_def split: option.splits)
  have "MPSC_EnqueueBurst r items = Some (r', moved, rem)"
  proof (cases "count = 0")
    case True
    with p res show ?thesis by (simp add: mpsc_put_def MPSC_EnqueueBurst_def MPSC_conf_def)
  next
    case False
    then have "moved = int (unat count)" using p res by (auto simp: mpsc_put_def MPSC_conf_def)
    with le have "take (unat count) (take ?len items) = take (unat count) items" by simp
    with False p res show ?thesis by (auto simp: mpsc_put_def MPSC_EnqueueBurst_def MPSC_conf_def)
  qed
  with k f show ?thesis by simp
qed

lemma MPSC_Dequeue_ok:
  fixes r :: "('a::zero) MPSCQueue"
  assumes "MPSC_inv r"
  shows "\<exists>r' v e. MPSC_Dequeue r = (r', v, e) \<and> MPSC_inv r' \<and> MPSC_conf r' = MPSC_conf r
    \<and> MPSC_contents r' = fifo_next (MPSC_conf r) (MPSC_contents r) Dequeue_op
    \<and> fifo_result (MPSC_conf r) (MPSC_contents r) Dequeue_op (Dequeued v e)"
proof -
  let ?c = "mpsc_consumer r"
  note g = ring_geom [OF MPSC_ring [OF assms]]
  have len: "length [0 :: 'a] \<le> length (mpsc_entries r)" using geom_pos [OF g] by (simp add: Suc_le_eq)
  have pub: "mpp_published (mpsc_producerPublication r) = mpscProducerHead r"
    "mc_mask ?c = mpc_mask (mpsc_producerConfig r)" using assms by (simp_all add: MPSC_inv_def)
  show ?thesis
  proof (rule get_admits [OF MPSC_ring [OF assms] len, of False], goal_cases)
    case (1 cp' avail n)
    have f: "avail = 0 \<longleftrightarrow> unat (mpscProducerHead r - mc_cursor ?c) = 0"
      using 1(4) by (auto simp: word_less_nat_alt unat_eq_zero)
    have e: "MPSC_contents r = [] \<longleftrightarrow> avail = 0"
      using f by (simp add: MPSC_contents_def flip: length_0_conv)
    have n: "n = (if avail = 0 then 0 else 1)" using 1(3) by (simp add: min_one)
    have v: "avail \<noteq> 0 \<Longrightarrow> mpsc_entries r ! slot (mc_cursor ?c) (mpc_mask (mpsc_producerConfig r)) = hd (MPSC_contents r)"
      unfolding MPSC_contents_def by (rule first_element [OF g]) (use f in simp)
    show ?case
      using 1 assms n e v clear_one [OF g, of "mc_cursor ?c"]
      by (cases "avail = 0")
        (auto simp: MPSC_Dequeue_def serial_avail1_eq Let_def pub fifo_result_def MPSC_inv_def MPSC_conf_def
          MPSC_contents_def mpsc_store_cachedProducer_def mpscReleaseConsumer_def drop_Suc)
  qed
qed

lemma MPSC_DequeueBulk_ok:
  fixes r :: "('a::zero) MPSCQueue"
  assumes "MPSC_inv r"
  shows "\<exists>r' avail e out. MPSC_DequeueBulk r dst = (r', avail, e, out) \<and> MPSC_inv r' \<and> MPSC_conf r' = MPSC_conf r
    \<and> MPSC_contents r' = fifo_next (MPSC_conf r) (MPSC_contents r) (DequeueBulk_op dst)
    \<and> fifo_result (MPSC_conf r) (MPSC_contents r) (DequeueBulk_op dst) (BulkOut avail e out)"
proof (cases "length dst > qc_maxD (MPSC_conf r)")
  case True
  then have "MPSC_DequeueBulk r dst = (r, int (length (MPSC_contents r)),
      Some (length_error (MPSC_conf r) (length dst)), dst)"
    using MPSC_fresh(2) [OF assms] MPSC_cap [OF assms] assms
    by (simp add: MPSC_DequeueBulk_def Let_def BatchLengthError_def length_error_def MPSC_inv_def MPSC_conf_def)
  with True show ?thesis using assms by (simp add: fifo_result_def reports_def)
next
  case False
  then have "\<not> (length dst > unat (mc_mask (mpsc_consumer r) + 1) \<or> length dst > unat (mc_maxBatch (mpsc_consumer r)))"
    using assms MPSC_cap [OF assms] by (auto simp: MPSC_inv_def MPSC_conf_def)
  with mpsc_batches.bulk_out [OF assms, of dst] False show ?thesis by (auto simp: MPSC_DequeueBulk_def)
qed

lemma MPSC_DequeueBurst_ok:
  fixes r :: "('a::zero) MPSCQueue"
  assumes "MPSC_inv r"
  shows "\<exists>r' n avail out. MPSC_DequeueBurst r dst = (r', n, avail, out) \<and> MPSC_inv r' \<and> MPSC_conf r' = MPSC_conf r
    \<and> MPSC_contents r' = fifo_next (MPSC_conf r) (MPSC_contents r) (DequeueBurst_op dst)
    \<and> fifo_result (MPSC_conf r) (MPSC_contents r) (DequeueBurst_op dst) (BurstOut n avail out)"
  using mpsc_batches.burst_out [OF assms, of dst]
  by (auto simp: MPSC_DequeueBurst_def MPSC_conf_def Let_def)

section \<open>The queue is a bounded FIFO\<close>

fun MPSC_step :: "('a::zero) MPSCQueue \<Rightarrow> 'a qop \<Rightarrow> ('a MPSCQueue \<times> 'a qres) option" where
  "MPSC_step r (Enqueue_op x) = map_option (\<lambda>(r', e). (r', Enqueued e)) (MPSC_Enqueue r x)"
| "MPSC_step r Dequeue_op = (case MPSC_Dequeue r of (r', v, e) \<Rightarrow> Some (r', Dequeued v e))"
| "MPSC_step r (EnqueueBulk_op xs) = map_option (\<lambda>(r', free, e). (r', BulkIn free e)) (MPSC_EnqueueBulk r xs)"
| "MPSC_step r (EnqueueBurst_op xs) = map_option (\<lambda>(r', n, free). (r', BurstIn n free)) (MPSC_EnqueueBurst r xs)"
| "MPSC_step r (DequeueBulk_op dst) =
     (case MPSC_DequeueBulk r dst of (r', avail, e, out) \<Rightarrow> Some (r', BulkOut avail e out))"
| "MPSC_step r (DequeueBurst_op dst) =
     (case MPSC_DequeueBurst r dst of (r', n, avail, out) \<Rightarrow> Some (r', BurstOut n avail out))"
| "MPSC_step r Count_op = Some (r, Counted (MPSC_Count r))"
| "MPSC_step r Reset_op = Some (MPSC_Reset r, ResetDone)"

lemma MPSC_Count_ok: "MPSC_inv r \<Longrightarrow> MPSC_Count r = int (length (MPSC_contents r))"
  using MPSC_fresh(2) [of r] by (simp add: MPSC_Count_def Let_def MPSC_inv_def)

lemma MPSC_Reset_ok:
  assumes "MPSC_inv r"
  shows "MPSC_inv (MPSC_Reset r) \<and> MPSC_conf (MPSC_Reset r) = MPSC_conf r \<and> MPSC_contents (MPSC_Reset r) = []"
  using assms ring_new [OF geom_length [OF ring_geom [OF MPSC_ring [OF assms]]],
    of "replicate (length (mpsc_entries r)) 0" 0]
  by (simp add: MPSC_Reset_def MPSC_inv_def MPSC_conf_def MPSC_contents_def mpscProducerHead_def ring_contents_def)

interpretation mpsc: fifo_queue MPSC_inv MPSC_conf MPSC_contents MPSC_step
proof unfold_locales
  fix r :: "'a MPSCQueue" and opn
  assume r: "MPSC_inv r"
  show "\<exists>r' res. MPSC_step r opn = Some (r', res) \<and> MPSC_inv r' \<and> MPSC_conf r' = MPSC_conf r
      \<and> MPSC_contents r' = fifo_next (MPSC_conf r) (MPSC_contents r) opn
      \<and> fifo_result (MPSC_conf r) (MPSC_contents r) opn res"
  proof (cases opn)
    case (Enqueue_op x)
    then show ?thesis using MPSC_Enqueue_ok [OF r, of x] by auto
  next
    case Dequeue_op
    then show ?thesis using MPSC_Dequeue_ok [OF r] by auto
  next
    case (EnqueueBulk_op xs)
    then show ?thesis using MPSC_EnqueueBulk_ok [OF r, of xs] by auto
  next
    case (EnqueueBurst_op xs)
    then show ?thesis using MPSC_EnqueueBurst_ok [OF r, of xs] by auto
  next
    case (DequeueBulk_op dst)
    then show ?thesis using MPSC_DequeueBulk_ok [OF r, of dst] by auto
  next
    case (DequeueBurst_op dst)
    then show ?thesis using MPSC_DequeueBurst_ok [OF r, of dst] by auto
  next
    case Count_op
    then show ?thesis using r by (simp add: MPSC_Count_ok fifo_result_def)
  next
    case Reset_op
    then show ?thesis using MPSC_Reset_ok [OF r] by (simp add: fifo_result_def)
  qed
qed (rule MPSC_bounded)

lemma NewMPSCQueue_ok:
  fixes r :: "('a::zero) MPSCQueue"
  assumes "NewMPSCQueue count options = Inr r"
  shows "MPSC_inv r \<and> MPSC_contents r = [] \<and> int (qc_cap (MPSC_conf r)) = count"
proof -
  obtain cfg where cfg: "resolveConfig count modeMulti modeSingle True options = Inr cfg"
    using assms by (auto simp: NewMPSCQueue_def split: sum.splits)
  then obtain k where k: "k \<le> 30" "count = 2 ^ k" and ok: "config_ok count modeMulti modeSingle cfg"
    by (auto simp: resolveConfig_Inr)
  have b: "unat (of_int (maxEnqueueBatch cfg) :: u32) \<le> 2 ^ k" "unat (of_int (maxDequeueBatch cfg) :: u32) \<le> 2 ^ k"
    using ok k unat_of_batch [of "maxEnqueueBatch cfg" k] unat_of_batch [of "maxDequeueBatch cfg" k]
    by (simp_all add: config_ok_def nat_le_iff)
  show ?thesis
    using assms cfg b ring_new [OF geom_new [OF k(1), of "0 :: 'a"], of 0]
    by (auto simp: NewMPSCQueue_def MPSC_inv_def MPSC_conf_def MPSC_contents_def mpscProducerHead_def
        ring_contents_def k(2) nat_power_eq)
qed

section \<open>Properties\<close>

text \<open>
  C3. A new many-producer queue, with ordered or relaxed producers and any other accepted options,
  behaves between calls as a bounded FIFO: no call waits for a reservation that nobody holds, and
  results, errors, counts and order are those of the FIFO.
\<close>

theorem MPSC_is_bounded_fifo:
  fixes r :: "('a::zero) MPSCQueue"
  assumes "NewMPSCQueue count options = Inr r"
  shows "\<exists>r' rs. queue_run MPSC_step r ops = Some (r', rs)
    \<and> results_allowed (MPSC_conf r) [] ops rs
    \<and> MPSC_contents r' = fold (\<lambda>opn xs. fifo_next (MPSC_conf r) xs opn) ops []
    \<and> (Reset_op \<notin> set ops \<longrightarrow> all_enqueued ops rs = all_dequeued rs @ MPSC_contents r')
    \<and> MPSC_Count r' = int (length (MPSC_contents r')) \<and> MPSC_Capacity r' = count
    \<and> (MPSC_Full r' \<longleftrightarrow> MPSC_Free r' = 0) \<and> (MPSC_Empty r' \<longleftrightarrow> MPSC_contents r' = [])"
proof -
  have new: "MPSC_inv r" "MPSC_contents r = []" "int (qc_cap (MPSC_conf r)) = count"
    using NewMPSCQueue_ok [OF assms] by simp_all
  obtain r' rs where run: "queue_run MPSC_step r ops = Some (r', rs)" "MPSC_inv r'" "MPSC_conf r' = MPSC_conf r"
    "MPSC_contents r' = fold (\<lambda>opn xs. fifo_next (MPSC_conf r) xs opn) ops []"
    "results_allowed (MPSC_conf r) [] ops rs"
    using mpsc.run_total [OF new(1), of ops] new(2) by auto
  moreover have "MPSC_Capacity r' = count"
    using MPSC_cap [OF run(2)] run(3) new(3) by (simp add: MPSC_Capacity_def)
  moreover have "Reset_op \<notin> set ops \<longrightarrow> all_enqueued ops rs = all_dequeued rs @ MPSC_contents r'"
    using mpsc.run_stream [OF new(1) _ run(1)] new(2) by simp
  ultimately show ?thesis
    using MPSC_Count_ok [OF run(2)] by (auto simp: MPSC_Full_def MPSC_Free_def MPSC_Empty_def)
qed

theorem MPSC_is_bounded_fifo_witness:
  "\<exists>(r :: int MPSCQueue) r' rs. NewMPSCQueue 8 [WithRelaxedMultiProdEnqueue, WithMaxBatch 2] = Inr r
     \<and> queue_run MPSC_step r [EnqueueBulk_op [1, 2], EnqueueBurst_op [3, 4, 5], Dequeue_op, EnqueueBulk_op [6, 7, 8]]
       = Some (r', rs) \<and> MPSC_contents r' = [2, 3, 4] \<and> MPSC_Capacity r' = 8"
proof -
  let ?o = "[WithRelaxedMultiProdEnqueue, WithMaxBatch 2]"
  have "resolveConfig 8 modeMulti modeSingle True ?o
      = Inr (fold (\<lambda>option cfg. option cfg) ?o (defaultConfig 8 modeMulti modeSingle))"
    unfolding resolveConfig_Inr
    by (auto simp: config_ok_def side_ok_def defaultConfig_def defaultSpinsBeforeYield_def
        WithRelaxedMultiProdEnqueue_def WithMaxBatch_def intro!: exI [of _ 3])
  then obtain r :: "int MPSCQueue" where r: "NewMPSCQueue 8 ?o = Inr r" "qc_cap (MPSC_conf r) = 8"
    "qc_maxE (MPSC_conf r) = 2"
    by (simp add: NewMPSCQueue_def MPSC_conf_def defaultConfig_def WithRelaxedMultiProdEnqueue_def WithMaxBatch_def)
  from MPSC_is_bounded_fifo [OF r(1),
      of "[EnqueueBulk_op [1, 2], EnqueueBurst_op [3, 4, 5], Dequeue_op, EnqueueBulk_op [6, 7, 8]]"]
  show ?thesis using r by (auto simp: burst_in_def simp del: queue_run.simps)
qed

end
