(* ===== verification/DpdkSPMC.thy ===== *)
theory DpdkSPMC
  imports DpdkOptions DpdkRing
begin

text \<open>
  The queue with one producer and many consumers, \<^verbatim>\<open>ring/dpdk/spmc.go\<close>, with ordered and relaxed
  consumers. A method is the whole call run without interference; its loops are partial functions,
  so that a call that would wait forever is \<open>None\<close>.
\<close>

section \<open>Definitions\<close>

record spmcProducer =
  smp_mask :: u32
  smp_cursor :: u32
  smp_cachedConsumer :: u32
  smp_maxBatch :: u32
  smp_exactBatchCounts :: bool

record spmcConsumerConfig =
  smc_mask :: u32
  smc_maxBatch :: u32
  smc_spinsBeforeYield :: u32
  smc_htdMax :: u32
  smc_clearOnDequeue :: bool
  smc_exactBatchCounts :: bool
  smc_relaxed :: bool

record spmcConsumerReservation =
  smr_headRTS :: u64
  smr_head :: u32
  smr_cachedProducer :: u32

record spmcConsumerPublication =
  smb_tailRTS :: u64
  smb_published :: u32

record 'a SPMCQueue =
  spmc_entries :: "'a list"
  spmc_producer :: spmcProducer
  spmc_producerPublished :: u32
  spmc_consumerConfig :: spmcConsumerConfig
  spmc_consumerReservation :: spmcConsumerReservation
  spmc_consumerPublication :: spmcConsumerPublication

definition NewSPMCQueue :: "int \<Rightarrow> Option list \<Rightarrow> ring_error + ('a::zero) SPMCQueue" where
  "NewSPMCQueue count options =
     (case resolveConfig count modeSingle modeMulti True options of
        Inl e \<Rightarrow> Inl e
      | Inr cfg \<Rightarrow> Inr
          \<lparr>spmc_entries = replicate (nat count) 0,
           spmc_producer = \<lparr>smp_mask = of_int (count - 1), smp_cursor = 0, smp_cachedConsumer = 0,
             smp_maxBatch = of_int (maxEnqueueBatch cfg), smp_exactBatchCounts = exactBatchCounts cfg\<rparr>,
           spmc_producerPublished = 0,
           spmc_consumerConfig = \<lparr>smc_mask = of_int (count - 1), smc_maxBatch = of_int (maxDequeueBatch cfg),
             smc_spinsBeforeYield = of_int (spinsBeforeYield cfg),
             smc_htdMax = resolveHeadTailDistance (consMode cfg) count (maxConsumerHeadTailDistance cfg)
               (consumerHeadTailDistanceSet cfg),
             smc_clearOnDequeue = (\<not> keepDequeued cfg), smc_exactBatchCounts = exactBatchCounts cfg,
             smc_relaxed = (consMode cfg = modeRelaxed)\<rparr>,
           spmc_consumerReservation = \<lparr>smr_headRTS = 0, smr_head = 0, smr_cachedProducer = 0\<rparr>,
           spmc_consumerPublication = \<lparr>smb_tailRTS = 0, smb_published = 0\<rparr>\<rparr>)"

definition SPMC_Capacity :: "'a SPMCQueue \<Rightarrow> int" where
  "SPMC_Capacity r = int (unat (smp_mask (spmc_producer r) + 1))"

definition SPMC_MaxEnqueueBatch :: "'a SPMCQueue \<Rightarrow> int" where
  "SPMC_MaxEnqueueBatch r = int (unat (smp_maxBatch (spmc_producer r)))"

definition SPMC_MaxDequeueBatch :: "'a SPMCQueue \<Rightarrow> int" where
  "SPMC_MaxDequeueBatch r = int (unat (smc_maxBatch (spmc_consumerConfig r)))"

definition SPMC_Count :: "'a SPMCQueue \<Rightarrow> int" where
  "SPMC_Count r =
     (let consumer = smb_published (spmc_consumerPublication r); producer = spmc_producerPublished r
      in int (unat (min (producer - consumer) (smp_mask (spmc_producer r) + 1))))"

definition SPMC_Free :: "'a SPMCQueue \<Rightarrow> int" where
  "SPMC_Free r = SPMC_Capacity r - SPMC_Count r"

definition SPMC_Full :: "'a SPMCQueue \<Rightarrow> bool" where
  "SPMC_Full r \<longleftrightarrow> SPMC_Count r = SPMC_Capacity r"

definition SPMC_Empty :: "'a SPMCQueue \<Rightarrow> bool" where
  "SPMC_Empty r \<longleftrightarrow> SPMC_Count r = 0"

definition SPMC_Reset :: "('a::zero) SPMCQueue \<Rightarrow> 'a SPMCQueue" where
  "SPMC_Reset r =
     r\<lparr>spmc_entries := replicate (length (spmc_entries r)) 0,
       spmc_producer := (spmc_producer r)\<lparr>smp_cursor := 0, smp_cachedConsumer := 0\<rparr>,
       spmc_producerPublished := 0,
       spmc_consumerReservation := \<lparr>smr_headRTS = 0, smr_head = 0, smr_cachedProducer = 0\<rparr>,
       spmc_consumerPublication := \<lparr>smb_tailRTS = 0, smb_published = 0\<rparr>\<rparr>"

text \<open>The producer's cached position is stored; elements are written and the cursor is published.\<close>

definition spmc_store_cachedConsumer :: "'a SPMCQueue \<Rightarrow> u32 \<Rightarrow> 'a SPMCQueue" where
  "spmc_store_cachedConsumer r cached =
     r\<lparr>spmc_producer := (spmc_producer r)\<lparr>smp_cachedConsumer := cached\<rparr>\<rparr>"

definition spmc_push :: "'a SPMCQueue \<Rightarrow> 'a list \<Rightarrow> u32 \<Rightarrow> 'a SPMCQueue" where
  "spmc_push r es len =
     (let producer = spmc_producer r; cursor = smp_cursor producer + len
      in r\<lparr>spmc_entries := es, spmc_producer := producer\<lparr>smp_cursor := cursor\<rparr>, spmc_producerPublished := cursor\<rparr>)"

definition SPMC_Enqueue :: "'a SPMCQueue \<Rightarrow> 'a \<Rightarrow> 'a SPMCQueue \<times> ring_error option" where
  "SPMC_Enqueue r item =
     (let producer = spmc_producer r;
          capacity = smp_mask producer + 1;
          (cached, free) = serial_free1 capacity False (smp_cachedConsumer producer) (smp_cursor producer)
            (smb_published (spmc_consumerPublication r));
          r1 = spmc_store_cachedConsumer r cached
      in if free = 0 \<or> free > capacity then (r1, Some (Sentinel ErrFull))
         else (spmc_push r1 ((spmc_entries r)[slot (smp_cursor producer) (smp_mask producer) := item]) 1, None))"

definition spmcEnqueueBatch :: "'a SPMCQueue \<Rightarrow> 'a list \<Rightarrow> bool \<Rightarrow> 'a SPMCQueue \<times> int \<times> int" where
  "spmcEnqueueBatch r items fixed =
     (let producer = spmc_producer r;
          capacity = smp_mask producer + 1;
          len = of_nat (length items);
          (cached, free) = serial_free capacity (smp_exactBatchCounts producer) len (smp_cachedConsumer producer)
            (smp_cursor producer) (smb_published (spmc_consumerPublication r));
          r1 = spmc_store_cachedConsumer r cached
      in if free > capacity then (r1, 0, int (unat capacity))
         else if fixed \<and> free < len then (r1, 0, int (unat free))
         else (let n = min len free
               in if n = 0 then (r1, 0, int (unat free))
                  else (let es = (if n = 1
                                  then (spmc_entries r)[slot (smp_cursor producer) (smp_mask producer) := items ! 0]
                                  else copy_in (spmc_entries r) (smp_mask producer) (smp_cursor producer)
                                         (take (unat n) items))
                        in (spmc_push r1 es n, int (unat n), int (unat (free - n))))))"

definition spmcConsumerHeadPosition :: "'a SPMCQueue \<Rightarrow> u32" where
  "spmcConsumerHeadPosition r =
     (if smc_relaxed (spmc_consumerConfig r) then unpackPos (smr_headRTS (spmc_consumerReservation r))
      else smr_head (spmc_consumerReservation r))"

text \<open>One reservation attempt with a head word loaded before: start, count, remaining, retry.\<close>

definition spmcAttemptConsumerWord ::
    "'a SPMCQueue \<Rightarrow> u64 \<Rightarrow> u32 \<Rightarrow> bool \<Rightarrow> bool \<Rightarrow> 'a SPMCQueue \<times> u32 \<times> u32 \<times> u32 \<times> bool" where
  "spmcAttemptConsumerWord r w requested fixed exact =
     (let config = spmc_consumerConfig r; reservation = spmc_consumerReservation r;
          head = (if smc_relaxed config then unpackPos w else ucast w);
          capacity = smc_mask config + 1;
          cached = smr_cachedProducer reservation;
          published = multi_producer capacity exact requested cached head (spmc_producerPublished r);
          reservation1 = (if published \<noteq> cached then reservation\<lparr>smr_cachedProducer := published\<rparr> else reservation);
          r1 = r\<lparr>spmc_consumerReservation := reservation1\<rparr>;
          available = published - head
      in if available > capacity then (r1, head, 0, capacity, requested \<noteq> 0)
         else if fixed \<and> available < requested then (r1, head, 0, available, False)
         else (let count = min requested available
               in if count = 0 then (r1, head, 0, available, False)
                  else if smc_relaxed config
                  then (if smr_headRTS reservation1 = w
                        then (r1\<lparr>spmc_consumerReservation := reservation1\<lparr>smr_headRTS :=
                                 pack (head + count) (unpackCnt w + 1)\<rparr>\<rparr>, head, count, available - count, False)
                        else (r1, head, 0, 0, True))
                  else (if smr_head reservation1 = head
                        then (r1\<lparr>spmc_consumerReservation := reservation1\<lparr>smr_head := head + count\<rparr>\<rparr>,
                              head, count, available - count, False)
                        else (r1, head, 0, 0, True))))"

definition spmcAttemptConsumer ::
    "'a SPMCQueue \<Rightarrow> u32 \<Rightarrow> u32 \<Rightarrow> bool \<Rightarrow> bool \<Rightarrow> 'a SPMCQueue \<times> u32 \<times> u32 \<times> u32 \<times> bool" where
  "spmcAttemptConsumer r head requested fixed exact = spmcAttemptConsumerWord r (ucast head) requested fixed exact"

partial_function (option) spmcReserveConsumer ::
    "'a SPMCQueue \<Rightarrow> u32 \<Rightarrow> bool \<Rightarrow> bool \<Rightarrow> ('a SPMCQueue \<times> u32 \<times> u32 \<times> u32) option" where
  "spmcReserveConsumer r requested fixed exact =
     (case (if smc_relaxed (spmc_consumerConfig r)
            then waitHeadTailDistance (\<lambda>_. smr_headRTS (spmc_consumerReservation r))
                   (\<lambda>_. smb_tailRTS (spmc_consumerPublication r)) (smc_htdMax (spmc_consumerConfig r))
                   (int (unat (smc_spinsBeforeYield (spmc_consumerConfig r))))
            else Some (ucast (smr_head (spmc_consumerReservation r)))) of
        None \<Rightarrow> None
      | Some w \<Rightarrow>
          (case spmcAttemptConsumerWord r w requested fixed exact of
             (r1, start, count, remaining, retry) \<Rightarrow>
               if \<not> retry then Some (r1, start, count, remaining)
               else spmcReserveConsumer r1 requested fixed exact))"

text \<open>Reads an interval into a destination of its length and clears it when enabled.\<close>

definition spmcReadConsumer :: "('a::zero) SPMCQueue \<Rightarrow> u32 \<Rightarrow> 'a list \<Rightarrow> 'a SPMCQueue \<times> 'a list" where
  "spmcReadConsumer r start dst =
     (let consumer = spmc_consumerConfig r; len = of_nat (length dst); base = slot start (smc_mask consumer)
      in if length dst = 1
         then (if smc_clearOnDequeue consumer then r\<lparr>spmc_entries := (spmc_entries r)[base := 0]\<rparr> else r,
               [spmc_entries r ! base])
         else (if smc_clearOnDequeue consumer
               then r\<lparr>spmc_entries := clear_slots (spmc_entries r) (smc_mask consumer) start len\<rparr> else r,
               copy_out (spmc_entries r) (smc_mask consumer) start len))"

definition spmcReleaseConsumer :: "'a SPMCQueue \<Rightarrow> u32 \<Rightarrow> u32 \<Rightarrow> 'a SPMCQueue option" where
  "spmcReleaseConsumer r start count =
     (let publication = spmc_consumerPublication r
      in if smc_relaxed (spmc_consumerConfig r)
         then (case publishRelaxed
                 (\<lambda>_. (smb_tailRTS publication, smr_headRTS (spmc_consumerReservation r), smb_tailRTS publication)) 0 of
                 None \<Rightarrow> None
               | Some (tail, moved) \<Rightarrow>
                   (let publication1 = publication\<lparr>smb_tailRTS := tail\<rparr>
                    in if moved
                       then (case raiseMirror (\<lambda>_. (smb_published publication1, tail, smb_published publication1)) 0 of
                               None \<Rightarrow> None
                             | Some None \<Rightarrow> Some (r\<lparr>spmc_consumerPublication := publication1\<rparr>)
                             | Some (Some pos) \<Rightarrow>
                                 Some (r\<lparr>spmc_consumerPublication := publication1\<lparr>smb_published := pos\<rparr>\<rparr>))
                       else Some (r\<lparr>spmc_consumerPublication := publication1\<rparr>)))
         else (case waitForTail (\<lambda>_. smb_published publication) start
                      (int (unat (smc_spinsBeforeYield (spmc_consumerConfig r)))) of
                 None \<Rightarrow> None
               | Some _ \<Rightarrow> Some (r\<lparr>spmc_consumerPublication := publication\<lparr>smb_published := start + count\<rparr>\<rparr>)))"

definition SPMC_Dequeue :: "('a::zero) SPMCQueue \<Rightarrow> ('a SPMCQueue \<times> 'a \<times> ring_error option) option" where
  "SPMC_Dequeue r =
     (case spmcReserveConsumer r 1 True False of
        None \<Rightarrow> None
      | Some (r1, start, count, _) \<Rightarrow>
          if count = 0 then Some (r1, 0, Some (Sentinel ErrEmpty))
          else (let consumer = spmc_consumerConfig r1;
                    index = slot start (smc_mask consumer);
                    v = spmc_entries r1 ! index;
                    r2 = (if smc_clearOnDequeue consumer then r1\<lparr>spmc_entries := (spmc_entries r1)[index := 0]\<rparr> else r1)
                in case spmcReleaseConsumer r2 start count of
                     None \<Rightarrow> None
                   | Some r3 \<Rightarrow> Some (r3, v, None)))"

definition SPMC_EnqueueBulk :: "'a SPMCQueue \<Rightarrow> 'a list \<Rightarrow> 'a SPMCQueue \<times> int \<times> ring_error option" where
  "SPMC_EnqueueBulk r items =
     (let producer = spmc_producer r; capacity = smp_mask producer + 1
      in if length items > unat capacity \<or> length items > unat (smp_maxBatch producer)
         then (let cursor = smp_cursor producer;
                   fresh = capacity + smb_published (spmc_consumerPublication r) - cursor
               in (r, int (unat (min fresh capacity)),
                   Some (BatchLengthError (int (length items)) (smp_maxBatch producer) capacity)))
         else (let (r1, moved, remaining) = spmcEnqueueBatch r items True
               in (r1, remaining, if moved \<noteq> int (length items) then Some (Sentinel ErrFull) else None)))"

definition SPMC_EnqueueBurst :: "'a SPMCQueue \<Rightarrow> 'a list \<Rightarrow> 'a SPMCQueue \<times> int \<times> int" where
  "SPMC_EnqueueBurst r items =
     (let len = min (length items) (unat (smp_maxBatch (spmc_producer r)))
      in spmcEnqueueBatch r (take len items) False)"

definition SPMC_DequeueBulk :: "('a::zero) SPMCQueue \<Rightarrow> 'a list
    \<Rightarrow> ('a SPMCQueue \<times> int \<times> ring_error option \<times> 'a list) option" where
  "SPMC_DequeueBulk r dst =
     (let consumer = spmc_consumerConfig r; capacity = smc_mask consumer + 1
      in if length dst > unat capacity \<or> length dst > unat (smc_maxBatch consumer)
         then (let head = spmcConsumerHeadPosition r; fresh = spmc_producerPublished r - head
               in Some (r, int (unat (min fresh capacity)),
                        Some (BatchLengthError (int (length dst)) (smc_maxBatch consumer) capacity), dst))
         else (case spmcReserveConsumer r (of_nat (length dst)) True (smc_exactBatchCounts consumer) of
                 None \<Rightarrow> None
               | Some (r1, start, count, remaining) \<Rightarrow>
                   if count = 0
                   then (if length dst = 0 then Some (r1, int (unat remaining), None, dst)
                         else Some (r1, int (unat remaining), Some (Sentinel ErrEmpty), dst))
                   else (let (r2, out) = spmcReadConsumer r1 start dst
                         in case spmcReleaseConsumer r2 start count of
                              None \<Rightarrow> None
                            | Some r3 \<Rightarrow> Some (r3, int (unat remaining), None, out))))"

definition SPMC_DequeueBurst :: "('a::zero) SPMCQueue \<Rightarrow> 'a list \<Rightarrow> ('a SPMCQueue \<times> int \<times> int \<times> 'a list) option" where
  "SPMC_DequeueBurst r dst =
     (let consumer = spmc_consumerConfig r;
          len = min (length dst) (unat (smc_maxBatch consumer))
      in case spmcReserveConsumer r (of_nat len) False (smc_exactBatchCounts consumer) of
           None \<Rightarrow> None
         | Some (r1, start, count, remaining) \<Rightarrow>
             if count = 0 then Some (r1, 0, int (unat remaining), dst)
             else (let (r2, out) = spmcReadConsumer r1 start (take (unat count) dst)
                   in case spmcReleaseConsumer r2 start count of
                        None \<Rightarrow> None
                      | Some r3 \<Rightarrow> Some (r3, int (unat count), int (unat remaining), out @ drop (unat count) dst)))"

section \<open>Invariant\<close>

definition SPMC_inv :: "'a SPMCQueue \<Rightarrow> bool" where
  "SPMC_inv r \<longleftrightarrow>
     ring_inv (spmc_entries r) (smp_mask (spmc_producer r)) (smp_cursor (spmc_producer r))
       (smp_cachedConsumer (spmc_producer r)) (spmcConsumerHeadPosition r)
       (smr_cachedProducer (spmc_consumerReservation r))
     \<and> smc_mask (spmc_consumerConfig r) = smp_mask (spmc_producer r)
     \<and> spmc_producerPublished r = smp_cursor (spmc_producer r)
     \<and> smb_published (spmc_consumerPublication r) = spmcConsumerHeadPosition r
     \<and> (smc_relaxed (spmc_consumerConfig r) \<longrightarrow>
          smb_tailRTS (spmc_consumerPublication r) = smr_headRTS (spmc_consumerReservation r))
     \<and> smc_exactBatchCounts (spmc_consumerConfig r) = smp_exactBatchCounts (spmc_producer r)
     \<and> unat (smp_maxBatch (spmc_producer r)) \<le> length (spmc_entries r)
     \<and> unat (smc_maxBatch (spmc_consumerConfig r)) \<le> length (spmc_entries r)"

definition SPMC_conf :: "'a SPMCQueue \<Rightarrow> qconf" where
  "SPMC_conf r = \<lparr>qc_cap = length (spmc_entries r), qc_maxE = unat (smp_maxBatch (spmc_producer r)),
     qc_maxD = unat (smc_maxBatch (spmc_consumerConfig r)), qc_exact = smp_exactBatchCounts (spmc_producer r)\<rparr>"

definition SPMC_contents :: "'a SPMCQueue \<Rightarrow> 'a list" where
  "SPMC_contents r = ring_contents (spmc_entries r) (smp_cursor (spmc_producer r)) (spmcConsumerHeadPosition r)"

lemma SPMC_ring: "SPMC_inv r \<Longrightarrow>
    ring_inv (spmc_entries r) (smp_mask (spmc_producer r)) (smp_cursor (spmc_producer r))
       (smp_cachedConsumer (spmc_producer r)) (spmcConsumerHeadPosition r)
       (smr_cachedProducer (spmc_consumerReservation r))"
  by (simp add: SPMC_inv_def)

lemma SPMC_bounded: "SPMC_inv r \<Longrightarrow> length (SPMC_contents r) \<le> qc_cap (SPMC_conf r)"
  using ring_count_le [OF SPMC_ring] by (simp add: SPMC_contents_def SPMC_conf_def)

lemma spmc_head_frame [simp]:
  "spmcConsumerHeadPosition (r\<lparr>spmc_entries := es\<rparr>) = spmcConsumerHeadPosition r"
  "spmcConsumerHeadPosition (r\<lparr>spmc_consumerPublication := pb\<rparr>) = spmcConsumerHeadPosition r"
  "spmcConsumerHeadPosition (r\<lparr>spmc_producer := pr\<rparr>) = spmcConsumerHeadPosition r"
  "spmcConsumerHeadPosition (r\<lparr>spmc_producerPublished := pp\<rparr>) = spmcConsumerHeadPosition r"
  by (simp_all add: spmcConsumerHeadPosition_def)

section \<open>Enqueueing\<close>

lemma spmc_put_ok:
  fixes fixed :: bool
  assumes "SPMC_inv r" "length items \<le> qc_cap (SPMC_conf r)"
  defines "N \<equiv> qc_cap (SPMC_conf r) - length (SPMC_contents r)"
  defines "m \<equiv> admitted fixed (length items) N"
  shows "\<exists>r' rem. spmcEnqueueBatch r items fixed = (r', int m, rem) \<and> SPMC_inv r' \<and> SPMC_conf r' = SPMC_conf r
    \<and> SPMC_contents r' = SPMC_contents r @ take m items
    \<and> reports (qc_exact (SPMC_conf r) \<or> items = [] \<or> m < length items) rem (N - m)"
proof -
  let ?p = "spmc_producer r" and ?c = "spmcConsumerHeadPosition r"
  note g = ring_geom [OF SPMC_ring [OF assms(1)]]
  have len: "length items \<le> length (spmc_entries r)" using assms(2) by (simp add: SPMC_conf_def)
  have N: "N = length (spmc_entries r) - unat (smp_cursor ?p - ?c)"
    by (simp add: N_def SPMC_conf_def SPMC_contents_def)
  have pub: "smb_published (spmc_consumerPublication r) = ?c" using assms(1) by (simp add: SPMC_inv_def)
  show ?thesis
  proof (rule put_admits [OF SPMC_ring [OF assms(1)] len, of "smp_exactBatchCounts ?p"], goal_cases)
    case (1 cc' free n)
    note a = 1 [folded N]
    have m: "m = (if fixed \<and> N < length items then 0 else unat n)" using a(5) by (simp add: m_def admitted_def)
    show ?case
    proof (cases "fixed \<and> N < length items \<or> n = 0")
      case True
      then have "m = 0" using m by auto
      with True a show ?thesis
        using assms(1) by (auto simp: spmcEnqueueBatch_def Let_def pub reports_def SPMC_inv_def SPMC_conf_def
            SPMC_contents_def spmc_store_cachedConsumer_def)
    next
      case False
      with m have n: "m = unat n" "\<not> (fixed \<and> free < of_nat (length items))" using a(4) by auto
      have one: "(spmc_entries r)[slot (smp_cursor ?p) (smp_mask ?p) := items ! 0]
          = copy_in (spmc_entries r) (smp_mask ?p) (smp_cursor ?p) (take (unat n) items)" if "n = 1"
      proof -
        have "unat n = 1" "items \<noteq> []" using that a(5) by auto
        then have "take (unat n) items = [items ! 0]" by (cases items) simp_all
        then show ?thesis using copy_in_one [OF g] by simp
      qed
      have "spmcEnqueueBatch r items fixed = (spmc_push (spmc_store_cachedConsumer r cc')
          (copy_in (spmc_entries r) (smp_mask ?p) (smp_cursor ?p) (take (unat n) items)) n,
          int (unat n), int (unat (free - n)))"
        using False n(2) a(1-3) one by (auto simp: spmcEnqueueBatch_def Let_def pub)
      moreover have "reports (smp_exactBatchCounts ?p \<or> items = [] \<or> m < length items) (int (unat (free - n))) (N - m)"
        using a(9-11) n(1) by (auto simp: reports_def)
      ultimately show ?thesis
        using a(7,8) n(1) assms(1)
        by (simp add: SPMC_inv_def SPMC_conf_def SPMC_contents_def spmc_push_def spmc_store_cachedConsumer_def Let_def)
    qed
  qed
qed

section \<open>Dequeueing\<close>

text \<open>Reservation, copy and release, as the three dequeue methods compose them.\<close>

definition spmc_get :: "('a::zero) SPMCQueue \<Rightarrow> bool \<Rightarrow> 'a list \<Rightarrow> bool
    \<Rightarrow> ('a SPMCQueue \<times> int \<times> int \<times> 'a list) option" where
  "spmc_get r exact dst fixed =
     (case spmcReserveConsumer r (of_nat (length dst)) fixed exact of
        None \<Rightarrow> None
      | Some (r1, start, count, remaining) \<Rightarrow>
          if count = 0 then Some (r1, 0, int (unat remaining), dst)
          else (let (r2, out) = spmcReadConsumer r1 start (take (unat count) dst)
                in map_option (\<lambda>r3. (r3, int (unat count), int (unat remaining), out @ drop (unat count) dst))
                     (spmcReleaseConsumer r2 start count)))"

definition spmc_reserved :: "'a SPMCQueue \<Rightarrow> u32 \<Rightarrow> u32 \<Rightarrow> 'a SPMCQueue" where
  "spmc_reserved r cached count =
     (let reservation = spmc_consumerReservation r; relaxed = smc_relaxed (spmc_consumerConfig r)
      in r\<lparr>spmc_consumerReservation := \<lparr>
           smr_headRTS = (if relaxed \<and> count \<noteq> 0
                          then pack (spmcConsumerHeadPosition r + count) (unpackCnt (smr_headRTS reservation) + 1)
                          else smr_headRTS reservation),
           smr_head = (if \<not> relaxed \<and> count \<noteq> 0 then smr_head reservation + count else smr_head reservation),
           smr_cachedProducer = cached\<rparr>\<rparr>)"

lemma spmc_reserved_simps [simp]:
  "spmc_entries (spmc_reserved r cp n) = spmc_entries r"
  "spmc_producer (spmc_reserved r cp n) = spmc_producer r"
  "spmc_producerPublished (spmc_reserved r cp n) = spmc_producerPublished r"
  "spmc_consumerConfig (spmc_reserved r cp n) = spmc_consumerConfig r"
  "spmc_consumerPublication (spmc_reserved r cp n) = spmc_consumerPublication r"
  "smr_cachedProducer (spmc_consumerReservation (spmc_reserved r cp n)) = cp"
  by (simp_all add: spmc_reserved_def Let_def)

lemma spmc_reserved_RTS: "smc_relaxed (spmc_consumerConfig r) \<Longrightarrow>
    smr_headRTS (spmc_consumerReservation (spmc_reserved r cp n))
      = (if n = 0 then smr_headRTS (spmc_consumerReservation r)
         else pack (spmcConsumerHeadPosition r + n) (unpackCnt (smr_headRTS (spmc_consumerReservation r)) + 1))"
  by (simp add: spmc_reserved_def Let_def)

lemma spmc_reserved_head [simp]: "spmcConsumerHeadPosition (spmc_reserved r cp n) = spmcConsumerHeadPosition r + n"
  by (simp add: spmc_reserved_def Let_def spmcConsumerHeadPosition_def)

lemma spmc_attempt:
  fixes r :: "'a SPMCQueue" and fixed :: bool
  assumes "SPMC_inv r" "unat len \<le> length (spmc_entries r)"
    and "serial_avail (smp_mask (spmc_producer r) + 1) exact len (smr_cachedProducer (spmc_consumerReservation r))
      (spmcConsumerHeadPosition r) (smp_cursor (spmc_producer r)) = (cp', avail)"
    and "\<not> smp_mask (spmc_producer r) + 1 < avail"
  defines "count \<equiv> (if fixed \<and> avail < len then 0 else min len avail)"
  shows "spmcReserveConsumer r len fixed exact
    = Some (spmc_reserved r cp' count, spmcConsumerHeadPosition r, count, avail - count)"
proof -
  let ?head = "if smc_relaxed (spmc_consumerConfig r) then smr_headRTS (spmc_consumerReservation r)
    else ucast (smr_head (spmc_consumerReservation r))"
  have pos: "(if smc_relaxed (spmc_consumerConfig r) then unpackPos ?head else ucast ?head) = spmcConsumerHeadPosition r"
    by (simp add: spmcConsumerHeadPosition_def)
  have mk: "smc_mask (spmc_consumerConfig r) = smp_mask (spmc_producer r)" using assms(1) by (simp add: SPMC_inv_def)
  have seen: "multi_producer (smp_mask (spmc_producer r) + 1) exact len
      (smr_cachedProducer (spmc_consumerReservation r)) (spmcConsumerHeadPosition r) (spmc_producerPublished r) = cp'"
    "cp' - spmcConsumerHeadPosition r = avail"
    using multi_producer_eq [OF SPMC_ring [OF assms(1)] assms(2), of exact] assms(1,3)
    by (auto simp: SPMC_inv_def Let_def)
  have "spmcAttemptConsumerWord r ?head len fixed exact
      = (spmc_reserved r cp' count, spmcConsumerHeadPosition r, count, avail - count, False)"
    unfolding spmcAttemptConsumerWord_def Let_def pos mk seen
    using assms(4) by (auto simp: spmc_reserved_def Let_def count_def spmcConsumerHeadPosition_def)
  moreover have "waitHeadTailDistance (\<lambda>_. smr_headRTS (spmc_consumerReservation r))
      (\<lambda>_. smb_tailRTS (spmc_consumerPublication r)) (smc_htdMax (spmc_consumerConfig r)) spins
      = Some (smr_headRTS (spmc_consumerReservation r))" if "smc_relaxed (spmc_consumerConfig r)" for spins
    using assms(1) that by (intro waitDistance_now) (simp add: SPMC_inv_def)
  ultimately show ?thesis
    by (subst spmcReserveConsumer.simps) auto
qed

lemma spmc_release:
  assumes "SPMC_inv r" "n \<noteq> 0" "unat n \<le> length (spmc_entries r)"
  shows "\<exists>publication. spmcReleaseConsumer ((spmc_reserved r cp' n)\<lparr>spmc_entries := es\<rparr>) (spmcConsumerHeadPosition r) n
    = Some ((spmc_reserved r cp' n)\<lparr>spmc_entries := es, spmc_consumerPublication := publication\<rparr>)
    \<and> smb_published publication = spmcConsumerHeadPosition r + n
    \<and> (smc_relaxed (spmc_consumerConfig r) \<longrightarrow> smb_tailRTS publication
         = pack (spmcConsumerHeadPosition r + n) (unpackCnt (smr_headRTS (spmc_consumerReservation r)) + 1))"
proof (cases "smc_relaxed (spmc_consumerConfig r)")
  case False
  with assms(1) show ?thesis
    by (auto simp: spmcReleaseConsumer_def Let_def SPMC_inv_def waitForTail_now)
next
  case True
  let ?w = "smr_headRTS (spmc_consumerReservation r)"
  have pos: "spmcConsumerHeadPosition r = unpackPos ?w" using True by (simp add: spmcConsumerHeadPosition_def)
  have w: "smb_tailRTS (spmc_consumerPublication r) = pack (spmcConsumerHeadPosition r) (unpackCnt ?w)"
    "smb_published (spmc_consumerPublication r) = spmcConsumerHeadPosition r"
    using assms(1) True pos by (simp_all add: SPMC_inv_def)
  have "sint n = int (unat n)" "unat n > 0"
    using assms(2,3) geom_le [OF ring_geom [OF SPMC_ring [OF assms(1)]]]
    by (auto intro!: sint_small simp: unat_gt_0)
  with True assms(2) w show ?thesis
    by (auto simp: spmcReleaseConsumer_def spmc_reserved_RTS Let_def publishRelaxed_now raiseMirror_now nextTail_last)
qed

lemma spmc_read:
  assumes "geom (spmc_entries r) (smc_mask (spmc_consumerConfig r))" "length dst = unat n"
  shows "spmcReadConsumer r start dst =
    (r\<lparr>spmc_entries := (if smc_clearOnDequeue (spmc_consumerConfig r)
       then clear_slots (spmc_entries r) (smc_mask (spmc_consumerConfig r)) start n else spmc_entries r)\<rparr>,
     copy_out (spmc_entries r) (smc_mask (spmc_consumerConfig r)) start n)"
proof (cases "length dst = 1")
  case True
  then have "n = 1" using assms(2) word_unat_eq_iff [of n 1] by simp
  with True show ?thesis
    using clear_one [OF assms(1), of start] copy_out_one [OF assms(1)] by (simp add: spmcReadConsumer_def Let_def)
qed (use assms(2) in \<open>simp add: spmcReadConsumer_def Let_def\<close>)

lemma spmc_get_ok:
  fixes fixed :: bool and r :: "('a::zero) SPMCQueue"
  assumes "SPMC_inv r" "length dst \<le> qc_cap (SPMC_conf r)"
  defines "D \<equiv> length (SPMC_contents r)"
  defines "m \<equiv> admitted fixed (length dst) D"
  shows "\<exists>r' rem. spmc_get r exact dst fixed = Some (r', int m, rem, take m (SPMC_contents r) @ drop m dst)
    \<and> SPMC_inv r' \<and> SPMC_conf r' = SPMC_conf r \<and> SPMC_contents r' = drop m (SPMC_contents r)
    \<and> reports (exact \<or> dst = [] \<or> m < length dst) rem (D - m)"
proof -
  let ?c = "spmcConsumerHeadPosition r" and ?m = "smp_mask (spmc_producer r)"
  note g = ring_geom [OF SPMC_ring [OF assms(1)]]
  have len: "length dst \<le> length (spmc_entries r)" using assms(2) by (simp add: SPMC_conf_def)
  have D: "D = unat (smp_cursor (spmc_producer r) - ?c)" by (simp add: D_def SPMC_contents_def)
  have mk: "smc_mask (spmc_consumerConfig r) = ?m" using assms(1) by (simp add: SPMC_inv_def)
  have lw: "unat (of_nat (length dst) :: u32) \<le> length (spmc_entries r)" using len_word [OF len g] len by simp
  show ?thesis
  proof (rule get_admits [OF SPMC_ring [OF assms(1)] len, of exact], goal_cases)
    case (1 cp' avail n)
    note a = 1 [folded D]
    have m: "m = (if fixed \<and> D < length dst then 0 else unat n)" using a(5) by (simp add: m_def admitted_def)
    note res = spmc_attempt [OF assms(1) lw a(1,2), of fixed]
    show ?case
    proof (cases "fixed \<and> D < length dst \<or> n = 0")
      case True
      then have m0: "m = 0" using m by auto
      moreover have "(if fixed \<and> avail < of_nat (length dst) then 0 else min (of_nat (length dst)) avail) = 0"
        using True a(3,4) by auto
      ultimately have get: "spmc_get r exact dst fixed = Some (spmc_reserved r cp' 0, int m, int (unat avail), dst)"
        using res by (simp add: spmc_get_def)
      have "SPMC_inv (spmc_reserved r cp' 0)" using assms(1) a(6) by (simp add: SPMC_inv_def spmc_reserved_RTS)
      moreover have "reports (exact \<or> dst = [] \<or> m < length dst) (int (unat avail)) (D - m)"
        using a(5,12,14) m0 True by (auto simp: reports_def)
      ultimately show ?thesis using get m0 by (simp add: SPMC_conf_def SPMC_contents_def)
    next
      case False
      then have n: "m = unat n" "\<not> (fixed \<and> avail < of_nat (length dst))" "n \<noteq> 0" "unat n \<le> length (spmc_entries r)"
        "unat n \<le> length dst"
        using m a(4,5) len by auto
      let ?es = "if smc_clearOnDequeue (spmc_consumerConfig r) then clear_slots (spmc_entries r) ?m ?c n
        else spmc_entries r"
      obtain pb where pb: "spmcReleaseConsumer ((spmc_reserved r cp' n)\<lparr>spmc_entries := ?es\<rparr>) ?c n
          = Some ((spmc_reserved r cp' n)\<lparr>spmc_entries := ?es, spmc_consumerPublication := pb\<rparr>)"
        "smb_published pb = ?c + n"
        "smc_relaxed (spmc_consumerConfig r) \<Longrightarrow>
           smb_tailRTS pb = pack (?c + n) (unpackCnt (smr_headRTS (spmc_consumerReservation r)) + 1)"
        using spmc_release [OF assms(1) n(3,4)] by blast
      have rd: "spmcReadConsumer (spmc_reserved r cp' n) ?c (take (unat n) dst)
          = ((spmc_reserved r cp' n)\<lparr>spmc_entries := ?es\<rparr>, take (unat n) (SPMC_contents r))"
        using spmc_read [of "spmc_reserved r cp' n" "take (unat n) dst" n] g n(5) a(11)
        by (simp add: mk SPMC_contents_def)
      have get: "spmc_get r exact dst fixed = Some ((spmc_reserved r cp' n)\<lparr>spmc_entries := ?es,
          spmc_consumerPublication := pb\<rparr>, int (unat n), int (unat (avail - n)),
          take (unat n) (SPMC_contents r) @ drop (unat n) dst)"
        using res n(2,3) a(3) rd pb(1) by (auto simp: spmc_get_def)
      moreover have "reports (exact \<or> dst = [] \<or> m < length dst) (int (unat (avail - n))) (D - m)"
        using a(12-14) n(1) by (auto simp: reports_def)
      moreover have "ring_inv ?es ?m (smp_cursor (spmc_producer r)) (smp_cachedConsumer (spmc_producer r)) (?c + n) cp'"
        "ring_contents ?es (smp_cursor (spmc_producer r)) (?c + n) = drop (unat n) (SPMC_contents r)" "length ?es = length (spmc_entries r)"
        using a(7-10) by (simp_all add: SPMC_contents_def)
      ultimately show ?thesis
        using n(1,3) pb(2,3) assms(1) by (simp add: SPMC_inv_def SPMC_conf_def SPMC_contents_def spmc_reserved_RTS)
    qed
  qed
qed

interpretation spmc_batches: fifo_batches SPMC_inv SPMC_conf SPMC_contents
  "\<lambda>r items fixed. Some (spmcEnqueueBatch r items fixed)"
  "\<lambda>r dst fixed. spmc_get r (qc_exact (SPMC_conf r)) dst fixed"
proof unfold_locales
  fix r :: "'a SPMCQueue" assume "SPMC_inv r"
  then show "length (SPMC_contents r) \<le> qc_cap (SPMC_conf r)" by (rule SPMC_bounded)
next
  fix r :: "'a SPMCQueue" assume "SPMC_inv r"
  then show "conf_ok (SPMC_conf r)" by (simp add: SPMC_inv_def SPMC_conf_def conf_ok_def)
qed (use spmc_put_ok spmc_get_ok in auto)

section \<open>The exported methods\<close>

lemma SPMC_cap: "SPMC_inv r \<Longrightarrow> unat (smp_mask (spmc_producer r) + 1) = qc_cap (SPMC_conf r)"
  using geom_cap [OF ring_geom [OF SPMC_ring]] by (simp add: SPMC_conf_def)

lemma SPMC_fresh:
  assumes "SPMC_inv r"
  shows "unat (min (smp_mask (spmc_producer r) + 1 + spmcConsumerHeadPosition r - smp_cursor (spmc_producer r))
      (smp_mask (spmc_producer r) + 1)) = qc_cap (SPMC_conf r) - length (SPMC_contents r)"
    and "unat (min (smp_cursor (spmc_producer r) - spmcConsumerHeadPosition r) (smp_mask (spmc_producer r) + 1))
      = length (SPMC_contents r)"
  using cap_minus [OF ring_geom ring_count_le, OF SPMC_ring SPMC_ring, OF assms assms] SPMC_cap [OF assms]
    ring_count_le [OF SPMC_ring [OF assms]] assms
  by (auto simp: SPMC_inv_def SPMC_conf_def SPMC_contents_def min_def word_le_nat_alt)

lemma SPMC_Enqueue_ok:
  assumes "SPMC_inv r"
  shows "\<exists>r' e. SPMC_Enqueue r x = (r', e) \<and> SPMC_inv r' \<and> SPMC_conf r' = SPMC_conf r
    \<and> SPMC_contents r' = fifo_next (SPMC_conf r) (SPMC_contents r) (Enqueue_op x)
    \<and> fifo_result (SPMC_conf r) (SPMC_contents r) (Enqueue_op x) (Enqueued e)"
proof -
  let ?p = "spmc_producer r" and ?c = "spmcConsumerHeadPosition r"
  note g = ring_geom [OF SPMC_ring [OF assms]]
  have len: "length [x] \<le> length (spmc_entries r)" using geom_pos [OF g] by (simp add: Suc_le_eq)
  have pub: "smb_published (spmc_consumerPublication r) = ?c" using assms by (simp add: SPMC_inv_def)
  show ?thesis
  proof (rule put_admits [OF SPMC_ring [OF assms] len, of False], goal_cases)
    case (1 cc' free n)
    have f: "free = 0 \<longleftrightarrow> length (spmc_entries r) \<le> unat (smp_cursor ?p - ?c)"
      using 1(4) by (auto simp: word_less_nat_alt unat_eq_zero)
    have n: "n = (if free = 0 then 0 else 1)" using 1(3) by (simp add: min_one)
    show ?case
      using 1 assms copy_in_one [OF g, of "smp_cursor ?p" x] f n
      by (cases "free = 0")
        (auto simp: SPMC_Enqueue_def serial_free1_eq Let_def pub fifo_result_def SPMC_inv_def SPMC_conf_def
          SPMC_contents_def spmc_store_cachedConsumer_def spmc_push_def)
  qed
qed

lemma SPMC_EnqueueBulk_ok:
  assumes "SPMC_inv r"
  shows "\<exists>r' free e. SPMC_EnqueueBulk r items = (r', free, e) \<and> SPMC_inv r' \<and> SPMC_conf r' = SPMC_conf r
    \<and> SPMC_contents r' = fifo_next (SPMC_conf r) (SPMC_contents r) (EnqueueBulk_op items)
    \<and> fifo_result (SPMC_conf r) (SPMC_contents r) (EnqueueBulk_op items) (BulkIn free e)"
proof (cases "length items > qc_maxE (SPMC_conf r)")
  case True
  then have "SPMC_EnqueueBulk r items = (r, int (qc_cap (SPMC_conf r) - length (SPMC_contents r)),
      Some (length_error (SPMC_conf r) (length items)))"
    using SPMC_fresh(1) [OF assms] SPMC_cap [OF assms] assms
    by (simp add: SPMC_EnqueueBulk_def Let_def BatchLengthError_def length_error_def SPMC_inv_def SPMC_conf_def)
  with True show ?thesis using assms by (simp add: fifo_result_def reports_def)
next
  case False
  then have "\<not> (length items > unat (smp_mask (spmc_producer r) + 1) \<or> length items > unat (smp_maxBatch (spmc_producer r)))"
    using assms SPMC_cap [OF assms] by (auto simp: SPMC_inv_def SPMC_conf_def)
  with spmc_batches.bulk_in [OF assms, of items] False show ?thesis by (auto simp: SPMC_EnqueueBulk_def)
qed

lemma SPMC_EnqueueBurst_ok:
  assumes "SPMC_inv r"
  shows "\<exists>r' n free. SPMC_EnqueueBurst r items = (r', n, free) \<and> SPMC_inv r' \<and> SPMC_conf r' = SPMC_conf r
    \<and> SPMC_contents r' = fifo_next (SPMC_conf r) (SPMC_contents r) (EnqueueBurst_op items)
    \<and> fifo_result (SPMC_conf r) (SPMC_contents r) (EnqueueBurst_op items) (BurstIn n free)"
  using spmc_batches.burst_in [OF assms, of items] by (auto simp: SPMC_EnqueueBurst_def SPMC_conf_def Let_def)

lemma SPMC_Dequeue_ok:
  fixes r :: "('a::zero) SPMCQueue"
  assumes "SPMC_inv r"
  shows "\<exists>r' v e. SPMC_Dequeue r = Some (r', v, e) \<and> SPMC_inv r' \<and> SPMC_conf r' = SPMC_conf r
    \<and> SPMC_contents r' = fifo_next (SPMC_conf r) (SPMC_contents r) Dequeue_op
    \<and> fifo_result (SPMC_conf r) (SPMC_contents r) Dequeue_op (Dequeued v e)"
proof -
  let ?m = "admitted True 1 (length (SPMC_contents r))" and ?out = "\<lambda>m. take m (SPMC_contents r) @ drop m [0]"
  have len: "length [0 :: 'a] \<le> qc_cap (SPMC_conf r)"
    using geom_pos [OF ring_geom [OF SPMC_ring [OF assms]]] by (simp add: SPMC_conf_def Suc_le_eq)
  obtain r' rem where p: "spmc_get r False [0] True = Some (r', int ?m, rem, ?out ?m)" "SPMC_inv r'" "SPMC_conf r' = SPMC_conf r"
    "SPMC_contents r' = drop ?m (SPMC_contents r)"
    using spmc_get_ok [OF assms len, of False True] by auto
  obtain r1 start count rest where res: "spmcReserveConsumer r 1 True False = Some (r1, start, count, rest)"
    using p(1) by (auto simp: spmc_get_def split: option.splits)
  have "SPMC_Dequeue r = Some (r', hd (?out ?m), if ?m = 0 then Some (Sentinel ErrEmpty) else None)"
  proof (cases "count = 0")
    case True
    with p(1) res show ?thesis by (simp add: spmc_get_def SPMC_Dequeue_def)
  next
    case False
    then have "0 < unat count" by (simp add: unat_gt_0)
    moreover have "unat count = ?m" using False p(1) res by (auto simp: spmc_get_def Let_def split: prod.splits)
    ultimately have "unat count = 1" "?m = 1" by (auto simp: admitted_def min_def Suc_le_eq split: if_splits)
    with False p(1) res show ?thesis
      by (cases "SPMC_contents r")
        (auto simp: spmc_get_def SPMC_Dequeue_def spmcReadConsumer_def Let_def split: option.splits if_splits)
  qed
  moreover have "hd (?out ?m) = (if ?m = 0 then 0 else hd (SPMC_contents r))"
    by (cases "SPMC_contents r") (auto simp: admitted_def)
  ultimately show ?thesis
    using p(2-4) dequeue_admitted [of ?m "SPMC_contents r"] by simp
qed

lemma SPMC_DequeueBulk_ok:
  fixes r :: "('a::zero) SPMCQueue"
  assumes "SPMC_inv r"
  shows "\<exists>r' avail e out. SPMC_DequeueBulk r dst = Some (r', avail, e, out) \<and> SPMC_inv r' \<and> SPMC_conf r' = SPMC_conf r
    \<and> SPMC_contents r' = fifo_next (SPMC_conf r) (SPMC_contents r) (DequeueBulk_op dst)
    \<and> fifo_result (SPMC_conf r) (SPMC_contents r) (DequeueBulk_op dst) (BulkOut avail e out)"
proof (cases "length dst > qc_maxD (SPMC_conf r)")
  case True
  then have "SPMC_DequeueBulk r dst = Some (r, int (length (SPMC_contents r)),
      Some (length_error (SPMC_conf r) (length dst)), dst)"
    using SPMC_fresh(2) [OF assms] SPMC_cap [OF assms] assms
    by (simp add: SPMC_DequeueBulk_def Let_def BatchLengthError_def length_error_def SPMC_inv_def SPMC_conf_def)
  with True show ?thesis using assms by (simp add: fifo_result_def reports_def)
next
  case False
  then have short: "\<not> (length dst > unat (smc_mask (spmc_consumerConfig r) + 1)
      \<or> length dst > unat (smc_maxBatch (spmc_consumerConfig r)))"
    using assms SPMC_cap [OF assms] by (auto simp: SPMC_inv_def SPMC_conf_def)
  have ex: "qc_exact (SPMC_conf r) = smc_exactBatchCounts (spmc_consumerConfig r)"
    using assms by (simp add: SPMC_inv_def SPMC_conf_def)
  obtain r' moved rem out where p: "spmc_get r (qc_exact (SPMC_conf r)) dst True = Some (r', moved, rem, out)"
    and k: "SPMC_inv r'" "SPMC_conf r' = SPMC_conf r"
      "SPMC_contents r' = fifo_next (SPMC_conf r) (SPMC_contents r) (DequeueBulk_op dst)"
    and z: "moved = 0 \<longleftrightarrow> dst = [] \<or> moved \<noteq> int (length dst)"
    and f: "fifo_result (SPMC_conf r) (SPMC_contents r) (DequeueBulk_op dst)
      (BulkOut rem (if moved \<noteq> int (length dst) then Some (Sentinel ErrEmpty) else None) out)"
    using spmc_batches.bulk_out [OF assms, of dst] False by auto
  obtain r1 start count rest where res: "spmcReserveConsumer r (of_nat (length dst)) True
      (smc_exactBatchCounts (spmc_consumerConfig r)) = Some (r1, start, count, rest)"
    using p by (auto simp: spmc_get_def ex split: option.splits)
  have "SPMC_DequeueBulk r dst = Some (r', rem, if moved \<noteq> int (length dst) then Some (Sentinel ErrEmpty) else None, out)"
  proof (cases "count = 0")
    case True
    have "r' = r1" "moved = 0" "rem = int (unat rest)" "out = dst"
      using True p res by (simp_all add: spmc_get_def ex)
    with True res z short show ?thesis by (simp add: SPMC_DequeueBulk_def Let_def)
  next
    case False
    then have "moved = int (unat count)" "moved \<noteq> 0"
      using p res by (auto simp: spmc_get_def ex Let_def unat_eq_zero split: prod.splits)
    with z have "unat count = length dst" "moved = int (length dst)" by auto
    moreover obtain r2 out' where "spmcReadConsumer r1 start dst = (r2, out')" by (cases "spmcReadConsumer r1 start dst")
    ultimately show ?thesis
      using False p res by (auto simp: spmc_get_def SPMC_DequeueBulk_def ex if_not_P [OF short] Let_def)
  qed
  with k f show ?thesis by simp
qed

lemma SPMC_DequeueBurst_ok:
  fixes r :: "('a::zero) SPMCQueue"
  assumes "SPMC_inv r"
  shows "\<exists>r' n avail out. SPMC_DequeueBurst r dst = Some (r', n, avail, out) \<and> SPMC_inv r' \<and> SPMC_conf r' = SPMC_conf r
    \<and> SPMC_contents r' = fifo_next (SPMC_conf r) (SPMC_contents r) (DequeueBurst_op dst)
    \<and> fifo_result (SPMC_conf r) (SPMC_contents r) (DequeueBurst_op dst) (BurstOut n avail out)"
proof -
  let ?len = "min (length dst) (qc_maxD (SPMC_conf r))"
  have ex: "qc_exact (SPMC_conf r) = smc_exactBatchCounts (spmc_consumerConfig r)"
    "unat (smc_maxBatch (spmc_consumerConfig r)) = qc_maxD (SPMC_conf r)"
    using assms by (simp_all add: SPMC_inv_def SPMC_conf_def)
  obtain r' moved rem out where p: "spmc_get r (qc_exact (SPMC_conf r)) (take ?len dst) False = Some (r', moved, rem, out)"
    and k: "SPMC_inv r'" "SPMC_conf r' = SPMC_conf r"
      "SPMC_contents r' = fifo_next (SPMC_conf r) (SPMC_contents r) (DequeueBurst_op dst)"
    and f: "fifo_result (SPMC_conf r) (SPMC_contents r) (DequeueBurst_op dst) (BurstOut moved rem (out @ drop ?len dst))"
    using spmc_batches.burst_out [OF assms, of dst] by blast
  have le: "moved \<le> int ?len" using f by (auto simp: fifo_result_def burst_out_def)
  obtain r1 start count rest where res: "spmcReserveConsumer r (of_nat ?len) False
      (smc_exactBatchCounts (spmc_consumerConfig r)) = Some (r1, start, count, rest)"
    using p by (auto simp: spmc_get_def ex split: option.splits)
  have "SPMC_DequeueBurst r dst = Some (r', moved, rem, out @ drop ?len dst)"
  proof (cases "count = 0")
    case True
    with p res show ?thesis by (auto simp: spmc_get_def SPMC_DequeueBurst_def ex)
  next
    case False
    then have "moved = int (unat count)" using p res by (auto simp: spmc_get_def ex Let_def split: prod.splits)
    with le have "unat count \<le> ?len" by simp
    then have "take (unat count) (take ?len dst) = take (unat count) dst"
      "drop (unat count) (take ?len dst) @ drop ?len dst = drop (unat count) dst"
      using append_take_drop_id [of ?len dst] drop_append [of "unat count" "take ?len dst" "drop ?len dst"] by auto
    moreover obtain r2 out' where "spmcReadConsumer r1 start (take (unat count) dst) = (r2, out')"
      by (cases "spmcReadConsumer r1 start (take (unat count) dst)")
    ultimately show ?thesis using False p res by (auto simp: spmc_get_def SPMC_DequeueBurst_def ex)
  qed
  with k f show ?thesis by simp
qed

section \<open>The queue is a bounded FIFO\<close>

fun SPMC_step :: "('a::zero) SPMCQueue \<Rightarrow> 'a qop \<Rightarrow> ('a SPMCQueue \<times> 'a qres) option" where
  "SPMC_step r (Enqueue_op x) = (case SPMC_Enqueue r x of (r', e) \<Rightarrow> Some (r', Enqueued e))"
| "SPMC_step r Dequeue_op = map_option (\<lambda>(r', v, e). (r', Dequeued v e)) (SPMC_Dequeue r)"
| "SPMC_step r (EnqueueBulk_op xs) = (case SPMC_EnqueueBulk r xs of (r', free, e) \<Rightarrow> Some (r', BulkIn free e))"
| "SPMC_step r (EnqueueBurst_op xs) = (case SPMC_EnqueueBurst r xs of (r', n, free) \<Rightarrow> Some (r', BurstIn n free))"
| "SPMC_step r (DequeueBulk_op dst) = map_option (\<lambda>(r', avail, e, out). (r', BulkOut avail e out)) (SPMC_DequeueBulk r dst)"
| "SPMC_step r (DequeueBurst_op dst) = map_option (\<lambda>(r', n, avail, out). (r', BurstOut n avail out)) (SPMC_DequeueBurst r dst)"
| "SPMC_step r Count_op = Some (r, Counted (SPMC_Count r))"
| "SPMC_step r Reset_op = Some (SPMC_Reset r, ResetDone)"

lemma SPMC_Count_ok: "SPMC_inv r \<Longrightarrow> SPMC_Count r = int (length (SPMC_contents r))"
  using SPMC_fresh(2) [of r] by (simp add: SPMC_Count_def Let_def SPMC_inv_def)

lemma SPMC_Reset_ok:
  assumes "SPMC_inv r"
  shows "SPMC_inv (SPMC_Reset r) \<and> SPMC_conf (SPMC_Reset r) = SPMC_conf r \<and> SPMC_contents (SPMC_Reset r) = []"
  using assms ring_new [OF geom_length [OF ring_geom [OF SPMC_ring [OF assms]]],
    of "replicate (length (spmc_entries r)) 0" 0]
  by (simp add: SPMC_Reset_def SPMC_inv_def SPMC_conf_def SPMC_contents_def spmcConsumerHeadPosition_def ring_contents_def)

interpretation spmc: fifo_queue SPMC_inv SPMC_conf SPMC_contents SPMC_step
proof unfold_locales
  fix r :: "'a SPMCQueue" and opn
  assume r: "SPMC_inv r"
  show "\<exists>r' res. SPMC_step r opn = Some (r', res) \<and> SPMC_inv r' \<and> SPMC_conf r' = SPMC_conf r
      \<and> SPMC_contents r' = fifo_next (SPMC_conf r) (SPMC_contents r) opn
      \<and> fifo_result (SPMC_conf r) (SPMC_contents r) opn res"
  proof (cases opn)
    case (Enqueue_op x)
    then show ?thesis using SPMC_Enqueue_ok [OF r, of x] by auto
  next
    case Dequeue_op
    then show ?thesis using SPMC_Dequeue_ok [OF r] by auto
  next
    case (EnqueueBulk_op xs)
    then show ?thesis using SPMC_EnqueueBulk_ok [OF r, of xs] by auto
  next
    case (EnqueueBurst_op xs)
    then show ?thesis using SPMC_EnqueueBurst_ok [OF r, of xs] by auto
  next
    case (DequeueBulk_op dst)
    then show ?thesis using SPMC_DequeueBulk_ok [OF r, of dst] by auto
  next
    case (DequeueBurst_op dst)
    then show ?thesis using SPMC_DequeueBurst_ok [OF r, of dst] by auto
  next
    case Count_op
    then show ?thesis using r by (simp add: SPMC_Count_ok fifo_result_def)
  next
    case Reset_op
    then show ?thesis using SPMC_Reset_ok [OF r] by (simp add: fifo_result_def)
  qed
qed (rule SPMC_bounded)

lemma NewSPMCQueue_ok:
  fixes r :: "('a::zero) SPMCQueue"
  assumes "NewSPMCQueue count options = Inr r"
  shows "SPMC_inv r \<and> SPMC_contents r = [] \<and> int (qc_cap (SPMC_conf r)) = count"
proof -
  obtain cfg where cfg: "resolveConfig count modeSingle modeMulti True options = Inr cfg"
    using assms by (auto simp: NewSPMCQueue_def split: sum.splits)
  then obtain k where k: "k \<le> 30" "count = 2 ^ k" and ok: "config_ok count modeSingle modeMulti cfg"
    by (auto simp: resolveConfig_Inr)
  have b: "unat (of_int (maxEnqueueBatch cfg) :: u32) \<le> 2 ^ k" "unat (of_int (maxDequeueBatch cfg) :: u32) \<le> 2 ^ k"
    using ok k unat_of_batch [of "maxEnqueueBatch cfg" k] unat_of_batch [of "maxDequeueBatch cfg" k]
    by (simp_all add: config_ok_def nat_le_iff)
  show ?thesis
    using assms cfg b ring_new [OF geom_new [OF k(1), of "0 :: 'a"], of 0]
    by (auto simp: NewSPMCQueue_def SPMC_inv_def SPMC_conf_def SPMC_contents_def spmcConsumerHeadPosition_def
        ring_contents_def k(2) nat_power_eq)
qed

section \<open>Properties\<close>

text \<open>
  C4. A new many-consumer queue, with ordered or relaxed consumers and any other accepted options,
  behaves between calls as a bounded FIFO: no call waits for a reservation that nobody holds, and
  results, errors, counts and order are those of the FIFO.
\<close>

theorem SPMC_is_bounded_fifo:
  fixes r :: "('a::zero) SPMCQueue"
  assumes "NewSPMCQueue count options = Inr r"
  shows "\<exists>r' rs. queue_run SPMC_step r ops = Some (r', rs)
    \<and> results_allowed (SPMC_conf r) [] ops rs
    \<and> SPMC_contents r' = fold (\<lambda>opn xs. fifo_next (SPMC_conf r) xs opn) ops []
    \<and> (Reset_op \<notin> set ops \<longrightarrow> all_enqueued ops rs = all_dequeued rs @ SPMC_contents r')
    \<and> SPMC_Count r' = int (length (SPMC_contents r')) \<and> SPMC_Capacity r' = count
    \<and> (SPMC_Full r' \<longleftrightarrow> SPMC_Free r' = 0) \<and> (SPMC_Empty r' \<longleftrightarrow> SPMC_contents r' = [])"
proof -
  have new: "SPMC_inv r" "SPMC_contents r = []" "int (qc_cap (SPMC_conf r)) = count"
    using NewSPMCQueue_ok [OF assms] by simp_all
  obtain r' rs where run: "queue_run SPMC_step r ops = Some (r', rs)" "SPMC_inv r'" "SPMC_conf r' = SPMC_conf r"
    "SPMC_contents r' = fold (\<lambda>opn xs. fifo_next (SPMC_conf r) xs opn) ops []"
    "results_allowed (SPMC_conf r) [] ops rs"
    using spmc.run_total [OF new(1), of ops] new(2) by auto
  moreover have "SPMC_Capacity r' = count"
    using SPMC_cap [OF run(2)] run(3) new(3) by (simp add: SPMC_Capacity_def)
  moreover have "Reset_op \<notin> set ops \<longrightarrow> all_enqueued ops rs = all_dequeued rs @ SPMC_contents r'"
    using spmc.run_stream [OF new(1) _ run(1)] new(2) by simp
  ultimately show ?thesis
    using SPMC_Count_ok [OF run(2)] by (auto simp: SPMC_Full_def SPMC_Free_def SPMC_Empty_def)
qed

theorem SPMC_is_bounded_fifo_witness:
  "\<exists>(r :: int SPMCQueue) r' rs. NewSPMCQueue 8 [WithRelaxedMultiConsDequeue, WithMaxBatch 2] = Inr r
     \<and> queue_run SPMC_step r [EnqueueBulk_op [1, 2], EnqueueBurst_op [3, 4, 5], Dequeue_op, EnqueueBulk_op [6, 7, 8]]
       = Some (r', rs) \<and> SPMC_contents r' = [2, 3, 4] \<and> SPMC_Capacity r' = 8"
proof -
  let ?o = "[WithRelaxedMultiConsDequeue, WithMaxBatch 2]"
  have "resolveConfig 8 modeSingle modeMulti True ?o
      = Inr (fold (\<lambda>option cfg. option cfg) ?o (defaultConfig 8 modeSingle modeMulti))"
    unfolding resolveConfig_Inr
    by (auto simp: config_ok_def side_ok_def defaultConfig_def defaultSpinsBeforeYield_def
        WithRelaxedMultiConsDequeue_def WithMaxBatch_def intro!: exI [of _ 3])
  then obtain r :: "int SPMCQueue" where r: "NewSPMCQueue 8 ?o = Inr r" "qc_cap (SPMC_conf r) = 8"
    "qc_maxE (SPMC_conf r) = 2"
    by (simp add: NewSPMCQueue_def SPMC_conf_def defaultConfig_def WithRelaxedMultiConsDequeue_def WithMaxBatch_def)
  from SPMC_is_bounded_fifo [OF r(1),
      of "[EnqueueBulk_op [1, 2], EnqueueBurst_op [3, 4, 5], Dequeue_op, EnqueueBulk_op [6, 7, 8]]"]
  show ?thesis using r by (auto simp: burst_in_def simp del: queue_run.simps)
qed

end
