(* ===== verification/DpdkMPMC.thy ===== *)
theory DpdkMPMC
  imports DpdkOptions DpdkRing
begin

text \<open>
  The queue with many producers and many consumers, \<^verbatim>\<open>ring/dpdk/mpmc.go\<close>, with ordered and relaxed
  publication chosen on each side. A method is the whole call run without interference; its loops are
  partial functions, so that a call that would wait forever is \<open>None\<close>.
\<close>

section \<open>Definitions\<close>

record mpmcConfig =
  mmc_mask :: u32
  mmc_maxEnqueueBatch :: u32
  mmc_maxDequeueBatch :: u32
  mmc_prodHTDMax :: u32
  mmc_consHTDMax :: u32
  mmc_spinsBeforeYield :: u32
  mmc_producerRelaxed :: bool
  mmc_consumerRelaxed :: bool
  mmc_clearOnDequeue :: bool
  mmc_exactBatchCounts :: bool

record mpmcProducerReservation =
  mmpr_headRTS :: u64
  mmpr_head :: u32
  mmpr_cachedConsumer :: u32

record mpmcProducerPublication =
  mmpb_tailRTS :: u64
  mmpb_published :: u32

record mpmcConsumerReservation =
  mmcr_headRTS :: u64
  mmcr_head :: u32
  mmcr_cachedProducer :: u32

record mpmcConsumerPublication =
  mmcb_tailRTS :: u64
  mmcb_published :: u32

text \<open>The slice \<^verbatim>\<open>entries\<close> of the configuration, whose elements change, is a field of the queue.\<close>

record 'a MPMCQueue =
  mpmc_entries :: "'a list"
  mpmc_config :: mpmcConfig
  mpmc_producerReservation :: mpmcProducerReservation
  mpmc_producerPublication :: mpmcProducerPublication
  mpmc_consumerReservation :: mpmcConsumerReservation
  mpmc_consumerPublication :: mpmcConsumerPublication

definition NewMPMCQueue :: "int \<Rightarrow> Option list \<Rightarrow> ring_error + ('a::zero) MPMCQueue" where
  "NewMPMCQueue count options =
     (case resolveConfig count modeMulti modeMulti True options of
        Inl e \<Rightarrow> Inl e
      | Inr cfg \<Rightarrow> Inr
          \<lparr>mpmc_entries = replicate (nat count) 0,
           mpmc_config = \<lparr>mmc_mask = of_int (count - 1),
             mmc_maxEnqueueBatch = of_int (maxEnqueueBatch cfg), mmc_maxDequeueBatch = of_int (maxDequeueBatch cfg),
             mmc_prodHTDMax = resolveHeadTailDistance (prodMode cfg) count (maxProducerHeadTailDistance cfg)
               (producerHeadTailDistanceSet cfg),
             mmc_consHTDMax = resolveHeadTailDistance (consMode cfg) count (maxConsumerHeadTailDistance cfg)
               (consumerHeadTailDistanceSet cfg),
             mmc_spinsBeforeYield = of_int (spinsBeforeYield cfg),
             mmc_producerRelaxed = (prodMode cfg = modeRelaxed), mmc_consumerRelaxed = (consMode cfg = modeRelaxed),
             mmc_clearOnDequeue = (\<not> keepDequeued cfg), mmc_exactBatchCounts = exactBatchCounts cfg\<rparr>,
           mpmc_producerReservation = \<lparr>mmpr_headRTS = 0, mmpr_head = 0, mmpr_cachedConsumer = 0\<rparr>,
           mpmc_producerPublication = \<lparr>mmpb_tailRTS = 0, mmpb_published = 0\<rparr>,
           mpmc_consumerReservation = \<lparr>mmcr_headRTS = 0, mmcr_head = 0, mmcr_cachedProducer = 0\<rparr>,
           mpmc_consumerPublication = \<lparr>mmcb_tailRTS = 0, mmcb_published = 0\<rparr>\<rparr>)"

definition MPMC_Capacity :: "'a MPMCQueue \<Rightarrow> int" where
  "MPMC_Capacity r = int (unat (mmc_mask (mpmc_config r) + 1))"

definition MPMC_MaxEnqueueBatch :: "'a MPMCQueue \<Rightarrow> int" where
  "MPMC_MaxEnqueueBatch r = int (unat (mmc_maxEnqueueBatch (mpmc_config r)))"

definition MPMC_MaxDequeueBatch :: "'a MPMCQueue \<Rightarrow> int" where
  "MPMC_MaxDequeueBatch r = int (unat (mmc_maxDequeueBatch (mpmc_config r)))"

definition MPMC_Count :: "'a MPMCQueue \<Rightarrow> int" where
  "MPMC_Count r =
     (let consumer = mmcb_published (mpmc_consumerPublication r);
          producer = mmpb_published (mpmc_producerPublication r)
      in int (unat (min (producer - consumer) (mmc_mask (mpmc_config r) + 1))))"

definition MPMC_Free :: "'a MPMCQueue \<Rightarrow> int" where
  "MPMC_Free r = MPMC_Capacity r - MPMC_Count r"

definition MPMC_Full :: "'a MPMCQueue \<Rightarrow> bool" where
  "MPMC_Full r \<longleftrightarrow> MPMC_Count r = MPMC_Capacity r"

definition MPMC_Empty :: "'a MPMCQueue \<Rightarrow> bool" where
  "MPMC_Empty r \<longleftrightarrow> MPMC_Count r = 0"

definition MPMC_Reset :: "('a::zero) MPMCQueue \<Rightarrow> 'a MPMCQueue" where
  "MPMC_Reset r =
     r\<lparr>mpmc_entries := replicate (length (mpmc_entries r)) 0,
       mpmc_producerReservation := \<lparr>mmpr_headRTS = 0, mmpr_head = 0, mmpr_cachedConsumer = 0\<rparr>,
       mpmc_producerPublication := \<lparr>mmpb_tailRTS = 0, mmpb_published = 0\<rparr>,
       mpmc_consumerReservation := \<lparr>mmcr_headRTS = 0, mmcr_head = 0, mmcr_cachedProducer = 0\<rparr>,
       mpmc_consumerPublication := \<lparr>mmcb_tailRTS = 0, mmcb_published = 0\<rparr>\<rparr>"

text \<open>
  The reservation loop. With \<open>retryOnConflict\<close> each iteration loads the head again; without it the word
  given by the caller is tried once. The result is start, count, remaining and retry.
\<close>

partial_function (option) mpmcReserveProducerLoop ::
    "'a MPMCQueue \<Rightarrow> u64 \<Rightarrow> u32 \<Rightarrow> bool \<Rightarrow> bool \<Rightarrow> bool \<Rightarrow> ('a MPMCQueue \<times> u32 \<times> u32 \<times> u32 \<times> bool) option" where
  "mpmcReserveProducerLoop r word0 requested fixed exact retryOnConflict =
     (case (if \<not> retryOnConflict then Some word0
            else if mmc_producerRelaxed (mpmc_config r)
            then waitHeadTailDistance (\<lambda>_. mmpr_headRTS (mpmc_producerReservation r))
                   (\<lambda>_. mmpb_tailRTS (mpmc_producerPublication r)) (mmc_prodHTDMax (mpmc_config r))
                   (int (unat (mmc_spinsBeforeYield (mpmc_config r))))
            else Some (ucast (mmpr_head (mpmc_producerReservation r)))) of
        None \<Rightarrow> None
      | Some w \<Rightarrow>
          (let head = (if mmc_producerRelaxed (mpmc_config r) then unpackPos w else ucast w);
               capacity = mmc_mask (mpmc_config r) + 1;
               reservation = mpmc_producerReservation r;
               cached = mmpr_cachedConsumer reservation;
               published = multi_consumer capacity exact requested cached head
                 (mmcb_published (mpmc_consumerPublication r));
               reservation1 = (if published \<noteq> cached then reservation\<lparr>mmpr_cachedConsumer := published\<rparr> else reservation);
               r1 = r\<lparr>mpmc_producerReservation := reservation1\<rparr>;
               free = capacity + published - head
           in if free > capacity
              then (if retryOnConflict \<and> requested \<noteq> 0
                    then mpmcReserveProducerLoop r1 w requested fixed exact retryOnConflict
                    else Some (r1, head, 0, capacity, requested \<noteq> 0))
              else if fixed \<and> free < requested then Some (r1, head, 0, free, False)
              else (let count = min requested free
                    in if count = 0 then Some (r1, head, 0, free, False)
                       else if mmc_producerRelaxed (mpmc_config r)
                       then (if mmpr_headRTS reservation1 \<noteq> w
                             then (if retryOnConflict
                                   then mpmcReserveProducerLoop r1 w requested fixed exact retryOnConflict
                                   else Some (r1, head, 0, 0, True))
                             else Some (r1\<lparr>mpmc_producerReservation := reservation1\<lparr>mmpr_headRTS :=
                                    pack (head + count) (unpackCnt w + 1)\<rparr>\<rparr>, head, count, free - count, False))
                       else (if mmpr_head reservation1 \<noteq> head
                             then (if retryOnConflict
                                   then mpmcReserveProducerLoop r1 w requested fixed exact retryOnConflict
                                   else Some (r1, head, 0, 0, True))
                             else Some (r1\<lparr>mpmc_producerReservation := reservation1\<lparr>mmpr_head := head + count\<rparr>\<rparr>,
                                    head, count, free - count, False)))))"

definition mpmcReserveProducer ::
    "'a MPMCQueue \<Rightarrow> u32 \<Rightarrow> bool \<Rightarrow> bool \<Rightarrow> ('a MPMCQueue \<times> u32 \<times> u32 \<times> u32) option" where
  "mpmcReserveProducer r requested fixed exact =
     map_option (\<lambda>(r1, start, count, remaining, _). (r1, start, count, remaining))
       (mpmcReserveProducerLoop r 0 requested fixed exact True)"

definition mpmcAttemptProducer ::
    "'a MPMCQueue \<Rightarrow> u64 \<Rightarrow> u32 \<Rightarrow> bool \<Rightarrow> bool \<Rightarrow> ('a MPMCQueue \<times> u32 \<times> u32 \<times> u32 \<times> bool) option" where
  "mpmcAttemptProducer r w requested fixed exact = mpmcReserveProducerLoop r w requested fixed exact False"

definition mpmcWriteProducer :: "'a MPMCQueue \<Rightarrow> u32 \<Rightarrow> 'a list \<Rightarrow> 'a MPMCQueue" where
  "mpmcWriteProducer r start items =
     (let msk = mmc_mask (mpmc_config r)
      in if length items = 1 then r\<lparr>mpmc_entries := (mpmc_entries r)[slot start msk := items ! 0]\<rparr>
         else r\<lparr>mpmc_entries := copy_in (mpmc_entries r) msk start items\<rparr>)"

definition mpmcPublishProducerOrdered :: "'a MPMCQueue \<Rightarrow> u32 \<Rightarrow> u32 \<Rightarrow> 'a MPMCQueue option" where
  "mpmcPublishProducerOrdered r start count =
     (let publication = mpmc_producerPublication r
      in case waitForTail (\<lambda>_. mmpb_published publication) start
                (int (unat (mmc_spinsBeforeYield (mpmc_config r)))) of
           None \<Rightarrow> None
         | Some _ \<Rightarrow> Some (r\<lparr>mpmc_producerPublication := publication\<lparr>mmpb_published := start + count\<rparr>\<rparr>))"

definition mpmcPublishProducerRelaxed :: "'a MPMCQueue \<Rightarrow> 'a MPMCQueue option" where
  "mpmcPublishProducerRelaxed r =
     (let publication = mpmc_producerPublication r
      in case publishRelaxed
            (\<lambda>_. (mmpb_tailRTS publication, mmpr_headRTS (mpmc_producerReservation r), mmpb_tailRTS publication)) 0 of
           None \<Rightarrow> None
         | Some (tail, moved) \<Rightarrow>
             (let publication1 = publication\<lparr>mmpb_tailRTS := tail\<rparr>
              in if moved
                 then (case raiseMirror (\<lambda>_. (mmpb_published publication1, tail, mmpb_published publication1)) 0 of
                         None \<Rightarrow> None
                       | Some None \<Rightarrow> Some (r\<lparr>mpmc_producerPublication := publication1\<rparr>)
                       | Some (Some pos) \<Rightarrow>
                           Some (r\<lparr>mpmc_producerPublication := publication1\<lparr>mmpb_published := pos\<rparr>\<rparr>))
                 else Some (r\<lparr>mpmc_producerPublication := publication1\<rparr>)))"

text \<open>The enqueue methods write this branch out; they are modelled by a call of it.\<close>

definition mpmcPublishProducer :: "'a MPMCQueue \<Rightarrow> u32 \<Rightarrow> u32 \<Rightarrow> 'a MPMCQueue option" where
  "mpmcPublishProducer r start count =
     (if mmc_producerRelaxed (mpmc_config r) then mpmcPublishProducerRelaxed r
      else mpmcPublishProducerOrdered r start count)"

definition mpmcProducerHead :: "'a MPMCQueue \<Rightarrow> u32" where
  "mpmcProducerHead r =
     (if mmc_producerRelaxed (mpmc_config r) then unpackPos (mmpr_headRTS (mpmc_producerReservation r))
      else mmpr_head (mpmc_producerReservation r))"

partial_function (option) mpmcReserveConsumerLoop ::
    "'a MPMCQueue \<Rightarrow> u64 \<Rightarrow> u32 \<Rightarrow> bool \<Rightarrow> bool \<Rightarrow> bool \<Rightarrow> ('a MPMCQueue \<times> u32 \<times> u32 \<times> u32 \<times> bool) option" where
  "mpmcReserveConsumerLoop r word0 requested fixed exact retryOnConflict =
     (case (if \<not> retryOnConflict then Some word0
            else if mmc_consumerRelaxed (mpmc_config r)
            then waitHeadTailDistance (\<lambda>_. mmcr_headRTS (mpmc_consumerReservation r))
                   (\<lambda>_. mmcb_tailRTS (mpmc_consumerPublication r)) (mmc_consHTDMax (mpmc_config r))
                   (int (unat (mmc_spinsBeforeYield (mpmc_config r))))
            else Some (ucast (mmcr_head (mpmc_consumerReservation r)))) of
        None \<Rightarrow> None
      | Some w \<Rightarrow>
          (let head = (if mmc_consumerRelaxed (mpmc_config r) then unpackPos w else ucast w);
               capacity = mmc_mask (mpmc_config r) + 1;
               reservation = mpmc_consumerReservation r;
               cached = mmcr_cachedProducer reservation;
               published = multi_producer capacity exact requested cached head
                 (mmpb_published (mpmc_producerPublication r));
               reservation1 = (if published \<noteq> cached then reservation\<lparr>mmcr_cachedProducer := published\<rparr> else reservation);
               r1 = r\<lparr>mpmc_consumerReservation := reservation1\<rparr>;
               available = published - head
           in if available > capacity
              then (if retryOnConflict \<and> requested \<noteq> 0
                    then mpmcReserveConsumerLoop r1 w requested fixed exact retryOnConflict
                    else Some (r1, head, 0, capacity, requested \<noteq> 0))
              else if fixed \<and> available < requested then Some (r1, head, 0, available, False)
              else (let count = min requested available
                    in if count = 0 then Some (r1, head, 0, available, False)
                       else if mmc_consumerRelaxed (mpmc_config r)
                       then (if mmcr_headRTS reservation1 \<noteq> w
                             then (if retryOnConflict
                                   then mpmcReserveConsumerLoop r1 w requested fixed exact retryOnConflict
                                   else Some (r1, head, 0, 0, True))
                             else Some (r1\<lparr>mpmc_consumerReservation := reservation1\<lparr>mmcr_headRTS :=
                                    pack (head + count) (unpackCnt w + 1)\<rparr>\<rparr>, head, count, available - count, False))
                       else (if mmcr_head reservation1 \<noteq> head
                             then (if retryOnConflict
                                   then mpmcReserveConsumerLoop r1 w requested fixed exact retryOnConflict
                                   else Some (r1, head, 0, 0, True))
                             else Some (r1\<lparr>mpmc_consumerReservation := reservation1\<lparr>mmcr_head := head + count\<rparr>\<rparr>,
                                    head, count, available - count, False)))))"

definition mpmcReserveConsumer ::
    "'a MPMCQueue \<Rightarrow> u32 \<Rightarrow> bool \<Rightarrow> bool \<Rightarrow> ('a MPMCQueue \<times> u32 \<times> u32 \<times> u32) option" where
  "mpmcReserveConsumer r requested fixed exact =
     map_option (\<lambda>(r1, start, count, remaining, _). (r1, start, count, remaining))
       (mpmcReserveConsumerLoop r 0 requested fixed exact True)"

definition mpmcAttemptConsumer ::
    "'a MPMCQueue \<Rightarrow> u64 \<Rightarrow> u32 \<Rightarrow> bool \<Rightarrow> bool \<Rightarrow> ('a MPMCQueue \<times> u32 \<times> u32 \<times> u32 \<times> bool) option" where
  "mpmcAttemptConsumer r w requested fixed exact = mpmcReserveConsumerLoop r w requested fixed exact False"

definition mpmcReadConsumer :: "('a::zero) MPMCQueue \<Rightarrow> u32 \<Rightarrow> 'a list \<Rightarrow> 'a MPMCQueue \<times> 'a list" where
  "mpmcReadConsumer r start dst =
     (let consumer = mpmc_config r; len = of_nat (length dst); base = slot start (mmc_mask consumer)
      in if length dst = 1
         then (if mmc_clearOnDequeue consumer then r\<lparr>mpmc_entries := (mpmc_entries r)[base := 0]\<rparr> else r,
               [mpmc_entries r ! base])
         else (if mmc_clearOnDequeue consumer
               then r\<lparr>mpmc_entries := clear_slots (mpmc_entries r) (mmc_mask consumer) start len\<rparr> else r,
               copy_out (mpmc_entries r) (mmc_mask consumer) start len))"

definition mpmcReleaseConsumerOrdered :: "'a MPMCQueue \<Rightarrow> u32 \<Rightarrow> u32 \<Rightarrow> 'a MPMCQueue option" where
  "mpmcReleaseConsumerOrdered r start count =
     (let publication = mpmc_consumerPublication r
      in case waitForTail (\<lambda>_. mmcb_published publication) start
                (int (unat (mmc_spinsBeforeYield (mpmc_config r)))) of
           None \<Rightarrow> None
         | Some _ \<Rightarrow> Some (r\<lparr>mpmc_consumerPublication := publication\<lparr>mmcb_published := start + count\<rparr>\<rparr>))"

definition mpmcReleaseConsumerRelaxed :: "'a MPMCQueue \<Rightarrow> 'a MPMCQueue option" where
  "mpmcReleaseConsumerRelaxed r =
     (let publication = mpmc_consumerPublication r
      in case publishRelaxed
            (\<lambda>_. (mmcb_tailRTS publication, mmcr_headRTS (mpmc_consumerReservation r), mmcb_tailRTS publication)) 0 of
           None \<Rightarrow> None
         | Some (tail, moved) \<Rightarrow>
             (let publication1 = publication\<lparr>mmcb_tailRTS := tail\<rparr>
              in if moved
                 then (case raiseMirror (\<lambda>_. (mmcb_published publication1, tail, mmcb_published publication1)) 0 of
                         None \<Rightarrow> None
                       | Some None \<Rightarrow> Some (r\<lparr>mpmc_consumerPublication := publication1\<rparr>)
                       | Some (Some pos) \<Rightarrow>
                           Some (r\<lparr>mpmc_consumerPublication := publication1\<lparr>mmcb_published := pos\<rparr>\<rparr>))
                 else Some (r\<lparr>mpmc_consumerPublication := publication1\<rparr>)))"

text \<open>The dequeue methods write this branch out; they are modelled by a call of it.\<close>

definition mpmcReleaseConsumer :: "'a MPMCQueue \<Rightarrow> u32 \<Rightarrow> u32 \<Rightarrow> 'a MPMCQueue option" where
  "mpmcReleaseConsumer r start count =
     (if mmc_consumerRelaxed (mpmc_config r) then mpmcReleaseConsumerRelaxed r
      else mpmcReleaseConsumerOrdered r start count)"

definition mpmcConsumerHead :: "'a MPMCQueue \<Rightarrow> u32" where
  "mpmcConsumerHead r =
     (if mmc_consumerRelaxed (mpmc_config r) then unpackPos (mmcr_headRTS (mpmc_consumerReservation r))
      else mmcr_head (mpmc_consumerReservation r))"

definition MPMC_Enqueue :: "'a MPMCQueue \<Rightarrow> 'a \<Rightarrow> ('a MPMCQueue \<times> ring_error option) option" where
  "MPMC_Enqueue r item =
     (case mpmcReserveProducer r 1 True False of
        None \<Rightarrow> None
      | Some (r1, start, count, _) \<Rightarrow>
          if count = 0 then Some (r1, Some (Sentinel ErrFull))
          else (let r2 = r1\<lparr>mpmc_entries := (mpmc_entries r1)[slot start (mmc_mask (mpmc_config r1)) := item]\<rparr>
                in case mpmcPublishProducer r2 start count of
                     None \<Rightarrow> None
                   | Some r3 \<Rightarrow> Some (r3, None)))"

definition MPMC_EnqueueBulk :: "'a MPMCQueue \<Rightarrow> 'a list \<Rightarrow> ('a MPMCQueue \<times> int \<times> ring_error option) option" where
  "MPMC_EnqueueBulk r items =
     (let producer = mpmc_config r; capacity = mmc_mask producer + 1
      in if length items > unat capacity \<or> length items > unat (mmc_maxEnqueueBatch producer)
         then (let head = mpmcProducerHead r; fresh = capacity + mmcb_published (mpmc_consumerPublication r) - head
               in Some (r, int (unat (min fresh capacity)),
                        Some (BatchLengthError (int (length items)) (mmc_maxEnqueueBatch producer) capacity)))
         else (case mpmcReserveProducer r (of_nat (length items)) True (mmc_exactBatchCounts producer) of
                 None \<Rightarrow> None
               | Some (r1, start, count, remaining) \<Rightarrow>
                   if count = 0
                   then (if length items = 0 then Some (r1, int (unat remaining), None)
                         else Some (r1, int (unat remaining), Some (Sentinel ErrFull)))
                   else (case mpmcPublishProducer (mpmcWriteProducer r1 start items) start count of
                           None \<Rightarrow> None
                         | Some r2 \<Rightarrow> Some (r2, int (unat remaining), None))))"

definition MPMC_EnqueueBurst :: "'a MPMCQueue \<Rightarrow> 'a list \<Rightarrow> ('a MPMCQueue \<times> int \<times> int) option" where
  "MPMC_EnqueueBurst r items =
     (let producer = mpmc_config r;
          len = min (length items) (unat (mmc_maxEnqueueBatch producer))
      in case mpmcReserveProducer r (of_nat len) False (mmc_exactBatchCounts producer) of
           None \<Rightarrow> None
         | Some (r1, start, count, remaining) \<Rightarrow>
             if count = 0 then Some (r1, 0, int (unat remaining))
             else (case mpmcPublishProducer (mpmcWriteProducer r1 start (take (unat count) items)) start count of
                     None \<Rightarrow> None
                   | Some r2 \<Rightarrow> Some (r2, int (unat count), int (unat remaining))))"

definition MPMC_Dequeue :: "('a::zero) MPMCQueue \<Rightarrow> ('a MPMCQueue \<times> 'a \<times> ring_error option) option" where
  "MPMC_Dequeue r =
     (case mpmcReserveConsumer r 1 True False of
        None \<Rightarrow> None
      | Some (r1, start, count, _) \<Rightarrow>
          if count = 0 then Some (r1, 0, Some (Sentinel ErrEmpty))
          else (let consumer = mpmc_config r1;
                    index = slot start (mmc_mask consumer);
                    v = mpmc_entries r1 ! index;
                    r2 = (if mmc_clearOnDequeue consumer then r1\<lparr>mpmc_entries := (mpmc_entries r1)[index := 0]\<rparr> else r1)
                in case mpmcReleaseConsumer r2 start count of
                     None \<Rightarrow> None
                   | Some r3 \<Rightarrow> Some (r3, v, None)))"

definition MPMC_DequeueBulk :: "('a::zero) MPMCQueue \<Rightarrow> 'a list
    \<Rightarrow> ('a MPMCQueue \<times> int \<times> ring_error option \<times> 'a list) option" where
  "MPMC_DequeueBulk r dst =
     (let consumer = mpmc_config r; capacity = mmc_mask consumer + 1
      in if length dst > unat capacity \<or> length dst > unat (mmc_maxDequeueBatch consumer)
         then (let head = mpmcConsumerHead r; fresh = mmpb_published (mpmc_producerPublication r) - head
               in Some (r, int (unat (min fresh capacity)),
                        Some (BatchLengthError (int (length dst)) (mmc_maxDequeueBatch consumer) capacity), dst))
         else (case mpmcReserveConsumer r (of_nat (length dst)) True (mmc_exactBatchCounts consumer) of
                 None \<Rightarrow> None
               | Some (r1, start, count, remaining) \<Rightarrow>
                   if count = 0
                   then (if length dst = 0 then Some (r1, int (unat remaining), None, dst)
                         else Some (r1, int (unat remaining), Some (Sentinel ErrEmpty), dst))
                   else (let (r2, out) = mpmcReadConsumer r1 start dst
                         in case mpmcReleaseConsumer r2 start count of
                              None \<Rightarrow> None
                            | Some r3 \<Rightarrow> Some (r3, int (unat remaining), None, out))))"

definition MPMC_DequeueBurst :: "('a::zero) MPMCQueue \<Rightarrow> 'a list \<Rightarrow> ('a MPMCQueue \<times> int \<times> int \<times> 'a list) option" where
  "MPMC_DequeueBurst r dst =
     (let consumer = mpmc_config r;
          len = min (length dst) (unat (mmc_maxDequeueBatch consumer))
      in case mpmcReserveConsumer r (of_nat len) False (mmc_exactBatchCounts consumer) of
           None \<Rightarrow> None
         | Some (r1, start, count, remaining) \<Rightarrow>
             if count = 0 then Some (r1, 0, int (unat remaining), dst)
             else (let (r2, out) = mpmcReadConsumer r1 start (take (unat count) dst)
                   in case mpmcReleaseConsumer r2 start count of
                        None \<Rightarrow> None
                      | Some r3 \<Rightarrow> Some (r3, int (unat count), int (unat remaining), out @ drop (unat count) dst)))"

section \<open>Invariant\<close>

definition MPMC_inv :: "'a MPMCQueue \<Rightarrow> bool" where
  "MPMC_inv r \<longleftrightarrow>
     ring_inv (mpmc_entries r) (mmc_mask (mpmc_config r)) (mpmcProducerHead r)
       (mmpr_cachedConsumer (mpmc_producerReservation r)) (mpmcConsumerHead r)
       (mmcr_cachedProducer (mpmc_consumerReservation r))
     \<and> mmpb_published (mpmc_producerPublication r) = mpmcProducerHead r
     \<and> mmcb_published (mpmc_consumerPublication r) = mpmcConsumerHead r
     \<and> (mmc_producerRelaxed (mpmc_config r) \<longrightarrow>
          mmpb_tailRTS (mpmc_producerPublication r) = mmpr_headRTS (mpmc_producerReservation r))
     \<and> (mmc_consumerRelaxed (mpmc_config r) \<longrightarrow>
          mmcb_tailRTS (mpmc_consumerPublication r) = mmcr_headRTS (mpmc_consumerReservation r))
     \<and> unat (mmc_maxEnqueueBatch (mpmc_config r)) \<le> length (mpmc_entries r)
     \<and> unat (mmc_maxDequeueBatch (mpmc_config r)) \<le> length (mpmc_entries r)"

definition MPMC_conf :: "'a MPMCQueue \<Rightarrow> qconf" where
  "MPMC_conf r = \<lparr>qc_cap = length (mpmc_entries r), qc_maxE = unat (mmc_maxEnqueueBatch (mpmc_config r)),
     qc_maxD = unat (mmc_maxDequeueBatch (mpmc_config r)), qc_exact = mmc_exactBatchCounts (mpmc_config r)\<rparr>"

definition MPMC_contents :: "'a MPMCQueue \<Rightarrow> 'a list" where
  "MPMC_contents r = ring_contents (mpmc_entries r) (mpmcProducerHead r) (mpmcConsumerHead r)"

lemma MPMC_ring: "MPMC_inv r \<Longrightarrow>
    ring_inv (mpmc_entries r) (mmc_mask (mpmc_config r)) (mpmcProducerHead r)
       (mmpr_cachedConsumer (mpmc_producerReservation r)) (mpmcConsumerHead r)
       (mmcr_cachedProducer (mpmc_consumerReservation r))"
  by (simp add: MPMC_inv_def)

lemma MPMC_bounded: "MPMC_inv r \<Longrightarrow> length (MPMC_contents r) \<le> qc_cap (MPMC_conf r)"
  using ring_count_le [OF MPMC_ring] by (simp add: MPMC_contents_def MPMC_conf_def)

lemma mpmc_phead_frame [simp]:
  "mpmcProducerHead (r\<lparr>mpmc_entries := es\<rparr>) = mpmcProducerHead r"
  "mpmcProducerHead (r\<lparr>mpmc_producerPublication := pb\<rparr>) = mpmcProducerHead r"
  "mpmcProducerHead (r\<lparr>mpmc_consumerReservation := cr\<rparr>) = mpmcProducerHead r"
  "mpmcProducerHead (r\<lparr>mpmc_consumerPublication := cb\<rparr>) = mpmcProducerHead r"
  by (simp_all add: mpmcProducerHead_def)

lemma mpmc_chead_frame [simp]:
  "mpmcConsumerHead (r\<lparr>mpmc_entries := es\<rparr>) = mpmcConsumerHead r"
  "mpmcConsumerHead (r\<lparr>mpmc_consumerPublication := cb\<rparr>) = mpmcConsumerHead r"
  "mpmcConsumerHead (r\<lparr>mpmc_producerReservation := pr\<rparr>) = mpmcConsumerHead r"
  "mpmcConsumerHead (r\<lparr>mpmc_producerPublication := pb\<rparr>) = mpmcConsumerHead r"
  by (simp_all add: mpmcConsumerHead_def)

section \<open>Enqueueing\<close>

definition mpmc_put :: "'a MPMCQueue \<Rightarrow> bool \<Rightarrow> 'a list \<Rightarrow> bool \<Rightarrow> ('a MPMCQueue \<times> int \<times> int) option" where
  "mpmc_put r exact items fixed =
     (case mpmcReserveProducer r (of_nat (length items)) fixed exact of
        None \<Rightarrow> None
      | Some (r1, start, count, remaining) \<Rightarrow>
          if count = 0 then Some (r1, 0, int (unat remaining))
          else map_option (\<lambda>r2. (r2, int (unat count), int (unat remaining)))
                 (mpmcPublishProducer (mpmcWriteProducer r1 start (take (unat count) items)) start count))"

definition mpmc_preserved :: "'a MPMCQueue \<Rightarrow> u32 \<Rightarrow> u32 \<Rightarrow> 'a MPMCQueue" where
  "mpmc_preserved r cached count =
     (let reservation = mpmc_producerReservation r; relaxed = mmc_producerRelaxed (mpmc_config r)
      in r\<lparr>mpmc_producerReservation := \<lparr>
           mmpr_headRTS = (if relaxed \<and> count \<noteq> 0
                          then pack (mpmcProducerHead r + count) (unpackCnt (mmpr_headRTS reservation) + 1)
                          else mmpr_headRTS reservation),
           mmpr_head = (if \<not> relaxed \<and> count \<noteq> 0 then mmpr_head reservation + count else mmpr_head reservation),
           mmpr_cachedConsumer = cached\<rparr>\<rparr>)"

lemma mpmc_preserved_simps [simp]:
  "mpmc_entries (mpmc_preserved r cc n) = mpmc_entries r"
  "mpmc_config (mpmc_preserved r cc n) = mpmc_config r"
  "mpmc_producerPublication (mpmc_preserved r cc n) = mpmc_producerPublication r"
  "mpmc_consumerReservation (mpmc_preserved r cc n) = mpmc_consumerReservation r"
  "mpmc_consumerPublication (mpmc_preserved r cc n) = mpmc_consumerPublication r"
  "mmpr_cachedConsumer (mpmc_producerReservation (mpmc_preserved r cc n)) = cc"
  by (simp_all add: mpmc_preserved_def Let_def)

lemma mpmc_preserved_RTS: "mmc_producerRelaxed (mpmc_config r) \<Longrightarrow>
    mmpr_headRTS (mpmc_producerReservation (mpmc_preserved r cc n))
      = (if n = 0 then mmpr_headRTS (mpmc_producerReservation r)
         else pack (mpmcProducerHead r + n) (unpackCnt (mmpr_headRTS (mpmc_producerReservation r)) + 1))"
  by (simp add: mpmc_preserved_def Let_def)

lemma mpmc_preserved_head [simp]:
  "mpmcProducerHead (mpmc_preserved r cc n) = mpmcProducerHead r + n"
  "mpmcConsumerHead (mpmc_preserved r cc n) = mpmcConsumerHead r"
  by (simp_all add: mpmc_preserved_def Let_def mpmcProducerHead_def mpmcConsumerHead_def)

lemma mpmc_pattempt:
  fixes r :: "'a MPMCQueue" and fixed :: bool
  assumes "MPMC_inv r" "unat len \<le> length (mpmc_entries r)"
    and "serial_free (mmc_mask (mpmc_config r) + 1) exact len (mmpr_cachedConsumer (mpmc_producerReservation r))
      (mpmcProducerHead r) (mpmcConsumerHead r) = (cc', free)"
    and "\<not> mmc_mask (mpmc_config r) + 1 < free"
  defines "count \<equiv> (if fixed \<and> free < len then 0 else min len free)"
  shows "mpmcReserveProducer r len fixed exact = Some (mpmc_preserved r cc' count, mpmcProducerHead r, count, free - count)"
proof -
  let ?head = "if mmc_producerRelaxed (mpmc_config r) then mmpr_headRTS (mpmc_producerReservation r)
    else ucast (mmpr_head (mpmc_producerReservation r))"
  have pos: "(if mmc_producerRelaxed (mpmc_config r) then unpackPos ?head else ucast ?head) = mpmcProducerHead r"
    by (simp add: mpmcProducerHead_def ucast_up_down)
  have seen: "multi_consumer (mmc_mask (mpmc_config r) + 1) exact len
      (mmpr_cachedConsumer (mpmc_producerReservation r)) (mpmcProducerHead r) (mmcb_published (mpmc_consumerPublication r)) = cc'"
    "mmc_mask (mpmc_config r) + 1 + cc' - mpmcProducerHead r = free"
    using multi_consumer_eq [OF MPMC_ring [OF assms(1)] assms(2), of exact] assms(1,3)
    by (auto simp: MPMC_inv_def Let_def)
  have "waitHeadTailDistance (\<lambda>_. mmpr_headRTS (mpmc_producerReservation r))
      (\<lambda>_. mmpb_tailRTS (mpmc_producerPublication r)) (mmc_prodHTDMax (mpmc_config r)) spins
      = Some (mmpr_headRTS (mpmc_producerReservation r))" if "mmc_producerRelaxed (mpmc_config r)" for spins
    using assms(1) that by (intro waitDistance_now) (simp add: MPMC_inv_def)
  then have word: "(if \<not> True then Some 0 else if mmc_producerRelaxed (mpmc_config r)
      then waitHeadTailDistance (\<lambda>_. mmpr_headRTS (mpmc_producerReservation r))
             (\<lambda>_. mmpb_tailRTS (mpmc_producerPublication r)) (mmc_prodHTDMax (mpmc_config r))
             (int (unat (mmc_spinsBeforeYield (mpmc_config r))))
      else Some (ucast (mmpr_head (mpmc_producerReservation r)))) = Some ?head" by simp
  show ?thesis
    unfolding mpmcReserveProducer_def
    by (subst mpmcReserveProducerLoop.simps, unfold word option.case Let_def pos seen)
      (use assms(4) in \<open>auto simp: mpmc_preserved_def Let_def count_def mpmcProducerHead_def\<close>)
qed

lemma mpmc_publish:
  assumes "MPMC_inv r" "n \<noteq> 0" "unat n \<le> length (mpmc_entries r)"
  shows "\<exists>publication. mpmcPublishProducer ((mpmc_preserved r cc' n)\<lparr>mpmc_entries := es\<rparr>) (mpmcProducerHead r) n
    = Some ((mpmc_preserved r cc' n)\<lparr>mpmc_entries := es, mpmc_producerPublication := publication\<rparr>)
    \<and> mmpb_published publication = mpmcProducerHead r + n
    \<and> (mmc_producerRelaxed (mpmc_config r) \<longrightarrow>
         mmpb_tailRTS publication = pack (mpmcProducerHead r + n) (unpackCnt (mmpr_headRTS (mpmc_producerReservation r)) + 1))"
proof (cases "mmc_producerRelaxed (mpmc_config r)")
  case False
  with assms(1) show ?thesis
    by (auto simp: mpmcPublishProducer_def mpmcPublishProducerOrdered_def Let_def MPMC_inv_def waitForTail_now)
next
  case True
  let ?w = "mmpr_headRTS (mpmc_producerReservation r)"
  have pos: "mpmcProducerHead r = unpackPos ?w" using True by (simp add: mpmcProducerHead_def)
  have w: "mmpb_tailRTS (mpmc_producerPublication r) = pack (mpmcProducerHead r) (unpackCnt ?w)"
    "mmpb_published (mpmc_producerPublication r) = mpmcProducerHead r"
    using assms(1) True pos by (simp_all add: MPMC_inv_def)
  have "sint n = int (unat n)" "unat n > 0"
    using assms(2,3) geom_le [OF ring_geom [OF MPMC_ring [OF assms(1)]]]
    by (auto intro!: sint_small simp: unat_gt_0)
  with True assms(2) w show ?thesis
    by (auto simp: mpmcPublishProducer_def mpmcPublishProducerRelaxed_def mpmc_preserved_RTS Let_def publishRelaxed_now raiseMirror_now nextTail_last)
qed

lemma mpmc_write:
  assumes "geom (mpmc_entries r) (mmc_mask (mpmc_config r))"
  shows "mpmcWriteProducer r start items
    = r\<lparr>mpmc_entries := copy_in (mpmc_entries r) (mmc_mask (mpmc_config r)) start items\<rparr>"
proof (cases "length items = 1")
  case True
  then obtain x where "items = [x]" by (auto simp: length_Suc_conv)
  then show ?thesis using copy_in_one [OF assms] by (simp add: mpmcWriteProducer_def)
qed (simp add: mpmcWriteProducer_def Let_def)

lemma mpmc_put_ok:
  fixes r :: "'a MPMCQueue" and fixed :: bool
  assumes "MPMC_inv r" "length items \<le> qc_cap (MPMC_conf r)"
  defines "N \<equiv> qc_cap (MPMC_conf r) - length (MPMC_contents r)"
  defines "m \<equiv> admitted fixed (length items) N"
  shows "\<exists>r' rem. mpmc_put r exact items fixed = Some (r', int m, rem) \<and> MPMC_inv r' \<and> MPMC_conf r' = MPMC_conf r
    \<and> MPMC_contents r' = MPMC_contents r @ take m items
    \<and> reports (exact \<or> items = [] \<or> m < length items) rem (N - m)"
proof -
  let ?p = "mpmcProducerHead r" and ?c = "mpmcConsumerHead r"
  note g = ring_geom [OF MPMC_ring [OF assms(1)]]
  have len: "length items \<le> length (mpmc_entries r)" using assms(2) by (simp add: MPMC_conf_def)
  have N: "N = length (mpmc_entries r) - unat (?p - ?c)" by (simp add: N_def MPMC_conf_def MPMC_contents_def)
  have lw: "unat (of_nat (length items) :: u32) \<le> length (mpmc_entries r)" using len_word [OF len g] len by simp
  show ?thesis
  proof (rule put_admits [OF MPMC_ring [OF assms(1)] len, of exact], goal_cases)
    case (1 cc' free n)
    note a = 1 [folded N]
    have m: "m = (if fixed \<and> N < length items then 0 else unat n)" using a(5) by (simp add: m_def admitted_def)
    note res = mpmc_pattempt [OF assms(1) lw a(1,2), of fixed]
    show ?case
    proof (cases "fixed \<and> N < length items \<or> n = 0")
      case True
      then have "m = 0" using m by auto
      moreover have "(if fixed \<and> free < of_nat (length items) then 0 else min (of_nat (length items)) free) = 0"
        using True a(3,4) by auto
      ultimately have put: "mpmc_put r exact items fixed = Some (mpmc_preserved r cc' 0, int m, int (unat free))"
        using res by (simp add: mpmc_put_def)
      have "MPMC_inv (mpmc_preserved r cc' 0)" using assms(1) a(6) by (simp add: MPMC_inv_def mpmc_preserved_RTS)
      moreover have "reports (exact \<or> items = [] \<or> m < length items) (int (unat free)) (N - m)"
        using a(5,9,11) \<open>m = 0\<close> True by (auto simp: reports_def)
      ultimately show ?thesis using put \<open>m = 0\<close> by (simp add: MPMC_conf_def MPMC_contents_def)
    next
      case False
      then have n: "m = unat n" "\<not> (fixed \<and> free < of_nat (length items))" "n \<noteq> 0" "unat n \<le> length (mpmc_entries r)"
        using m a(4,5) N by auto
      obtain pb where pb: "mpmcPublishProducer ((mpmc_preserved r cc' n)\<lparr>mpmc_entries :=
          copy_in (mpmc_entries r) (mmc_mask (mpmc_config r)) ?p (take (unat n) items)\<rparr>) ?p n
        = Some ((mpmc_preserved r cc' n)\<lparr>mpmc_entries :=
          copy_in (mpmc_entries r) (mmc_mask (mpmc_config r)) ?p (take (unat n) items),
          mpmc_producerPublication := pb\<rparr>)"
        "mmpb_published pb = ?p + n"
        "mmc_producerRelaxed (mpmc_config r) \<Longrightarrow>
           mmpb_tailRTS pb = pack (?p + n) (unpackCnt (mmpr_headRTS (mpmc_producerReservation r)) + 1)"
        using mpmc_publish [OF assms(1) n(3,4)] by blast
      have w: "mpmcWriteProducer (mpmc_preserved r cc' n) ?p (take (unat n) items)
        = (mpmc_preserved r cc' n)\<lparr>mpmc_entries :=
            copy_in (mpmc_entries r) (mmc_mask (mpmc_config r)) ?p (take (unat n) items)\<rparr>"
        using mpmc_write [of "mpmc_preserved r cc' n"] g by (simp add: mpmc_preserved_def Let_def)
      have put: "mpmc_put r exact items fixed = Some ((mpmc_preserved r cc' n)\<lparr>mpmc_entries :=
          copy_in (mpmc_entries r) (mmc_mask (mpmc_config r)) ?p (take (unat n) items),
          mpmc_producerPublication := pb\<rparr>, int (unat n), int (unat (free - n)))"
        using res n(2,3) a(3) w pb(1) by (auto simp: mpmc_put_def)
      moreover have "reports (exact \<or> items = [] \<or> m < length items) (int (unat (free - n))) (N - m)"
        using a(9,10,11) n(1) by (auto simp: reports_def)
      ultimately show ?thesis
        using a(7,8) n(1,3) pb(2,3) assms(1)
        by (simp add: MPMC_inv_def MPMC_conf_def MPMC_contents_def mpmc_preserved_RTS)
    qed
  qed
qed

section \<open>Dequeueing\<close>

text \<open>Reservation, copy and release, as the three dequeue methods compose them.\<close>

definition mpmc_get :: "('a::zero) MPMCQueue \<Rightarrow> bool \<Rightarrow> 'a list \<Rightarrow> bool
    \<Rightarrow> ('a MPMCQueue \<times> int \<times> int \<times> 'a list) option" where
  "mpmc_get r exact dst fixed =
     (case mpmcReserveConsumer r (of_nat (length dst)) fixed exact of
        None \<Rightarrow> None
      | Some (r1, start, count, remaining) \<Rightarrow>
          if count = 0 then Some (r1, 0, int (unat remaining), dst)
          else (let (r2, out) = mpmcReadConsumer r1 start (take (unat count) dst)
                in map_option (\<lambda>r3. (r3, int (unat count), int (unat remaining), out @ drop (unat count) dst))
                     (mpmcReleaseConsumer r2 start count)))"

definition mpmc_creserved :: "'a MPMCQueue \<Rightarrow> u32 \<Rightarrow> u32 \<Rightarrow> 'a MPMCQueue" where
  "mpmc_creserved r cached count =
     (let reservation = mpmc_consumerReservation r; relaxed = mmc_consumerRelaxed (mpmc_config r)
      in r\<lparr>mpmc_consumerReservation := \<lparr>
           mmcr_headRTS = (if relaxed \<and> count \<noteq> 0
                          then pack (mpmcConsumerHead r + count) (unpackCnt (mmcr_headRTS reservation) + 1)
                          else mmcr_headRTS reservation),
           mmcr_head = (if \<not> relaxed \<and> count \<noteq> 0 then mmcr_head reservation + count else mmcr_head reservation),
           mmcr_cachedProducer = cached\<rparr>\<rparr>)"

lemma mpmc_creserved_simps [simp]:
  "mpmc_entries (mpmc_creserved r cp n) = mpmc_entries r"
  "mpmc_producerReservation (mpmc_creserved r cp n) = mpmc_producerReservation r"
  "mpmc_producerPublication (mpmc_creserved r cp n) = mpmc_producerPublication r"
  "mpmc_config (mpmc_creserved r cp n) = mpmc_config r"
  "mpmc_consumerPublication (mpmc_creserved r cp n) = mpmc_consumerPublication r"
  "mmcr_cachedProducer (mpmc_consumerReservation (mpmc_creserved r cp n)) = cp"
  by (simp_all add: mpmc_creserved_def Let_def)

lemma mpmc_creserved_RTS: "mmc_consumerRelaxed (mpmc_config r) \<Longrightarrow>
    mmcr_headRTS (mpmc_consumerReservation (mpmc_creserved r cp n))
      = (if n = 0 then mmcr_headRTS (mpmc_consumerReservation r)
         else pack (mpmcConsumerHead r + n) (unpackCnt (mmcr_headRTS (mpmc_consumerReservation r)) + 1))"
  by (simp add: mpmc_creserved_def Let_def)

lemma mpmc_creserved_head [simp]:
  "mpmcConsumerHead (mpmc_creserved r cp n) = mpmcConsumerHead r + n"
  "mpmcProducerHead (mpmc_creserved r cp n) = mpmcProducerHead r"
  by (simp_all add: mpmc_creserved_def Let_def mpmcConsumerHead_def mpmcProducerHead_def)

lemma mpmc_cattempt:
  fixes r :: "'a MPMCQueue" and fixed :: bool
  assumes "MPMC_inv r" "unat len \<le> length (mpmc_entries r)"
    and "serial_avail (mmc_mask (mpmc_config r) + 1) exact len (mmcr_cachedProducer (mpmc_consumerReservation r))
      (mpmcConsumerHead r) (mpmcProducerHead r) = (cp', avail)"
    and "\<not> mmc_mask (mpmc_config r) + 1 < avail"
  defines "count \<equiv> (if fixed \<and> avail < len then 0 else min len avail)"
  shows "mpmcReserveConsumer r len fixed exact
    = Some (mpmc_creserved r cp' count, mpmcConsumerHead r, count, avail - count)"
proof -
  let ?head = "if mmc_consumerRelaxed (mpmc_config r) then mmcr_headRTS (mpmc_consumerReservation r)
    else ucast (mmcr_head (mpmc_consumerReservation r))"
  have pos: "(if mmc_consumerRelaxed (mpmc_config r) then unpackPos ?head else ucast ?head) = mpmcConsumerHead r"
    by (simp add: mpmcConsumerHead_def)
  have seen: "multi_producer (mmc_mask (mpmc_config r) + 1) exact len
      (mmcr_cachedProducer (mpmc_consumerReservation r)) (mpmcConsumerHead r) (mmpb_published (mpmc_producerPublication r)) = cp'"
    "cp' - mpmcConsumerHead r = avail"
    using multi_producer_eq [OF MPMC_ring [OF assms(1)] assms(2), of exact] assms(1,3)
    by (auto simp: MPMC_inv_def Let_def)
  have "waitHeadTailDistance (\<lambda>_. mmcr_headRTS (mpmc_consumerReservation r))
      (\<lambda>_. mmcb_tailRTS (mpmc_consumerPublication r)) (mmc_consHTDMax (mpmc_config r)) spins
      = Some (mmcr_headRTS (mpmc_consumerReservation r))" if "mmc_consumerRelaxed (mpmc_config r)" for spins
    using assms(1) that by (intro waitDistance_now) (simp add: MPMC_inv_def)
  then have word: "(if \<not> True then Some 0 else if mmc_consumerRelaxed (mpmc_config r)
      then waitHeadTailDistance (\<lambda>_. mmcr_headRTS (mpmc_consumerReservation r))
             (\<lambda>_. mmcb_tailRTS (mpmc_consumerPublication r)) (mmc_consHTDMax (mpmc_config r))
             (int (unat (mmc_spinsBeforeYield (mpmc_config r))))
      else Some (ucast (mmcr_head (mpmc_consumerReservation r)))) = Some ?head" by simp
  show ?thesis
    unfolding mpmcReserveConsumer_def
    by (subst mpmcReserveConsumerLoop.simps, unfold word option.case Let_def pos seen)
      (use assms(4) in \<open>auto simp: mpmc_creserved_def Let_def count_def mpmcConsumerHead_def\<close>)
qed

lemma mpmc_release:
  assumes "MPMC_inv r" "n \<noteq> 0" "unat n \<le> length (mpmc_entries r)"
  shows "\<exists>publication. mpmcReleaseConsumer ((mpmc_creserved r cp' n)\<lparr>mpmc_entries := es\<rparr>) (mpmcConsumerHead r) n
    = Some ((mpmc_creserved r cp' n)\<lparr>mpmc_entries := es, mpmc_consumerPublication := publication\<rparr>)
    \<and> mmcb_published publication = mpmcConsumerHead r + n
    \<and> (mmc_consumerRelaxed (mpmc_config r) \<longrightarrow> mmcb_tailRTS publication
         = pack (mpmcConsumerHead r + n) (unpackCnt (mmcr_headRTS (mpmc_consumerReservation r)) + 1))"
proof (cases "mmc_consumerRelaxed (mpmc_config r)")
  case False
  with assms(1) show ?thesis
    by (auto simp: mpmcReleaseConsumer_def mpmcReleaseConsumerOrdered_def Let_def MPMC_inv_def waitForTail_now)
next
  case True
  let ?w = "mmcr_headRTS (mpmc_consumerReservation r)"
  have pos: "mpmcConsumerHead r = unpackPos ?w" using True by (simp add: mpmcConsumerHead_def)
  have w: "mmcb_tailRTS (mpmc_consumerPublication r) = pack (mpmcConsumerHead r) (unpackCnt ?w)"
    "mmcb_published (mpmc_consumerPublication r) = mpmcConsumerHead r"
    using assms(1) True pos by (simp_all add: MPMC_inv_def)
  have "sint n = int (unat n)" "unat n > 0"
    using assms(2,3) geom_le [OF ring_geom [OF MPMC_ring [OF assms(1)]]]
    by (auto intro!: sint_small simp: unat_gt_0)
  with True assms(2) w show ?thesis
    by (auto simp: mpmcReleaseConsumer_def mpmcReleaseConsumerRelaxed_def mpmc_creserved_RTS Let_def publishRelaxed_now raiseMirror_now nextTail_last)
qed

lemma mpmc_read:
  assumes "geom (mpmc_entries r) (mmc_mask (mpmc_config r))" "length dst = unat n"
  shows "mpmcReadConsumer r start dst =
    (r\<lparr>mpmc_entries := (if mmc_clearOnDequeue (mpmc_config r)
       then clear_slots (mpmc_entries r) (mmc_mask (mpmc_config r)) start n else mpmc_entries r)\<rparr>,
     copy_out (mpmc_entries r) (mmc_mask (mpmc_config r)) start n)"
proof (cases "length dst = 1")
  case True
  then have "n = 1" using assms(2) word_unat_eq_iff [of n 1] by simp
  with True show ?thesis
    using clear_one [OF assms(1), of start] copy_out_one [OF assms(1)] by (simp add: mpmcReadConsumer_def Let_def)
qed (use assms(2) in \<open>simp add: mpmcReadConsumer_def Let_def\<close>)

lemma mpmc_get_ok:
  fixes fixed :: bool and r :: "('a::zero) MPMCQueue"
  assumes "MPMC_inv r" "length dst \<le> qc_cap (MPMC_conf r)"
  defines "D \<equiv> length (MPMC_contents r)"
  defines "m \<equiv> admitted fixed (length dst) D"
  shows "\<exists>r' rem. mpmc_get r exact dst fixed = Some (r', int m, rem, take m (MPMC_contents r) @ drop m dst)
    \<and> MPMC_inv r' \<and> MPMC_conf r' = MPMC_conf r \<and> MPMC_contents r' = drop m (MPMC_contents r)
    \<and> reports (exact \<or> dst = [] \<or> m < length dst) rem (D - m)"
proof -
  let ?c = "mpmcConsumerHead r" and ?m = "mmc_mask (mpmc_config r)"
  note g = ring_geom [OF MPMC_ring [OF assms(1)]]
  have len: "length dst \<le> length (mpmc_entries r)" using assms(2) by (simp add: MPMC_conf_def)
  have D: "D = unat (mpmcProducerHead r - ?c)" by (simp add: D_def MPMC_contents_def)
  have lw: "unat (of_nat (length dst) :: u32) \<le> length (mpmc_entries r)" using len_word [OF len g] len by simp
  show ?thesis
  proof (rule get_admits [OF MPMC_ring [OF assms(1)] len, of exact], goal_cases)
    case (1 cp' avail n)
    note a = 1 [folded D]
    have m: "m = (if fixed \<and> D < length dst then 0 else unat n)" using a(5) by (simp add: m_def admitted_def)
    note res = mpmc_cattempt [OF assms(1) lw a(1,2), of fixed]
    show ?case
    proof (cases "fixed \<and> D < length dst \<or> n = 0")
      case True
      then have m0: "m = 0" using m by auto
      moreover have "(if fixed \<and> avail < of_nat (length dst) then 0 else min (of_nat (length dst)) avail) = 0"
        using True a(3,4) by auto
      ultimately have get: "mpmc_get r exact dst fixed = Some (mpmc_creserved r cp' 0, int m, int (unat avail), dst)"
        using res by (simp add: mpmc_get_def)
      have "MPMC_inv (mpmc_creserved r cp' 0)" using assms(1) a(6) by (simp add: MPMC_inv_def mpmc_creserved_RTS)
      moreover have "reports (exact \<or> dst = [] \<or> m < length dst) (int (unat avail)) (D - m)"
        using a(5,12,14) m0 True by (auto simp: reports_def)
      ultimately show ?thesis using get m0 by (simp add: MPMC_conf_def MPMC_contents_def)
    next
      case False
      then have n: "m = unat n" "\<not> (fixed \<and> avail < of_nat (length dst))" "n \<noteq> 0" "unat n \<le> length (mpmc_entries r)"
        "unat n \<le> length dst"
        using m a(4,5) len by auto
      let ?es = "if mmc_clearOnDequeue (mpmc_config r) then clear_slots (mpmc_entries r) ?m ?c n
        else mpmc_entries r"
      obtain pb where pb: "mpmcReleaseConsumer ((mpmc_creserved r cp' n)\<lparr>mpmc_entries := ?es\<rparr>) ?c n
          = Some ((mpmc_creserved r cp' n)\<lparr>mpmc_entries := ?es, mpmc_consumerPublication := pb\<rparr>)"
        "mmcb_published pb = ?c + n"
        "mmc_consumerRelaxed (mpmc_config r) \<Longrightarrow>
           mmcb_tailRTS pb = pack (?c + n) (unpackCnt (mmcr_headRTS (mpmc_consumerReservation r)) + 1)"
        using mpmc_release [OF assms(1) n(3,4)] by blast
      have rd: "mpmcReadConsumer (mpmc_creserved r cp' n) ?c (take (unat n) dst)
          = ((mpmc_creserved r cp' n)\<lparr>mpmc_entries := ?es\<rparr>, take (unat n) (MPMC_contents r))"
        using mpmc_read [of "mpmc_creserved r cp' n" "take (unat n) dst" n] g n(5) a(11)
        by (simp add: MPMC_contents_def)
      have get: "mpmc_get r exact dst fixed = Some ((mpmc_creserved r cp' n)\<lparr>mpmc_entries := ?es,
          mpmc_consumerPublication := pb\<rparr>, int (unat n), int (unat (avail - n)),
          take (unat n) (MPMC_contents r) @ drop (unat n) dst)"
        using res n(2,3) a(3) rd pb(1) by (auto simp: mpmc_get_def)
      moreover have "reports (exact \<or> dst = [] \<or> m < length dst) (int (unat (avail - n))) (D - m)"
        using a(12-14) n(1) by (auto simp: reports_def)
      moreover have "ring_inv ?es ?m (mpmcProducerHead r) (mmpr_cachedConsumer (mpmc_producerReservation r)) (?c + n) cp'"
        "ring_contents ?es (mpmcProducerHead r) (?c + n) = drop (unat n) (MPMC_contents r)" "length ?es = length (mpmc_entries r)"
        using a(7-10) by (simp_all add: MPMC_contents_def)
      ultimately show ?thesis
        using n(1,3) pb(2,3) assms(1) by (simp add: MPMC_inv_def MPMC_conf_def MPMC_contents_def mpmc_creserved_RTS)
    qed
  qed
qed

interpretation mpmc_batches: fifo_batches MPMC_inv MPMC_conf MPMC_contents
  "\<lambda>r items fixed. mpmc_put r (qc_exact (MPMC_conf r)) items fixed"
  "\<lambda>r dst fixed. mpmc_get r (qc_exact (MPMC_conf r)) dst fixed"
proof unfold_locales
  fix r :: "'a MPMCQueue" assume "MPMC_inv r"
  then show "length (MPMC_contents r) \<le> qc_cap (MPMC_conf r)" by (rule MPMC_bounded)
next
  fix r :: "'a MPMCQueue" assume "MPMC_inv r"
  then show "conf_ok (MPMC_conf r)" by (simp add: MPMC_inv_def MPMC_conf_def conf_ok_def)
qed (use mpmc_put_ok mpmc_get_ok in auto)

section \<open>The exported methods\<close>

lemma MPMC_cap: "MPMC_inv r \<Longrightarrow> unat (mmc_mask (mpmc_config r) + 1) = qc_cap (MPMC_conf r)"
  using geom_cap [OF ring_geom [OF MPMC_ring]] by (simp add: MPMC_conf_def)

lemma MPMC_fresh:
  assumes "MPMC_inv r"
  shows "unat (min (mmc_mask (mpmc_config r) + 1 + mmcb_published (mpmc_consumerPublication r) - mpmcProducerHead r)
      (mmc_mask (mpmc_config r) + 1)) = qc_cap (MPMC_conf r) - length (MPMC_contents r)"
    and "unat (min (mpmcProducerHead r - mpmcConsumerHead r) (mmc_mask (mpmc_config r) + 1))
      = length (MPMC_contents r)"
  using cap_minus [OF ring_geom ring_count_le, OF MPMC_ring MPMC_ring, OF assms assms] MPMC_cap [OF assms]
    ring_count_le [OF MPMC_ring [OF assms]] assms
  by (auto simp: MPMC_inv_def MPMC_conf_def MPMC_contents_def min_def word_le_nat_alt)

lemma MPMC_Enqueue_ok:
  assumes "MPMC_inv r"
  shows "\<exists>r' e. MPMC_Enqueue r x = Some (r', e) \<and> MPMC_inv r' \<and> MPMC_conf r' = MPMC_conf r
    \<and> MPMC_contents r' = fifo_next (MPMC_conf r) (MPMC_contents r) (Enqueue_op x)
    \<and> fifo_result (MPMC_conf r) (MPMC_contents r) (Enqueue_op x) (Enqueued e)"
proof -
  let ?m = "admitted True 1 (qc_cap (MPMC_conf r) - length (MPMC_contents r))"
  have len: "length [x] \<le> qc_cap (MPMC_conf r)"
    using geom_pos [OF ring_geom [OF MPMC_ring [OF assms]]] by (simp add: MPMC_conf_def Suc_le_eq)
  obtain r' rem where p: "mpmc_put r False [x] True = Some (r', int ?m, rem)" "MPMC_inv r'" "MPMC_conf r' = MPMC_conf r"
    "MPMC_contents r' = MPMC_contents r @ take ?m [x]"
    using mpmc_put_ok [OF assms len, of False True] by auto
  obtain r1 start count rest where res: "mpmcReserveProducer r 1 True False = Some (r1, start, count, rest)"
    using p(1) by (auto simp: mpmc_put_def split: option.splits)
  have "MPMC_Enqueue r x = Some (r', if ?m = 0 then Some (Sentinel ErrFull) else None)"
  proof (cases "count = 0")
    case True
    with p(1) res show ?thesis by (simp add: mpmc_put_def MPMC_Enqueue_def)
  next
    case False
    then have "0 < unat count" by (simp add: unat_gt_0)
    moreover have "unat count = ?m" using False p(1) res by (auto simp: mpmc_put_def)
    ultimately have "unat count = 1" "?m = 1" by (auto simp: admitted_def split: if_splits)
    with False p(1) res show ?thesis by (auto simp: mpmc_put_def MPMC_Enqueue_def mpmcWriteProducer_def)
  qed
  with p(2-4) show ?thesis
    using enqueue_admitted [of ?m "MPMC_conf r" "MPMC_contents r" x] by simp
qed

lemma MPMC_EnqueueBulk_ok:
  assumes "MPMC_inv r"
  shows "\<exists>r' free e. MPMC_EnqueueBulk r items = Some (r', free, e) \<and> MPMC_inv r' \<and> MPMC_conf r' = MPMC_conf r
    \<and> MPMC_contents r' = fifo_next (MPMC_conf r) (MPMC_contents r) (EnqueueBulk_op items)
    \<and> fifo_result (MPMC_conf r) (MPMC_contents r) (EnqueueBulk_op items) (BulkIn free e)"
proof (cases "length items > qc_maxE (MPMC_conf r)")
  case True
  then have "MPMC_EnqueueBulk r items = Some (r, int (qc_cap (MPMC_conf r) - length (MPMC_contents r)),
      Some (length_error (MPMC_conf r) (length items)))"
    using MPMC_fresh(1) [OF assms] MPMC_cap [OF assms]
    by (simp add: MPMC_EnqueueBulk_def Let_def BatchLengthError_def length_error_def MPMC_conf_def)
  with True show ?thesis using assms by (simp add: fifo_result_def reports_def)
next
  case False
  then have short: "\<not> (length items > unat (mmc_mask (mpmc_config r) + 1)
      \<or> length items > unat (mmc_maxEnqueueBatch (mpmc_config r)))"
    using assms MPMC_cap [OF assms] by (auto simp: MPMC_inv_def MPMC_conf_def)
  obtain r' moved rem where p: "mpmc_put r (qc_exact (MPMC_conf r)) items True = Some (r', moved, rem)"
    and k: "MPMC_inv r'" "MPMC_conf r' = MPMC_conf r"
      "MPMC_contents r' = fifo_next (MPMC_conf r) (MPMC_contents r) (EnqueueBulk_op items)"
    and z: "moved = 0 \<longleftrightarrow> items = [] \<or> moved \<noteq> int (length items)"
    and f: "fifo_result (MPMC_conf r) (MPMC_contents r) (EnqueueBulk_op items)
      (BulkIn rem (if moved \<noteq> int (length items) then Some (Sentinel ErrFull) else None))"
    using mpmc_batches.bulk_in [OF assms, of items] False by auto
  obtain r1 start count rest where res: "mpmcReserveProducer r (of_nat (length items)) True
      (mmc_exactBatchCounts (mpmc_config r)) = Some (r1, start, count, rest)"
    using p by (auto simp: mpmc_put_def MPMC_conf_def split: option.splits)
  have "MPMC_EnqueueBulk r items = Some (r', rem, if moved \<noteq> int (length items) then Some (Sentinel ErrFull) else None)"
  proof (cases "count = 0")
    case True
    with p res z short show ?thesis by (auto simp: mpmc_put_def MPMC_EnqueueBulk_def MPMC_conf_def Let_def)
  next
    case False
    then have "moved = int (unat count)" "moved \<noteq> 0"
      using p res by (auto simp: mpmc_put_def MPMC_conf_def unat_eq_zero)
    with z have "unat count = length items" "moved = int (length items)" by auto
    with False p res short show ?thesis by (auto simp: mpmc_put_def MPMC_EnqueueBulk_def MPMC_conf_def Let_def)
  qed
  with k f show ?thesis by simp
qed

lemma MPMC_EnqueueBurst_ok:
  assumes "MPMC_inv r"
  shows "\<exists>r' n free. MPMC_EnqueueBurst r items = Some (r', n, free) \<and> MPMC_inv r' \<and> MPMC_conf r' = MPMC_conf r
    \<and> MPMC_contents r' = fifo_next (MPMC_conf r) (MPMC_contents r) (EnqueueBurst_op items)
    \<and> fifo_result (MPMC_conf r) (MPMC_contents r) (EnqueueBurst_op items) (BurstIn n free)"
proof -
  let ?len = "min (length items) (qc_maxE (MPMC_conf r))"
  obtain r' moved rem where p: "mpmc_put r (qc_exact (MPMC_conf r)) (take ?len items) False = Some (r', moved, rem)"
    and k: "MPMC_inv r'" "MPMC_conf r' = MPMC_conf r"
      "MPMC_contents r' = fifo_next (MPMC_conf r) (MPMC_contents r) (EnqueueBurst_op items)"
    and f: "fifo_result (MPMC_conf r) (MPMC_contents r) (EnqueueBurst_op items) (BurstIn moved rem)"
    using mpmc_batches.burst_in [OF assms, of items] by blast
  have le: "moved \<le> int ?len" using f by (auto simp: fifo_result_def burst_in_def)
  obtain r1 start count rest where res: "mpmcReserveProducer r (of_nat ?len) False
      (mmc_exactBatchCounts (mpmc_config r)) = Some (r1, start, count, rest)"
    using p by (auto simp: mpmc_put_def MPMC_conf_def split: option.splits)
  have "MPMC_EnqueueBurst r items = Some (r', moved, rem)"
  proof (cases "count = 0")
    case True
    with p res show ?thesis by (simp add: mpmc_put_def MPMC_EnqueueBurst_def MPMC_conf_def)
  next
    case False
    then have "moved = int (unat count)" using p res by (auto simp: mpmc_put_def MPMC_conf_def)
    with le have "take (unat count) (take ?len items) = take (unat count) items" by simp
    with False p res show ?thesis by (auto simp: mpmc_put_def MPMC_EnqueueBurst_def MPMC_conf_def)
  qed
  with k f show ?thesis by simp
qed

lemma MPMC_Dequeue_ok:
  fixes r :: "('a::zero) MPMCQueue"
  assumes "MPMC_inv r"
  shows "\<exists>r' v e. MPMC_Dequeue r = Some (r', v, e) \<and> MPMC_inv r' \<and> MPMC_conf r' = MPMC_conf r
    \<and> MPMC_contents r' = fifo_next (MPMC_conf r) (MPMC_contents r) Dequeue_op
    \<and> fifo_result (MPMC_conf r) (MPMC_contents r) Dequeue_op (Dequeued v e)"
proof -
  let ?m = "admitted True 1 (length (MPMC_contents r))" and ?out = "\<lambda>m. take m (MPMC_contents r) @ drop m [0]"
  have len: "length [0 :: 'a] \<le> qc_cap (MPMC_conf r)"
    using geom_pos [OF ring_geom [OF MPMC_ring [OF assms]]] by (simp add: MPMC_conf_def Suc_le_eq)
  obtain r' rem where p: "mpmc_get r False [0] True = Some (r', int ?m, rem, ?out ?m)" "MPMC_inv r'" "MPMC_conf r' = MPMC_conf r"
    "MPMC_contents r' = drop ?m (MPMC_contents r)"
    using mpmc_get_ok [OF assms len, of False True] by auto
  obtain r1 start count rest where res: "mpmcReserveConsumer r 1 True False = Some (r1, start, count, rest)"
    using p(1) by (auto simp: mpmc_get_def split: option.splits)
  have "MPMC_Dequeue r = Some (r', hd (?out ?m), if ?m = 0 then Some (Sentinel ErrEmpty) else None)"
  proof (cases "count = 0")
    case True
    with p(1) res show ?thesis by (simp add: mpmc_get_def MPMC_Dequeue_def)
  next
    case False
    then have "0 < unat count" by (simp add: unat_gt_0)
    moreover have "unat count = ?m" using False p(1) res by (auto simp: mpmc_get_def Let_def split: prod.splits)
    ultimately have "unat count = 1" "?m = 1" by (auto simp: admitted_def min_def Suc_le_eq split: if_splits)
    with False p(1) res show ?thesis
      by (cases "MPMC_contents r")
        (auto simp: mpmc_get_def MPMC_Dequeue_def mpmcReadConsumer_def Let_def split: option.splits if_splits)
  qed
  moreover have "hd (?out ?m) = (if ?m = 0 then 0 else hd (MPMC_contents r))"
    by (cases "MPMC_contents r") (auto simp: admitted_def)
  ultimately show ?thesis
    using p(2-4) dequeue_admitted [of ?m "MPMC_contents r"] by simp
qed

lemma MPMC_DequeueBulk_ok:
  fixes r :: "('a::zero) MPMCQueue"
  assumes "MPMC_inv r"
  shows "\<exists>r' avail e out. MPMC_DequeueBulk r dst = Some (r', avail, e, out) \<and> MPMC_inv r' \<and> MPMC_conf r' = MPMC_conf r
    \<and> MPMC_contents r' = fifo_next (MPMC_conf r) (MPMC_contents r) (DequeueBulk_op dst)
    \<and> fifo_result (MPMC_conf r) (MPMC_contents r) (DequeueBulk_op dst) (BulkOut avail e out)"
proof (cases "length dst > qc_maxD (MPMC_conf r)")
  case True
  then have "MPMC_DequeueBulk r dst = Some (r, int (length (MPMC_contents r)),
      Some (length_error (MPMC_conf r) (length dst)), dst)"
    using MPMC_fresh(2) [OF assms] MPMC_cap [OF assms] assms
    by (simp add: MPMC_DequeueBulk_def Let_def BatchLengthError_def length_error_def MPMC_inv_def MPMC_conf_def)
  with True show ?thesis using assms by (simp add: fifo_result_def reports_def)
next
  case False
  then have short: "\<not> (length dst > unat (mmc_mask (mpmc_config r) + 1)
      \<or> length dst > unat (mmc_maxDequeueBatch (mpmc_config r)))"
    using assms MPMC_cap [OF assms] by (auto simp: MPMC_inv_def MPMC_conf_def)
  have ex: "qc_exact (MPMC_conf r) = mmc_exactBatchCounts (mpmc_config r)"
    using assms by (simp add: MPMC_conf_def)
  obtain r' moved rem out where p: "mpmc_get r (qc_exact (MPMC_conf r)) dst True = Some (r', moved, rem, out)"
    and k: "MPMC_inv r'" "MPMC_conf r' = MPMC_conf r"
      "MPMC_contents r' = fifo_next (MPMC_conf r) (MPMC_contents r) (DequeueBulk_op dst)"
    and z: "moved = 0 \<longleftrightarrow> dst = [] \<or> moved \<noteq> int (length dst)"
    and f: "fifo_result (MPMC_conf r) (MPMC_contents r) (DequeueBulk_op dst)
      (BulkOut rem (if moved \<noteq> int (length dst) then Some (Sentinel ErrEmpty) else None) out)"
    using mpmc_batches.bulk_out [OF assms, of dst] False by auto
  obtain r1 start count rest where res: "mpmcReserveConsumer r (of_nat (length dst)) True
      (mmc_exactBatchCounts (mpmc_config r)) = Some (r1, start, count, rest)"
    using p by (auto simp: mpmc_get_def ex split: option.splits)
  have "MPMC_DequeueBulk r dst = Some (r', rem, if moved \<noteq> int (length dst) then Some (Sentinel ErrEmpty) else None, out)"
  proof (cases "count = 0")
    case True
    have "r' = r1" "moved = 0" "rem = int (unat rest)" "out = dst"
      using True p res by (simp_all add: mpmc_get_def ex)
    with True res z short show ?thesis by (simp add: MPMC_DequeueBulk_def Let_def)
  next
    case False
    then have "moved = int (unat count)" "moved \<noteq> 0"
      using p res by (auto simp: mpmc_get_def ex Let_def unat_eq_zero split: prod.splits)
    with z have "unat count = length dst" "moved = int (length dst)" by auto
    moreover obtain r2 out' where "mpmcReadConsumer r1 start dst = (r2, out')" by (cases "mpmcReadConsumer r1 start dst")
    ultimately show ?thesis
      using False p res by (auto simp: mpmc_get_def MPMC_DequeueBulk_def ex if_not_P [OF short] Let_def)
  qed
  with k f show ?thesis by simp
qed

lemma MPMC_DequeueBurst_ok:
  fixes r :: "('a::zero) MPMCQueue"
  assumes "MPMC_inv r"
  shows "\<exists>r' n avail out. MPMC_DequeueBurst r dst = Some (r', n, avail, out) \<and> MPMC_inv r' \<and> MPMC_conf r' = MPMC_conf r
    \<and> MPMC_contents r' = fifo_next (MPMC_conf r) (MPMC_contents r) (DequeueBurst_op dst)
    \<and> fifo_result (MPMC_conf r) (MPMC_contents r) (DequeueBurst_op dst) (BurstOut n avail out)"
proof -
  let ?len = "min (length dst) (qc_maxD (MPMC_conf r))"
  have ex: "qc_exact (MPMC_conf r) = mmc_exactBatchCounts (mpmc_config r)"
    "unat (mmc_maxDequeueBatch (mpmc_config r)) = qc_maxD (MPMC_conf r)"
    using assms by (simp_all add: MPMC_conf_def)
  obtain r' moved rem out where p: "mpmc_get r (qc_exact (MPMC_conf r)) (take ?len dst) False = Some (r', moved, rem, out)"
    and k: "MPMC_inv r'" "MPMC_conf r' = MPMC_conf r"
      "MPMC_contents r' = fifo_next (MPMC_conf r) (MPMC_contents r) (DequeueBurst_op dst)"
    and f: "fifo_result (MPMC_conf r) (MPMC_contents r) (DequeueBurst_op dst) (BurstOut moved rem (out @ drop ?len dst))"
    using mpmc_batches.burst_out [OF assms, of dst] by blast
  have le: "moved \<le> int ?len" using f by (auto simp: fifo_result_def burst_out_def)
  obtain r1 start count rest where res: "mpmcReserveConsumer r (of_nat ?len) False
      (mmc_exactBatchCounts (mpmc_config r)) = Some (r1, start, count, rest)"
    using p by (auto simp: mpmc_get_def ex split: option.splits)
  have "MPMC_DequeueBurst r dst = Some (r', moved, rem, out @ drop ?len dst)"
  proof (cases "count = 0")
    case True
    with p res show ?thesis by (auto simp: mpmc_get_def MPMC_DequeueBurst_def ex)
  next
    case False
    then have "moved = int (unat count)" using p res by (auto simp: mpmc_get_def ex Let_def split: prod.splits)
    with le have "unat count \<le> ?len" by simp
    then have "take (unat count) (take ?len dst) = take (unat count) dst"
      "drop (unat count) (take ?len dst) @ drop ?len dst = drop (unat count) dst"
      using append_take_drop_id [of ?len dst] drop_append [of "unat count" "take ?len dst" "drop ?len dst"] by auto
    moreover obtain r2 out' where "mpmcReadConsumer r1 start (take (unat count) dst) = (r2, out')"
      by (cases "mpmcReadConsumer r1 start (take (unat count) dst)")
    ultimately show ?thesis using False p res by (auto simp: mpmc_get_def MPMC_DequeueBurst_def ex)
  qed
  with k f show ?thesis by simp
qed

section \<open>The queue is a bounded FIFO\<close>

fun MPMC_step :: "('a::zero) MPMCQueue \<Rightarrow> 'a qop \<Rightarrow> ('a MPMCQueue \<times> 'a qres) option" where
  "MPMC_step r (Enqueue_op x) = map_option (\<lambda>(r', e). (r', Enqueued e)) (MPMC_Enqueue r x)"
| "MPMC_step r Dequeue_op = map_option (\<lambda>(r', v, e). (r', Dequeued v e)) (MPMC_Dequeue r)"
| "MPMC_step r (EnqueueBulk_op xs) = map_option (\<lambda>(r', free, e). (r', BulkIn free e)) (MPMC_EnqueueBulk r xs)"
| "MPMC_step r (EnqueueBurst_op xs) = map_option (\<lambda>(r', n, free). (r', BurstIn n free)) (MPMC_EnqueueBurst r xs)"
| "MPMC_step r (DequeueBulk_op dst) = map_option (\<lambda>(r', avail, e, out). (r', BulkOut avail e out)) (MPMC_DequeueBulk r dst)"
| "MPMC_step r (DequeueBurst_op dst) = map_option (\<lambda>(r', n, avail, out). (r', BurstOut n avail out)) (MPMC_DequeueBurst r dst)"
| "MPMC_step r Count_op = Some (r, Counted (MPMC_Count r))"
| "MPMC_step r Reset_op = Some (MPMC_Reset r, ResetDone)"

lemma MPMC_Count_ok: "MPMC_inv r \<Longrightarrow> MPMC_Count r = int (length (MPMC_contents r))"
  using MPMC_fresh(2) [of r] by (simp add: MPMC_Count_def Let_def MPMC_inv_def)

lemma MPMC_Reset_ok:
  assumes "MPMC_inv r"
  shows "MPMC_inv (MPMC_Reset r) \<and> MPMC_conf (MPMC_Reset r) = MPMC_conf r \<and> MPMC_contents (MPMC_Reset r) = []"
  using assms ring_new [OF geom_length [OF ring_geom [OF MPMC_ring [OF assms]]],
    of "replicate (length (mpmc_entries r)) 0" 0]
  by (simp add: MPMC_Reset_def MPMC_inv_def MPMC_conf_def MPMC_contents_def mpmcProducerHead_def mpmcConsumerHead_def ring_contents_def)

interpretation mpmc: fifo_queue MPMC_inv MPMC_conf MPMC_contents MPMC_step
proof unfold_locales
  fix r :: "'a MPMCQueue" and opn
  assume r: "MPMC_inv r"
  show "\<exists>r' res. MPMC_step r opn = Some (r', res) \<and> MPMC_inv r' \<and> MPMC_conf r' = MPMC_conf r
      \<and> MPMC_contents r' = fifo_next (MPMC_conf r) (MPMC_contents r) opn
      \<and> fifo_result (MPMC_conf r) (MPMC_contents r) opn res"
  proof (cases opn)
    case (Enqueue_op x)
    then show ?thesis using MPMC_Enqueue_ok [OF r, of x] by auto
  next
    case Dequeue_op
    then show ?thesis using MPMC_Dequeue_ok [OF r] by auto
  next
    case (EnqueueBulk_op xs)
    then show ?thesis using MPMC_EnqueueBulk_ok [OF r, of xs] by auto
  next
    case (EnqueueBurst_op xs)
    then show ?thesis using MPMC_EnqueueBurst_ok [OF r, of xs] by auto
  next
    case (DequeueBulk_op dst)
    then show ?thesis using MPMC_DequeueBulk_ok [OF r, of dst] by auto
  next
    case (DequeueBurst_op dst)
    then show ?thesis using MPMC_DequeueBurst_ok [OF r, of dst] by auto
  next
    case Count_op
    then show ?thesis using r by (simp add: MPMC_Count_ok fifo_result_def)
  next
    case Reset_op
    then show ?thesis using MPMC_Reset_ok [OF r] by (simp add: fifo_result_def)
  qed
qed (rule MPMC_bounded)

lemma NewMPMCQueue_ok:
  fixes r :: "('a::zero) MPMCQueue"
  assumes "NewMPMCQueue count options = Inr r"
  shows "MPMC_inv r \<and> MPMC_contents r = [] \<and> int (qc_cap (MPMC_conf r)) = count"
proof -
  obtain cfg where cfg: "resolveConfig count modeMulti modeMulti True options = Inr cfg"
    using assms by (auto simp: NewMPMCQueue_def split: sum.splits)
  then obtain k where k: "k \<le> 30" "count = 2 ^ k" and ok: "config_ok count modeMulti modeMulti cfg"
    by (auto simp: resolveConfig_Inr)
  have b: "unat (of_int (maxEnqueueBatch cfg) :: u32) \<le> 2 ^ k" "unat (of_int (maxDequeueBatch cfg) :: u32) \<le> 2 ^ k"
    using ok k unat_of_batch [of "maxEnqueueBatch cfg" k] unat_of_batch [of "maxDequeueBatch cfg" k]
    by (simp_all add: config_ok_def nat_le_iff)
  show ?thesis
    using assms cfg b ring_new [OF geom_new [OF k(1), of "0 :: 'a"], of 0]
    by (auto simp: NewMPMCQueue_def MPMC_inv_def MPMC_conf_def MPMC_contents_def mpmcProducerHead_def mpmcConsumerHead_def
        ring_contents_def k(2) nat_power_eq)
qed

section \<open>Properties\<close>

text \<open>
  C2. A new many-producer, many-consumer queue, with either side ordered or relaxed and any other accepted options,
  behaves between calls as a bounded FIFO: no call waits for a reservation that nobody holds, and
  results, errors, counts and order are those of the FIFO.
\<close>

theorem MPMC_is_bounded_fifo:
  fixes r :: "('a::zero) MPMCQueue"
  assumes "NewMPMCQueue count options = Inr r"
  shows "\<exists>r' rs. queue_run MPMC_step r ops = Some (r', rs)
    \<and> results_allowed (MPMC_conf r) [] ops rs
    \<and> MPMC_contents r' = fold (\<lambda>opn xs. fifo_next (MPMC_conf r) xs opn) ops []
    \<and> (Reset_op \<notin> set ops \<longrightarrow> all_enqueued ops rs = all_dequeued rs @ MPMC_contents r')
    \<and> MPMC_Count r' = int (length (MPMC_contents r')) \<and> MPMC_Capacity r' = count
    \<and> (MPMC_Full r' \<longleftrightarrow> MPMC_Free r' = 0) \<and> (MPMC_Empty r' \<longleftrightarrow> MPMC_contents r' = [])"
proof -
  have new: "MPMC_inv r" "MPMC_contents r = []" "int (qc_cap (MPMC_conf r)) = count"
    using NewMPMCQueue_ok [OF assms] by simp_all
  obtain r' rs where run: "queue_run MPMC_step r ops = Some (r', rs)" "MPMC_inv r'" "MPMC_conf r' = MPMC_conf r"
    "MPMC_contents r' = fold (\<lambda>opn xs. fifo_next (MPMC_conf r) xs opn) ops []"
    "results_allowed (MPMC_conf r) [] ops rs"
    using mpmc.run_total [OF new(1), of ops] new(2) by auto
  moreover have "MPMC_Capacity r' = count"
    using MPMC_cap [OF run(2)] run(3) new(3) by (simp add: MPMC_Capacity_def)
  moreover have "Reset_op \<notin> set ops \<longrightarrow> all_enqueued ops rs = all_dequeued rs @ MPMC_contents r'"
    using mpmc.run_stream [OF new(1) _ run(1)] new(2) by simp
  ultimately show ?thesis
    using MPMC_Count_ok [OF run(2)] by (auto simp: MPMC_Full_def MPMC_Free_def MPMC_Empty_def)
qed

theorem MPMC_is_bounded_fifo_witness:
  "\<exists>(r :: int MPMCQueue) r' rs. NewMPMCQueue 8 [WithRelaxedMultiConsDequeue, WithRelaxedMultiProdEnqueue, WithMaxBatch 2] = Inr r
     \<and> queue_run MPMC_step r [EnqueueBulk_op [1, 2], EnqueueBurst_op [3, 4, 5], Dequeue_op, EnqueueBulk_op [6, 7, 8]]
       = Some (r', rs) \<and> MPMC_contents r' = [2, 3, 4] \<and> MPMC_Capacity r' = 8"
proof -
  let ?o = "[WithRelaxedMultiConsDequeue, WithRelaxedMultiProdEnqueue, WithMaxBatch 2]"
  have "resolveConfig 8 modeMulti modeMulti True ?o
      = Inr (fold (\<lambda>option cfg. option cfg) ?o (defaultConfig 8 modeMulti modeMulti))"
    unfolding resolveConfig_Inr
    by (auto simp: config_ok_def side_ok_def defaultConfig_def defaultSpinsBeforeYield_def
        WithRelaxedMultiConsDequeue_def WithRelaxedMultiProdEnqueue_def WithMaxBatch_def intro!: exI [of _ 3])
  then obtain r :: "int MPMCQueue" where r: "NewMPMCQueue 8 ?o = Inr r" "qc_cap (MPMC_conf r) = 8"
    "qc_maxE (MPMC_conf r) = 2"
    by (simp add: NewMPMCQueue_def MPMC_conf_def defaultConfig_def WithRelaxedMultiConsDequeue_def WithRelaxedMultiProdEnqueue_def WithMaxBatch_def)
  from MPMC_is_bounded_fifo [OF r(1),
      of "[EnqueueBulk_op [1, 2], EnqueueBurst_op [3, 4, 5], Dequeue_op, EnqueueBulk_op [6, 7, 8]]"]
  show ?thesis using r by (auto simp: burst_in_def simp del: queue_run.simps)
qed

end
