(* ===== verification/FrontierOptions.thy ===== *)
theory FrontierOptions
  imports RingShared
begin

text \<open>
  The options of the frontier queues and their validation, \<^verbatim>\<open>ring/frontier/options.go\<close>. The names
  have the prefix \<open>fr_\<close> to keep them apart from those of \<^verbatim>\<open>ring/dpdk\<close>.
\<close>

section \<open>Definitions\<close>

record fr_config =
  fr_maxEnqueueBatch :: int
  fr_maxDequeueBatch :: int
  fr_keepDequeued :: bool
  fr_exactBatchCounts :: bool

type_synonym fr_Option = "fr_config \<Rightarrow> fr_config"

definition fr_WithMaxEnqueueBatch :: "int \<Rightarrow> fr_Option" where
  "fr_WithMaxEnqueueBatch n cfg = cfg\<lparr>fr_maxEnqueueBatch := n\<rparr>"

definition fr_WithMaxDequeueBatch :: "int \<Rightarrow> fr_Option" where
  "fr_WithMaxDequeueBatch n cfg = cfg\<lparr>fr_maxDequeueBatch := n\<rparr>"

definition fr_WithMaxBatch :: "int \<Rightarrow> fr_Option" where
  "fr_WithMaxBatch n cfg = cfg\<lparr>fr_maxEnqueueBatch := n, fr_maxDequeueBatch := n\<rparr>"

definition fr_WithoutDequeueClearing :: fr_Option where
  "fr_WithoutDequeueClearing cfg = cfg\<lparr>fr_keepDequeued := True\<rparr>"

definition fr_WithExactBatchCounts :: fr_Option where
  "fr_WithExactBatchCounts cfg = cfg\<lparr>fr_exactBatchCounts := True\<rparr>"

definition fr_resolveConfig :: "int \<Rightarrow> fr_Option list \<Rightarrow> ring_error + fr_config" where
  "fr_resolveConfig count options =
     (case CheckCapacity count of
        Some e \<Rightarrow> Inl (Wrap e)
      | None \<Rightarrow>
     (let cfg = fold (\<lambda>option cfg. option cfg) options
            \<lparr>fr_maxEnqueueBatch = count, fr_maxDequeueBatch = count, fr_keepDequeued = False,
             fr_exactBatchCounts = False\<rparr>
      in case CheckMaxBatch (fr_maxEnqueueBatch cfg) count of
        Some e \<Rightarrow> Inl (Wrap e)
      | None \<Rightarrow>
     (case CheckMaxBatch (fr_maxDequeueBatch cfg) count of
        Some e \<Rightarrow> Inl (Wrap e)
      | None \<Rightarrow> Inr cfg)))"

section \<open>What a resolved configuration guarantees\<close>

lemma fr_resolveConfig_Inr:
  "fr_resolveConfig count options = Inr cfg \<longleftrightarrow>
     (\<exists>k \<le> 30. count = 2 ^ k)
     \<and> cfg = fold (\<lambda>option cfg. option cfg) options
         \<lparr>fr_maxEnqueueBatch = count, fr_maxDequeueBatch = count, fr_keepDequeued = False, fr_exactBatchCounts = False\<rparr>
     \<and> 1 \<le> fr_maxEnqueueBatch cfg \<and> fr_maxEnqueueBatch cfg \<le> count
     \<and> 1 \<le> fr_maxDequeueBatch cfg \<and> fr_maxDequeueBatch cfg \<le> count"
  unfolding fr_resolveConfig_def Let_def check_then_Inr CheckMaxBatch_None CheckCapacity_iff by auto

section \<open>Properties\<close>

text \<open>
  C25. The validation of the frontier queues' options accepts exactly the capacities that are a power
  of two up to \<open>2^30\<close> with final batch limits between 1 and the capacity. A refused configuration
  reports the first check that fails, in the order capacity, enqueue limit, dequeue limit, and the
  options are not looked at when the capacity is invalid.
\<close>

theorem fr_resolveConfig_decides:
  "fr_resolveConfig count options =
     (let cfg = fold (\<lambda>option cfg. option cfg) options
            \<lparr>fr_maxEnqueueBatch = count, fr_maxDequeueBatch = count, fr_keepDequeued = False, fr_exactBatchCounts = False\<rparr>
      in if \<nexists>k. k \<le> 30 \<and> count = 2 ^ k then Inl (Wrap (Wrap (Sentinel ErrInvalidCount)))
      else if fr_maxEnqueueBatch cfg \<in> {1..count} \<and> fr_maxDequeueBatch cfg \<in> {1..count} then Inr cfg
      else Inl (Wrap (Wrap (Sentinel ErrInvalidMaxBatch))))"
proof (cases "CheckCapacity count")
  case None
  then have "\<exists>k. k \<le> 30 \<and> count = 2 ^ k" using CheckCapacity_iff by auto
  with None show ?thesis
    by (simp add: fr_resolveConfig_def Let_def CheckMaxBatch_def)
next
  case (Some e)
  then have "\<nexists>k. k \<le> 30 \<and> count = 2 ^ k" using CheckCapacity_iff [of count] by auto
  moreover have "e = Wrap (Sentinel ErrInvalidCount)"
    using Some by (auto simp: CheckCapacity_def Let_def split: if_splits)
  ultimately show ?thesis using Some by (simp add: fr_resolveConfig_def Let_def)
qed

end
