(* ===== verification/FrontierRecords.thy ===== *)
theory FrontierRecords
  imports RingPositions
begin

text \<open>
  The interval records of the frontier queues, \<^verbatim>\<open>ring/frontier/records.go\<close>: a finished interval
  \<open>[s, e)\<close> is recorded by its end at the slot of its start, and discovery follows the ends. The
  discovery that loads predicted records ahead is shown equal to one that follows them one by one,
  and one that follows finished intervals is shown to reach the end of the last of them. Records
  left by earlier laps are passed over without being cleared.
\<close>

section \<open>Definitions\<close>

text \<open>The conversion \<^verbatim>\<open>uint32(position)\<close> of an absolute position.\<close>

abbreviation low :: "u64 \<Rightarrow> u32" where
  "low p \<equiv> ucast p"

definition recordLookahead :: nat where
  "recordLookahead = 4"

definition recordLookaheadMinStride :: u64 where
  "recordLookaheadMinStride = 64 div 8"

text \<open>\<^verbatim>\<open>records[uint32(position)&mask].Load()\<close>.\<close>

definition load_record :: "u64 list \<Rightarrow> u32 \<Rightarrow> u64 \<Rightarrow> u64" where
  "load_record records msk position = records ! slot (low position) msk"

text \<open>The two loops of \<^verbatim>\<open>discoverRecordsAhead\<close>: the records loaded ahead, and the ones accepted.\<close>

definition loadAhead :: "u64 list \<Rightarrow> u32 \<Rightarrow> u64 \<Rightarrow> u64 \<Rightarrow> u64 \<Rightarrow> u64 \<Rightarrow> u64 list" where
  "loadAhead records msk base width pos stride =
     map (load_record records msk)
       (takeWhile (\<lambda>position. position - base < width)
          (map (\<lambda>lanes. pos + of_nat lanes * stride) [0..<recordLookahead]))"

fun acceptAhead :: "u64 \<Rightarrow> u64 \<Rightarrow> u64 \<Rightarrow> u64 \<Rightarrow> u64 \<Rightarrow> u64 list \<Rightarrow> u64" where
  "acceptAhead base width stride stopAt pos [] = pos"
| "acceptAhead base width stride stopAt pos (recordEnd # ahead) =
     (if pos - base \<ge> stopAt then pos
      else if recordEnd \<le> pos \<or> recordEnd - pos \<noteq> stride \<or> stride > width - (pos - base) then pos
      else acceptAhead base width stride stopAt recordEnd ahead)"

definition discoverRecordsAhead :: "u64 list \<Rightarrow> u32 \<Rightarrow> u64 \<Rightarrow> u64 \<Rightarrow> u64 \<Rightarrow> u64 \<Rightarrow> u64 \<Rightarrow> u64" where
  "discoverRecordsAhead records msk base width pos stride stopAt =
     acceptAhead base width stride stopAt pos (loadAhead records msk base width pos stride)"

lemma unat64_less: "unat (x :: u64) < 2 ^ 64"
  using unsigned_less [of x] by simp

lemma acceptAhead_ge: "pos \<le> acceptAhead base width stride stopAt pos ahead"
  by (induction base width stride stopAt pos ahead rule: acceptAhead.induct) auto

text \<open>The loop of \<^verbatim>\<open>discoverRecords\<close>, with the stride of the last accepted record.\<close>

function discoverLoop :: "u64 list \<Rightarrow> u32 \<Rightarrow> u64 \<Rightarrow> u64 \<Rightarrow> u64 \<Rightarrow> u64 \<Rightarrow> u64 \<Rightarrow> u64" where
  "discoverLoop records msk base width stopAt pos stride =
     (if \<not> pos - base < width then pos
      else if pos - base \<ge> stopAt then pos
      else (let pos1 = (if stride \<ge> recordLookaheadMinStride
                        then discoverRecordsAhead records msk base width pos stride stopAt else pos)
            in if stride \<ge> recordLookaheadMinStride \<and> (pos1 - base \<ge> width \<or> pos1 - base \<ge> stopAt) then pos1
               else (let recordEnd = load_record records msk pos1
                     in if recordEnd \<le> pos1 \<or> recordEnd - pos1 > width - (pos1 - base) then pos1
                        else discoverLoop records msk base width stopAt recordEnd (recordEnd - pos1))))"
  by pat_completeness auto
termination
proof (relation "measure (\<lambda>(records, msk, base, width, stopAt, pos, stride). 2 ^ 64 - unat pos)", goal_cases)
  case (2 records msk base width stopAt pos stride pos1 recordEnd)
  have "pos \<le> pos1" using 2(3) by (simp add: discoverRecordsAhead_def acceptAhead_ge)
  with 2(5,6) have "unat pos < unat recordEnd" by (simp add: word_le_nat_alt)
  moreover have "unat recordEnd < 2 ^ 64" by (rule unat64_less)
  ultimately show ?case by simp
qed simp

declare discoverLoop.simps [simp del]

definition discoverRecords :: "u64 list \<Rightarrow> u32 \<Rightarrow> u64 \<Rightarrow> u64 \<Rightarrow> u64 \<Rightarrow> u64 \<Rightarrow> u64" where
  "discoverRecords records msk base width frontier stopAt =
     discoverLoop records msk base width stopAt frontier 0"

section \<open>Discovery one record at a time\<close>

function chained :: "u64 list \<Rightarrow> u32 \<Rightarrow> u64 \<Rightarrow> u64 \<Rightarrow> u64 \<Rightarrow> u64 \<Rightarrow> u64" where
  "chained records msk base width stopAt pos =
     (if pos - base < width \<and> pos - base < stopAt \<and> load_record records msk pos > pos
         \<and> load_record records msk pos - pos \<le> width - (pos - base)
      then chained records msk base width stopAt (load_record records msk pos) else pos)"
  by pat_completeness auto
termination
  by (relation "measure (\<lambda>(records, msk, base, width, stopAt, pos). 2 ^ 64 - unat pos)")
    (auto simp: word_less_nat_alt intro!: diff_less_mono2 order_less_le_trans [OF unsigned_less])

declare chained.simps [simp del]

text \<open>
  The loop of the \<^verbatim>\<open>Count\<close> methods, \<^verbatim>\<open>for end-cursor < limit { recordEnd := ...; if recordEnd <= end ||
  recordEnd-end > limit-(end-cursor) { break }; end = recordEnd }\<close>.
\<close>

definition scanRecords :: "u64 list \<Rightarrow> u32 \<Rightarrow> u64 \<Rightarrow> u64 \<Rightarrow> u64 \<Rightarrow> u64" where
  "scanRecords records msk cursor limit pos = chained records msk cursor limit limit pos"

lemma loadAhead_Suc:
  "map (load_record rs msk) (takeWhile P (map (\<lambda>l. pos + of_nat l * stride) [0..<Suc n])) =
     (if P pos then load_record rs msk pos
        # map (load_record rs msk) (takeWhile P (map (\<lambda>l. (pos + stride) + of_nat l * stride) [0..<n])) else [])"
proof -
  have "map (\<lambda>l. pos + of_nat l * stride) [0..<Suc n]
      = pos # map (\<lambda>l. (pos + stride) + of_nat l * stride) [0..<n]"
    by (simp only: upt_conv_Cons [OF zero_less_Suc] map_Suc_upt [symmetric] list.map map_map o_def)
      (simp add: algebra_simps)
  then show ?thesis by simp
qed

lemma chained_accept:
  "chained rs msk base width stopAt
     (acceptAhead base width stride stopAt pos
        (map (load_record rs msk) (takeWhile (\<lambda>p. p - base < width) (map (\<lambda>l. pos + of_nat l * stride) [0..<n]))))
   = chained rs msk base width stopAt pos"
proof (induction n arbitrary: pos)
  case (Suc n)
  let ?e = "load_record rs msk pos"
  show ?case
  proof (cases "pos - base < width \<and> pos - base < stopAt \<and> pos < ?e \<and> ?e - pos = stride \<and> stride \<le> width - (pos - base)")
    case True
    then have "?e = pos + stride" by (auto simp: algebra_simps)
    then have "chained rs msk base width stopAt pos = chained rs msk base width stopAt (pos + stride)"
      using True by (subst chained.simps) simp
    with True \<open>?e = pos + stride\<close> show ?thesis
      unfolding loadAhead_Suc using Suc.IH [of "pos + stride"] by (auto simp: not_le)
  next
    case False
    then show ?thesis unfolding loadAhead_Suc by (auto simp: not_le not_less)
  qed
qed simp

lemma discoverLoop_step:
  fixes rs msk base width stopAt pos stride
  defines "q \<equiv> (if stride \<ge> recordLookaheadMinStride then discoverRecordsAhead rs msk base width pos stride stopAt else pos)"
  assumes "pos - base < width" "pos - base < stopAt"
  shows "discoverLoop rs msk base width stopAt pos stride =
    (if q - base < width \<and> q - base < stopAt \<and> load_record rs msk q > q \<and> load_record rs msk q - q \<le> width - (q - base)
     then discoverLoop rs msk base width stopAt (load_record rs msk q) (load_record rs msk q - q) else q)"
proof (cases "stride \<ge> recordLookaheadMinStride")
  case True
  then have q: "q = discoverRecordsAhead rs msk base width pos stride stopAt" by (simp add: q_def)
  show ?thesis
    using assms(2,3) True by (subst discoverLoop.simps) (auto simp: Let_def not_le not_less q)
next
  case False
  then have "q = pos" by (simp add: q_def)
  with assms(2,3) False show ?thesis by (subst discoverLoop.simps) (auto simp: Let_def not_le not_less)
qed

lemma discoverLoop_chained: "discoverLoop rs msk base width stopAt pos stride = chained rs msk base width stopAt pos"
proof (induction "2 ^ 64 - unat pos" arbitrary: pos stride rule: less_induct)
  case less
  show ?case
  proof (cases "pos - base < width \<and> pos - base < stopAt")
    case True
    define q where "q = (if stride \<ge> recordLookaheadMinStride
      then discoverRecordsAhead rs msk base width pos stride stopAt else pos)"
    let ?e = "load_record rs msk q"
    let ?ok = "q - base < width \<and> q - base < stopAt \<and> ?e > q \<and> ?e - q \<le> width - (q - base)"
    have q: "chained rs msk base width stopAt q = chained rs msk base width stopAt pos"
      by (simp add: q_def discoverRecordsAhead_def loadAhead_def chained_accept)
    have ge: "pos \<le> q" by (simp add: q_def discoverRecordsAhead_def acceptAhead_ge)
    have "discoverLoop rs msk base width stopAt pos stride
        = (if ?ok then discoverLoop rs msk base width stopAt ?e (?e - q) else q)"
      using discoverLoop_step [of pos base width stopAt] True by (simp add: q_def)
    moreover have "discoverLoop rs msk base width stopAt ?e (?e - q) = chained rs msk base width stopAt ?e" if "q < ?e"
      by (rule less.hyps) (use that ge unat64_less [of ?e] in \<open>simp add: word_less_nat_alt word_le_nat_alt\<close>)
    moreover have "chained rs msk base width stopAt q = (if ?ok then chained rs msk base width stopAt ?e else q)"
      by (subst chained.simps) simp
    ultimately show ?thesis using q by simp
  next
    case False
    then show ?thesis by (subst discoverLoop.simps, subst chained.simps) auto
  qed
qed

section \<open>Finished intervals\<close>

text \<open>A run of finished intervals from one position to another, as the records tell it.\<close>

inductive record_path :: "u64 list \<Rightarrow> u32 \<Rightarrow> u64 \<Rightarrow> u64 \<Rightarrow> bool" for rs msk where
  path_end: "record_path rs msk p p"
| path_step: "p < load_record rs msk p \<Longrightarrow> record_path rs msk (load_record rs msk p) q \<Longrightarrow> record_path rs msk p q"

lemma path_le: "record_path rs msk p q \<Longrightarrow> p \<le> q"
  by (induction rule: record_path.induct) auto

lemma path_trans: "record_path rs msk p q \<Longrightarrow> record_path rs msk q r \<Longrightarrow> record_path rs msk p r"
  by (induction rule: record_path.induct) (auto intro: path_step)

lemma u64_diff: "x \<le> y \<Longrightarrow> unat (y - x :: u64) = unat y - unat x"
  by (simp add: unat_sub)

lemma unat_low: "unat (low p) = unat p mod 2 ^ 32"
  by (simp add: unsigned_ucast_eq take_bit_eq_mod)

lemma low_diff: "unat (y - x :: u64) < 2 ^ 32 \<Longrightarrow> unat (low y - low x) = unat (y - x)"
proof -
  assume d: "unat (y - x) < 2 ^ 32"
  have "uint (low y - low x) = (uint y mod 2 ^ 32 - uint x mod 2 ^ 32) mod 2 ^ 32"
    by (simp add: uint_word_ariths unsigned_ucast_eq take_bit_eq_mod)
  also have "\<dots> = (uint y - uint x) mod 2 ^ 32" by (simp only: mod_diff_eq)
  also have "\<dots> = ((uint y - uint x) mod 2 ^ 64) mod 2 ^ 32" by (rule mod_mod_cancel [symmetric]) simp
  also have "\<dots> = uint (y - x) mod 2 ^ 32" by (simp add: uint_word_ariths)
  finally have "int (unat (low y - low x)) = int (unat (y - x)) mod 2 ^ 32"
    by (simp only: of_nat_unat)
  also have "\<dots> = int (unat (y - x))" using d by (intro mod_pos_pos_trivial) auto
  finally show ?thesis by simp
qed

lemma slot_low: "geom es msk \<Longrightarrow> slot (low p) msk = unat p mod length es"
  using mod_mod_cancel [OF geom_dvd, of es msk "unat p"] by (simp add: geom_slot unat_low)

lemma low_wide [simp]: "low (ucast (n :: u32)) = n"
  using unat32_less [of n] by (simp add: word_unat_eq_iff unat_low)

lemma unat_advance: "unat (p :: u64) + unat (n :: u32) < 2 ^ 64 \<Longrightarrow> unat (p + ucast n) = unat p + unat n"
  by (simp add: unat_word_ariths)

lemma low_plus: "low (p + q) = low p + low q"
proof -
  have "uint (low (p + q)) = (uint p + uint q) mod 2 ^ 64 mod 2 ^ 32"
    by (simp add: uint_word_ariths unsigned_ucast_eq take_bit_eq_mod)
  also have "\<dots> = (uint p mod 2 ^ 32 + uint q mod 2 ^ 32) mod 2 ^ 32"
    by (subst mod_mod_cancel) (simp_all add: mod_simps)
  also have "\<dots> = uint (low p + low q)"
    by (simp add: uint_word_ariths unsigned_ucast_eq take_bit_eq_mod)
  finally show ?thesis by (simp only: word_uint_eq_iff)
qed

lemma low_add: "low (p + ucast (n :: u32)) = low p + n"
  by (simp add: low_plus)

text \<open>Discovery follows a run to its end, or stops inside it when enough is found.\<close>

lemma chained_path:
  assumes "record_path rs msk p q" "base \<le> p" "unat q - unat base \<le> unat width" "load_record rs msk q \<le> q"
  shows "\<exists>e. chained rs msk base width stopAt p = e \<and> record_path rs msk p e \<and> record_path rs msk e q
    \<and> (e = q \<or> stopAt \<le> e - base)"
  using assms
proof (induction rule: record_path.induct)
  case (path_end p)
  then show ?case by (subst chained.simps) (auto intro: record_path.path_end)
next
  case (path_step p q)
  let ?e = "load_record rs msk p"
  have le: "p \<le> ?e" "?e \<le> q" "base \<le> ?e"
    using path_step.hyps path_le path_step.prems(1) by auto
  note d = u64_diff [OF path_step.prems(1)] u64_diff [OF le(1)]
  have room: "p - base < width" "?e - p \<le> width - (p - base)"
  proof -
    have "unat base \<le> unat p" "unat p < unat ?e" "unat ?e \<le> unat q"
      using path_step.prems(1) path_step.hyps(1) le by (simp_all add: word_le_nat_alt word_less_nat_alt)
    then show a: "p - base < width" using path_step.prems(2) d by (simp add: word_less_nat_alt)
    have "unat (width - (p - base)) = unat width - (unat p - unat base)"
      using unat_sub [of "p - base" width] a d by simp
    then show "?e - p \<le> width - (p - base)"
      using d path_step.prems(2) \<open>unat base \<le> unat p\<close> \<open>unat p < unat ?e\<close> \<open>unat ?e \<le> unat q\<close>
      by (simp add: word_le_nat_alt)
  qed
  show ?case
  proof (cases "stopAt \<le> p - base")
    case True
    then show ?thesis
      using record_path.path_step [OF path_step.hyps(1,2)]
      by (subst chained.simps) (auto simp: not_less intro: record_path.path_end)
  next
    case False
    then have "chained rs msk base width stopAt p = chained rs msk base width stopAt ?e"
      using room path_step.hyps(1) by (subst chained.simps) (simp add: not_le)
    with path_step.IH [OF le(3) path_step.prems(2,3)] path_step.hyps(1) show ?thesis
      by (auto intro: record_path.path_step)
  qed
qed

text \<open>
  The records of a side at rest: from \<open>f\<close>, up to which intervals were discovered, they lead to \<open>h\<close>,
  the head of the side, and none points past \<open>h\<close>.
\<close>

definition records_inv :: "u64 list \<Rightarrow> u32 \<Rightarrow> u64 \<Rightarrow> u64 \<Rightarrow> bool" where
  "records_inv rs msk f h \<longleftrightarrow> geom rs msk \<and> record_path rs msk f h \<and> (\<forall>e \<in> set rs. e \<le> h)"

lemma records_geom: "records_inv rs msk f h \<Longrightarrow> geom rs msk"
  and records_path: "records_inv rs msk f h \<Longrightarrow> record_path rs msk f h"
  and records_le: "records_inv rs msk f h \<Longrightarrow> f \<le> h"
  by (auto simp: records_inv_def dest: path_le)

lemma records_past: "records_inv rs msk f h \<Longrightarrow> load_record rs msk p \<le> h"
  using geom_base_lt [OF records_geom, of rs msk f h] by (auto simp: records_inv_def load_record_def)

lemma records_discover:
  assumes "records_inv rs msk f h" "base \<le> f" "unat h - unat base \<le> unat width"
  obtains e where "discoverRecords rs msk base width f stopAt = e" "record_path rs msk f e" "records_inv rs msk e h"
    "e = h \<or> stopAt \<le> e - base"
  using chained_path [OF records_path [OF assms(1)] assms(2,3) records_past [OF assms(1)], of stopAt] assms(1)
  by (auto simp: discoverRecords_def discoverLoop_chained records_inv_def)

lemma records_discover_all:
  assumes "records_inv rs msk f h" "base \<le> f" "unat h - unat base \<le> unat width" "unat width \<le> unat stopAt"
  shows "discoverRecords rs msk base width f stopAt = h"
proof -
  obtain e where e: "discoverRecords rs msk base width f stopAt = e" "record_path rs msk f e" "records_inv rs msk e h"
    "e = h \<or> stopAt \<le> e - base"
    using records_discover [OF assms(1-3)] by blast
  have "base \<le> e" "e \<le> h" using assms(2) path_le [OF e(2)] records_le [OF e(3)] by auto
  then have "e = h" if "stopAt \<le> e - base"
    using that assms(3,4) by (auto simp: word_le_nat_alt u64_diff word_unat_eq_iff)
  with e(1,4) show ?thesis by auto
qed

lemma records_scan_all:
  assumes "record_path rs msk f h" "\<And>p. load_record rs msk p \<le> h" "base \<le> f" "unat limit = unat h - unat base"
  shows "scanRecords rs msk base limit f = h"
proof -
  obtain e where e: "scanRecords rs msk base limit f = e" "record_path rs msk f e" "record_path rs msk e h"
    "e = h \<or> limit \<le> e - base"
    using chained_path [OF assms(1,3) _ assms(2)] assms(4) unfolding scanRecords_def by (metis order_refl)
  have "base \<le> e" "e \<le> h" using assms(3) path_le [OF e(2)] path_le [OF e(3)] by auto
  then have "e = h" if "limit \<le> e - base"
    using that assms(4) by (auto simp: word_le_nat_alt u64_diff word_unat_eq_iff)
  with e(1,4) show ?thesis by auto
qed

text \<open>Recording the interval that starts at the head extends the run by it.\<close>

lemma path_update:
  assumes "record_path rs msk p q" "\<And>x. p \<le> x \<Longrightarrow> x < q \<Longrightarrow> slot (low x) msk \<noteq> s"
  shows "record_path (rs[s := v]) msk p q"
  using assms
proof (induction rule: record_path.induct)
  case (path_step p q)
  have "p < q" by (rule order_less_le_trans [OF path_step.hyps(1) path_le [OF path_step.hyps(2)]])
  then have "load_record (rs[s := v]) msk p = load_record rs msk p"
    using path_step.prems [of p] by (simp add: load_record_def)
  moreover have "record_path (rs[s := v]) msk (load_record rs msk p) q"
  proof (rule path_step.IH)
    fix x assume "load_record rs msk p \<le> x" "x < q"
    with path_step.hyps(1) show "slot (low x) msk \<noteq> s" by (intro path_step.prems) simp_all
  qed
  ultimately show ?case using record_path.path_step [of p "rs[s := v]" msk q] path_step.hyps(1) by simp
qed (rule record_path.path_end)

lemma records_store:
  assumes "records_inv rs msk f h" "h < h'" "unat h - unat f < length rs"
  shows "records_inv (rs[slot (low h) msk := h']) msk f h'"
proof -
  note g = records_geom [OF assms(1)]
  let ?rs = "rs[slot (low h) msk := h']"
  have other: "slot (low x) msk \<noteq> slot (low h) msk" if "f \<le> x" "x < h" for x
  proof
    assume "slot (low x) msk = slot (low h) msk"
    then have "unat x mod length rs = unat h mod length rs" by (simp add: slot_low [OF g])
    then have "length rs dvd unat h - unat x"
      using that(2) mod_eq_dvd_iff_nat [of "unat x" "unat h" "length rs"] by (simp add: word_less_nat_alt)
    moreover have "0 < unat h - unat x" "unat h - unat x < length rs"
      using that assms(3) by (auto simp: word_le_nat_alt word_less_nat_alt)
    ultimately show False by (auto dest: dvd_imp_le)
  qed
  have "record_path ?rs msk f h" by (rule path_update [OF records_path [OF assms(1)] other])
  moreover have "load_record ?rs msk h = h'"
    using geom_base_lt [OF g] by (simp add: load_record_def)
  then have "record_path ?rs msk h h'"
    using assms(2) record_path.path_step [of h ?rs msk h'] by (simp add: record_path.path_end)
  ultimately have "record_path ?rs msk f h'" by (rule path_trans)
  moreover have "e \<le> h'" if "e \<in> set ?rs" for e
  proof -
    have "e = h' \<or> e \<in> set rs" using that set_update_subset_insert by fast
    then show ?thesis using assms(1,2) by (auto simp: records_inv_def)
  qed
  ultimately show ?thesis using geom_length [OF g, of ?rs] by (simp add: records_inv_def)
qed

lemma records_new: "geom rs msk \<Longrightarrow> set rs \<subseteq> {0} \<Longrightarrow> records_inv rs msk 0 0"
  by (auto simp: records_inv_def intro: record_path.path_end)

section \<open>Slots between absolute positions\<close>

text \<open>A count that is refreshed when it would limit the request admits what the real one admits.\<close>

lemma admitted_seen:
  assumes "d \<le> D" "exact \<or> dst = [] \<or> d < length dst \<Longrightarrow> d = D"
  shows "admitted fixed (length dst) D = admitted fixed (length dst) d"
  using assms by (cases "d < length dst") (auto simp: admitted_def)

text \<open>Slots before \<open>rel\<close> may be reused, those from \<open>con\<close> on hold elements, and \<open>pro\<close> is the next to fill.\<close>

definition wide_inv :: "'a list \<Rightarrow> u32 \<Rightarrow> u64 \<Rightarrow> u64 \<Rightarrow> u64 \<Rightarrow> bool" where
  "wide_inv es msk rel con pro \<longleftrightarrow>
     geom es msk \<and> rel \<le> con \<and> con \<le> pro \<and> unat pro - unat rel \<le> length es"

lemma wide_geom: "wide_inv es msk rel con pro \<Longrightarrow> geom es msk"
  by (simp add: wide_inv_def)

lemma wide_order:
  assumes "wide_inv es msk rel con pro"
  shows "unat rel \<le> unat con" "unat con \<le> unat pro" "unat pro \<le> unat rel + length es"
  using assms by (auto simp: wide_inv_def word_le_nat_alt)

lemma wide_diff:
  assumes "wide_inv es msk rel con pro"
  shows "unat (pro - rel) = unat pro - unat rel" "unat (pro - con) = unat pro - unat con"
    "unat (con - rel) = unat con - unat rel"
  using wide_order [OF assms] by (simp_all add: u64_diff word_le_nat_alt)

lemma wide_low:
  assumes "wide_inv es msk rel con pro"
  shows "unat (low pro - low con) = unat pro - unat con" "unat (low pro - low rel) = unat pro - unat rel"
  using wide_diff [OF assms] wide_order [OF assms] geom_le [OF wide_geom [OF assms]] by (simp_all add: low_diff)

lemma wide_ring: "wide_inv es msk rel con pro \<Longrightarrow> ring_inv es msk (low pro) (low rel) (low con) (low pro)"
  using wide_low [of es msk rel con pro] wide_order [of es msk rel con pro] wide_geom [of es msk rel con pro]
  by (auto simp: ring_inv_def)

lemma length_wide: "wide_inv es msk rel con pro \<Longrightarrow> length (ring_contents es (low pro) (low con)) = unat pro - unat con"
  by (simp add: wide_low)

lemma wide_room:
  assumes "wide_inv es msk rel con pro"
  shows "unat (ucast (msk + 1) - (pro - rel)) = length es - (unat pro - unat rel)"
    "unat (ucast (msk + 1) - (pro - con)) = length es - (unat pro - unat con)"
  using wide_diff [OF assms] wide_order [OF assms] geom_cap [OF wide_geom [OF assms]]
  by (simp_all add: unat_sub word_le_nat_alt)

lemma wide_release: "wide_inv es msk rel con pro \<Longrightarrow> wide_inv es msk con con pro"
  by (auto simp: wide_inv_def word_le_nat_alt)

lemma wide_push:
  assumes "wide_inv es msk rel con pro" "unat pro - unat rel + length xs \<le> length es"
    and "unat n = length xs" "unat pro + length xs < 2 ^ 64"
  shows "wide_inv (copy_in es msk (low pro) xs) msk rel con (pro + n)"
    and "ring_contents (copy_in es msk (low pro) xs) (low (pro + n)) (low con) = ring_contents es (low pro) (low con) @ xs"
proof -
  have n: "low n = of_nat (length xs)" using assms(3) by (simp add: word_unat_eq_iff unat_low unat_of_nat)
  have "unat (pro + n) = unat pro + length xs" using assms(3,4) by (simp add: unat_word_ariths)
  then show "wide_inv (copy_in es msk (low pro) xs) msk rel con (pro + n)"
    using assms(1,2) geom_length [OF wide_geom [OF assms(1)], of "copy_in es msk (low pro) xs"]
    by (auto simp: wide_inv_def word_le_nat_alt)
  show "ring_contents (copy_in es msk (low pro) xs) (low (pro + n)) (low con) = ring_contents es (low pro) (low con) @ xs"
    using ring_push(2) [OF wide_ring [OF assms(1)], of xs] wide_low(2) [OF assms(1)] assms(2) by (simp add: low_plus n)
qed

lemma wide_pop:
  assumes "wide_inv es msk rel con pro" "unat n \<le> unat pro - unat con" "es' = es \<or> es' = clear_slots es msk (low con) n"
  shows "wide_inv es' msk rel (con + ucast n) pro"
    and "ring_contents es' (low pro) (low (con + ucast n)) = drop (unat n) (ring_contents es (low pro) (low con))"
    and "copy_out es msk (low con) n = take (unat n) (ring_contents es (low pro) (low con))"
proof -
  note o = wide_order [OF assms(1)] and ring = wide_ring [OF assms(1)] and g = wide_geom [OF assms(1)]
  have n: "unat n \<le> unat (low pro - low con)" using assms(2) wide_low(1) [OF assms(1)] by simp
  have "unat (con + ucast n) = unat con + unat n"
    using assms(2) o unat64_less [of pro] by (intro unat_advance) simp
  moreover have "length es' = length es" using assms(3) by auto
  ultimately show "wide_inv es' msk rel (con + ucast n) pro"
    using assms(1,2) o geom_length [OF g] by (auto simp: wide_inv_def word_le_nat_alt)
  show "ring_contents es' (low pro) (low (con + ucast n)) = drop (unat n) (ring_contents es (low pro) (low con))"
    using assms(3) ring_pop(2) [OF ring n] ring_pop_clear(2) [OF ring n] by (auto simp: low_add)
  show "copy_out es msk (low con) n = take (unat n) (ring_contents es (low pro) (low con))"
    using ring_pop(3) [OF ring n] copy_out_window [OF g, of n "low con"] assms(2) o by simp
qed

lemma wide_new: "geom es msk \<Longrightarrow> wide_inv es msk 0 0 0"
  by (simp add: wide_inv_def)

section \<open>Properties\<close>

text \<open>
  C8. Loading predicted records ahead never changes what discovery returns: for every content of
  the records, every window and every stopping distance, \<^verbatim>\<open>discoverRecords\<close> returns the position that
  following the records one at a time returns.
\<close>

theorem discoverRecords_is_chained:
  "discoverRecords records msk base width frontier stopAt = chained records msk base width stopAt frontier"
  by (simp add: discoverRecords_def discoverLoop_chained)

end
