(* ===== verification/FrontierMPSC.thy ===== *)
theory FrontierMPSC
  imports FrontierOptions FrontierRecords DpdkRing
begin

text \<open>
  The frontier queue with many producers and one consumer, \<^verbatim>\<open>ring/frontier/mpsc_base.go\<close> and
  \<^verbatim>\<open>ring/frontier/mpsc.go\<close>. Positions are absolute 64-bit numbers. Producers publish an interval by its
  record, and the consumer discovers the contiguous run of them. The queue embeds the transfer core
  and adds a position up to which \<^verbatim>\<open>Count\<close> has seen completed intervals. A method is the whole call run
  without interference.
\<close>

section \<open>Definitions\<close>

record fr_mpscProducerConfig =
  fmp_mask :: u32
  fmp_maxBatch :: u32
  fmp_exactBatchCounts :: bool

record fr_mpscProducerReservation =
  fmr_head :: u64
  fmr_cachedConsumer :: u32

record fr_mpscCompletion =
  fmk_records :: "u64 list"

record fr_mpscConsumer =
  fmc_mask :: u32
  fmc_cursor :: u64
  fmc_frontier :: u64
  fmc_clearOnDequeue :: bool
  fmc_maxBatch :: u32
  fmc_exactBatchCounts :: bool

text \<open>The two \<^verbatim>\<open>entries\<close> slices share one array, which is a field of the core.\<close>

record 'a fr_mpscBase =
  fmb_entries :: "'a list"
  fmb_producerConfig :: fr_mpscProducerConfig
  fmb_producerReservation :: fr_mpscProducerReservation
  fmb_completion :: fr_mpscCompletion
  fmb_consumer :: fr_mpscConsumer
  fmb_consumerPublished :: u64

definition fr_mpscBase_zero :: "'a fr_mpscBase" where
  "fr_mpscBase_zero =
     \<lparr>fmb_entries = [], fmb_producerConfig = \<lparr>fmp_mask = 0, fmp_maxBatch = 0, fmp_exactBatchCounts = False\<rparr>,
      fmb_producerReservation = \<lparr>fmr_head = 0, fmr_cachedConsumer = 0\<rparr>,
      fmb_completion = \<lparr>fmk_records = []\<rparr>,
      fmb_consumer = \<lparr>fmc_mask = 0, fmc_cursor = 0, fmc_frontier = 0, fmc_clearOnDequeue = False, fmc_maxBatch = 0,
        fmc_exactBatchCounts = False\<rparr>,
      fmb_consumerPublished = 0\<rparr>"

definition fr_mpscBase_init :: "('a::zero) fr_mpscBase \<Rightarrow> int \<Rightarrow> fr_config \<Rightarrow> 'a fr_mpscBase" where
  "fr_mpscBase_init r count cfg =
     r\<lparr>fmb_entries := replicate (nat count) 0,
       fmb_producerConfig := \<lparr>fmp_mask = of_int (count - 1), fmp_maxBatch = of_int (fr_maxEnqueueBatch cfg),
         fmp_exactBatchCounts = fr_exactBatchCounts cfg\<rparr>,
       fmb_completion := \<lparr>fmk_records = replicate (nat count) 0\<rparr>,
       fmb_consumer := \<lparr>fmc_mask = of_int (count - 1), fmc_cursor = 0, fmc_frontier = 0,
         fmc_clearOnDequeue = (\<not> fr_keepDequeued cfg), fmc_maxBatch = of_int (fr_maxDequeueBatch cfg),
         fmc_exactBatchCounts = fr_exactBatchCounts cfg\<rparr>\<rparr>"

definition newMPSCBase :: "int \<Rightarrow> fr_Option list \<Rightarrow> ring_error + ('a::zero) fr_mpscBase" where
  "newMPSCBase count options =
     (case fr_resolveConfig count options of
        Inl e \<Rightarrow> Inl e
      | Inr cfg \<Rightarrow> Inr (fr_mpscBase_init fr_mpscBase_zero count cfg))"

definition mpscConsumerWord :: "u32 \<Rightarrow> u32 \<Rightarrow> u64" where
  "mpscConsumerWord cursor frontier = push_bit 32 (ucast frontier) OR ucast cursor"

definition mpscReleased :: "u64 \<Rightarrow> u32" where
  "mpscReleased w = ucast w"

definition mpscFrontier :: "u64 \<Rightarrow> u32" where
  "mpscFrontier w = ucast (drop_bit 32 w)"

definition fr_mpscBase_Capacity :: "'a fr_mpscBase \<Rightarrow> int" where
  "fr_mpscBase_Capacity r = int (unat (fmp_mask (fmb_producerConfig r) + 1))"

definition fr_mpscBase_MaxEnqueueBatch :: "'a fr_mpscBase \<Rightarrow> int" where
  "fr_mpscBase_MaxEnqueueBatch r = int (unat (fmp_maxBatch (fmb_producerConfig r)))"

definition fr_mpscBase_MaxDequeueBatch :: "'a fr_mpscBase \<Rightarrow> int" where
  "fr_mpscBase_MaxDequeueBatch r = int (unat (fmc_maxBatch (fmb_consumer r)))"

definition fr_mpscCountFromSnapshot :: "'a fr_mpscBase \<Rightarrow> u64 \<Rightarrow> int" where
  "fr_mpscCountFromSnapshot r before =
     (let cursorLow = mpscReleased before;
          head = fmr_head (fmb_producerReservation r);
          distance = low head - cursorLow;
          acquired = mpscFrontier before - cursorLow;
          capacity = fmp_mask (fmb_producerConfig r) + 1;
          result = (if ucast distance \<le> head
                    then (let cursor = head - ucast distance;
                              limit = min (ucast distance) (ucast capacity)
                          in if ucast acquired \<le> limit
                             then scanRecords (fmk_records (fmb_completion r)) (fmp_mask (fmb_producerConfig r))
                                    cursor limit (cursor + ucast acquired) - cursor
                             else ucast (min acquired capacity))
                    else (ucast (min acquired capacity) :: u64));
          after = fmb_consumerPublished r
      in if before \<noteq> after then int (unat (min (mpscFrontier after - mpscReleased after) capacity))
         else int (unat result))"

definition fr_mpscBase_Count :: "'a fr_mpscBase \<Rightarrow> int" where
  "fr_mpscBase_Count r = fr_mpscCountFromSnapshot r (fmb_consumerPublished r)"

definition fr_mpscBase_Free :: "'a fr_mpscBase \<Rightarrow> int" where
  "fr_mpscBase_Free r = fr_mpscBase_Capacity r - fr_mpscBase_Count r"

definition fr_mpscBase_Full :: "'a fr_mpscBase \<Rightarrow> bool" where
  "fr_mpscBase_Full r \<longleftrightarrow> fr_mpscBase_Count r = fr_mpscBase_Capacity r"

definition fr_mpscBase_Empty :: "'a fr_mpscBase \<Rightarrow> bool" where
  "fr_mpscBase_Empty r \<longleftrightarrow> fr_mpscBase_Count r = 0"

definition fr_mpscBase_Reset :: "('a::zero) fr_mpscBase \<Rightarrow> 'a fr_mpscBase" where
  "fr_mpscBase_Reset r =
     r\<lparr>fmb_entries := replicate (length (fmb_entries r)) 0,
       fmb_completion := \<lparr>fmk_records = replicate (length (fmk_records (fmb_completion r))) 0\<rparr>,
       fmb_producerReservation := \<lparr>fmr_head = 0, fmr_cachedConsumer = 0\<rparr>,
       fmb_consumer := (fmb_consumer r)\<lparr>fmc_cursor := 0, fmc_frontier := 0\<rparr>,
       fmb_consumerPublished := 0\<rparr>"

text \<open>One reservation attempt with a head loaded before: start, count, remaining, retry.\<close>

definition fr_mpscAttemptProducer ::
    "'a fr_mpscBase \<Rightarrow> u64 \<Rightarrow> u32 \<Rightarrow> bool \<Rightarrow> bool \<Rightarrow> 'a fr_mpscBase \<times> u64 \<times> u32 \<times> u32 \<times> bool" where
  "fr_mpscAttemptProducer r head requested fixed exact =
     (let capacity = fmp_mask (fmb_producerConfig r) + 1;
          headLow = low head;
          reservation = fmb_producerReservation r;
          cached = fmr_cachedConsumer reservation;
          released = multi_consumer capacity exact requested cached headLow (mpscReleased (fmb_consumerPublished r));
          free = capacity + released - headLow
      in if free > capacity then (r, head, 0, 0, True)
         else if fixed \<and> free < requested then (r, head, 0, free, False)
         else (let count = min requested free
               in if count = 0 then (r, head, 0, free, False)
                  else (let reservation1 = (if released \<noteq> cached then reservation\<lparr>fmr_cachedConsumer := released\<rparr>
                                            else reservation)
                        in if fmr_head reservation1 \<noteq> head
                           then (r\<lparr>fmb_producerReservation := reservation1\<rparr>, head, 0, 0, True)
                           else (r\<lparr>fmb_producerReservation := reservation1\<lparr>fmr_head := head + ucast count\<rparr>\<rparr>,
                                 head, count, free - count, False))))"

partial_function (option) fr_mpscReserveProducer ::
    "'a fr_mpscBase \<Rightarrow> u32 \<Rightarrow> bool \<Rightarrow> bool \<Rightarrow> ('a fr_mpscBase \<times> u64 \<times> u32 \<times> u32) option" where
  "fr_mpscReserveProducer r requested fixed exact =
     (case fr_mpscAttemptProducer r (fmr_head (fmb_producerReservation r)) requested fixed exact of
        (r1, start, count, remaining, retry) \<Rightarrow>
          if \<not> retry then Some (r1, start, count, remaining)
          else fr_mpscReserveProducer r1 requested fixed exact)"

definition fr_mpscWriteProducer :: "'a fr_mpscBase \<Rightarrow> u64 \<Rightarrow> 'a list \<Rightarrow> 'a fr_mpscBase" where
  "fr_mpscWriteProducer r start items =
     (let msk = fmp_mask (fmb_producerConfig r)
      in if length items = 1 then r\<lparr>fmb_entries := (fmb_entries r)[slot (low start) msk := items ! 0]\<rparr>
         else r\<lparr>fmb_entries := copy_in (fmb_entries r) msk (low start) items\<rparr>)"

definition fr_mpscPublishProducer :: "'a fr_mpscBase \<Rightarrow> u64 \<Rightarrow> u32 \<Rightarrow> 'a fr_mpscBase" where
  "fr_mpscPublishProducer r start count =
     r\<lparr>fmb_completion := \<lparr>fmk_records = (fmk_records (fmb_completion r))
          [slot (low start) (fmp_mask (fmb_producerConfig r)) := start + ucast count]\<rparr>\<rparr>"

definition fr_mpscDiscover :: "'a fr_mpscBase \<Rightarrow> u64 \<Rightarrow> u64 \<Rightarrow> bool \<Rightarrow> u32 \<Rightarrow> u64" where
  "fr_mpscDiscover r cursor frontier stopWhenRequestFits requested =
     (let capacity = ucast (fmc_mask (fmb_consumer r) + 1);
          stopAt = (if stopWhenRequestFits then ucast requested else capacity)
      in discoverRecords (fmk_records (fmb_completion r)) (fmc_mask (fmb_consumer r)) cursor capacity frontier stopAt)"

text \<open>Reads an interval into a destination of its length and clears it when enabled.\<close>

definition fr_mpscReadConsumer :: "('a::zero) fr_mpscBase \<Rightarrow> u64 \<Rightarrow> 'a list \<Rightarrow> 'a fr_mpscBase \<times> 'a list" where
  "fr_mpscReadConsumer r start dst =
     (let consumer = fmb_consumer r; len = of_nat (length dst); base = slot (low start) (fmc_mask consumer)
      in if length dst = 1
         then (if fmc_clearOnDequeue consumer then r\<lparr>fmb_entries := (fmb_entries r)[base := 0]\<rparr> else r,
               [fmb_entries r ! base])
         else (if fmc_clearOnDequeue consumer
               then r\<lparr>fmb_entries := clear_slots (fmb_entries r) (fmc_mask consumer) (low start) len\<rparr> else r,
               copy_out (fmb_entries r) (fmc_mask consumer) (low start) len))"

definition fr_mpscReleaseConsumer :: "'a fr_mpscBase \<Rightarrow> u32 \<Rightarrow> 'a fr_mpscBase" where
  "fr_mpscReleaseConsumer r count =
     (let consumer = (fmb_consumer r)\<lparr>fmc_cursor := fmc_cursor (fmb_consumer r) + ucast count\<rparr>
      in r\<lparr>fmb_consumer := consumer,
           fmb_consumerPublished := mpscConsumerWord (low (fmc_cursor consumer)) (low (fmc_frontier consumer))\<rparr>)"

definition fr_mpsc_store_frontier :: "'a fr_mpscBase \<Rightarrow> u64 \<Rightarrow> 'a fr_mpscBase" where
  "fr_mpsc_store_frontier r frontier = r\<lparr>fmb_consumer := (fmb_consumer r)\<lparr>fmc_frontier := frontier\<rparr>\<rparr>"

definition fr_mpscDequeueBatch :: "('a::zero) fr_mpscBase \<Rightarrow> 'a list \<Rightarrow> bool \<Rightarrow> 'a fr_mpscBase \<times> int \<times> int \<times> 'a list" where
  "fr_mpscDequeueBatch r dst fixed =
     (let consumer = fmb_consumer r;
          capacity = ucast (fmc_mask consumer + 1);
          len = of_nat (length dst) :: u32;
          cursor = fmc_cursor consumer;
          previousFrontier = fmc_frontier consumer;
          available0 = previousFrontier - cursor;
          frontier = (if fmc_exactBatchCounts consumer \<or> len = 0 \<or> available0 < ucast len \<or> available0 > capacity
                      then fr_mpscDiscover r cursor previousFrontier False 0 else previousFrontier);
          r1 = fr_mpsc_store_frontier r frontier;
          available = frontier - cursor
      in if available > capacity \<or> (fixed \<and> available < ucast len) \<or> len = 0 \<or> available = 0
         then (if frontier > previousFrontier
               then r1\<lparr>fmb_consumerPublished := mpscConsumerWord (low cursor) (low frontier)\<rparr> else r1,
               0, int (unat (min available capacity)), dst)
         else (let n = min len (ucast available);
                   (r2, out) = fr_mpscReadConsumer r1 cursor (take (unat n) dst)
               in (fr_mpscReleaseConsumer r2 n, int (unat n), int (unat (available - ucast n)), out @ drop (unat n) dst)))"

definition fr_mpscBase_Enqueue :: "'a fr_mpscBase \<Rightarrow> 'a \<Rightarrow> ('a fr_mpscBase \<times> ring_error option) option" where
  "fr_mpscBase_Enqueue r item =
     (case fr_mpscReserveProducer r 1 True False of
        None \<Rightarrow> None
      | Some (r1, start, count, _) \<Rightarrow>
          if count = 0 then Some (r1, Some (Sentinel ErrFull))
          else (let r2 = r1\<lparr>fmb_entries := (fmb_entries r1)[slot (low start) (fmp_mask (fmb_producerConfig r1)) := item]\<rparr>
                in Some (fr_mpscPublishProducer r2 start count, None)))"

definition fr_mpscBase_Dequeue :: "('a::zero) fr_mpscBase \<Rightarrow> 'a fr_mpscBase \<times> 'a \<times> ring_error option" where
  "fr_mpscBase_Dequeue r =
     (let consumer = fmb_consumer r;
          frontier = (if fmc_frontier consumer = fmc_cursor consumer
                      then fr_mpscDiscover r (fmc_cursor consumer) (fmc_frontier consumer) True 1
                      else fmc_frontier consumer);
          r1 = fr_mpsc_store_frontier r frontier
      in if frontier = fmc_cursor consumer then (r1, 0, Some (Sentinel ErrEmpty))
         else (let index = slot (low (fmc_cursor consumer)) (fmc_mask consumer);
                   v = fmb_entries r1 ! index;
                   r2 = (if fmc_clearOnDequeue consumer then r1\<lparr>fmb_entries := (fmb_entries r1)[index := 0]\<rparr> else r1)
               in (fr_mpscReleaseConsumer r2 1, v, None)))"

definition fr_mpscBase_EnqueueBulk ::
    "'a fr_mpscBase \<Rightarrow> 'a list \<Rightarrow> ('a fr_mpscBase \<times> int \<times> ring_error option) option" where
  "fr_mpscBase_EnqueueBulk r items =
     (let producer = fmb_producerConfig r; capacity = fmp_mask producer + 1
      in if length items > unat capacity \<or> length items > unat (fmp_maxBatch producer)
         then (let head = fmr_head (fmb_producerReservation r);
                   fresh = capacity + mpscReleased (fmb_consumerPublished r) - low head
               in Some (r, int (unat (min fresh capacity)),
                        Some (BatchLengthError (int (length items)) (fmp_maxBatch producer) capacity)))
         else (case fr_mpscReserveProducer r (of_nat (length items)) True (fmp_exactBatchCounts producer) of
                 None \<Rightarrow> None
               | Some (r1, start, count, remaining) \<Rightarrow>
                   if count = 0
                   then (if length items = 0 then Some (r1, int (unat remaining), None)
                         else Some (r1, int (unat remaining), Some (Sentinel ErrFull)))
                   else Some (fr_mpscPublishProducer (fr_mpscWriteProducer r1 start items) start count,
                          int (unat remaining), None)))"

definition fr_mpscBase_EnqueueBurst :: "'a fr_mpscBase \<Rightarrow> 'a list \<Rightarrow> ('a fr_mpscBase \<times> int \<times> int) option" where
  "fr_mpscBase_EnqueueBurst r items =
     (let producer = fmb_producerConfig r;
          len = min (length items) (unat (fmp_maxBatch producer))
      in case fr_mpscReserveProducer r (of_nat len) False (fmp_exactBatchCounts producer) of
           None \<Rightarrow> None
         | Some (r1, start, count, remaining) \<Rightarrow>
             if count = 0 then Some (r1, 0, int (unat remaining))
             else Some (fr_mpscPublishProducer (fr_mpscWriteProducer r1 start (take (unat count) items)) start count,
                    int (unat count), int (unat remaining)))"

definition fr_mpscBase_DequeueBulk ::
    "('a::zero) fr_mpscBase \<Rightarrow> 'a list \<Rightarrow> 'a fr_mpscBase \<times> int \<times> ring_error option \<times> 'a list" where
  "fr_mpscBase_DequeueBulk r dst =
     (let consumer = fmb_consumer r; capacity = fmc_mask consumer + 1
      in if length dst > unat capacity \<or> length dst > unat (fmc_maxBatch consumer)
         then (let cursor = fmc_cursor consumer;
                   fresh = fr_mpscDiscover r cursor (fmc_frontier consumer) False 0 - cursor
               in (r, int (unat (min fresh (ucast capacity))),
                   Some (BatchLengthError (int (length dst)) (fmc_maxBatch consumer) capacity), dst))
         else (let (r1, moved, remaining, out) = fr_mpscDequeueBatch r dst True
               in (r1, remaining, if moved \<noteq> int (length dst) then Some (Sentinel ErrEmpty) else None, out)))"

definition fr_mpscBase_DequeueBurst :: "('a::zero) fr_mpscBase \<Rightarrow> 'a list \<Rightarrow> 'a fr_mpscBase \<times> int \<times> int \<times> 'a list" where
  "fr_mpscBase_DequeueBurst r dst =
     (let len = min (length dst) (unat (fmc_maxBatch (fmb_consumer r)));
          (r1, moved, remaining, out) = fr_mpscDequeueBatch r (take len dst) False
      in (r1, moved, remaining, out @ drop len dst))"

text \<open>
  The queue embeds the core: the transfer methods are the core's. \<^verbatim>\<open>Count\<close> and the methods that call it
  may store the position they have seen completed, so they return the queue too.
\<close>

record 'a FR_MPSCQueue =
  fmq_base :: "'a fr_mpscBase"
  fmq_observerCompleted :: u64

definition FR_NewMPSCQueue :: "int \<Rightarrow> fr_Option list \<Rightarrow> ring_error + ('a::zero) FR_MPSCQueue" where
  "FR_NewMPSCQueue count options =
     (case fr_resolveConfig count options of
        Inl e \<Rightarrow> Inl e
      | Inr cfg \<Rightarrow> Inr \<lparr>fmq_base = fr_mpscBase_init fr_mpscBase_zero count cfg, fmq_observerCompleted = 0\<rparr>)"

record mpscCountObservation =
  mco_result :: u64
  mco_observed :: u64
  mco_end :: u64
  mco_retain :: bool

definition mpscScanCount :: "'a FR_MPSCQueue \<Rightarrow> u64 \<Rightarrow> mpscCountObservation" where
  "mpscScanCount q before =
     (let r = fmq_base q;
          released = mpscReleased before;
          acquired = mpscFrontier before - released;
          capacity = fmp_mask (fmb_producerConfig r) + 1;
          observation = \<lparr>mco_result = ucast (min acquired capacity), mco_observed = 0, mco_end = 0, mco_retain = False\<rparr>;
          head = fmr_head (fmb_producerReservation r);
          distance = low head - released
      in if acquired = capacity then observation
         else if ucast distance > head then observation
         else (let cursor = head - ucast distance;
                   limit = min (ucast distance) (ucast capacity)
               in if ucast acquired > limit then observation
                  else (let end0 = cursor + ucast acquired
                        in if ucast acquired < limit
                           then (let observed = fmq_observerCompleted q;
                                     end1 = (if observed \<ge> end0 \<and> observed - cursor \<le> limit then observed else end0);
                                     end2 = scanRecords (fmk_records (fmb_completion r))
                                       (fmp_mask (fmb_producerConfig r)) cursor limit end1
                                 in \<lparr>mco_result = end2 - cursor, mco_observed = observed, mco_end = end2, mco_retain = True\<rparr>)
                           else \<lparr>mco_result = end0 - cursor, mco_observed = 0, mco_end = end0, mco_retain = False\<rparr>)))"

definition mpscValidateCount :: "'a FR_MPSCQueue \<Rightarrow> u64 \<Rightarrow> mpscCountObservation \<Rightarrow> int \<times> bool" where
  "mpscValidateCount q before observation =
     (let after = fmb_consumerPublished (fmq_base q)
      in if before \<noteq> after
         then (let acquired = mpscFrontier after - mpscReleased after
               in (int (unat (min acquired (fmp_mask (fmb_producerConfig (fmq_base q)) + 1))), False))
         else (int (unat (mco_result observation)), mco_retain observation))"

definition mpscPublishProof :: "'a FR_MPSCQueue \<Rightarrow> u64 \<Rightarrow> u64 \<Rightarrow> 'a FR_MPSCQueue" where
  "mpscPublishProof q observed pos =
     (if pos > observed \<and> fmq_observerCompleted q = observed then q\<lparr>fmq_observerCompleted := pos\<rparr> else q)"

definition FR_MPSC_Count :: "'a FR_MPSCQueue \<Rightarrow> 'a FR_MPSCQueue \<times> int" where
  "FR_MPSC_Count q =
     (let before = fmb_consumerPublished (fmq_base q);
          observation = mpscScanCount q before;
          (result, retain) = mpscValidateCount q before observation
      in (if retain then mpscPublishProof q (mco_observed observation) (mco_end observation) else q, result))"

definition FR_MPSC_Free :: "'a FR_MPSCQueue \<Rightarrow> 'a FR_MPSCQueue \<times> int" where
  "FR_MPSC_Free q = (let (q', n) = FR_MPSC_Count q in (q', fr_mpscBase_Capacity (fmq_base q) - n))"

definition FR_MPSC_Full :: "'a FR_MPSCQueue \<Rightarrow> 'a FR_MPSCQueue \<times> bool" where
  "FR_MPSC_Full q = (let (q', n) = FR_MPSC_Count q in (q', n = fr_mpscBase_Capacity (fmq_base q)))"

definition FR_MPSC_Empty :: "'a FR_MPSCQueue \<Rightarrow> 'a FR_MPSCQueue \<times> bool" where
  "FR_MPSC_Empty q = (let (q', n) = FR_MPSC_Count q in (q', n = 0))"

definition FR_MPSC_Reset :: "('a::zero) FR_MPSCQueue \<Rightarrow> 'a FR_MPSCQueue" where
  "FR_MPSC_Reset q = q\<lparr>fmq_base := fr_mpscBase_Reset (fmq_base q), fmq_observerCompleted := 0\<rparr>"

section \<open>Invariant of the transfer core\<close>

abbreviation fmb_head :: "'a fr_mpscBase \<Rightarrow> u64" where
  "fmb_head r \<equiv> fmr_head (fmb_producerReservation r)"

abbreviation fmb_cursor :: "'a fr_mpscBase \<Rightarrow> u64" where
  "fmb_cursor r \<equiv> fmc_cursor (fmb_consumer r)"

abbreviation fmb_frontier :: "'a fr_mpscBase \<Rightarrow> u64" where
  "fmb_frontier r \<equiv> fmc_frontier (fmb_consumer r)"

abbreviation fmb_mask :: "'a fr_mpscBase \<Rightarrow> u32" where
  "fmb_mask r \<equiv> fmp_mask (fmb_producerConfig r)"

abbreviation fmb_records :: "'a fr_mpscBase \<Rightarrow> u64 list" where
  "fmb_records r \<equiv> fmk_records (fmb_completion r)"

text \<open>
  \<open>obs\<close> is a position an observer may have stored: when the consumer has not passed it, the records
  lead from it to the head.
\<close>

definition fr_base_inv :: "u64 \<Rightarrow> 'a fr_mpscBase \<Rightarrow> bool" where
  "fr_base_inv obs r \<longleftrightarrow>
     ring_inv (fmb_entries r) (fmb_mask r) (low (fmb_head r)) (fmr_cachedConsumer (fmb_producerReservation r))
       (low (fmb_cursor r)) (low (fmb_frontier r))
     \<and> fmb_cursor r \<le> fmb_frontier r \<and> fmb_frontier r \<le> fmb_head r
     \<and> unat (fmb_head r) - unat (fmb_cursor r) \<le> length (fmb_entries r)
     \<and> length (fmb_records r) = length (fmb_entries r)
     \<and> records_inv (fmb_records r) (fmb_mask r) (fmb_frontier r) (fmb_head r)
     \<and> (fmb_frontier r \<le> obs \<longrightarrow> record_path (fmb_records r) (fmb_mask r) obs (fmb_head r))
     \<and> fmb_consumerPublished r = mpscConsumerWord (low (fmb_cursor r)) (low (fmb_frontier r))
     \<and> fmc_mask (fmb_consumer r) = fmb_mask r
     \<and> fmc_exactBatchCounts (fmb_consumer r) = fmp_exactBatchCounts (fmb_producerConfig r)
     \<and> unat (fmp_maxBatch (fmb_producerConfig r)) \<le> length (fmb_entries r)
     \<and> unat (fmc_maxBatch (fmb_consumer r)) \<le> length (fmb_entries r)"

definition fr_base_conf :: "'a fr_mpscBase \<Rightarrow> qconf" where
  "fr_base_conf r = \<lparr>qc_cap = length (fmb_entries r), qc_maxE = unat (fmp_maxBatch (fmb_producerConfig r)),
     qc_maxD = unat (fmc_maxBatch (fmb_consumer r)), qc_exact = fmp_exactBatchCounts (fmb_producerConfig r)\<rparr>"

definition fr_base_contents :: "'a fr_mpscBase \<Rightarrow> 'a list" where
  "fr_base_contents r = ring_contents (fmb_entries r) (low (fmb_head r)) (low (fmb_cursor r))"

text \<open>Positions must not overflow: \<open>n\<close> more elements can be accepted.\<close>

definition fr_base_fits :: "'a fr_mpscBase \<Rightarrow> nat \<Rightarrow> bool" where
  "fr_base_fits r n \<longleftrightarrow> unat (fmb_head r) + n < 2 ^ 64"

lemma consumer_word [simp]:
  "mpscReleased (mpscConsumerWord cursor frontier) = cursor"
  "mpscFrontier (mpscConsumerWord cursor frontier) = frontier"
proof -
  have w: "mpscConsumerWord cursor frontier = pack frontier cursor" by (simp add: mpscConsumerWord_def pack_def)
  show "mpscReleased (mpscConsumerWord cursor frontier) = cursor"
    "mpscFrontier (mpscConsumerWord cursor frontier) = frontier"
    using unpack_pack [of frontier cursor]
    by (simp_all add: w mpscReleased_def mpscFrontier_def unpackPos_def unpackCnt_def)
qed

lemma fr_base_ring: "fr_base_inv obs r \<Longrightarrow>
    ring_inv (fmb_entries r) (fmb_mask r) (low (fmb_head r)) (fmr_cachedConsumer (fmb_producerReservation r))
       (low (fmb_cursor r)) (low (fmb_frontier r))"
  by (simp add: fr_base_inv_def)

lemma fr_base_geom: "fr_base_inv obs r \<Longrightarrow> geom (fmb_entries r) (fmb_mask r)"
  by (rule ring_geom [OF fr_base_ring])

lemma fr_base_records: "fr_base_inv obs r \<Longrightarrow> records_inv (fmb_records r) (fmb_mask r) (fmb_frontier r) (fmb_head r)"
  by (simp add: fr_base_inv_def)

lemma fr_base_order:
  assumes "fr_base_inv obs r"
  shows "unat (fmb_cursor r) \<le> unat (fmb_frontier r)" "unat (fmb_frontier r) \<le> unat (fmb_head r)"
    "unat (fmb_head r) \<le> unat (fmb_cursor r) + length (fmb_entries r)"
  using assms by (auto simp: fr_base_inv_def word_le_nat_alt)

lemma fr_base_dist:
  assumes "fr_base_inv obs r"
  shows "unat (low (fmb_head r) - low (fmb_cursor r)) = unat (fmb_head r) - unat (fmb_cursor r)"
    "unat (low (fmb_frontier r) - low (fmb_cursor r)) = unat (fmb_frontier r) - unat (fmb_cursor r)"
proof -
  note g = geom_le [OF fr_base_geom [OF assms]] and o = fr_base_order [OF assms]
  have "fmb_cursor r \<le> fmb_head r" "fmb_cursor r \<le> fmb_frontier r" using o by (simp_all add: word_le_nat_alt)
  then show "unat (low (fmb_head r) - low (fmb_cursor r)) = unat (fmb_head r) - unat (fmb_cursor r)"
    "unat (low (fmb_frontier r) - low (fmb_cursor r)) = unat (fmb_frontier r) - unat (fmb_cursor r)"
    using g o by (simp_all add: low_diff u64_diff)
qed

lemma length_fr_base_contents:
  "fr_base_inv obs r \<Longrightarrow> length (fr_base_contents r) = unat (fmb_head r) - unat (fmb_cursor r)"
  by (simp add: fr_base_contents_def fr_base_dist)

lemma fr_base_bounded: "fr_base_inv obs r \<Longrightarrow> length (fr_base_contents r) \<le> qc_cap (fr_base_conf r)"
  using fr_base_order [of obs r] by (simp add: length_fr_base_contents fr_base_conf_def)

lemma fr_base_cap: "fr_base_inv obs r \<Longrightarrow> unat (fmb_mask r + 1) = qc_cap (fr_base_conf r)"
  using geom_cap [OF fr_base_geom] by (simp add: fr_base_conf_def)

section \<open>Enqueueing\<close>

text \<open>Reservation, copy and publication, as the enqueue methods compose them.\<close>

definition fr_mpsc_put :: "'a fr_mpscBase \<Rightarrow> bool \<Rightarrow> 'a list \<Rightarrow> bool \<Rightarrow> ('a fr_mpscBase \<times> int \<times> int) option" where
  "fr_mpsc_put r exact items fixed =
     (case fr_mpscReserveProducer r (of_nat (length items)) fixed exact of
        None \<Rightarrow> None
      | Some (r1, start, count, remaining) \<Rightarrow>
          if count = 0 then Some (r1, 0, int (unat remaining))
          else Some (fr_mpscPublishProducer (fr_mpscWriteProducer r1 start (take (unat count) items)) start count,
                 int (unat count), int (unat remaining)))"

lemma fr_mpsc_attempt:
  fixes r :: "'a fr_mpscBase" and fixed :: bool
  assumes "fr_base_inv obs r" "unat len \<le> length (fmb_entries r)"
    and "serial_free (fmb_mask r + 1) exact len (fmr_cachedConsumer (fmb_producerReservation r))
      (low (fmb_head r)) (low (fmb_cursor r)) = (cc', free)"
    and "\<not> fmb_mask r + 1 < free"
  defines "count \<equiv> (if fixed \<and> free < len then 0 else min len free)"
  shows "fr_mpscReserveProducer r len fixed exact =
    Some (if count = 0 then r else r\<lparr>fmb_producerReservation := \<lparr>fmr_head = fmb_head r + ucast count, fmr_cachedConsumer = cc'\<rparr>\<rparr>,
      fmb_head r, count, free - count)"
proof -
  have "mpscReleased (fmb_consumerPublished r) = low (fmb_cursor r)" using assms(1) by (simp add: fr_base_inv_def)
  then have seen: "multi_consumer (fmb_mask r + 1) exact len (fmr_cachedConsumer (fmb_producerReservation r))
      (low (fmb_head r)) (mpscReleased (fmb_consumerPublished r)) = cc'"
    "fmb_mask r + 1 + cc' - low (fmb_head r) = free"
    using multi_consumer_eq [OF fr_base_ring [OF assms(1)] assms(2), of exact] assms(3) by (auto simp: Let_def)
  have "fr_mpscAttemptProducer r (fmb_head r) len fixed exact =
    (if count = 0 then r else r\<lparr>fmb_producerReservation := \<lparr>fmr_head = fmb_head r + ucast count, fmr_cachedConsumer = cc'\<rparr>\<rparr>,
      fmb_head r, count, free - count, False)"
    unfolding fr_mpscAttemptProducer_def Let_def seen using assms(4) by (auto simp: count_def)
  then show ?thesis by (subst fr_mpscReserveProducer.simps) simp
qed

lemma fr_mpsc_write:
  assumes "geom (fmb_entries r) (fmb_mask r)"
  shows "fr_mpscWriteProducer r start items
    = r\<lparr>fmb_entries := copy_in (fmb_entries r) (fmb_mask r) (low start) items\<rparr>"
proof (cases "length items = 1")
  case True
  then obtain x where "items = [x]" by (auto simp: length_Suc_conv)
  then show ?thesis using copy_in_one [OF assms] by (simp add: fr_mpscWriteProducer_def)
qed (simp add: fr_mpscWriteProducer_def Let_def)

text \<open>The core after \<open>n\<close> elements were written from the head on and published.\<close>

lemma fr_base_push:
  assumes "fr_base_inv obs r" "n \<noteq> 0" "unat (fmb_head r) + unat n < 2 ^ 64"
    and "unat n \<le> length (fmb_entries r) - (unat (fmb_head r) - unat (fmb_cursor r))"
    and "ring_inv es (fmb_mask r) (low (fmb_head r) + n) cc' (low (fmb_cursor r)) (low (fmb_frontier r))"
    and "length es = length (fmb_entries r)"
  shows "fr_base_inv obs (r\<lparr>fmb_entries := es,
      fmb_producerReservation := \<lparr>fmr_head = fmb_head r + ucast n, fmr_cachedConsumer = cc'\<rparr>,
      fmb_completion := \<lparr>fmk_records = (fmb_records r)[slot (low (fmb_head r)) (fmb_mask r) := fmb_head r + ucast n]\<rparr>\<rparr>)"
proof -
  let ?h = "fmb_head r + ucast n"
  note o = fr_base_order [OF assms(1)]
  have h: "unat ?h = unat (fmb_head r) + unat n" using assms(3) by (rule unat_advance)
  have pos: "0 < unat n" using assms(2) by (simp add: unat_gt_0)
  have lt: "fmb_head r < ?h" using h pos by (simp add: word_less_nat_alt)
  have len: "length (fmb_records r) = length (fmb_entries r)" using assms(1) by (simp add: fr_base_inv_def)
  have near: "unat (fmb_head r) - unat p < length (fmb_records r)" if "fmb_frontier r \<le> p" for p
    using that o pos assms(4) len by (simp add: word_le_nat_alt)
  have new: "records_inv ((fmb_records r)[slot (low (fmb_head r)) (fmb_mask r) := ?h]) (fmb_mask r) p ?h"
    if "records_inv (fmb_records r) (fmb_mask r) p (fmb_head r)" "fmb_frontier r \<le> p" for p
    by (rule records_store [OF that(1) lt near [OF that(2)]])
  have "record_path ((fmb_records r)[slot (low (fmb_head r)) (fmb_mask r) := ?h]) (fmb_mask r) obs ?h"
    if "fmb_frontier r \<le> obs"
    using new [of obs] that assms(1) by (auto simp: fr_base_inv_def records_inv_def)
  moreover have "unat ?h - unat (fmb_cursor r) \<le> length es" using h o assms(4,6) by simp
  moreover have "fmb_frontier r \<le> ?h" using h o by (simp add: word_le_nat_alt)
  ultimately show ?thesis
    using assms(1,5,6) new [OF fr_base_records [OF assms(1)] order_refl] by (simp add: fr_base_inv_def low_add)
qed

lemma fr_mpsc_put_ok:
  fixes r :: "'a fr_mpscBase" and fixed :: bool
  assumes "fr_base_inv obs r" "length items \<le> qc_cap (fr_base_conf r)" "fr_base_fits r (length items + n)"
  defines "N \<equiv> qc_cap (fr_base_conf r) - length (fr_base_contents r)"
  defines "m \<equiv> admitted fixed (length items) N"
  shows "\<exists>r' rem. fr_mpsc_put r exact items fixed = Some (r', int m, rem) \<and> fr_base_inv obs r'
    \<and> fr_base_conf r' = fr_base_conf r \<and> fr_base_fits r' n
    \<and> fr_base_contents r' = fr_base_contents r @ take m items
    \<and> reports (exact \<or> items = [] \<or> m < length items) rem (N - m)"
proof -
  let ?p = "low (fmb_head r)" and ?c = "low (fmb_cursor r)"
  note g = fr_base_geom [OF assms(1)]
  have len: "length items \<le> length (fmb_entries r)" using assms(2) by (simp add: fr_base_conf_def)
  have N: "N = length (fmb_entries r) - unat (?p - ?c)" by (simp add: N_def fr_base_conf_def fr_base_contents_def)
  have lw: "unat (of_nat (length items) :: u32) \<le> length (fmb_entries r)" using len_word [OF len g] len by simp
  show ?thesis
  proof (rule put_admits [OF fr_base_ring [OF assms(1)] len, of exact], goal_cases)
    case (1 cc' free k)
    note a = 1 [folded N]
    have m: "m = (if fixed \<and> N < length items then 0 else unat k)" using a(5) by (simp add: m_def admitted_def)
    note res = fr_mpsc_attempt [OF assms(1) lw a(1,2), of fixed]
    show ?case
    proof (cases "fixed \<and> N < length items \<or> k = 0")
      case True
      then have "m = 0" using m by auto
      moreover have "(if fixed \<and> free < of_nat (length items) then 0 else min (of_nat (length items)) free) = 0"
        using True a(3,4) by auto
      ultimately have "fr_mpsc_put r exact items fixed = Some (r, int m, int (unat free))"
        using res by (simp add: fr_mpsc_put_def)
      moreover have "reports (exact \<or> items = [] \<or> m < length items) (int (unat free)) (N - m)"
        using a(5,9,11) \<open>m = 0\<close> True by (auto simp: reports_def)
      moreover have "fr_base_fits r n" using assms(3) by (simp add: fr_base_fits_def)
      ultimately show ?thesis using assms(1) \<open>m = 0\<close> by simp
    next
      case False
      let ?es = "copy_in (fmb_entries r) (fmb_mask r) ?p (take (unat k) items)"
      let ?r' = "r\<lparr>fmb_entries := ?es,
        fmb_producerReservation := \<lparr>fmr_head = fmb_head r + ucast k, fmr_cachedConsumer = cc'\<rparr>,
        fmb_completion := \<lparr>fmk_records = (fmb_records r)[slot ?p (fmb_mask r) := fmb_head r + ucast k]\<rparr>\<rparr>"
      have k: "m = unat k" "\<not> (fixed \<and> free < of_nat (length items))" "k \<noteq> 0" "unat k \<le> N" "unat k \<le> length items"
        using False m a(4,5) by auto
      have fit: "unat (fmb_head r) + unat k < 2 ^ 64" "unat (fmb_head r + ucast k) + n < 2 ^ 64"
        using assms(3) k(5) unat_advance [of "fmb_head r" k] by (simp_all add: fr_base_fits_def)
      have "fr_mpsc_put r exact items fixed = Some (?r', int (unat k), int (unat (free - k)))"
        using res k(2,3) a(3) g by (simp add: fr_mpsc_put_def fr_mpsc_write fr_mpscPublishProducer_def)
      moreover have "reports (exact \<or> items = [] \<or> m < length items) (int (unat (free - k))) (N - m)"
        using a(9,10,11) k(1) by (auto simp: reports_def)
      moreover have "fr_base_inv obs ?r'"
        using fr_base_push [OF assms(1) k(3) fit(1) _ a(7)] k(4) N fr_base_dist(1) [OF assms(1)] by simp
      ultimately show ?thesis
        using a(8) k(1) fit(2) by (simp add: fr_base_conf_def fr_base_contents_def fr_base_fits_def low_add)
    qed
  qed
qed

section \<open>Dequeueing\<close>

lemma fr_base_wide_cap: "fr_base_inv obs r \<Longrightarrow>
    unat (ucast (fmc_mask (fmb_consumer r) + 1) :: u64) = length (fmb_entries r)"
  using geom_cap [OF fr_base_geom [of obs r]] by (simp add: fr_base_inv_def)

lemma fr_base_discover_all:
  assumes "fr_base_inv obs r"
  shows "fr_mpscDiscover r (fmb_cursor r) (fmb_frontier r) False k = fmb_head r"
proof -
  have "fmb_cursor r \<le> fmb_frontier r" "fmc_mask (fmb_consumer r) = fmb_mask r"
    "unat (fmb_head r) - unat (fmb_cursor r) \<le> unat (ucast (fmc_mask (fmb_consumer r) + 1) :: u64)"
    using assms fr_base_wide_cap [OF assms] by (simp_all add: fr_base_inv_def)
  then show ?thesis
    using records_discover_all [OF fr_base_records [OF assms]] by (simp add: fr_mpscDiscover_def Let_def)
qed

lemma fr_base_discover_some:
  assumes "fr_base_inv obs r" "fmb_frontier r = fmb_cursor r"
  obtains f where "fr_mpscDiscover r (fmb_cursor r) (fmb_frontier r) True 1 = f"
    "fmb_frontier r \<le> f" "records_inv (fmb_records r) (fmb_mask r) f (fmb_head r)"
    "f = fmb_cursor r \<longleftrightarrow> fmb_head r = fmb_cursor r"
proof -
  have b: "fmb_cursor r \<le> fmb_frontier r" "fmc_mask (fmb_consumer r) = fmb_mask r"
    "unat (fmb_head r) - unat (fmb_cursor r) \<le> unat (ucast (fmc_mask (fmb_consumer r) + 1) :: u64)"
    using assms fr_base_wide_cap [OF assms(1)] by (simp_all add: fr_base_inv_def)
  obtain f where f: "fr_mpscDiscover r (fmb_cursor r) (fmb_frontier r) True 1 = f"
    "record_path (fmb_records r) (fmb_mask r) (fmb_frontier r) f"
    "records_inv (fmb_records r) (fmb_mask r) f (fmb_head r)" "f = fmb_head r \<or> 1 \<le> f - fmb_cursor r"
    using records_discover [OF fr_base_records [OF assms(1)] b(1,3), of 1] b(2)
    by (auto simp: fr_mpscDiscover_def Let_def)
  have "f = fmb_cursor r \<longleftrightarrow> fmb_head r = fmb_cursor r"
    using f(4) path_le [OF f(2)] records_le [OF f(3)] assms(2) by auto
  then show thesis by (rule that [OF f(1) path_le [OF f(2)] f(3)])
qed

text \<open>The core after the consumer acquired intervals up to \<open>f\<close>, and after it then took \<open>n\<close> elements.\<close>

lemma fr_base_advance:
  assumes "fr_base_inv obs r" "fmb_frontier r \<le> f" "records_inv (fmb_records r) (fmb_mask r) f (fmb_head r)"
  shows "fr_base_inv obs ((fr_mpsc_store_frontier r f)\<lparr>fmb_consumerPublished := mpscConsumerWord (low (fmb_cursor r)) (low f)\<rparr>)"
proof -
  have o: "fmb_cursor r \<le> f" "f \<le> fmb_head r"
    using assms(2) records_le [OF assms(3)] fr_base_order(1) [OF assms(1)] by (auto simp: word_le_nat_alt)
  have le: "length (fmb_entries r) \<le> 2 ^ 30" by (rule geom_le [OF fr_base_geom [OF assms(1)]])
  have small: "unat f - unat (fmb_cursor r) < 2 ^ 32" "unat (fmb_head r) - unat (fmb_cursor r) < 2 ^ 32"
    "unat f \<le> unat (fmb_head r)"
    using o fr_base_order [OF assms(1)] le by (auto simp: word_le_nat_alt)
  have "unat (low f - low (fmb_cursor r)) \<le> unat (low (fmb_head r) - low (fmb_cursor r))"
    using small o low_diff [of f "fmb_cursor r"] fr_base_dist(1) [OF assms(1)] by (simp add: u64_diff)
  with assms o show ?thesis
    by (auto simp: fr_base_inv_def fr_mpsc_store_frontier_def ring_inv_def)
qed

lemma fr_base_pop:
  assumes "fr_base_inv obs r" "unat n \<le> unat (fmb_frontier r) - unat (fmb_cursor r)"
    and "es = fmb_entries r \<or> es = clear_slots (fmb_entries r) (fmb_mask r) (low (fmb_cursor r)) n"
  shows "fr_base_inv obs (fr_mpscReleaseConsumer (r\<lparr>fmb_entries := es\<rparr>) n)"
    and "fr_base_contents (fr_mpscReleaseConsumer (r\<lparr>fmb_entries := es\<rparr>) n) = drop (unat n) (fr_base_contents r)"
proof -
  note o = fr_base_order [OF assms(1)] and ring = fr_base_ring [OF assms(1)]
  have n: "unat n \<le> unat (low (fmb_frontier r) - low (fmb_cursor r))"
    using assms(2) fr_base_dist(2) [OF assms(1)] by simp
  have c: "unat (fmb_cursor r + ucast n) = unat (fmb_cursor r) + unat n"
    using assms(2) o(1) unat64_less [of "fmb_frontier r"] by (intro unat_advance) simp
  have len: "length es = length (fmb_entries r)" using assms(3) by auto
  have "ring_inv es (fmb_mask r) (low (fmb_head r)) (fmr_cachedConsumer (fmb_producerReservation r))
      (low (fmb_cursor r) + n) (low (fmb_frontier r))"
    "ring_contents es (low (fmb_head r)) (low (fmb_cursor r) + n) = drop (unat n) (fr_base_contents r)"
    using assms(3) ring_pop [OF ring n] ring_pop_clear [OF ring n] by (auto simp: fr_base_contents_def)
  moreover have "fmb_cursor r + ucast n \<le> fmb_frontier r"
    "unat (fmb_head r) - unat (fmb_cursor r + ucast n) \<le> length (fmb_entries r)"
    using c assms(2) o by (simp_all add: word_le_nat_alt)
  ultimately show "fr_base_inv obs (fr_mpscReleaseConsumer (r\<lparr>fmb_entries := es\<rparr>) n)"
    "fr_base_contents (fr_mpscReleaseConsumer (r\<lparr>fmb_entries := es\<rparr>) n) = drop (unat n) (fr_base_contents r)"
    using assms(1) len
    by (simp_all add: fr_base_inv_def fr_base_contents_def fr_mpscReleaseConsumer_def Let_def low_add)
qed

lemma fr_mpsc_read:
  assumes "geom (fmb_entries r) (fmc_mask (fmb_consumer r))" "length dst = unat n"
  shows "fr_mpscReadConsumer r start dst =
    (r\<lparr>fmb_entries := (if fmc_clearOnDequeue (fmb_consumer r)
       then clear_slots (fmb_entries r) (fmc_mask (fmb_consumer r)) (low start) n else fmb_entries r)\<rparr>,
     copy_out (fmb_entries r) (fmc_mask (fmb_consumer r)) (low start) n)"
proof (cases "length dst = 1")
  case True
  then have "n = 1" using assms(2) word_unat_eq_iff [of n 1] by simp
  with True show ?thesis
    using clear_one [OF assms(1), of "low start"] copy_out_one [OF assms(1)] by (simp add: fr_mpscReadConsumer_def Let_def)
qed (use assms(2) in \<open>simp add: fr_mpscReadConsumer_def Let_def\<close>)

text \<open>The frontier a batch dequeue works with: the known one, or the head when it has to discover.\<close>

definition fr_seen :: "'a fr_mpscBase \<Rightarrow> u32 \<Rightarrow> u64" where
  "fr_seen r len =
     (let consumer = fmb_consumer r; available = fmc_frontier consumer - fmc_cursor consumer
      in if fmc_exactBatchCounts consumer \<or> len = 0 \<or> available < ucast len \<or> available > ucast (fmc_mask consumer + 1)
         then fr_mpscDiscover r (fmc_cursor consumer) (fmc_frontier consumer) False 0 else fmc_frontier consumer)"

lemma fr_seen_facts:
  fixes r :: "'a fr_mpscBase"
  assumes "fr_base_inv obs r"
  defines "D \<equiv> length (fr_base_contents r)" and "C \<equiv> fmb_cursor r"
  shows "fmb_frontier r \<le> fr_seen r len" "records_inv (fmb_records r) (fmb_mask r) (fr_seen r len) (fmb_head r)"
    "unat (fr_seen r len - C) \<le> D"
    "qc_exact (fr_base_conf r) \<or> len = 0 \<or> unat (fr_seen r len - C) < unat len \<Longrightarrow> unat (fr_seen r len - C) = D"
proof -
  note o = fr_base_order [OF assms(1)] and rec = fr_base_records [OF assms(1)]
  have D: "D = unat (fmb_head r) - unat C" by (simp add: D_def C_def length_fr_base_contents [OF assms(1)])
  have d: "unat (fmb_frontier r - C) = unat (fmb_frontier r) - unat C" "unat (fmb_head r - C) = unat (fmb_head r) - unat C"
    using o by (simp_all add: u64_diff word_le_nat_alt C_def)
  have seen: "fr_seen r len = (if qc_exact (fr_base_conf r) \<or> len = 0 \<or> unat (fmb_frontier r - C) < unat len
      then fmb_head r else fmb_frontier r)"
    using assms(1) fr_base_discover_all [OF assms(1)] fr_base_wide_cap [OF assms(1)] d(1) o
    by (auto simp: fr_seen_def Let_def C_def word_less_nat_alt fr_base_inv_def fr_base_conf_def)
  show "fmb_frontier r \<le> fr_seen r len" using o by (simp add: seen word_le_nat_alt)
  show "records_inv (fmb_records r) (fmb_mask r) (fr_seen r len) (fmb_head r)"
    using rec by (auto simp: seen records_inv_def intro: path_end)
  show "unat (fr_seen r len - C) \<le> D" using D d o by (simp add: seen diff_le_mono)
  show "unat (fr_seen r len - C) = D"
    if "qc_exact (fr_base_conf r) \<or> len = 0 \<or> unat (fr_seen r len - C) < unat len"
    using that D d by (auto simp: seen split: if_splits)
qed

text \<open>Taking \<open>n\<close> elements out once the frontier covers them.\<close>

lemma fr_base_take:
  fixes r :: "('a::zero) fr_mpscBase"
  assumes "fr_base_inv obs r" "unat n \<le> unat (fmb_frontier r - fmb_cursor r)" "unat n \<le> length dst"
  shows "\<exists>r1 r'. fr_mpscReadConsumer r (fmb_cursor r) (take (unat n) dst) = (r1, take (unat n) (fr_base_contents r))
    \<and> fr_mpscReleaseConsumer r1 n = r' \<and> fr_base_inv obs r' \<and> fr_base_conf r' = fr_base_conf r \<and> fmb_head r' = fmb_head r
    \<and> fr_base_contents r' = drop (unat n) (fr_base_contents r)"
proof -
  let ?C = "fmb_cursor r" and ?m = "fmb_mask r"
  note g = fr_base_geom [OF assms(1)] and o = fr_base_order [OF assms(1)] and ring = fr_base_ring [OF assms(1)]
  have n: "unat n \<le> unat (fmb_frontier r) - unat ?C" using assms(2) o by (simp add: u64_diff word_le_nat_alt)
  have mk: "fmc_mask (fmb_consumer r) = ?m" using assms(1) by (simp add: fr_base_inv_def)
  let ?es = "if fmc_clearOnDequeue (fmb_consumer r) then clear_slots (fmb_entries r) ?m (low ?C) n else fmb_entries r"
  let ?r' = "fr_mpscReleaseConsumer (r\<lparr>fmb_entries := ?es\<rparr>) n"
  have "copy_out (fmb_entries r) ?m (low ?C) n = take (unat n) (fr_base_contents r)"
    using ring_pop(3) [OF ring, of "unat n"] n fr_base_dist(2) [OF assms(1)] copy_out_window [OF g, of n "low ?C"] o
    by (simp add: fr_base_contents_def)
  then have "fr_mpscReadConsumer r ?C (take (unat n) dst) = (r\<lparr>fmb_entries := ?es\<rparr>, take (unat n) (fr_base_contents r))"
    using fr_mpsc_read [of r "take (unat n) dst" n ?C] g mk assms(3) by simp
  moreover have "fr_base_inv obs ?r'" "fr_base_contents ?r' = drop (unat n) (fr_base_contents r)"
    using fr_base_pop [OF assms(1) n, of ?es] by simp_all
  moreover have "fr_base_conf ?r' = fr_base_conf r" "fmb_head ?r' = fmb_head r"
    by (simp_all add: fr_base_conf_def fr_mpscReleaseConsumer_def Let_def)
  ultimately show ?thesis by blast
qed

text \<open>
  The stored frontier without its publication, which the release of the elements overwrites.
\<close>

lemma fr_release_overwrites:
  fixes r :: "('a::zero) fr_mpscBase"
  assumes "fr_mpscReadConsumer (r\<lparr>fmb_consumerPublished := w\<rparr>) start dst = (r1, out)"
  shows "\<exists>r2. fr_mpscReadConsumer r start dst = (r2, out) \<and> fr_mpscReleaseConsumer r2 n = fr_mpscReleaseConsumer r1 n"
  using assms by (auto simp: fr_mpscReadConsumer_def fr_mpscReleaseConsumer_def Let_def split: if_splits)

lemma fr_mpsc_get_ok:
  fixes fixed :: bool and r :: "('a::zero) fr_mpscBase"
  assumes "fr_base_inv obs r" "length dst \<le> qc_cap (fr_base_conf r)"
  defines "D \<equiv> length (fr_base_contents r)"
  defines "m \<equiv> admitted fixed (length dst) D"
  shows "\<exists>r' rem. fr_mpscDequeueBatch r dst fixed = (r', int m, rem, take m (fr_base_contents r) @ drop m dst)
    \<and> fr_base_inv obs r' \<and> fr_base_conf r' = fr_base_conf r \<and> fmb_head r' = fmb_head r
    \<and> fr_base_contents r' = drop m (fr_base_contents r)
    \<and> reports (qc_exact (fr_base_conf r) \<or> dst = [] \<or> m < length dst) rem (D - m)"
proof -
  let ?C = "fmb_cursor r" and ?len = "of_nat (length dst) :: u32"
    and ?cap = "ucast (fmc_mask (fmb_consumer r) + 1) :: u64"
  define f where "f = fr_seen r ?len"
  let ?s = "fr_mpsc_store_frontier r f" and ?d = "unat (f - ?C)"
  let ?a = "?s\<lparr>fmb_consumerPublished := mpscConsumerWord (low ?C) (low f)\<rparr>"
  note g = fr_base_geom [OF assms(1)] and seen = fr_seen_facts [OF assms(1), of ?len, folded f_def D_def]
  have len: "length dst \<le> length (fmb_entries r)" using assms(2) by (simp add: fr_base_conf_def)
  have lw: "unat ?len = length dst" "?len = 0 \<longleftrightarrow> dst = []" using len_word [OF len g] len_word_0 [OF len g] by auto
  have fresh: "qc_exact (fr_base_conf r) \<or> dst = [] \<or> ?d < length dst \<Longrightarrow> ?d = D" using seen(4) lw by simp
  have a: "fr_base_inv obs ?a" "fr_base_contents ?a = fr_base_contents r" "fr_base_conf ?a = fr_base_conf r"
    "fmb_head ?a = fmb_head r" "fmb_cursor ?a = ?C" "fmb_frontier ?a = f"
    using fr_base_advance [OF assms(1) seen(1,2)]
    by (simp_all add: fr_base_contents_def fr_base_conf_def fr_mpsc_store_frontier_def)
  have D: "D \<le> length (fmb_entries r)" using fr_base_bounded [OF assms(1)] by (simp add: D_def fr_base_conf_def)
  have small: "\<not> f - ?C > ?cap" "unat (min (f - ?C) ?cap) = ?d"
    using seen(3) D fr_base_wide_cap [OF assms(1)] by (auto simp: word_less_nat_alt min_def word_le_nat_alt)
  note batch = fr_mpscDequeueBatch_def [of r dst fixed, unfolded Let_def, folded fr_seen_def [unfolded Let_def], folded f_def]
  show ?thesis
  proof (cases "(fixed \<and> f - ?C < ucast ?len) \<or> ?len = 0 \<or> f - ?C = 0")
    case True
    have m0: "m = 0" "?d = D"
      using True fresh lw unat_eq_zero [of "f - ?C"] by (auto simp: m_def admitted_def word_less_nat_alt)
    have "?s = ?a" if "\<not> fmb_frontier r < f"
      using that seen(1) assms(1) by (auto simp: fr_base_inv_def fr_mpsc_store_frontier_def)
    then have "fr_mpscDequeueBatch r dst fixed = (?a, int m, int D, dst)"
      using True small m0 by (auto simp: batch)
    then show ?thesis using a m0 by (auto simp: reports_def)
  next
    case False
    let ?n = "min ?len (ucast (f - ?C))"
    have "?d < 2 ^ 32" using seen(3) D geom_le [OF g] by simp
    then have n: "unat ?n = min (length dst) ?d" using lw by (simp add: min_def word_le_nat_alt unat_low)
    have "m = admitted fixed (length dst) ?d" unfolding m_def by (rule admitted_seen [OF seen(3) fresh])
    then have m: "m = unat ?n" using False n lw by (auto simp: admitted_def word_less_nat_alt)
    obtain r1 r' where t: "fr_mpscReadConsumer ?a ?C (take (unat ?n) dst) = (r1, take m (fr_base_contents r))"
      "fr_mpscReleaseConsumer r1 ?n = r'" "fr_base_inv obs r'" "fr_base_conf r' = fr_base_conf r"
      "fmb_head r' = fmb_head r" "fr_base_contents r' = drop m (fr_base_contents r)"
      using fr_base_take [OF a(1), of ?n dst] n unfolding a(2-6) m by auto
    obtain r2 where "fr_mpscReadConsumer ?s ?C (take (unat ?n) dst) = (r2, take m (fr_base_contents r))"
      "fr_mpscReleaseConsumer r2 ?n = r'"
      using fr_release_overwrites [OF t(1)] t(2) by metis
    moreover have rem: "unat (f - ?C - ucast ?n) = ?d - m"
      using m n unat_sub [of "ucast ?n" "f - ?C"] by (simp add: word_le_nat_alt)
    ultimately have "fr_mpscDequeueBatch r dst fixed = (r', int m, int (?d - m), take m (fr_base_contents r) @ drop m dst)"
      using False small m by (auto simp: batch)
    moreover have "reports (qc_exact (fr_base_conf r) \<or> dst = [] \<or> m < length dst) (int (?d - m)) (D - m)"
      using fresh seen(3) m n by (auto simp: reports_def min_def split: if_splits)
    ultimately show ?thesis using t by blast
  qed
qed

interpretation fr_mpsc_batches: fifo_batches_within "fr_base_inv obs" fr_base_conf fr_base_contents fr_base_fits
  "\<lambda>r items fixed. fr_mpsc_put r (qc_exact (fr_base_conf r)) items fixed"
  "\<lambda>r dst fixed. Some (fr_mpscDequeueBatch r dst fixed)" for obs :: u64
proof unfold_locales
  fix r :: "'a fr_mpscBase" assume "fr_base_inv obs r"
  then show "length (fr_base_contents r) \<le> qc_cap (fr_base_conf r)" by (rule fr_base_bounded)
next
  fix r :: "'a fr_mpscBase" assume "fr_base_inv obs r"
  then show "conf_ok (fr_base_conf r)" by (simp add: fr_base_inv_def fr_base_conf_def conf_ok_def)
next
  fix r :: "'a fr_mpscBase" and dst :: "'a list" and n m fixed
  assume "fr_base_inv obs r" "length dst \<le> qc_cap (fr_base_conf r)" "fr_base_fits r n"
    "m = admitted fixed (length dst) (length (fr_base_contents r))"
  then show "\<exists>r' rem. Some (fr_mpscDequeueBatch r dst fixed)
      = Some (r', int m, rem, take m (fr_base_contents r) @ drop m dst) \<and> fr_base_inv obs r'
      \<and> fr_base_conf r' = fr_base_conf r \<and> fr_base_fits r' n \<and> fr_base_contents r' = drop m (fr_base_contents r)
      \<and> reports (qc_exact (fr_base_conf r) \<or> dst = [] \<or> m < length dst) rem (length (fr_base_contents r) - m)"
    using fr_mpsc_get_ok [of obs r dst fixed] by (auto simp: fr_base_fits_def)
qed (use fr_mpsc_put_ok in \<open>auto simp: fr_base_fits_def\<close>)

section \<open>The methods of the core\<close>

fun fr_base_step :: "('a::zero) fr_mpscBase \<Rightarrow> 'a qop \<Rightarrow> ('a fr_mpscBase \<times> 'a qres) option" where
  "fr_base_step r (Enqueue_op x) = map_option (\<lambda>(r', e). (r', Enqueued e)) (fr_mpscBase_Enqueue r x)"
| "fr_base_step r Dequeue_op = (case fr_mpscBase_Dequeue r of (r', v, e) \<Rightarrow> Some (r', Dequeued v e))"
| "fr_base_step r (EnqueueBulk_op xs) = map_option (\<lambda>(r', free, e). (r', BulkIn free e)) (fr_mpscBase_EnqueueBulk r xs)"
| "fr_base_step r (EnqueueBurst_op xs) = map_option (\<lambda>(r', n, free). (r', BurstIn n free)) (fr_mpscBase_EnqueueBurst r xs)"
| "fr_base_step r (DequeueBulk_op dst) =
     (case fr_mpscBase_DequeueBulk r dst of (r', avail, e, out) \<Rightarrow> Some (r', BulkOut avail e out))"
| "fr_base_step r (DequeueBurst_op dst) =
     (case fr_mpscBase_DequeueBurst r dst of (r', n, avail, out) \<Rightarrow> Some (r', BurstOut n avail out))"
| "fr_base_step r Count_op = Some (r, Counted (fr_mpscBase_Count r))"
| "fr_base_step r Reset_op = Some (fr_mpscBase_Reset r, ResetDone)"

abbreviation fr_base_ok :: "u64 \<Rightarrow> nat \<Rightarrow> ('a::zero) fr_mpscBase \<Rightarrow> 'a qop \<Rightarrow> bool" where
  "fr_base_ok obs n r opn \<equiv>
     fifo_outcome (fr_base_inv obs) fr_base_conf fr_base_contents fr_base_fits n r opn (fr_base_step r opn)"

lemma fr_base_Enqueue_ok:
  assumes "fr_base_inv obs r" "fr_base_fits r (1 + n)"
  shows "fr_base_ok obs n r (Enqueue_op x)"
proof -
  let ?m = "admitted True 1 (qc_cap (fr_base_conf r) - length (fr_base_contents r))"
  have len: "length [x] \<le> qc_cap (fr_base_conf r)"
    using geom_pos [OF fr_base_geom [OF assms(1)]] by (simp add: fr_base_conf_def Suc_le_eq)
  obtain r' rem where p: "fr_mpsc_put r False [x] True = Some (r', int ?m, rem)" "fr_base_inv obs r'"
    "fr_base_conf r' = fr_base_conf r" "fr_base_fits r' n" "fr_base_contents r' = fr_base_contents r @ take ?m [x]"
    using fr_mpsc_put_ok [OF assms(1) len, of n False True] assms(2) by auto
  obtain r1 start count rest where res: "fr_mpscReserveProducer r 1 True False = Some (r1, start, count, rest)"
    using p(1) by (auto simp: fr_mpsc_put_def split: option.splits)
  have "fr_mpscBase_Enqueue r x = Some (r', if ?m = 0 then Some (Sentinel ErrFull) else None)"
  proof (cases "count = 0")
    case True
    with p(1) res show ?thesis by (simp add: fr_mpsc_put_def fr_mpscBase_Enqueue_def)
  next
    case False
    then have "0 < unat count" by (simp add: unat_gt_0)
    moreover have "unat count = ?m" using False p(1) res by (auto simp: fr_mpsc_put_def)
    ultimately have "unat count = 1" "?m = 1" by (auto simp: admitted_def split: if_splits)
    with False p(1) res show ?thesis by (auto simp: fr_mpsc_put_def fr_mpscBase_Enqueue_def fr_mpscWriteProducer_def)
  qed
  with p(2-) show ?thesis
    using enqueue_admitted [of ?m "fr_base_conf r" "fr_base_contents r" x] by (auto intro: fifo_outcomeI)
qed

lemma fr_base_fresh:
  assumes "fr_base_inv obs r"
  shows "unat (min (fmb_mask r + 1 + low (fmb_cursor r) - low (fmb_head r)) (fmb_mask r + 1))
      = qc_cap (fr_base_conf r) - length (fr_base_contents r)"
  using cap_minus [OF ring_geom ring_count_le, OF fr_base_ring fr_base_ring, OF assms assms] fr_base_cap [OF assms]
  by (auto simp: fr_base_conf_def fr_base_contents_def min_def word_le_nat_alt)

lemma fr_base_EnqueueBulk_ok:
  assumes "fr_base_inv obs r" "fr_base_fits r (length items + n)"
  shows "fr_base_ok obs n r (EnqueueBulk_op items)"
proof (cases "length items > qc_maxE (fr_base_conf r)")
  case True
  then have "fr_mpscBase_EnqueueBulk r items = Some (r, int (qc_cap (fr_base_conf r) - length (fr_base_contents r)),
      Some (length_error (fr_base_conf r) (length items)))"
    using fr_base_fresh [OF assms(1)] fr_base_cap [OF assms(1)] assms(1)
    by (simp add: fr_mpscBase_EnqueueBulk_def Let_def BatchLengthError_def length_error_def fr_base_conf_def fr_base_inv_def)
  with True assms show ?thesis
    by (intro fifo_outcomeI [of _ r]) (auto simp: fifo_result_def reports_def fr_base_fits_def)
next
  case False
  then have short: "\<not> (length items > unat (fmb_mask r + 1) \<or> length items > unat (fmp_maxBatch (fmb_producerConfig r)))"
    using assms(1) fr_base_cap [OF assms(1)] by (auto simp: fr_base_inv_def fr_base_conf_def)
  obtain r' moved rem where p: "fr_mpsc_put r (qc_exact (fr_base_conf r)) items True = Some (r', moved, rem)"
    and k: "fr_base_inv obs r'" "fr_base_conf r' = fr_base_conf r" "fr_base_fits r' n"
      "fr_base_contents r' = fifo_next (fr_base_conf r) (fr_base_contents r) (EnqueueBulk_op items)"
    and z: "moved = 0 \<longleftrightarrow> items = [] \<or> moved \<noteq> int (length items)"
    and f: "fifo_result (fr_base_conf r) (fr_base_contents r) (EnqueueBulk_op items)
      (BulkIn rem (if moved \<noteq> int (length items) then Some (Sentinel ErrFull) else None))"
    using fr_mpsc_batches.bulk_in_within [OF assms(1) _ assms(2)] False by (auto simp: not_less)
  obtain r1 start count rest where res: "fr_mpscReserveProducer r (of_nat (length items)) True
      (fmp_exactBatchCounts (fmb_producerConfig r)) = Some (r1, start, count, rest)"
    using p by (auto simp: fr_mpsc_put_def fr_base_conf_def split: option.splits)
  have "fr_mpscBase_EnqueueBulk r items = Some (r', rem, if moved \<noteq> int (length items) then Some (Sentinel ErrFull) else None)"
  proof (cases "count = 0")
    case True
    with p res z short show ?thesis by (auto simp: fr_mpsc_put_def fr_mpscBase_EnqueueBulk_def fr_base_conf_def Let_def)
  next
    case False
    then have "moved = int (unat count)" "moved \<noteq> 0"
      using p res by (auto simp: fr_mpsc_put_def fr_base_conf_def unat_eq_zero)
    with z have "unat count = length items" "moved = int (length items)" by auto
    with False p res short show ?thesis by (auto simp: fr_mpsc_put_def fr_mpscBase_EnqueueBulk_def fr_base_conf_def Let_def)
  qed
  with k f show ?thesis by (intro fifo_outcomeI [of _ r']) simp_all
qed

lemma fr_base_EnqueueBurst_ok:
  assumes "fr_base_inv obs r" "fr_base_fits r (length items + n)"
  shows "fr_base_ok obs n r (EnqueueBurst_op items)"
proof -
  let ?len = "min (length items) (qc_maxE (fr_base_conf r))"
  obtain r' moved rem where p: "fr_mpsc_put r (qc_exact (fr_base_conf r)) (take ?len items) False = Some (r', moved, rem)"
    and k: "fr_base_inv obs r'" "fr_base_conf r' = fr_base_conf r" "fr_base_fits r' n"
      "fr_base_contents r' = fifo_next (fr_base_conf r) (fr_base_contents r) (EnqueueBurst_op items)"
    and f: "fifo_result (fr_base_conf r) (fr_base_contents r) (EnqueueBurst_op items) (BurstIn moved rem)"
    using fr_mpsc_batches.burst_in_within [OF assms] by blast
  have le: "moved \<le> int ?len" using f by (auto simp: fifo_result_def burst_in_def)
  obtain r1 start count rest where res: "fr_mpscReserveProducer r (of_nat ?len) False
      (fmp_exactBatchCounts (fmb_producerConfig r)) = Some (r1, start, count, rest)"
    using p by (auto simp: fr_mpsc_put_def fr_base_conf_def split: option.splits)
  have "fr_mpscBase_EnqueueBurst r items = Some (r', moved, rem)"
  proof (cases "count = 0")
    case True
    with p res show ?thesis by (simp add: fr_mpsc_put_def fr_mpscBase_EnqueueBurst_def fr_base_conf_def)
  next
    case False
    then have "moved = int (unat count)" using p res by (auto simp: fr_mpsc_put_def fr_base_conf_def)
    with le have "take (unat count) (take ?len items) = take (unat count) items" by simp
    with False p res show ?thesis by (auto simp: fr_mpsc_put_def fr_mpscBase_EnqueueBurst_def fr_base_conf_def)
  qed
  with k f show ?thesis by (intro fifo_outcomeI [of _ r']) simp_all
qed

lemma fr_base_DequeueBulk_ok:
  fixes r :: "('a::zero) fr_mpscBase"
  assumes "fr_base_inv obs r" "fr_base_fits r n"
  shows "fr_base_ok obs n r (DequeueBulk_op dst)"
proof (cases "length dst > qc_maxD (fr_base_conf r)")
  case True
  have "unat (min (fmb_head r - fmb_cursor r) (ucast (fmb_mask r + 1))) = length (fr_base_contents r)"
    using fr_base_order [OF assms(1)] length_fr_base_contents [OF assms(1)] fr_base_bounded [OF assms(1)] fr_base_cap [OF assms(1)]
    by (auto simp: min_def word_le_nat_alt u64_diff)
  then have "fr_mpscBase_DequeueBulk r dst = (r, int (length (fr_base_contents r)),
      Some (length_error (fr_base_conf r) (length dst)), dst)"
    using True fr_base_cap [OF assms(1)] fr_base_discover_all [OF assms(1)] assms(1)
    by (simp add: fr_mpscBase_DequeueBulk_def Let_def BatchLengthError_def length_error_def fr_base_inv_def fr_base_conf_def)
  with True assms show ?thesis by (intro fifo_outcomeI [of _ r]) (auto simp: fifo_result_def reports_def)
next
  case False
  then have "\<not> (length dst > unat (fmc_mask (fmb_consumer r) + 1) \<or> length dst > unat (fmc_maxBatch (fmb_consumer r)))"
    using assms(1) fr_base_cap [OF assms(1)] by (auto simp: fr_base_inv_def fr_base_conf_def)
  with fr_mpsc_batches.bulk_out_within [OF assms(1) _ assms(2), of dst] False show ?thesis
    by (auto simp: fr_mpscBase_DequeueBulk_def not_less intro: fifo_outcomeI)
qed

lemma fr_base_DequeueBurst_ok:
  fixes r :: "('a::zero) fr_mpscBase"
  assumes "fr_base_inv obs r" "fr_base_fits r n"
  shows "fr_base_ok obs n r (DequeueBurst_op dst)"
  using fr_mpsc_batches.burst_out_within [OF assms, of dst]
  by (auto simp: fr_mpscBase_DequeueBurst_def fr_base_conf_def Let_def intro: fifo_outcomeI)

lemma fr_base_empty: "fr_base_inv obs r \<Longrightarrow> fr_base_contents r = [] \<longleftrightarrow> fmb_head r = fmb_cursor r"
  using length_fr_base_contents [of obs r] fr_base_order [of obs r]
  by (auto simp: word_unat_eq_iff simp flip: length_0_conv)

text \<open>The frontier a single dequeue works with.\<close>

definition fr_seen_one :: "'a fr_mpscBase \<Rightarrow> u64" where
  "fr_seen_one r = (if fmb_frontier r = fmb_cursor r
     then fr_mpscDiscover r (fmb_cursor r) (fmb_frontier r) True 1 else fmb_frontier r)"

lemma fr_seen_one_facts:
  assumes "fr_base_inv obs r"
  shows "fmb_frontier r \<le> fr_seen_one r" "records_inv (fmb_records r) (fmb_mask r) (fr_seen_one r) (fmb_head r)"
    "fr_seen_one r = fmb_cursor r \<longleftrightarrow> fr_base_contents r = []"
proof -
  have "fmb_frontier r \<le> fr_seen_one r \<and> records_inv (fmb_records r) (fmb_mask r) (fr_seen_one r) (fmb_head r)
    \<and> (fr_seen_one r = fmb_cursor r \<longleftrightarrow> fmb_head r = fmb_cursor r)"
  proof (cases "fmb_frontier r = fmb_cursor r")
    case True
    then show ?thesis
      using fr_base_discover_some [OF assms True] by (simp add: fr_seen_one_def) metis
  next
    case False
    then have "fmb_head r \<noteq> fmb_cursor r" using fr_base_order [OF assms] by (auto simp: word_unat_eq_iff)
    with False show ?thesis by (simp add: fr_seen_one_def fr_base_records [OF assms])
  qed
  then show "fmb_frontier r \<le> fr_seen_one r" "records_inv (fmb_records r) (fmb_mask r) (fr_seen_one r) (fmb_head r)"
    "fr_seen_one r = fmb_cursor r \<longleftrightarrow> fr_base_contents r = []"
    by (simp_all add: fr_base_empty [OF assms])
qed

lemma fr_base_Dequeue_ok:
  fixes r :: "('a::zero) fr_mpscBase"
  assumes "fr_base_inv obs r" "fr_base_fits r n"
  shows "fr_base_ok obs n r Dequeue_op"
proof (cases "fr_base_contents r = []")
  case True
  note f = fr_seen_one_facts [OF assms(1)]
  have "fr_seen_one r = fmb_cursor r" using True f(3) by simp
  moreover from this have "fmb_frontier r = fmb_cursor r"
    using f(1) fr_base_order(1) [OF assms(1)] by (simp add: word_le_nat_alt word_unat_eq_iff)
  ultimately have "fr_base_step r Dequeue_op = Some (r, Dequeued 0 (Some (Sentinel ErrEmpty)))"
    by (simp add: fr_mpscBase_Dequeue_def Let_def fr_mpsc_store_frontier_def fr_seen_one_def)
  with assms True show ?thesis
    by (intro fifo_outcomeI [of _ r "Dequeued 0 (Some (Sentinel ErrEmpty))"]) (simp_all add: fifo_result_def)
next
  case False
  let ?C = "fmb_cursor r" and ?f = "fr_seen_one r"
  note f = fr_seen_one_facts [OF assms(1)] and g = fr_base_geom [OF assms(1)]
  let ?a = "(fr_mpsc_store_frontier r ?f)\<lparr>fmb_consumerPublished := mpscConsumerWord (low ?C) (low ?f)\<rparr>"
  let ?es = "if fmc_clearOnDequeue (fmb_consumer r) then clear_slots (fmb_entries r) (fmb_mask r) (low ?C) 1
    else fmb_entries r"
  let ?r' = "fr_mpscReleaseConsumer (?a\<lparr>fmb_entries := ?es\<rparr>) 1"
  have a: "fr_base_inv obs ?a" by (rule fr_base_advance [OF assms(1) f(1,2)])
  have fields: "fmb_frontier ?a = ?f" "fmb_cursor ?a = ?C" "fmb_entries ?a = fmb_entries r" "fmb_mask ?a = fmb_mask r"
    "fr_base_contents ?a = fr_base_contents r"
    by (simp_all add: fr_mpsc_store_frontier_def fr_base_contents_def)
  have one: "unat (1 :: u32) \<le> unat (fmb_frontier ?a) - unat (fmb_cursor ?a)"
    using f(3) False fr_base_order(1) [OF a] unfolding fields by (auto simp: word_unat_eq_iff)
  have es: "?es = fmb_entries ?a \<or> ?es = clear_slots (fmb_entries ?a) (fmb_mask ?a) (low (fmb_cursor ?a)) 1"
    unfolding fields by simp
  have v: "fmb_entries r ! slot (low ?C) (fmb_mask r) = hd (fr_base_contents r)"
    unfolding fr_base_contents_def
    by (rule first_element [OF g]) (use False in \<open>simp add: fr_base_contents_def flip: length_greater_0_conv\<close>)
  have "fmc_mask (fmb_consumer r) = fmb_mask r" "?f \<noteq> ?C" using assms(1) f(3) False by (simp_all add: fr_base_inv_def)
  then have "fr_base_step r Dequeue_op = Some (?r', Dequeued (hd (fr_base_contents r)) None)"
    using clear_one [OF g, of "low ?C"] v unfolding fr_seen_one_def
    by (simp add: fr_mpscBase_Dequeue_def Let_def fr_mpscReleaseConsumer_def fr_mpsc_store_frontier_def)
  moreover have "fr_base_conf ?r' = fr_base_conf r" "fr_base_fits ?r' n"
    using assms(2) by (simp_all add: fr_base_conf_def fr_base_fits_def fr_mpscReleaseConsumer_def fr_mpsc_store_frontier_def Let_def)
  ultimately show ?thesis
    using fr_base_pop [OF a one es] False unfolding fields
    by (intro fifo_outcomeI [of _ ?r' "Dequeued (hd (fr_base_contents r)) None"]) (simp_all add: fifo_result_def)
qed

text \<open>What \<^verbatim>\<open>Count\<close> recovers from the published word: the distances, the cursor and the frontier.\<close>

lemma fr_base_snapshot:
  assumes "fr_base_inv obs r"
  shows "ucast (low (fmb_head r) - low (fmb_cursor r)) = fmb_head r - fmb_cursor r"
    "ucast (low (fmb_frontier r) - low (fmb_cursor r)) = fmb_frontier r - fmb_cursor r"
    "fmb_head r - fmb_cursor r \<le> fmb_head r" "fmb_frontier r - fmb_cursor r \<le> fmb_head r - fmb_cursor r"
    "min (fmb_head r - fmb_cursor r) (ucast (fmb_mask r + 1)) = fmb_head r - fmb_cursor r"
    "unat (fmb_head r - fmb_cursor r) = length (fr_base_contents r)"
proof -
  note o = fr_base_order [OF assms] and d = fr_base_dist [OF assms] and cap = geom_cap [OF fr_base_geom [OF assms]]
  have u: "unat (fmb_head r - fmb_cursor r) = unat (fmb_head r) - unat (fmb_cursor r)"
    "unat (fmb_frontier r - fmb_cursor r) = unat (fmb_frontier r) - unat (fmb_cursor r)"
    using o by (simp_all add: u64_diff word_le_nat_alt)
  show "ucast (low (fmb_head r) - low (fmb_cursor r)) = fmb_head r - fmb_cursor r"
    "ucast (low (fmb_frontier r) - low (fmb_cursor r)) = fmb_frontier r - fmb_cursor r"
    using d u by (simp_all add: word_unat_eq_iff)
  show "fmb_head r - fmb_cursor r \<le> fmb_head r" "fmb_frontier r - fmb_cursor r \<le> fmb_head r - fmb_cursor r"
    using u o by (simp_all add: word_le_nat_alt diff_le_mono)
  have "fmb_head r - fmb_cursor r \<le> ucast (fmb_mask r + 1)" using u o cap by (simp add: word_le_nat_alt)
  then show "min (fmb_head r - fmb_cursor r) (ucast (fmb_mask r + 1)) = fmb_head r - fmb_cursor r" by (rule min.absorb1)
  show "unat (fmb_head r - fmb_cursor r) = length (fr_base_contents r)"
    using u length_fr_base_contents [OF assms] by simp
qed

lemma fr_base_scan:
  assumes "fr_base_inv obs r" "record_path (fmb_records r) (fmb_mask r) p (fmb_head r)" "fmb_cursor r \<le> p"
  shows "scanRecords (fmb_records r) (fmb_mask r) (fmb_cursor r) (fmb_head r - fmb_cursor r) p = fmb_head r"
  using records_scan_all [OF assms(2) records_past [OF fr_base_records [OF assms(1)]] assms(3)]
    fr_base_snapshot(6) [OF assms(1)] length_fr_base_contents [OF assms(1)] by simp

lemma fr_base_words:
  assumes "fr_base_inv obs r"
  shows "mpscReleased (fmb_consumerPublished r) = low (fmb_cursor r)"
    "mpscFrontier (fmb_consumerPublished r) = low (fmb_frontier r)"
    "fmb_cursor r \<le> fmb_frontier r" "record_path (fmb_records r) (fmb_mask r) (fmb_frontier r) (fmb_head r)"
  using assms records_path [OF fr_base_records [OF assms]] by (simp_all add: fr_base_inv_def)

lemma fr_base_Count_ok: "fr_base_inv obs r \<Longrightarrow> fr_mpscBase_Count r = int (length (fr_base_contents r))"
  using fr_base_snapshot [of obs r] fr_base_words [of obs r] fr_base_scan [of obs r "fmb_frontier r"]
  by (simp add: fr_mpscBase_Count_def fr_mpscCountFromSnapshot_def Let_def not_less)

lemma fr_base_Reset_ok:
  assumes "fr_base_inv obs r"
  shows "fr_base_inv 0 (fr_mpscBase_Reset r)" "fr_base_conf (fr_mpscBase_Reset r) = fr_base_conf r"
    "fr_base_contents (fr_mpscBase_Reset r) = []" "fmb_head (fr_mpscBase_Reset r) = 0"
proof -
  note g = fr_base_geom [OF assms]
  have len: "length (fmb_records r) = length (fmb_entries r)" using assms by (simp add: fr_base_inv_def)
  have "records_inv (replicate (length (fmb_records r)) 0) (fmb_mask r) 0 0"
    by (rule records_new) (use len in \<open>auto intro: geom_length [OF g]\<close>)
  then show "fr_base_inv 0 (fr_mpscBase_Reset r)"
    using assms ring_new [OF geom_length [OF g], of "replicate (length (fmb_entries r)) 0" 0]
    by (simp add: fr_base_inv_def fr_mpscBase_Reset_def mpscConsumerWord_def path_end)
qed (simp_all add: fr_mpscBase_Reset_def fr_base_conf_def fr_base_contents_def ring_contents_def)

lemma fr_base_inv_0: "fr_base_inv obs r \<Longrightarrow> fr_base_inv 0 r"
  using fr_base_words(4) [of obs r] by (auto simp: fr_base_inv_def)

lemma fr_base_step_ok:
  assumes "fr_base_inv obs r" "fr_base_fits r (op_size opn + n)" "opn \<noteq> Reset_op"
  shows "fr_base_ok obs n r opn"
proof (cases opn)
  case Count_op
  with assms show ?thesis
    by (intro fifo_outcomeI [of _ r "Counted (fr_mpscBase_Count r)"]) (simp_all add: fr_base_Count_ok fifo_result_def)
qed (use assms fr_base_Enqueue_ok fr_base_EnqueueBulk_ok fr_base_EnqueueBurst_ok fr_base_Dequeue_ok
    fr_base_DequeueBulk_ok fr_base_DequeueBurst_ok in \<open>simp_all only: op_size.simps add_0\<close>)

interpretation fr_mpsc_base: fifo_queue_within "fr_base_inv 0" fr_base_conf fr_base_contents fr_base_fits fr_base_step
proof unfold_locales
  fix r :: "'a fr_mpscBase" and opn :: "'a qop" and n
  assume r: "fr_base_inv 0 r" "fr_base_fits r (op_size opn + n)"
  show "fr_base_ok 0 n r opn"
  proof (cases "opn = Reset_op")
    case True
    with r fr_base_Reset_ok [OF r(1)] show ?thesis
      by (intro fifo_outcomeI [of _ "fr_mpscBase_Reset r" ResetDone]) (simp_all add: fifo_result_def fr_base_fits_def)
  qed (rule fr_base_step_ok [OF r])
qed (rule fr_base_bounded)

section \<open>The queue\<close>

definition FR_MPSC_inv :: "'a FR_MPSCQueue \<Rightarrow> bool" where
  "FR_MPSC_inv q \<longleftrightarrow> fr_base_inv (fmq_observerCompleted q) (fmq_base q)"

definition FR_MPSC_conf :: "'a FR_MPSCQueue \<Rightarrow> qconf" where
  "FR_MPSC_conf q = fr_base_conf (fmq_base q)"

definition FR_MPSC_contents :: "'a FR_MPSCQueue \<Rightarrow> 'a list" where
  "FR_MPSC_contents q = fr_base_contents (fmq_base q)"

definition FR_MPSC_fits :: "'a FR_MPSCQueue \<Rightarrow> nat \<Rightarrow> bool" where
  "FR_MPSC_fits q n \<longleftrightarrow> fr_base_fits (fmq_base q) n"

text \<open>The transfer calls are those of the embedded core.\<close>

definition FR_MPSC_step :: "('a::zero) FR_MPSCQueue \<Rightarrow> 'a qop \<Rightarrow> ('a FR_MPSCQueue \<times> 'a qres) option" where
  "FR_MPSC_step q opn =
     (case opn of
        Count_op \<Rightarrow> (case FR_MPSC_Count q of (q', n) \<Rightarrow> Some (q', Counted n))
      | Reset_op \<Rightarrow> Some (FR_MPSC_Reset q, ResetDone)
      | _ \<Rightarrow> map_option (\<lambda>(r, res). (q\<lparr>fmq_base := r\<rparr>, res)) (fr_base_step (fmq_base q) opn))"

lemma FR_MPSC_scan:
  assumes "FR_MPSC_inv q"
  defines "o1 \<equiv> mpscScanCount q (fmb_consumerPublished (fmq_base q))"
  shows "unat (mco_result o1) = length (FR_MPSC_contents q)"
    "mco_retain o1 \<Longrightarrow> mco_observed o1 = fmq_observerCompleted q \<and> mco_end o1 = fmb_head (fmq_base q)"
proof -
  let ?r = "fmq_base q" and ?o = "fmq_observerCompleted q"
  have inv: "fr_base_inv ?o ?r" using assms(1) by (simp add: FR_MPSC_inv_def)
  note snap = fr_base_snapshot [OF inv] and w = fr_base_words [OF inv] and cap = fr_base_cap [OF inv]
  let ?C = "fmb_cursor ?r" and ?F = "fmb_frontier ?r" and ?H = "fmb_head ?r" and ?cap = "fmb_mask ?r + 1"
  define p where "p = (if ?F \<le> ?o \<and> ?o - ?C \<le> ?H - ?C then ?o else ?F)"
  have "record_path (fmb_records ?r) (fmb_mask ?r) p ?H" "?C \<le> p"
    using w(3,4) inv by (auto simp: p_def fr_base_inv_def)
  note scan = fr_base_scan [OF inv this]
  have plain: "?H - (?H - ?C) = ?C" "?C + (?F - ?C) = ?F" "(?H < ?H - ?C) = False" "(?H - ?C < ?F - ?C) = False"
    using snap(3,4) by (auto simp: not_less)
  have o1: "o1 = (if low ?F - low ?C = ?cap
      then \<lparr>mco_result = ucast (min (low ?F - low ?C) ?cap), mco_observed = 0, mco_end = 0, mco_retain = False\<rparr>
      else if ?F - ?C < ?H - ?C then \<lparr>mco_result = ?H - ?C, mco_observed = ?o, mco_end = ?H, mco_retain = True\<rparr>
      else \<lparr>mco_result = ?F - ?C, mco_observed = 0, mco_end = ?F, mco_retain = False\<rparr>)"
    unfolding o1_def mpscScanCount_def Let_def w(1,2) snap(1,2,5) plain if_False p_def [symmetric] scan by (rule refl)
  have full: "?F - ?C = ?H - ?C" if "low ?F - low ?C = ?cap"
  proof -
    have "unat (?F - ?C) = qc_cap (fr_base_conf ?r)" using that snap(2) cap by (metis unat_wide)
    then show ?thesis
      using snap(4,6) fr_base_bounded [OF inv] by (simp add: word_le_nat_alt word_unat_eq_iff)
  qed
  show "unat (mco_result o1) = length (FR_MPSC_contents q)"
    using snap(2,4,6) full by (auto simp: o1 FR_MPSC_contents_def simp flip: snap(2))
  show "mco_retain o1 \<Longrightarrow> mco_observed o1 = ?o \<and> mco_end o1 = ?H" by (simp add: o1 split: if_splits)
qed

lemma FR_MPSC_Count_ok:
  assumes "FR_MPSC_inv q"
  obtains q' where "FR_MPSC_Count q = (q', int (length (FR_MPSC_contents q)))" "FR_MPSC_inv q'" "fmq_base q' = fmq_base q"
proof -
  let ?r = "fmq_base q" and ?o1 = "mpscScanCount q (fmb_consumerPublished (fmq_base q))"
  let ?q' = "if mco_retain ?o1 then mpscPublishProof q (mco_observed ?o1) (mco_end ?o1) else q"
  note scan = FR_MPSC_scan [OF assms]
  have inv: "fr_base_inv (fmq_observerCompleted q) ?r" using assms by (simp add: FR_MPSC_inv_def)
  have "fr_base_inv (fmb_head ?r) ?r" using inv by (simp add: fr_base_inv_def path_end)
  then have i: "FR_MPSC_inv ?q'" using inv scan(2) by (auto simp: mpscPublishProof_def FR_MPSC_inv_def)
  have c: "FR_MPSC_Count q = (?q', int (length (FR_MPSC_contents q)))"
    using scan(1) by (simp add: FR_MPSC_Count_def mpscValidateCount_def Let_def)
  have "fmq_base ?q' = ?r" by (simp add: mpscPublishProof_def)
  then show thesis by (rule that [OF c i])
qed

interpretation fr_mpsc: fifo_queue_within FR_MPSC_inv FR_MPSC_conf FR_MPSC_contents FR_MPSC_fits FR_MPSC_step
proof unfold_locales
  fix q :: "'a FR_MPSCQueue" assume "FR_MPSC_inv q"
  then show "length (FR_MPSC_contents q) \<le> qc_cap (FR_MPSC_conf q)"
    unfolding FR_MPSC_contents_def FR_MPSC_conf_def FR_MPSC_inv_def by (rule fr_base_bounded)
next
  fix q :: "'a FR_MPSCQueue" and opn :: "'a qop" and n
  assume q: "FR_MPSC_inv q" "FR_MPSC_fits q (op_size opn + n)"
  have inv: "fr_base_inv (fmq_observerCompleted q) (fmq_base q)" using q(1) by (simp add: FR_MPSC_inv_def)
  note base = fr_base_step_ok [OF inv, of opn n]
  show "fifo_outcome FR_MPSC_inv FR_MPSC_conf FR_MPSC_contents FR_MPSC_fits n q opn (FR_MPSC_step q opn)"
  proof (cases "opn = Count_op \<or> opn = Reset_op")
    case False
    then have "FR_MPSC_step q opn = map_option (\<lambda>(r, res). (q\<lparr>fmq_base := r\<rparr>, res)) (fr_base_step (fmq_base q) opn)"
      by (cases opn) (simp_all add: FR_MPSC_step_def)
    with False base q(2) show ?thesis
      by (auto simp: fifo_outcome_def FR_MPSC_inv_def FR_MPSC_conf_def FR_MPSC_contents_def FR_MPSC_fits_def)
  next
    case True
    obtain q' where c: "FR_MPSC_Count q = (q', int (length (FR_MPSC_contents q)))" "FR_MPSC_inv q'"
      "fmq_base q' = fmq_base q" by (rule FR_MPSC_Count_ok [OF q(1)])
    have "FR_MPSC_inv (FR_MPSC_Reset q)" using fr_base_Reset_ok(1) [OF inv] by (simp add: FR_MPSC_inv_def FR_MPSC_Reset_def)
    with True c q(2) fr_base_Reset_ok(2-) [OF inv] show ?thesis
      by (auto simp: fifo_outcome_def FR_MPSC_step_def fifo_result_def FR_MPSC_conf_def FR_MPSC_contents_def
          FR_MPSC_fits_def FR_MPSC_Reset_def fr_base_fits_def)
  qed
qed

lemma fr_base_new_ok:
  fixes cfg :: fr_config
  assumes "fr_resolveConfig count options = Inr cfg"
  defines "r \<equiv> fr_mpscBase_init fr_mpscBase_zero count cfg :: ('a::zero) fr_mpscBase"
  shows "fr_base_inv 0 r" "fr_base_contents r = []" "int (qc_cap (fr_base_conf r)) = count" "fmb_head r = 0"
proof -
  obtain k where k: "k \<le> 30" "count = 2 ^ k" and c: "1 \<le> fr_maxEnqueueBatch cfg" "fr_maxEnqueueBatch cfg \<le> count"
    "1 \<le> fr_maxDequeueBatch cfg" "fr_maxDequeueBatch cfg \<le> count"
    using assms(1) by (auto simp: fr_resolveConfig_Inr)
  have b: "unat (of_int (fr_maxEnqueueBatch cfg) :: u32) \<le> 2 ^ k" "unat (of_int (fr_maxDequeueBatch cfg) :: u32) \<le> 2 ^ k"
    using c k unat_of_batch [of "fr_maxEnqueueBatch cfg" k] unat_of_batch [of "fr_maxDequeueBatch cfg" k]
    by (simp_all add: nat_le_iff)
  have "records_inv (replicate (nat count) 0) (of_int (count - 1)) 0 0"
    unfolding k(2) by (rule records_new [OF geom_new [OF k(1)]]) auto
  then show "fr_base_inv 0 r"
    using b ring_new [OF geom_new [OF k(1), of "0 :: 'a"], of 0]
    by (simp add: r_def fr_base_inv_def fr_mpscBase_init_def fr_mpscBase_zero_def mpscConsumerWord_def path_end k(2) nat_power_eq)
qed (use assms(1) in \<open>auto simp: r_def fr_mpscBase_init_def fr_mpscBase_zero_def fr_base_contents_def fr_base_conf_def
      ring_contents_def fr_resolveConfig_Inr\<close>)

section \<open>Properties\<close>

text \<open>
  C6. A new frontier queue with many producers behaves between calls as a bounded FIFO as long as no
  more than \<open>2^64 - 1\<close> elements are ever offered, also past the wrap of the 32-bit words it publishes:
  records of earlier laps are never taken for new ones, \<^verbatim>\<open>Count\<close> is exact whatever earlier calls of it
  stored, and results, errors and order are those of the FIFO.
\<close>

theorem FR_MPSC_is_bounded_fifo:
  fixes q :: "('a::zero) FR_MPSCQueue"
  assumes "FR_NewMPSCQueue count options = Inr q" "ops_size ops < 2 ^ 64"
  shows "\<exists>q' rs. queue_run FR_MPSC_step q ops = Some (q', rs)
    \<and> results_allowed (FR_MPSC_conf q) [] ops rs
    \<and> FR_MPSC_contents q' = fold (\<lambda>opn xs. fifo_next (FR_MPSC_conf q) xs opn) ops []
    \<and> (Reset_op \<notin> set ops \<longrightarrow> all_enqueued ops rs = all_dequeued rs @ FR_MPSC_contents q')
    \<and> snd (FR_MPSC_Count q') = int (length (FR_MPSC_contents q'))
    \<and> fr_mpscBase_Count (fmq_base q') = snd (FR_MPSC_Count q') \<and> fr_mpscBase_Capacity (fmq_base q') = count"
proof -
  obtain cfg where cfg: "fr_resolveConfig count options = Inr cfg"
    and q: "q = \<lparr>fmq_base = fr_mpscBase_init fr_mpscBase_zero count cfg, fmq_observerCompleted = 0\<rparr>"
    using assms(1) by (auto simp: FR_NewMPSCQueue_def split: sum.splits)
  have new: "FR_MPSC_inv q" "FR_MPSC_contents q = []" "int (qc_cap (FR_MPSC_conf q)) = count" "FR_MPSC_fits q (ops_size ops)"
    using fr_base_new_ok [OF cfg, where 'a = 'a] assms(2)
    by (simp_all add: q FR_MPSC_inv_def FR_MPSC_contents_def FR_MPSC_conf_def FR_MPSC_fits_def fr_base_fits_def)
  obtain q' rs where run: "queue_run FR_MPSC_step q ops = Some (q', rs)" "FR_MPSC_inv q'" "FR_MPSC_conf q' = FR_MPSC_conf q"
    "FR_MPSC_contents q' = fold (\<lambda>opn xs. fifo_next (FR_MPSC_conf q) xs opn) ops []"
    "results_allowed (FR_MPSC_conf q) [] ops rs"
    using fr_mpsc.run_within [OF new(1,4)] new(2) by auto
  have inv: "fr_base_inv (fmq_observerCompleted q') (fmq_base q')" using run(2) by (simp add: FR_MPSC_inv_def)
  have "snd (FR_MPSC_Count q') = int (length (FR_MPSC_contents q'))"
    using FR_MPSC_Count_ok [OF run(2)] by (metis snd_conv)
  moreover have "fr_mpscBase_Count (fmq_base q') = int (length (FR_MPSC_contents q'))"
    using fr_base_Count_ok [OF inv] by (simp add: FR_MPSC_contents_def)
  moreover have "fr_mpscBase_Capacity (fmq_base q') = count"
    using fr_base_cap [OF inv] run(3) new(3) by (simp add: fr_mpscBase_Capacity_def FR_MPSC_conf_def)
  moreover have "Reset_op \<notin> set ops \<longrightarrow> all_enqueued ops rs = all_dequeued rs @ FR_MPSC_contents q'"
    using fr_mpsc.stream_within [OF new(1,4) _ run(1)] new(2) by simp
  ultimately show ?thesis using run by auto
qed

theorem FR_MPSC_is_bounded_fifo_witness:
  "\<exists>(q :: int FR_MPSCQueue) q' rs. FR_NewMPSCQueue 8 [fr_WithMaxBatch 2] = Inr q
     \<and> queue_run FR_MPSC_step q [EnqueueBulk_op [1, 2], Count_op, EnqueueBurst_op [3, 4, 5], Dequeue_op, Count_op]
       = Some (q', rs) \<and> FR_MPSC_contents q' = [2, 3, 4] \<and> fr_mpscBase_Capacity (fmq_base q') = 8"
proof -
  let ?o = "[fr_WithMaxBatch 2]"
  have "fr_resolveConfig 8 ?o = Inr \<lparr>fr_maxEnqueueBatch = 2, fr_maxDequeueBatch = 2, fr_keepDequeued = False,
      fr_exactBatchCounts = False\<rparr>"
    unfolding fr_resolveConfig_Inr by (auto simp: fr_WithMaxBatch_def intro!: exI [of _ 3])
  then obtain q :: "int FR_MPSCQueue" where q: "FR_NewMPSCQueue 8 ?o = Inr q" "qc_cap (FR_MPSC_conf q) = 8"
    "qc_maxE (FR_MPSC_conf q) = 2"
    by (simp add: FR_NewMPSCQueue_def FR_MPSC_conf_def fr_base_conf_def fr_mpscBase_init_def)
  from FR_MPSC_is_bounded_fifo [OF q(1),
      of "[EnqueueBulk_op [1, 2], Count_op, EnqueueBurst_op [3, 4, 5], Dequeue_op, Count_op]"]
  show ?thesis using q by (auto simp: burst_in_def simp del: queue_run.simps)
qed

end
