(* ===== verification/FrontierSPMC.thy ===== *)
theory FrontierSPMC
  imports FrontierOptions FrontierRecords
begin

text \<open>
  The frontier queue with one producer and many consumers, \<^verbatim>\<open>ring/frontier/spmc.go\<close>. Consumers release
  an interval by its record, and the producer discovers the contiguous run of them. A method is the
  whole call run without interference.
\<close>

section \<open>Definitions\<close>

record fr_spmcProducer =
  fsp_mask :: u32
  fsp_cursor :: u64
  fsp_released :: u64
  fsp_maxBatch :: u32
  fsp_exactBatchCounts :: bool

record fr_spmcConsumerConfig =
  fsc_mask :: u32
  fsc_maxBatch :: u32
  fsc_clearOnDequeue :: bool
  fsc_exactBatchCounts :: bool

record fr_spmcConsumerReservation =
  fsr_head :: u64
  fsr_cachedProducer :: u64

record spmcReleases =
  fsk_records :: "u64 list"

record 'a FR_SPMCQueue =
  fsq_entries :: "'a list"
  fsq_producer :: fr_spmcProducer
  fsq_producerPublished :: u64
  fsq_consumerConfig :: fr_spmcConsumerConfig
  fsq_consumerReservation :: fr_spmcConsumerReservation
  fsq_releases :: spmcReleases

definition FR_NewSPMCQueue :: "int \<Rightarrow> fr_Option list \<Rightarrow> ring_error + ('a::zero) FR_SPMCQueue" where
  "FR_NewSPMCQueue count options =
     (case fr_resolveConfig count options of
        Inl e \<Rightarrow> Inl e
      | Inr cfg \<Rightarrow> Inr
          \<lparr>fsq_entries = replicate (nat count) 0,
           fsq_producer = \<lparr>fsp_mask = of_int (count - 1), fsp_cursor = 0, fsp_released = 0,
             fsp_maxBatch = of_int (fr_maxEnqueueBatch cfg), fsp_exactBatchCounts = fr_exactBatchCounts cfg\<rparr>,
           fsq_producerPublished = 0,
           fsq_consumerConfig = \<lparr>fsc_mask = of_int (count - 1), fsc_maxBatch = of_int (fr_maxDequeueBatch cfg),
             fsc_clearOnDequeue = (\<not> fr_keepDequeued cfg), fsc_exactBatchCounts = fr_exactBatchCounts cfg\<rparr>,
           fsq_consumerReservation = \<lparr>fsr_head = 0, fsr_cachedProducer = 0\<rparr>,
           fsq_releases = \<lparr>fsk_records = replicate (nat count) 0\<rparr>\<rparr>)"

definition FR_SPMC_Capacity :: "'a FR_SPMCQueue \<Rightarrow> int" where
  "FR_SPMC_Capacity r = int (unat (fsc_mask (fsq_consumerConfig r) + 1))"

definition FR_SPMC_MaxEnqueueBatch :: "'a FR_SPMCQueue \<Rightarrow> int" where
  "FR_SPMC_MaxEnqueueBatch r = int (unat (fsp_maxBatch (fsq_producer r)))"

definition FR_SPMC_MaxDequeueBatch :: "'a FR_SPMCQueue \<Rightarrow> int" where
  "FR_SPMC_MaxDequeueBatch r = int (unat (fsc_maxBatch (fsq_consumerConfig r)))"

definition FR_SPMC_Count :: "'a FR_SPMCQueue \<Rightarrow> int" where
  "FR_SPMC_Count r =
     (let head = fsr_head (fsq_consumerReservation r); published = fsq_producerPublished r
      in int (unat (min (published - head) (ucast (fsc_mask (fsq_consumerConfig r) + 1)))))"

definition FR_SPMC_Free :: "'a FR_SPMCQueue \<Rightarrow> int" where
  "FR_SPMC_Free r = FR_SPMC_Capacity r - FR_SPMC_Count r"

definition FR_SPMC_Full :: "'a FR_SPMCQueue \<Rightarrow> bool" where
  "FR_SPMC_Full r \<longleftrightarrow> FR_SPMC_Count r = FR_SPMC_Capacity r"

definition FR_SPMC_Empty :: "'a FR_SPMCQueue \<Rightarrow> bool" where
  "FR_SPMC_Empty r \<longleftrightarrow> FR_SPMC_Count r = 0"

definition FR_SPMC_Reset :: "('a::zero) FR_SPMCQueue \<Rightarrow> 'a FR_SPMCQueue" where
  "FR_SPMC_Reset r =
     r\<lparr>fsq_entries := replicate (length (fsq_entries r)) 0,
       fsq_releases := \<lparr>fsk_records = replicate (length (fsk_records (fsq_releases r))) 0\<rparr>,
       fsq_producer := (fsq_producer r)\<lparr>fsp_cursor := 0, fsp_released := 0\<rparr>,
       fsq_producerPublished := 0,
       fsq_consumerReservation := \<lparr>fsr_head = 0, fsr_cachedProducer = 0\<rparr>\<rparr>"

definition spmcDiscoverReleases :: "'a FR_SPMCQueue \<Rightarrow> 'a FR_SPMCQueue" where
  "spmcDiscoverReleases r =
     (let producer = fsq_producer r;
          width = fsp_cursor producer - fsp_released producer
      in r\<lparr>fsq_producer := producer\<lparr>fsp_released := discoverRecords (fsk_records (fsq_releases r)) (fsp_mask producer)
             (fsp_released producer) width (fsp_released producer) width\<rparr>\<rparr>)"

text \<open>Elements are written from the cursor on, which is advanced and published.\<close>

definition fr_spmc_push :: "'a FR_SPMCQueue \<Rightarrow> 'a list \<Rightarrow> u64 \<Rightarrow> 'a FR_SPMCQueue" where
  "fr_spmc_push r es len =
     (let producer = fsq_producer r; cursor = fsp_cursor producer + len
      in r\<lparr>fsq_entries := es, fsq_producer := producer\<lparr>fsp_cursor := cursor\<rparr>, fsq_producerPublished := cursor\<rparr>)"

definition FR_SPMC_Enqueue :: "'a FR_SPMCQueue \<Rightarrow> 'a \<Rightarrow> 'a FR_SPMCQueue \<times> ring_error option" where
  "FR_SPMC_Enqueue r item =
     (let full = (\<lambda>r. fsp_cursor (fsq_producer r) - fsp_released (fsq_producer r)
            \<ge> ucast (fsp_mask (fsq_producer r) + 1));
          r1 = (if full r then spmcDiscoverReleases r else r)
      in if full r1 then (r1, Some (Sentinel ErrFull))
         else (let producer = fsq_producer r1
               in (fr_spmc_push r1 ((fsq_entries r1)[slot (low (fsp_cursor producer)) (fsp_mask producer) := item]) 1,
                   None)))"

definition fr_spmcEnqueueBatch :: "'a FR_SPMCQueue \<Rightarrow> 'a list \<Rightarrow> bool \<Rightarrow> 'a FR_SPMCQueue \<times> int \<times> int" where
  "fr_spmcEnqueueBatch r items fixed =
     (let producer = fsq_producer r;
          capacity = ucast (fsp_mask producer + 1);
          len = of_nat (length items) :: u64;
          free0 = capacity - (fsp_cursor producer - fsp_released producer);
          r1 = (if fsp_exactBatchCounts producer \<or> len = 0 \<or> free0 < len then spmcDiscoverReleases r else r);
          free = capacity - (fsp_cursor (fsq_producer r1) - fsp_released (fsq_producer r1))
      in if fixed \<and> free < len then (r1, 0, int (unat free))
         else (let n = min len free; cursor = fsp_cursor (fsq_producer r1)
               in if n = 0 then (r1, 0, int (unat free))
                  else (let es = (if n = 1 then (fsq_entries r1)[slot (low cursor) (fsp_mask producer) := items ! 0]
                                  else copy_in (fsq_entries r1) (fsp_mask producer) (low cursor) (take (unat n) items))
                        in (fr_spmc_push r1 es n, int (unat n), int (unat (free - n))))))"

text \<open>One reservation attempt with a head loaded before: start, count, remaining, retry.\<close>

definition fr_spmcAttemptConsumer ::
    "'a FR_SPMCQueue \<Rightarrow> u64 \<Rightarrow> u32 \<Rightarrow> bool \<Rightarrow> bool \<Rightarrow> 'a FR_SPMCQueue \<times> u64 \<times> u32 \<times> u32 \<times> bool" where
  "fr_spmcAttemptConsumer r head requested fixed exact =
     (let capacity = ucast (fsc_mask (fsq_consumerConfig r) + 1);
          reservation = fsq_consumerReservation r;
          cached = fsr_cachedProducer reservation;
          published = (if exact \<or> requested = 0 \<or> cached < head \<or> cached - head < ucast requested
                       then fsq_producerPublished r else cached);
          available = published - head
      in if available > capacity then (r, head, 0, 0, True)
         else if fixed \<and> available < ucast requested then (r, head, 0, ucast available, False)
         else (let count = ucast (min (ucast requested) available)
               in if count = 0 then (r, head, 0, ucast available, False)
                  else (let reservation1 = (if published \<noteq> cached then reservation\<lparr>fsr_cachedProducer := published\<rparr>
                                            else reservation)
                        in if fsr_head reservation1 \<noteq> head
                           then (r\<lparr>fsq_consumerReservation := reservation1\<rparr>, head, 0, 0, True)
                           else (r\<lparr>fsq_consumerReservation := reservation1\<lparr>fsr_head := head + ucast count\<rparr>\<rparr>,
                                 head, count, ucast available - count, False))))"

text \<open>The call of \<^verbatim>\<open>runtime.Gosched\<close> before a retry has no effect on the queue.\<close>

partial_function (option) fr_spmcReserveConsumer ::
    "'a FR_SPMCQueue \<Rightarrow> u32 \<Rightarrow> bool \<Rightarrow> bool \<Rightarrow> ('a FR_SPMCQueue \<times> u64 \<times> u32 \<times> u32) option" where
  "fr_spmcReserveConsumer r requested fixed exact =
     (case fr_spmcAttemptConsumer r (fsr_head (fsq_consumerReservation r)) requested fixed exact of
        (r1, start, count, remaining, retry) \<Rightarrow>
          if \<not> retry then Some (r1, start, count, remaining)
          else fr_spmcReserveConsumer r1 requested fixed exact)"

definition fr_spmcReadConsumer :: "('a::zero) FR_SPMCQueue \<Rightarrow> u64 \<Rightarrow> 'a list \<Rightarrow> 'a FR_SPMCQueue \<times> 'a list" where
  "fr_spmcReadConsumer r start dst =
     (let consumer = fsq_consumerConfig r; len = of_nat (length dst); base = slot (low start) (fsc_mask consumer)
      in if length dst = 1
         then (if fsc_clearOnDequeue consumer then r\<lparr>fsq_entries := (fsq_entries r)[base := 0]\<rparr> else r,
               [fsq_entries r ! base])
         else (if fsc_clearOnDequeue consumer
               then r\<lparr>fsq_entries := clear_slots (fsq_entries r) (fsc_mask consumer) (low start) len\<rparr> else r,
               copy_out (fsq_entries r) (fsc_mask consumer) (low start) len))"

definition fr_spmcReleaseConsumer :: "'a FR_SPMCQueue \<Rightarrow> u64 \<Rightarrow> u32 \<Rightarrow> 'a FR_SPMCQueue" where
  "fr_spmcReleaseConsumer r start count =
     r\<lparr>fsq_releases := \<lparr>fsk_records = (fsk_records (fsq_releases r))
          [slot (low start) (fsc_mask (fsq_consumerConfig r)) := start + ucast count]\<rparr>\<rparr>"

definition FR_SPMC_Dequeue :: "('a::zero) FR_SPMCQueue \<Rightarrow> ('a FR_SPMCQueue \<times> 'a \<times> ring_error option) option" where
  "FR_SPMC_Dequeue r =
     (case fr_spmcReserveConsumer r 1 True False of
        None \<Rightarrow> None
      | Some (r1, start, count, _) \<Rightarrow>
          if count = 0 then Some (r1, 0, Some (Sentinel ErrEmpty))
          else (let consumer = fsq_consumerConfig r1;
                    index = slot (low start) (fsc_mask consumer);
                    v = fsq_entries r1 ! index;
                    r2 = (if fsc_clearOnDequeue consumer then r1\<lparr>fsq_entries := (fsq_entries r1)[index := 0]\<rparr> else r1)
                in Some (fr_spmcReleaseConsumer r2 start count, v, None)))"

definition FR_SPMC_EnqueueBulk :: "'a FR_SPMCQueue \<Rightarrow> 'a list \<Rightarrow> 'a FR_SPMCQueue \<times> int \<times> ring_error option" where
  "FR_SPMC_EnqueueBulk r items =
     (let producer = fsq_producer r; capacity = fsp_mask producer + 1
      in if length items > unat capacity \<or> length items > unat (fsp_maxBatch producer)
         then (let r1 = spmcDiscoverReleases r;
                   fresh = ucast capacity - (fsp_cursor (fsq_producer r1) - fsp_released (fsq_producer r1)) :: u64
               in (r1, int (unat fresh), Some (BatchLengthError (int (length items)) (fsp_maxBatch producer) capacity)))
         else (let (r1, moved, remaining) = fr_spmcEnqueueBatch r items True
               in (r1, remaining, if moved \<noteq> int (length items) then Some (Sentinel ErrFull) else None)))"

definition FR_SPMC_EnqueueBurst :: "'a FR_SPMCQueue \<Rightarrow> 'a list \<Rightarrow> 'a FR_SPMCQueue \<times> int \<times> int" where
  "FR_SPMC_EnqueueBurst r items =
     (let len = min (length items) (unat (fsp_maxBatch (fsq_producer r)))
      in fr_spmcEnqueueBatch r (take len items) False)"

definition FR_SPMC_DequeueBulk :: "('a::zero) FR_SPMCQueue \<Rightarrow> 'a list
    \<Rightarrow> ('a FR_SPMCQueue \<times> int \<times> ring_error option \<times> 'a list) option" where
  "FR_SPMC_DequeueBulk r dst =
     (let consumer = fsq_consumerConfig r; capacity = fsc_mask consumer + 1
      in if length dst > unat capacity \<or> length dst > unat (fsc_maxBatch consumer)
         then (let head = fsr_head (fsq_consumerReservation r); fresh = fsq_producerPublished r - head
               in Some (r, int (unat (min fresh (ucast capacity))),
                        Some (BatchLengthError (int (length dst)) (fsc_maxBatch consumer) capacity), dst))
         else (case fr_spmcReserveConsumer r (of_nat (length dst)) True (fsc_exactBatchCounts consumer) of
                 None \<Rightarrow> None
               | Some (r1, start, count, remaining) \<Rightarrow>
                   if count = 0
                   then (if length dst = 0 then Some (r1, int (unat remaining), None, dst)
                         else Some (r1, int (unat remaining), Some (Sentinel ErrEmpty), dst))
                   else (let (r2, out) = fr_spmcReadConsumer r1 start dst
                         in Some (fr_spmcReleaseConsumer r2 start count, int (unat remaining), None, out))))"

definition FR_SPMC_DequeueBurst :: "('a::zero) FR_SPMCQueue \<Rightarrow> 'a list
    \<Rightarrow> ('a FR_SPMCQueue \<times> int \<times> int \<times> 'a list) option" where
  "FR_SPMC_DequeueBurst r dst =
     (let consumer = fsq_consumerConfig r;
          len = min (length dst) (unat (fsc_maxBatch consumer))
      in case fr_spmcReserveConsumer r (of_nat len) False (fsc_exactBatchCounts consumer) of
           None \<Rightarrow> None
         | Some (r1, start, count, remaining) \<Rightarrow>
             if count = 0 then Some (r1, 0, int (unat remaining), dst)
             else (let (r2, out) = fr_spmcReadConsumer r1 start (take (unat count) dst)
                   in Some (fr_spmcReleaseConsumer r2 start count, int (unat count), int (unat remaining),
                        out @ drop (unat count) dst)))"

section \<open>Invariant\<close>

abbreviation fsq_cursor :: "'a FR_SPMCQueue \<Rightarrow> u64" where
  "fsq_cursor r \<equiv> fsp_cursor (fsq_producer r)"

abbreviation fsq_released :: "'a FR_SPMCQueue \<Rightarrow> u64" where
  "fsq_released r \<equiv> fsp_released (fsq_producer r)"

abbreviation fsq_head :: "'a FR_SPMCQueue \<Rightarrow> u64" where
  "fsq_head r \<equiv> fsr_head (fsq_consumerReservation r)"

abbreviation fsq_mask :: "'a FR_SPMCQueue \<Rightarrow> u32" where
  "fsq_mask r \<equiv> fsp_mask (fsq_producer r)"

abbreviation fsq_records :: "'a FR_SPMCQueue \<Rightarrow> u64 list" where
  "fsq_records r \<equiv> fsk_records (fsq_releases r)"

definition FR_SPMC_inv :: "'a FR_SPMCQueue \<Rightarrow> bool" where
  "FR_SPMC_inv r \<longleftrightarrow>
     wide_inv (fsq_entries r) (fsq_mask r) (fsq_released r) (fsq_head r) (fsq_cursor r)
     \<and> fsr_cachedProducer (fsq_consumerReservation r) \<le> fsq_cursor r
     \<and> length (fsq_records r) = length (fsq_entries r)
     \<and> records_inv (fsq_records r) (fsq_mask r) (fsq_released r) (fsq_head r)
     \<and> fsq_producerPublished r = fsq_cursor r
     \<and> fsc_mask (fsq_consumerConfig r) = fsq_mask r
     \<and> fsc_exactBatchCounts (fsq_consumerConfig r) = fsp_exactBatchCounts (fsq_producer r)
     \<and> unat (fsp_maxBatch (fsq_producer r)) \<le> length (fsq_entries r)
     \<and> unat (fsc_maxBatch (fsq_consumerConfig r)) \<le> length (fsq_entries r)"

definition FR_SPMC_conf :: "'a FR_SPMCQueue \<Rightarrow> qconf" where
  "FR_SPMC_conf r = \<lparr>qc_cap = length (fsq_entries r), qc_maxE = unat (fsp_maxBatch (fsq_producer r)),
     qc_maxD = unat (fsc_maxBatch (fsq_consumerConfig r)), qc_exact = fsp_exactBatchCounts (fsq_producer r)\<rparr>"

definition FR_SPMC_contents :: "'a FR_SPMCQueue \<Rightarrow> 'a list" where
  "FR_SPMC_contents r = ring_contents (fsq_entries r) (low (fsq_cursor r)) (low (fsq_head r))"

definition FR_SPMC_fits :: "'a FR_SPMCQueue \<Rightarrow> nat \<Rightarrow> bool" where
  "FR_SPMC_fits r n \<longleftrightarrow> unat (fsq_cursor r) + n < 2 ^ 64"

lemma FR_SPMC_wide: "FR_SPMC_inv r \<Longrightarrow> wide_inv (fsq_entries r) (fsq_mask r) (fsq_released r) (fsq_head r) (fsq_cursor r)"
  by (simp add: FR_SPMC_inv_def)

lemma FR_SPMC_geom: "FR_SPMC_inv r \<Longrightarrow> geom (fsq_entries r) (fsq_mask r)"
  by (rule wide_geom [OF FR_SPMC_wide])

lemma length_FR_SPMC_contents:
  "FR_SPMC_inv r \<Longrightarrow> length (FR_SPMC_contents r) = unat (fsq_cursor r) - unat (fsq_head r)"
  unfolding FR_SPMC_contents_def by (rule length_wide [OF FR_SPMC_wide])

lemma FR_SPMC_bounded: "FR_SPMC_inv r \<Longrightarrow> length (FR_SPMC_contents r) \<le> qc_cap (FR_SPMC_conf r)"
  using wide_order [OF FR_SPMC_wide [of r]] by (simp add: length_FR_SPMC_contents FR_SPMC_conf_def)

lemma FR_SPMC_cap: "FR_SPMC_inv r \<Longrightarrow> unat (fsq_mask r + 1) = qc_cap (FR_SPMC_conf r)"
  using geom_cap [OF FR_SPMC_geom] by (simp add: FR_SPMC_conf_def)

section \<open>Enqueueing\<close>

lemma FR_SPMC_discover:
  assumes "FR_SPMC_inv r"
  shows "spmcDiscoverReleases r = r\<lparr>fsq_producer := (fsq_producer r)\<lparr>fsp_released := fsq_head r\<rparr>\<rparr>"
proof -
  have "discoverRecords (fsq_records r) (fsq_mask r) (fsq_released r) (fsq_cursor r - fsq_released r) (fsq_released r)
      (fsq_cursor r - fsq_released r) = fsq_head r"
    using assms wide_diff [OF FR_SPMC_wide [OF assms]] wide_order [OF FR_SPMC_wide [OF assms]]
    by (intro records_discover_all) (auto simp: FR_SPMC_inv_def)
  then show ?thesis by (simp add: spmcDiscoverReleases_def Let_def)
qed

lemma FR_SPMC_discovered:
  assumes "FR_SPMC_inv r"
  shows "FR_SPMC_inv (spmcDiscoverReleases r)" "FR_SPMC_contents (spmcDiscoverReleases r) = FR_SPMC_contents r"
    "FR_SPMC_conf (spmcDiscoverReleases r) = FR_SPMC_conf r" "fsq_cursor (spmcDiscoverReleases r) = fsq_cursor r"
    "fsq_released (spmcDiscoverReleases r) = fsq_head r" "fsq_mask (spmcDiscoverReleases r) = fsq_mask r"
    "fsq_entries (spmcDiscoverReleases r) = fsq_entries r"
  using assms wide_release [OF FR_SPMC_wide [OF assms]]
  by (auto simp: FR_SPMC_discover FR_SPMC_inv_def FR_SPMC_contents_def FR_SPMC_conf_def records_inv_def intro: path_end)

text \<open>The queue after \<open>n\<close> elements were written and published.\<close>

lemma FR_SPMC_push:
  assumes "FR_SPMC_inv r" "length xs \<le> length (fsq_entries r) - (unat (fsq_cursor r) - unat (fsq_released r))"
    and "unat n = length xs" "unat (fsq_cursor r) + length xs < 2 ^ 64"
  defines "r' \<equiv> fr_spmc_push r (copy_in (fsq_entries r) (fsq_mask r) (low (fsq_cursor r)) xs) n"
  shows "FR_SPMC_inv r'" "FR_SPMC_contents r' = FR_SPMC_contents r @ xs" "FR_SPMC_conf r' = FR_SPMC_conf r"
    "unat (fsq_cursor r') = unat (fsq_cursor r) + length xs"
proof -
  note w = FR_SPMC_wide [OF assms(1)]
  have room: "unat (fsq_cursor r) - unat (fsq_released r) + length xs \<le> length (fsq_entries r)"
    using assms(2) wide_order [OF w] by simp
  show c: "unat (fsq_cursor r') = unat (fsq_cursor r) + length xs"
    using assms(3,4) by (simp add: r'_def fr_spmc_push_def Let_def unat_word_ariths)
  have "fsr_cachedProducer (fsq_consumerReservation r) \<le> fsq_cursor r'"
    using assms(1) c by (auto simp: FR_SPMC_inv_def word_le_nat_alt)
  with assms(1) wide_push [OF w room assms(3,4)] show "FR_SPMC_inv r'" "FR_SPMC_contents r' = FR_SPMC_contents r @ xs"
    by (simp_all add: r'_def fr_spmc_push_def Let_def FR_SPMC_inv_def FR_SPMC_contents_def)
qed (simp add: r'_def fr_spmc_push_def Let_def FR_SPMC_conf_def)

text \<open>The room the producer knows of, after it discovered releases if it had to.\<close>

definition fr_spmc_seen :: "'a FR_SPMCQueue \<Rightarrow> u64 \<Rightarrow> 'a FR_SPMCQueue" where
  "fr_spmc_seen r len =
     (if fsp_exactBatchCounts (fsq_producer r) \<or> len = 0 \<or> ucast (fsq_mask r + 1) - (fsq_cursor r - fsq_released r) < len
      then spmcDiscoverReleases r else r)"

lemma fr_spmc_seen_facts:
  fixes r :: "'a FR_SPMCQueue" and len :: u64
  assumes "FR_SPMC_inv r"
  defines "r1 \<equiv> fr_spmc_seen r len"
  defines "free \<equiv> ucast (fsq_mask r + 1) - (fsq_cursor r1 - fsq_released r1)"
  shows "FR_SPMC_inv r1" "FR_SPMC_contents r1 = FR_SPMC_contents r" "FR_SPMC_conf r1 = FR_SPMC_conf r"
    "fsq_cursor r1 = fsq_cursor r" "fsq_mask r1 = fsq_mask r" "fsq_entries r1 = fsq_entries r"
    "unat free = length (fsq_entries r) - (unat (fsq_cursor r) - unat (fsq_released r1))"
    "unat free \<le> qc_cap (FR_SPMC_conf r) - length (FR_SPMC_contents r)"
    "qc_exact (FR_SPMC_conf r) \<or> len = 0 \<or> unat free < unat len \<Longrightarrow>
       unat free = qc_cap (FR_SPMC_conf r) - length (FR_SPMC_contents r)"
proof -
  note d = FR_SPMC_discovered [OF assms(1)] and w = FR_SPMC_wide [OF assms(1)]
  show r1: "FR_SPMC_inv r1" "FR_SPMC_contents r1 = FR_SPMC_contents r" "FR_SPMC_conf r1 = FR_SPMC_conf r"
    "fsq_cursor r1 = fsq_cursor r" "fsq_mask r1 = fsq_mask r" "fsq_entries r1 = fsq_entries r"
    using d assms(1) by (simp_all add: r1_def fr_spmc_seen_def)
  show f: "unat free = length (fsq_entries r) - (unat (fsq_cursor r) - unat (fsq_released r1))"
    using wide_room(1) [OF FR_SPMC_wide [OF r1(1)]] by (simp add: free_def r1)
  have room: "qc_cap (FR_SPMC_conf r) - length (FR_SPMC_contents r)
      = length (fsq_entries r) - (unat (fsq_cursor r) - unat (fsq_head r))"
    by (simp add: FR_SPMC_conf_def length_FR_SPMC_contents [OF assms(1)])
  have rel: "fsq_released r1 = fsq_released r \<or> fsq_released r1 = fsq_head r" using d(5) by (simp add: r1_def fr_spmc_seen_def)
  then show "unat free \<le> qc_cap (FR_SPMC_conf r) - length (FR_SPMC_contents r)"
    using wide_order [OF w] unfolding f room by auto
  show "unat free = qc_cap (FR_SPMC_conf r) - length (FR_SPMC_contents r)"
    if "qc_exact (FR_SPMC_conf r) \<or> len = 0 \<or> unat free < unat len"
  proof -
    have "fsq_released r1 = fsq_head r \<or> \<not> (qc_exact (FR_SPMC_conf r) \<or> len = 0 \<or> unat free < unat len)"
      using d(5) by (auto simp: r1_def free_def fr_spmc_seen_def FR_SPMC_conf_def word_less_nat_alt)
    then show ?thesis using that unfolding f room by auto
  qed
qed

lemma fr_spmc_put_ok:
  fixes fixed :: bool
  assumes "FR_SPMC_inv r" "length items \<le> qc_cap (FR_SPMC_conf r)" "FR_SPMC_fits r (length items + k)"
  defines "N \<equiv> qc_cap (FR_SPMC_conf r) - length (FR_SPMC_contents r)"
  defines "m \<equiv> admitted fixed (length items) N"
  shows "\<exists>r' rem. fr_spmcEnqueueBatch r items fixed = (r', int m, rem) \<and> FR_SPMC_inv r' \<and> FR_SPMC_conf r' = FR_SPMC_conf r
    \<and> FR_SPMC_fits r' k \<and> FR_SPMC_contents r' = FR_SPMC_contents r @ take m items
    \<and> reports (qc_exact (FR_SPMC_conf r) \<or> items = [] \<or> m < length items) rem (N - m)"
proof -
  let ?len = "of_nat (length items) :: u64"
  define r1 where "r1 = fr_spmc_seen r ?len"
  define free where "free = ucast (fsq_mask r + 1) - (fsq_cursor r1 - fsq_released r1)"
  note g = FR_SPMC_geom [OF assms(1)] and seen = fr_spmc_seen_facts [OF assms(1), of ?len, folded r1_def, folded free_def N_def]
  have len: "length items \<le> length (fsq_entries r)" "length items < 2 ^ 64"
    using assms(2) geom_le [OF g] by (simp_all add: FR_SPMC_conf_def)
  then have lw: "unat ?len = length items" "?len = 0 \<longleftrightarrow> items = []" by (simp_all add: unat_of_nat word_unat_eq_iff)
  have fresh: "qc_exact (FR_SPMC_conf r) \<or> items = [] \<or> unat free < length items \<Longrightarrow> unat free = N" using seen(9) lw by simp
  have m: "m = admitted fixed (length items) (unat free)" unfolding m_def by (rule admitted_seen [OF seen(8) fresh])
  have fits: "FR_SPMC_fits r1 k" using assms(3) seen(4) by (simp add: FR_SPMC_fits_def)
  let ?n = "min ?len free"
  have n: "unat ?n = min (length items) (unat free)" using lw by (simp add: min_def word_le_nat_alt)
  note batch = fr_spmcEnqueueBatch_def [of r items fixed, unfolded Let_def, folded fr_spmc_seen_def, folded r1_def, folded free_def]
  show ?thesis
  proof (cases "fixed \<and> free < ?len \<or> ?n = 0")
    case True
    then have m0: "m = 0" using m n lw by (auto simp: admitted_def word_less_nat_alt)
    have "unat free = N" using True fresh n lw by (auto simp: word_less_nat_alt min_def split: if_splits)
    moreover have "fr_spmcEnqueueBatch r items fixed = (r1, int m, int (unat free))" using True m0 by (auto simp: batch)
    ultimately show ?thesis using seen(1-3) fits m0 by (auto simp: reports_def)
  next
    case False
    then have mn: "m = unat ?n" using m n lw by (auto simp: admitted_def word_less_nat_alt)
    let ?xs = "take (unat ?n) items"
    have xs: "length ?xs = unat ?n" using n by simp
    have one: "(fsq_entries r1)[slot (low (fsq_cursor r1)) (fsq_mask r) := items ! 0]
        = copy_in (fsq_entries r1) (fsq_mask r) (low (fsq_cursor r1)) ?xs" if "?n = 1"
    proof -
      have "unat ?n = 1" "items \<noteq> []" using that n by auto
      then have "?xs = [items ! 0]" by (cases items) simp_all
      then show ?thesis using copy_in_one [OF FR_SPMC_geom [OF seen(1)]] seen(5) by simp
    qed
    let ?r' = "fr_spmc_push r1 (copy_in (fsq_entries r1) (fsq_mask r1) (low (fsq_cursor r1)) ?xs) ?n"
    have fit: "unat (fsq_cursor r1) + length ?xs + k < 2 ^ 64" using assms(3) seen(4) n by (simp add: FR_SPMC_fits_def)
    have "length ?xs \<le> length (fsq_entries r1) - (unat (fsq_cursor r1) - unat (fsq_released r1))"
      using n seen(4,6,7) by simp
    note push = FR_SPMC_push [OF seen(1) this xs [symmetric]]
    have "fr_spmcEnqueueBatch r items fixed = (?r', int m, int (unat (free - ?n)))"
      using False mn one seen(5) by (auto simp: batch)
    moreover have "unat (free - ?n) = unat free - m" using n mn by (simp add: unat_sub word_le_nat_alt)
    moreover have "reports (qc_exact (FR_SPMC_conf r) \<or> items = [] \<or> m < length items) (int (unat free - m)) (N - m)"
      using fresh seen(8) mn n by (auto simp: reports_def min_def split: if_splits)
    ultimately show ?thesis using push fit seen(2,3) mn by (simp add: FR_SPMC_fits_def)
  qed
qed

section \<open>Dequeueing\<close>

text \<open>The published position an attempt works with.\<close>

definition fr_spmc_published :: "'a FR_SPMCQueue \<Rightarrow> u32 \<Rightarrow> bool \<Rightarrow> u64" where
  "fr_spmc_published r requested exact =
     (let cached = fsr_cachedProducer (fsq_consumerReservation r)
      in if exact \<or> requested = 0 \<or> cached < fsq_head r \<or> cached - fsq_head r < ucast requested
         then fsq_producerPublished r else cached)"

lemma fr_spmc_published_facts:
  fixes exact :: bool and requested :: u32
  assumes "FR_SPMC_inv r"
  defines "avail \<equiv> fr_spmc_published r requested exact - fsq_head r"
  shows "fr_spmc_published r requested exact \<le> fsq_cursor r" "unat avail \<le> length (FR_SPMC_contents r)"
    "exact \<or> requested = 0 \<or> unat avail < unat requested \<Longrightarrow> unat avail = length (FR_SPMC_contents r)"
proof -
  note w = FR_SPMC_wide [OF assms(1)]
  have pub: "fsq_producerPublished r = fsq_cursor r" "fsr_cachedProducer (fsq_consumerReservation r) \<le> fsq_cursor r"
    using assms(1) by (simp_all add: FR_SPMC_inv_def)
  show "fr_spmc_published r requested exact \<le> fsq_cursor r" using pub by (auto simp: fr_spmc_published_def Let_def)
  have D: "unat (fsq_cursor r - fsq_head r) = length (FR_SPMC_contents r)"
    using wide_diff(2) [OF w] by (simp add: length_FR_SPMC_contents [OF assms(1)])
  have c: "unat (x - fsq_head r) \<le> length (FR_SPMC_contents r)" if "fsq_head r \<le> x" "x \<le> fsq_cursor r" for x
    using that by (simp add: u64_diff length_FR_SPMC_contents [OF assms(1)] word_le_nat_alt diff_le_mono)
  show "unat avail \<le> length (FR_SPMC_contents r)"
    using c pub D by (auto simp: avail_def fr_spmc_published_def Let_def not_less)
  show "unat avail = length (FR_SPMC_contents r)" if "exact \<or> requested = 0 \<or> unat avail < unat requested"
    using that pub D by (auto simp: avail_def fr_spmc_published_def Let_def word_less_nat_alt split: if_splits)
qed

lemma fr_spmc_attempt:
  fixes r :: "'a FR_SPMCQueue" and fixed exact :: bool and len :: u32
  assumes "FR_SPMC_inv r"
  defines "p \<equiv> fr_spmc_published r len exact"
  defines "avail \<equiv> p - fsq_head r"
  defines "count \<equiv> (if fixed \<and> avail < ucast len then 0 else ucast (min (ucast len) avail))"
  shows "fr_spmcReserveConsumer r len fixed exact =
    Some (if count = 0 then r else r\<lparr>fsq_consumerReservation := \<lparr>fsr_head = fsq_head r + ucast count, fsr_cachedProducer = p\<rparr>\<rparr>,
      fsq_head r, count, ucast avail - count)"
proof -
  have small: "\<not> avail > ucast (fsc_mask (fsq_consumerConfig r) + 1)"
    using fr_spmc_published_facts(2) [OF assms(1), of len exact] FR_SPMC_bounded [OF assms(1)] FR_SPMC_cap [OF assms(1)] assms(1)
    by (simp add: avail_def p_def word_less_nat_alt FR_SPMC_inv_def)
  have "fr_spmcAttemptConsumer r (fsq_head r) len fixed exact =
    (if count = 0 then r else r\<lparr>fsq_consumerReservation := \<lparr>fsr_head = fsq_head r + ucast count, fsr_cachedProducer = p\<rparr>\<rparr>,
      fsq_head r, count, ucast avail - count, False)"
    unfolding fr_spmcAttemptConsumer_def Let_def
    unfolding fr_spmc_published_def [unfolded Let_def, symmetric] p_def [symmetric] avail_def [symmetric]
    using small by (auto simp: count_def)
  then show ?thesis by (subst fr_spmcReserveConsumer.simps) simp
qed

definition fr_spmc_get :: "('a::zero) FR_SPMCQueue \<Rightarrow> bool \<Rightarrow> 'a list \<Rightarrow> bool
    \<Rightarrow> ('a FR_SPMCQueue \<times> int \<times> int \<times> 'a list) option" where
  "fr_spmc_get r exact dst fixed =
     (case fr_spmcReserveConsumer r (of_nat (length dst)) fixed exact of
        None \<Rightarrow> None
      | Some (r1, start, count, remaining) \<Rightarrow>
          if count = 0 then Some (r1, 0, int (unat remaining), dst)
          else (let (r2, out) = fr_spmcReadConsumer r1 start (take (unat count) dst)
                in Some (fr_spmcReleaseConsumer r2 start count, int (unat count), int (unat remaining),
                     out @ drop (unat count) dst)))"

lemma fr_spmc_read:
  assumes "geom (fsq_entries r) (fsc_mask (fsq_consumerConfig r))" "length dst = unat n"
  shows "fr_spmcReadConsumer r start dst =
    (r\<lparr>fsq_entries := (if fsc_clearOnDequeue (fsq_consumerConfig r)
       then clear_slots (fsq_entries r) (fsc_mask (fsq_consumerConfig r)) (low start) n else fsq_entries r)\<rparr>,
     copy_out (fsq_entries r) (fsc_mask (fsq_consumerConfig r)) (low start) n)"
proof (cases "length dst = 1")
  case True
  then have "n = 1" using assms(2) word_unat_eq_iff [of n 1] by simp
  with True show ?thesis
    using clear_one [OF assms(1), of "low start"] copy_out_one [OF assms(1)] by (simp add: fr_spmcReadConsumer_def Let_def)
qed (use assms(2) in \<open>simp add: fr_spmcReadConsumer_def Let_def\<close>)

text \<open>The queue after \<open>n\<close> elements were reserved, read and released.\<close>

lemma FR_SPMC_pop:
  fixes r :: "('a::zero) FR_SPMCQueue"
  assumes "FR_SPMC_inv r" "n \<noteq> 0" "unat n \<le> length (FR_SPMC_contents r)" "p \<le> fsq_cursor r"
    and "es = fsq_entries r \<or> es = clear_slots (fsq_entries r) (fsq_mask r) (low (fsq_head r)) n"
  defines "r' \<equiv> r\<lparr>fsq_entries := es,
      fsq_consumerReservation := \<lparr>fsr_head = fsq_head r + ucast n, fsr_cachedProducer = p\<rparr>,
      fsq_releases := \<lparr>fsk_records = (fsq_records r)[slot (low (fsq_head r)) (fsq_mask r) := fsq_head r + ucast n]\<rparr>\<rparr>"
  shows "FR_SPMC_inv r'" "FR_SPMC_contents r' = drop (unat n) (FR_SPMC_contents r)"
    "copy_out (fsq_entries r) (fsq_mask r) (low (fsq_head r)) n = take (unat n) (FR_SPMC_contents r)"
proof -
  note w = FR_SPMC_wide [OF assms(1)]
  note o = wide_order [OF w]
  have n: "unat n \<le> unat (fsq_cursor r) - unat (fsq_head r)" "0 < unat n"
    using assms(2,3) by (simp_all add: length_FR_SPMC_contents [OF assms(1)] unat_gt_0)
  have "unat (fsq_head r + ucast n) = unat (fsq_head r) + unat n"
    using n o unat64_less [of "fsq_cursor r"] by (intro unat_advance) simp
  then have lt: "fsq_head r < fsq_head r + ucast n" using n by (simp add: word_less_nat_alt)
  have len: "length (fsq_records r) = length (fsq_entries r)" using assms(1) by (simp add: FR_SPMC_inv_def)
  have "records_inv (fsq_records r) (fsq_mask r) (fsq_released r) (fsq_head r)" using assms(1) by (simp add: FR_SPMC_inv_def)
  from records_store [OF this lt] have rec: "records_inv ((fsq_records r)[slot (low (fsq_head r)) (fsq_mask r)
      := fsq_head r + ucast n]) (fsq_mask r) (fsq_released r) (fsq_head r + ucast n)"
    using n o len by simp
  have "length es = length (fsq_entries r)" using assms(5) by auto
  with wide_pop [OF w n(1) assms(5)] rec len assms(1,4) show "FR_SPMC_inv r'"
    "FR_SPMC_contents r' = drop (unat n) (FR_SPMC_contents r)"
    "copy_out (fsq_entries r) (fsq_mask r) (low (fsq_head r)) n = take (unat n) (FR_SPMC_contents r)"
    by (simp_all add: r'_def FR_SPMC_inv_def FR_SPMC_contents_def)
qed

lemma fr_spmc_get_ok:
  fixes fixed :: bool and r :: "('a::zero) FR_SPMCQueue"
  assumes "FR_SPMC_inv r" "length dst \<le> qc_cap (FR_SPMC_conf r)"
  defines "D \<equiv> length (FR_SPMC_contents r)"
  defines "m \<equiv> admitted fixed (length dst) D"
  shows "\<exists>r' rem. fr_spmc_get r exact dst fixed = Some (r', int m, rem, take m (FR_SPMC_contents r) @ drop m dst)
    \<and> FR_SPMC_inv r' \<and> FR_SPMC_conf r' = FR_SPMC_conf r \<and> fsq_cursor r' = fsq_cursor r
    \<and> FR_SPMC_contents r' = drop m (FR_SPMC_contents r)
    \<and> reports (exact \<or> dst = [] \<or> m < length dst) rem (D - m)"
proof -
  let ?len = "of_nat (length dst) :: u32"
  define p where "p = fr_spmc_published r ?len exact"
  define avail where "avail = p - fsq_head r"
  define n where "n = (if fixed \<and> avail < ucast ?len then 0 else ucast (min (ucast ?len) avail) :: u32)"
  note g = FR_SPMC_geom [OF assms(1)]
  note pub = fr_spmc_published_facts [OF assms(1), where requested = ?len and exact = exact, folded p_def, folded avail_def D_def]
  note res = fr_spmc_attempt [OF assms(1), where len = ?len and exact = exact and fixed = fixed, folded p_def, folded avail_def, folded n_def]
  have len: "length dst \<le> length (fsq_entries r)" using assms(2) by (simp add: FR_SPMC_conf_def)
  have lw: "unat ?len = length dst" "?len = 0 \<longleftrightarrow> dst = []" using len_word [OF len g] len_word_0 [OF len g] by auto
  have fresh: "exact \<or> dst = [] \<or> unat avail < length dst \<Longrightarrow> unat avail = D" using pub(3) lw by simp
  have "D \<le> 2 ^ 30" using FR_SPMC_bounded [OF assms(1)] geom_le [OF g] by (simp add: D_def FR_SPMC_conf_def)
  then have small: "unat avail < 2 ^ 32" "unat (ucast avail :: u32) = unat avail" using pub(2) by (simp_all add: unat_low)
  have "m = admitted fixed (length dst) (unat avail)" unfolding m_def by (rule admitted_seen [OF pub(2) fresh])
  then have mn: "m = unat n" using lw small by (auto simp: n_def admitted_def word_less_nat_alt min_def word_le_nat_alt unat_low)
  have n: "unat n \<le> unat avail" "unat n \<le> length dst"
    using lw small by (auto simp: n_def min_def word_le_nat_alt unat_low)
  have rem: "unat (ucast avail - n) = unat avail - m" using n(1) small mn by (simp add: unat_sub word_le_nat_alt)
  have rep: "reports (exact \<or> dst = [] \<or> m < length dst) (int (unat avail - m)) (D - m)"
    using fresh pub(2) \<open>m = admitted fixed (length dst) (unat avail)\<close>
    by (auto simp: reports_def admitted_def min_def split: if_splits)
  show ?thesis
  proof (cases "n = 0")
    case True
    with res rem rep mn assms(1) show ?thesis by (simp add: fr_spmc_get_def)
  next
    case False
    have mk: "fsc_mask (fsq_consumerConfig r) = fsq_mask r" using assms(1) by (simp add: FR_SPMC_inv_def)
    let ?es = "if fsc_clearOnDequeue (fsq_consumerConfig r) then clear_slots (fsq_entries r) (fsq_mask r) (low (fsq_head r)) n
      else fsq_entries r"
    have "unat n \<le> length (FR_SPMC_contents r)" using n(1) pub(2) by (simp add: D_def)
    note pop = FR_SPMC_pop [OF assms(1) False this pub(1), of ?es]
    let ?r1 = "r\<lparr>fsq_consumerReservation := \<lparr>fsr_head = fsq_head r + ucast n, fsr_cachedProducer = p\<rparr>\<rparr>"
    have "fr_spmcReadConsumer ?r1 (fsq_head r) (take (unat n) dst)
        = (?r1\<lparr>fsq_entries := ?es\<rparr>, take (unat n) (FR_SPMC_contents r))"
      using fr_spmc_read [of ?r1 "take (unat n) dst" n] g mk n(2) pop(3) by simp
    then have "fr_spmc_get r exact dst fixed = Some (r\<lparr>fsq_entries := ?es,
        fsq_consumerReservation := \<lparr>fsr_head = fsq_head r + ucast n, fsr_cachedProducer = p\<rparr>,
        fsq_releases := \<lparr>fsk_records = (fsq_records r)[slot (low (fsq_head r)) (fsq_mask r) := fsq_head r + ucast n]\<rparr>\<rparr>,
        int m, int (unat avail - m), take m (FR_SPMC_contents r) @ drop m dst)"
      using res False rem mn mk by (simp add: fr_spmc_get_def fr_spmcReleaseConsumer_def)
    with pop(1,2) rep mn show ?thesis by (simp add: FR_SPMC_conf_def)
  qed
qed

interpretation fr_spmc_batches: fifo_batches_within FR_SPMC_inv FR_SPMC_conf FR_SPMC_contents FR_SPMC_fits
  "\<lambda>r items fixed. Some (fr_spmcEnqueueBatch r items fixed)"
  "\<lambda>r dst fixed. fr_spmc_get r (qc_exact (FR_SPMC_conf r)) dst fixed"
proof unfold_locales
  fix r :: "'a FR_SPMCQueue" assume "FR_SPMC_inv r"
  then show "length (FR_SPMC_contents r) \<le> qc_cap (FR_SPMC_conf r)" by (rule FR_SPMC_bounded)
next
  fix r :: "'a FR_SPMCQueue" assume "FR_SPMC_inv r"
  then show "conf_ok (FR_SPMC_conf r)" by (simp add: FR_SPMC_inv_def FR_SPMC_conf_def conf_ok_def)
next
  fix r :: "'a FR_SPMCQueue" and dst :: "'a list" and n m fixed
  assume "FR_SPMC_inv r" "length dst \<le> qc_cap (FR_SPMC_conf r)" "FR_SPMC_fits r n"
    "m = admitted fixed (length dst) (length (FR_SPMC_contents r))"
  then show "\<exists>r' rem. fr_spmc_get r (qc_exact (FR_SPMC_conf r)) dst fixed
      = Some (r', int m, rem, take m (FR_SPMC_contents r) @ drop m dst) \<and> FR_SPMC_inv r'
      \<and> FR_SPMC_conf r' = FR_SPMC_conf r \<and> FR_SPMC_fits r' n \<and> FR_SPMC_contents r' = drop m (FR_SPMC_contents r)
      \<and> reports (qc_exact (FR_SPMC_conf r) \<or> dst = [] \<or> m < length dst) rem (length (FR_SPMC_contents r) - m)"
    using fr_spmc_get_ok [of r dst "qc_exact (FR_SPMC_conf r)" fixed] by (auto simp: FR_SPMC_fits_def)
qed (use fr_spmc_put_ok in \<open>auto simp: FR_SPMC_fits_def\<close>)

section \<open>The exported methods\<close>

fun FR_SPMC_step :: "('a::zero) FR_SPMCQueue \<Rightarrow> 'a qop \<Rightarrow> ('a FR_SPMCQueue \<times> 'a qres) option" where
  "FR_SPMC_step r (Enqueue_op x) = (case FR_SPMC_Enqueue r x of (r', e) \<Rightarrow> Some (r', Enqueued e))"
| "FR_SPMC_step r Dequeue_op = map_option (\<lambda>(r', v, e). (r', Dequeued v e)) (FR_SPMC_Dequeue r)"
| "FR_SPMC_step r (EnqueueBulk_op xs) = (case FR_SPMC_EnqueueBulk r xs of (r', free, e) \<Rightarrow> Some (r', BulkIn free e))"
| "FR_SPMC_step r (EnqueueBurst_op xs) = (case FR_SPMC_EnqueueBurst r xs of (r', n, free) \<Rightarrow> Some (r', BurstIn n free))"
| "FR_SPMC_step r (DequeueBulk_op dst) = map_option (\<lambda>(r', avail, e, out). (r', BulkOut avail e out)) (FR_SPMC_DequeueBulk r dst)"
| "FR_SPMC_step r (DequeueBurst_op dst) = map_option (\<lambda>(r', n, avail, out). (r', BurstOut n avail out)) (FR_SPMC_DequeueBurst r dst)"
| "FR_SPMC_step r Count_op = Some (r, Counted (FR_SPMC_Count r))"
| "FR_SPMC_step r Reset_op = Some (FR_SPMC_Reset r, ResetDone)"

abbreviation FR_SPMC_ok :: "nat \<Rightarrow> ('a::zero) FR_SPMCQueue \<Rightarrow> 'a qop \<Rightarrow> bool" where
  "FR_SPMC_ok n r opn \<equiv>
     fifo_outcome FR_SPMC_inv FR_SPMC_conf FR_SPMC_contents FR_SPMC_fits n r opn (FR_SPMC_step r opn)"

lemma FR_SPMC_Enqueue_ok:
  assumes "FR_SPMC_inv r" "FR_SPMC_fits r (1 + n)"
  shows "FR_SPMC_ok n r (Enqueue_op x)"
proof -
  let ?room = "\<lambda>r. length (fsq_entries r) - (unat (fsq_cursor r) - unat (fsq_released r))"
  let ?full = "\<lambda>r. fsq_cursor r - fsq_released r \<ge> ucast (fsq_mask r + 1)"
  define r1 where "r1 = (if ?full r then spmcDiscoverReleases r else r)"
  note d = FR_SPMC_discovered [OF assms(1)]
  have r1: "FR_SPMC_inv r1" "FR_SPMC_contents r1 = FR_SPMC_contents r" "FR_SPMC_conf r1 = FR_SPMC_conf r"
    "fsq_cursor r1 = fsq_cursor r" using d assms(1) by (simp_all add: r1_def)
  have room: "?full r' \<longleftrightarrow> ?room r' = 0" if "FR_SPMC_inv r'" for r' :: "'a FR_SPMCQueue"
    using wide_diff(1) [OF FR_SPMC_wide [OF that]] geom_cap [OF FR_SPMC_geom [OF that]] by (simp add: word_le_nat_alt)
  have ge: "?room r' \<le> qc_cap (FR_SPMC_conf r') - length (FR_SPMC_contents r')" if "FR_SPMC_inv r'" for r' :: "'a FR_SPMCQueue"
    using wide_order [OF FR_SPMC_wide [OF that]] length_FR_SPMC_contents [OF that] by (auto simp: FR_SPMC_conf_def)
  have full: "?full r1 \<longleftrightarrow> \<not> length (FR_SPMC_contents r) < qc_cap (FR_SPMC_conf r)"
    using room [OF r1(1)] ge [OF r1(1)] room [OF assms(1)] d(4-7) r1(2,3) FR_SPMC_bounded [OF assms(1)]
      length_FR_SPMC_contents [OF assms(1)] by (auto simp: r1_def FR_SPMC_conf_def)
  show ?thesis
  proof (cases "?full r1")
    case True
    then have "FR_SPMC_step r (Enqueue_op x) = Some (r1, Enqueued (Some (Sentinel ErrFull)))"
      by (simp add: FR_SPMC_Enqueue_def Let_def flip: r1_def)
    with True full r1 assms(2) show ?thesis
      by (intro fifo_outcomeI [of _ r1 "Enqueued (Some (Sentinel ErrFull))"]) (simp_all add: fifo_result_def FR_SPMC_fits_def)
  next
    case False
    let ?r' = "fr_spmc_push r1 (copy_in (fsq_entries r1) (fsq_mask r1) (low (fsq_cursor r1)) [x]) 1"
    have "FR_SPMC_step r (Enqueue_op x) = Some (?r', Enqueued None)"
      using False copy_in_one [OF FR_SPMC_geom [OF r1(1)], of "low (fsq_cursor r1)" x]
      by (simp add: FR_SPMC_Enqueue_def Let_def flip: r1_def)
    moreover have "length [x] \<le> ?room r1" using room [OF r1(1)] False by simp
    moreover have "unat (fsq_cursor r1) + length [x] < 2 ^ 64" using assms(2) r1(4) by (simp add: FR_SPMC_fits_def)
    ultimately show ?thesis
      using FR_SPMC_push [OF r1(1), of "[x]" 1] r1 full False assms(2)
      by (intro fifo_outcomeI [of _ ?r' "Enqueued None"]) (simp_all add: fifo_result_def FR_SPMC_fits_def)
  qed
qed

lemma FR_SPMC_EnqueueBulk_ok:
  assumes "FR_SPMC_inv r" "FR_SPMC_fits r (length items + n)"
  shows "FR_SPMC_ok n r (EnqueueBulk_op items)"
proof (cases "length items > qc_maxE (FR_SPMC_conf r)")
  case True
  note d = FR_SPMC_discovered [OF assms(1)]
  have "unat (ucast (fsq_mask r + 1) - (fsq_cursor r - fsq_head r)) = qc_cap (FR_SPMC_conf r) - length (FR_SPMC_contents r)"
    using wide_room(2) [OF FR_SPMC_wide [OF assms(1)]] by (simp add: FR_SPMC_conf_def length_FR_SPMC_contents [OF assms(1)])
  then have "FR_SPMC_EnqueueBulk r items = (spmcDiscoverReleases r, int (qc_cap (FR_SPMC_conf r) - length (FR_SPMC_contents r)),
      Some (length_error (FR_SPMC_conf r) (length items)))"
    using True d FR_SPMC_cap [OF assms(1)]
    by (simp add: FR_SPMC_EnqueueBulk_def Let_def BatchLengthError_def length_error_def FR_SPMC_conf_def)
  with True d assms(2) show ?thesis
    by (intro fifo_outcomeI [of _ "spmcDiscoverReleases r"]) (auto simp: fifo_result_def reports_def FR_SPMC_fits_def)
next
  case False
  then have "\<not> (length items > unat (fsq_mask r + 1) \<or> length items > unat (fsp_maxBatch (fsq_producer r)))"
    using assms(1) FR_SPMC_cap [OF assms(1)] by (auto simp: FR_SPMC_inv_def FR_SPMC_conf_def)
  with fr_spmc_batches.bulk_in_within [OF assms(1) _ assms(2)] False show ?thesis
    by (auto simp: FR_SPMC_EnqueueBulk_def not_less intro: fifo_outcomeI)
qed

lemma FR_SPMC_EnqueueBurst_ok:
  assumes "FR_SPMC_inv r" "FR_SPMC_fits r (length items + n)"
  shows "FR_SPMC_ok n r (EnqueueBurst_op items)"
  using fr_spmc_batches.burst_in_within [OF assms]
  by (auto simp: FR_SPMC_EnqueueBurst_def FR_SPMC_conf_def Let_def intro: fifo_outcomeI)

lemma FR_SPMC_Dequeue_ok:
  fixes r :: "('a::zero) FR_SPMCQueue"
  assumes "FR_SPMC_inv r" "FR_SPMC_fits r n"
  shows "FR_SPMC_ok n r Dequeue_op"
proof -
  let ?m = "admitted True 1 (length (FR_SPMC_contents r))" and ?out = "\<lambda>m. take m (FR_SPMC_contents r) @ drop m [0]"
  have len: "length [0 :: 'a] \<le> qc_cap (FR_SPMC_conf r)"
    using geom_pos [OF FR_SPMC_geom [OF assms(1)]] by (simp add: FR_SPMC_conf_def Suc_le_eq)
  obtain r' rem where p: "fr_spmc_get r False [0] True = Some (r', int ?m, rem, ?out ?m)" "FR_SPMC_inv r'"
    "FR_SPMC_conf r' = FR_SPMC_conf r" "fsq_cursor r' = fsq_cursor r" "FR_SPMC_contents r' = drop ?m (FR_SPMC_contents r)"
    using fr_spmc_get_ok [OF assms(1) len, of False True] by auto
  obtain r1 start count rest where res: "fr_spmcReserveConsumer r 1 True False = Some (r1, start, count, rest)"
    using p(1) by (auto simp: fr_spmc_get_def split: option.splits)
  have "FR_SPMC_Dequeue r = Some (r', hd (?out ?m), if ?m = 0 then Some (Sentinel ErrEmpty) else None)"
  proof (cases "count = 0")
    case True
    with p(1) res show ?thesis by (simp add: fr_spmc_get_def FR_SPMC_Dequeue_def)
  next
    case False
    then have "0 < unat count" by (simp add: unat_gt_0)
    moreover have "unat count = ?m" using False p(1) res by (auto simp: fr_spmc_get_def Let_def split: prod.splits)
    ultimately have "unat count = 1" "?m = 1" by (auto simp: admitted_def min_def Suc_le_eq split: if_splits)
    with False p(1) res show ?thesis
      by (cases "FR_SPMC_contents r")
        (auto simp: fr_spmc_get_def FR_SPMC_Dequeue_def fr_spmcReadConsumer_def Let_def split: option.splits if_splits)
  qed
  moreover have "hd (?out ?m) = (if ?m = 0 then 0 else hd (FR_SPMC_contents r))"
    by (cases "FR_SPMC_contents r") (auto simp: admitted_def)
  ultimately show ?thesis
    using p(2-) assms(2) dequeue_admitted [of ?m "FR_SPMC_contents r"]
    by (auto simp: FR_SPMC_fits_def intro: fifo_outcomeI)
qed

lemma FR_SPMC_fresh_out:
  assumes "FR_SPMC_inv r"
  shows "unat (min (fsq_producerPublished r - fsq_head r) (ucast (fsc_mask (fsq_consumerConfig r) + 1)))
    = length (FR_SPMC_contents r)"
  using assms wide_diff(2) [OF FR_SPMC_wide [OF assms]] FR_SPMC_bounded [OF assms] FR_SPMC_cap [OF assms]
    length_FR_SPMC_contents [OF assms]
  by (auto simp: FR_SPMC_inv_def min_def word_le_nat_alt)

lemma FR_SPMC_DequeueBulk_ok:
  fixes r :: "('a::zero) FR_SPMCQueue"
  assumes "FR_SPMC_inv r" "FR_SPMC_fits r n"
  shows "FR_SPMC_ok n r (DequeueBulk_op dst)"
proof (cases "length dst > qc_maxD (FR_SPMC_conf r)")
  case True
  then have "FR_SPMC_DequeueBulk r dst = Some (r, int (length (FR_SPMC_contents r)),
      Some (length_error (FR_SPMC_conf r) (length dst)), dst)"
    using FR_SPMC_fresh_out [OF assms(1)] FR_SPMC_cap [OF assms(1)] assms(1)
    by (simp add: FR_SPMC_DequeueBulk_def Let_def BatchLengthError_def length_error_def FR_SPMC_inv_def FR_SPMC_conf_def)
  with True assms show ?thesis by (intro fifo_outcomeI [of _ r]) (auto simp: fifo_result_def reports_def)
next
  case False
  then have short: "\<not> (length dst > unat (fsc_mask (fsq_consumerConfig r) + 1)
      \<or> length dst > unat (fsc_maxBatch (fsq_consumerConfig r)))"
    using assms(1) FR_SPMC_cap [OF assms(1)] by (auto simp: FR_SPMC_inv_def FR_SPMC_conf_def)
  have ex: "qc_exact (FR_SPMC_conf r) = fsc_exactBatchCounts (fsq_consumerConfig r)"
    using assms(1) by (simp add: FR_SPMC_inv_def FR_SPMC_conf_def)
  obtain r' moved rem out where p: "fr_spmc_get r (qc_exact (FR_SPMC_conf r)) dst True = Some (r', moved, rem, out)"
    and k: "FR_SPMC_inv r'" "FR_SPMC_conf r' = FR_SPMC_conf r" "FR_SPMC_fits r' n"
      "FR_SPMC_contents r' = fifo_next (FR_SPMC_conf r) (FR_SPMC_contents r) (DequeueBulk_op dst)"
    and z: "moved = 0 \<longleftrightarrow> dst = [] \<or> moved \<noteq> int (length dst)"
    and f: "fifo_result (FR_SPMC_conf r) (FR_SPMC_contents r) (DequeueBulk_op dst)
      (BulkOut rem (if moved \<noteq> int (length dst) then Some (Sentinel ErrEmpty) else None) out)"
    using fr_spmc_batches.bulk_out_within [OF assms(1) _ assms(2), of dst] False by (auto simp: not_less)
  obtain r1 start count rest where res: "fr_spmcReserveConsumer r (of_nat (length dst)) True
      (fsc_exactBatchCounts (fsq_consumerConfig r)) = Some (r1, start, count, rest)"
    using p by (auto simp: fr_spmc_get_def ex split: option.splits)
  have "FR_SPMC_DequeueBulk r dst = Some (r', rem, if moved \<noteq> int (length dst) then Some (Sentinel ErrEmpty) else None, out)"
  proof (cases "count = 0")
    case True
    have "r' = r1" "moved = 0" "rem = int (unat rest)" "out = dst"
      using True p res by (simp_all add: fr_spmc_get_def ex)
    with True res z short show ?thesis by (simp add: FR_SPMC_DequeueBulk_def Let_def)
  next
    case False
    then have "moved = int (unat count)" "moved \<noteq> 0"
      using p res by (auto simp: fr_spmc_get_def ex Let_def unat_eq_zero split: prod.splits)
    with z have "unat count = length dst" "moved = int (length dst)" by auto
    moreover obtain r2 out' where "fr_spmcReadConsumer r1 start dst = (r2, out')" by (cases "fr_spmcReadConsumer r1 start dst")
    ultimately show ?thesis
      using False p res by (auto simp: fr_spmc_get_def FR_SPMC_DequeueBulk_def ex if_not_P [OF short] Let_def)
  qed
  with k f show ?thesis by (intro fifo_outcomeI [of _ r']) simp_all
qed

lemma FR_SPMC_DequeueBurst_ok:
  fixes r :: "('a::zero) FR_SPMCQueue"
  assumes "FR_SPMC_inv r" "FR_SPMC_fits r n"
  shows "FR_SPMC_ok n r (DequeueBurst_op dst)"
proof -
  let ?len = "min (length dst) (qc_maxD (FR_SPMC_conf r))"
  have ex: "qc_exact (FR_SPMC_conf r) = fsc_exactBatchCounts (fsq_consumerConfig r)"
    "unat (fsc_maxBatch (fsq_consumerConfig r)) = qc_maxD (FR_SPMC_conf r)"
    using assms(1) by (simp_all add: FR_SPMC_inv_def FR_SPMC_conf_def)
  obtain r' moved rem out where p: "fr_spmc_get r (qc_exact (FR_SPMC_conf r)) (take ?len dst) False = Some (r', moved, rem, out)"
    and k: "FR_SPMC_inv r'" "FR_SPMC_conf r' = FR_SPMC_conf r" "FR_SPMC_fits r' n"
      "FR_SPMC_contents r' = fifo_next (FR_SPMC_conf r) (FR_SPMC_contents r) (DequeueBurst_op dst)"
    and f: "fifo_result (FR_SPMC_conf r) (FR_SPMC_contents r) (DequeueBurst_op dst) (BurstOut moved rem (out @ drop ?len dst))"
    using fr_spmc_batches.burst_out_within [OF assms, of dst] by blast
  have le: "moved \<le> int ?len" using f by (auto simp: fifo_result_def burst_out_def)
  obtain r1 start count rest where res: "fr_spmcReserveConsumer r (of_nat ?len) False
      (fsc_exactBatchCounts (fsq_consumerConfig r)) = Some (r1, start, count, rest)"
    using p by (auto simp: fr_spmc_get_def ex split: option.splits)
  have "FR_SPMC_DequeueBurst r dst = Some (r', moved, rem, out @ drop ?len dst)"
  proof (cases "count = 0")
    case True
    with p res show ?thesis by (auto simp: fr_spmc_get_def FR_SPMC_DequeueBurst_def ex)
  next
    case False
    then have "moved = int (unat count)" using p res by (auto simp: fr_spmc_get_def ex Let_def split: prod.splits)
    with le have "unat count \<le> ?len" by simp
    then have "take (unat count) (take ?len dst) = take (unat count) dst"
      "drop (unat count) (take ?len dst) @ drop ?len dst = drop (unat count) dst"
      using append_take_drop_id [of ?len dst] drop_append [of "unat count" "take ?len dst" "drop ?len dst"] by auto
    moreover obtain r2 out' where "fr_spmcReadConsumer r1 start (take (unat count) dst) = (r2, out')"
      by (cases "fr_spmcReadConsumer r1 start (take (unat count) dst)")
    ultimately show ?thesis using False p res by (auto simp: fr_spmc_get_def FR_SPMC_DequeueBurst_def ex)
  qed
  with k f show ?thesis by (intro fifo_outcomeI [of _ r']) simp_all
qed

lemma FR_SPMC_Count_ok: "FR_SPMC_inv r \<Longrightarrow> FR_SPMC_Count r = int (length (FR_SPMC_contents r))"
  using FR_SPMC_fresh_out [of r] by (simp add: FR_SPMC_Count_def Let_def)

lemma FR_SPMC_Reset_ok:
  assumes "FR_SPMC_inv r"
  shows "FR_SPMC_inv (FR_SPMC_Reset r)" "FR_SPMC_conf (FR_SPMC_Reset r) = FR_SPMC_conf r"
    "FR_SPMC_contents (FR_SPMC_Reset r) = []" "fsq_cursor (FR_SPMC_Reset r) = 0"
proof -
  note g = FR_SPMC_geom [OF assms]
  have len: "length (fsq_records r) = length (fsq_entries r)" using assms by (simp add: FR_SPMC_inv_def)
  have "records_inv (replicate (length (fsq_records r)) 0) (fsq_mask r) 0 0"
    by (rule records_new) (use len in \<open>auto intro: geom_length [OF g]\<close>)
  then show "FR_SPMC_inv (FR_SPMC_Reset r)"
    using assms wide_new [OF geom_length [OF g], of "replicate (length (fsq_entries r)) 0"]
    by (simp add: FR_SPMC_inv_def FR_SPMC_Reset_def)
qed (simp_all add: FR_SPMC_Reset_def FR_SPMC_conf_def FR_SPMC_contents_def ring_contents_def)

lemma FR_SPMC_step_ok:
  assumes "FR_SPMC_inv r" "FR_SPMC_fits r (op_size opn + n)"
  shows "FR_SPMC_ok n r opn"
proof (cases opn)
  case Count_op
  with assms show ?thesis
    by (intro fifo_outcomeI [of _ r "Counted (FR_SPMC_Count r)"]) (simp_all add: FR_SPMC_Count_ok fifo_result_def)
next
  case Reset_op
  with assms FR_SPMC_Reset_ok [OF assms(1)] show ?thesis
    by (intro fifo_outcomeI [of _ "FR_SPMC_Reset r" ResetDone]) (simp_all add: fifo_result_def FR_SPMC_fits_def)
qed (use assms FR_SPMC_Enqueue_ok FR_SPMC_EnqueueBulk_ok FR_SPMC_EnqueueBurst_ok FR_SPMC_Dequeue_ok
    FR_SPMC_DequeueBulk_ok FR_SPMC_DequeueBurst_ok in \<open>simp_all only: op_size.simps add_0\<close>)

interpretation fr_spmc: fifo_queue_within FR_SPMC_inv FR_SPMC_conf FR_SPMC_contents FR_SPMC_fits FR_SPMC_step
  by unfold_locales (rule FR_SPMC_bounded, assumption, rule FR_SPMC_step_ok)

lemma FR_NewSPMCQueue_ok:
  fixes r :: "('a::zero) FR_SPMCQueue"
  assumes "FR_NewSPMCQueue count options = Inr r"
  shows "FR_SPMC_inv r" "FR_SPMC_contents r = []" "int (qc_cap (FR_SPMC_conf r)) = count" "fsq_cursor r = 0"
proof -
  obtain cfg where cfg: "fr_resolveConfig count options = Inr cfg"
    using assms by (auto simp: FR_NewSPMCQueue_def split: sum.splits)
  obtain k where k: "k \<le> 30" "count = 2 ^ k" and c: "1 \<le> fr_maxEnqueueBatch cfg" "fr_maxEnqueueBatch cfg \<le> count"
    "1 \<le> fr_maxDequeueBatch cfg" "fr_maxDequeueBatch cfg \<le> count"
    using cfg by (auto simp: fr_resolveConfig_Inr)
  have b: "unat (of_int (fr_maxEnqueueBatch cfg) :: u32) \<le> 2 ^ k" "unat (of_int (fr_maxDequeueBatch cfg) :: u32) \<le> 2 ^ k"
    using c k unat_of_batch [of "fr_maxEnqueueBatch cfg" k] unat_of_batch [of "fr_maxDequeueBatch cfg" k]
    by (simp_all add: nat_le_iff)
  have "records_inv (replicate (nat count) 0) (of_int (count - 1)) 0 0"
    unfolding k(2) by (rule records_new [OF geom_new [OF k(1)]]) auto
  then show "FR_SPMC_inv r" "FR_SPMC_contents r = []" "int (qc_cap (FR_SPMC_conf r)) = count" "fsq_cursor r = 0"
    using assms cfg b wide_new [OF geom_new [OF k(1), of "0 :: 'a"]]
    by (auto simp: FR_NewSPMCQueue_def FR_SPMC_inv_def FR_SPMC_conf_def FR_SPMC_contents_def ring_contents_def k(2) nat_power_eq)
qed

section \<open>Properties\<close>

text \<open>
  C7. A new frontier queue with many consumers behaves between calls as a bounded FIFO as long as no
  more than \<open>2^64 - 1\<close> elements are ever offered: every released slot is found and reused, no slot is
  reused before its release, and results, errors, counts and order are those of the FIFO.
\<close>

theorem FR_SPMC_is_bounded_fifo:
  fixes r :: "('a::zero) FR_SPMCQueue"
  assumes "FR_NewSPMCQueue count options = Inr r" "ops_size ops < 2 ^ 64"
  shows "\<exists>r' rs. queue_run FR_SPMC_step r ops = Some (r', rs)
    \<and> results_allowed (FR_SPMC_conf r) [] ops rs
    \<and> FR_SPMC_contents r' = fold (\<lambda>opn xs. fifo_next (FR_SPMC_conf r) xs opn) ops []
    \<and> (Reset_op \<notin> set ops \<longrightarrow> all_enqueued ops rs = all_dequeued rs @ FR_SPMC_contents r')
    \<and> FR_SPMC_Count r' = int (length (FR_SPMC_contents r')) \<and> FR_SPMC_Capacity r' = count
    \<and> (FR_SPMC_Full r' \<longleftrightarrow> FR_SPMC_Free r' = 0) \<and> (FR_SPMC_Empty r' \<longleftrightarrow> FR_SPMC_contents r' = [])"
proof -
  have new: "FR_SPMC_inv r" "FR_SPMC_contents r = []" "int (qc_cap (FR_SPMC_conf r)) = count" "FR_SPMC_fits r (ops_size ops)"
    using FR_NewSPMCQueue_ok [OF assms(1)] assms(2) by (simp_all add: FR_SPMC_fits_def)
  obtain r' rs where run: "queue_run FR_SPMC_step r ops = Some (r', rs)" "FR_SPMC_inv r'" "FR_SPMC_conf r' = FR_SPMC_conf r"
    "FR_SPMC_contents r' = fold (\<lambda>opn xs. fifo_next (FR_SPMC_conf r) xs opn) ops []"
    "results_allowed (FR_SPMC_conf r) [] ops rs"
    using fr_spmc.run_within [OF new(1,4)] new(2) by auto
  have "FR_SPMC_Capacity r' = count"
    using FR_SPMC_cap [OF run(2)] run(2,3) new(3) by (simp add: FR_SPMC_Capacity_def FR_SPMC_inv_def)
  moreover have "Reset_op \<notin> set ops \<longrightarrow> all_enqueued ops rs = all_dequeued rs @ FR_SPMC_contents r'"
    using fr_spmc.stream_within [OF new(1,4) _ run(1)] new(2) by simp
  ultimately show ?thesis
    using run FR_SPMC_Count_ok [OF run(2)] by (auto simp: FR_SPMC_Full_def FR_SPMC_Free_def FR_SPMC_Empty_def)
qed

theorem FR_SPMC_is_bounded_fifo_witness:
  "\<exists>(r :: int FR_SPMCQueue) r' rs. FR_NewSPMCQueue 8 [fr_WithMaxBatch 2, fr_WithExactBatchCounts] = Inr r
     \<and> queue_run FR_SPMC_step r [EnqueueBulk_op [1, 2], EnqueueBurst_op [3, 4, 5], Dequeue_op, EnqueueBulk_op [6, 7, 8]]
       = Some (r', rs) \<and> FR_SPMC_contents r' = [2, 3, 4] \<and> FR_SPMC_Capacity r' = 8"
proof -
  let ?o = "[fr_WithMaxBatch 2, fr_WithExactBatchCounts]"
  have "fr_resolveConfig 8 ?o = Inr \<lparr>fr_maxEnqueueBatch = 2, fr_maxDequeueBatch = 2, fr_keepDequeued = False,
      fr_exactBatchCounts = True\<rparr>"
    unfolding fr_resolveConfig_Inr by (auto simp: fr_WithMaxBatch_def fr_WithExactBatchCounts_def intro!: exI [of _ 3])
  then obtain r :: "int FR_SPMCQueue" where r: "FR_NewSPMCQueue 8 ?o = Inr r" "qc_cap (FR_SPMC_conf r) = 8"
    "qc_maxE (FR_SPMC_conf r) = 2"
    by (simp add: FR_NewSPMCQueue_def FR_SPMC_conf_def)
  from FR_SPMC_is_bounded_fifo [OF r(1),
      of "[EnqueueBulk_op [1, 2], EnqueueBurst_op [3, 4, 5], Dequeue_op, EnqueueBulk_op [6, 7, 8]]"]
  show ?thesis using r by (auto simp: burst_in_def simp del: queue_run.simps)
qed

end
