(* ===== verification/FrontierMPMC.thy ===== *)
theory FrontierMPMC
  imports FrontierOptions FrontierRecords
begin

text \<open>
  The frontier queue with many producers and many consumers, \<^verbatim>\<open>ring/frontier/mpmc.go\<close>. Both sides
  record finished intervals, and each side raises a shared frontier over the other side's records. A
  method is the whole call run without interference; its loops are partial functions, so that a call
  that would retry forever is \<open>None\<close>.
\<close>

section \<open>Definitions\<close>

record fr_mpmcConfig =
  fmm_mask :: u32
  fmm_maxEnqueueBatch :: u32
  fmm_maxDequeueBatch :: u32
  fmm_clearOnDequeue :: bool
  fmm_exactBatchCounts :: bool

text \<open>The slices of the configuration, whose elements change, are fields of the queue.\<close>

record 'a FR_MPMCQueue =
  fxq_entries :: "'a list"
  fxq_config :: fr_mpmcConfig
  fxq_completions :: "u64 list"
  fxq_releases :: "u64 list"
  fxq_producerHead :: u64
  fxq_completed :: u64
  fxq_consumerHead :: u64
  fxq_released :: u64

definition FR_NewMPMCQueue :: "int \<Rightarrow> fr_Option list \<Rightarrow> ring_error + ('a::zero) FR_MPMCQueue" where
  "FR_NewMPMCQueue count options =
     (case fr_resolveConfig count options of
        Inl e \<Rightarrow> Inl e
      | Inr cfg \<Rightarrow> Inr
          \<lparr>fxq_entries = replicate (nat count) 0,
           fxq_config = \<lparr>fmm_mask = of_int (count - 1), fmm_maxEnqueueBatch = of_int (fr_maxEnqueueBatch cfg),
             fmm_maxDequeueBatch = of_int (fr_maxDequeueBatch cfg), fmm_clearOnDequeue = (\<not> fr_keepDequeued cfg),
             fmm_exactBatchCounts = fr_exactBatchCounts cfg\<rparr>,
           fxq_completions = replicate (nat count) 0, fxq_releases = replicate (nat count) 0,
           fxq_producerHead = 0, fxq_completed = 0, fxq_consumerHead = 0, fxq_released = 0\<rparr>)"

definition FR_MPMC_Capacity :: "'a FR_MPMCQueue \<Rightarrow> int" where
  "FR_MPMC_Capacity r = int (unat (fmm_mask (fxq_config r) + 1))"

definition FR_MPMC_MaxEnqueueBatch :: "'a FR_MPMCQueue \<Rightarrow> int" where
  "FR_MPMC_MaxEnqueueBatch r = int (unat (fmm_maxEnqueueBatch (fxq_config r)))"

definition FR_MPMC_MaxDequeueBatch :: "'a FR_MPMCQueue \<Rightarrow> int" where
  "FR_MPMC_MaxDequeueBatch r = int (unat (fmm_maxDequeueBatch (fxq_config r)))"

definition mpmcDiscover :: "u64 list \<Rightarrow> u32 \<Rightarrow> u64 \<Rightarrow> u64 \<Rightarrow> u64" where
  "mpmcDiscover records msk start bound =
     (let width = min (bound - start) (ucast msk + 1)
      in discoverRecords records msk start width start width)"

text \<open>
  Attempt \<open>i\<close> of the loop finds the first of two values by its swap and loads the second after a
  failure. The result says whether the frontier was raised to \<open>pos\<close>.
\<close>

partial_function (option) raiseFrontier :: "(nat \<Rightarrow> u64 \<times> u64) \<Rightarrow> nat \<Rightarrow> u64 \<Rightarrow> u64 \<Rightarrow> bool option" where
  "raiseFrontier obs i current pos =
     (if current < pos
      then (case obs i of (found, loaded) \<Rightarrow>
              if found = current then Some True else raiseFrontier obs (Suc i) loaded pos)
      else Some False)"

text \<open>Both return the queue and the frontier freshly loaded.\<close>

definition mpmcAdvanceCompleted :: "'a FR_MPMCQueue \<Rightarrow> ('a FR_MPMCQueue \<times> u64) option" where
  "mpmcAdvanceCompleted r =
     (let start = fxq_completed r;
          bound = fxq_producerHead r;
          pos = mpmcDiscover (fxq_completions r) (fmm_mask (fxq_config r)) start bound
      in map_option (\<lambda>raised. let r1 = (if raised then r\<lparr>fxq_completed := pos\<rparr> else r) in (r1, fxq_completed r1))
           (raiseFrontier (\<lambda>_. (fxq_completed r, fxq_completed r)) 0 start pos))"

definition mpmcAdvanceReleased :: "'a FR_MPMCQueue \<Rightarrow> ('a FR_MPMCQueue \<times> u64) option" where
  "mpmcAdvanceReleased r =
     (let start = fxq_released r;
          bound = fxq_consumerHead r;
          pos = mpmcDiscover (fxq_releases r) (fmm_mask (fxq_config r)) start bound
      in map_option (\<lambda>raised. let r1 = (if raised then r\<lparr>fxq_released := pos\<rparr> else r) in (r1, fxq_released r1))
           (raiseFrontier (\<lambda>_. (fxq_released r, fxq_released r)) 0 start pos))"

definition FR_MPMC_Count :: "'a FR_MPMCQueue \<Rightarrow> ('a FR_MPMCQueue \<times> int) option" where
  "FR_MPMC_Count r =
     (let head = fxq_consumerHead r
      in map_option (\<lambda>(r1, frontier). (r1, int (unat (min (frontier - head) (ucast (fmm_mask (fxq_config r) + 1))))))
           (mpmcAdvanceCompleted r))"

definition FR_MPMC_Free :: "'a FR_MPMCQueue \<Rightarrow> ('a FR_MPMCQueue \<times> int) option" where
  "FR_MPMC_Free r = map_option (\<lambda>(r1, n). (r1, FR_MPMC_Capacity r - n)) (FR_MPMC_Count r)"

definition FR_MPMC_Full :: "'a FR_MPMCQueue \<Rightarrow> ('a FR_MPMCQueue \<times> bool) option" where
  "FR_MPMC_Full r = map_option (\<lambda>(r1, n). (r1, n = FR_MPMC_Capacity r)) (FR_MPMC_Count r)"

definition FR_MPMC_Empty :: "'a FR_MPMCQueue \<Rightarrow> ('a FR_MPMCQueue \<times> bool) option" where
  "FR_MPMC_Empty r = map_option (\<lambda>(r1, n). (r1, n = 0)) (FR_MPMC_Count r)"

definition FR_MPMC_Reset :: "('a::zero) FR_MPMCQueue \<Rightarrow> 'a FR_MPMCQueue" where
  "FR_MPMC_Reset r =
     r\<lparr>fxq_entries := replicate (length (fxq_entries r)) 0,
       fxq_completions := replicate (length (fxq_completions r)) 0,
       fxq_releases := replicate (length (fxq_releases r)) 0,
       fxq_producerHead := 0, fxq_completed := 0, fxq_consumerHead := 0, fxq_released := 0\<rparr>"

text \<open>One reservation attempt with a head loaded before: start, count, remaining, retry.\<close>

definition fr_mpmcAttemptProducer ::
    "'a FR_MPMCQueue \<Rightarrow> u64 \<Rightarrow> u32 \<Rightarrow> bool \<Rightarrow> bool \<Rightarrow> ('a FR_MPMCQueue \<times> u64 \<times> u32 \<times> u32 \<times> bool) option" where
  "fr_mpmcAttemptProducer r head requested fixed exact =
     (let capacity = ucast (fmm_mask (fxq_config r) + 1);
          released0 = fxq_released r
      in if released0 > head then Some (r, head, 0, 0, True)
         else (case (if exact \<or> requested = 0 \<or> capacity - (head - released0) < ucast requested
                     then mpmcAdvanceReleased r else Some (r, released0)) of
                 None \<Rightarrow> None
               | Some (r1, released) \<Rightarrow>
                   if released > head then Some (r1, head, 0, 0, True)
                   else (let free = capacity - (head - released)
                         in if fixed \<and> free < ucast requested then Some (r1, head, 0, ucast free, False)
                            else (let count = ucast (min (ucast requested) free)
                                  in if count = 0 then Some (r1, head, 0, ucast free, False)
                                     else if fxq_producerHead r1 \<noteq> head then Some (r1, head, 0, 0, True)
                                     else Some (r1\<lparr>fxq_producerHead := head + ucast count\<rparr>, head, count,
                                            ucast free - count, False)))))"

partial_function (option) fr_mpmcReserveProducer ::
    "'a FR_MPMCQueue \<Rightarrow> u32 \<Rightarrow> bool \<Rightarrow> bool \<Rightarrow> ('a FR_MPMCQueue \<times> u64 \<times> u32 \<times> u32) option" where
  "fr_mpmcReserveProducer r requested fixed exact =
     (case fr_mpmcAttemptProducer r (fxq_producerHead r) requested fixed exact of
        None \<Rightarrow> None
      | Some (r1, start, count, remaining, retry) \<Rightarrow>
          if \<not> retry then Some (r1, start, count, remaining)
          else fr_mpmcReserveProducer r1 requested fixed exact)"

definition fr_mpmcAttemptConsumer ::
    "'a FR_MPMCQueue \<Rightarrow> u64 \<Rightarrow> u32 \<Rightarrow> bool \<Rightarrow> bool \<Rightarrow> ('a FR_MPMCQueue \<times> u64 \<times> u32 \<times> u32 \<times> bool) option" where
  "fr_mpmcAttemptConsumer r head requested fixed exact =
     (let capacity = ucast (fmm_mask (fxq_config r) + 1);
          frontier0 = fxq_completed r
      in if frontier0 - head > capacity then Some (r, head, 0, 0, True)
         else (case (if exact \<or> requested = 0 \<or> frontier0 - head < ucast requested
                     then mpmcAdvanceCompleted r else Some (r, frontier0)) of
                 None \<Rightarrow> None
               | Some (r1, frontier) \<Rightarrow>
                   if frontier - head > capacity then Some (r1, head, 0, 0, True)
                   else (let available = frontier - head
                         in if fixed \<and> available < ucast requested then Some (r1, head, 0, ucast available, False)
                            else (let count = ucast (min (ucast requested) available)
                                  in if count = 0 then Some (r1, head, 0, ucast available, False)
                                     else if fxq_consumerHead r1 \<noteq> head then Some (r1, head, 0, 0, True)
                                     else Some (r1\<lparr>fxq_consumerHead := head + ucast count\<rparr>, head, count,
                                            ucast available - count, False)))))"

partial_function (option) fr_mpmcReserveConsumer ::
    "'a FR_MPMCQueue \<Rightarrow> u32 \<Rightarrow> bool \<Rightarrow> bool \<Rightarrow> ('a FR_MPMCQueue \<times> u64 \<times> u32 \<times> u32) option" where
  "fr_mpmcReserveConsumer r requested fixed exact =
     (case fr_mpmcAttemptConsumer r (fxq_consumerHead r) requested fixed exact of
        None \<Rightarrow> None
      | Some (r1, start, count, remaining, retry) \<Rightarrow>
          if \<not> retry then Some (r1, start, count, remaining)
          else fr_mpmcReserveConsumer r1 requested fixed exact)"

definition fr_mpmcWriteProducer :: "'a FR_MPMCQueue \<Rightarrow> u64 \<Rightarrow> 'a list \<Rightarrow> 'a FR_MPMCQueue" where
  "fr_mpmcWriteProducer r start items =
     (let msk = fmm_mask (fxq_config r)
      in if length items = 1 then r\<lparr>fxq_entries := (fxq_entries r)[slot (low start) msk := items ! 0]\<rparr>
         else r\<lparr>fxq_entries := copy_in (fxq_entries r) msk (low start) items\<rparr>)"

definition fr_mpmcReadConsumer :: "('a::zero) FR_MPMCQueue \<Rightarrow> u64 \<Rightarrow> 'a list \<Rightarrow> 'a FR_MPMCQueue \<times> 'a list" where
  "fr_mpmcReadConsumer r start dst =
     (let config = fxq_config r; len = of_nat (length dst); base = slot (low start) (fmm_mask config)
      in if length dst = 1
         then (if fmm_clearOnDequeue config then r\<lparr>fxq_entries := (fxq_entries r)[base := 0]\<rparr> else r,
               [fxq_entries r ! base])
         else (if fmm_clearOnDequeue config
               then r\<lparr>fxq_entries := clear_slots (fxq_entries r) (fmm_mask config) (low start) len\<rparr> else r,
               copy_out (fxq_entries r) (fmm_mask config) (low start) len))"

definition mpmcPublishCompletion :: "'a FR_MPMCQueue \<Rightarrow> u64 \<Rightarrow> u32 \<Rightarrow> 'a FR_MPMCQueue" where
  "mpmcPublishCompletion r start count =
     r\<lparr>fxq_completions := (fxq_completions r)[slot (low start) (fmm_mask (fxq_config r)) := start + ucast count]\<rparr>"

definition mpmcPublishRelease :: "'a FR_MPMCQueue \<Rightarrow> u64 \<Rightarrow> u32 \<Rightarrow> 'a FR_MPMCQueue" where
  "mpmcPublishRelease r start count =
     r\<lparr>fxq_releases := (fxq_releases r)[slot (low start) (fmm_mask (fxq_config r)) := start + ucast count]\<rparr>"

definition FR_MPMC_Enqueue :: "'a FR_MPMCQueue \<Rightarrow> 'a \<Rightarrow> ('a FR_MPMCQueue \<times> ring_error option) option" where
  "FR_MPMC_Enqueue r item =
     (case fr_mpmcReserveProducer r 1 True False of
        None \<Rightarrow> None
      | Some (r1, start, count, _) \<Rightarrow>
          if count = 0 then Some (r1, Some (Sentinel ErrFull))
          else (let r2 = r1\<lparr>fxq_entries := (fxq_entries r1)[slot (low start) (fmm_mask (fxq_config r1)) := item]\<rparr>
                in Some (mpmcPublishCompletion r2 start count, None)))"

definition FR_MPMC_Dequeue :: "('a::zero) FR_MPMCQueue \<Rightarrow> ('a FR_MPMCQueue \<times> 'a \<times> ring_error option) option" where
  "FR_MPMC_Dequeue r =
     (case fr_mpmcReserveConsumer r 1 True False of
        None \<Rightarrow> None
      | Some (r1, start, count, _) \<Rightarrow>
          if count = 0 then Some (r1, 0, Some (Sentinel ErrEmpty))
          else (let config = fxq_config r1;
                    index = slot (low start) (fmm_mask config);
                    v = fxq_entries r1 ! index;
                    r2 = (if fmm_clearOnDequeue config then r1\<lparr>fxq_entries := (fxq_entries r1)[index := 0]\<rparr> else r1)
                in Some (mpmcPublishRelease r2 start count, v, None)))"

definition FR_MPMC_EnqueueBulk :: "'a FR_MPMCQueue \<Rightarrow> 'a list \<Rightarrow> ('a FR_MPMCQueue \<times> int \<times> ring_error option) option" where
  "FR_MPMC_EnqueueBulk r items =
     (let config = fxq_config r; capacity = fmm_mask config + 1
      in if length items > unat capacity \<or> length items > unat (fmm_maxEnqueueBatch config)
         then map_option (\<lambda>(r1, start, count, remaining). (r1, int (unat remaining),
                  Some (BatchLengthError (int (length items)) (fmm_maxEnqueueBatch config) capacity)))
                (fr_mpmcReserveProducer r 0 True False)
         else (case fr_mpmcReserveProducer r (of_nat (length items)) True (fmm_exactBatchCounts config) of
                 None \<Rightarrow> None
               | Some (r1, start, count, remaining) \<Rightarrow>
                   if count = 0
                   then (if length items = 0 then Some (r1, int (unat remaining), None)
                         else Some (r1, int (unat remaining), Some (Sentinel ErrFull)))
                   else Some (mpmcPublishCompletion (fr_mpmcWriteProducer r1 start items) start count,
                          int (unat remaining), None)))"

definition FR_MPMC_EnqueueBurst :: "'a FR_MPMCQueue \<Rightarrow> 'a list \<Rightarrow> ('a FR_MPMCQueue \<times> int \<times> int) option" where
  "FR_MPMC_EnqueueBurst r items =
     (let config = fxq_config r;
          len = min (length items) (unat (fmm_maxEnqueueBatch config))
      in case fr_mpmcReserveProducer r (of_nat len) False (fmm_exactBatchCounts config) of
           None \<Rightarrow> None
         | Some (r1, start, count, remaining) \<Rightarrow>
             if count = 0 then Some (r1, 0, int (unat remaining))
             else Some (mpmcPublishCompletion (fr_mpmcWriteProducer r1 start (take (unat count) items)) start count,
                    int (unat count), int (unat remaining)))"

definition FR_MPMC_DequeueBulk :: "('a::zero) FR_MPMCQueue \<Rightarrow> 'a list
    \<Rightarrow> ('a FR_MPMCQueue \<times> int \<times> ring_error option \<times> 'a list) option" where
  "FR_MPMC_DequeueBulk r dst =
     (let config = fxq_config r; capacity = fmm_mask config + 1
      in if length dst > unat capacity \<or> length dst > unat (fmm_maxDequeueBatch config)
         then map_option (\<lambda>(r1, start, count, remaining). (r1, int (unat remaining),
                  Some (BatchLengthError (int (length dst)) (fmm_maxDequeueBatch config) capacity), dst))
                (fr_mpmcReserveConsumer r 0 True False)
         else (case fr_mpmcReserveConsumer r (of_nat (length dst)) True (fmm_exactBatchCounts config) of
                 None \<Rightarrow> None
               | Some (r1, start, count, remaining) \<Rightarrow>
                   if count = 0
                   then (if length dst = 0 then Some (r1, int (unat remaining), None, dst)
                         else Some (r1, int (unat remaining), Some (Sentinel ErrEmpty), dst))
                   else (let (r2, out) = fr_mpmcReadConsumer r1 start dst
                         in Some (mpmcPublishRelease r2 start count, int (unat remaining), None, out))))"

definition FR_MPMC_DequeueBurst :: "('a::zero) FR_MPMCQueue \<Rightarrow> 'a list
    \<Rightarrow> ('a FR_MPMCQueue \<times> int \<times> int \<times> 'a list) option" where
  "FR_MPMC_DequeueBurst r dst =
     (let config = fxq_config r;
          len = min (length dst) (unat (fmm_maxDequeueBatch config))
      in case fr_mpmcReserveConsumer r (of_nat len) False (fmm_exactBatchCounts config) of
           None \<Rightarrow> None
         | Some (r1, start, count, remaining) \<Rightarrow>
             if count = 0 then Some (r1, 0, int (unat remaining), dst)
             else (let (r2, out) = fr_mpmcReadConsumer r1 start (take (unat count) dst)
                   in Some (mpmcPublishRelease r2 start count, int (unat count), int (unat remaining),
                        out @ drop (unat count) dst)))"

section \<open>Invariant\<close>

abbreviation fxq_mask :: "'a FR_MPMCQueue \<Rightarrow> u32" where
  "fxq_mask r \<equiv> fmm_mask (fxq_config r)"

definition FR_MPMC_inv :: "'a FR_MPMCQueue \<Rightarrow> bool" where
  "FR_MPMC_inv r \<longleftrightarrow>
     wide_inv (fxq_entries r) (fxq_mask r) (fxq_released r) (fxq_consumerHead r) (fxq_producerHead r)
     \<and> fxq_consumerHead r \<le> fxq_completed r \<and> fxq_completed r \<le> fxq_producerHead r
     \<and> length (fxq_completions r) = length (fxq_entries r) \<and> length (fxq_releases r) = length (fxq_entries r)
     \<and> records_inv (fxq_completions r) (fxq_mask r) (fxq_completed r) (fxq_producerHead r)
     \<and> records_inv (fxq_releases r) (fxq_mask r) (fxq_released r) (fxq_consumerHead r)
     \<and> unat (fmm_maxEnqueueBatch (fxq_config r)) \<le> length (fxq_entries r)
     \<and> unat (fmm_maxDequeueBatch (fxq_config r)) \<le> length (fxq_entries r)"

definition FR_MPMC_conf :: "'a FR_MPMCQueue \<Rightarrow> qconf" where
  "FR_MPMC_conf r = \<lparr>qc_cap = length (fxq_entries r), qc_maxE = unat (fmm_maxEnqueueBatch (fxq_config r)),
     qc_maxD = unat (fmm_maxDequeueBatch (fxq_config r)), qc_exact = fmm_exactBatchCounts (fxq_config r)\<rparr>"

definition FR_MPMC_contents :: "'a FR_MPMCQueue \<Rightarrow> 'a list" where
  "FR_MPMC_contents r = ring_contents (fxq_entries r) (low (fxq_producerHead r)) (low (fxq_consumerHead r))"

definition FR_MPMC_fits :: "'a FR_MPMCQueue \<Rightarrow> nat \<Rightarrow> bool" where
  "FR_MPMC_fits r n \<longleftrightarrow> unat (fxq_producerHead r) + n < 2 ^ 64"

lemma FR_MPMC_wide: "FR_MPMC_inv r \<Longrightarrow>
    wide_inv (fxq_entries r) (fxq_mask r) (fxq_released r) (fxq_consumerHead r) (fxq_producerHead r)"
  by (simp add: FR_MPMC_inv_def)

lemma FR_MPMC_geom: "FR_MPMC_inv r \<Longrightarrow> geom (fxq_entries r) (fxq_mask r)"
  by (rule wide_geom [OF FR_MPMC_wide])

lemma length_FR_MPMC_contents:
  "FR_MPMC_inv r \<Longrightarrow> length (FR_MPMC_contents r) = unat (fxq_producerHead r) - unat (fxq_consumerHead r)"
  unfolding FR_MPMC_contents_def by (rule length_wide [OF FR_MPMC_wide])

lemma FR_MPMC_bounded: "FR_MPMC_inv r \<Longrightarrow> length (FR_MPMC_contents r) \<le> qc_cap (FR_MPMC_conf r)"
  using wide_order [OF FR_MPMC_wide [of r]] by (simp add: length_FR_MPMC_contents FR_MPMC_conf_def)

lemma FR_MPMC_cap: "FR_MPMC_inv r \<Longrightarrow> unat (fxq_mask r + 1) = qc_cap (FR_MPMC_conf r)"
  using geom_cap [OF FR_MPMC_geom] by (simp add: FR_MPMC_conf_def)

section \<open>Raising the frontiers\<close>

lemma raiseFrontier_now: "raiseFrontier (\<lambda>_. (v, w)) i v pos = Some (v < pos)"
  by (subst raiseFrontier.simps) simp

lemma mpmcDiscover_all:
  assumes "records_inv rs msk f h" "unat h - unat f \<le> length rs"
  shows "mpmcDiscover rs msk f h = h"
proof -
  note g = records_geom [OF assms(1)] and le = records_le [OF assms(1)]
  obtain k where k: "k \<le> 30" "length rs = 2 ^ k" "msk = 2 ^ k - 1" by (rule geomE [OF g])
  have m: "unat (ucast msk + 1 :: u64) = length rs"
  proof -
    have "unat msk = length rs - 1" using k unat_exp [OF k(1)] unat_minus_one [of "2 ^ k :: u32"] by simp
    then show ?thesis using geom_le [OF g] geom_pos [OF g] by (simp add: unat_word_ariths)
  qed
  have "min (h - f) (ucast msk + 1) = h - f"
    using assms(2) m le by (simp add: min_def word_le_nat_alt u64_diff)
  then show ?thesis
    using records_discover_all [OF assms(1), of f "h - f" "h - f"] le by (simp add: mpmcDiscover_def u64_diff)
qed

lemma mpmcAdvanceReleased_ok:
  assumes "FR_MPMC_inv r"
  shows "mpmcAdvanceReleased r = Some (r\<lparr>fxq_released := fxq_consumerHead r\<rparr>, fxq_consumerHead r)"
proof -
  have r: "records_inv (fxq_releases r) (fxq_mask r) (fxq_released r) (fxq_consumerHead r)"
    "unat (fxq_consumerHead r) - unat (fxq_released r) \<le> length (fxq_releases r)"
    using assms wide_order [OF FR_MPMC_wide [OF assms]] by (auto simp: FR_MPMC_inv_def)
  have "\<not> fxq_released r < fxq_consumerHead r \<Longrightarrow> fxq_released r = fxq_consumerHead r" using records_le [OF r(1)] by simp
  then show ?thesis by (auto simp: mpmcAdvanceReleased_def Let_def mpmcDiscover_all [OF r] raiseFrontier_now)
qed

lemma mpmcAdvanceCompleted_ok:
  assumes "FR_MPMC_inv r"
  shows "mpmcAdvanceCompleted r = Some (r\<lparr>fxq_completed := fxq_producerHead r\<rparr>, fxq_producerHead r)"
proof -
  have r: "records_inv (fxq_completions r) (fxq_mask r) (fxq_completed r) (fxq_producerHead r)"
    "unat (fxq_producerHead r) - unat (fxq_completed r) \<le> length (fxq_completions r)"
    using assms wide_order [OF FR_MPMC_wide [OF assms]] by (auto simp: FR_MPMC_inv_def word_le_nat_alt)
  have "\<not> fxq_completed r < fxq_producerHead r \<Longrightarrow> fxq_completed r = fxq_producerHead r" using records_le [OF r(1)] by simp
  then show ?thesis by (auto simp: mpmcAdvanceCompleted_def Let_def mpmcDiscover_all [OF r] raiseFrontier_now)
qed

lemma FR_MPMC_released:
  assumes "FR_MPMC_inv r"
  shows "FR_MPMC_inv (r\<lparr>fxq_released := fxq_consumerHead r\<rparr>)"
  using assms wide_release [OF FR_MPMC_wide [OF assms]] by (auto simp: FR_MPMC_inv_def records_inv_def intro: path_end)

lemma FR_MPMC_completed:
  assumes "FR_MPMC_inv r"
  shows "FR_MPMC_inv (r\<lparr>fxq_completed := fxq_producerHead r\<rparr>)"
  using assms by (auto simp: FR_MPMC_inv_def records_inv_def intro: path_end order_trans)

section \<open>Enqueueing\<close>

text \<open>The queue a producer's attempt works with, after it raised the released frontier if it had to.\<close>

definition fr_mpmc_roomy :: "'a FR_MPMCQueue \<Rightarrow> u32 \<Rightarrow> bool \<Rightarrow> 'a FR_MPMCQueue" where
  "fr_mpmc_roomy r requested exact =
     (if exact \<or> requested = 0 \<or> ucast (fxq_mask r + 1) - (fxq_producerHead r - fxq_released r) < ucast requested
      then r\<lparr>fxq_released := fxq_consumerHead r\<rparr> else r)"

lemma fr_mpmc_roomy_facts:
  fixes r :: "'a FR_MPMCQueue" and requested :: u32 and exact :: bool
  assumes "FR_MPMC_inv r"
  defines "r1 \<equiv> fr_mpmc_roomy r requested exact"
  defines "free \<equiv> ucast (fxq_mask r + 1) - (fxq_producerHead r - fxq_released r1)"
  defines "room \<equiv> qc_cap (FR_MPMC_conf r) - length (FR_MPMC_contents r)"
  shows "FR_MPMC_inv r1" "FR_MPMC_contents r1 = FR_MPMC_contents r" "FR_MPMC_conf r1 = FR_MPMC_conf r"
    "fxq_producerHead r1 = fxq_producerHead r" "fxq_mask r1 = fxq_mask r" "fxq_entries r1 = fxq_entries r"
    "unat free = length (fxq_entries r) - (unat (fxq_producerHead r) - unat (fxq_released r1))"
    "unat free \<le> room" "exact \<or> requested = 0 \<or> unat free < unat requested \<Longrightarrow> unat free = room"
proof -
  show r1: "FR_MPMC_inv r1" "FR_MPMC_contents r1 = FR_MPMC_contents r" "FR_MPMC_conf r1 = FR_MPMC_conf r"
    "fxq_producerHead r1 = fxq_producerHead r" "fxq_mask r1 = fxq_mask r" "fxq_entries r1 = fxq_entries r"
    using FR_MPMC_released [OF assms(1)] assms(1)
    by (simp_all add: r1_def fr_mpmc_roomy_def FR_MPMC_contents_def FR_MPMC_conf_def)
  show f: "unat free = length (fxq_entries r) - (unat (fxq_producerHead r) - unat (fxq_released r1))"
    using wide_room(1) [OF FR_MPMC_wide [OF r1(1)]] by (simp add: free_def r1)
  have room: "room = length (fxq_entries r) - (unat (fxq_producerHead r) - unat (fxq_consumerHead r))"
    by (simp add: room_def FR_MPMC_conf_def length_FR_MPMC_contents [OF assms(1)])
  have "fxq_released r1 = fxq_released r \<or> fxq_released r1 = fxq_consumerHead r" by (simp add: r1_def fr_mpmc_roomy_def)
  then show "unat free \<le> room" using wide_order [OF FR_MPMC_wide [OF assms(1)]] unfolding f room by auto
  show "unat free = room" if "exact \<or> requested = 0 \<or> unat free < unat requested"
  proof -
    have "fxq_released r1 = fxq_consumerHead r \<or> \<not> (exact \<or> requested = 0 \<or> unat free < unat requested)"
      by (auto simp: r1_def free_def fr_mpmc_roomy_def word_less_nat_alt)
    then show ?thesis using that unfolding f room by auto
  qed
qed

lemma fr_mpmc_pattempt:
  fixes r :: "'a FR_MPMCQueue" and fixed exact :: bool and len :: u32
  assumes "FR_MPMC_inv r"
  defines "r1 \<equiv> fr_mpmc_roomy r len exact"
  defines "free \<equiv> ucast (fxq_mask r + 1) - (fxq_producerHead r - fxq_released r1)"
  defines "count \<equiv> (if fixed \<and> free < ucast len then 0 else ucast (min (ucast len) free))"
  shows "fr_mpmcReserveProducer r len fixed exact =
    Some (if count = 0 then r1 else r1\<lparr>fxq_producerHead := fxq_producerHead r + ucast count\<rparr>,
      fxq_producerHead r, count, ucast free - count)"
proof -
  note w = wide_order [OF FR_MPMC_wide [OF assms(1)]] and facts = fr_mpmc_roomy_facts [OF assms(1), where requested = len and exact = exact]
  have le: "\<not> fxq_released r > fxq_producerHead r" "\<not> fxq_released r1 > fxq_producerHead r"
    using w wide_order [OF FR_MPMC_wide [OF facts(1)]] facts(4) by (simp_all add: word_less_nat_alt r1_def)
  have step: "(if exact \<or> len = 0 \<or> ucast (fxq_mask r + 1) - (fxq_producerHead r - fxq_released r) < ucast len
      then mpmcAdvanceReleased r else Some (r, fxq_released r)) = Some (r1, fxq_released r1)"
    by (simp add: mpmcAdvanceReleased_ok [OF assms(1)] r1_def fr_mpmc_roomy_def)
  have "fr_mpmcAttemptProducer r (fxq_producerHead r) len fixed exact =
    Some (if count = 0 then r1 else r1\<lparr>fxq_producerHead := fxq_producerHead r + ucast count\<rparr>,
      fxq_producerHead r, count, ucast free - count, False)"
    unfolding fr_mpmcAttemptProducer_def Let_def step option.case prod.case if_not_P [OF le(1)] if_not_P [OF le(2)]
    unfolding free_def [symmetric] using facts(4) by (auto simp: count_def r1_def)
  then show ?thesis by (subst fr_mpmcReserveProducer.simps) simp
qed

definition fr_mpmc_put :: "'a FR_MPMCQueue \<Rightarrow> bool \<Rightarrow> 'a list \<Rightarrow> bool \<Rightarrow> ('a FR_MPMCQueue \<times> int \<times> int) option" where
  "fr_mpmc_put r exact items fixed =
     (case fr_mpmcReserveProducer r (of_nat (length items)) fixed exact of
        None \<Rightarrow> None
      | Some (r1, start, count, remaining) \<Rightarrow>
          if count = 0 then Some (r1, 0, int (unat remaining))
          else Some (mpmcPublishCompletion (fr_mpmcWriteProducer r1 start (take (unat count) items)) start count,
                 int (unat count), int (unat remaining)))"

lemma fr_mpmc_write:
  assumes "geom (fxq_entries r) (fxq_mask r)"
  shows "fr_mpmcWriteProducer r start items
    = r\<lparr>fxq_entries := copy_in (fxq_entries r) (fxq_mask r) (low start) items\<rparr>"
proof (cases "length items = 1")
  case True
  then obtain x where "items = [x]" by (auto simp: length_Suc_conv)
  then show ?thesis using copy_in_one [OF assms] by (simp add: fr_mpmcWriteProducer_def)
qed (simp add: fr_mpmcWriteProducer_def Let_def)

text \<open>The queue after \<open>n\<close> elements were reserved, written and completed.\<close>

lemma FR_MPMC_push:
  fixes n :: u32
  assumes "FR_MPMC_inv r" "n \<noteq> 0" "unat n = length xs" "unat (fxq_producerHead r) + length xs < 2 ^ 64"
    and "length xs \<le> length (fxq_entries r) - (unat (fxq_producerHead r) - unat (fxq_released r))"
  defines "r' \<equiv> r\<lparr>fxq_entries := copy_in (fxq_entries r) (fxq_mask r) (low (fxq_producerHead r)) xs,
      fxq_completions := (fxq_completions r)[slot (low (fxq_producerHead r)) (fxq_mask r) := fxq_producerHead r + ucast n],
      fxq_producerHead := fxq_producerHead r + ucast n\<rparr>"
  shows "FR_MPMC_inv r'" "FR_MPMC_contents r' = FR_MPMC_contents r @ xs"
    "unat (fxq_producerHead r') = unat (fxq_producerHead r) + length xs"
proof -
  let ?P = "fxq_producerHead r"
  note w = FR_MPMC_wide [OF assms(1)]
  note o = wide_order [OF w]
  have pos: "0 < length xs" using assms(2,3) by (metis unat_gt_0)
  have room: "unat ?P - unat (fxq_released r) + length xs \<le> length (fxq_entries r)" using assms(5) o by simp
  have n: "unat (ucast n :: u64) = length xs" using assms(3) by simp
  have P: "unat (?P + ucast n) = unat ?P + length xs" using assms(3,4) unat_advance [of ?P n] by simp
  then show "unat (fxq_producerHead r') = unat ?P + length xs" by (simp add: r'_def)
  have inv: "records_inv (fxq_completions r) (fxq_mask r) (fxq_completed r) ?P" "fxq_consumerHead r \<le> fxq_completed r"
    "fxq_completed r \<le> ?P" "length (fxq_completions r) = length (fxq_entries r)"
    using assms(1) by (simp_all add: FR_MPMC_inv_def)
  have lt: "?P < ?P + ucast n" using P pos by (simp add: word_less_nat_alt)
  have near: "unat ?P - unat (fxq_completed r) < length (fxq_completions r)"
    using inv(2-4) room pos o unfolding word_le_nat_alt by linarith
  have le: "fxq_completed r \<le> ?P + ucast n" using inv(3) P by (simp add: word_le_nat_alt)
  show "FR_MPMC_inv r'" "FR_MPMC_contents r' = FR_MPMC_contents r @ xs"
    using assms(1) wide_push [OF w room n assms(4)] records_store [OF inv(1) lt near] le
    by (simp_all add: r'_def FR_MPMC_inv_def FR_MPMC_contents_def)
qed

lemma fr_mpmc_put_ok:
  fixes fixed :: bool and r :: "'a FR_MPMCQueue"
  assumes "FR_MPMC_inv r" "length items \<le> qc_cap (FR_MPMC_conf r)" "FR_MPMC_fits r (length items + k)"
  defines "N \<equiv> qc_cap (FR_MPMC_conf r) - length (FR_MPMC_contents r)"
  defines "m \<equiv> admitted fixed (length items) N"
  shows "\<exists>r' rem. fr_mpmc_put r exact items fixed = Some (r', int m, rem) \<and> FR_MPMC_inv r' \<and> FR_MPMC_conf r' = FR_MPMC_conf r
    \<and> FR_MPMC_fits r' k \<and> FR_MPMC_contents r' = FR_MPMC_contents r @ take m items
    \<and> reports (exact \<or> items = [] \<or> m < length items) rem (N - m)"
proof -
  let ?len = "of_nat (length items) :: u32" and ?P = "fxq_producerHead r"
  define r1 where "r1 = fr_mpmc_roomy r ?len exact"
  define free where "free = ucast (fxq_mask r + 1) - (?P - fxq_released r1)"
  define n where "n = (if fixed \<and> free < ucast ?len then 0 else ucast (min (ucast ?len) free) :: u32)"
  note g = FR_MPMC_geom [OF assms(1)]
  note seen = fr_mpmc_roomy_facts [OF assms(1), where requested = ?len and exact = exact, folded r1_def, folded free_def N_def]
  note res = fr_mpmc_pattempt [OF assms(1), where len = ?len and exact = exact and fixed = fixed, folded r1_def, folded free_def, folded n_def]
  have len: "length items \<le> length (fxq_entries r)" using assms(2) by (simp add: FR_MPMC_conf_def)
  have lw: "unat ?len = length items" "?len = 0 \<longleftrightarrow> items = []" using len_word [OF len g] len_word_0 [OF len g] by auto
  have fresh: "exact \<or> items = [] \<or> unat free < length items \<Longrightarrow> unat free = N" using seen(9) lw by simp
  have small: "unat free < 2 ^ 32" "unat (ucast free :: u32) = unat free"
    using seen(7) geom_le [OF g] by (simp_all add: unat_low)
  have m: "m = admitted fixed (length items) (unat free)" unfolding m_def by (rule admitted_seen [OF seen(8) fresh])
  then have mn: "m = unat n" using lw small by (auto simp: n_def admitted_def word_less_nat_alt min_def word_le_nat_alt unat_low)
  have n: "unat n \<le> unat free" "unat n \<le> length items"
    using lw small by (auto simp: n_def min_def word_le_nat_alt unat_low)
  have rem: "unat (ucast free - n) = unat free - m" using n(1) small mn by (simp add: unat_sub word_le_nat_alt)
  have rep: "reports (exact \<or> items = [] \<or> m < length items) (int (unat free - m)) (N - m)"
    using fresh seen(8) m by (auto simp: reports_def admitted_def min_def split: if_splits)
  show ?thesis
  proof (cases "n = 0")
    case True
    with res rem rep mn seen(1-4) assms(3) show ?thesis by (simp add: fr_mpmc_put_def FR_MPMC_fits_def)
  next
    case False
    let ?xs = "take (unat n) items"
    have xs: "unat n = length ?xs" using n(2) by simp
    have fit: "unat (fxq_producerHead r1) + length ?xs < 2 ^ 64" "unat ?P + unat n + k < 2 ^ 64"
      using assms(3) seen(4) n(2) by (simp_all add: FR_MPMC_fits_def)
    have "length ?xs \<le> length (fxq_entries r1) - (unat (fxq_producerHead r1) - unat (fxq_released r1))"
      using n seen(4,6,7) by simp
    note push = FR_MPMC_push [OF seen(1) False xs fit(1) this]
    let ?r2 = "r1\<lparr>fxq_producerHead := ?P + ucast n\<rparr>"
    have "fr_mpmc_put r exact items fixed = Some (r1\<lparr>fxq_entries := copy_in (fxq_entries r1) (fxq_mask r1) (low ?P) ?xs,
        fxq_completions := (fxq_completions r1)[slot (low ?P) (fxq_mask r1) := ?P + ucast n],
        fxq_producerHead := ?P + ucast n\<rparr>, int m, int (unat free - m))"
      using res False rem mn g seen(5,6) fr_mpmc_write [of ?r2 ?P ?xs]
      by (simp add: fr_mpmc_put_def mpmcPublishCompletion_def)
    with push fit(2) rep mn xs seen(2-4) show ?thesis by (simp add: FR_MPMC_fits_def FR_MPMC_conf_def)
  qed
qed

section \<open>Dequeueing\<close>

text \<open>The queue a consumer's attempt works with, after it raised the completed frontier if it had to.\<close>

definition fr_mpmc_ready :: "'a FR_MPMCQueue \<Rightarrow> u32 \<Rightarrow> bool \<Rightarrow> 'a FR_MPMCQueue" where
  "fr_mpmc_ready r requested exact =
     (if exact \<or> requested = 0 \<or> fxq_completed r - fxq_consumerHead r < ucast requested
      then r\<lparr>fxq_completed := fxq_producerHead r\<rparr> else r)"

lemma fr_mpmc_ready_facts:
  fixes r :: "'a FR_MPMCQueue" and requested :: u32 and exact :: bool
  assumes "FR_MPMC_inv r"
  defines "r1 \<equiv> fr_mpmc_ready r requested exact"
  defines "avail \<equiv> fxq_completed r1 - fxq_consumerHead r"
  shows "FR_MPMC_inv r1" "FR_MPMC_contents r1 = FR_MPMC_contents r" "FR_MPMC_conf r1 = FR_MPMC_conf r"
    "fxq_producerHead r1 = fxq_producerHead r" "fxq_config r1 = fxq_config r" "fxq_entries r1 = fxq_entries r"
    "fxq_consumerHead r1 = fxq_consumerHead r" "unat avail = unat (fxq_completed r1) - unat (fxq_consumerHead r)"
    "unat avail \<le> length (FR_MPMC_contents r)"
    "exact \<or> requested = 0 \<or> unat avail < unat requested \<Longrightarrow> unat avail = length (FR_MPMC_contents r)"
proof -
  show r1: "FR_MPMC_inv r1" "FR_MPMC_contents r1 = FR_MPMC_contents r" "FR_MPMC_conf r1 = FR_MPMC_conf r"
    "fxq_producerHead r1 = fxq_producerHead r" "fxq_config r1 = fxq_config r" "fxq_entries r1 = fxq_entries r"
    "fxq_consumerHead r1 = fxq_consumerHead r"
    using FR_MPMC_completed [OF assms(1)] assms(1)
    by (simp_all add: r1_def fr_mpmc_ready_def FR_MPMC_contents_def FR_MPMC_conf_def)
  have o: "fxq_consumerHead r \<le> fxq_completed r1" "fxq_completed r1 \<le> fxq_producerHead r"
    using r1(1,4,7) by (simp_all add: FR_MPMC_inv_def)
  show a: "unat avail = unat (fxq_completed r1) - unat (fxq_consumerHead r)" using o by (simp add: avail_def u64_diff)
  show "unat avail \<le> length (FR_MPMC_contents r)"
    using o by (simp add: a length_FR_MPMC_contents [OF assms(1)] word_le_nat_alt diff_le_mono)
  show "unat avail = length (FR_MPMC_contents r)" if "exact \<or> requested = 0 \<or> unat avail < unat requested"
  proof -
    have "fxq_completed r1 = fxq_producerHead r \<or> \<not> (exact \<or> requested = 0 \<or> unat avail < unat requested)"
      by (auto simp: r1_def avail_def fr_mpmc_ready_def word_less_nat_alt)
    then show ?thesis using that a by (auto simp: length_FR_MPMC_contents [OF assms(1)])
  qed
qed

lemma fr_mpmc_cattempt:
  fixes r :: "'a FR_MPMCQueue" and fixed exact :: bool and len :: u32
  assumes "FR_MPMC_inv r"
  defines "r1 \<equiv> fr_mpmc_ready r len exact"
  defines "avail \<equiv> fxq_completed r1 - fxq_consumerHead r"
  defines "count \<equiv> (if fixed \<and> avail < ucast len then 0 else ucast (min (ucast len) avail))"
  shows "fr_mpmcReserveConsumer r len fixed exact =
    Some (if count = 0 then r1 else r1\<lparr>fxq_consumerHead := fxq_consumerHead r + ucast count\<rparr>,
      fxq_consumerHead r, count, ucast avail - count)"
proof -
  note facts = fr_mpmc_ready_facts [OF assms(1), where requested = len and exact = exact, folded r1_def, folded avail_def]
  have "unat (fxq_completed r - fxq_consumerHead r) \<le> length (FR_MPMC_contents r)"
    using assms(1) by (simp add: length_FR_MPMC_contents FR_MPMC_inv_def u64_diff word_le_nat_alt diff_le_mono)
  then have le: "\<not> fxq_completed r - fxq_consumerHead r > ucast (fxq_mask r + 1)" "\<not> avail > ucast (fxq_mask r + 1)"
    using facts(9) FR_MPMC_bounded [OF assms(1)] FR_MPMC_cap [OF assms(1)] by (simp_all add: word_less_nat_alt)
  have step: "(if exact \<or> len = 0 \<or> fxq_completed r - fxq_consumerHead r < ucast len
      then mpmcAdvanceCompleted r else Some (r, fxq_completed r)) = Some (r1, fxq_completed r1)"
    by (simp add: mpmcAdvanceCompleted_ok [OF assms(1)] r1_def fr_mpmc_ready_def)
  have "fr_mpmcAttemptConsumer r (fxq_consumerHead r) len fixed exact =
    Some (if count = 0 then r1 else r1\<lparr>fxq_consumerHead := fxq_consumerHead r + ucast count\<rparr>,
      fxq_consumerHead r, count, ucast avail - count, False)"
    unfolding fr_mpmcAttemptConsumer_def Let_def step option.case prod.case
    unfolding avail_def [symmetric] if_not_P [OF le(1)] if_not_P [OF le(2)] using facts(7) by (auto simp: count_def)
  then show ?thesis by (subst fr_mpmcReserveConsumer.simps) simp
qed

definition fr_mpmc_get :: "('a::zero) FR_MPMCQueue \<Rightarrow> bool \<Rightarrow> 'a list \<Rightarrow> bool
    \<Rightarrow> ('a FR_MPMCQueue \<times> int \<times> int \<times> 'a list) option" where
  "fr_mpmc_get r exact dst fixed =
     (case fr_mpmcReserveConsumer r (of_nat (length dst)) fixed exact of
        None \<Rightarrow> None
      | Some (r1, start, count, remaining) \<Rightarrow>
          if count = 0 then Some (r1, 0, int (unat remaining), dst)
          else (let (r2, out) = fr_mpmcReadConsumer r1 start (take (unat count) dst)
                in Some (mpmcPublishRelease r2 start count, int (unat count), int (unat remaining),
                     out @ drop (unat count) dst)))"

lemma fr_mpmc_read:
  assumes "geom (fxq_entries r) (fxq_mask r)" "length dst = unat n"
  shows "fr_mpmcReadConsumer r start dst =
    (r\<lparr>fxq_entries := (if fmm_clearOnDequeue (fxq_config r)
       then clear_slots (fxq_entries r) (fxq_mask r) (low start) n else fxq_entries r)\<rparr>,
     copy_out (fxq_entries r) (fxq_mask r) (low start) n)"
proof (cases "length dst = 1")
  case True
  then have "n = 1" using assms(2) word_unat_eq_iff [of n 1] by simp
  with True show ?thesis
    using clear_one [OF assms(1), of "low start"] copy_out_one [OF assms(1)] by (simp add: fr_mpmcReadConsumer_def Let_def)
qed (use assms(2) in \<open>simp add: fr_mpmcReadConsumer_def Let_def\<close>)

text \<open>The queue after \<open>n\<close> elements were reserved, read and released.\<close>

lemma FR_MPMC_pop:
  fixes r :: "('a::zero) FR_MPMCQueue" and n :: u32
  assumes "FR_MPMC_inv r" "n \<noteq> 0" "unat n \<le> unat (fxq_completed r) - unat (fxq_consumerHead r)"
    and "es = fxq_entries r \<or> es = clear_slots (fxq_entries r) (fxq_mask r) (low (fxq_consumerHead r)) n"
  defines "r' \<equiv> r\<lparr>fxq_entries := es,
      fxq_releases := (fxq_releases r)[slot (low (fxq_consumerHead r)) (fxq_mask r) := fxq_consumerHead r + ucast n],
      fxq_consumerHead := fxq_consumerHead r + ucast n\<rparr>"
  shows "FR_MPMC_inv r'" "FR_MPMC_contents r' = drop (unat n) (FR_MPMC_contents r)"
    "copy_out (fxq_entries r) (fxq_mask r) (low (fxq_consumerHead r)) n = take (unat n) (FR_MPMC_contents r)"
proof -
  let ?C = "fxq_consumerHead r"
  note w = FR_MPMC_wide [OF assms(1)]
  note o = wide_order [OF w]
  have inv: "records_inv (fxq_releases r) (fxq_mask r) (fxq_released r) ?C" "?C \<le> fxq_completed r"
    "fxq_completed r \<le> fxq_producerHead r" "length (fxq_releases r) = length (fxq_entries r)"
    using assms(1) by (simp_all add: FR_MPMC_inv_def)
  have n: "unat n \<le> unat (fxq_producerHead r) - unat ?C" "0 < unat n"
    using assms(2,3) inv(3) by (auto simp: word_le_nat_alt unat_gt_0)
  have C: "unat (?C + ucast n) = unat ?C + unat n"
    using n o unat64_less [of "fxq_producerHead r"] by (intro unat_advance) simp
  have lt: "?C < ?C + ucast n" using C n by (simp add: word_less_nat_alt)
  have near: "unat ?C - unat (fxq_released r) < length (fxq_releases r)" using inv(4) n o by simp
  have le: "?C + ucast n \<le> fxq_completed r" using C assms(3) inv(2) by (simp add: word_le_nat_alt)
  have "length es = length (fxq_entries r)" using assms(4) by auto
  with assms(1) wide_pop [OF w n(1) assms(4)] records_store [OF inv(1) lt near] le
  show "FR_MPMC_inv r'" "FR_MPMC_contents r' = drop (unat n) (FR_MPMC_contents r)"
    "copy_out (fxq_entries r) (fxq_mask r) (low ?C) n = take (unat n) (FR_MPMC_contents r)"
    by (simp_all add: r'_def FR_MPMC_inv_def FR_MPMC_contents_def)
qed

lemma fr_mpmc_get_ok:
  fixes fixed :: bool and r :: "('a::zero) FR_MPMCQueue"
  assumes "FR_MPMC_inv r" "length dst \<le> qc_cap (FR_MPMC_conf r)"
  defines "D \<equiv> length (FR_MPMC_contents r)"
  defines "m \<equiv> admitted fixed (length dst) D"
  shows "\<exists>r' rem. fr_mpmc_get r exact dst fixed = Some (r', int m, rem, take m (FR_MPMC_contents r) @ drop m dst)
    \<and> FR_MPMC_inv r' \<and> FR_MPMC_conf r' = FR_MPMC_conf r \<and> fxq_producerHead r' = fxq_producerHead r
    \<and> FR_MPMC_contents r' = drop m (FR_MPMC_contents r)
    \<and> reports (exact \<or> dst = [] \<or> m < length dst) rem (D - m)"
proof -
  let ?len = "of_nat (length dst) :: u32" and ?C = "fxq_consumerHead r"
  define r1 where "r1 = fr_mpmc_ready r ?len exact"
  define avail where "avail = fxq_completed r1 - ?C"
  define n where "n = (if fixed \<and> avail < ucast ?len then 0 else ucast (min (ucast ?len) avail) :: u32)"
  note g = FR_MPMC_geom [OF assms(1)]
  note seen = fr_mpmc_ready_facts [OF assms(1), where requested = ?len and exact = exact, folded r1_def, folded avail_def D_def]
  note res = fr_mpmc_cattempt [OF assms(1), where len = ?len and exact = exact and fixed = fixed, folded r1_def,
      folded avail_def, folded n_def]
  have len: "length dst \<le> length (fxq_entries r)" using assms(2) by (simp add: FR_MPMC_conf_def)
  have lw: "unat ?len = length dst" "?len = 0 \<longleftrightarrow> dst = []" using len_word [OF len g] len_word_0 [OF len g] by auto
  have fresh: "exact \<or> dst = [] \<or> unat avail < length dst \<Longrightarrow> unat avail = D" using seen(10) lw by simp
  have "D \<le> 2 ^ 30" using FR_MPMC_bounded [OF assms(1)] geom_le [OF g] by (simp add: D_def FR_MPMC_conf_def)
  then have small: "unat avail < 2 ^ 32" "unat (ucast avail :: u32) = unat avail" using seen(9) by (simp_all add: unat_low)
  have m: "m = admitted fixed (length dst) (unat avail)" unfolding m_def by (rule admitted_seen [OF seen(9) fresh])
  then have mn: "m = unat n" using lw small by (auto simp: n_def admitted_def word_less_nat_alt min_def word_le_nat_alt unat_low)
  have n: "unat n \<le> unat avail" "unat n \<le> length dst"
    using lw small by (auto simp: n_def min_def word_le_nat_alt unat_low)
  have rem: "unat (ucast avail - n) = unat avail - m" using n(1) small mn by (simp add: unat_sub word_le_nat_alt)
  have rep: "reports (exact \<or> dst = [] \<or> m < length dst) (int (unat avail - m)) (D - m)"
    using fresh seen(9) m by (auto simp: reports_def admitted_def min_def split: if_splits)
  show ?thesis
  proof (cases "n = 0")
    case True
    with res rem rep mn seen(1-4) show ?thesis by (simp add: fr_mpmc_get_def)
  next
    case False
    let ?es = "if fmm_clearOnDequeue (fxq_config r1) then clear_slots (fxq_entries r1) (fxq_mask r1) (low (fxq_consumerHead r1)) n
      else fxq_entries r1"
    have "unat n \<le> unat (fxq_completed r1) - unat (fxq_consumerHead r1)" using n(1) seen(7,8) by simp
    note pop = FR_MPMC_pop [OF seen(1) False this, of ?es]
    let ?r2 = "r1\<lparr>fxq_consumerHead := ?C + ucast n\<rparr>"
    have "fr_mpmcReadConsumer ?r2 ?C (take (unat n) dst) = (?r2\<lparr>fxq_entries := ?es\<rparr>, take (unat n) (FR_MPMC_contents r))"
      using fr_mpmc_read [of ?r2 "take (unat n) dst" n ?C] FR_MPMC_geom [OF seen(1)] n(2) pop(3) seen(2,7) by simp
    then have "fr_mpmc_get r exact dst fixed = Some (r1\<lparr>fxq_entries := ?es,
        fxq_releases := (fxq_releases r1)[slot (low (fxq_consumerHead r1)) (fxq_mask r1) := fxq_consumerHead r1 + ucast n],
        fxq_consumerHead := fxq_consumerHead r1 + ucast n\<rparr>,
        int m, int (unat avail - m), take m (FR_MPMC_contents r) @ drop m dst)"
      using res False rem mn seen(7) by (simp add: fr_mpmc_get_def mpmcPublishRelease_def)
    with pop(1,2) rep mn seen(2-4) show ?thesis by (simp add: FR_MPMC_conf_def)
  qed
qed

interpretation fr_mpmc_batches: fifo_batches_within FR_MPMC_inv FR_MPMC_conf FR_MPMC_contents FR_MPMC_fits
  "\<lambda>r items fixed. fr_mpmc_put r (qc_exact (FR_MPMC_conf r)) items fixed"
  "\<lambda>r dst fixed. fr_mpmc_get r (qc_exact (FR_MPMC_conf r)) dst fixed"
proof unfold_locales
  fix r :: "'a FR_MPMCQueue" assume "FR_MPMC_inv r"
  then show "length (FR_MPMC_contents r) \<le> qc_cap (FR_MPMC_conf r)" by (rule FR_MPMC_bounded)
next
  fix r :: "'a FR_MPMCQueue" assume "FR_MPMC_inv r"
  then show "conf_ok (FR_MPMC_conf r)" by (simp add: FR_MPMC_inv_def FR_MPMC_conf_def conf_ok_def)
next
  fix r :: "'a FR_MPMCQueue" and dst :: "'a list" and n m fixed
  assume "FR_MPMC_inv r" "length dst \<le> qc_cap (FR_MPMC_conf r)" "FR_MPMC_fits r n"
    "m = admitted fixed (length dst) (length (FR_MPMC_contents r))"
  then show "\<exists>r' rem. fr_mpmc_get r (qc_exact (FR_MPMC_conf r)) dst fixed
      = Some (r', int m, rem, take m (FR_MPMC_contents r) @ drop m dst) \<and> FR_MPMC_inv r'
      \<and> FR_MPMC_conf r' = FR_MPMC_conf r \<and> FR_MPMC_fits r' n \<and> FR_MPMC_contents r' = drop m (FR_MPMC_contents r)
      \<and> reports (qc_exact (FR_MPMC_conf r) \<or> dst = [] \<or> m < length dst) rem (length (FR_MPMC_contents r) - m)"
    using fr_mpmc_get_ok [of r dst "qc_exact (FR_MPMC_conf r)" fixed] by (auto simp: FR_MPMC_fits_def)
qed (use fr_mpmc_put_ok in \<open>auto simp: FR_MPMC_fits_def\<close>)

section \<open>The exported methods\<close>

fun FR_MPMC_step :: "('a::zero) FR_MPMCQueue \<Rightarrow> 'a qop \<Rightarrow> ('a FR_MPMCQueue \<times> 'a qres) option" where
  "FR_MPMC_step r (Enqueue_op x) = map_option (\<lambda>(r', e). (r', Enqueued e)) (FR_MPMC_Enqueue r x)"
| "FR_MPMC_step r Dequeue_op = map_option (\<lambda>(r', v, e). (r', Dequeued v e)) (FR_MPMC_Dequeue r)"
| "FR_MPMC_step r (EnqueueBulk_op xs) = map_option (\<lambda>(r', free, e). (r', BulkIn free e)) (FR_MPMC_EnqueueBulk r xs)"
| "FR_MPMC_step r (EnqueueBurst_op xs) = map_option (\<lambda>(r', n, free). (r', BurstIn n free)) (FR_MPMC_EnqueueBurst r xs)"
| "FR_MPMC_step r (DequeueBulk_op dst) = map_option (\<lambda>(r', avail, e, out). (r', BulkOut avail e out)) (FR_MPMC_DequeueBulk r dst)"
| "FR_MPMC_step r (DequeueBurst_op dst) = map_option (\<lambda>(r', n, avail, out). (r', BurstOut n avail out)) (FR_MPMC_DequeueBurst r dst)"
| "FR_MPMC_step r Count_op = map_option (\<lambda>(r', n). (r', Counted n)) (FR_MPMC_Count r)"
| "FR_MPMC_step r Reset_op = Some (FR_MPMC_Reset r, ResetDone)"

abbreviation FR_MPMC_ok :: "nat \<Rightarrow> ('a::zero) FR_MPMCQueue \<Rightarrow> 'a qop \<Rightarrow> bool" where
  "FR_MPMC_ok n r opn \<equiv>
     fifo_outcome FR_MPMC_inv FR_MPMC_conf FR_MPMC_contents FR_MPMC_fits n r opn (FR_MPMC_step r opn)"

text \<open>A reservation of length zero refreshes the frontier and reports the exact count.\<close>

lemma FR_MPMC_free_now:
  assumes "FR_MPMC_inv r"
  shows "\<exists>r1. fr_mpmcReserveProducer r 0 True False
      = Some (r1, fxq_producerHead r, 0, of_nat (qc_cap (FR_MPMC_conf r) - length (FR_MPMC_contents r)))
    \<and> FR_MPMC_inv r1 \<and> FR_MPMC_contents r1 = FR_MPMC_contents r \<and> FR_MPMC_conf r1 = FR_MPMC_conf r
    \<and> fxq_producerHead r1 = fxq_producerHead r"
proof -
  note facts = fr_mpmc_roomy_facts [OF assms, where requested = 0 and exact = False]
  have "low (ucast (fxq_mask r + 1) - (fxq_producerHead r - fxq_released (fr_mpmc_roomy r 0 False)))
      = of_nat (qc_cap (FR_MPMC_conf r) - length (FR_MPMC_contents r))"
    using facts(9) by (simp add: word_unat_eq_iff unat_low unat_of_nat)
  then show ?thesis
    using facts(1-4) fr_mpmc_pattempt [OF assms, where len = 0 and exact = False and fixed = True] by simp
qed

lemma FR_MPMC_avail_now:
  assumes "FR_MPMC_inv r"
  shows "\<exists>r1. fr_mpmcReserveConsumer r 0 True False
      = Some (r1, fxq_consumerHead r, 0, of_nat (length (FR_MPMC_contents r)))
    \<and> FR_MPMC_inv r1 \<and> FR_MPMC_contents r1 = FR_MPMC_contents r \<and> FR_MPMC_conf r1 = FR_MPMC_conf r
    \<and> fxq_producerHead r1 = fxq_producerHead r"
proof -
  note facts = fr_mpmc_ready_facts [OF assms, where requested = 0 and exact = False]
  have "low (fxq_completed (fr_mpmc_ready r 0 False) - fxq_consumerHead r) = of_nat (length (FR_MPMC_contents r))"
    using facts(10) by (simp add: word_unat_eq_iff unat_low unat_of_nat)
  then show ?thesis
    using facts(1-4) fr_mpmc_cattempt [OF assms, where len = 0 and exact = False and fixed = True] by simp
qed

lemma FR_MPMC_small:
  assumes "FR_MPMC_inv r" "k \<le> qc_cap (FR_MPMC_conf r)"
  shows "unat (of_nat k :: u32) = k"
  using assms(2) len_word [OF _ FR_MPMC_geom [OF assms(1)], of k] by (simp add: FR_MPMC_conf_def)

lemma FR_MPMC_Enqueue_ok:
  assumes "FR_MPMC_inv r" "FR_MPMC_fits r (1 + n)"
  shows "FR_MPMC_ok n r (Enqueue_op x)"
proof -
  let ?m = "admitted True 1 (qc_cap (FR_MPMC_conf r) - length (FR_MPMC_contents r))"
  have len: "length [x] \<le> qc_cap (FR_MPMC_conf r)"
    using geom_pos [OF FR_MPMC_geom [OF assms(1)]] by (simp add: FR_MPMC_conf_def Suc_le_eq)
  obtain r' rem where p: "fr_mpmc_put r False [x] True = Some (r', int ?m, rem)" "FR_MPMC_inv r'"
    "FR_MPMC_conf r' = FR_MPMC_conf r" "FR_MPMC_fits r' n" "FR_MPMC_contents r' = FR_MPMC_contents r @ take ?m [x]"
    using fr_mpmc_put_ok [OF assms(1) len, of n False True] assms(2) by auto
  obtain r1 start count rest where res: "fr_mpmcReserveProducer r 1 True False = Some (r1, start, count, rest)"
    using p(1) by (auto simp: fr_mpmc_put_def split: option.splits)
  have "FR_MPMC_Enqueue r x = Some (r', if ?m = 0 then Some (Sentinel ErrFull) else None)"
  proof (cases "count = 0")
    case True
    with p(1) res show ?thesis by (simp add: fr_mpmc_put_def FR_MPMC_Enqueue_def)
  next
    case False
    then have "0 < unat count" by (simp add: unat_gt_0)
    moreover have "unat count = ?m" using False p(1) res by (auto simp: fr_mpmc_put_def)
    ultimately have "unat count = 1" "?m = 1" by (auto simp: admitted_def split: if_splits)
    with False p(1) res show ?thesis by (auto simp: fr_mpmc_put_def FR_MPMC_Enqueue_def fr_mpmcWriteProducer_def)
  qed
  with p(2-) show ?thesis
    using enqueue_admitted [of ?m "FR_MPMC_conf r" "FR_MPMC_contents r" x] by (auto intro: fifo_outcomeI)
qed

lemma FR_MPMC_EnqueueBulk_ok:
  assumes "FR_MPMC_inv r" "FR_MPMC_fits r (length items + n)"
  shows "FR_MPMC_ok n r (EnqueueBulk_op items)"
proof (cases "length items > qc_maxE (FR_MPMC_conf r)")
  case True
  obtain r1 where r1: "fr_mpmcReserveProducer r 0 True False
      = Some (r1, fxq_producerHead r, 0, of_nat (qc_cap (FR_MPMC_conf r) - length (FR_MPMC_contents r)))"
    "FR_MPMC_inv r1" "FR_MPMC_contents r1 = FR_MPMC_contents r" "FR_MPMC_conf r1 = FR_MPMC_conf r"
    "fxq_producerHead r1 = fxq_producerHead r"
    using FR_MPMC_free_now [OF assms(1)] by blast
  have "FR_MPMC_EnqueueBulk r items = Some (r1, int (qc_cap (FR_MPMC_conf r) - length (FR_MPMC_contents r)),
      Some (length_error (FR_MPMC_conf r) (length items)))"
    using True r1(1) FR_MPMC_cap [OF assms(1)] FR_MPMC_small [OF assms(1), of "qc_cap (FR_MPMC_conf r) - length (FR_MPMC_contents r)"]
    by (simp add: FR_MPMC_EnqueueBulk_def Let_def BatchLengthError_def length_error_def FR_MPMC_conf_def)
  with True r1(2-) assms(2) show ?thesis
    by (intro fifo_outcomeI [of _ r1]) (auto simp: fifo_result_def reports_def FR_MPMC_fits_def)
next
  case False
  then have short: "\<not> (length items > unat (fxq_mask r + 1) \<or> length items > unat (fmm_maxEnqueueBatch (fxq_config r)))"
    using assms(1) FR_MPMC_cap [OF assms(1)] by (auto simp: FR_MPMC_inv_def FR_MPMC_conf_def)
  obtain r' moved rem where p: "fr_mpmc_put r (qc_exact (FR_MPMC_conf r)) items True = Some (r', moved, rem)"
    and k: "FR_MPMC_inv r'" "FR_MPMC_conf r' = FR_MPMC_conf r" "FR_MPMC_fits r' n"
      "FR_MPMC_contents r' = fifo_next (FR_MPMC_conf r) (FR_MPMC_contents r) (EnqueueBulk_op items)"
    and z: "moved = 0 \<longleftrightarrow> items = [] \<or> moved \<noteq> int (length items)"
    and f: "fifo_result (FR_MPMC_conf r) (FR_MPMC_contents r) (EnqueueBulk_op items)
      (BulkIn rem (if moved \<noteq> int (length items) then Some (Sentinel ErrFull) else None))"
    using fr_mpmc_batches.bulk_in_within [OF assms(1) _ assms(2)] False by (auto simp: not_less)
  obtain r1 start count rest where res: "fr_mpmcReserveProducer r (of_nat (length items)) True
      (fmm_exactBatchCounts (fxq_config r)) = Some (r1, start, count, rest)"
    using p by (auto simp: fr_mpmc_put_def FR_MPMC_conf_def split: option.splits)
  have "FR_MPMC_EnqueueBulk r items = Some (r', rem, if moved \<noteq> int (length items) then Some (Sentinel ErrFull) else None)"
  proof (cases "count = 0")
    case True
    with p res z short show ?thesis by (auto simp: fr_mpmc_put_def FR_MPMC_EnqueueBulk_def FR_MPMC_conf_def Let_def)
  next
    case False
    then have "moved = int (unat count)" "moved \<noteq> 0"
      using p res by (auto simp: fr_mpmc_put_def FR_MPMC_conf_def unat_eq_zero)
    with z have "unat count = length items" "moved = int (length items)" by auto
    with False p res short show ?thesis by (auto simp: fr_mpmc_put_def FR_MPMC_EnqueueBulk_def FR_MPMC_conf_def Let_def)
  qed
  with k f show ?thesis by (intro fifo_outcomeI [of _ r']) simp_all
qed

lemma FR_MPMC_EnqueueBurst_ok:
  assumes "FR_MPMC_inv r" "FR_MPMC_fits r (length items + n)"
  shows "FR_MPMC_ok n r (EnqueueBurst_op items)"
proof -
  let ?len = "min (length items) (qc_maxE (FR_MPMC_conf r))"
  obtain r' moved rem where p: "fr_mpmc_put r (qc_exact (FR_MPMC_conf r)) (take ?len items) False = Some (r', moved, rem)"
    and k: "FR_MPMC_inv r'" "FR_MPMC_conf r' = FR_MPMC_conf r" "FR_MPMC_fits r' n"
      "FR_MPMC_contents r' = fifo_next (FR_MPMC_conf r) (FR_MPMC_contents r) (EnqueueBurst_op items)"
    and f: "fifo_result (FR_MPMC_conf r) (FR_MPMC_contents r) (EnqueueBurst_op items) (BurstIn moved rem)"
    using fr_mpmc_batches.burst_in_within [OF assms] by blast
  have le: "moved \<le> int ?len" using f by (auto simp: fifo_result_def burst_in_def)
  obtain r1 start count rest where res: "fr_mpmcReserveProducer r (of_nat ?len) False
      (fmm_exactBatchCounts (fxq_config r)) = Some (r1, start, count, rest)"
    using p by (auto simp: fr_mpmc_put_def FR_MPMC_conf_def split: option.splits)
  have "FR_MPMC_EnqueueBurst r items = Some (r', moved, rem)"
  proof (cases "count = 0")
    case True
    with p res show ?thesis by (simp add: fr_mpmc_put_def FR_MPMC_EnqueueBurst_def FR_MPMC_conf_def)
  next
    case False
    then have "moved = int (unat count)" using p res by (auto simp: fr_mpmc_put_def FR_MPMC_conf_def)
    with le have "take (unat count) (take ?len items) = take (unat count) items" by simp
    with False p res show ?thesis by (auto simp: fr_mpmc_put_def FR_MPMC_EnqueueBurst_def FR_MPMC_conf_def)
  qed
  with k f show ?thesis by (intro fifo_outcomeI [of _ r']) simp_all
qed

lemma FR_MPMC_Dequeue_ok:
  fixes r :: "('a::zero) FR_MPMCQueue"
  assumes "FR_MPMC_inv r" "FR_MPMC_fits r n"
  shows "FR_MPMC_ok n r Dequeue_op"
proof -
  let ?m = "admitted True 1 (length (FR_MPMC_contents r))" and ?out = "\<lambda>m. take m (FR_MPMC_contents r) @ drop m [0]"
  have len: "length [0 :: 'a] \<le> qc_cap (FR_MPMC_conf r)"
    using geom_pos [OF FR_MPMC_geom [OF assms(1)]] by (simp add: FR_MPMC_conf_def Suc_le_eq)
  obtain r' rem where p: "fr_mpmc_get r False [0] True = Some (r', int ?m, rem, ?out ?m)" "FR_MPMC_inv r'"
    "FR_MPMC_conf r' = FR_MPMC_conf r" "fxq_producerHead r' = fxq_producerHead r" "FR_MPMC_contents r' = drop ?m (FR_MPMC_contents r)"
    using fr_mpmc_get_ok [OF assms(1) len, of False True] by auto
  obtain r1 start count rest where res: "fr_mpmcReserveConsumer r 1 True False = Some (r1, start, count, rest)"
    using p(1) by (auto simp: fr_mpmc_get_def split: option.splits)
  have "FR_MPMC_Dequeue r = Some (r', hd (?out ?m), if ?m = 0 then Some (Sentinel ErrEmpty) else None)"
  proof (cases "count = 0")
    case True
    with p(1) res show ?thesis by (simp add: fr_mpmc_get_def FR_MPMC_Dequeue_def)
  next
    case False
    then have "0 < unat count" by (simp add: unat_gt_0)
    moreover have "unat count = ?m" using False p(1) res by (auto simp: fr_mpmc_get_def Let_def split: prod.splits)
    ultimately have "unat count = 1" "?m = 1" by (auto simp: admitted_def min_def Suc_le_eq split: if_splits)
    with False p(1) res show ?thesis
      by (cases "FR_MPMC_contents r")
        (auto simp: fr_mpmc_get_def FR_MPMC_Dequeue_def fr_mpmcReadConsumer_def Let_def split: option.splits if_splits)
  qed
  moreover have "hd (?out ?m) = (if ?m = 0 then 0 else hd (FR_MPMC_contents r))"
    by (cases "FR_MPMC_contents r") (auto simp: admitted_def)
  ultimately show ?thesis
    using p(2-) assms(2) dequeue_admitted [of ?m "FR_MPMC_contents r"]
    by (auto simp: FR_MPMC_fits_def intro: fifo_outcomeI)
qed

lemma FR_MPMC_DequeueBulk_ok:
  fixes r :: "('a::zero) FR_MPMCQueue"
  assumes "FR_MPMC_inv r" "FR_MPMC_fits r n"
  shows "FR_MPMC_ok n r (DequeueBulk_op dst)"
proof (cases "length dst > qc_maxD (FR_MPMC_conf r)")
  case True
  obtain r1 where r1: "fr_mpmcReserveConsumer r 0 True False
      = Some (r1, fxq_consumerHead r, 0, of_nat (length (FR_MPMC_contents r)))"
    "FR_MPMC_inv r1" "FR_MPMC_contents r1 = FR_MPMC_contents r" "FR_MPMC_conf r1 = FR_MPMC_conf r"
    "fxq_producerHead r1 = fxq_producerHead r"
    using FR_MPMC_avail_now [OF assms(1)] by blast
  have "FR_MPMC_DequeueBulk r dst = Some (r1, int (length (FR_MPMC_contents r)),
      Some (length_error (FR_MPMC_conf r) (length dst)), dst)"
    using True r1(1) FR_MPMC_cap [OF assms(1)] FR_MPMC_small [OF assms(1) FR_MPMC_bounded [OF assms(1)]]
    by (simp add: FR_MPMC_DequeueBulk_def Let_def BatchLengthError_def length_error_def FR_MPMC_conf_def)
  with True r1(2-) assms(2) show ?thesis
    by (intro fifo_outcomeI [of _ r1]) (auto simp: fifo_result_def reports_def FR_MPMC_fits_def)
next
  case False
  then have short: "\<not> (length dst > unat (fxq_mask r + 1)
      \<or> length dst > unat (fmm_maxDequeueBatch (fxq_config r)))"
    using assms(1) FR_MPMC_cap [OF assms(1)] by (auto simp: FR_MPMC_inv_def FR_MPMC_conf_def)
  have ex: "qc_exact (FR_MPMC_conf r) = fmm_exactBatchCounts (fxq_config r)"
    using assms(1) by (simp add: FR_MPMC_inv_def FR_MPMC_conf_def)
  obtain r' moved rem out where p: "fr_mpmc_get r (qc_exact (FR_MPMC_conf r)) dst True = Some (r', moved, rem, out)"
    and k: "FR_MPMC_inv r'" "FR_MPMC_conf r' = FR_MPMC_conf r" "FR_MPMC_fits r' n"
      "FR_MPMC_contents r' = fifo_next (FR_MPMC_conf r) (FR_MPMC_contents r) (DequeueBulk_op dst)"
    and z: "moved = 0 \<longleftrightarrow> dst = [] \<or> moved \<noteq> int (length dst)"
    and f: "fifo_result (FR_MPMC_conf r) (FR_MPMC_contents r) (DequeueBulk_op dst)
      (BulkOut rem (if moved \<noteq> int (length dst) then Some (Sentinel ErrEmpty) else None) out)"
    using fr_mpmc_batches.bulk_out_within [OF assms(1) _ assms(2), of dst] False by (auto simp: not_less)
  obtain r1 start count rest where res: "fr_mpmcReserveConsumer r (of_nat (length dst)) True
      (fmm_exactBatchCounts (fxq_config r)) = Some (r1, start, count, rest)"
    using p by (auto simp: fr_mpmc_get_def ex split: option.splits)
  have "FR_MPMC_DequeueBulk r dst = Some (r', rem, if moved \<noteq> int (length dst) then Some (Sentinel ErrEmpty) else None, out)"
  proof (cases "count = 0")
    case True
    have "r' = r1" "moved = 0" "rem = int (unat rest)" "out = dst"
      using True p res by (simp_all add: fr_mpmc_get_def ex)
    with True res z short show ?thesis by (simp add: FR_MPMC_DequeueBulk_def Let_def)
  next
    case False
    then have "moved = int (unat count)" "moved \<noteq> 0"
      using p res by (auto simp: fr_mpmc_get_def ex Let_def unat_eq_zero split: prod.splits)
    with z have "unat count = length dst" "moved = int (length dst)" by auto
    moreover obtain r2 out' where "fr_mpmcReadConsumer r1 start dst = (r2, out')" by (cases "fr_mpmcReadConsumer r1 start dst")
    ultimately show ?thesis
      using False p res by (auto simp: fr_mpmc_get_def FR_MPMC_DequeueBulk_def ex if_not_P [OF short] Let_def)
  qed
  with k f show ?thesis by (intro fifo_outcomeI [of _ r']) simp_all
qed

lemma FR_MPMC_DequeueBurst_ok:
  fixes r :: "('a::zero) FR_MPMCQueue"
  assumes "FR_MPMC_inv r" "FR_MPMC_fits r n"
  shows "FR_MPMC_ok n r (DequeueBurst_op dst)"
proof -
  let ?len = "min (length dst) (qc_maxD (FR_MPMC_conf r))"
  have ex: "qc_exact (FR_MPMC_conf r) = fmm_exactBatchCounts (fxq_config r)"
    "unat (fmm_maxDequeueBatch (fxq_config r)) = qc_maxD (FR_MPMC_conf r)"
    using assms(1) by (simp_all add: FR_MPMC_inv_def FR_MPMC_conf_def)
  obtain r' moved rem out where p: "fr_mpmc_get r (qc_exact (FR_MPMC_conf r)) (take ?len dst) False = Some (r', moved, rem, out)"
    and k: "FR_MPMC_inv r'" "FR_MPMC_conf r' = FR_MPMC_conf r" "FR_MPMC_fits r' n"
      "FR_MPMC_contents r' = fifo_next (FR_MPMC_conf r) (FR_MPMC_contents r) (DequeueBurst_op dst)"
    and f: "fifo_result (FR_MPMC_conf r) (FR_MPMC_contents r) (DequeueBurst_op dst) (BurstOut moved rem (out @ drop ?len dst))"
    using fr_mpmc_batches.burst_out_within [OF assms, of dst] by blast
  have le: "moved \<le> int ?len" using f by (auto simp: fifo_result_def burst_out_def)
  obtain r1 start count rest where res: "fr_mpmcReserveConsumer r (of_nat ?len) False
      (fmm_exactBatchCounts (fxq_config r)) = Some (r1, start, count, rest)"
    using p by (auto simp: fr_mpmc_get_def ex split: option.splits)
  have "FR_MPMC_DequeueBurst r dst = Some (r', moved, rem, out @ drop ?len dst)"
  proof (cases "count = 0")
    case True
    with p res show ?thesis by (auto simp: fr_mpmc_get_def FR_MPMC_DequeueBurst_def ex)
  next
    case False
    then have "moved = int (unat count)" using p res by (auto simp: fr_mpmc_get_def ex Let_def split: prod.splits)
    with le have "unat count \<le> ?len" by simp
    then have "take (unat count) (take ?len dst) = take (unat count) dst"
      "drop (unat count) (take ?len dst) @ drop ?len dst = drop (unat count) dst"
      using append_take_drop_id [of ?len dst] drop_append [of "unat count" "take ?len dst" "drop ?len dst"] by auto
    moreover obtain r2 out' where "fr_mpmcReadConsumer r1 start (take (unat count) dst) = (r2, out')"
      by (cases "fr_mpmcReadConsumer r1 start (take (unat count) dst)")
    ultimately show ?thesis using False p res by (auto simp: fr_mpmc_get_def FR_MPMC_DequeueBurst_def ex)
  qed
  with k f show ?thesis by (intro fifo_outcomeI [of _ r']) simp_all
qed

lemma FR_MPMC_Count_ok:
  assumes "FR_MPMC_inv r"
  shows "FR_MPMC_Count r = Some (r\<lparr>fxq_completed := fxq_producerHead r\<rparr>, int (length (FR_MPMC_contents r)))"
proof -
  have "min (fxq_producerHead r - fxq_consumerHead r) (ucast (fxq_mask r + 1)) = fxq_producerHead r - fxq_consumerHead r"
    using wide_diff(2) [OF FR_MPMC_wide [OF assms]] wide_order [OF FR_MPMC_wide [OF assms]] geom_cap [OF FR_MPMC_geom [OF assms]]
    by (intro min_absorb1) (simp add: word_le_nat_alt)
  then show ?thesis
    using wide_diff(2) [OF FR_MPMC_wide [OF assms]]
    by (simp add: FR_MPMC_Count_def mpmcAdvanceCompleted_ok [OF assms] length_FR_MPMC_contents [OF assms])
qed

lemma FR_MPMC_Reset_ok:
  assumes "FR_MPMC_inv r"
  shows "FR_MPMC_inv (FR_MPMC_Reset r)" "FR_MPMC_conf (FR_MPMC_Reset r) = FR_MPMC_conf r"
    "FR_MPMC_contents (FR_MPMC_Reset r) = []" "fxq_producerHead (FR_MPMC_Reset r) = 0"
proof -
  note g = FR_MPMC_geom [OF assms]
  have "records_inv (replicate (length (fxq_entries r)) 0) (fxq_mask r) 0 0"
    by (rule records_new) (auto intro: geom_length [OF g])
  then show "FR_MPMC_inv (FR_MPMC_Reset r)"
    using assms wide_new [OF geom_length [OF g], of "replicate (length (fxq_entries r)) 0"]
    by (simp add: FR_MPMC_inv_def FR_MPMC_Reset_def)
qed (simp_all add: FR_MPMC_Reset_def FR_MPMC_conf_def FR_MPMC_contents_def ring_contents_def)

lemma FR_MPMC_step_ok:
  assumes "FR_MPMC_inv r" "FR_MPMC_fits r (op_size opn + n)"
  shows "FR_MPMC_ok n r opn"
proof (cases opn)
  case Count_op
  let ?r' = "r\<lparr>fxq_completed := fxq_producerHead r\<rparr>"
  have "FR_MPMC_contents ?r' = FR_MPMC_contents r" "FR_MPMC_conf ?r' = FR_MPMC_conf r" "FR_MPMC_fits ?r' n"
    using assms(2) Count_op by (simp_all add: FR_MPMC_contents_def FR_MPMC_conf_def FR_MPMC_fits_def)
  with Count_op assms FR_MPMC_completed [OF assms(1)] show ?thesis
    by (intro fifo_outcomeI [of _ ?r' "Counted (int (length (FR_MPMC_contents r)))"]) (simp_all add: FR_MPMC_Count_ok fifo_result_def)
next
  case Reset_op
  with assms FR_MPMC_Reset_ok [OF assms(1)] show ?thesis
    by (intro fifo_outcomeI [of _ "FR_MPMC_Reset r" ResetDone]) (simp_all add: fifo_result_def FR_MPMC_fits_def)
qed (use assms FR_MPMC_Enqueue_ok FR_MPMC_EnqueueBulk_ok FR_MPMC_EnqueueBurst_ok FR_MPMC_Dequeue_ok
    FR_MPMC_DequeueBulk_ok FR_MPMC_DequeueBurst_ok in \<open>simp_all only: op_size.simps add_0\<close>)

interpretation fr_mpmc: fifo_queue_within FR_MPMC_inv FR_MPMC_conf FR_MPMC_contents FR_MPMC_fits FR_MPMC_step
  by unfold_locales (rule FR_MPMC_bounded, assumption, rule FR_MPMC_step_ok)

lemma FR_NewMPMCQueue_ok:
  fixes r :: "('a::zero) FR_MPMCQueue"
  assumes "FR_NewMPMCQueue count options = Inr r"
  shows "FR_MPMC_inv r" "FR_MPMC_contents r = []" "int (qc_cap (FR_MPMC_conf r)) = count" "fxq_producerHead r = 0"
proof -
  obtain cfg where cfg: "fr_resolveConfig count options = Inr cfg"
    using assms by (auto simp: FR_NewMPMCQueue_def split: sum.splits)
  obtain k where k: "k \<le> 30" "count = 2 ^ k" and c: "1 \<le> fr_maxEnqueueBatch cfg" "fr_maxEnqueueBatch cfg \<le> count"
    "1 \<le> fr_maxDequeueBatch cfg" "fr_maxDequeueBatch cfg \<le> count"
    using cfg by (auto simp: fr_resolveConfig_Inr)
  have b: "unat (of_int (fr_maxEnqueueBatch cfg) :: u32) \<le> 2 ^ k" "unat (of_int (fr_maxDequeueBatch cfg) :: u32) \<le> 2 ^ k"
    using c k unat_of_batch [of "fr_maxEnqueueBatch cfg" k] unat_of_batch [of "fr_maxDequeueBatch cfg" k]
    by (simp_all add: nat_le_iff)
  have "records_inv (replicate (nat count) 0) (of_int (count - 1)) 0 0"
    unfolding k(2) by (rule records_new [OF geom_new [OF k(1)]]) auto
  then show "FR_MPMC_inv r" "FR_MPMC_contents r = []" "int (qc_cap (FR_MPMC_conf r)) = count" "fxq_producerHead r = 0"
    using assms cfg b wide_new [OF geom_new [OF k(1), of "0 :: 'a"]]
    by (auto simp: FR_NewMPMCQueue_def FR_MPMC_inv_def FR_MPMC_conf_def FR_MPMC_contents_def ring_contents_def k(2) nat_power_eq)
qed

section \<open>Properties\<close>

text \<open>
  C5. A new frontier queue with many producers and consumers behaves between calls as a bounded FIFO
  as long as no more than \<open>2^64 - 1\<close> elements are ever offered: both shared frontiers reach every
  finished interval and no further, and results, errors, counts and order are those of the FIFO.
\<close>

theorem FR_MPMC_is_bounded_fifo:
  fixes r :: "('a::zero) FR_MPMCQueue"
  assumes "FR_NewMPMCQueue count options = Inr r" "ops_size ops < 2 ^ 64"
  shows "\<exists>r' rs. queue_run FR_MPMC_step r ops = Some (r', rs)
    \<and> results_allowed (FR_MPMC_conf r) [] ops rs
    \<and> FR_MPMC_contents r' = fold (\<lambda>opn xs. fifo_next (FR_MPMC_conf r) xs opn) ops []
    \<and> (Reset_op \<notin> set ops \<longrightarrow> all_enqueued ops rs = all_dequeued rs @ FR_MPMC_contents r')
    \<and> map_option snd (FR_MPMC_Count r') = Some (int (length (FR_MPMC_contents r')))
    \<and> FR_MPMC_Capacity r' = count
    \<and> map_option snd (FR_MPMC_Free r') = Some (count - int (length (FR_MPMC_contents r')))
    \<and> map_option snd (FR_MPMC_Empty r') = Some (FR_MPMC_contents r' = [])
    \<and> map_option snd (FR_MPMC_Full r') = Some (int (length (FR_MPMC_contents r')) = count)"
proof -
  have new: "FR_MPMC_inv r" "FR_MPMC_contents r = []" "int (qc_cap (FR_MPMC_conf r)) = count" "FR_MPMC_fits r (ops_size ops)"
    using FR_NewMPMCQueue_ok [OF assms(1)] assms(2) by (simp_all add: FR_MPMC_fits_def)
  obtain r' rs where run: "queue_run FR_MPMC_step r ops = Some (r', rs)" "FR_MPMC_inv r'" "FR_MPMC_conf r' = FR_MPMC_conf r"
    "FR_MPMC_contents r' = fold (\<lambda>opn xs. fifo_next (FR_MPMC_conf r) xs opn) ops []"
    "results_allowed (FR_MPMC_conf r) [] ops rs"
    using fr_mpmc.run_within [OF new(1,4)] new(2) by auto
  have "FR_MPMC_Capacity r' = count"
    using FR_MPMC_cap [OF run(2)] run(2,3) new(3) by (simp add: FR_MPMC_Capacity_def)
  moreover have "Reset_op \<notin> set ops \<longrightarrow> all_enqueued ops rs = all_dequeued rs @ FR_MPMC_contents r'"
    using fr_mpmc.stream_within [OF new(1,4) _ run(1)] new(2) by simp
  ultimately show ?thesis
    using run FR_MPMC_Count_ok [OF run(2)] by (auto simp: FR_MPMC_Full_def FR_MPMC_Free_def FR_MPMC_Empty_def)
qed

theorem FR_MPMC_is_bounded_fifo_witness:
  "\<exists>(r :: int FR_MPMCQueue) r' rs. FR_NewMPMCQueue 8 [fr_WithMaxBatch 2, fr_WithExactBatchCounts] = Inr r
     \<and> queue_run FR_MPMC_step r [EnqueueBulk_op [1, 2], EnqueueBurst_op [3, 4, 5], Dequeue_op, EnqueueBulk_op [6, 7, 8]]
       = Some (r', rs) \<and> FR_MPMC_contents r' = [2, 3, 4] \<and> FR_MPMC_Capacity r' = 8"
proof -
  let ?o = "[fr_WithMaxBatch 2, fr_WithExactBatchCounts]"
  have "fr_resolveConfig 8 ?o = Inr \<lparr>fr_maxEnqueueBatch = 2, fr_maxDequeueBatch = 2, fr_keepDequeued = False,
      fr_exactBatchCounts = True\<rparr>"
    unfolding fr_resolveConfig_Inr by (auto simp: fr_WithMaxBatch_def fr_WithExactBatchCounts_def intro!: exI [of _ 3])
  then obtain r :: "int FR_MPMCQueue" where r: "FR_NewMPMCQueue 8 ?o = Inr r" "qc_cap (FR_MPMC_conf r) = 8"
    "qc_maxE (FR_MPMC_conf r) = 2"
    by (simp add: FR_NewMPMCQueue_def FR_MPMC_conf_def)
  from FR_MPMC_is_bounded_fifo [OF r(1),
      of "[EnqueueBulk_op [1, 2], EnqueueBurst_op [3, 4, 5], Dequeue_op, EnqueueBulk_op [6, 7, 8]]"]
  show ?thesis using r by (auto simp: burst_in_def simp del: queue_run.simps)
qed

end
