(* ===== verification/WaitSide.thy ===== *)
theory WaitSide
  imports Prelude
begin

text \<open>
  One side of the wakeup protocol of \<^verbatim>\<open>workq/waitside.go\<close>: the state word with its counts of pollers
  and parked callers, the doubly linked list of waiters, and every operation on them. Waiters live in
  a heap from addresses to records, so links alias as the Go pointers do. A token channel with a
  buffer of one is a flag. A loop around a compare-and-swap is split into its body, which takes the
  loaded word as an argument and returns \<open>None\<close> when the swap fails, and the loop itself. The
  diagnostics counters are nil. Callbacks that look at the engine thread its state \<open>'e\<close>.
\<close>

unbundle bit_operations_syntax

section \<open>Definitions\<close>

subsection \<open>The state word\<close>

type_synonym sideWord = u64

definition onePoller :: sideWord where
  "onePoller = 1"

definition oneParked :: sideWord where
  "oneParked = push_bit 32 1"

definition closedFlag :: sideWord where
  "closedFlag = push_bit 63 1"

definition countMask :: sideWord where
  "countMask = push_bit 31 1 - 1"

definition sideWord_pollers :: "sideWord \<Rightarrow> u32" where
  "sideWord_pollers w = ucast (w AND countMask)"

definition sideWord_parked :: "sideWord \<Rightarrow> u32" where
  "sideWord_parked w = ucast (drop_bit 32 w AND countMask)"

definition sideWord_closed :: "sideWord \<Rightarrow> bool" where
  "sideWord_closed w \<longleftrightarrow> w AND closedFlag \<noteq> 0"

definition sideWord_needsWake :: "sideWord \<Rightarrow> bool" where
  "sideWord_needsWake w \<longleftrightarrow> sideWord_pollers w = 0 \<and> sideWord_parked w > 0"

subsection \<open>Waiters and sides\<close>

type_synonym ptr = "nat option"

record waiter =
  wt_token :: bool
  wt_prev :: ptr
  wt_next :: ptr
  wt_listed :: bool

definition zero_waiter :: waiter where
  "zero_waiter = \<lparr>wt_token = False, wt_prev = None, wt_next = None, wt_listed = False\<rparr>"

record waitSide =
  ws_word :: sideWord
  ws_oldest :: ptr
  ws_newest :: ptr
  ws_pool :: "nat list"
  ws_heap :: "nat \<Rightarrow> waiter"
  ws_fresh :: nat

definition zero_waitSide :: waitSide where
  "zero_waitSide = \<lparr>ws_word = 0, ws_oldest = None, ws_newest = None, ws_pool = [],
     ws_heap = (\<lambda>_. zero_waiter), ws_fresh = 0\<rparr>"

definition update_waiter :: "waitSide \<Rightarrow> nat \<Rightarrow> (waiter \<Rightarrow> waiter) \<Rightarrow> waitSide" where
  "update_waiter side c f = side\<lparr>ws_heap := (ws_heap side)(c := f (ws_heap side c))\<rparr>"

definition newWaiter :: "waitSide \<Rightarrow> waitSide \<times> nat" where
  "newWaiter side = (side\<lparr>ws_heap := (ws_heap side)(ws_fresh side := zero_waiter), ws_fresh := ws_fresh side + 1\<rparr>,
     ws_fresh side)"

text \<open>\<^verbatim>\<open>sync.Pool\<close> may return any pooled object or none, as \<open>pick\<close> says.\<close>

definition getWaiter :: "nat option \<Rightarrow> waitSide \<Rightarrow> waitSide \<times> nat" where
  "getWaiter pick side =
     (case pick of
        Some i \<Rightarrow> if i < length (ws_pool side)
          then (side\<lparr>ws_pool := take i (ws_pool side) @ drop (i + 1) (ws_pool side)\<rparr>, ws_pool side ! i)
          else newWaiter side
      | None \<Rightarrow> newWaiter side)"

definition putWaiter :: "waitSide \<Rightarrow> nat \<Rightarrow> waitSide" where
  "putWaiter side c = side\<lparr>ws_pool := c # ws_pool side\<rparr>"

definition compareAndSwap :: "waitSide \<Rightarrow> sideWord \<Rightarrow> sideWord \<Rightarrow> waitSide option" where
  "compareAndSwap side current updated =
     (if ws_word side = current then Some (side\<lparr>ws_word := updated\<rparr>) else None)"

subsection \<open>The list of waiters\<close>

definition unlink :: "waitSide \<Rightarrow> nat \<Rightarrow> waitSide" where
  "unlink side caller =
     (let side1 = (case wt_prev (ws_heap side caller) of
            None \<Rightarrow> side\<lparr>ws_oldest := wt_next (ws_heap side caller)\<rparr>
          | Some p \<Rightarrow> update_waiter side p (\<lambda>w. w\<lparr>wt_next := wt_next (ws_heap side caller)\<rparr>));
          side2 = (case wt_next (ws_heap side1 caller) of
            None \<Rightarrow> side1\<lparr>ws_newest := wt_prev (ws_heap side1 caller)\<rparr>
          | Some n \<Rightarrow> update_waiter side1 n (\<lambda>w. w\<lparr>wt_prev := wt_prev (ws_heap side1 caller)\<rparr>))
      in update_waiter side2 caller (\<lambda>w. w\<lparr>wt_prev := None, wt_next := None, wt_listed := False\<rparr>))"

definition removeForWake :: "waitSide \<Rightarrow> (waitSide, nat) outcome" where
  "removeForWake side =
     (case ws_oldest side of None \<Rightarrow> Panic NilPanic side | Some woken \<Rightarrow> Return woken (unlink side woken))"

definition send_token :: "waitSide \<Rightarrow> nat \<Rightarrow> (waitSide, unit) outcome" where
  "send_token side c =
     (if wt_token (ws_heap side c) then Panic (PanicMsg ''workq: waiter already holds a wake token'') side
      else Return () (update_waiter side c (\<lambda>w. w\<lparr>wt_token := True\<rparr>)))"

definition wake_next :: "waitSide \<Rightarrow> (waitSide, unit) outcome" where
  "wake_next side = then_do (removeForWake side) (\<lambda>woken side1. send_token side1 woken)"

datatype enlistPosition = atNewest | atOldest

definition enlist_link :: "waitSide \<Rightarrow> nat \<Rightarrow> enlistPosition \<Rightarrow> waitSide" where
  "enlist_link side caller position =
     (let side' = (case position of
            atOldest \<Rightarrow>
              (let side1 = update_waiter side caller (\<lambda>w. w\<lparr>wt_next := ws_oldest side\<rparr>);
                   side2 = (case ws_oldest side1 of
                     None \<Rightarrow> side1\<lparr>ws_newest := Some caller\<rparr>
                   | Some old \<Rightarrow> update_waiter side1 old (\<lambda>w. w\<lparr>wt_prev := Some caller\<rparr>))
               in side2\<lparr>ws_oldest := Some caller\<rparr>)
          | atNewest \<Rightarrow>
              (let side1 = update_waiter side caller (\<lambda>w. w\<lparr>wt_prev := ws_newest side\<rparr>);
                   side2 = (case ws_newest side1 of
                     None \<Rightarrow> side1\<lparr>ws_oldest := Some caller\<rparr>
                   | Some new \<Rightarrow> update_waiter side1 new (\<lambda>w. w\<lparr>wt_next := Some caller\<rparr>))
               in side2\<lparr>ws_newest := Some caller\<rparr>))
      in update_waiter side' caller (\<lambda>w. w\<lparr>wt_listed := True\<rparr>))"

subsection \<open>Operations\<close>

definition registerAttempt :: "waitSide \<Rightarrow> sideWord \<Rightarrow> (waitSide \<times> bool) option" where
  "registerAttempt side w =
     (if sideWord_closed w then Some (side, True)
      else map_option (\<lambda>side'. (side', False)) (compareAndSwap side w (w + onePoller)))"

partial_function (option) register :: "waitSide \<Rightarrow> (waitSide \<times> bool) option" where
  "register side = (case registerAttempt side (ws_word side) of None \<Rightarrow> register side | Some r \<Rightarrow> Some r)"

definition wakeOneAttempt :: "waitSide \<Rightarrow> sideWord \<Rightarrow> (waitSide, bool) outcome option" where
  "wakeOneAttempt side w =
     (if \<not> sideWord_needsWake w then Some (Return False side)
      else map_option (\<lambda>side1. then_do (wake_next side1) (\<lambda>_ side2. Return True side2))
             (compareAndSwap side w (w + onePoller - oneParked)))"

partial_function (option) wakeOneLocked :: "waitSide \<Rightarrow> (waitSide, bool) outcome option" where
  "wakeOneLocked side =
     (case wakeOneAttempt side (ws_word side) of None \<Rightarrow> wakeOneLocked side | Some r \<Rightarrow> Some r)"

definition wakeOne :: "waitSide \<Rightarrow> (waitSide, bool) outcome option" where
  "wakeOne side = wakeOneLocked side"

definition wakeCheck :: "waitSide \<Rightarrow> (waitSide, bool) outcome option" where
  "wakeCheck side =
     (let w = ws_word side
      in if sideWord_needsWake w
         then map_option (\<lambda>out. then_do out (\<lambda>_ side'. Return (sideWord_closed w) side')) (wakeOne side)
         else Some (Return (sideWord_closed w) side))"

definition leavePollingAttempt :: "waitSide \<Rightarrow> sideWord \<Rightarrow> (waitSide, sideWord) outcome option" where
  "leavePollingAttempt side w =
     (if sideWord_pollers w = 0
      then Some (Panic (PanicMsg ''workq: leavePolling without a registered poller'') side)
      else map_option (Return (w - onePoller)) (compareAndSwap side w (w - onePoller)))"

partial_function (option) leavePollingWith ::
    "('e \<Rightarrow> waitSide \<Rightarrow> sideWord \<Rightarrow> ('e \<times> waitSide, bool) outcome option) \<Rightarrow> 'e \<Rightarrow> waitSide
      \<Rightarrow> ('e \<times> waitSide, bool) outcome option" where
  "leavePollingWith cleanup e side =
     (case leavePollingAttempt side (ws_word side) of
        None \<Rightarrow> leavePollingWith cleanup e side
      | Some (Panic p side') \<Rightarrow> Some (Panic p (e, side'))
      | Some (Return left side') \<Rightarrow> cleanup e side' left)"

text \<open>The cleanup both \<^verbatim>\<open>leavePolling\<close> and \<^verbatim>\<open>leaveList\<close> pass on.\<close>

definition peek_and_wake ::
    "('e \<Rightarrow> ('e \<times> bool) option) \<Rightarrow> 'e \<Rightarrow> waitSide \<Rightarrow> sideWord \<Rightarrow> ('e \<times> waitSide, bool) outcome option" where
  "peek_and_wake peek e side w =
     (if sideWord_needsWake w
      then (case peek e of
              None \<Rightarrow> None
            | Some (e', visible) \<Rightarrow>
                if visible
                then map_option (\<lambda>out. case out of Return r s \<Rightarrow> Return r (e', s) | Panic p s \<Rightarrow> Panic p (e', s)) (wakeOne side)
                else Some (Return False (e', side)))
      else Some (Return False (e, side)))"

definition leavePolling ::
    "('e \<Rightarrow> ('e \<times> bool) option) \<Rightarrow> 'e \<Rightarrow> waitSide \<Rightarrow> ('e \<times> waitSide, bool) outcome option" where
  "leavePolling peek e side = leavePollingWith (peek_and_wake peek) e side"

definition enlistAttempt :: "waitSide \<Rightarrow> sideWord \<Rightarrow> nat \<Rightarrow> enlistPosition \<Rightarrow> (waitSide, bool) outcome option" where
  "enlistAttempt side w caller position =
     (if sideWord_closed w then Some (Return True side)
      else if sideWord_pollers w = 0
      then Some (Panic (PanicMsg ''workq: enlist without a registered poller'') side)
      else map_option (\<lambda>side1. Return False (enlist_link side1 caller position))
             (compareAndSwap side w (w - onePoller + oneParked)))"

partial_function (option) enlist :: "waitSide \<Rightarrow> nat \<Rightarrow> enlistPosition \<Rightarrow> (waitSide, bool) outcome option" where
  "enlist side caller position =
     (case enlistAttempt side (ws_word side) caller position of
        None \<Rightarrow> enlist side caller position | Some r \<Rightarrow> Some r)"

definition unparkAttempt :: "waitSide \<Rightarrow> sideWord \<Rightarrow> (waitSide, unit) outcome option" where
  "unparkAttempt side w =
     (if sideWord_parked w = 0 then Some (Panic (PanicMsg ''workq: leaveList with no parked waiter'') side)
      else map_option (Return ()) (compareAndSwap side w (w - oneParked)))"

partial_function (option) unpark :: "waitSide \<Rightarrow> (waitSide, unit) outcome option" where
  "unpark side = (case unparkAttempt side (ws_word side) of None \<Rightarrow> unpark side | Some r \<Rightarrow> Some r)"

text \<open>A receive from an empty token channel never returns in a run without other callers.\<close>

definition leaveListWith ::
    "('e \<Rightarrow> waitSide \<Rightarrow> sideWord \<Rightarrow> ('e \<times> waitSide, bool) outcome option) \<Rightarrow> 'e \<Rightarrow> waitSide \<Rightarrow> nat \<Rightarrow> bool
      \<Rightarrow> ('e \<times> waitSide, bool) outcome option" where
  "leaveListWith cleanup e side caller movedItems =
     (if \<not> wt_listed (ws_heap side caller)
      then (if wt_token (ws_heap side caller)
            then leavePollingWith cleanup e (update_waiter side caller (\<lambda>w. w\<lparr>wt_token := False\<rparr>))
            else None)
      else (case unpark (unlink side caller) of
              None \<Rightarrow> None
            | Some (Panic p side') \<Rightarrow> Some (Panic p (e, side'))
            | Some (Return _ side') \<Rightarrow>
                if movedItems then cleanup e side' (ws_word side') else Some (Return False (e, side'))))"

definition leaveList ::
    "('e \<Rightarrow> ('e \<times> bool) option) \<Rightarrow> 'e \<Rightarrow> waitSide \<Rightarrow> nat \<Rightarrow> bool \<Rightarrow> ('e \<times> waitSide, bool) outcome option" where
  "leaveList peek e side caller movedItems = leaveListWith (peek_and_wake peek) e side caller movedItems"

definition setClosedAttempt :: "waitSide \<Rightarrow> sideWord \<Rightarrow> (waitSide \<times> bool) option" where
  "setClosedAttempt side w =
     (if sideWord_closed w then Some (side, False)
      else map_option (\<lambda>side'. (side', True)) (compareAndSwap side w (w OR closedFlag)))"

partial_function (option) setClosedLocked :: "waitSide \<Rightarrow> (waitSide \<times> bool) option" where
  "setClosedLocked side =
     (case setClosedAttempt side (ws_word side) of None \<Rightarrow> setClosedLocked side | Some r \<Rightarrow> Some r)"

primrec wake_each :: "nat \<Rightarrow> waitSide \<Rightarrow> (waitSide, bool) outcome" where
  "wake_each 0 side = Return True side"
| "wake_each (Suc n) side = then_do (wake_next side) (\<lambda>_ side'. wake_each n side')"

definition wakeGroupAttempt :: "waitSide \<Rightarrow> sideWord \<Rightarrow> u32 \<Rightarrow> (waitSide, bool) outcome option" where
  "wakeGroupAttempt side w target =
     (if sideWord_parked w = 0 \<or> sideWord_pollers w \<ge> target then Some (Return False side)
      else if ucast target > countMask
      then Some (Panic (PanicMsg ''workq: consumer wake target exceeds count limit'') side)
      else (let count = min (sideWord_parked w) (target - sideWord_pollers w);
                transfer = ucast count :: sideWord
            in if transfer > countMask - ucast (sideWord_pollers w)
               then Some (Panic (PanicMsg ''workq: consumer wake group exceeds count limit'') side)
               else map_option (wake_each (unat count))
                      (compareAndSwap side w (w + transfer - transfer * oneParked))))"

partial_function (option) wakeGroup :: "waitSide \<Rightarrow> u32 \<Rightarrow> (waitSide, bool) outcome option" where
  "wakeGroup side target =
     (case wakeGroupAttempt side (ws_word side) target of None \<Rightarrow> wakeGroup side target | Some r \<Rightarrow> Some r)"

section \<open>The word as two counts and a flag\<close>

definition side_word :: "nat \<Rightarrow> nat \<Rightarrow> bool \<Rightarrow> sideWord" where
  "side_word P W c = of_nat (P + W * 2 ^ 32 + (if c then 2 ^ 63 else 0))"

lemma unat_side_word:
  assumes "P < 2 ^ 31" "W < 2 ^ 31"
  shows "unat (side_word P W c) = P + W * 2 ^ 32 + (if c then 2 ^ 63 else 0)"
proof -
  have "P + W * 2 ^ 32 + (if c then 2 ^ 63 else 0) < 2 ^ 64" using assms by auto
  then show ?thesis unfolding side_word_def unat_of_nat by (intro mod_less) simp
qed

lemma countMask_mask: "countMask = mask 31"
  by (simp add: countMask_def mask_eq_exp_minus_1)

lemma side_word_pollers [simp]:
  assumes "P < 2 ^ 31" "W < 2 ^ 31"
  shows "sideWord_pollers (side_word P W c) = of_nat P"
proof -
  have "unat (side_word P W c AND countMask) = unat (side_word P W c) mod 2 ^ 31"
    by (simp add: countMask_mask take_bit_eq_mask [symmetric] take_bit_eq_mod unat_mod_distrib)
  also have "\<dots> = (P + 2 ^ 31 * (2 * W + (if c then 2 ^ 32 else 0))) mod 2 ^ 31"
    using unat_side_word [OF assms, of c] by (simp add: algebra_simps)
  also have "\<dots> = P" using assms(1) by (simp only: mod_mult_self2 mod_less)
  finally show ?thesis by (simp add: sideWord_pollers_def word_unat_eq_iff unsigned_ucast_eq take_bit_eq_mod unat_of_nat)
qed

lemma side_word_parked [simp]:
  assumes "P < 2 ^ 31" "W < 2 ^ 31"
  shows "sideWord_parked (side_word P W c) = of_nat W"
proof -
  have "unat (side_word P W c) div 2 ^ 32 = (P + 2 ^ 32 * (W + 2 ^ 31 * of_bool c)) div 2 ^ 32"
    using unat_side_word [OF assms, of c] by (simp add: algebra_simps)
  also have "\<dots> = W + 2 ^ 31 * of_bool c" using assms(1) by (subst div_mult_self2) simp_all
  finally have "unat (side_word P W c) div 2 ^ 32 mod 2 ^ 31 = W"
    using assms(2) by (simp only: mod_mult_self2 mod_less)
  then have "unat (drop_bit 32 (side_word P W c) AND countMask) = W"
    by (simp add: countMask_mask take_bit_eq_mask [symmetric] take_bit_eq_mod drop_bit_eq_div unat_mod_distrib unat_div_distrib)
  then show ?thesis by (simp add: sideWord_parked_def word_unat_eq_iff unsigned_ucast_eq take_bit_eq_mod unat_of_nat)
qed

lemma side_word_closed [simp]:
  assumes "P < 2 ^ 31" "W < 2 ^ 31"
  shows "sideWord_closed (side_word P W c) \<longleftrightarrow> c"
proof -
  have "sideWord_closed w \<longleftrightarrow> bit w 63" for w
    unfolding sideWord_closed_def closedFlag_def push_bit_of_1 by (simp only: and_exp_eq_0_iff_not_bit not_not)
  moreover have "bit (side_word P W c) 63 \<longleftrightarrow> bit (unat (side_word P W c)) 63" by (simp add: bit_unsigned_iff)
  moreover have "unat (side_word P W c) = (P + W * 2 ^ 32) + 2 ^ 63 * of_bool c"
    using unat_side_word [OF assms, of c] by simp
  moreover have "((P + W * 2 ^ 32) + 2 ^ 63 * of_bool c) div 2 ^ 63 = of_bool c"
    using assms by (subst div_mult_self2) simp_all
  ultimately show ?thesis unfolding bit_iff_odd by simp
qed

lemma side_word_needsWake [simp]:
  assumes "P < 2 ^ 31" "W < 2 ^ 31"
  shows "sideWord_needsWake (side_word P W c) \<longleftrightarrow> P = 0 \<and> 0 < W"
  using assms by (auto simp: sideWord_needsWake_def word_unat_eq_iff unat_of_nat word_less_nat_alt)

lemma count_zero [simp]: "n < 2 ^ 31 \<Longrightarrow> (of_nat n :: u32) = 0 \<longleftrightarrow> n = 0"
  by (simp add: word_unat_eq_iff unat_of_nat)

lemma side_word_poller: "side_word P W c + onePoller = side_word (Suc P) W c"
  by (simp add: side_word_def onePoller_def)

lemma side_word_release: "side_word (Suc P) W c - onePoller = side_word P W c"
  by (simp add: side_word_def onePoller_def)

lemma side_word_park: "side_word (Suc P) W c - onePoller + oneParked = side_word P (Suc W) c"
  by (simp add: side_word_def onePoller_def oneParked_def push_bit_eq_mult algebra_simps)

lemma side_word_unpark: "side_word P (Suc W) c - oneParked = side_word P W c"
  by (simp add: side_word_def oneParked_def push_bit_eq_mult algebra_simps)

lemma side_word_wake: "side_word P (Suc W) c + onePoller - oneParked = side_word (Suc P) W c"
  by (simp add: side_word_def onePoller_def oneParked_def push_bit_eq_mult algebra_simps)

lemma side_word_group:
  "n \<le> W \<Longrightarrow> side_word P W c + of_nat n - of_nat n * oneParked = side_word (P + n) (W - n) c"
  by (auto simp: side_word_def oneParked_def push_bit_eq_mult algebra_simps of_nat_diff)

lemma side_word_close:
  assumes "P < 2 ^ 31" "W < 2 ^ 31"
  shows "side_word P W False OR closedFlag = side_word P W True"
proof -
  have "side_word P W False AND closedFlag = 0"
    using side_word_closed [OF assms, of False] by (simp add: sideWord_closed_def)
  then have "side_word P W False OR closedFlag = side_word P W False + closedFlag"
    using word_plus_and_or [of "side_word P W False" closedFlag] by simp
  then show ?thesis by (simp add: side_word_def closedFlag_def push_bit_eq_mult algebra_simps)
qed

section \<open>The linked list as a list\<close>

text \<open>
  \<open>linked h p a xs b n\<close>: from \<open>a\<close> to \<open>b\<close> the heap links exactly the waiters \<open>xs\<close>, with \<open>p\<close> before
  the first and \<open>n\<close> after the last.
\<close>

primrec linked :: "(nat \<Rightarrow> waiter) \<Rightarrow> ptr \<Rightarrow> ptr \<Rightarrow> nat list \<Rightarrow> ptr \<Rightarrow> ptr \<Rightarrow> bool" where
  "linked h p a [] b n \<longleftrightarrow> a = n \<and> b = p"
| "linked h p a (x # xs) b n \<longleftrightarrow> a = Some x \<and> wt_prev (h x) = p \<and> linked h (Some x) (wt_next (h x)) xs b n"

definition wait_list :: "waitSide \<Rightarrow> nat list \<Rightarrow> bool" where
  "wait_list side xs \<longleftrightarrow>
     linked (ws_heap side) None (ws_oldest side) xs (ws_newest side) None
     \<and> distinct xs \<and> (\<forall>c. wt_listed (ws_heap side c) \<longleftrightarrow> c \<in> set xs)"

lemma linked_append:
  "linked h p a (xs @ ys) b n \<longleftrightarrow> (\<exists>m k. linked h p a xs m k \<and> linked h m k ys b n)"
  by (induction xs arbitrary: p a) auto

lemma linked_cong:
  "(\<And>x. x \<in> set xs \<Longrightarrow> wt_prev (h x) = wt_prev (h' x) \<and> wt_next (h x) = wt_next (h' x))
    \<Longrightarrow> linked h p a xs b n \<longleftrightarrow> linked h' p a xs b n"
  by (induction xs arbitrary: p a) auto

lemma linked_ends:
  assumes "linked h p a xs b n" "xs \<noteq> []"
  shows "a = Some (hd xs)" "b = Some (last xs)" "wt_prev (h (hd xs)) = p" "wt_next (h (last xs)) = n"
proof -
  show "a = Some (hd xs)" "wt_prev (h (hd xs)) = p" using assms by (cases xs; simp)+
  obtain ys y where xs: "xs = ys @ [y]" using assms(2) by (cases xs rule: rev_cases) auto
  then show "b = Some (last xs)" "wt_next (h (last xs)) = n" using assms(1) by (auto simp: linked_append)
qed

lemma linked_before:
  assumes "linked h p a xs b k" "xs \<noteq> []" "distinct xs"
  shows "linked (h(last xs := (h (last xs))\<lparr>wt_next := k'\<rparr>)) p a xs b k'"
proof -
  obtain ys y where xs: "xs = ys @ [y]" using assms(2) by (cases xs rule: rev_cases) auto
  with assms(1) have b: "b = Some y" and "linked h p a ys (wt_prev (h y)) (Some y)" by (auto simp: linked_append)
  then have "linked (h(y := (h y)\<lparr>wt_next := k'\<rparr>)) p a ys (wt_prev (h y)) (Some y)"
    using assms(3) by (subst linked_cong [of _ _ h]) (auto simp: xs)
  then show ?thesis by (auto simp: xs b linked_append)
qed

lemma linked_after:
  assumes "linked h p a xs b k" "xs \<noteq> []" "distinct xs"
  shows "linked (h(hd xs := (h (hd xs))\<lparr>wt_prev := p'\<rparr>)) p' a xs b k"
proof (cases xs)
  case (Cons x ys)
  then have "linked (h(x := (h x)\<lparr>wt_prev := p'\<rparr>)) (Some x) (wt_next (h x)) ys b k"
    using assms by (subst linked_cong [of _ _ h]) auto
  with Cons assms show ?thesis by simp
qed (use assms in simp)

lemma heap_update_waiter [simp]: "ws_heap (update_waiter side c f) = (ws_heap side)(c := f (ws_heap side c))"
  and word_update_waiter [simp]: "ws_word (update_waiter side c f) = ws_word side"
  and pool_update_waiter [simp]: "ws_pool (update_waiter side c f) = ws_pool side"
  and fresh_update_waiter [simp]: "ws_fresh (update_waiter side c f) = ws_fresh side"
  and ends_update_waiter [simp]: "ws_oldest (update_waiter side c f) = ws_oldest side"
    "ws_newest (update_waiter side c f) = ws_newest side"
  by (simp_all add: update_waiter_def)

lemma wait_list_token [simp]: "wait_list (update_waiter side c (wt_token_update f)) xs \<longleftrightarrow> wait_list side xs"
  using linked_cong [of xs "ws_heap (update_waiter side c (wt_token_update f))" "ws_heap side"] by (auto simp: wait_list_def)

lemma wait_list_word [simp]: "wait_list (side\<lparr>ws_word := w\<rparr>) xs \<longleftrightarrow> wait_list side xs"
  by (simp add: wait_list_def)

lemma unlink_frame [simp]:
  "ws_word (unlink side c) = ws_word side" "ws_pool (unlink side c) = ws_pool side"
  "ws_fresh (unlink side c) = ws_fresh side" "wt_token (ws_heap (unlink side c) d) = wt_token (ws_heap side d)"
  by (auto simp: unlink_def Let_def split: option.split)

lemma unlink_caller:
  "ws_heap (unlink side c) c = zero_waiter\<lparr>wt_token := wt_token (ws_heap side c)\<rparr>"
  by (auto simp: unlink_def Let_def zero_waiter_def split: option.split)

lemma linked_same:
  assumes "linked h p a xs b n" "\<And>d. d \<in> set xs \<Longrightarrow> h' d = h d"
  shows "linked h' p a xs b n"
  using assms linked_cong [of xs h' h] by simp

text \<open>The heap after \<^verbatim>\<open>unlink\<close>, in terms of the neighbours of the caller.\<close>

lemma unlink_heap:
  assumes "wt_prev (ws_heap side c) \<noteq> Some c" "wt_next (ws_heap side c) \<noteq> Some c"
    and "wt_prev (ws_heap side c) = None \<or> wt_prev (ws_heap side c) \<noteq> wt_next (ws_heap side c)"
  shows "ws_heap (unlink side c) d =
    (if d = c then zero_waiter\<lparr>wt_token := wt_token (ws_heap side c)\<rparr>
     else if wt_prev (ws_heap side c) = Some d then (ws_heap side d)\<lparr>wt_next := wt_next (ws_heap side c)\<rparr>
     else if wt_next (ws_heap side c) = Some d then (ws_heap side d)\<lparr>wt_prev := wt_prev (ws_heap side c)\<rparr>
     else ws_heap side d)"
    "ws_oldest (unlink side c) = (if wt_prev (ws_heap side c) = None then wt_next (ws_heap side c) else ws_oldest side)"
    "ws_newest (unlink side c) = (if wt_next (ws_heap side c) = None then wt_prev (ws_heap side c) else ws_newest side)"
  using assms by (auto simp: unlink_def Let_def zero_waiter_def split: option.split)

lemma unlink_spec:
  assumes "wait_list side (ys @ c # zs)"
  shows "wait_list (unlink side c) (ys @ zs)" (is ?list)
    and "\<forall>d. d \<notin> set (ys @ c # zs) \<longrightarrow> ws_heap (unlink side c) d = ws_heap side d" (is ?frame)
proof -
  let ?h = "ws_heap side" and ?h' = "ws_heap (unlink side c)"
  have l: "linked ?h None (ws_oldest side) (ys @ c # zs) (ws_newest side) None" and dist: "distinct (ys @ c # zs)"
    and listed: "\<And>d. wt_listed (?h d) \<longleftrightarrow> d \<in> set (ys @ c # zs)"
    using assms by (auto simp: wait_list_def)
  obtain y_l: "linked ?h None (ws_oldest side) ys (wt_prev (?h c)) (Some c)"
    and z_l: "linked ?h (Some c) (wt_next (?h c)) zs (ws_newest side) None"
    using l by (auto simp: linked_append)
  have prev: "wt_prev (?h c) = (if ys = [] then None else Some (last ys))"
    and nxt: "wt_next (?h c) = (if zs = [] then None else Some (hd zs))"
    using y_l z_l linked_ends(2) [OF y_l] linked_ends(1) [OF z_l] by auto
  have ne: "ys \<noteq> [] \<Longrightarrow> last ys \<in> set ys" "zs \<noteq> [] \<Longrightarrow> hd zs \<in> set zs" by simp_all
  have "set ys \<inter> set zs = {}" using dist by auto
  with ne have apart: "ys \<noteq> [] \<Longrightarrow> last ys \<notin> set zs" "zs \<noteq> [] \<Longrightarrow> hd zs \<notin> set ys" by blast+
  have sep: "wt_prev (?h c) \<noteq> Some c" "wt_next (?h c) \<noteq> Some c"
    "wt_prev (?h c) = None \<or> wt_prev (?h c) \<noteq> wt_next (?h c)"
    using dist prev nxt ne apart by (auto split: if_splits)
  note heap = unlink_heap(1) [OF sep] and ends = unlink_heap(2,3) [OF sep]
  show ?frame using heap prev nxt ne by (auto split: if_splits)
  have 1: "linked ?h' None (ws_oldest (unlink side c)) ys (wt_prev (?h c)) (wt_next (?h c))"
  proof (cases "ys = []")
    case False
    then have "linked (?h(last ys := (?h (last ys))\<lparr>wt_next := wt_next (?h c)\<rparr>)) None (ws_oldest side) ys (wt_prev (?h c)) (wt_next (?h c))"
      using linked_before [OF y_l False] dist by simp
    then have "linked ?h' None (ws_oldest side) ys (wt_prev (?h c)) (wt_next (?h c))"
      using False dist prev nxt ne apart by (elim linked_same) (auto simp: heap split: if_splits)
    then show ?thesis using False prev by (simp add: ends)
  qed (use prev ends in simp)
  have 2: "linked ?h' (wt_prev (?h c)) (wt_next (?h c)) zs (ws_newest (unlink side c)) None"
  proof (cases "zs = []")
    case False
    then have "linked (?h(hd zs := (?h (hd zs))\<lparr>wt_prev := wt_prev (?h c)\<rparr>)) (wt_prev (?h c)) (wt_next (?h c)) zs (ws_newest side) None"
      using linked_after [OF z_l False] dist by simp
    then have "linked ?h' (wt_prev (?h c)) (wt_next (?h c)) zs (ws_newest side) None"
      using False dist prev nxt ne apart by (elim linked_same) (auto simp: heap split: if_splits)
    then show ?thesis using False nxt by (simp add: ends)
  qed (use nxt ends in simp)
  have "wt_listed (?h' d) \<longleftrightarrow> d \<in> set (ys @ zs)" for d
    using heap [of d] listed [of d] dist by (auto simp: zero_waiter_def split: if_splits)
  with 1 2 dist show ?list by (auto simp: wait_list_def linked_append)
qed

lemma enlist_link_frame [simp]:
  "ws_word (enlist_link side c pos) = ws_word side" "ws_pool (enlist_link side c pos) = ws_pool side"
  "ws_fresh (enlist_link side c pos) = ws_fresh side"
  "wt_token (ws_heap (enlist_link side c pos) d) = wt_token (ws_heap side d)"
  by (auto simp: enlist_link_def Let_def split: option.split enlistPosition.split)

definition enlisted :: "enlistPosition \<Rightarrow> 'a \<Rightarrow> 'a list \<Rightarrow> 'a list" where
  "enlisted pos c xs = (case pos of atNewest \<Rightarrow> xs @ [c] | atOldest \<Rightarrow> c # xs)"

lemma set_enlisted [simp]: "set (enlisted pos c xs) = insert c (set xs)"
  and length_enlisted [simp]: "length (enlisted pos c xs) = Suc (length xs)"
  and distinct_enlisted [simp]: "distinct (enlisted pos c xs) \<longleftrightarrow> c \<notin> set xs \<and> distinct xs"
  by (auto simp: enlisted_def split: enlistPosition.split)

lemma enlist_link_spec:
  assumes "wait_list side xs" "wt_prev (ws_heap side c) = None" "wt_next (ws_heap side c) = None" "c \<notin> set xs"
  shows "wait_list (enlist_link side c pos) (enlisted pos c xs)" (is ?list)
    and "\<forall>d. d \<notin> set (enlisted pos c xs) \<longrightarrow> ws_heap (enlist_link side c pos) d = ws_heap side d" (is ?frame)
proof -
  let ?h = "ws_heap side" and ?h' = "ws_heap (enlist_link side c pos)"
  have l: "linked ?h None (ws_oldest side) xs (ws_newest side) None" and dist: "distinct xs"
    and listed: "\<And>d. wt_listed (?h d) \<longleftrightarrow> d \<in> set xs"
    using assms(1) by (auto simp: wait_list_def)
  have ends: "ws_oldest side = (if xs = [] then None else Some (hd xs))"
    "ws_newest side = (if xs = [] then None else Some (last xs))"
    using l linked_ends(1,2) [OF l] by auto
  have in_xs: "xs \<noteq> [] \<Longrightarrow> hd xs \<in> set xs" "xs \<noteq> [] \<Longrightarrow> last xs \<in> set xs" by simp_all
  then have ne: "xs \<noteq> [] \<Longrightarrow> hd xs \<noteq> c" "xs \<noteq> [] \<Longrightarrow> last xs \<noteq> c" using assms(4) by auto
  show ?frame using ends in_xs ne by (auto simp: enlist_link_def Let_def split: option.split enlistPosition.split)
  have list: "wt_listed (?h' d) \<longleftrightarrow> d \<in> set (enlisted pos c xs)" for d
    using listed [of d] by (auto simp: enlist_link_def Let_def split: option.split enlistPosition.split)
  have "linked ?h' None (ws_oldest (enlist_link side c pos)) (enlisted pos c xs) (ws_newest (enlist_link side c pos)) None"
  proof (cases "xs = []")
    case True
    then show ?thesis using assms(2,3) ends
      by (simp add: enlist_link_def Let_def enlisted_def split: enlistPosition.split)
  next
    case False
    show ?thesis
    proof (cases pos)
      case atNewest
      have "linked ?h' None (ws_oldest side) xs (ws_newest side) (Some c)"
        using linked_before [OF l False dist, of "Some c"] False ends ne assms(4)
        by (elim linked_same) (auto simp: enlist_link_def Let_def atNewest)
      then show ?thesis using False ends ne assms(3)
        by (auto simp: enlist_link_def Let_def atNewest enlisted_def linked_append)
    next
      case atOldest
      have "linked ?h' (Some c) (ws_oldest side) xs (ws_newest side) None"
        using linked_after [OF l False dist, of "Some c"] False ends ne assms(4)
        by (elim linked_same) (auto simp: enlist_link_def Let_def atOldest)
      then show ?thesis using False ends ne assms(2)
        by (auto simp: enlist_link_def Let_def atOldest enlisted_def)
    qed
  qed
  with dist list assms(4) show ?list by (auto simp: wait_list_def)
qed

section \<open>Waking\<close>

lemma wake_next_spec:
  assumes "wait_list side (c # xs)" "\<not> wt_token (ws_heap side c)"
  shows "\<exists>side'. wake_next side = Return () side' \<and> wait_list side' xs
    \<and> ws_word side' = ws_word side \<and> ws_pool side' = ws_pool side \<and> ws_fresh side' = ws_fresh side
    \<and> ws_heap side' c = zero_waiter\<lparr>wt_token := True\<rparr>
    \<and> (\<forall>d. d \<noteq> c \<longrightarrow> wt_token (ws_heap side' d) = wt_token (ws_heap side d))
    \<and> (\<forall>d. d \<notin> set (c # xs) \<longrightarrow> ws_heap side' d = ws_heap side d)"
proof -
  let ?side = "update_waiter (unlink side c) c (\<lambda>w. w\<lparr>wt_token := True\<rparr>)"
  have old: "ws_oldest side = Some c" using assms(1) by (simp add: wait_list_def)
  have u: "wait_list (unlink side c) xs" "\<forall>d. d \<notin> set (c # xs) \<longrightarrow> ws_heap (unlink side c) d = ws_heap side d"
    using unlink_spec [of side "[]" c xs] assms(1) by simp_all
  have "wait_list ?side xs" using u(1) by simp
  moreover have "wake_next side = Return () ?side"
    using old assms(2) by (simp add: wake_next_def removeForWake_def send_token_def)
  ultimately show ?thesis using u(2) by (simp add: unlink_caller)
qed

lemma wake_each_spec:
  assumes "wait_list side xs" "n \<le> length xs" "\<forall>c\<in>set xs. \<not> wt_token (ws_heap side c)"
  shows "\<exists>side'. wake_each n side = Return True side' \<and> wait_list side' (drop n xs)
    \<and> ws_word side' = ws_word side \<and> ws_pool side' = ws_pool side \<and> ws_fresh side' = ws_fresh side
    \<and> (\<forall>c\<in>set (take n xs). ws_heap side' c = zero_waiter\<lparr>wt_token := True\<rparr>)
    \<and> (\<forall>d. d \<notin> set (take n xs) \<longrightarrow> wt_token (ws_heap side' d) = wt_token (ws_heap side d))
    \<and> (\<forall>d. d \<notin> set xs \<longrightarrow> ws_heap side' d = ws_heap side d)"
  using assms
proof (induction n arbitrary: side xs)
  case (Suc n)
  then obtain c ys where xs: "xs = c # ys" by (cases xs) auto
  have c: "c \<notin> set ys" using Suc.prems(1) by (simp add: xs wait_list_def)
  obtain side1 where s1: "wake_next side = Return () side1" "wait_list side1 ys" "ws_word side1 = ws_word side"
      "ws_pool side1 = ws_pool side" "ws_fresh side1 = ws_fresh side" "ws_heap side1 c = zero_waiter\<lparr>wt_token := True\<rparr>"
      "\<forall>d. d \<noteq> c \<longrightarrow> wt_token (ws_heap side1 d) = wt_token (ws_heap side d)"
      "\<forall>d. d \<notin> set (c # ys) \<longrightarrow> ws_heap side1 d = ws_heap side d"
    using wake_next_spec [of side c ys] Suc.prems(1,3) unfolding xs by auto
  have "\<forall>d\<in>set ys. \<not> wt_token (ws_heap side1 d)" using s1(7) Suc.prems(3) c by (auto simp: xs)
  then obtain side2 where s2: "wake_each n side1 = Return True side2" "wait_list side2 (drop n ys)"
      "ws_word side2 = ws_word side1" "ws_pool side2 = ws_pool side1" "ws_fresh side2 = ws_fresh side1"
      "\<forall>c\<in>set (take n ys). ws_heap side2 c = zero_waiter\<lparr>wt_token := True\<rparr>"
      "\<forall>d. d \<notin> set (take n ys) \<longrightarrow> wt_token (ws_heap side2 d) = wt_token (ws_heap side1 d)"
      "\<forall>d. d \<notin> set ys \<longrightarrow> ws_heap side2 d = ws_heap side1 d"
    using Suc.IH [OF s1(2)] Suc.prems(2) by (auto simp: xs)
  have "\<forall>d. d \<notin> set (take (Suc n) xs) \<longrightarrow> wt_token (ws_heap side2 d) = wt_token (ws_heap side d)"
    using s1(7) s2(7) by (simp add: xs)
  then show ?case
    using s1(1,3-6,8) s2(1-6,8) c by (intro exI [of _ side2]) (auto simp: xs)
qed (simp add: exI)

text \<open>The zero waiter is the state a waiter must have for reuse: unlisted, no links, no token.\<close>

definition clean :: "waitSide \<Rightarrow> nat \<Rightarrow> bool" where
  "clean side c \<longleftrightarrow> ws_heap side c = zero_waiter"

section \<open>Each operation on a consistent side\<close>

text \<open>
  \<open>side_state side P xs c\<close>: \<open>P\<close> pollers, the waiters \<open>xs\<close> parked from oldest to newest and without
  tokens, and \<open>c\<close> when closed. The counts stay below the \<open>2^31\<close> that each field of the word holds.
\<close>

definition side_state :: "waitSide \<Rightarrow> nat \<Rightarrow> nat list \<Rightarrow> bool \<Rightarrow> bool" where
  "side_state side P xs c \<longleftrightarrow>
     ws_word side = side_word P (length xs) c \<and> P < 2 ^ 31 \<and> length xs < 2 ^ 31 \<and> wait_list side xs
     \<and> (\<forall>x\<in>set xs. \<not> wt_token (ws_heap side x))"

lemma side_state_word:
  "side_state side P xs c \<Longrightarrow> Q < 2 ^ 31 \<Longrightarrow> side_state (side\<lparr>ws_word := side_word Q (length xs) d\<rparr>) Q xs d"
  by (simp add: side_state_def)

lemma register_ok:
  assumes "side_state side P xs c" "P + 1 < 2 ^ 31"
  shows "register side = Some (if c then (side, True) else (side\<lparr>ws_word := side_word (P + 1) (length xs) c\<rparr>, False))"
  using assms by (subst register.simps) (simp add: side_state_def registerAttempt_def compareAndSwap_def side_word_poller)

lemma setClosedLocked_ok:
  assumes "side_state side P xs c"
  shows "setClosedLocked side = Some (if c then (side, False) else (side\<lparr>ws_word := side_word P (length xs) True\<rparr>, True))"
  using assms by (subst setClosedLocked.simps) (simp add: side_state_def setClosedAttempt_def compareAndSwap_def side_word_close)

lemma enlist_ok:
  assumes "side_state side P xs c" "0 < P" "clean side w" "length xs + 1 < 2 ^ 31"
  shows "\<exists>side'. enlist side w pos = Some (Return c side')
    \<and> (if c then side' = side
       else side_state side' (P - 1) (enlisted pos w xs) c \<and> (\<forall>d. d \<notin> set (enlisted pos w xs) \<longrightarrow> ws_heap side' d = ws_heap side d))"
proof (cases c)
  case True
  with assms show ?thesis by (subst enlist.simps) (simp add: side_state_def enlistAttempt_def)
next
  case False
  obtain Q where P: "P = Suc Q" using assms(2) by (cases P) auto
  let ?side = "side\<lparr>ws_word := side_word Q (Suc (length xs)) c\<rparr>"
  have "\<not> wt_listed (ws_heap side w)" using assms(3) by (simp add: clean_def zero_waiter_def)
  then have w: "w \<notin> set xs" using assms(1) by (simp add: side_state_def wait_list_def)
  have "wait_list (enlist_link ?side w pos) (enlisted pos w xs)"
    using assms(1,3) w by (intro enlist_link_spec(1)) (auto simp: side_state_def clean_def zero_waiter_def)
  then have "side_state (enlist_link ?side w pos) Q (enlisted pos w xs) c"
    using assms by (auto simp: side_state_def P clean_def zero_waiter_def)
  moreover have "enlist side w pos = Some (Return False (enlist_link ?side w pos))"
    using assms(1,4) False by (subst enlist.simps)
      (simp add: side_state_def enlistAttempt_def compareAndSwap_def side_word_park P del: of_nat_Suc)
  moreover have "\<forall>d. d \<notin> set (enlisted pos w xs) \<longrightarrow> ws_heap (enlist_link ?side w pos) d = ws_heap ?side d"
    using assms(1,3) w by (intro enlist_link_spec(2)) (auto simp: side_state_def clean_def zero_waiter_def)
  ultimately show ?thesis using False P by simp
qed

text \<open>A wake hands the registration and one token to the oldest waiters, and only to them.\<close>

lemma wakeOne_ok:
  assumes "side_state side P xs c"
  shows "\<exists>side'. wakeOne side = Some (Return (P = 0 \<and> xs \<noteq> []) side')
    \<and> (if P = 0 \<and> xs \<noteq> []
       then side_state side' 1 (tl xs) c \<and> ws_heap side' (hd xs) = zero_waiter\<lparr>wt_token := True\<rparr>
         \<and> (\<forall>d. d \<notin> set xs \<longrightarrow> ws_heap side' d = ws_heap side d)
         \<and> ws_pool side' = ws_pool side \<and> ws_fresh side' = ws_fresh side
       else side' = side)"
proof (cases "P = 0 \<and> xs \<noteq> []")
  case False
  with assms show ?thesis
    unfolding wakeOne_def by (subst wakeOneLocked.simps) (auto simp: side_state_def wakeOneAttempt_def)
next
  case True
  then obtain y ys where xs: "xs = y # ys" by (cases xs) auto
  let ?side = "side\<lparr>ws_word := side_word 1 (length ys) c\<rparr>"
  obtain side' where s': "wake_next ?side = Return () side'" "wait_list side' ys" "ws_word side' = ws_word ?side"
      "ws_pool side' = ws_pool ?side" "ws_fresh side' = ws_fresh ?side" "ws_heap side' y = zero_waiter\<lparr>wt_token := True\<rparr>"
      "\<forall>d. d \<noteq> y \<longrightarrow> wt_token (ws_heap side' d) = wt_token (ws_heap ?side d)"
      "\<forall>d. d \<notin> set (y # ys) \<longrightarrow> ws_heap side' d = ws_heap ?side d"
    using wake_next_spec [of ?side y ys] assms by (auto simp: side_state_def xs)
  have y: "y \<notin> set ys" using assms by (auto simp: side_state_def wait_list_def xs)
  have "side_state side' 1 ys c" using s' assms y by (auto simp: side_state_def xs)
  moreover have "wakeOne side = Some (Return True side')"
    using assms True s'(1) side_word_wake [of 0 "length ys" c] unfolding wakeOne_def
    by (subst wakeOneLocked.simps) (simp add: side_state_def wakeOneAttempt_def compareAndSwap_def xs)
  ultimately show ?thesis using True s' by (simp add: xs)
qed

lemma wakeCheck_ok:
  assumes "side_state side P xs c"
  shows "\<exists>side'. wakeCheck side = Some (Return c side') \<and> wakeOne side = Some (Return (P = 0 \<and> xs \<noteq> []) side')"
proof -
  have "sideWord_needsWake (ws_word side) \<longleftrightarrow> P = 0 \<and> xs \<noteq> []" "sideWord_closed (ws_word side) \<longleftrightarrow> c"
    using assms by (auto simp: side_state_def)
  with wakeOne_ok [OF assms] show ?thesis by (auto simp: wakeCheck_def Let_def)
qed

text \<open>The limit checks of a group wake never fail for a target that fits the count.\<close>

lemma group_limits:
  fixes target :: u32 and w :: sideWord
  assumes "unat target < 2 ^ 31" "\<not> sideWord_pollers w \<ge> target"
  shows "\<not> ucast target > countMask"
    and "\<not> ucast (min (sideWord_parked w) (target - sideWord_pollers w)) > countMask - ucast (sideWord_pollers w)"
proof -
  have mask: "unat countMask = 2 ^ 31 - 1" by (simp add: countMask_def)
  have lt: "unat (sideWord_pollers w) < unat target" using assms(2) by (simp add: word_le_nat_alt)
  then have sub: "unat (target - sideWord_pollers w) = unat target - unat (sideWord_pollers w)"
    by (simp add: unat_sub word_le_nat_alt)
  have "unat (min (sideWord_parked w) (target - sideWord_pollers w)) \<le> unat (target - sideWord_pollers w)"
    by (simp add: min_def word_le_nat_alt)
  moreover have "unat (countMask - ucast (sideWord_pollers w)) = 2 ^ 31 - 1 - unat (sideWord_pollers w)"
    using assms(1) lt mask by (simp add: unat_sub word_le_nat_alt)
  ultimately show "\<not> ucast (min (sideWord_parked w) (target - sideWord_pollers w)) > countMask - ucast (sideWord_pollers w)"
    using assms(1) lt sub by (simp add: word_less_nat_alt)
  show "\<not> ucast target > countMask" using assms(1) mask by (simp add: word_less_nat_alt)
qed

lemma wakeGroup_ok:
  fixes target :: u32
  assumes "side_state side P xs c" "unat target < 2 ^ 31"
  defines "n \<equiv> min (length xs) (unat target - P)"
  shows "\<exists>side'. wakeGroup side target = Some (Return (0 < n) side')
    \<and> (if 0 < n
       then side_state side' (P + n) (drop n xs) c
         \<and> (\<forall>w\<in>set (take n xs). ws_heap side' w = zero_waiter\<lparr>wt_token := True\<rparr>)
         \<and> (\<forall>d. d \<notin> set xs \<longrightarrow> ws_heap side' d = ws_heap side d)
         \<and> ws_pool side' = ws_pool side \<and> ws_fresh side' = ws_fresh side
       else side' = side)"
proof -
  let ?w = "ws_word side"
  have st: "P < 2 ^ 31" "length xs < 2 ^ 31" "wait_list side xs" "\<forall>x\<in>set xs. \<not> wt_token (ws_heap side x)"
    "?w = side_word P (length xs) c" using assms(1) by (auto simp: side_state_def)
  then have pk: "sideWord_parked ?w = of_nat (length xs)" "sideWord_pollers ?w = of_nat P" by simp_all
  have u: "unat (of_nat (length xs) :: u32) = length xs" "unat (of_nat P :: u32) = P" using st by (simp_all add: unat_of_nat)
  have stop: "sideWord_parked ?w = 0 \<or> sideWord_pollers ?w \<ge> target \<longleftrightarrow> n = 0"
    using u st(2) by (auto simp: pk n_def min_def word_le_nat_alt split: if_splits)
  show ?thesis
  proof (cases "n = 0")
    case True
    with stop show ?thesis by (subst wakeGroup.simps) (simp add: wakeGroupAttempt_def)
  next
    case False
    have lt: "P < unat target" using False by (auto simp: n_def)
    let ?count = "min (sideWord_parked ?w) (target - sideWord_pollers ?w)"
    have sub: "unat (target - of_nat P) = unat target - P" using lt u by (simp add: unat_sub word_le_nat_alt)
    have count: "unat ?count = n" using u sub by (auto simp: pk n_def min_def word_le_nat_alt)
    then have tr: "(ucast ?count :: sideWord) = of_nat n" using assms(2)
      by (intro word_unat_eq_iff [THEN iffD2]) (simp add: unsigned_ucast_eq take_bit_eq_mod unat_of_nat n_def)
    have n64: "n \<le> unat target - P" by (simp add: n_def)
    have "\<not> sideWord_pollers ?w \<ge> target" using stop False by simp
    note ok = group_limits [OF assms(2) this, unfolded tr]
    let ?side = "side\<lparr>ws_word := side_word (P + n) (length xs - n) c\<rparr>"
    obtain side' where s': "wake_each n ?side = Return True side'" "wait_list side' (drop n xs)"
        "ws_word side' = ws_word ?side" "ws_pool side' = ws_pool ?side" "ws_fresh side' = ws_fresh ?side"
        "\<forall>w\<in>set (take n xs). ws_heap side' w = zero_waiter\<lparr>wt_token := True\<rparr>"
        "\<forall>d. d \<notin> set (take n xs) \<longrightarrow> wt_token (ws_heap side' d) = wt_token (ws_heap ?side d)"
        "\<forall>d. d \<notin> set xs \<longrightarrow> ws_heap side' d = ws_heap ?side d"
      using wake_each_spec [of ?side xs n] st n_def by auto
    have "set (take n xs) \<inter> set (drop n xs) = {}"
      using st(3) by (simp add: wait_list_def set_take_disj_set_drop_if_distinct)
    then have "\<forall>x\<in>set (drop n xs). \<not> wt_token (ws_heap side' x)"
      using s'(7) st(4) by (auto dest: in_set_dropD)
    then have "side_state side' (P + n) (drop n xs) c"
      using s'(2,3) assms(2) lt st(2) n64 by (auto simp: side_state_def)
    moreover have "?w + of_nat n - of_nat n * oneParked = side_word (P + n) (length xs - n) c"
      using side_word_group [of n "length xs" P c] by (simp add: st(5) n_def)
    then have "wakeGroupAttempt side ?w target = Some (Return True side')"
      unfolding wakeGroupAttempt_def Let_def if_not_P [OF False [folded stop]] if_not_P [OF ok(1)] tr if_not_P [OF ok(2)]
        count compareAndSwap_def using s'(1) by simp
    then have "wakeGroup side target = Some (Return True side')" by (subst wakeGroup.simps) simp
    ultimately show ?thesis using False s'(4,5,6,8) by simp
  qed
qed

lemma leavePollingWith_ok:
  assumes "side_state side P xs c" "0 < P"
  defines "left \<equiv> side_word (P - 1) (length xs) c"
  shows "leavePollingWith cleanup e side = cleanup e (side\<lparr>ws_word := left\<rparr>) left"
    and "side_state (side\<lparr>ws_word := left\<rparr>) (P - 1) xs c"
proof -
  obtain Q where P: "P = Suc Q" using assms(2) by (cases P) auto
  show "leavePollingWith cleanup e side = cleanup e (side\<lparr>ws_word := left\<rparr>) left"
    using assms by (subst leavePollingWith.simps)
      (simp add: side_state_def leavePollingAttempt_def compareAndSwap_def side_word_release P del: of_nat_Suc)
  show "side_state (side\<lparr>ws_word := left\<rparr>) (P - 1) xs c" using assms by (auto simp: side_state_def)
qed

lemma unpark_unlink_ok:
  assumes "side_state side P (ys @ w # zs) c"
  shows "\<exists>side'. unpark (unlink side w) = Some (Return () side') \<and> side_state side' P (ys @ zs) c \<and> clean side' w
    \<and> (\<forall>d. d \<notin> set (ys @ w # zs) \<longrightarrow> ws_heap side' d = ws_heap side d)"
proof -
  let ?side = "(unlink side w)\<lparr>ws_word := side_word P (length (ys @ zs)) c\<rparr>"
  have st: "wait_list side (ys @ w # zs)" "\<forall>x\<in>set (ys @ w # zs). \<not> wt_token (ws_heap side x)"
    using assms by (simp_all add: side_state_def)
  have "unpark (unlink side w) = Some (Return () ?side)"
    using assms by (subst unpark.simps)
      (simp add: side_state_def unparkAttempt_def compareAndSwap_def side_word_unpark del: of_nat_Suc)
  moreover have "side_state ?side P (ys @ zs) c" "clean ?side w"
    using assms unlink_spec(1) [OF st(1)] st(2) by (auto simp: side_state_def clean_def unlink_caller zero_waiter_def)
  ultimately show ?thesis using unlink_spec(2) [OF st(1)] by (intro exI [of _ ?side]) simp
qed

lemma leaveListWith_listed:
  assumes "side_state side P (ys @ w # zs) c"
  shows "\<exists>side'. leaveListWith cleanup e side w moved =
      (if moved then cleanup e side' (ws_word side') else Some (Return False (e, side')))
    \<and> side_state side' P (ys @ zs) c \<and> clean side' w"
proof -
  have "wt_listed (ws_heap side w)" using assms by (simp add: side_state_def wait_list_def)
  with unpark_unlink_ok [OF assms] show ?thesis by (auto simp: leaveListWith_def)
qed

lemma leavePollingAttempt_ok:
  assumes "side_state side P xs c" "0 < P"
  defines "left \<equiv> side_word (P - 1) (length xs) c"
  shows "leavePollingAttempt side (ws_word side) = Some (Return left (side\<lparr>ws_word := left\<rparr>))"
proof -
  obtain Q where P: "P = Suc Q" using assms(2) by (cases P) auto
  then show ?thesis
    using assms by (simp add: side_state_def leavePollingAttempt_def compareAndSwap_def side_word_release P del: of_nat_Suc)
qed

end
