(* ===== verification/WaitProtocol.thy ===== *)
theory WaitProtocol
  imports WaitSide
begin

text \<open>
  Any number of callers on one \<^verbatim>\<open>waitSide\<close> at the same time. A step of the system is one atomic
  action of one caller: a load of the state word, one compare-and-swap attempt with the word loaded
  earlier, taking the mutex, or receiving a token. The loaded word is part of the caller's position,
  so it can be stale. What a caller does to the list happens while it holds the mutex, in the step
  of its successful swap; a waker's sends of tokens are part of that step, so the interval in which a
  selected waiter is off the list and its token not yet sent is not a state of its own. The invariants I1 to I3 of \<^verbatim>\<open>workq/wakeup.md\<close> are proved of every
  reachable state, and that none of the panics of \<^verbatim>\<open>waitside.go\<close> is reachable.
\<close>

section \<open>The system\<close>

datatype wake_goal = GoalOne | GoalGroup u32

datatype position =
    Idle
  | Registering sideWord
  | Polling
  | Leaving sideWord
  | Enlisting enlistPosition
  | EnlistLoaded enlistPosition sideWord
  | Parked
  | Unlinked
  | UnlinkedLoaded sideWord
  | TokenWait
  | Waking wake_goal
  | WakeLoaded wake_goal sideWord
  | Closing
  | CloseLoaded sideWord

record protocol =
  pr_side :: waitSide
  pr_mu :: "nat option"
  pr_at :: "nat \<Rightarrow> position"
  pr_own :: "nat \<Rightarrow> nat option"
  pr_panicked :: bool

definition protocol_init :: protocol where
  "protocol_init = \<lparr>pr_side = zero_waitSide, pr_mu = None, pr_at = (\<lambda>_. Idle), pr_own = (\<lambda>_. None), pr_panicked = False\<rparr>"

definition goto :: "protocol \<Rightarrow> nat \<Rightarrow> position \<Rightarrow> protocol" where
  "goto s t p = s\<lparr>pr_at := (pr_at s)(t := p)\<rparr>"

definition goal_ok :: "wake_goal \<Rightarrow> bool" where
  "goal_ok g = (case g of GoalOne \<Rightarrow> True | GoalGroup target \<Rightarrow> unat target < 2 ^ 31)"

definition wakeAttempt :: "waitSide \<Rightarrow> sideWord \<Rightarrow> wake_goal \<Rightarrow> (waitSide, bool) outcome option" where
  "wakeAttempt side w g =
     (case g of GoalOne \<Rightarrow> wakeOneAttempt side w | GoalGroup target \<Rightarrow> wakeGroupAttempt side w target)"

text \<open>
  A caller takes a waiter from the pool (or a new one) and returns it only when it neither waits nor
  holds the mutex. Wakers and \<^verbatim>\<open>Close\<close> run from \<open>Idle\<close>.
\<close>

inductive protocol_step :: "nat \<Rightarrow> protocol \<Rightarrow> protocol \<Rightarrow> bool" where
  register_load: "pr_at s t = Idle \<Longrightarrow> protocol_step t s (goto s t (Registering (ws_word (pr_side s))))"
| register_done: "pr_at s t = Registering w \<Longrightarrow> registerAttempt (pr_side s) w = Some (side', closed)
    \<Longrightarrow> protocol_step t s (goto (s\<lparr>pr_side := side'\<rparr>) t (if closed then Idle else Polling))"
| register_retry: "pr_at s t = Registering w \<Longrightarrow> registerAttempt (pr_side s) w = None \<Longrightarrow> protocol_step t s (goto s t Idle)"
| leave_load: "pr_at s t = Polling \<Longrightarrow> protocol_step t s (goto s t (Leaving (ws_word (pr_side s))))"
| leave_done: "pr_at s t = Leaving w \<Longrightarrow> leavePollingAttempt (pr_side s) w = Some (Return left side')
    \<Longrightarrow> protocol_step t s (goto (s\<lparr>pr_side := side'\<rparr>) t Idle)"
| leave_panic: "pr_at s t = Leaving w \<Longrightarrow> leavePollingAttempt (pr_side s) w = Some (Panic p side')
    \<Longrightarrow> protocol_step t s (s\<lparr>pr_panicked := True\<rparr>)"
| leave_retry: "pr_at s t = Leaving w \<Longrightarrow> leavePollingAttempt (pr_side s) w = None \<Longrightarrow> protocol_step t s (goto s t Polling)"
| get_waiter: "pr_at s t = Idle \<or> pr_at s t = Polling \<Longrightarrow> pr_own s t = None \<Longrightarrow> getWaiter pick (pr_side s) = (side', c)
    \<Longrightarrow> protocol_step t s (s\<lparr>pr_side := side', pr_own := (pr_own s)(t := Some c)\<rparr>)"
| put_waiter: "pr_at s t = Idle \<or> pr_at s t = Polling \<Longrightarrow> pr_own s t = Some c
    \<Longrightarrow> protocol_step t s (s\<lparr>pr_side := putWaiter (pr_side s) c, pr_own := (pr_own s)(t := None)\<rparr>)"
| enlist_lock: "pr_at s t = Polling \<Longrightarrow> pr_own s t = Some c \<Longrightarrow> pr_mu s = None
    \<Longrightarrow> protocol_step t s (goto (s\<lparr>pr_mu := Some t\<rparr>) t (Enlisting pos))"
| enlist_load: "pr_at s t = Enlisting pos \<Longrightarrow> protocol_step t s (goto s t (EnlistLoaded pos (ws_word (pr_side s))))"
| enlist_done: "pr_at s t = EnlistLoaded pos w \<Longrightarrow> pr_own s t = Some c
    \<Longrightarrow> enlistAttempt (pr_side s) w c pos = Some (Return closed side')
    \<Longrightarrow> protocol_step t s (goto (s\<lparr>pr_side := side', pr_mu := None\<rparr>) t (if closed then Polling else Parked))"
| enlist_panic: "pr_at s t = EnlistLoaded pos w \<Longrightarrow> pr_own s t = Some c
    \<Longrightarrow> enlistAttempt (pr_side s) w c pos = Some (Panic p side') \<Longrightarrow> protocol_step t s (s\<lparr>pr_panicked := True\<rparr>)"
| enlist_retry: "pr_at s t = EnlistLoaded pos w \<Longrightarrow> pr_own s t = Some c
    \<Longrightarrow> enlistAttempt (pr_side s) w c pos = None \<Longrightarrow> protocol_step t s (goto s t (Enlisting pos))"
| token_wake: "pr_at s t = Parked \<or> pr_at s t = TokenWait \<Longrightarrow> pr_own s t = Some c \<Longrightarrow> wt_token (ws_heap (pr_side s) c)
    \<Longrightarrow> protocol_step t s (goto (s\<lparr>pr_side := update_waiter (pr_side s) c (\<lambda>w. w\<lparr>wt_token := False\<rparr>)\<rparr>) t Polling)"
| list_listed: "pr_at s t = Parked \<Longrightarrow> pr_own s t = Some c \<Longrightarrow> pr_mu s = None \<Longrightarrow> wt_listed (ws_heap (pr_side s) c)
    \<Longrightarrow> protocol_step t s (goto (s\<lparr>pr_side := unlink (pr_side s) c, pr_mu := Some t\<rparr>) t Unlinked)"
| list_selected: "pr_at s t = Parked \<Longrightarrow> pr_own s t = Some c \<Longrightarrow> pr_mu s = None \<Longrightarrow> \<not> wt_listed (ws_heap (pr_side s) c)
    \<Longrightarrow> protocol_step t s (goto s t TokenWait)"
| unpark_load: "pr_at s t = Unlinked \<Longrightarrow> protocol_step t s (goto s t (UnlinkedLoaded (ws_word (pr_side s))))"
| unpark_done: "pr_at s t = UnlinkedLoaded w \<Longrightarrow> unparkAttempt (pr_side s) w = Some (Return u side')
    \<Longrightarrow> protocol_step t s (goto (s\<lparr>pr_side := side', pr_mu := None\<rparr>) t Idle)"
| unpark_panic: "pr_at s t = UnlinkedLoaded w \<Longrightarrow> unparkAttempt (pr_side s) w = Some (Panic p side')
    \<Longrightarrow> protocol_step t s (s\<lparr>pr_panicked := True\<rparr>)"
| unpark_retry: "pr_at s t = UnlinkedLoaded w \<Longrightarrow> unparkAttempt (pr_side s) w = None \<Longrightarrow> protocol_step t s (goto s t Unlinked)"
| wake_lock: "pr_at s t = Idle \<Longrightarrow> pr_mu s = None \<Longrightarrow> goal_ok g
    \<Longrightarrow> protocol_step t s (goto (s\<lparr>pr_mu := Some t\<rparr>) t (Waking g))"
| wake_load: "pr_at s t = Waking g \<Longrightarrow> protocol_step t s (goto s t (WakeLoaded g (ws_word (pr_side s))))"
| wake_done: "pr_at s t = WakeLoaded g w \<Longrightarrow> wakeAttempt (pr_side s) w g = Some (Return woke side')
    \<Longrightarrow> protocol_step t s (goto (s\<lparr>pr_side := side', pr_mu := None\<rparr>) t Idle)"
| wake_panic: "pr_at s t = WakeLoaded g w \<Longrightarrow> wakeAttempt (pr_side s) w g = Some (Panic p side')
    \<Longrightarrow> protocol_step t s (s\<lparr>pr_panicked := True\<rparr>)"
| wake_retry: "pr_at s t = WakeLoaded g w \<Longrightarrow> wakeAttempt (pr_side s) w g = None \<Longrightarrow> protocol_step t s (goto s t (Waking g))"
| close_lock: "pr_at s t = Idle \<Longrightarrow> pr_mu s = None \<Longrightarrow> protocol_step t s (goto (s\<lparr>pr_mu := Some t\<rparr>) t Closing)"
| close_load: "pr_at s t = Closing \<Longrightarrow> protocol_step t s (goto s t (CloseLoaded (ws_word (pr_side s))))"
| close_done: "pr_at s t = CloseLoaded w \<Longrightarrow> setClosedAttempt (pr_side s) w = Some (side', first)
    \<Longrightarrow> protocol_step t s (goto (s\<lparr>pr_side := side', pr_mu := None\<rparr>) t Idle)"
| close_retry: "pr_at s t = CloseLoaded w \<Longrightarrow> setClosedAttempt (pr_side s) w = None \<Longrightarrow> protocol_step t s (goto s t Closing)"

text \<open>States reachable by the callers \<open>0\<close> to \<open>N - 1\<close> in any order.\<close>

inductive reachable :: "nat \<Rightarrow> protocol \<Rightarrow> bool" for N where
  reachable_init: "reachable N protocol_init"
| reachable_step: "reachable N s \<Longrightarrow> t < N \<Longrightarrow> protocol_step t s s' \<Longrightarrow> reachable N s'"

section \<open>The invariant\<close>

fun registered_at :: "position \<Rightarrow> bool" where
  "registered_at Polling \<longleftrightarrow> True"
| "registered_at (Leaving w) \<longleftrightarrow> True"
| "registered_at (Enlisting pos) \<longleftrightarrow> True"
| "registered_at (EnlistLoaded pos w) \<longleftrightarrow> True"
| "registered_at _ \<longleftrightarrow> False"

fun holds_mutex :: "position \<Rightarrow> bool" where
  "holds_mutex (Enlisting pos) \<longleftrightarrow> True"
| "holds_mutex (EnlistLoaded pos w) \<longleftrightarrow> True"
| "holds_mutex Unlinked \<longleftrightarrow> True"
| "holds_mutex (UnlinkedLoaded w) \<longleftrightarrow> True"
| "holds_mutex (Waking g) \<longleftrightarrow> True"
| "holds_mutex (WakeLoaded g w) \<longleftrightarrow> True"
| "holds_mutex Closing \<longleftrightarrow> True"
| "holds_mutex (CloseLoaded w) \<longleftrightarrow> True"
| "holds_mutex _ \<longleftrightarrow> False"

fun unlinked_at :: "position \<Rightarrow> bool" where
  "unlinked_at Unlinked \<longleftrightarrow> True"
| "unlinked_at (UnlinkedLoaded w) \<longleftrightarrow> True"
| "unlinked_at _ \<longleftrightarrow> False"

fun parked_at :: "position \<Rightarrow> bool" where
  "parked_at Parked \<longleftrightarrow> True"
| "parked_at TokenWait \<longleftrightarrow> True"
| "parked_at _ \<longleftrightarrow> False"

text \<open>What the word loaded earlier still tells its reader.\<close>

fun load_ok :: "position \<Rightarrow> bool" where
  "load_ok (Leaving w) \<longleftrightarrow> sideWord_pollers w \<noteq> 0"
| "load_ok (EnlistLoaded pos w) \<longleftrightarrow> sideWord_pollers w \<noteq> 0"
| "load_ok (UnlinkedLoaded w) \<longleftrightarrow> sideWord_parked w \<noteq> 0"
| "load_ok (Waking g) \<longleftrightarrow> goal_ok g"
| "load_ok (WakeLoaded g w) \<longleftrightarrow> goal_ok g"
| "load_ok _ \<longleftrightarrow> True"

definition listed :: "protocol \<Rightarrow> nat \<Rightarrow> bool" where
  "listed s t \<longleftrightarrow> (\<exists>c. pr_own s t = Some c \<and> wt_listed (ws_heap (pr_side s) c))"

text \<open>The callers counted as pollers (a selected waiter is one), and those counted as parked.\<close>

definition pollers_of :: "protocol \<Rightarrow> nat set" where
  "pollers_of s = {t. registered_at (pr_at s t) \<or> parked_at (pr_at s t) \<and> \<not> listed s t}"

definition parked_of :: "protocol \<Rightarrow> nat set" where
  "parked_of s = {t. unlinked_at (pr_at s t) \<or> parked_at (pr_at s t) \<and> listed s t}"

definition owner :: "protocol \<Rightarrow> nat \<Rightarrow> nat \<Rightarrow> bool" where
  "owner s c t \<longleftrightarrow> pr_own s t = Some c \<and> parked_at (pr_at s t)"

definition word_inv :: "protocol \<Rightarrow> bool" where
  "word_inv s \<longleftrightarrow> (\<exists>c. ws_word (pr_side s) = side_word (card (pollers_of s)) (card (parked_of s)) c)"

definition list_inv :: "protocol \<Rightarrow> bool" where
  "list_inv s \<longleftrightarrow> (\<exists>xs. wait_list (pr_side s) xs \<and> (\<forall>c. c \<in> set xs \<longrightarrow> (\<exists>t. pr_own s t = Some c \<and> pr_at s t = Parked)))"

definition waiter_inv :: "protocol \<Rightarrow> bool" where
  "waiter_inv s \<longleftrightarrow>
     (\<forall>t c. owner s c t \<longrightarrow> wt_token (ws_heap (pr_side s) c) = (\<not> wt_listed (ws_heap (pr_side s) c)))
     \<and> (\<forall>t c. owner s c t \<longrightarrow> \<not> wt_listed (ws_heap (pr_side s) c) \<longrightarrow> ws_heap (pr_side s) c = zero_waiter\<lparr>wt_token := True\<rparr>)
     \<and> (\<forall>c. (\<nexists>t. owner s c t) \<longrightarrow> clean (pr_side s) c)"

definition own_inv :: "protocol \<Rightarrow> bool" where
  "own_inv s \<longleftrightarrow>
     (\<forall>t t' c. pr_own s t = Some c \<longrightarrow> pr_own s t' = Some c \<longrightarrow> t = t')
     \<and> (\<forall>t c. pr_own s t = Some c \<longrightarrow> c \<notin> set (ws_pool (pr_side s)) \<and> c < ws_fresh (pr_side s))
     \<and> distinct (ws_pool (pr_side s)) \<and> (\<forall>c\<in>set (ws_pool (pr_side s)). c < ws_fresh (pr_side s))"

definition at_inv :: "nat \<Rightarrow> protocol \<Rightarrow> bool" where
  "at_inv N s \<longleftrightarrow>
     (\<forall>t. holds_mutex (pr_at s t) \<longleftrightarrow> pr_mu s = Some t) \<and> (\<forall>t. load_ok (pr_at s t))
     \<and> (\<forall>t\<ge>N. pr_at s t = Idle)
     \<and> (\<forall>t. parked_at (pr_at s t) \<or> registered_at (pr_at s t) \<and> holds_mutex (pr_at s t) \<longrightarrow> pr_own s t \<noteq> None)
     \<and> (\<forall>t. pr_at s t = TokenWait \<longrightarrow> \<not> listed s t)"

definition protocol_inv :: "nat \<Rightarrow> protocol \<Rightarrow> bool" where
  "protocol_inv N s \<longleftrightarrow>
     \<not> pr_panicked s \<and> word_inv s \<and> list_inv s \<and> waiter_inv s \<and> own_inv s \<and> at_inv N s"

section \<open>Preservation\<close>

lemmas goto_simps [simp] = goto_def

lemma pollers_bounded:
  assumes "at_inv N s"
  shows "pollers_of s \<subseteq> {..<N}" "parked_of s \<subseteq> {..<N}" "pollers_of s \<inter> parked_of s = {}"
proof -
  have idle: "pr_at s t = Idle" if "\<not> t < N" for t using assms that by (simp add: at_inv_def)
  show "pollers_of s \<subseteq> {..<N}" "parked_of s \<subseteq> {..<N}"
    using idle by (force simp: pollers_of_def parked_of_def)+
  have "\<not> (registered_at p \<and> (unlinked_at p \<or> parked_at p))" "\<not> (unlinked_at p \<and> parked_at p)" for p
    by (cases p; simp)+
  then show "pollers_of s \<inter> parked_of s = {}" by (auto simp: pollers_of_def parked_of_def)
qed

lemma counts_bounded:
  assumes "at_inv N s"
  shows "finite (pollers_of s)" "finite (parked_of s)" "card (pollers_of s) + card (parked_of s) \<le> N"
proof -
  note b = pollers_bounded [OF assms]
  show f: "finite (pollers_of s)" "finite (parked_of s)" using b finite_subset by blast+
  have "card (pollers_of s \<union> parked_of s) \<le> card {..<N}" using b by (intro card_mono) auto
  then show "card (pollers_of s) + card (parked_of s) \<le> N" using f b(3) by (simp add: card_Un_disjoint)
qed

text \<open>The word of a reachable state reads as the two counts.\<close>

lemma word_inv_reads:
  assumes "word_inv s" "at_inv N s" "N < 2 ^ 31"
  obtains c where "ws_word (pr_side s) = side_word (card (pollers_of s)) (card (parked_of s)) c"
    "card (pollers_of s) < 2 ^ 31" "card (parked_of s) < 2 ^ 31"
  using assms(1,3) counts_bounded(3) [OF assms(2)] by (auto simp: word_inv_def)

definition moved :: "bool \<Rightarrow> nat \<Rightarrow> nat set \<Rightarrow> nat set" where
  "moved b t A = (if b then insert t A else A - {t})"

text \<open>A step that changes the word and the position of a caller that is not parked.\<close>

lemma inv_move:
  assumes inv: "protocol_inv N s" and t: "t < N" and p: "\<not> parked_at (pr_at s t)" "\<not> parked_at p"
    and s': "s' = goto (s\<lparr>pr_side := (pr_side s)\<lparr>ws_word := w\<rparr>, pr_mu := m\<rparr>) t p"
    and w: "w = side_word (card (moved (registered_at p) t (pollers_of s))) (card (moved (unlinked_at p) t (parked_of s))) c"
    and m: "\<forall>t'. holds_mutex (((pr_at s)(t := p)) t') \<longleftrightarrow> m = Some t'" and l: "load_ok p"
    and own: "registered_at p \<and> holds_mutex p \<longrightarrow> pr_own s t \<noteq> None"
  shows "protocol_inv N s'"
proof -
  have listed: "listed s' = listed s" by (simp add: s' listed_def fun_eq_iff)
  have "pollers_of s' = moved (registered_at p) t (pollers_of s)" "parked_of s' = moved (unlinked_at p) t (parked_of s)"
    using p by (simp_all add: set_eq_iff pollers_of_def parked_of_def moved_def listed) (simp_all add: s')
  then have "word_inv s'" using w by (auto simp: word_inv_def s')
  moreover have "list_inv s'" using inv p by (fastforce simp: protocol_inv_def list_inv_def s')
  moreover have "owner s' = owner s" using p by (auto simp: owner_def s' fun_eq_iff)
  then have "waiter_inv s'" using inv by (simp add: protocol_inv_def waiter_inv_def s' clean_def)
  moreover have "own_inv s'" using inv by (simp add: protocol_inv_def own_inv_def s')
  moreover have "at_inv N s'"
    unfolding at_inv_def listed
  proof (intro conjI allI impI)
    fix t'
    note a = inv [unfolded protocol_inv_def at_inv_def]
    show "holds_mutex (pr_at s' t') = (pr_mu s' = Some t')" using m by (simp add: s')
    show "load_ok (pr_at s' t')" using a l by (simp add: s')
    show "pr_at s' t' = Idle" if "N \<le> t'" using a t that by (simp add: s')
    show "pr_own s' t' \<noteq> None" if "parked_at (pr_at s' t') \<or> registered_at (pr_at s' t') \<and> holds_mutex (pr_at s' t')"
      using a p own that by (cases "t' = t") (auto simp: s')
    show "\<not> listed s t'" if "pr_at s' t' = TokenWait" using a p that by (cases "t' = t") (auto simp: s')
  qed
  ultimately show ?thesis using inv by (simp add: protocol_inv_def s')
qed

lemma inv_parts:
  assumes "protocol_inv N s"
  shows "word_inv s" "list_inv s" "waiter_inv s" "own_inv s" "at_inv N s" "\<not> pr_panicked s"
  using assms by (simp_all add: protocol_inv_def)

lemma class_iff:
  assumes "\<not> parked_at (pr_at s t)"
  shows "t \<in> pollers_of s \<longleftrightarrow> registered_at (pr_at s t)" "t \<in> parked_of s \<longleftrightarrow> unlinked_at (pr_at s t)"
  using assms by (simp_all add: pollers_of_def parked_of_def)

lemma moved_same:
  assumes "\<not> parked_at (pr_at s t)"
  shows "registered_at p = registered_at (pr_at s t) \<Longrightarrow> moved (registered_at p) t (pollers_of s) = pollers_of s"
    and "unlinked_at p = unlinked_at (pr_at s t) \<Longrightarrow> moved (unlinked_at p) t (parked_of s) = parked_of s"
  using class_iff [OF assms] by (auto simp: moved_def)

lemma inv_stay:
  assumes "protocol_inv N s" "t < N" "\<not> parked_at (pr_at s t)" "\<not> parked_at p"
    and "registered_at p = registered_at (pr_at s t)" "unlinked_at p = unlinked_at (pr_at s t)"
    and "\<forall>t'. holds_mutex (((pr_at s)(t := p)) t') \<longleftrightarrow> m = Some t'" "load_ok p"
    and "registered_at p \<and> holds_mutex p \<longrightarrow> pr_own s t \<noteq> None"
  shows "protocol_inv N (goto (s\<lparr>pr_mu := m\<rparr>) t p)"
proof -
  obtain c where "ws_word (pr_side s) = side_word (card (pollers_of s)) (card (parked_of s)) c"
    using inv_parts(1) [OF assms(1)] by (auto simp: word_inv_def)
  then show ?thesis
    using assms moved_same [OF assms(3), of p]
    by (intro inv_move [where w = "ws_word (pr_side s)" and m = m and c = c, OF assms(1-4)]) simp_all
qed

lemma inv_stay_same:
  assumes "protocol_inv N s" "t < N" "\<not> parked_at (pr_at s t)" "\<not> parked_at p"
    and "registered_at p = registered_at (pr_at s t)" "unlinked_at p = unlinked_at (pr_at s t)"
    and "holds_mutex p = holds_mutex (pr_at s t)" "load_ok p"
  shows "protocol_inv N (goto s t p)"
proof -
  note a = inv_parts(5) [OF assms(1), unfolded at_inv_def]
  have "protocol_inv N (goto (s\<lparr>pr_mu := pr_mu s\<rparr>) t p)"
    by (rule inv_stay) (use assms a in \<open>simp_all\<close>)
  then show ?thesis by simp
qed

text \<open>A load by a caller that is counted sees the count it is part of.\<close>

lemma load_counts:
  assumes "protocol_inv N s" "N < 2 ^ 31" "\<not> parked_at (pr_at s t)"
  shows "registered_at (pr_at s t) \<Longrightarrow> sideWord_pollers (ws_word (pr_side s)) \<noteq> 0"
    and "unlinked_at (pr_at s t) \<Longrightarrow> sideWord_parked (ws_word (pr_side s)) \<noteq> 0"
proof -
  obtain c where w: "ws_word (pr_side s) = side_word (card (pollers_of s)) (card (parked_of s)) c"
      "card (pollers_of s) < 2 ^ 31" "card (parked_of s) < 2 ^ 31"
    using word_inv_reads [OF inv_parts(1,5) [OF assms(1)] assms(2)] by blast
  note f = counts_bounded(1,2) [OF inv_parts(5) [OF assms(1)]]
  show "registered_at (pr_at s t) \<Longrightarrow> sideWord_pollers (ws_word (pr_side s)) \<noteq> 0"
    "unlinked_at (pr_at s t) \<Longrightarrow> sideWord_parked (ws_word (pr_side s)) \<noteq> 0"
    using w f class_iff [OF assms(3)] by (auto simp: card_eq_0_iff)
qed

lemma mutex_keep:
  "at_inv N s \<Longrightarrow> holds_mutex p = holds_mutex (pr_at s t)
    \<Longrightarrow> \<forall>t'. holds_mutex (((pr_at s)(t := p)) t') \<longleftrightarrow> pr_mu s = Some t'"
  by (simp add: at_inv_def)

lemma mutex_free:
  assumes "at_inv N s" "holds_mutex (pr_at s t)" "\<not> holds_mutex p"
  shows "\<forall>t'. holds_mutex (((pr_at s)(t := p)) t') \<longleftrightarrow> (None :: nat option) = Some t'"
proof -
  have "holds_mutex (pr_at s t') \<longleftrightarrow> pr_mu s = Some t'" for t' using assms(1) by (simp add: at_inv_def)
  with assms(2,3) show ?thesis by auto
qed

lemma mutex_take:
  "at_inv N s \<Longrightarrow> pr_mu s = None \<Longrightarrow> holds_mutex p \<Longrightarrow> \<forall>t'. holds_mutex (((pr_at s)(t := p)) t') \<longleftrightarrow> Some t = Some t'"
  by (auto simp: at_inv_def)

text \<open>A successful swap by a caller outside the list.\<close>

lemma swap_register:
  assumes inv: "protocol_inv N s" and t: "t < N" "N < 2 ^ 31" and at: "pr_at s t = Registering w"
    and r: "registerAttempt (pr_side s) w = Some (side', closed)"
  shows "protocol_inv N (goto (s\<lparr>pr_side := side'\<rparr>) t (if closed then Idle else Polling))"
proof (cases closed)
  case True
  then have "side' = pr_side s" using r by (auto simp: registerAttempt_def split: if_splits)
  with True at show ?thesis using inv_stay_same [OF inv t(1), of Idle] by simp
next
  case False
  obtain c where w: "ws_word (pr_side s) = side_word (card (pollers_of s)) (card (parked_of s)) c"
      "card (pollers_of s) < 2 ^ 31" "card (parked_of s) < 2 ^ 31"
    using word_inv_reads [OF inv_parts(1,5) [OF inv] t(2)] by blast
  note f = counts_bounded(1,2) [OF inv_parts(5) [OF inv]]
  have side': "side' = (pr_side s)\<lparr>ws_word := ws_word (pr_side s) + onePoller\<rparr>"
    using r False by (auto simp: registerAttempt_def compareAndSwap_def split: if_splits)
  have "t \<notin> pollers_of s" "t \<notin> parked_of s" using class_iff [of s t] at by simp_all
  then have "protocol_inv N (goto (s\<lparr>pr_side := side', pr_mu := pr_mu s\<rparr>) t Polling)"
    by (intro inv_move [OF inv t(1) _ _ _ _ mutex_keep [OF inv_parts(5) [OF inv]], where w = "ws_word side'" and c = c and p = Polling])
      (use f at in \<open>simp_all add: side' w(1) side_word_poller moved_def\<close>)
  with False show ?thesis by simp
qed

lemma swap_leave:
  assumes inv: "protocol_inv N s" and t: "t < N" "N < 2 ^ 31" and at: "pr_at s t = Leaving w"
    and r: "leavePollingAttempt (pr_side s) w = Some (Return left side')"
  shows "protocol_inv N (goto (s\<lparr>pr_side := side'\<rparr>) t Idle)"
proof -
  obtain c where w: "ws_word (pr_side s) = side_word (card (pollers_of s)) (card (parked_of s)) c"
    using inv_parts(1) [OF inv] by (auto simp: word_inv_def)
  note f = counts_bounded(1,2) [OF inv_parts(5) [OF inv]]
  have side': "side' = (pr_side s)\<lparr>ws_word := ws_word (pr_side s) - onePoller\<rparr>"
    using r by (auto simp: leavePollingAttempt_def compareAndSwap_def split: if_splits)
  have m: "t \<in> pollers_of s" "t \<notin> parked_of s" using class_iff [of s t] at by simp_all
  have "ws_word side' = side_word (card (pollers_of s - {t})) (card (parked_of s - {t})) c"
    using m(2) by (simp add: side' w card.remove [OF f(1) m(1)] side_word_release del: card_Diff_singleton)
  then have "protocol_inv N (goto (s\<lparr>pr_side := side', pr_mu := pr_mu s\<rparr>) t Idle)"
    by (intro inv_move [OF inv t(1) _ _ _ _ mutex_keep [OF inv_parts(5) [OF inv]], where w = "ws_word side'" and c = c and p = Idle])
      (use at in \<open>simp_all add: side' moved_def\<close>)
  then show ?thesis by simp
qed

lemma swap_unpark:
  assumes inv: "protocol_inv N s" and t: "t < N" "N < 2 ^ 31" and at: "pr_at s t = UnlinkedLoaded w"
    and r: "unparkAttempt (pr_side s) w = Some (Return u side')"
  shows "protocol_inv N (goto (s\<lparr>pr_side := side', pr_mu := None\<rparr>) t Idle)"
proof -
  obtain c where w: "ws_word (pr_side s) = side_word (card (pollers_of s)) (card (parked_of s)) c"
    using inv_parts(1) [OF inv] by (auto simp: word_inv_def)
  note f = counts_bounded(1,2) [OF inv_parts(5) [OF inv]]
  have side': "side' = (pr_side s)\<lparr>ws_word := ws_word (pr_side s) - oneParked\<rparr>"
    using r by (auto simp: unparkAttempt_def compareAndSwap_def split: if_splits)
  have m: "t \<notin> pollers_of s" "t \<in> parked_of s" using class_iff [of s t] at by simp_all
  have "ws_word side' = side_word (card (pollers_of s - {t})) (card (parked_of s - {t})) c"
    using m(1) by (simp add: side' w card.remove [OF f(2) m(2)] side_word_unpark del: card_Diff_singleton)
  then show ?thesis
    by (intro inv_move [OF inv t(1) _ _ _ _ mutex_free [OF inv_parts(5) [OF inv]], where w = "ws_word side'" and c = c and p = Idle])
      (use at in \<open>simp_all add: side' moved_def\<close>)
qed

lemma swap_close:
  assumes inv: "protocol_inv N s" and t: "t < N" "N < 2 ^ 31" and at: "pr_at s t = CloseLoaded w"
    and r: "setClosedAttempt (pr_side s) w = Some (side', first)"
  shows "protocol_inv N (goto (s\<lparr>pr_side := side', pr_mu := None\<rparr>) t Idle)"
proof -
  obtain c where w: "ws_word (pr_side s) = side_word (card (pollers_of s)) (card (parked_of s)) c"
      "card (pollers_of s) < 2 ^ 31" "card (parked_of s) < 2 ^ 31"
    using word_inv_reads [OF inv_parts(1,5) [OF inv] t(2)] by blast
  have "\<exists>d. side' = (pr_side s)\<lparr>ws_word := side_word (card (pollers_of s)) (card (parked_of s)) d\<rparr>"
  proof (cases "side' = pr_side s")
    case False
    then have "side' = (pr_side s)\<lparr>ws_word := ws_word (pr_side s) OR closedFlag\<rparr>" "\<not> sideWord_closed (ws_word (pr_side s))"
      using r by (auto simp: setClosedAttempt_def compareAndSwap_def split: if_splits)
    with w side_word_close [OF w(2,3)] show ?thesis by (intro exI [of _ True]) simp
  qed (use w(1) in \<open>auto intro: exI [of _ c]\<close>)
  then obtain d where side': "side' = (pr_side s)\<lparr>ws_word := side_word (card (pollers_of s)) (card (parked_of s)) d\<rparr>" ..
  show ?thesis
    by (intro inv_move [OF inv t(1) _ _ _ _ mutex_free [OF inv_parts(5) [OF inv]], where w = "ws_word side'" and c = d and p = Idle])
      (use at class_iff [of s t] in \<open>simp_all add: side' moved_def\<close>)
qed

text \<open>The effect of a waker's swap: some of the oldest waiters get the registration and a token.\<close>

lemma wakeAttempt_spec:
  assumes st: "side_state side P xs c" and g: "goal_ok g" and r: "wakeAttempt side w g = Some out"
  shows "\<exists>n side'. out = Return (0 < n) side' \<and> n \<le> length xs \<and> (n = 0 \<longrightarrow> side' = side)
    \<and> side_state side' (P + n) (drop n xs) c
    \<and> (\<forall>w\<in>set (take n xs). ws_heap side' w = zero_waiter\<lparr>wt_token := True\<rparr>)
    \<and> (\<forall>d. d \<notin> set xs \<longrightarrow> ws_heap side' d = ws_heap side d)
    \<and> ws_pool side' = ws_pool side \<and> ws_fresh side' = ws_fresh side"
proof (cases "w = ws_word side")
  case False
  then have "out = Return False side"
    using r g group_limits by (cases g)
      (auto simp: wakeAttempt_def wakeOneAttempt_def wakeGroupAttempt_def compareAndSwap_def Let_def goal_ok_def split: if_splits)
  with st show ?thesis by (intro exI [of _ 0] exI [of _ side]) simp
next
  case True
  show ?thesis
  proof (cases g)
    case GoalOne
    then have "wakeOne side = Some out"
      using r True unfolding wakeOne_def by (subst wakeOneLocked.simps) (simp add: wakeAttempt_def)
    with wakeOne_ok [OF st] obtain side' where o: "out = Return (P = 0 \<and> xs \<noteq> []) side'"
      and e: "if P = 0 \<and> xs \<noteq> [] then side_state side' 1 (tl xs) c \<and> ws_heap side' (hd xs) = zero_waiter\<lparr>wt_token := True\<rparr>
         \<and> (\<forall>d. d \<notin> set xs \<longrightarrow> ws_heap side' d = ws_heap side d) \<and> ws_pool side' = ws_pool side \<and> ws_fresh side' = ws_fresh side
       else side' = side" by auto
    show ?thesis
    proof (cases "P = 0 \<and> xs \<noteq> []")
      case True
      then show ?thesis using o e by (intro exI [of _ 1] exI [of _ side'], cases xs) auto
    next
      case False
      with o e st show ?thesis by (intro exI [of _ 0] exI [of _ side']) auto
    qed
  next
    case (GoalGroup target)
    define n where "n = min (length xs) (unat target - P)"
    have "wakeGroup side target = Some out"
      using r True GoalGroup by (subst wakeGroup.simps) (simp add: wakeAttempt_def)
    moreover have "unat target < 2 ^ 31" using g GoalGroup by (simp add: goal_ok_def)
    ultimately obtain side' where "out = Return (0 < n) side'" "if 0 < n
       then side_state side' (P + n) (drop n xs) c
         \<and> (\<forall>w\<in>set (take n xs). ws_heap side' w = zero_waiter\<lparr>wt_token := True\<rparr>)
         \<and> (\<forall>d. d \<notin> set xs \<longrightarrow> ws_heap side' d = ws_heap side d)
         \<and> ws_pool side' = ws_pool side \<and> ws_fresh side' = ws_fresh side
       else side' = side"
      using wakeGroup_ok [OF st, of target, folded n_def] by auto
    moreover have "n \<le> length xs" by (simp add: n_def)
    ultimately show ?thesis using st by (intro exI [of _ n] exI [of _ side'], cases "n = 0") auto
  qed
qed

text \<open>The list holds exactly the waiters of the callers that wait.\<close>

lemma list_owners:
  assumes "own_inv s" "list_inv s" "wait_list (pr_side s) xs"
  shows "bij_betw (\<lambda>t. the (pr_own s t)) {t. parked_at (pr_at s t) \<and> listed s t} (set xs)"
    and "card {t. parked_at (pr_at s t) \<and> listed s t} = length xs"
proof -
  note l = assms(3)
  have inj: "t = t'" if "pr_own s t = Some c" "pr_own s t' = Some c" for t t' c
    using assms(1) that unfolding own_inv_def by blast
  obtain ys where ys: "wait_list (pr_side s) ys" "\<forall>c\<in>set ys. \<exists>t. pr_own s t = Some c \<and> pr_at s t = Parked"
    using assms(2) by (auto simp: list_inv_def)
  have mem: "wt_listed (ws_heap (pr_side s) c) \<longleftrightarrow> c \<in> set xs" "c \<in> set ys \<longleftrightarrow> c \<in> set xs" for c
    using l ys(1) by (auto simp: wait_list_def)
  show b: "bij_betw (\<lambda>t. the (pr_own s t)) {t. parked_at (pr_at s t) \<and> listed s t} (set xs)"
  proof (rule bij_betw_imageI)
    show "inj_on (\<lambda>t. the (pr_own s t)) {t. parked_at (pr_at s t) \<and> listed s t}"
    proof (rule inj_onI)
      fix t t' assume "t \<in> {t. parked_at (pr_at s t) \<and> listed s t}" "t' \<in> {t. parked_at (pr_at s t) \<and> listed s t}"
        and eq: "the (pr_own s t) = the (pr_own s t')"
      then obtain c c' where "pr_own s t = Some c" "pr_own s t' = Some c'" by (auto simp: listed_def)
      with eq inj show "t = t'" by simp
    qed
    have "c \<in> (\<lambda>t. the (pr_own s t)) ` {t. parked_at (pr_at s t) \<and> listed s t}" if c: "c \<in> set xs" for c
    proof -
      obtain t where "pr_own s t = Some c" "pr_at s t = Parked" using ys(2) mem(2) [of c] c by auto
      then show ?thesis using c mem(1) [of c] by (intro image_eqI [of _ _ t]) (simp_all add: listed_def)
    qed
    moreover have "the (pr_own s t) \<in> set xs" if "listed s t" for t using that by (auto simp: listed_def mem(1))
    ultimately show "(\<lambda>t. the (pr_own s t)) ` {t. parked_at (pr_at s t) \<and> listed s t} = set xs" by blast
  qed
  show "card {t. parked_at (pr_at s t) \<and> listed s t} = length xs"
    using bij_betw_same_card [OF b] l by (simp add: wait_list_def distinct_card)
qed

text \<open>
  A step of a caller that enters, leaves or stays on the list. \<open>side'\<close> differs from the old side only
  at its own waiter and at the links of the listed ones.
\<close>

lemma inv_relist:
  assumes inv: "protocol_inv N s" and t: "t < N" and own: "pr_own s t = Some c"
    and s': "s' = goto (s\<lparr>pr_side := side', pr_mu := m\<rparr>) t p"
    and frame: "ws_pool side' = ws_pool (pr_side s)" "ws_fresh side' = ws_fresh (pr_side s)"
      "\<forall>d. d \<noteq> c \<longrightarrow> wt_token (ws_heap side' d) = wt_token (ws_heap (pr_side s) d)
        \<and> wt_listed (ws_heap side' d) = wt_listed (ws_heap (pr_side s) d)
        \<and> (\<not> wt_listed (ws_heap (pr_side s) d) \<longrightarrow> ws_heap side' d = ws_heap (pr_side s) d)"
    and list: "wait_list side' ys" "c \<in> set ys \<longrightarrow> p = Parked"
    and heap: "if parked_at p then wt_token (ws_heap side' c) = (\<not> wt_listed (ws_heap side' c))
        \<and> (\<not> wt_listed (ws_heap side' c) \<longrightarrow> ws_heap side' c = zero_waiter\<lparr>wt_token := True\<rparr>)
      else ws_heap side' c = zero_waiter"
    and w: "ws_word side' = side_word
        (card (moved (registered_at p \<or> parked_at p \<and> \<not> wt_listed (ws_heap side' c)) t (pollers_of s)))
        (card (moved (unlinked_at p \<or> parked_at p \<and> wt_listed (ws_heap side' c)) t (parked_of s))) d"
    and m: "\<forall>t'. holds_mutex (((pr_at s)(t := p)) t') \<longleftrightarrow> m = Some t'" and l: "load_ok p"
    and tw: "p = TokenWait \<longrightarrow> \<not> wt_listed (ws_heap side' c)"
  shows "protocol_inv N s'"
proof -
  have inj: "t' = t" if "pr_own s t' = Some c" for t'
    using inv_parts(4) [OF inv] that own unfolding own_inv_def by blast
  have mine: "listed s' t \<longleftrightarrow> wt_listed (ws_heap side' c)" by (simp add: s' listed_def own)
  have apart: "d \<noteq> c" if "pr_own s t' = Some d" "t' \<noteq> t" for d t' using inj that by auto
  have f_listed: "wt_listed (ws_heap side' d) = wt_listed (ws_heap (pr_side s) d)"
    and f_heap: "\<not> wt_listed (ws_heap (pr_side s) d) \<Longrightarrow> ws_heap side' d = ws_heap (pr_side s) d"
    and f_token: "wt_token (ws_heap side' d) = wt_token (ws_heap (pr_side s) d)" if "d \<noteq> c" for d
    using frame(3) that by blast+
  have others: "listed s' t' = listed s t'" if "t' \<noteq> t" for t'
    using that f_listed [OF apart] by (cases "pr_own s t'") (simp_all add: s' listed_def)
  have owner: "owner s' d t' \<longleftrightarrow> (if t' = t then d = c \<and> parked_at p else owner s d t')" for d t'
    using own by (auto simp: s' owner_def)
  have "pollers_of s' = moved (registered_at p \<or> parked_at p \<and> \<not> wt_listed (ws_heap side' c)) t (pollers_of s)"
    "parked_of s' = moved (unlinked_at p \<or> parked_at p \<and> wt_listed (ws_heap side' c)) t (parked_of s)"
    using mine others by (auto simp: set_eq_iff pollers_of_def parked_of_def moved_def) (auto simp: s' split: if_splits)
  then have "word_inv s'" using w by (auto simp: word_inv_def s')
  moreover have "list_inv s'"
  proof -
    obtain xs where xs: "wait_list (pr_side s) xs" "\<forall>d\<in>set xs. \<exists>t'. pr_own s t' = Some d \<and> pr_at s t' = Parked"
      using inv_parts(2) [OF inv] by (auto simp: list_inv_def)
    have "\<exists>t'. pr_own s' t' = Some d \<and> pr_at s' t' = Parked" if d: "d \<in> set ys" for d
    proof (cases "d = c")
      case True
      with d list(2) own show ?thesis by (intro exI [of _ t]) (simp add: s')
    next
      case False
      have "wt_listed (ws_heap side' d)" using d list(1) by (simp add: wait_list_def)
      then have "d \<in> set xs" using f_listed [OF False] xs(1) by (simp add: wait_list_def)
      then obtain t' where "pr_own s t' = Some d" "pr_at s t' = Parked" using xs(2) by auto
      with False own show ?thesis by (intro exI [of _ t']) (auto simp: s')
    qed
    moreover have "wait_list (pr_side s') ys" using list(1) by (simp add: s')
    ultimately show ?thesis unfolding list_inv_def by blast
  qed
  moreover have "waiter_inv s'"
    unfolding waiter_inv_def
  proof (intro conjI allI impI)
    have side: "pr_side s' = side'" by (simp add: s')
    fix t' d assume o: "owner s' d t'"
    have "wt_token (ws_heap side' d) = (\<not> wt_listed (ws_heap side' d))
        \<and> (\<not> wt_listed (ws_heap side' d) \<longrightarrow> ws_heap side' d = zero_waiter\<lparr>wt_token := True\<rparr>)"
    proof (cases "t' = t")
      case True
      with o owner have "d = c" "parked_at p" by simp_all
      with heap show ?thesis by simp
    next
      case False
      with o owner have od: "owner s d t'" by simp
      then have "d \<noteq> c" using apart [OF _ False] by (auto simp: owner_def)
      moreover have "wt_token (ws_heap (pr_side s) d) = (\<not> wt_listed (ws_heap (pr_side s) d))
        \<and> (\<not> wt_listed (ws_heap (pr_side s) d) \<longrightarrow> ws_heap (pr_side s) d = zero_waiter\<lparr>wt_token := True\<rparr>)"
        using od inv_parts(3) [OF inv] unfolding waiter_inv_def by blast
      ultimately show ?thesis by (simp add: f_token f_listed f_heap)
    qed
    then show "wt_token (ws_heap (pr_side s') d) = (\<not> wt_listed (ws_heap (pr_side s') d))"
      and "\<not> wt_listed (ws_heap (pr_side s') d) \<Longrightarrow> ws_heap (pr_side s') d = zero_waiter\<lparr>wt_token := True\<rparr>"
      unfolding side by blast+
  next
    fix d assume o: "\<nexists>t'. owner s' d t'"
    show "clean (pr_side s') d"
    proof (cases "d = c")
      case True
      with o owner have "\<not> parked_at p" by metis
      with True heap show ?thesis by (simp add: clean_def s')
    next
      case False
      then have "\<nexists>t'. owner s d t'" using o owner own by (metis option.inject owner_def)
      then have "clean (pr_side s) d" using inv_parts(3) [OF inv] by (simp add: waiter_inv_def)
      with False f_heap show ?thesis by (simp add: clean_def zero_waiter_def s')
    qed
  qed
  moreover have "own_inv s'" using inv_parts(4) [OF inv] frame by (simp add: own_inv_def s')
  moreover have "at_inv N s'"
    unfolding at_inv_def
  proof (intro conjI allI impI)
    fix t'
    note a = inv_parts(5) [OF inv, unfolded at_inv_def]
    show "holds_mutex (pr_at s' t') = (pr_mu s' = Some t')" using m by (simp add: s')
    show "load_ok (pr_at s' t')" using a l by (simp add: s')
    show "pr_at s' t' = Idle" if "N \<le> t'" using a t that by (simp add: s')
    show "pr_own s' t' \<noteq> None" if "parked_at (pr_at s' t') \<or> registered_at (pr_at s' t') \<and> holds_mutex (pr_at s' t')"
      using a own that by (cases "t' = t") (auto simp: s')
    show "\<not> listed s' t'" if "pr_at s' t' = TokenWait"
      using a tw that mine others by (cases "t' = t") (auto simp: s')
  qed
  ultimately show ?thesis using inv by (simp add: protocol_inv_def s')
qed

lemma listed_wait:
  assumes "protocol_inv N s"
  shows "\<exists>xs. wait_list (pr_side s) xs \<and> (\<forall>c\<in>set xs. \<not> wt_token (ws_heap (pr_side s) c))"
proof -
  obtain xs where xs: "wait_list (pr_side s) xs" "\<forall>c. c \<in> set xs \<longrightarrow> (\<exists>t. pr_own s t = Some c \<and> pr_at s t = Parked)"
    using inv_parts(2) [OF assms] unfolding list_inv_def by blast
  have "\<not> wt_token (ws_heap (pr_side s) c)" if c: "c \<in> set xs" for c
  proof -
    obtain t where "pr_own s t = Some c" "pr_at s t = Parked" using xs(2) c by blast
    then have "owner s c t" by (simp add: owner_def)
    then have "wt_token (ws_heap (pr_side s) c) = (\<not> wt_listed (ws_heap (pr_side s) c))"
      using inv_parts(3) [OF assms] unfolding waiter_inv_def by blast
    moreover have "wt_listed (ws_heap (pr_side s) c)" using xs(1) c by (simp add: wait_list_def)
    ultimately show ?thesis by simp
  qed
  with xs(1) show ?thesis by blast
qed

lemma own_clean:
  assumes "protocol_inv N s" "pr_own s t = Some c" "\<not> parked_at (pr_at s t)"
  shows "ws_heap (pr_side s) c = zero_waiter"
proof -
  have "\<nexists>t'. owner s c t'"
    using inv_parts(4) [OF assms(1)] assms(2,3) unfolding own_inv_def owner_def by metis
  then show ?thesis using inv_parts(3) [OF assms(1)] by (simp add: waiter_inv_def clean_def)
qed

lemma step_enlist:
  assumes inv: "protocol_inv N s" and t: "t < N" "N < 2 ^ 31" and at: "pr_at s t = EnlistLoaded pos w" and own: "pr_own s t = Some c"
    and r: "enlistAttempt (pr_side s) w c pos = Some (Return closed side')"
  shows "protocol_inv N (goto (s\<lparr>pr_side := side', pr_mu := None\<rparr>) t (if closed then Polling else Parked))"
proof (cases closed)
  case True
  then have "side' = pr_side s" using r by (auto simp: enlistAttempt_def compareAndSwap_def split: if_splits)
  moreover have "protocol_inv N (goto (s\<lparr>pr_mu := None\<rparr>) t Polling)"
    by (rule inv_stay [OF inv t(1) _ _ _ _ mutex_free [OF inv_parts(5) [OF inv]]]) (use at in simp_all)
  ultimately show ?thesis using True by simp
next
  case False
  let ?side = "(pr_side s)\<lparr>ws_word := ws_word (pr_side s) - onePoller + oneParked\<rparr>"
  have side': "side' = enlist_link ?side c pos"
    using r False by (auto simp: enlistAttempt_def compareAndSwap_def split: if_splits)
  obtain xs where xs: "wait_list (pr_side s) xs" "\<forall>c\<in>set xs. \<not> wt_token (ws_heap (pr_side s) c)"
    using listed_wait [OF inv] by blast
  have z: "ws_heap (pr_side s) c = zero_waiter" using own_clean [OF inv own] at by simp
  then have c: "c \<notin> set xs" using xs(1) unfolding wait_list_def zero_waiter_def by (metis waiter.select_convs(4))
  have link: "wait_list side' (enlisted pos c xs)" "\<forall>d. d \<notin> set (enlisted pos c xs) \<longrightarrow> ws_heap side' d = ws_heap ?side d"
    unfolding side' using xs(1) z c enlist_link_spec [of ?side xs c pos] by (auto simp: zero_waiter_def)
  obtain b where w: "ws_word (pr_side s) = side_word (card (pollers_of s)) (card (parked_of s)) b"
    using inv_parts(1) [OF inv] by (auto simp: word_inv_def)
  note f = counts_bounded(1,2) [OF inv_parts(5) [OF inv]]
  have m: "t \<in> pollers_of s" "t \<notin> parked_of s" using class_iff [of s t] at by simp_all
  have word: "ws_word side' = side_word (card (pollers_of s - {t})) (card (insert t (parked_of s))) b"
    using m(2) f by (simp add: side' w card.remove [OF f(1) m(1)] side_word_park del: card_Diff_singleton)
  have fr: "ws_pool side' = ws_pool (pr_side s)" "ws_fresh side' = ws_fresh (pr_side s)"
    "\<And>d. wt_token (ws_heap side' d) = wt_token (ws_heap (pr_side s) d)"
    by (simp_all add: side')
  have listed: "wt_listed (ws_heap side' d) \<longleftrightarrow> d = c \<or> wt_listed (ws_heap (pr_side s) d)" for d
    using link(1) xs(1) by (auto simp: wait_list_def)
  show ?thesis
    by (rule inv_relist [OF inv t(1) own _ _ _ _ link(1) _ _ _ mutex_free [OF inv_parts(5) [OF inv]],
          where p = Parked and d = b])
      (use at False z link(2) xs(1) word in \<open>auto simp: fr listed moved_def wait_list_def zero_waiter_def\<close>)
qed

lemma parked_class:
  assumes "protocol_inv N s" "pr_own s t = Some c" "parked_at (pr_at s t)"
  shows "t \<in> pollers_of s \<longleftrightarrow> \<not> wt_listed (ws_heap (pr_side s) c)" "t \<in> parked_of s \<longleftrightarrow> wt_listed (ws_heap (pr_side s) c)"
    "wt_token (ws_heap (pr_side s) c) \<longleftrightarrow> \<not> wt_listed (ws_heap (pr_side s) c)"
    "\<not> wt_listed (ws_heap (pr_side s) c) \<Longrightarrow> ws_heap (pr_side s) c = zero_waiter\<lparr>wt_token := True\<rparr>"
proof -
  have "\<not> registered_at (pr_at s t)" "\<not> unlinked_at (pr_at s t)" using assms(3) by (cases "pr_at s t"; simp)+
  then show "t \<in> pollers_of s \<longleftrightarrow> \<not> wt_listed (ws_heap (pr_side s) c)" "t \<in> parked_of s \<longleftrightarrow> wt_listed (ws_heap (pr_side s) c)"
    using assms(2,3) by (simp_all add: pollers_of_def parked_of_def listed_def)
  have "owner s c t" using assms(2,3) by (simp add: owner_def)
  then show "wt_token (ws_heap (pr_side s) c) \<longleftrightarrow> \<not> wt_listed (ws_heap (pr_side s) c)"
    "\<not> wt_listed (ws_heap (pr_side s) c) \<Longrightarrow> ws_heap (pr_side s) c = zero_waiter\<lparr>wt_token := True\<rparr>"
    using inv_parts(3) [OF assms(1)] unfolding waiter_inv_def by blast+
qed

lemma step_token:
  assumes inv: "protocol_inv N s" and t: "t < N" and at: "parked_at (pr_at s t)" and own: "pr_own s t = Some c"
    and token: "wt_token (ws_heap (pr_side s) c)"
  shows "protocol_inv N (goto (s\<lparr>pr_side := update_waiter (pr_side s) c (\<lambda>w. w\<lparr>wt_token := False\<rparr>)\<rparr>) t Polling)"
proof -
  let ?side = "update_waiter (pr_side s) c (\<lambda>w. w\<lparr>wt_token := False\<rparr>)"
  note k = parked_class [OF inv own at]
  have nl: "\<not> wt_listed (ws_heap (pr_side s) c)" using token k(3) by simp
  obtain xs where xs: "wait_list (pr_side s) xs" using listed_wait [OF inv] by blast
  obtain b where w: "ws_word (pr_side s) = side_word (card (pollers_of s)) (card (parked_of s)) b"
    using inv_parts(1) [OF inv] by (auto simp: word_inv_def)
  have "\<not> holds_mutex (pr_at s t)" using at by (cases "pr_at s t") simp_all
  moreover have "wait_list ?side xs" using xs by simp
  moreover have "c \<notin> set xs" using xs nl by (simp add: wait_list_def)
  moreover have "insert t (pollers_of s) = pollers_of s" "parked_of s - {t} = parked_of s" using k(1,2) nl by auto
  ultimately have "protocol_inv N (goto (s\<lparr>pr_side := ?side, pr_mu := pr_mu s\<rparr>) t Polling)"
    by (intro inv_relist [OF inv t own, where side' = ?side and m = "pr_mu s" and p = Polling and d = b and ys = xs]
      mutex_keep [OF inv_parts(5) [OF inv]]) (use k(4) nl w in \<open>simp_all add: moved_def zero_waiter_def\<close>)
  then show ?thesis by simp
qed

lemma step_unlink:
  assumes inv: "protocol_inv N s" and t: "t < N" and at: "pr_at s t = Parked" and own: "pr_own s t = Some c"
    and mu: "pr_mu s = None" and l: "wt_listed (ws_heap (pr_side s) c)"
  shows "protocol_inv N (goto (s\<lparr>pr_side := unlink (pr_side s) c, pr_mu := Some t\<rparr>) t Unlinked)"
proof -
  let ?side = "unlink (pr_side s) c"
  have "parked_at (pr_at s t)" using at by simp
  note k = parked_class [OF inv own this]
  obtain xs where xs: "wait_list (pr_side s) xs" using listed_wait [OF inv] by blast
  then obtain ys zs where ys: "xs = ys @ c # zs" using l unfolding wait_list_def by (metis split_list)
  note u = unlink_spec [OF xs [unfolded ys]]
  obtain b where w: "ws_word (pr_side s) = side_word (card (pollers_of s)) (card (parked_of s)) b"
    using inv_parts(1) [OF inv] by (auto simp: word_inv_def)
  have listed: "wt_listed (ws_heap (pr_side s) d) \<longleftrightarrow> d \<in> set (ys @ c # zs)" "wt_listed (ws_heap ?side d) \<longleftrightarrow> d \<in> set (ys @ zs)" for d
    using xs u(1) by (simp_all add: wait_list_def ys)
  have c: "c \<notin> set (ys @ zs)" using xs by (auto simp: wait_list_def ys)
  have "pollers_of s - {t} = pollers_of s" "insert t (parked_of s) = parked_of s" using k(1,2) l by auto
  then show ?thesis
    by (intro inv_relist [OF inv t own, where side' = ?side and m = "Some t" and p = Unlinked and d = b and ys = "ys @ zs"]
      mutex_take [OF inv_parts(5) [OF inv]]) (use k(3) l w mu u c in \<open>auto simp: moved_def unlink_caller zero_waiter_def listed\<close>)
qed

lemma step_selected:
  assumes inv: "protocol_inv N s" and t: "t < N" and at: "pr_at s t = Parked" and own: "pr_own s t = Some c"
    and l: "\<not> wt_listed (ws_heap (pr_side s) c)"
  shows "protocol_inv N (goto s t TokenWait)"
proof -
  have "parked_at (pr_at s t)" using at by simp
  note k = parked_class [OF inv own this]
  obtain xs where xs: "wait_list (pr_side s) xs" using listed_wait [OF inv] by blast
  obtain b where w: "ws_word (pr_side s) = side_word (card (pollers_of s)) (card (parked_of s)) b"
    using inv_parts(1) [OF inv] by (auto simp: word_inv_def)
  have "c \<notin> set xs" using xs l by (simp add: wait_list_def)
  moreover have "insert t (pollers_of s) = pollers_of s" "parked_of s - {t} = parked_of s" using k(1,2) l by auto
  ultimately have "protocol_inv N (goto (s\<lparr>pr_side := pr_side s, pr_mu := pr_mu s\<rparr>) t TokenWait)"
    by (intro inv_relist [OF inv t own, where side' = "pr_side s" and m = "pr_mu s" and p = TokenWait and d = b and ys = xs]
      mutex_keep [OF inv_parts(5) [OF inv]]) (use k(3,4) l w xs at in \<open>simp_all add: moved_def\<close>)
  then show ?thesis by simp
qed

lemma pollers_or_parked:
  "pollers_of s \<union> parked_of s = {t. registered_at (pr_at s t) \<or> unlinked_at (pr_at s t) \<or> parked_at (pr_at s t)}"
  by (auto simp: pollers_of_def parked_of_def)

text \<open>While a waker holds the mutex nobody else is between unlinking and its swap.\<close>

lemma wake_state:
  assumes inv: "protocol_inv N s" and N: "N < 2 ^ 31" and at: "pr_at s t = WakeLoaded g w"
  shows "\<not> unlinked_at (pr_at s t')" "goal_ok g"
    and "\<exists>xs b. side_state (pr_side s) (card (pollers_of s)) xs b \<and> card (parked_of s) = length xs"
proof -
  note a = inv_parts(5) [OF inv]
  show nu: "\<not> unlinked_at (pr_at s t')" for t'
  proof
    assume "unlinked_at (pr_at s t')"
    then have "holds_mutex (pr_at s t')" by (cases "pr_at s t'") simp_all
    moreover have "holds_mutex (pr_at s t)" using at by simp
    ultimately have "t' = t" using a unfolding at_inv_def by (metis option.inject)
    then show False using \<open>unlinked_at (pr_at s t')\<close> at by simp
  qed
  have "load_ok (pr_at s t)" using a by (simp add: at_inv_def)
  then show "goal_ok g" using at by simp
  obtain xs where xs: "wait_list (pr_side s) xs" "\<forall>c\<in>set xs. \<not> wt_token (ws_heap (pr_side s) c)"
    using listed_wait [OF inv] by blast
  have "parked_of s = {t. parked_at (pr_at s t) \<and> listed s t}" using nu by (auto simp: parked_of_def)
  then have len: "card (parked_of s) = length xs" using list_owners(2) [OF inv_parts(4,2) [OF inv] xs(1)] by simp
  obtain b where "ws_word (pr_side s) = side_word (card (pollers_of s)) (length xs) b"
      "card (pollers_of s) < 2 ^ 31" "length xs < 2 ^ 31"
    using word_inv_reads [OF inv_parts(1,5) [OF inv] N] len by metis
  with xs len show "\<exists>xs b. side_state (pr_side s) (card (pollers_of s)) xs b \<and> card (parked_of s) = length xs"
    by (auto simp: side_state_def)
qed

lemma step_wake:
  assumes inv: "protocol_inv N s" and t: "t < N" "N < 2 ^ 31" and at: "pr_at s t = WakeLoaded g w"
    and r: "wakeAttempt (pr_side s) w g = Some (Return woke side')"
  shows "protocol_inv N (goto (s\<lparr>pr_side := side', pr_mu := None\<rparr>) t Idle)" (is "protocol_inv N ?s")
proof -
  note a = inv_parts(5) [OF inv] and nu = wake_state(1) [OF inv t(2) at] and g = wake_state(2) [OF inv t(2) at]
  obtain xs b where st0: "side_state (pr_side s) (card (pollers_of s)) xs b" and len: "card (parked_of s) = length xs"
    using wake_state(3) [OF inv t(2) at] by blast
  have xs: "wait_list (pr_side s) xs" using st0 by (simp add: side_state_def)
  obtain n where n: "n \<le> length xs"
      and st: "side_state side' (card (pollers_of s) + n) (drop n xs) b"
      and new: "\<forall>w\<in>set (take n xs). ws_heap side' w = zero_waiter\<lparr>wt_token := True\<rparr>"
      and frame: "\<forall>d. d \<notin> set xs \<longrightarrow> ws_heap side' d = ws_heap (pr_side s) d"
      "ws_pool side' = ws_pool (pr_side s)" "ws_fresh side' = ws_fresh (pr_side s)"
    using wakeAttempt_spec [OF st0 g r] by auto
  have listed: "wt_listed (ws_heap (pr_side s) d) \<longleftrightarrow> d \<in> set xs" "wt_listed (ws_heap side' d) \<longleftrightarrow> d \<in> set (drop n xs)" for d
    using xs st by (simp_all add: side_state_def wait_list_def)
  have side: "pr_side ?s = side'" and wl: "wait_list side' (drop n xs)" using st by (simp_all add: side_state_def)
  have np: "\<not> parked_at (pr_at s t)" "\<not> registered_at (pr_at s t)" "\<not> unlinked_at (pr_at s t)" "holds_mutex (pr_at s t)"
    using at by simp_all
  have own: "own_inv ?s" using inv_parts(4) [OF inv] frame by (simp add: own_inv_def)
  have li: "list_inv ?s"
  proof -
    obtain ys where ys: "wait_list (pr_side s) ys" "\<forall>c. c \<in> set ys \<longrightarrow> (\<exists>t. pr_own s t = Some c \<and> pr_at s t = Parked)"
      using inv_parts(2) [OF inv] unfolding list_inv_def by blast
    have "\<exists>t'. pr_own ?s t' = Some c \<and> pr_at ?s t' = Parked" if c: "c \<in> set (drop n xs)" for c
    proof -
      have "c \<in> set ys" using ys(1) listed(1) [of c] in_set_dropD [OF c] by (simp add: wait_list_def)
      then obtain t' where t': "pr_own s t' = Some c" "pr_at s t' = Parked" using ys(2) by blast
      then have "t' \<noteq> t" using at by auto
      with t' show ?thesis by (intro exI [of _ t']) simp
    qed
    with wl show ?thesis unfolding list_inv_def side by blast
  qed
  have owner: "owner ?s = owner s" using np by (auto simp: owner_def fun_eq_iff)
  have wi: "waiter_inv ?s"
    unfolding waiter_inv_def owner side
  proof (intro conjI allI impI)
    fix t' d assume o: "owner s d t'"
    have old: "wt_token (ws_heap (pr_side s) d) = (\<not> wt_listed (ws_heap (pr_side s) d))
        \<and> (\<not> wt_listed (ws_heap (pr_side s) d) \<longrightarrow> ws_heap (pr_side s) d = zero_waiter\<lparr>wt_token := True\<rparr>)"
      using o inv_parts(3) [OF inv] unfolding waiter_inv_def by blast
    have cases: "d \<notin> set xs \<or> d \<in> set (take n xs) \<or> d \<in> set (drop n xs)" by (metis Un_iff append_take_drop_id set_append)
    have disj: "set (take n xs) \<inter> set (drop n xs) = {}"
      using xs by (simp add: wait_list_def set_take_disj_set_drop_if_distinct)
    show "wt_token (ws_heap side' d) = (\<not> wt_listed (ws_heap side' d))"
      using cases disj new frame(1) old st listed by (auto simp: side_state_def zero_waiter_def)
    show "ws_heap side' d = zero_waiter\<lparr>wt_token := True\<rparr>" if "\<not> wt_listed (ws_heap side' d)"
      using cases new frame(1) old that listed by auto
  next
    fix d assume "\<nexists>t'. owner s d t'"
    then have z: "ws_heap (pr_side s) d = zero_waiter" using inv_parts(3) [OF inv] by (simp add: waiter_inv_def clean_def)
    then have "d \<notin> set xs" using listed(1) [of d] by (simp add: zero_waiter_def)
    with z frame(1) show "clean side' d" by (simp add: clean_def)
  qed
  have ai: "at_inv N ?s"
    unfolding at_inv_def
  proof (intro conjI allI impI)
    fix t'
    note a' = a [unfolded at_inv_def]
    show "holds_mutex (pr_at ?s t') = (pr_mu ?s = Some t')" using mutex_free [OF a np(4), of Idle] by simp
    show "load_ok (pr_at ?s t')" using a' by simp
    show "pr_at ?s t' = Idle" if "N \<le> t'" using a' that by simp
    show "pr_own ?s t' \<noteq> None" if "parked_at (pr_at ?s t') \<or> registered_at (pr_at ?s t') \<and> holds_mutex (pr_at ?s t')"
      using a' that by (cases "t' = t") auto
    show "\<not> listed ?s t'" if "pr_at ?s t' = TokenWait"
    proof -
      have "\<not> listed s t'" using a' that by (cases "t' = t") auto
      then show ?thesis using listed by (auto simp: listed_def dest: in_set_dropD)
    qed
  qed
  have "parked_of ?s = {t. parked_at (pr_at ?s t) \<and> listed ?s t}"
    using nu by (auto simp: parked_of_def)
  then have pk': "card (parked_of ?s) = length xs - n" using list_owners(2) [OF own li, of "drop n xs"] wl side by simp
  have "pollers_of ?s \<union> parked_of ?s = pollers_of s \<union> parked_of s"
    unfolding pollers_or_parked using np by auto
  then have "card (pollers_of ?s) + card (parked_of ?s) = card (pollers_of s) + card (parked_of s)"
    using counts_bounded(1,2) [OF a] pollers_bounded(3) [OF a] counts_bounded(1,2) [OF ai] pollers_bounded(3) [OF ai]
    by (metis card_Un_disjoint)
  then have "card (pollers_of ?s) = card (pollers_of s) + n" using pk' len n by simp
  then have "word_inv ?s" using st pk' unfolding word_inv_def side by (auto simp: side_state_def)
  with own li wi ai inv show ?thesis by (simp add: protocol_inv_def)
qed

text \<open>Taking and returning a waiter changes neither the word nor the heap.\<close>

lemma inv_own:
  assumes inv: "protocol_inv N s" and at: "pr_at s t = Idle \<or> pr_at s t = Polling"
    and same: "ws_heap side' = ws_heap (pr_side s)" "ws_word side' = ws_word (pr_side s)"
      "ws_oldest side' = ws_oldest (pr_side s)" "ws_newest side' = ws_newest (pr_side s)"
    and own: "own_inv (s\<lparr>pr_side := side', pr_own := (pr_own s)(t := x)\<rparr>)" (is "own_inv ?s")
  shows "protocol_inv N ?s"
proof -
  have np: "\<not> parked_at (pr_at s t)" "\<not> holds_mutex (pr_at s t)" using at by auto
  have listed: "listed ?s t' = listed s t'" if "t' \<noteq> t" for t' using that by (simp add: listed_def same)
  then have "parked_at (pr_at s t') \<Longrightarrow> listed ?s t' = listed s t'" for t' using np by (cases "t' = t") simp_all
  then have "pollers_of ?s = pollers_of s" "parked_of ?s = parked_of s" by (auto simp: pollers_of_def parked_of_def)
  then have "word_inv ?s" using inv_parts(1) [OF inv] by (simp add: word_inv_def same)
  moreover have "owner ?s = owner s" using np by (auto simp: owner_def fun_eq_iff)
  then have "waiter_inv ?s" using inv_parts(3) [OF inv] by (simp add: waiter_inv_def clean_def same)
  moreover have "list_inv ?s"
  proof -
    obtain xs where xs: "wait_list (pr_side s) xs" "\<forall>c. c \<in> set xs \<longrightarrow> (\<exists>t. pr_own s t = Some c \<and> pr_at s t = Parked)"
      using inv_parts(2) [OF inv] unfolding list_inv_def by blast
    have "\<exists>t'. pr_own ?s t' = Some c \<and> pr_at ?s t' = Parked" if c: "c \<in> set xs" for c
    proof -
      obtain t' where t': "pr_own s t' = Some c" "pr_at s t' = Parked" using xs(2) c by blast
      then have "t' \<noteq> t" using at by auto
      with t' show ?thesis by (intro exI [of _ t']) simp
    qed
    moreover have "wait_list (pr_side ?s) xs" using xs(1) by (simp add: wait_list_def same)
    ultimately show ?thesis unfolding list_inv_def by blast
  qed
  moreover have "at_inv N ?s"
    unfolding at_inv_def
  proof (intro conjI allI impI)
    fix t'
    note a = inv_parts(5) [OF inv, unfolded at_inv_def]
    show "holds_mutex (pr_at ?s t') = (pr_mu ?s = Some t')" "load_ok (pr_at ?s t')" using a by simp_all
    show "pr_at ?s t' = Idle" if "N \<le> t'" using a that by simp
    show "pr_own ?s t' \<noteq> None" if "parked_at (pr_at ?s t') \<or> registered_at (pr_at ?s t') \<and> holds_mutex (pr_at ?s t')"
      using a np that by (cases "t' = t") auto
    show "\<not> listed ?s t'" if "pr_at ?s t' = TokenWait" using a at that listed [of t'] by (cases "t' = t") auto
  qed
  ultimately show ?thesis using own inv by (simp add: protocol_inv_def)
qed

lemma step_get:
  assumes inv: "protocol_inv N s" and at: "pr_at s t = Idle \<or> pr_at s t = Polling" and own: "pr_own s t = None"
    and g: "getWaiter pick (pr_side s) = (side', c)"
  shows "protocol_inv N (s\<lparr>pr_side := side', pr_own := (pr_own s)(t := Some c)\<rparr>)" (is "protocol_inv N ?s")
proof -
  have o: "\<forall>t t' c. pr_own s t = Some c \<longrightarrow> pr_own s t' = Some c \<longrightarrow> t = t'"
    "\<forall>t c. pr_own s t = Some c \<longrightarrow> c \<notin> set (ws_pool (pr_side s)) \<and> c < ws_fresh (pr_side s)"
    "distinct (ws_pool (pr_side s))" "\<forall>c\<in>set (ws_pool (pr_side s)). c < ws_fresh (pr_side s)"
    using inv_parts(4) [OF inv] by (simp_all add: own_inv_def)
  consider i where "i < length (ws_pool (pr_side s))" "c = ws_pool (pr_side s) ! i"
      "side' = (pr_side s)\<lparr>ws_pool := take i (ws_pool (pr_side s)) @ drop (i + 1) (ws_pool (pr_side s))\<rparr>"
    | "newWaiter (pr_side s) = (side', c)"
    using g by (auto simp: getWaiter_def split: option.splits if_splits)
  then show ?thesis
  proof cases
    case (1 i)
    let ?p = "ws_pool (pr_side s)"
    have p: "?p = take i ?p @ c # drop (i + 1) ?p" using 1(1,2) by (simp add: id_take_nth_drop)
    then have c: "c \<in> set ?p" by (metis in_set_conv_decomp)
    have sub: "set (ws_pool side') \<subseteq> set ?p" by (auto simp: 1(3) dest: in_set_takeD in_set_dropD)
    have "distinct (take i ?p @ c # drop (i + 1) ?p)" using o(3) p by metis
    then have d: "c \<notin> set (ws_pool side')" "distinct (ws_pool side')" by (auto simp: 1(3))
    have free: "pr_own s t' \<noteq> Some c" for t' using o(2) c by blast
    have "own_inv ?s"
      unfolding own_inv_def using o d sub c free by (auto simp: 1(3))
    then show ?thesis using inv at by (intro inv_own) (simp_all add: 1(3))
  next
    case 2
    then have n: "c = ws_fresh (pr_side s)" "side' = (pr_side s)\<lparr>ws_heap := (ws_heap (pr_side s))(c := zero_waiter), ws_fresh := c + 1\<rparr>"
      by (auto simp: newWaiter_def)
    have free: "pr_own s t' \<noteq> Some c" for t' using o(2) n(1) by blast
    then have "ws_heap (pr_side s) c = zero_waiter"
      using inv_parts(3) [OF inv] by (simp add: waiter_inv_def owner_def clean_def)
    then have heap: "ws_heap side' = ws_heap (pr_side s)" by (simp add: n(2) fun_upd_idem)
    have "c \<notin> set (ws_pool (pr_side s))" using o(4) n(1) by blast
    then have "own_inv ?s"
      unfolding own_inv_def using o free n(1) by (auto simp: n(2) less_Suc_eq)
    then show ?thesis using inv at heap by (intro inv_own) (simp_all add: n(2))
  qed
qed

lemma step_put:
  assumes inv: "protocol_inv N s" and at: "pr_at s t = Idle \<or> pr_at s t = Polling" and own: "pr_own s t = Some c"
  shows "protocol_inv N (s\<lparr>pr_side := putWaiter (pr_side s) c, pr_own := (pr_own s)(t := None)\<rparr>)" (is "protocol_inv N ?s")
proof -
  have o: "\<forall>t t' c. pr_own s t = Some c \<longrightarrow> pr_own s t' = Some c \<longrightarrow> t = t'"
    "\<forall>t c. pr_own s t = Some c \<longrightarrow> c \<notin> set (ws_pool (pr_side s)) \<and> c < ws_fresh (pr_side s)"
    "distinct (ws_pool (pr_side s))" "\<forall>c\<in>set (ws_pool (pr_side s)). c < ws_fresh (pr_side s)"
    using inv_parts(4) [OF inv] by (simp_all add: own_inv_def)
  then have "own_inv ?s" unfolding own_inv_def using own by (auto simp: putWaiter_def)
  then show ?thesis using inv at by (intro inv_own) (simp_all add: putWaiter_def)
qed

lemma stale_no_panic:
  assumes "protocol_inv N s" "N < 2 ^ 31"
  shows "pr_at s t = Leaving w \<Longrightarrow> leavePollingAttempt (pr_side s) w \<noteq> Some (Panic p side')"
    and "pr_at s t = EnlistLoaded pos w \<Longrightarrow> enlistAttempt (pr_side s) w c pos \<noteq> Some (Panic p side')"
    and "pr_at s t = UnlinkedLoaded w \<Longrightarrow> unparkAttempt (pr_side s) w \<noteq> Some (Panic p side')"
proof -
  have l: "load_ok (pr_at s t)" using inv_parts(5) [OF assms(1)] by (simp add: at_inv_def)
  show "pr_at s t = Leaving w \<Longrightarrow> leavePollingAttempt (pr_side s) w \<noteq> Some (Panic p side')"
    "pr_at s t = EnlistLoaded pos w \<Longrightarrow> enlistAttempt (pr_side s) w c pos \<noteq> Some (Panic p side')"
    "pr_at s t = UnlinkedLoaded w \<Longrightarrow> unparkAttempt (pr_side s) w \<noteq> Some (Panic p side')"
    using l by (auto simp: leavePollingAttempt_def enlistAttempt_def unparkAttempt_def compareAndSwap_def split: if_splits)
qed

lemma wake_no_panic:
  assumes inv: "protocol_inv N s" and N: "N < 2 ^ 31" and at: "pr_at s t = WakeLoaded g w"
  shows "wakeAttempt (pr_side s) w g \<noteq> Some (Panic p side')"
  using wakeAttempt_spec [OF _ wake_state(2) [OF assms]] wake_state(3) [OF assms] by (metis outcome.distinct(1))

lemma protocol_inv_step:
  assumes "protocol_step t s s'" "protocol_inv N s" "t < N" "N < 2 ^ 31"
  shows "protocol_inv N s'"
  using assms(1)
proof cases
  case register_load
  then show ?thesis using inv_stay_same [OF assms(2,3), of "Registering (ws_word (pr_side s))"] by simp
next
  case (register_done w side' closed)
  then show ?thesis using assms swap_register by blast
next
  case (register_retry w)
  then show ?thesis using inv_stay_same [OF assms(2,3), of "Idle"] by simp
next
  case leave_load
  then show ?thesis using load_counts(1) [OF assms(2,4), of t] inv_stay_same [OF assms(2,3), of "Leaving (ws_word (pr_side s))"] by simp
next
  case (leave_done w left side')
  then show ?thesis using assms swap_leave by blast
next
  case (leave_panic w p side')
  then show ?thesis using stale_no_panic(1) [OF assms(2,4)] by blast
next
  case (leave_retry w)
  then show ?thesis using inv_stay_same [OF assms(2,3), of "Polling"] by simp
next
  case (get_waiter pick side' c)
  then show ?thesis using assms step_get by blast
next
  case (put_waiter c)
  then show ?thesis using assms step_put by blast
next
  case (enlist_lock c pos)
  then show ?thesis
    using assms inv_stay [OF assms(2,3) _ _ _ _ mutex_take [OF inv_parts(5) [OF assms(2)]], of "Enlisting pos"] by simp
next
  case (enlist_load pos)
  then show ?thesis using load_counts(1) [OF assms(2,4), of t] inv_stay_same [OF assms(2,3), of "EnlistLoaded pos (ws_word (pr_side s))"] by simp
next
  case (enlist_done pos w c closed side')
  then show ?thesis using assms step_enlist by blast
next
  case (enlist_panic pos w c p side')
  then show ?thesis using stale_no_panic(2) [OF assms(2,4)] by blast
next
  case (enlist_retry pos w c)
  then show ?thesis using inv_stay_same [OF assms(2,3), of "Enlisting pos"] by simp
next
  case (token_wake c)
  then show ?thesis using assms step_token [OF assms(2,3), of c] by auto
next
  case (list_listed c)
  then show ?thesis using assms step_unlink by blast
next
  case (list_selected c)
  then show ?thesis using assms step_selected by blast
next
  case unpark_load
  then show ?thesis using load_counts(2) [OF assms(2,4), of t] inv_stay_same [OF assms(2,3), of "UnlinkedLoaded (ws_word (pr_side s))"] by simp
next
  case (unpark_done w u side')
  then show ?thesis using assms swap_unpark by blast
next
  case (unpark_panic w p side')
  then show ?thesis using stale_no_panic(3) [OF assms(2,4)] by blast
next
  case (unpark_retry w)
  then show ?thesis using inv_stay_same [OF assms(2,3), of "Unlinked"] by simp
next
  case (wake_lock g)
  then show ?thesis
    using assms inv_stay [OF assms(2,3) _ _ _ _ mutex_take [OF inv_parts(5) [OF assms(2)]], of "Waking g"] by simp
next
  case (wake_load g)
  moreover have "load_ok (pr_at s t)" using inv_parts(5) [OF assms(2)] by (simp add: at_inv_def)
  ultimately show ?thesis using inv_stay_same [OF assms(2,3), of "WakeLoaded g (ws_word (pr_side s))"] by simp
next
  case (wake_done g w woke side')
  then show ?thesis using assms step_wake by blast
next
  case (wake_panic g w p side')
  then show ?thesis using wake_no_panic [OF assms(2,4)] by blast
next
  case (wake_retry g w)
  moreover have "load_ok (pr_at s t)" using inv_parts(5) [OF assms(2)] by (simp add: at_inv_def)
  ultimately show ?thesis using inv_stay_same [OF assms(2,3), of "Waking g"] by simp
next
  case close_lock
  then show ?thesis
    using assms inv_stay [OF assms(2,3) _ _ _ _ mutex_take [OF inv_parts(5) [OF assms(2)]], of Closing] by simp
next
  case close_load
  then show ?thesis using inv_stay_same [OF assms(2,3), of "CloseLoaded (ws_word (pr_side s))"] by simp
next
  case (close_done w side' first)
  then show ?thesis using assms swap_close by blast
next
  case (close_retry w)
  then show ?thesis using inv_stay_same [OF assms(2,3), of "Closing"] by simp
qed

lemma protocol_inv_init: "protocol_inv N protocol_init"
proof -
  have [simp]: "pollers_of protocol_init = {}" "parked_of protocol_init = {}"
    by (simp_all add: pollers_of_def parked_of_def protocol_init_def)
  have "word_inv protocol_init"
    unfolding word_inv_def by (intro exI [of _ False]) (simp add: side_word_def, simp add: protocol_init_def zero_waitSide_def)
  moreover have "list_inv protocol_init"
    unfolding list_inv_def by (intro exI [of _ "[]"]) (simp add: protocol_init_def zero_waitSide_def wait_list_def zero_waiter_def)
  moreover have "waiter_inv protocol_init" "own_inv protocol_init" "at_inv N protocol_init"
    by (simp_all add: waiter_inv_def own_inv_def at_inv_def owner_def clean_def protocol_init_def zero_waitSide_def)
  ultimately show ?thesis by (simp add: protocol_inv_def protocol_init_def)
qed

lemma reachable_inv: "reachable N s \<Longrightarrow> N < 2 ^ 31 \<Longrightarrow> protocol_inv N s"
  by (induction rule: reachable.induct) (auto intro: protocol_inv_init protocol_inv_step)

section \<open>Properties\<close>

lemma free_side:
  assumes "protocol_inv N s" "pr_mu s = None"
  shows "\<exists>xs. wait_list (pr_side s) xs \<and> card (parked_of s) = length xs"
proof -
  obtain xs where xs: "wait_list (pr_side s) xs" using listed_wait [OF assms(1)] by blast
  have "\<not> unlinked_at (pr_at s t)" for t
  proof
    assume "unlinked_at (pr_at s t)"
    then have "holds_mutex (pr_at s t)" by (cases "pr_at s t") simp_all
    then show False using inv_parts(5) [OF assms(1)] assms(2) unfolding at_inv_def by simp
  qed
  then have "parked_of s = {t. parked_at (pr_at s t) \<and> listed s t}" by (auto simp: parked_of_def)
  with list_owners(2) [OF inv_parts(4,2) [OF assms(1)] xs] xs show ?thesis by auto
qed

text \<open>
  C10. However the callers of one side interleave, with stale loads and failed swaps, none of the panics
  of the wait side is reached, the poller count of the word is the number of registrations, whenever
  the mutex is free the parked count is the length of the linked list, which holds the waiters of
  parked callers, and every pooled waiter is clean.
\<close>

theorem wait_protocol_safe:
  assumes "reachable N s" "N < 2 ^ 31"
  shows "\<not> pr_panicked s
    \<and> unat (sideWord_pollers (ws_word (pr_side s))) = card (pollers_of s)
    \<and> (pr_mu s = None \<longrightarrow> (\<exists>xs. wait_list (pr_side s) xs \<and> unat (sideWord_parked (ws_word (pr_side s))) = length xs
          \<and> (\<forall>c\<in>set xs. \<exists>t<N. pr_own s t = Some c \<and> pr_at s t = Parked)))
    \<and> (\<forall>c\<in>set (ws_pool (pr_side s)). ws_heap (pr_side s) c = zero_waiter)"
proof (intro conjI)
  note inv = reachable_inv [OF assms]
  obtain b where w: "ws_word (pr_side s) = side_word (card (pollers_of s)) (card (parked_of s)) b"
      "card (pollers_of s) < 2 ^ 31" "card (parked_of s) < 2 ^ 31"
    using word_inv_reads [OF inv_parts(1,5) [OF inv] assms(2)] by blast
  show "\<not> pr_panicked s" by (rule inv_parts(6) [OF inv])
  show "unat (sideWord_pollers (ws_word (pr_side s))) = card (pollers_of s)" using w by (simp add: unat_of_nat)
  show "pr_mu s = None \<longrightarrow> (\<exists>xs. wait_list (pr_side s) xs \<and> unat (sideWord_parked (ws_word (pr_side s))) = length xs
      \<and> (\<forall>c\<in>set xs. \<exists>t<N. pr_own s t = Some c \<and> pr_at s t = Parked))"
  proof
    assume "pr_mu s = None"
    then obtain xs where xs: "wait_list (pr_side s) xs" "card (parked_of s) = length xs" using free_side [OF inv] by blast
    obtain ys where ys: "wait_list (pr_side s) ys" "\<forall>c. c \<in> set ys \<longrightarrow> (\<exists>t. pr_own s t = Some c \<and> pr_at s t = Parked)"
      using inv_parts(2) [OF inv] unfolding list_inv_def by blast
    have "set ys = set xs" using xs(1) ys(1) by (auto simp: wait_list_def)
    moreover have "t < N" if "pr_at s t = Parked" for t
    proof (rule ccontr)
      assume "\<not> t < N"
      then have "pr_at s t = Idle" using inv_parts(5) [OF inv] by (simp add: at_inv_def)
      with that show False by simp
    qed
    ultimately have "\<forall>c\<in>set xs. \<exists>t<N. pr_own s t = Some c \<and> pr_at s t = Parked" using ys(2) by metis
    with xs w show "\<exists>xs. wait_list (pr_side s) xs \<and> unat (sideWord_parked (ws_word (pr_side s))) = length xs
        \<and> (\<forall>c\<in>set xs. \<exists>t<N. pr_own s t = Some c \<and> pr_at s t = Parked)" by (auto simp: unat_of_nat)
  qed
  show "\<forall>c\<in>set (ws_pool (pr_side s)). ws_heap (pr_side s) c = zero_waiter"
  proof
    fix c assume "c \<in> set (ws_pool (pr_side s))"
    then have "\<nexists>t. owner s c t" using inv_parts(4) [OF inv] unfolding own_inv_def owner_def by blast
    then show "ws_heap (pr_side s) c = zero_waiter"
      using inv_parts(3) [OF inv] by (simp add: waiter_inv_def clean_def)
  qed
qed

section \<open>Witnesses\<close>

text \<open>Caller 0 registers, takes a waiter and parks.\<close>

definition parked_side :: waitSide where
  "parked_side = \<lparr>ws_word = oneParked, ws_oldest = Some 0, ws_newest = Some 0, ws_pool = [],
     ws_heap = (\<lambda>_. zero_waiter)(0 := zero_waiter\<lparr>wt_listed := True\<rparr>), ws_fresh = 1\<rparr>"

lemma parked_reachable:
  "reachable 2 \<lparr>pr_side = parked_side, pr_mu = None, pr_at = (\<lambda>_. Idle)(0 := Parked), pr_own = (\<lambda>_. None)(0 := Some 0),
     pr_panicked = False\<rparr>"
proof -
  let ?own = "\<lparr>pr_side = zero_waitSide\<lparr>ws_word := 1, ws_fresh := 1\<rparr>, pr_mu = None, pr_at = (\<lambda>_. Idle)(0 := Polling),
     pr_own = (\<lambda>_. None)(0 := Some 0), pr_panicked = False\<rparr>"
  let ?reg = "\<lparr>pr_side = zero_waitSide\<lparr>ws_word := 1\<rparr>, pr_mu = None, pr_at = (\<lambda>_. Idle)(0 := Polling), pr_own = (\<lambda>_. None),
     pr_panicked = False\<rparr>"
  have "reachable 2 (goto protocol_init 0 (Registering 0))"
    using reachable_step [OF reachable_init _ register_load [of protocol_init 0]] by (simp add: protocol_init_def zero_waitSide_def)
  then have "reachable 2 ?reg"
    using reachable_step [OF _ _ register_done [of "goto protocol_init 0 (Registering 0)" 0 0 "zero_waitSide\<lparr>ws_word := 1\<rparr>" False], of 2]
    by (simp add: protocol_init_def registerAttempt_def compareAndSwap_def sideWord_closed_def onePoller_def zero_waitSide_def)
  then have "reachable 2 ?own"
    using reachable_step [OF _ _ get_waiter [of ?reg 0 None "zero_waitSide\<lparr>ws_word := 1, ws_fresh := 1\<rparr>" 0], of 2]
    by (simp add: getWaiter_def newWaiter_def zero_waitSide_def fun_upd_idem)
  then have "reachable 2 (goto (?own\<lparr>pr_mu := Some 0\<rparr>) 0 (Enlisting atNewest))"
    using reachable_step [OF _ _ enlist_lock [of ?own 0 0 atNewest], of 2] by simp
  then have "reachable 2 (goto (?own\<lparr>pr_mu := Some 0\<rparr>) 0 (EnlistLoaded atNewest 1))"
    using reachable_step [OF _ _ enlist_load [of "goto (?own\<lparr>pr_mu := Some 0\<rparr>) 0 (Enlisting atNewest)" 0 atNewest], of 2] by simp
  moreover have "enlistAttempt (zero_waitSide\<lparr>ws_word := 1, ws_fresh := 1\<rparr>) 1 0 atNewest = Some (Return False parked_side)"
    by (simp add: enlistAttempt_def compareAndSwap_def sideWord_closed_def sideWord_pollers_def closedFlag_def countMask_def
      onePoller_def enlist_link_def Let_def update_waiter_def parked_side_def zero_waitSide_def zero_waiter_def)
  ultimately show ?thesis
    using reachable_step [OF _ _ enlist_done [of "goto (?own\<lparr>pr_mu := Some 0\<rparr>) 0 (EnlistLoaded atNewest 1)" 0 atNewest 1 0 False parked_side], of 2]
    by simp
qed

theorem wait_protocol_safe_witness:
  "\<exists>s. reachable 2 s \<and> pr_at s 0 = Parked \<and> \<not> pr_panicked s \<and> (\<exists>xs. wait_list (pr_side s) xs \<and> length xs = 1)"
proof -
  have "unat (sideWord_parked (ws_word parked_side)) = 1"
    by (simp add: parked_side_def sideWord_parked_def oneParked_def countMask_def)
  with wait_protocol_safe [OF parked_reachable] parked_reachable show ?thesis by fastforce
qed

end
