(* ===== verification/WakeHandoff.thy ===== *)
theory WakeHandoff
  imports WaitProtocol
begin

text \<open>
  Why no wake is lost: the consumer side of a queue with any number of consumers and producers. The
  decisions of \<^verbatim>\<open>workq/consumer_wake.go\<close> are functions of the loaded word and of the sampled number of
  visible items. A step is one operation on the wait side (atomic, as \<open>WaitProtocol\<close> justifies), one
  attempt on the engine, or one sample of it, in the order in which \<^verbatim>\<open>wait.go\<close> and \<^verbatim>\<open>push.go\<close> make
  them. The engine is the number of its visible items. Consumer \<open>t\<close> keeps the waiter \<open>t\<close>, as a call
  of \<^verbatim>\<open>Consume\<close> keeps its own.
\<close>

section \<open>Decisions\<close>

definition consumerTargetOf :: "u32 \<Rightarrow> int \<Rightarrow> int \<Rightarrow> u32" where
  "consumerTargetOf consumerWakeCap maxReceiveBatch available =
     (if available = 0 then 0
      else of_int (min (int (unat consumerWakeCap)) (1 + (available - 1) div maxReceiveBatch)))"

datatype decision = NoWake | WakeNow wake_goal | NeedSample

definition publicationDecision :: "u32 \<Rightarrow> sideWord \<Rightarrow> decision" where
  "publicationDecision cap w =
     (if sideWord_parked w = 0 then NoWake
      else if cap = 1 then (if sideWord_needsWake w then WakeNow GoalOne else NoWake)
      else if sideWord_pollers w \<ge> cap then NoWake
      else NeedSample)"

definition publicationGoal :: "u32 \<Rightarrow> int \<Rightarrow> sideWord \<Rightarrow> int \<Rightarrow> wake_goal option" where
  "publicationGoal cap batch w available =
     (let target = max 1 (consumerTargetOf cap batch available)
      in if sideWord_pollers w < target then Some (GoalGroup target) else None)"

definition replenishDecision :: "u32 \<Rightarrow> sideWord \<Rightarrow> decision" where
  "replenishDecision cap w =
     (if sideWord_parked w = 0 \<or> sideWord_pollers w \<ge> cap then NoWake else NeedSample)"

definition replenishGoal :: "u32 \<Rightarrow> int \<Rightarrow> sideWord \<Rightarrow> int \<Rightarrow> wake_goal option" where
  "replenishGoal cap batch w available =
     (if cap = 1 then (if available > 0 then Some GoalOne else None)
      else (let target = consumerTargetOf cap batch available
            in if sideWord_pollers w < target then Some (GoalGroup target) else None))"

definition wake_goal_run :: "waitSide \<Rightarrow> wake_goal \<Rightarrow> (waitSide, bool) outcome option" where
  "wake_goal_run side g = (case g of GoalOne \<Rightarrow> wakeOne side | GoalGroup target \<Rightarrow> wakeGroup side target)"

section \<open>The system\<close>

datatype consumer_at =
    COut | CPolling | CLeaving | CSample sideWord | CWake wake_goal | CListed | CTook | CReload | CBlocked

datatype producer_at = PIdle | PPublished | PSample sideWord | PWake wake_goal

record handoff =
  ho_items :: nat
  ho_side :: waitSide
  ho_con :: "nat \<Rightarrow> consumer_at"
  ho_pro :: "nat \<Rightarrow> producer_at"

definition handoff_init :: handoff where
  "handoff_init = \<lparr>ho_items = 0, ho_side = zero_waitSide, ho_con = (\<lambda>_. COut), ho_pro = (\<lambda>_. PIdle)\<rparr>"

definition con_to :: "handoff \<Rightarrow> nat \<Rightarrow> consumer_at \<Rightarrow> handoff" where
  "con_to s t p = s\<lparr>ho_con := (ho_con s)(t := p)\<rparr>"

definition pro_to :: "handoff \<Rightarrow> nat \<Rightarrow> producer_at \<Rightarrow> handoff" where
  "pro_to s i p = s\<lparr>ho_pro := (ho_pro s)(i := p)\<rparr>"

definition take_token :: "waitSide \<Rightarrow> nat \<Rightarrow> waitSide" where
  "take_token side c = update_waiter side c (\<lambda>w. w\<lparr>wt_token := False\<rparr>)"

definition replenish_at :: "u32 \<Rightarrow> sideWord \<Rightarrow> consumer_at" where
  "replenish_at cap w = (case replenishDecision cap w of NoWake \<Rightarrow> COut | WakeNow g \<Rightarrow> CWake g | NeedSample \<Rightarrow> CSample w)"

text \<open>
  \<open>take_fast\<close> is an attempt without registration, \<open>leave_poll\<close> a registered consumer that saw a
  closed queue or a done context, \<open>cancel\<close> the same for a blocked one. A publication makes any number
  of items visible, none when an earlier reservation is unfinished.
\<close>

inductive handoff_step :: "u32 \<Rightarrow> int \<Rightarrow> nat \<Rightarrow> handoff \<Rightarrow> handoff \<Rightarrow> bool" for cap batch N where
  take_fast: "ho_con s t = COut \<Longrightarrow> k \<le> ho_items s
    \<Longrightarrow> handoff_step cap batch N s (s\<lparr>ho_items := ho_items s - k\<rparr>)"
| c_register: "t < N \<Longrightarrow> ho_con s t = COut \<Longrightarrow> register (ho_side s) = Some (side', closed)
    \<Longrightarrow> handoff_step cap batch N s (con_to (s\<lparr>ho_side := side'\<rparr>) t (if closed then COut else CPolling))"
| poll_take: "ho_con s t = CPolling \<Longrightarrow> 0 < k \<Longrightarrow> k \<le> ho_items s
    \<Longrightarrow> handoff_step cap batch N s (con_to (s\<lparr>ho_items := ho_items s - k\<rparr>) t CLeaving)"
| leave_poll: "ho_con s t = CPolling \<Longrightarrow> handoff_step cap batch N s (con_to s t CLeaving)"
| c_leave: "ho_con s t = CLeaving \<Longrightarrow> leavePollingAttempt (ho_side s) (ws_word (ho_side s)) = Some (Return left side')
    \<Longrightarrow> handoff_step cap batch N s (con_to (s\<lparr>ho_side := side'\<rparr>) t (replenish_at cap left))"
| c_sample: "ho_con s t = CSample w
    \<Longrightarrow> handoff_step cap batch N s (con_to s t
          (case replenishGoal cap batch w (int (ho_items s)) of None \<Rightarrow> COut | Some g \<Rightarrow> CWake g))"
| c_wake: "ho_con s t = CWake g \<Longrightarrow> wake_goal_run (ho_side s) g = Some (Return woke side')
    \<Longrightarrow> handoff_step cap batch N s (con_to (s\<lparr>ho_side := side'\<rparr>) t COut)"
| c_enlist: "ho_con s t = CPolling \<Longrightarrow> enlist (ho_side s) t atNewest = Some (Return closed side')
    \<Longrightarrow> handoff_step cap batch N s (con_to (s\<lparr>ho_side := side'\<rparr>) t (if closed then CLeaving else CListed))"
| extra_take: "ho_con s t = CListed \<Longrightarrow> 0 < k \<Longrightarrow> k \<le> ho_items s
    \<Longrightarrow> handoff_step cap batch N s (con_to (s\<lparr>ho_items := ho_items s - k\<rparr>) t CTook)"
| extra_empty: "ho_con s t = CListed \<Longrightarrow> ho_items s = 0 \<Longrightarrow> handoff_step cap batch N s (con_to s t CBlocked)"
| c_token: "ho_con s t = CBlocked \<Longrightarrow> wt_token (ws_heap (ho_side s) t)
    \<Longrightarrow> handoff_step cap batch N s (con_to (s\<lparr>ho_side := take_token (ho_side s) t\<rparr>) t CPolling)"
| took_listed: "ho_con s t = CTook \<Longrightarrow> wt_listed (ws_heap (ho_side s) t)
    \<Longrightarrow> unpark (unlink (ho_side s) t) = Some (Return u side')
    \<Longrightarrow> handoff_step cap batch N s (con_to (s\<lparr>ho_side := side'\<rparr>) t CReload)"
| c_reload: "ho_con s t = CReload
    \<Longrightarrow> handoff_step cap batch N s (con_to s t (replenish_at cap (ws_word (ho_side s))))"
| cancel_listed: "ho_con s t = CBlocked \<Longrightarrow> wt_listed (ws_heap (ho_side s) t)
    \<Longrightarrow> unpark (unlink (ho_side s) t) = Some (Return u side')
    \<Longrightarrow> handoff_step cap batch N s (con_to (s\<lparr>ho_side := side'\<rparr>) t COut)"
| exit_selected: "ho_con s t = CTook \<or> ho_con s t = CBlocked \<Longrightarrow> \<not> wt_listed (ws_heap (ho_side s) t)
    \<Longrightarrow> wt_token (ws_heap (ho_side s) t)
    \<Longrightarrow> handoff_step cap batch N s (con_to (s\<lparr>ho_side := take_token (ho_side s) t\<rparr>) t CLeaving)"
| publish: "ho_pro s i = PIdle \<Longrightarrow> handoff_step cap batch N s (pro_to (s\<lparr>ho_items := ho_items s + k\<rparr>) i PPublished)"
| pub_load: "ho_pro s i = PPublished
    \<Longrightarrow> handoff_step cap batch N s (pro_to s i (case publicationDecision cap (ws_word (ho_side s)) of
          NoWake \<Rightarrow> PIdle | WakeNow g \<Rightarrow> PWake g | NeedSample \<Rightarrow> PSample (ws_word (ho_side s))))"
| pub_sample: "ho_pro s i = PSample w
    \<Longrightarrow> handoff_step cap batch N s (pro_to s i
          (case publicationGoal cap batch w (int (ho_items s)) of None \<Rightarrow> PIdle | Some g \<Rightarrow> PWake g))"
| pub_wake: "ho_pro s i = PWake g \<Longrightarrow> wake_goal_run (ho_side s) g = Some (Return woke side')
    \<Longrightarrow> handoff_step cap batch N s (pro_to (s\<lparr>ho_side := side'\<rparr>) i PIdle)"
| c_close: "setClosedLocked (ho_side s) = Some (side', first) \<Longrightarrow> handoff_step cap batch N s (s\<lparr>ho_side := side'\<rparr>)"

text \<open>The states that the consumers \<open>0\<close> to \<open>N - 1\<close> and any producers reach.\<close>

inductive handoff_reach :: "u32 \<Rightarrow> int \<Rightarrow> nat \<Rightarrow> handoff \<Rightarrow> bool" for cap batch N where
  handoff_start: "handoff_reach cap batch N handoff_init"
| handoff_next: "handoff_reach cap batch N s \<Longrightarrow> handoff_step cap batch N s s' \<Longrightarrow> handoff_reach cap batch N s'"

section \<open>The invariant\<close>

fun polling_at :: "consumer_at \<Rightarrow> bool" where
  "polling_at CPolling \<longleftrightarrow> True"
| "polling_at CLeaving \<longleftrightarrow> True"
| "polling_at _ \<longleftrightarrow> False"

fun on_list :: "consumer_at \<Rightarrow> bool" where
  "on_list CListed \<longleftrightarrow> True"
| "on_list CTook \<longleftrightarrow> True"
| "on_list CBlocked \<longleftrightarrow> True"
| "on_list _ \<longleftrightarrow> False"

definition goal_pos :: "wake_goal \<Rightarrow> bool" where
  "goal_pos g = (case g of GoalOne \<Rightarrow> True | GoalGroup target \<Rightarrow> 0 < unat target \<and> unat target < 2 ^ 31)"

text \<open>A participant with a duty will wake a blocked consumer or find that none is left to wake.\<close>

fun con_duty :: "consumer_at \<Rightarrow> bool" where
  "con_duty CListed \<longleftrightarrow> True"
| "con_duty CTook \<longleftrightarrow> True"
| "con_duty CReload \<longleftrightarrow> True"
| "con_duty (CSample w) \<longleftrightarrow> sideWord_pollers w = 0"
| "con_duty (CWake g) \<longleftrightarrow> True"
| "con_duty _ \<longleftrightarrow> False"

fun pro_duty :: "producer_at \<Rightarrow> bool" where
  "pro_duty PPublished \<longleftrightarrow> True"
| "pro_duty (PSample w) \<longleftrightarrow> sideWord_pollers w = 0"
| "pro_duty (PWake g) \<longleftrightarrow> True"
| "pro_duty PIdle \<longleftrightarrow> False"

definition duty :: "handoff \<Rightarrow> bool" where
  "duty s \<longleftrightarrow> (\<exists>t. con_duty (ho_con s t)) \<or> (\<exists>i. pro_duty (ho_pro s i))"

definition regs :: "(nat \<Rightarrow> consumer_at) \<Rightarrow> nat list \<Rightarrow> nat set" where
  "regs con xs = {t. polling_at (con t) \<or> on_list (con t) \<and> t \<notin> set xs}"

definition goals_ok :: "handoff \<Rightarrow> bool" where
  "goals_ok s \<longleftrightarrow> (\<forall>t g. ho_con s t = CWake g \<longrightarrow> goal_pos g) \<and> (\<forall>i g. ho_pro s i = PWake g \<longrightarrow> goal_pos g)"

definition roles_ok :: "nat \<Rightarrow> handoff \<Rightarrow> nat list \<Rightarrow> bool" where
  "roles_ok N s xs \<longleftrightarrow> (\<forall>t\<in>set xs. on_list (ho_con s t)) \<and> (\<forall>t\<ge>N. ho_con s t = COut)
     \<and> (\<forall>t. t \<notin> set xs \<longrightarrow> ws_heap (ho_side s) t = (if on_list (ho_con s t) then zero_waiter\<lparr>wt_token := True\<rparr> else zero_waiter))"

definition no_loss :: "handoff \<Rightarrow> nat list \<Rightarrow> bool" where
  "no_loss s xs \<longleftrightarrow> (0 < ho_items s \<and> (\<exists>t\<in>set xs. ho_con s t = CBlocked) \<longrightarrow> regs (ho_con s) xs \<noteq> {} \<or> duty s)"

definition handoff_inv :: "nat \<Rightarrow> handoff \<Rightarrow> bool" where
  "handoff_inv N s \<longleftrightarrow> (\<exists>xs c. side_state (ho_side s) (card (regs (ho_con s) xs)) xs c
     \<and> roles_ok N s xs \<and> goals_ok s \<and> no_loss s xs)"

section \<open>Preservation\<close>

lemmas to_simps [simp] = con_to_def pro_to_def

lemma no_lossI:
  "regs (ho_con s) xs \<noteq> {} \<Longrightarrow> no_loss s xs" "duty s \<Longrightarrow> no_loss s xs" "ho_items s = 0 \<Longrightarrow> no_loss s xs" "xs = [] \<Longrightarrow> no_loss s xs"
  by (auto simp: no_loss_def)

lemma con_dutyI: "con_duty p \<Longrightarrow> duty (con_to s t p)"
  by (auto simp: duty_def intro: exI [of _ t])

lemma pro_dutyI: "pro_duty p \<Longrightarrow> duty (pro_to s i p)"
  by (auto simp: duty_def)

text \<open>Counts stay within the number of consumers.\<close>

lemma roles_bounds:
  assumes "roles_ok N s xs" "distinct xs"
  shows "finite (regs (ho_con s) xs)" "card (regs (ho_con s) xs) + length xs \<le> N"
proof -
  have "t < N" if "t \<in> regs (ho_con s) xs \<union> set xs" for t
  proof (rule ccontr)
    assume "\<not> t < N"
    then have "ho_con s t = COut" using assms(1) by (simp add: roles_ok_def)
    then show False using that assms(1) by (auto simp: regs_def roles_ok_def)
  qed
  then have sub: "regs (ho_con s) xs \<union> set xs \<subseteq> {..<N}" by auto
  then show f: "finite (regs (ho_con s) xs)" using finite_subset by blast
  have "regs (ho_con s) xs \<inter> set xs = {}"
  proof -
    have "\<not> (polling_at p \<and> on_list p)" for p by (cases p) simp_all
    then show ?thesis using assms(1) by (auto simp: regs_def roles_ok_def)
  qed
  then have "card (regs (ho_con s) xs) + length xs = card (regs (ho_con s) xs \<union> set xs)"
    using f assms(2) by (simp add: card_Un_disjoint distinct_card)
  also have "\<dots> \<le> N" using card_mono [OF _ sub] by simp
  finally show "card (regs (ho_con s) xs) + length xs \<le> N" .
qed

lemma side_state_distinct: "side_state side P xs c \<Longrightarrow> distinct xs"
  by (simp add: side_state_def wait_list_def)

text \<open>A consumer that changes neither its registration nor its place on the list.\<close>

lemma move_same:
  assumes st: "side_state (ho_side s) (card (regs (ho_con s) xs)) xs c" and r: "roles_ok N s xs" and g: "goals_ok s"
    and p: "polling_at p = polling_at (ho_con s t)" "on_list p = on_list (ho_con s t)" "ho_con s t \<noteq> COut"
    and g': "\<forall>g. p = CWake g \<longrightarrow> goal_pos g" and l: "no_loss (con_to (s\<lparr>ho_items := k\<rparr>) t p) xs"
  shows "handoff_inv N (con_to (s\<lparr>ho_items := k\<rparr>) t p)"
proof -
  have "regs ((ho_con s)(t := p)) xs = regs (ho_con s) xs" using p by (auto simp: regs_def)
  moreover have "roles_ok N (con_to (s\<lparr>ho_items := k\<rparr>) t p) xs"
    using r p by (auto simp: roles_ok_def)
  moreover have "goals_ok (con_to (s\<lparr>ho_items := k\<rparr>) t p)" using g g' by (simp add: goals_ok_def)
  ultimately show ?thesis using st l unfolding handoff_inv_def by (intro exI [of _ xs] exI [of _ c]) simp
qed

subsection \<open>Decisions\<close>

lemma consumerTargetOf_bounds:
  assumes "0 < available" "0 < batch" "0 < unat cap"
  shows "0 < unat (consumerTargetOf cap batch available)" "unat (consumerTargetOf cap batch available) \<le> unat cap"
proof -
  let ?m = "min (int (unat cap)) (1 + (available - 1) div batch)"
  have m: "1 \<le> ?m" "?m \<le> int (unat cap)" using assms by (auto simp: pos_imp_zdiv_nonneg_iff)
  then have "?m < 2 ^ 32" using unat32_less [of cap] by simp
  then have "uint (of_int ?m :: u32) = ?m" using m(1) by (simp only: uint_word_of_int) simp
  then have "int (unat (consumerTargetOf cap batch available)) = ?m"
    using assms(1) by (simp add: consumerTargetOf_def of_nat_unat)
  then show "0 < unat (consumerTargetOf cap batch available)" "unat (consumerTargetOf cap batch available) \<le> unat cap"
    using m by linarith+
qed

lemma replenishGoal_ok:
  assumes "0 < batch" "0 < unat cap" "unat cap < 2 ^ 31" "0 \<le> available"
  shows "replenishGoal cap batch w available = Some g \<Longrightarrow> goal_pos g"
    and "replenishGoal cap batch w available = None \<Longrightarrow> available = 0 \<or> sideWord_pollers w \<noteq> 0"
proof -
  have b: "available \<noteq> 0 \<Longrightarrow> 0 < unat (consumerTargetOf cap batch available)"
    "available \<noteq> 0 \<Longrightarrow> unat (consumerTargetOf cap batch available) \<le> unat cap"
    using consumerTargetOf_bounds [of available batch cap] assms by simp_all
  show "replenishGoal cap batch w available = Some g \<Longrightarrow> goal_pos g"
    using b assms by (cases "available = 0")
      (auto simp: replenishGoal_def Let_def goal_pos_def consumerTargetOf_def split: if_splits)
  show "replenishGoal cap batch w available = None \<Longrightarrow> available = 0 \<or> sideWord_pollers w \<noteq> 0"
    using b assms by (auto simp: replenishGoal_def Let_def word_less_nat_alt split: if_splits)
qed

lemma publicationGoal_ok:
  assumes "0 < batch" "0 < unat cap" "unat cap < 2 ^ 31" "0 \<le> available"
  shows "publicationGoal cap batch w available = Some g \<Longrightarrow> goal_pos g"
    and "publicationGoal cap batch w available = None \<Longrightarrow> sideWord_pollers w \<noteq> 0"
proof -
  have "available \<noteq> 0 \<Longrightarrow> unat (consumerTargetOf cap batch available) \<le> unat cap"
    using consumerTargetOf_bounds [of available batch cap] assms by simp
  then have "0 < unat (max 1 (consumerTargetOf cap batch available))" "unat (max 1 (consumerTargetOf cap batch available)) < 2 ^ 31"
    using assms by (cases "available = 0"; simp add: max_def word_le_nat_alt consumerTargetOf_def)+
  then show "publicationGoal cap batch w available = Some g \<Longrightarrow> goal_pos g"
    "publicationGoal cap batch w available = None \<Longrightarrow> sideWord_pollers w \<noteq> 0"
    by (auto simp: publicationGoal_def Let_def goal_pos_def word_less_nat_alt split: if_splits)
qed

text \<open>A decision on the current word gives the duty up only when somebody polls or nobody is parked.\<close>

lemma replenish_at_ok:
  assumes "P < 2 ^ 31" "W < 2 ^ 31" "0 < unat cap"
  shows "W = 0 \<or> 0 < P \<or> con_duty (replenish_at cap (side_word P W c))"
    and "\<not> polling_at (replenish_at cap w)" "\<not> on_list (replenish_at cap w)" "\<forall>g. replenish_at cap w \<noteq> CWake g"
  using assms by (auto simp: replenish_at_def replenishDecision_def word_le_nat_alt)

lemma publicationDecision_ok:
  assumes "P < 2 ^ 31" "W < 2 ^ 31" "0 < unat cap"
  shows "publicationDecision cap (side_word P W c) = NoWake \<Longrightarrow> W = 0 \<or> 0 < P"
    and "publicationDecision cap w = WakeNow g \<Longrightarrow> g = GoalOne"
  using assms by (auto simp: publicationDecision_def word_le_nat_alt unat_of_nat split: if_splits)

lemma wake_goal_run_ok:
  assumes "side_state side P xs c" "goal_pos g" "wake_goal_run side g = Some (Return woke side')"
  shows "\<exists>n. n \<le> length xs \<and> side_state side' (P + n) (drop n xs) c \<and> (xs = [] \<or> 0 < P + n)
    \<and> (\<forall>w\<in>set (take n xs). ws_heap side' w = zero_waiter\<lparr>wt_token := True\<rparr>)
    \<and> (\<forall>d. d \<notin> set xs \<longrightarrow> ws_heap side' d = ws_heap side d)"
proof (cases g)
  case GoalOne
  with wakeOne_ok [OF assms(1)] assms(3) have e: "if P = 0 \<and> xs \<noteq> []
       then side_state side' 1 (tl xs) c \<and> ws_heap side' (hd xs) = zero_waiter\<lparr>wt_token := True\<rparr>
         \<and> (\<forall>d. d \<notin> set xs \<longrightarrow> ws_heap side' d = ws_heap side d) else side' = side"
    by (auto simp: wake_goal_run_def split: if_splits)
  show ?thesis
  proof (cases "P = 0 \<and> xs \<noteq> []")
    case True
    with e show ?thesis by (intro exI [of _ 1], cases xs) auto
  qed (use e assms(1) in \<open>intro exI [of _ 0], auto\<close>)
next
  case (GoalGroup target)
  define n where "n = min (length xs) (unat target - P)"
  have t: "0 < unat target" "unat target < 2 ^ 31" using assms(2) GoalGroup by (simp_all add: goal_pos_def)
  have e: "if 0 < n then side_state side' (P + n) (drop n xs) c
         \<and> (\<forall>w\<in>set (take n xs). ws_heap side' w = zero_waiter\<lparr>wt_token := True\<rparr>)
         \<and> (\<forall>d. d \<notin> set xs \<longrightarrow> ws_heap side' d = ws_heap side d) else side' = side"
    using wakeGroup_ok [OF assms(1) t(2), folded n_def] assms(3) GoalGroup by (auto simp: wake_goal_run_def)
  moreover have "n \<le> length xs" "xs = [] \<or> 0 < P + n" using t(1) by (auto simp: n_def)
  ultimately show ?thesis using assms(1) by (intro exI [of _ n], cases "n = 0") auto
qed

subsection \<open>Steps\<close>

definition handoff_ok :: "nat \<Rightarrow> handoff \<Rightarrow> nat list \<Rightarrow> bool \<Rightarrow> bool" where
  "handoff_ok N s xs c \<longleftrightarrow> side_state (ho_side s) (card (regs (ho_con s) xs)) xs c \<and> roles_ok N s xs \<and> goals_ok s"

lemma handoff_invI: "handoff_ok N s xs c \<Longrightarrow> no_loss s xs \<Longrightarrow> handoff_inv N s"
  by (auto simp: handoff_ok_def handoff_inv_def)

lemma handoff_ok_parts:
  assumes "handoff_ok N s xs c" "N < 2 ^ 31"
  shows "side_state (ho_side s) (card (regs (ho_con s) xs)) xs c" "roles_ok N s xs" "goals_ok s"
    "finite (regs (ho_con s) xs)" "card (regs (ho_con s) xs) + length xs \<le> N"
    "ws_word (ho_side s) = side_word (card (regs (ho_con s) xs)) (length xs) c"
    "card (regs (ho_con s) xs) < 2 ^ 31" "length xs < 2 ^ 31"
proof -
  show p: "side_state (ho_side s) (card (regs (ho_con s) xs)) xs c" "roles_ok N s xs" "goals_ok s"
    using assms(1) by (simp_all add: handoff_ok_def)
  show "finite (regs (ho_con s) xs)" and b: "card (regs (ho_con s) xs) + length xs \<le> N"
    using roles_bounds [OF p(2) side_state_distinct [OF p(1)]] by simp_all
  show "ws_word (ho_side s) = side_word (card (regs (ho_con s) xs)) (length xs) c" using p(1) by (simp add: side_state_def)
  show "card (regs (ho_con s) xs) < 2 ^ 31" "length xs < 2 ^ 31" using b assms(2) by simp_all
qed

lemma ok_register:
  assumes ok: "handoff_ok N s xs c" and N: "N < 2 ^ 31" and t: "t < N" "ho_con s t = COut"
    and r: "register (ho_side s) = Some (side', closed)"
  shows "if closed then side' = ho_side s else handoff_ok N (con_to (s\<lparr>ho_side := side'\<rparr>) t CPolling) xs c"
proof -
  note p = handoff_ok_parts [OF ok N]
  have nt: "t \<notin> set xs" "t \<notin> regs (ho_con s) xs" using p(2) t(2) by (auto simp: roles_ok_def regs_def)
  have regs: "regs ((ho_con s)(t := CPolling)) xs = insert t (regs (ho_con s) xs)" using nt by (auto simp: regs_def)
  then have card: "card (regs ((ho_con s)(t := CPolling)) xs) = card (regs (ho_con s) xs) + 1" using p(4) nt by simp
  have roles: "roles_ok N (con_to s t CPolling) xs" using p(2) t nt by (auto simp: roles_ok_def)
  then have "card (regs (ho_con s) xs) + 1 < 2 ^ 31"
    using roles_bounds(2) [OF roles side_state_distinct [OF p(1)]] card N by simp
  note reg = register_ok [OF p(1) this] and lt = this
  show ?thesis
  proof (cases c)
    case True
    with reg r show ?thesis by simp
  next
    case False
    with reg r have side': "side' = (ho_side s)\<lparr>ws_word := side_word (card (regs (ho_con s) xs) + 1) (length xs) c\<rparr>" "\<not> closed"
      by auto
    have "side_state side' (card (regs (ho_con s) xs) + 1) xs c" unfolding side' by (rule side_state_word [OF p(1) lt])
    with side' roles p(3) card show ?thesis by (simp add: handoff_ok_def roles_ok_def goals_ok_def)
  qed
qed

lemma ok_leave:
  assumes ok: "handoff_ok N s xs c" and N: "N < 2 ^ 31" and t: "ho_con s t = CLeaving"
    and r: "leavePollingAttempt (ho_side s) (ws_word (ho_side s)) = Some (Return left side')"
    and q: "\<not> polling_at q" "\<not> on_list q" "\<forall>g. q \<noteq> CWake g"
  shows "handoff_ok N (con_to (s\<lparr>ho_side := side'\<rparr>) t q) xs c"
    and "left = side_word (card (regs ((ho_con s)(t := q)) xs)) (length xs) c"
proof -
  note p = handoff_ok_parts [OF ok N]
  have nt: "t \<notin> set xs" "t \<in> regs (ho_con s) xs" using p(2) t by (auto simp: roles_ok_def regs_def)
  then have pos: "0 < card (regs (ho_con s) xs)" using p(4) by (auto simp: card_gt_0_iff)
  have "regs ((ho_con s)(t := q)) xs = regs (ho_con s) xs - {t}" using nt q by (auto simp: regs_def)
  then have card: "card (regs ((ho_con s)(t := q)) xs) = card (regs (ho_con s) xs) - 1" using p(4) nt by simp
  have a: "left = side_word (card (regs (ho_con s) xs) - 1) (length xs) c" "side' = (ho_side s)\<lparr>ws_word := left\<rparr>"
    using leavePollingAttempt_ok [OF p(1) pos] r by auto
  then show "left = side_word (card (regs ((ho_con s)(t := q)) xs)) (length xs) c" using card by simp
  have "side_state side' (card (regs (ho_con s) xs) - 1) xs c"
    unfolding a using p(7) by (intro side_state_word [OF p(1)]) simp
  moreover have "roles_ok N (con_to (s\<lparr>ho_side := side'\<rparr>) t q) xs"
    using p(2) t nt q by (auto simp: roles_ok_def a(2))
  ultimately show "handoff_ok N (con_to (s\<lparr>ho_side := side'\<rparr>) t q) xs c"
    using p(3) q card by (simp add: handoff_ok_def goals_ok_def)
qed

lemma ok_wake:
  assumes ok: "handoff_ok N s xs c" and N: "N < 2 ^ 31" and g: "goal_pos g"
    and r: "wake_goal_run (ho_side s) g = Some (Return woke side')"
  shows "\<exists>ys. handoff_ok N (s\<lparr>ho_side := side'\<rparr>) ys c \<and> (ys = [] \<or> regs (ho_con s) ys \<noteq> {})"
proof -
  note p = handoff_ok_parts [OF ok N]
  obtain n where n: "n \<le> length xs" "side_state side' (card (regs (ho_con s) xs) + n) (drop n xs) c"
      "xs = [] \<or> 0 < card (regs (ho_con s) xs) + n"
      "\<forall>w\<in>set (take n xs). ws_heap side' w = zero_waiter\<lparr>wt_token := True\<rparr>"
      "\<forall>d. d \<notin> set xs \<longrightarrow> ws_heap side' d = ws_heap (ho_side s) d"
    using wake_goal_run_ok [OF p(1) g r] by (elim exE conjE) (rule that)
  have d: "distinct xs" by (rule side_state_distinct [OF p(1)])
  have "set xs = set (take n xs @ drop n xs)" by simp
  then have split: "set xs = set (take n xs) \<union> set (drop n xs)" "set (take n xs) \<inter> set (drop n xs) = {}"
    using d by (simp_all only: set_append set_take_disj_set_drop_if_distinct order_refl)
  have on: "\<forall>t\<in>set xs. on_list (ho_con s t)" using p(2) by (simp add: roles_ok_def)
  have mem: "t \<in> set xs \<longleftrightarrow> t \<in> set (take n xs) \<or> t \<in> set (drop n xs)" "\<not> (t \<in> set (take n xs) \<and> t \<in> set (drop n xs))" for t
    using split by blast+
  have "regs (ho_con s) (drop n xs) = regs (ho_con s) xs \<union> set (take n xs)"
    unfolding regs_def using mem on by blast
  moreover have "regs (ho_con s) xs \<inter> set (take n xs) = {}"
  proof -
    have "\<not> (polling_at q \<and> on_list q)" for q by (cases q) simp_all
    then show ?thesis unfolding regs_def using on mem(1) by blast
  qed
  moreover have "card (set (take n xs)) = n" using d n(1) by (simp add: distinct_card)
  ultimately have card: "card (regs (ho_con s) (drop n xs)) = card (regs (ho_con s) xs) + n"
    using p(4) by (simp add: card_Un_disjoint)
  have "roles_ok N (s\<lparr>ho_side := side'\<rparr>) (drop n xs)"
    unfolding roles_ok_def
  proof (intro conjI ballI allI impI)
    fix t assume t: "t \<notin> set (drop n xs)"
    show "ws_heap (ho_side (s\<lparr>ho_side := side'\<rparr>)) t =
        (if on_list (ho_con (s\<lparr>ho_side := side'\<rparr>) t) then zero_waiter\<lparr>wt_token := True\<rparr> else zero_waiter)"
      using t mem(1) [of t] n(4,5) p(2) on by (cases "t \<in> set xs") (simp_all add: roles_ok_def)
  qed (use p(2) on in \<open>simp_all add: roles_ok_def in_set_dropD\<close>)
  then have "handoff_ok N (s\<lparr>ho_side := side'\<rparr>) (drop n xs) c" using n(2) card p(3) by (simp add: handoff_ok_def goals_ok_def)
  moreover have "drop n xs = [] \<or> regs (ho_con s) (drop n xs) \<noteq> {}" using n(3) card by (cases "xs = []") auto
  ultimately show ?thesis by blast
qed

lemma ok_enlist:
  assumes ok: "handoff_ok N s xs c" and N: "N < 2 ^ 31" and t: "ho_con s t = CPolling"
    and r: "enlist (ho_side s) t atNewest = Some (Return closed side')"
  shows "if closed then side' = ho_side s else handoff_ok N (con_to (s\<lparr>ho_side := side'\<rparr>) t CListed) (xs @ [t]) c"
proof -
  note p = handoff_ok_parts [OF ok N]
  have nt: "t \<notin> set xs" "t \<in> regs (ho_con s) xs" using p(2) t by (auto simp: roles_ok_def regs_def)
  then have pos: "0 < card (regs (ho_con s) xs)" using p(4) by (auto simp: card_gt_0_iff)
  have clean: "clean (ho_side s) t" using p(2) nt t by (simp add: roles_ok_def clean_def)
  have room: "length xs + 1 < 2 ^ 31" using p(5) pos N by simp
  obtain side2 where e: "enlist (ho_side s) t atNewest = Some (Return c side2)"
      and cs: "if c then side2 = ho_side s else side_state side2 (card (regs (ho_con s) xs) - 1) (enlisted atNewest t xs) c
        \<and> (\<forall>d. d \<notin> set (enlisted atNewest t xs) \<longrightarrow> ws_heap side2 d = ws_heap (ho_side s) d)"
    using enlist_ok [OF p(1) pos clean room, of atNewest] by (elim exE conjE) (rule that)
  then have r': "closed = c" "side' = side2" using r by simp_all
  show ?thesis
  proof (cases c)
    case True
    with r' cs show ?thesis by simp
  next
    case False
    have "regs ((ho_con s)(t := CListed)) (xs @ [t]) = regs (ho_con s) xs - {t}" using nt by (auto simp: regs_def)
    then have "card (regs ((ho_con s)(t := CListed)) (xs @ [t])) = card (regs (ho_con s) xs) - 1" using p(4) nt by simp
    moreover have "roles_ok N (con_to (s\<lparr>ho_side := side'\<rparr>) t CListed) (xs @ [t])"
      using p(2) t cs False r' by (auto simp: roles_ok_def)
    ultimately show ?thesis using cs False r' p(3) by (simp add: handoff_ok_def goals_ok_def enlisted_def)
  qed
qed

lemma ok_unlist:
  assumes ok: "handoff_ok N s xs c" and N: "N < 2 ^ 31" and t: "wt_listed (ws_heap (ho_side s) t)"
    and r: "unpark (unlink (ho_side s) t) = Some (Return u side')"
    and q: "\<not> polling_at q" "\<not> on_list q" "\<forall>g. q \<noteq> CWake g"
  shows "\<exists>ys zs. xs = ys @ t # zs \<and> handoff_ok N (con_to (s\<lparr>ho_side := side'\<rparr>) t q) (ys @ zs) c"
proof -
  note p = handoff_ok_parts [OF ok N]
  have "t \<in> set xs" using p(1) t by (simp add: side_state_def wait_list_def)
  then obtain ys zs where xs: "xs = ys @ t # zs" by (meson split_list)
  have d: "t \<notin> set ys" "t \<notin> set zs" using side_state_distinct [OF p(1)] by (simp_all add: xs)
  have on: "on_list (ho_con s t)" using p(2) by (simp add: roles_ok_def xs)
  have e: "side_state side' (card (regs (ho_con s) xs)) (ys @ zs) c" "clean side' t"
      "\<forall>d. d \<notin> set xs \<longrightarrow> ws_heap side' d = ws_heap (ho_side s) d"
    using unpark_unlink_ok [OF p(1) [unfolded xs]] r by (auto simp: xs)
  have np: "\<not> polling_at (ho_con s t)" using on by (cases "ho_con s t") simp_all
  have "regs ((ho_con s)(t := q)) (ys @ zs) = regs (ho_con s) xs"
    using d q np by (auto simp: regs_def xs)
  moreover have "roles_ok N (con_to (s\<lparr>ho_side := side'\<rparr>) t q) (ys @ zs)"
    using p(2) e(2,3) d q on by (auto simp: roles_ok_def xs clean_def)
  ultimately show ?thesis
    using e(1) p(3) q by (intro exI [of _ ys] exI [of _ zs]) (simp add: xs handoff_ok_def goals_ok_def)
qed

lemma ok_token:
  assumes ok: "handoff_ok N s xs c" and N: "N < 2 ^ 31" and t: "on_list (ho_con s t)" "wt_token (ws_heap (ho_side s) t)"
    and q: "polling_at q"
  shows "handoff_ok N (con_to (s\<lparr>ho_side := take_token (ho_side s) t\<rparr>) t q) xs c" "t \<in> regs ((ho_con s)(t := q)) xs"
proof -
  note p = handoff_ok_parts [OF ok N]
  have nt: "t \<notin> set xs" using p(1) t(2) by (auto simp: side_state_def)
  have nq: "\<not> on_list q" "\<forall>g. q \<noteq> CWake g" using q by (cases q; simp)+
  show "t \<in> regs ((ho_con s)(t := q)) xs" using q by (simp add: regs_def)
  have "regs ((ho_con s)(t := q)) xs = regs (ho_con s) xs" using t(1) q nt by (auto simp: regs_def)
  moreover have "side_state (take_token (ho_side s) t) (card (regs (ho_con s) xs)) xs c"
    using p(1) by (auto simp: side_state_def take_token_def)
  moreover have "roles_ok N (con_to (s\<lparr>ho_side := take_token (ho_side s) t\<rparr>) t q) xs"
    using p(2) nt nq t(1) by (auto simp: roles_ok_def take_token_def zero_waiter_def)
  ultimately show "handoff_ok N (con_to (s\<lparr>ho_side := take_token (ho_side s) t\<rparr>) t q) xs c"
    using p(3) nq by (simp add: handoff_ok_def goals_ok_def)
qed

lemma ok_close:
  assumes ok: "handoff_ok N s xs c" and N: "N < 2 ^ 31" and r: "setClosedLocked (ho_side s) = Some (side', first)"
  shows "\<exists>d. handoff_ok N (s\<lparr>ho_side := side'\<rparr>) xs d"
proof -
  note p = handoff_ok_parts [OF ok N]
  have "side' = ho_side s \<or> side' = (ho_side s)\<lparr>ws_word := side_word (card (regs (ho_con s) xs)) (length xs) True\<rparr>"
    using setClosedLocked_ok [OF p(1)] r by (auto split: if_splits)
  then show ?thesis
    using ok side_state_word [OF p(1) p(7), of True] p(2,3)
    by (auto simp: handoff_ok_def roles_ok_def goals_ok_def)
qed

text \<open>Producers and items do not touch the consumers' bookkeeping.\<close>

lemma ok_frame:
  "handoff_ok N (s\<lparr>ho_items := k\<rparr>) xs c \<longleftrightarrow> handoff_ok N s xs c"
  "\<forall>g. q = PWake g \<longrightarrow> goal_pos g \<Longrightarrow> handoff_ok N s xs c \<Longrightarrow> handoff_ok N (pro_to s i q) xs c"
  by (auto simp: handoff_ok_def roles_ok_def goals_ok_def)

lemma ok_same:
  assumes "handoff_ok N s xs c" "polling_at q = polling_at (ho_con s t)" "on_list q = on_list (ho_con s t)" "ho_con s t \<noteq> COut"
    and "\<forall>g. q = CWake g \<longrightarrow> goal_pos g"
  shows "handoff_ok N (con_to s t q) xs c"
proof -
  have "regs ((ho_con s)(t := q)) xs = regs (ho_con s) xs" using assms(2,3) by (auto simp: regs_def)
  moreover have "roles_ok N (con_to s t q) xs"
    using assms(1-4) by (auto simp: handoff_ok_def roles_ok_def)
  ultimately show ?thesis using assms(1,5) by (simp add: handoff_ok_def goals_ok_def)
qed

lemma duty_other:
  assumes "duty s" "\<not> con_duty (ho_con s t)"
  shows "duty (con_to s t q)"
  using assms by (auto simp: duty_def)

lemma duty_other_pro:
  assumes "duty s" "\<not> pro_duty (ho_pro s i)"
  shows "duty (pro_to s i q)"
  using assms by (auto simp: duty_def)

lemma goal_of:
  assumes "handoff_ok N s xs c"
  shows "ho_con s t = CWake g \<Longrightarrow> goal_pos g" "ho_pro s i = PWake g \<Longrightarrow> goal_pos g"
  using assms by (auto simp: handoff_ok_def goals_ok_def)

text \<open>Giving up a sample is safe: either nothing is visible or somebody was polling.\<close>

lemma inv_sample:
  assumes ok: "handoff_ok N s xs c" and loss: "no_loss s xs" and b: "0 < batch" "0 < unat cap" "unat cap < 2 ^ 31"
    and t: "ho_con s t = CSample w"
  shows "handoff_inv N (con_to s t (case replenishGoal cap batch w (int (ho_items s)) of None \<Rightarrow> COut | Some g \<Rightarrow> CWake g))"
proof (cases "replenishGoal cap batch w (int (ho_items s))")
  case None
  then have "ho_items s = 0 \<or> \<not> con_duty (ho_con s t)" using replenishGoal_ok(2) [OF b, of "int (ho_items s)" w] t by simp
  moreover have "regs ((ho_con s)(t := COut)) xs = regs (ho_con s) xs" using t by (auto simp: regs_def)
  ultimately have "no_loss (con_to s t COut) xs" using loss duty_other [of s t COut] by (auto simp: no_loss_def split: if_splits)
  moreover have "handoff_ok N (con_to s t COut) xs c" by (rule ok_same [OF ok]) (use t in simp_all)
  ultimately show ?thesis using None by (auto intro: handoff_invI)
next
  case (Some g)
  then have "goal_pos g" using replenishGoal_ok(1) [OF b, of "int (ho_items s)" w g] by simp
  then have "handoff_ok N (con_to s t (CWake g)) xs c" by (intro ok_same [OF ok]) (use t in simp_all)
  moreover have "no_loss (con_to s t (CWake g)) xs" by (rule no_lossI(2) [OF con_dutyI]) simp
  ultimately show ?thesis using Some by (auto intro: handoff_invI)
qed

lemma inv_pub_sample:
  assumes ok: "handoff_ok N s xs c" and loss: "no_loss s xs" and b: "0 < batch" "0 < unat cap" "unat cap < 2 ^ 31"
    and i: "ho_pro s i = PSample w"
  shows "handoff_inv N (pro_to s i (case publicationGoal cap batch w (int (ho_items s)) of None \<Rightarrow> PIdle | Some g \<Rightarrow> PWake g))"
proof (cases "publicationGoal cap batch w (int (ho_items s))")
  case None
  then have "\<not> pro_duty (ho_pro s i)" using publicationGoal_ok(2) [OF b, of "int (ho_items s)" w] i by simp
  then have "no_loss (pro_to s i PIdle) xs" using loss duty_other_pro [of s i PIdle] by (auto simp: no_loss_def)
  moreover have "handoff_ok N (pro_to s i PIdle) xs c" by (rule ok_frame(2) [OF _ ok]) simp
  ultimately show ?thesis using None by (auto intro: handoff_invI)
next
  case (Some g)
  then have "goal_pos g" using publicationGoal_ok(1) [OF b, of "int (ho_items s)" w g] by simp
  then have "handoff_ok N (pro_to s i (PWake g)) xs c" by (intro ok_frame(2) [OF _ ok]) simp
  moreover have "no_loss (pro_to s i (PWake g)) xs" by (rule no_lossI(2) [OF pro_dutyI]) simp
  ultimately show ?thesis using Some by (auto intro: handoff_invI)
qed

lemma inv_pub_load:
  assumes ok: "handoff_ok N s xs c" and loss: "no_loss s xs" and b: "0 < unat cap" "N < 2 ^ 31"
  shows "handoff_inv N (pro_to s i (case publicationDecision cap (ws_word (ho_side s)) of
      NoWake \<Rightarrow> PIdle | WakeNow g \<Rightarrow> PWake g | NeedSample \<Rightarrow> PSample (ws_word (ho_side s))))" (is "handoff_inv N (pro_to s i ?q)")
proof -
  note p = handoff_ok_parts [OF ok b(2)]
  have "\<forall>g. ?q = PWake g \<longrightarrow> goal_pos g"
    using publicationDecision_ok(2) [OF p(7,8) b(1), of "ws_word (ho_side s)"]
    by (cases "publicationDecision cap (ws_word (ho_side s))") (auto simp: goal_pos_def)
  then have ok': "handoff_ok N (pro_to s i ?q) xs c" using ok by (rule ok_frame(2))
  have "xs = [] \<or> regs (ho_con s) xs \<noteq> {} \<or> pro_duty ?q"
    using publicationDecision_ok(1) [OF p(7,8) b(1), of c] p(4,6,7,8)
    by (cases "publicationDecision cap (ws_word (ho_side s))") (auto simp: card_gt_0_iff)
  then have "no_loss (pro_to s i ?q) xs" using pro_dutyI [of ?q s i] by (auto intro: no_lossI)
  with ok' show ?thesis by (rule handoff_invI)
qed

text \<open>A decision on the word just loaded or just written.\<close>

lemma inv_replenish:
  assumes ok: "handoff_ok N (con_to s t (replenish_at cap w)) xs c" and b: "0 < unat cap" "N < 2 ^ 31"
    and w: "w = side_word (card (regs ((ho_con s)(t := replenish_at cap w)) xs)) (length xs) c"
  shows "handoff_inv N (con_to s t (replenish_at cap w))"
proof -
  note p = handoff_ok_parts [OF ok b(2)]
  have "length xs = 0 \<or> 0 < card (regs ((ho_con s)(t := replenish_at cap w)) xs) \<or> con_duty (replenish_at cap w)"
    using p(7,8) b(1) by (subst w) (intro replenish_at_ok(1), simp_all)
  then have "no_loss (con_to s t (replenish_at cap w)) xs"
    using con_dutyI [of "replenish_at cap w" s t] by (auto intro: no_lossI)
  with ok show ?thesis by (rule handoff_invI)
qed

lemma inv_wake:
  assumes ok: "handoff_ok N s xs c" and N: "N < 2 ^ 31" and g: "goal_pos g"
    and r: "wake_goal_run (ho_side s) g = Some (Return woke side')"
  shows "ho_con s t = CWake g \<Longrightarrow> handoff_inv N (con_to (s\<lparr>ho_side := side'\<rparr>) t COut)"
    and "handoff_inv N (pro_to (s\<lparr>ho_side := side'\<rparr>) i PIdle)"
proof -
  let ?s = "s\<lparr>ho_side := side'\<rparr>"
  obtain ys where ys: "handoff_ok N ?s ys c" "ys = [] \<or> regs (ho_con s) ys \<noteq> {}" using ok_wake [OF ok N g r] by blast
  have "handoff_ok N (pro_to ?s i PIdle) ys c" by (rule ok_frame(2) [OF _ ys(1)]) simp
  moreover have "no_loss (pro_to ?s i PIdle) ys" using ys(2) by (auto intro: no_lossI)
  ultimately show "handoff_inv N (pro_to ?s i PIdle)" by (rule handoff_invI)
  assume t: "ho_con s t = CWake g"
  have "handoff_ok N (con_to ?s t COut) ys c" by (rule ok_same [OF ys(1)]) (use t in simp_all)
  moreover have "regs ((ho_con s)(t := COut)) ys = regs (ho_con s) ys" using t by (auto simp: regs_def)
  then have "no_loss (con_to ?s t COut) ys" using ys(2) by (auto intro: no_lossI)
  ultimately show "handoff_inv N (con_to ?s t COut)" by (rule handoff_invI)
qed

lemma inv_cancel:
  assumes ok: "handoff_ok N s xs c" and loss: "no_loss s xs" and N: "N < 2 ^ 31" and t: "ho_con s t = CBlocked" "wt_listed (ws_heap (ho_side s) t)"
    and r: "unpark (unlink (ho_side s) t) = Some (Return u side')"
  shows "handoff_inv N (con_to (s\<lparr>ho_side := side'\<rparr>) t COut)" (is "handoff_inv N ?s")
proof -
  obtain ys zs where xs: "xs = ys @ t # zs" and ok': "handoff_ok N ?s (ys @ zs) c"
    using ok_unlist [OF ok N t(2) r, of COut] by auto
  have d: "t \<notin> set ys" "t \<notin> set zs" using side_state_distinct [OF handoff_ok_parts(1) [OF ok N]] by (simp_all add: xs)
  have "regs ((ho_con s)(t := COut)) (ys @ zs) = regs (ho_con s) xs" using t d by (auto simp: regs_def xs)
  moreover have "duty s \<Longrightarrow> duty (con_to s t COut)" by (rule duty_other) (use t in simp_all)
  then have "duty s \<Longrightarrow> duty ?s" by (simp add: duty_def)
  ultimately have "no_loss ?s (ys @ zs)"
    using loss d by (auto simp: no_loss_def xs split: if_splits)
  with ok' show ?thesis by (rule handoff_invI)
qed

lemma inv_polling:
  assumes "handoff_ok N (con_to s t q) xs c" "polling_at q"
  shows "handoff_inv N (con_to s t q)"
proof -
  have "t \<in> regs (ho_con (con_to s t q)) xs" using assms(2) by (simp add: regs_def)
  then show ?thesis using assms(1) by (intro handoff_invI [OF assms(1)] no_lossI(1)) blast
qed

lemma inv_duty:
  assumes "handoff_ok N (con_to s t q) xs c" "con_duty q"
  shows "handoff_inv N (con_to s t q)"
  using assms by (intro handoff_invI [OF assms(1)] no_lossI(2) con_dutyI)

lemma handoff_step_inv:
  assumes step: "handoff_step cap batch N s s'" and inv: "handoff_inv N s"
    and b: "0 < batch" "0 < unat cap" "unat cap < 2 ^ 31" "N < 2 ^ 31"
  shows "handoff_inv N s'"
proof -
  obtain xs c where ok: "handoff_ok N s xs c" and loss: "no_loss s xs"
    using inv by (auto simp: handoff_inv_def handoff_ok_def)
  note p = handoff_ok_parts [OF ok b(4)]
  have item: "handoff_ok N (s\<lparr>ho_items := k\<rparr>) xs c" for k using ok by (simp add: ok_frame(1))
  from step show ?thesis
  proof cases
    case (take_fast t k)
    have "no_loss s' xs" using loss by (auto simp: take_fast(1) no_loss_def duty_def)
    with item show ?thesis by (auto simp: take_fast(1) intro: handoff_invI)
  next
    case (c_register t side' closed)
    have "handoff_ok N (con_to (s\<lparr>ho_side := side'\<rparr>) t CPolling) xs c" if "\<not> closed"
      using ok_register [OF ok b(4) c_register(2-4)] that by simp
    moreover have "con_to (s\<lparr>ho_side := side'\<rparr>) t COut = s" if closed
      using ok_register [OF ok b(4) c_register(2-4)] c_register(3) that by (simp add: fun_upd_idem)
    ultimately show ?thesis using inv inv_polling [of N "s\<lparr>ho_side := side'\<rparr>" t CPolling xs c] by (simp add: c_register(1))
  next
    case (poll_take t k)
    have "handoff_ok N (con_to (s\<lparr>ho_items := ho_items s - k\<rparr>) t CLeaving) xs c"
      by (rule ok_same [OF item]) (use poll_take in simp_all)
    then show ?thesis unfolding poll_take(1) by (rule inv_polling) simp
  next
    case (leave_poll t)
    have "handoff_ok N (con_to s t CLeaving) xs c" by (rule ok_same [OF ok]) (use leave_poll in simp_all)
    then show ?thesis unfolding leave_poll(1) by (rule inv_polling) simp
  next
    case (c_leave t left side')
    have q: "\<not> polling_at (replenish_at cap left)" "\<not> on_list (replenish_at cap left)" "\<forall>g. replenish_at cap left \<noteq> CWake g"
      using replenish_at_ok(2-4) [of 0 0 cap left] b(2) by simp_all
    show ?thesis unfolding c_leave(1)
      using ok_leave [OF ok b(4) c_leave(2,3) q] by (intro inv_replenish [OF _ b(2,4)]) simp_all
  next
    case (c_sample t w)
    then show ?thesis using inv_sample [OF ok loss b(1-3)] by simp
  next
    case (c_wake t g woke side')
    then show ?thesis using inv_wake(1) [OF ok b(4) goal_of(1) [OF ok c_wake(2)]] by simp
  next
    case (c_enlist t closed side')
    show ?thesis
    proof (cases closed)
      case True
      then have "s' = con_to s t CLeaving" using ok_enlist [OF ok b(4) c_enlist(2,3)] by (simp add: c_enlist(1))
      moreover have "handoff_ok N (con_to s t CLeaving) xs c" by (rule ok_same [OF ok]) (use c_enlist in simp_all)
      ultimately show ?thesis using inv_polling [of N s t CLeaving xs c] by simp
    next
      case False
      then show ?thesis
        using ok_enlist [OF ok b(4) c_enlist(2,3)] inv_duty [of N "s\<lparr>ho_side := side'\<rparr>" t CListed "xs @ [t]" c] by (simp add: c_enlist(1))
    qed
  next
    case (extra_take t k)
    have "handoff_ok N (con_to (s\<lparr>ho_items := ho_items s - k\<rparr>) t CTook) xs c"
      by (rule ok_same [OF item]) (use extra_take in simp_all)
    then show ?thesis unfolding extra_take(1) by (rule inv_duty) simp
  next
    case (extra_empty t)
    have "handoff_ok N (con_to s t CBlocked) xs c" by (rule ok_same [OF ok]) (use extra_empty in simp_all)
    then show ?thesis unfolding extra_empty(1) by (rule handoff_invI) (intro no_lossI(3), simp add: extra_empty(3))
  next
    case (c_token t)
    then show ?thesis using ok_token(1) [OF ok b(4), of t CPolling] inv_polling [of N "s\<lparr>ho_side := take_token (ho_side s) t\<rparr>" t CPolling xs c] by simp
  next
    case (took_listed t u side')
    then show ?thesis
      using ok_unlist [OF ok b(4) took_listed(3,4), of CReload] inv_duty [of N "s\<lparr>ho_side := side'\<rparr>" t CReload] by auto
  next
    case (c_reload t)
    let ?q = "replenish_at cap (ws_word (ho_side s))"
    have q: "\<not> polling_at ?q" "\<not> on_list ?q" "\<forall>g. ?q \<noteq> CWake g" using replenish_at_ok(2-4) [of 0 0 cap] b(2) by simp_all
    have ok': "handoff_ok N (con_to s t ?q) xs c" by (rule ok_same [OF ok]) (use c_reload q in simp_all)
    have "regs ((ho_con s)(t := ?q)) xs = regs (ho_con s) xs" using c_reload(2) q by (auto simp: regs_def)
    then show ?thesis unfolding c_reload(1) using p(6) by (intro inv_replenish [OF ok' b(2,4)]) simp
  next
    case (cancel_listed t u side')
    then show ?thesis using inv_cancel [OF ok loss b(4)] by simp
  next
    case (exit_selected t)
    then show ?thesis using ok_token(1) [OF ok b(4), of t CLeaving] inv_polling [of N "s\<lparr>ho_side := take_token (ho_side s) t\<rparr>" t CLeaving xs c] by auto
  next
    case (publish i k)
    have "handoff_ok N (pro_to (s\<lparr>ho_items := ho_items s + k\<rparr>) i PPublished) xs c" by (rule ok_frame(2) [OF _ item]) simp
    then show ?thesis unfolding publish(1) by (rule handoff_invI) (intro no_lossI(2) pro_dutyI, simp)
  next
    case (pub_load i)
    then show ?thesis using inv_pub_load [OF ok loss b(2,4)] by simp
  next
    case (pub_sample i w)
    then show ?thesis using inv_pub_sample [OF ok loss b(1-3)] by simp
  next
    case (pub_wake i g woke side')
    then show ?thesis using inv_wake(2) [OF ok b(4) goal_of(2) [OF ok pub_wake(2)]] by simp
  next
    case (c_close side' first)
    then obtain d where "handoff_ok N s' xs d" using ok_close [OF ok b(4)] by blast
    moreover have "no_loss s' xs" using loss by (simp add: c_close(1) no_loss_def duty_def)
    ultimately show ?thesis by (rule handoff_invI)
  qed
qed

lemma handoff_reach_inv:
  assumes "handoff_reach cap batch N s" "0 < batch" "0 < unat cap" "unat cap < 2 ^ 31" "N < 2 ^ 31"
  shows "handoff_inv N s"
  using assms(1)
proof induction
  case handoff_start
  have "regs (\<lambda>_. COut) [] = {}" by (simp add: regs_def)
  then have "handoff_ok N handoff_init [] False"
    by (simp add: handoff_ok_def roles_ok_def goals_ok_def side_state_def wait_list_def handoff_init_def zero_waitSide_def
      side_word_def zero_waiter_def)
  then show ?case by (rule handoff_invI) (simp add: no_lossI)
qed (use assms(2-) handoff_step_inv in blast)

section \<open>Progress\<close>

lemma wake_enabled:
  assumes "side_state side P xs c" "goal_pos g"
  shows "\<exists>woke side'. wake_goal_run side g = Some (Return woke side')"
proof (cases g)
  case GoalOne
  then show ?thesis using wakeOne_ok [OF assms(1)] by (auto simp: wake_goal_run_def)
next
  case (GoalGroup target)
  then have "unat target < 2 ^ 31" using assms(2) by (simp add: goal_pos_def)
  from wakeGroup_ok [OF assms(1) this] GoalGroup show ?thesis by (auto simp: wake_goal_run_def)
qed

text \<open>
  Where the call of a consumer goes next when its context is not done: it registers, joins the list
  after its polls, makes the attempt that follows, blocks only when that attempt found nothing, polls
  again once it has its token, and leaves with the replenishment check of \<^verbatim>\<open>leaveConsumerPolling\<close>.
\<close>

fun con_next :: "bool \<Rightarrow> nat \<Rightarrow> consumer_at \<Rightarrow> consumer_at \<Rightarrow> bool" where
  "con_next closed items COut q \<longleftrightarrow> q = (if closed then COut else CPolling)"
| "con_next closed items CPolling q \<longleftrightarrow> q = (if closed then CLeaving else CListed)"
| "con_next closed items CListed q \<longleftrightarrow> q = (if items = 0 then CBlocked else CTook)"
| "con_next closed items CBlocked q \<longleftrightarrow> q = CPolling"
| "con_next closed items CTook q \<longleftrightarrow> q = CReload \<or> q = CLeaving"
| "con_next closed items CReload q \<longleftrightarrow> q = COut \<or> (\<exists>w. q = CSample w)"
| "con_next closed items CLeaving q \<longleftrightarrow> q = COut \<or> (\<exists>w. q = CSample w)"
| "con_next closed items (CSample w) q \<longleftrightarrow> q = COut \<or> (\<exists>g. q = CWake g)"
| "con_next closed items (CWake g) q \<longleftrightarrow> q = COut"

fun pro_next :: "producer_at \<Rightarrow> producer_at \<Rightarrow> bool" where
  "pro_next PIdle q \<longleftrightarrow> q = PPublished"
| "pro_next PPublished q \<longleftrightarrow> q \<noteq> PPublished"
| "pro_next (PSample w) q \<longleftrightarrow> q = PIdle \<or> (\<exists>g. q = PWake g)"
| "pro_next (PWake g) q \<longleftrightarrow> q = PIdle"

lemma replenish_next: "replenish_at cap w = COut \<or> (\<exists>v. replenish_at cap w = CSample v)"
  by (simp add: replenish_at_def replenishDecision_def)

lemma enter_progress:
  assumes ok: "handoff_ok N s xs c" and N: "N < 2 ^ 31" and t: "t < N" "ho_con s t = COut \<or> ho_con s t = CPolling"
  shows "\<exists>q s1. handoff_step cap batch N s (con_to s1 t q) \<and> con_next c (ho_items s) (ho_con s t) q"
proof -
  note p = handoff_ok_parts [OF ok N]
  have nt: "t \<notin> set xs" using p(2) t(2) by (auto simp: roles_ok_def)
  from t(2) show ?thesis
  proof
    assume out: "ho_con s t = COut"
    have "roles_ok N (con_to s t CPolling) xs" using p(2) t(1) out nt by (auto simp: roles_ok_def)
    moreover have "regs ((ho_con s)(t := CPolling)) xs = insert t (regs (ho_con s) xs)" "t \<notin> regs (ho_con s) xs"
      using nt out by (auto simp: regs_def)
    ultimately have "card (regs (ho_con s) xs) + 1 < 2 ^ 31"
      using roles_bounds(2) [of N "con_to s t CPolling" xs] side_state_distinct [OF p(1)] p(4) N by simp
    from register_ok [OF p(1) this] obtain side' where "register (ho_side s) = Some (side', c)" by (cases c) auto
    from c_register [OF t(1) out this] out show ?thesis
      by (intro exI [of _ "if c then COut else CPolling"] exI [of _ "s\<lparr>ho_side := side'\<rparr>"]) (simp del: to_simps)
  next
    assume poll: "ho_con s t = CPolling"
    then have "t \<in> regs (ho_con s) xs" using nt by (simp add: regs_def)
    then have pos: "0 < card (regs (ho_con s) xs)" using p(4) by (auto simp: card_gt_0_iff)
    have "clean (ho_side s) t" using p(2) nt poll by (simp add: roles_ok_def clean_def)
    moreover have "length xs + 1 < 2 ^ 31" using p(5) pos N by simp
    ultimately obtain side' where "enlist (ho_side s) t atNewest = Some (Return c side')"
      using enlist_ok [OF p(1) pos] by blast
    from c_enlist [OF poll this] poll show ?thesis
      by (intro exI [of _ "if c then CLeaving else CListed"] exI [of _ "s\<lparr>ho_side := side'\<rparr>"]) (simp del: to_simps)
  qed
qed

lemma took_progress:
  assumes ok: "handoff_ok N s xs c" and N: "N < 2 ^ 31" and t: "ho_con s t = CTook"
  shows "\<exists>q s1. handoff_step cap batch N s (con_to s1 t q) \<and> con_next c (ho_items s) (ho_con s t) q"
proof -
  note p = handoff_ok_parts [OF ok N]
  show ?thesis
  proof (cases "t \<in> set xs")
    case True
    then obtain ys zs where xs: "xs = ys @ t # zs" by (meson split_list)
    have "wt_listed (ws_heap (ho_side s) t)" using p(1) True by (simp add: side_state_def wait_list_def)
    moreover obtain side' where "unpark (unlink (ho_side s) t) = Some (Return () side')"
      using unpark_unlink_ok [OF p(1) [unfolded xs]] by blast
    ultimately show ?thesis using took_listed [OF t] t
      by (intro exI [of _ CReload] exI [of _ "s\<lparr>ho_side := side'\<rparr>"]) (simp del: to_simps)
  next
    case False
    then have "ws_heap (ho_side s) t = zero_waiter\<lparr>wt_token := True\<rparr>" using p(2) t by (simp add: roles_ok_def)
    then show ?thesis using exit_selected [of s t] t
      by (intro exI [of _ CLeaving] exI [of _ "s\<lparr>ho_side := take_token (ho_side s) t\<rparr>"]) (simp add: zero_waiter_def del: to_simps)
  qed
qed

lemma con_progress:
  assumes ok: "handoff_ok N s xs c" and N: "N < 2 ^ 31" and t: "t < N"
    and b: "ho_con s t = CBlocked \<longrightarrow> wt_token (ws_heap (ho_side s) t)"
  shows "\<exists>q s1. handoff_step cap batch N s (con_to s1 t q) \<and> con_next c (ho_items s) (ho_con s t) q"
proof -
  note p = handoff_ok_parts [OF ok N]
  show ?thesis
  proof (cases "ho_con s t")
    case CLeaving
    then have "t \<in> regs (ho_con s) xs" by (simp add: regs_def)
    then have "0 < card (regs (ho_con s) xs)" using p(4) by (auto simp: card_gt_0_iff)
    note c_leave [OF CLeaving leavePollingAttempt_ok [OF p(1) this]]
    then show ?thesis using CLeaving replenish_next [of cap] by (metis con_next.simps(7))
  next
    case (CSample w)
    have "con_next c (ho_items s) (CSample w) (case replenishGoal cap batch w (int (ho_items s)) of None \<Rightarrow> COut | Some g \<Rightarrow> CWake g)"
      by (simp split: option.split)
    then show ?thesis using c_sample [OF CSample] CSample by metis
  next
    case (CWake g)
    then obtain woke side' where "wake_goal_run (ho_side s) g = Some (Return woke side')"
      using wake_enabled [OF p(1) goal_of(1) [OF ok CWake]] by blast
    then show ?thesis using c_wake [OF CWake] CWake
      by (intro exI [of _ COut] exI [of _ "s\<lparr>ho_side := side'\<rparr>"]) (simp del: to_simps)
  next
    case CListed
    show ?thesis
    proof (cases "ho_items s = 0")
      case True
      then show ?thesis using extra_empty [OF CListed] CListed by (intro exI [of _ CBlocked] exI [of _ s]) (simp del: to_simps)
    next
      case False
      then show ?thesis using extra_take [OF CListed, of 1] CListed
        by (intro exI [of _ CTook] exI [of _ "s\<lparr>ho_items := ho_items s - 1\<rparr>"]) (simp del: to_simps)
    qed
  next
    case CReload
    show ?thesis using c_reload [OF CReload] CReload replenish_next [of cap] by (metis con_next.simps(6))
  next
    case CBlocked
    then show ?thesis using c_token [OF CBlocked] b
      by (intro exI [of _ CPolling] exI [of _ "s\<lparr>ho_side := take_token (ho_side s) t\<rparr>"]) (simp del: to_simps)
  qed (use enter_progress [OF ok N t] took_progress [OF ok N] in auto)
qed

lemma pro_progress:
  assumes ok: "handoff_ok N s xs c" and N: "N < 2 ^ 31"
  shows "\<exists>q s1. handoff_step cap batch N s (pro_to s1 i q) \<and> pro_next (ho_pro s i) q"
proof (cases "ho_pro s i")
  case PPublished
  have "(case publicationDecision cap (ws_word (ho_side s)) of
      NoWake \<Rightarrow> PIdle | WakeNow g \<Rightarrow> PWake g | NeedSample \<Rightarrow> PSample (ws_word (ho_side s))) \<noteq> PPublished"
    by (simp split: decision.split)
  then show ?thesis using pub_load [OF PPublished] PPublished by (metis pro_next.simps(2))
next
  case (PSample w)
  have "pro_next (PSample w) (case publicationGoal cap batch w (int (ho_items s)) of None \<Rightarrow> PIdle | Some g \<Rightarrow> PWake g)"
    by (simp split: option.split)
  then show ?thesis using pub_sample [OF PSample] PSample by metis
next
  case (PWake g)
  then obtain woke side' where "wake_goal_run (ho_side s) g = Some (Return woke side')"
    using wake_enabled [OF handoff_ok_parts(1) [OF ok N] goal_of(2) [OF ok PWake]] by blast
  then show ?thesis using pub_wake [OF PWake] PWake
    by (intro exI [of _ PIdle] exI [of _ "s\<lparr>ho_side := side'\<rparr>"]) (simp del: to_simps)
next
  case PIdle
  then show ?thesis using publish [OF PIdle, of cap batch N 1]
    by (intro exI [of _ PPublished] exI [of _ "s\<lparr>ho_items := ho_items s + 1\<rparr>"]) (simp del: to_simps)
qed

section \<open>Properties\<close>

text \<open>
  C9. No wake is lost: whenever items are visible while a consumer is blocked without a token, some
  other participant is still bound to act on them. It is registered as a poller or already woken, has
  still to make its attempt after joining the list, or owes a wake or the sample that leads to one.
  If nobody else is active, no consumer is blocked while items are visible.
\<close>

theorem no_lost_wakeup:
  assumes "handoff_reach cap batch N s" "0 < batch" "0 < unat cap" "unat cap < 2 ^ 31" "N < 2 ^ 31"
    and "0 < ho_items s" "ho_con s t = CBlocked" "\<not> wt_token (ws_heap (ho_side s) t)"
  shows "(\<exists>u. polling_at (ho_con s u) \<or> on_list (ho_con s u) \<and> wt_token (ws_heap (ho_side s) u) \<or> con_duty (ho_con s u))
    \<or> (\<exists>i. pro_duty (ho_pro s i))"
proof -
  obtain xs c where ok: "handoff_ok N s xs c" and loss: "no_loss s xs"
    using handoff_reach_inv [OF assms(1-5)] by (auto simp: handoff_inv_def handoff_ok_def)
  have r: "roles_ok N s xs" using ok by (simp add: handoff_ok_def)
  have "t \<in> set xs"
  proof (rule ccontr)
    assume "t \<notin> set xs"
    then have "ws_heap (ho_side s) t = zero_waiter\<lparr>wt_token := True\<rparr>" using r assms(7) by (simp add: roles_ok_def)
    with assms(8) show False by simp
  qed
  then have "regs (ho_con s) xs \<noteq> {} \<or> duty s" using loss assms(6,7) unfolding no_loss_def by blast
  moreover have "polling_at (ho_con s u) \<or> on_list (ho_con s u) \<and> wt_token (ws_heap (ho_side s) u)" if "u \<in> regs (ho_con s) xs" for u
    using that r by (auto simp: regs_def roles_ok_def)
  ultimately show ?thesis unfolding duty_def by blast
qed


section \<open>Witnesses\<close>

text \<open>Consumer 0 parks on an empty queue and blocks; then producer 0 publishes one item.\<close>

definition blocked_state :: handoff where
  "blocked_state = \<lparr>ho_items = 1, ho_side = parked_side\<lparr>ws_fresh := 0\<rparr>, ho_con = (\<lambda>_. COut)(0 := CBlocked),
     ho_pro = (\<lambda>_. PIdle)(0 := PPublished)\<rparr>"

lemma blocked_reachable: "0 < N \<Longrightarrow> handoff_reach 1 1 N blocked_state"
proof -
  assume N: "0 < N"
  let ?poll = "\<lparr>ho_items = 0, ho_side = zero_waitSide\<lparr>ws_word := 1\<rparr>, ho_con = (\<lambda>_. COut)(0 := CPolling), ho_pro = (\<lambda>_. PIdle)\<rparr>"
  let ?listed = "\<lparr>ho_items = 0, ho_side = parked_side\<lparr>ws_fresh := 0\<rparr>, ho_con = (\<lambda>_. COut)(0 := CListed), ho_pro = (\<lambda>_. PIdle)\<rparr>"
  have "register zero_waitSide = Some (zero_waitSide\<lparr>ws_word := 1\<rparr>, False)"
    by (subst register.simps) (simp add: registerAttempt_def compareAndSwap_def sideWord_closed_def onePoller_def zero_waitSide_def)
  then have "handoff_reach 1 1 N ?poll"
    using handoff_next [OF handoff_start c_register [OF N, of handoff_init "zero_waitSide\<lparr>ws_word := 1\<rparr>" False]]
    by (simp add: handoff_init_def)
  moreover have "enlist (zero_waitSide\<lparr>ws_word := 1\<rparr>) 0 atNewest = Some (Return False (parked_side\<lparr>ws_fresh := 0\<rparr>))"
    by (subst enlist.simps) (simp add: enlistAttempt_def compareAndSwap_def sideWord_closed_def sideWord_pollers_def closedFlag_def
      countMask_def onePoller_def enlist_link_def Let_def update_waiter_def parked_side_def zero_waitSide_def zero_waiter_def)
  ultimately have "handoff_reach 1 1 N ?listed"
    using handoff_next [OF _ c_enlist [of ?poll 0 False "parked_side\<lparr>ws_fresh := 0\<rparr>"], of 1 1 N] by simp
  then have "handoff_reach 1 1 N (?listed\<lparr>ho_con := (\<lambda>_. COut)(0 := CBlocked)\<rparr>)"
    using handoff_next [OF _ extra_empty [of ?listed 0], of 1 1 N] by simp
  then show ?thesis
    using handoff_next [OF _ publish [of "?listed\<lparr>ho_con := (\<lambda>_. COut)(0 := CBlocked)\<rparr>" 0 1 1 N 1]]
    by (simp add: blocked_state_def)
qed

text \<open>A second consumer registers on the queue on whose list the first one is.\<close>

definition polling_state :: handoff where
  "polling_state = blocked_state\<lparr>ho_side := (ho_side blocked_state)\<lparr>ws_word := ws_word parked_side + 1\<rparr>,
     ho_con := (\<lambda>_. COut)(0 := CBlocked, 1 := CPolling)\<rparr>"

lemma polling_reachable: "handoff_reach 1 1 2 polling_state"
proof -
  have "register (ho_side blocked_state) = Some ((ho_side blocked_state)\<lparr>ws_word := ws_word parked_side + 1\<rparr>, False)"
    by (subst register.simps) (simp add: registerAttempt_def compareAndSwap_def sideWord_closed_def closedFlag_def onePoller_def oneParked_def
      blocked_state_def parked_side_def)
  from c_register [OF _ _ this, of 1 2 1 1] show ?thesis
    using handoff_next [OF blocked_reachable [of 2]] by (simp add: polling_state_def blocked_state_def)
qed

theorem no_lost_wakeup_witness:
  "handoff_reach 1 1 1 blocked_state \<and> ho_con blocked_state 0 = CBlocked \<and> 0 < ho_items blocked_state \<and> pro_duty (ho_pro blocked_state 0)"
proof -
  have at: "ho_con blocked_state 0 = CBlocked" "\<not> wt_token (ws_heap (ho_side blocked_state) 0)" "0 < ho_items blocked_state"
    by (simp_all add: blocked_state_def parked_side_def zero_waiter_def)
  have "(\<exists>u. polling_at (ho_con blocked_state u) \<or> on_list (ho_con blocked_state u) \<and> wt_token (ws_heap (ho_side blocked_state) u)
      \<or> con_duty (ho_con blocked_state u)) \<or> (\<exists>i. pro_duty (ho_pro blocked_state i))"
    by (rule no_lost_wakeup [OF blocked_reachable [of 1] _ _ _ _ at(3,1,2)]) simp_all
  then show ?thesis using blocked_reachable [of 1] at by (auto simp: blocked_state_def parked_side_def zero_waiter_def split: if_splits)
qed


end
