(* ===== verification/WorkDiagnostics.thy ===== *)
theory WorkDiagnostics
  imports RingShared
begin

text \<open>
  The diagnostics values of \<^verbatim>\<open>workq\<close>: the configuration and its validation in
  \<^verbatim>\<open>workq/diagnostics.go\<close>, the sizes \<^verbatim>\<open>internal/diagnostics/storage.go\<close> bounds before it allocates, and the
  histograms that file records into and \<^verbatim>\<open>internal/diagnostics/snapshot.go\<close> reduces over the shards. A
  counter is the 64-bit word it is, so counts and sums wrap; an update of a minimum or maximum is
  the call without interference.
\<close>

unbundle bit_operations_syntax

section \<open>Definitions\<close>

subsection \<open>Configuration\<close>

type_synonym DiagnosticsMode = "8 word"

definition DiagnosticsDisabled :: DiagnosticsMode where
  "DiagnosticsDisabled = 0"

definition DiagnosticsCounters :: DiagnosticsMode where
  "DiagnosticsCounters = 1"

definition DiagnosticsTiming :: DiagnosticsMode where
  "DiagnosticsTiming = 2"

record DiagnosticsConfig =
  dc_Mode :: DiagnosticsMode
  dc_Shards :: int
  dc_TimingSampleEvery :: u32
  dc_CapacitySampleEvery :: u32

definition zero_DiagnosticsConfig :: DiagnosticsConfig where
  "zero_DiagnosticsConfig = \<lparr>dc_Mode = DiagnosticsDisabled, dc_Shards = 0, dc_TimingSampleEvery = 0, dc_CapacitySampleEvery = 0\<rparr>"

definition AttemptPhaseCount :: nat where "AttemptPhaseCount = 6"
definition WaitOutcomeCount :: nat where "WaitOutcomeCount = 4"
definition ParkSelectCaseCount :: nat where "ParkSelectCaseCount = 3"
definition WakeKindCount :: nat where "WakeKindCount = 2"
definition WakeRetryOutcomeCount :: nat where "WakeRetryOutcomeCount = 5"
definition CapacitySourceCount :: nat where "CapacitySourceCount = 5"
definition SizeBucketCount :: nat where "SizeBucketCount = 58"
definition DurationBucketCount :: nat where "DurationBucketCount = 64"

text \<open>\<^verbatim>\<open>unsafe.Sizeof\<close> on a 64-bit platform, where every atomic counter takes 8 bytes.\<close>

definition sizeof_SizeHistogram :: int where
  "sizeof_SizeHistogram = 8 * (int SizeBucketCount + 4)"

definition sizeof_SideCounters :: int where
  "sizeof_SideCounters = 8 * (7 * int AttemptPhaseCount + int WaitOutcomeCount + int ParkSelectCaseCount
     + 2 * int WakeKindCount + int WakeRetryOutcomeCount + 20)
     + 2 * sizeof_SizeHistogram + int CapacitySourceCount * (sizeof_SizeHistogram + 8)"

definition sizeof_CounterShard :: int where
  "sizeof_CounterShard = (sizeof_SideCounters + 216) + (sizeof_SideCounters + 2 * sizeof_SizeHistogram + 248)"

definition sizeof_TimingShard :: int where
  "sizeof_TimingShard = 2 * (8 * 4 + (int WaitOutcomeCount + int ParkSelectCaseCount) * 8 * (int DurationBucketCount + 4) + 128)"

definition sizeof_Storage :: int where
  "sizeof_Storage = 8 + 24 + 24 + 24"

definition AllocationSize :: "DiagnosticsConfig \<Rightarrow> int \<times> bool" where
  "AllocationSize cfg =
     (if dc_Mode cfg = DiagnosticsDisabled then (0, True)
      else if dc_Shards cfg < 1 then (0, False)
      else (let stride = sizeof_CounterShard + (if dc_Mode cfg = DiagnosticsTiming then sizeof_TimingShard else 0);
                descriptor = sizeof_Storage
            in if dc_Shards cfg > (maxInt - descriptor) div stride then (0, False)
               else (descriptor + dc_Shards cfg * stride, True)))"

text \<open>The checks after the switch on the mode.\<close>

definition resolveShards :: "DiagnosticsConfig \<Rightarrow> DiagnosticsConfig option" where
  "resolveShards cfg =
     (let cfg1 = (if dc_Shards cfg = 0 then cfg\<lparr>dc_Shards := 16\<rparr> else cfg)
      in if dc_Shards cfg1 < 1 \<or> dc_Shards cfg1 AND (dc_Shards cfg1 - 1) \<noteq> 0 then None
         else if \<not> snd (AllocationSize cfg1) then None
         else Some cfg1)"

definition resolveDiagnostics :: "DiagnosticsConfig \<Rightarrow> DiagnosticsConfig option" where
  "resolveDiagnostics cfg =
     (if dc_Mode cfg = DiagnosticsDisabled
      then (if dc_Shards cfg \<noteq> 0 \<or> dc_TimingSampleEvery cfg \<noteq> 0 \<or> dc_CapacitySampleEvery cfg \<noteq> 0
            then None else Some cfg)
      else if dc_Mode cfg = DiagnosticsCounters
      then (if dc_TimingSampleEvery cfg \<noteq> 0 then None else resolveShards cfg)
      else if dc_Mode cfg = DiagnosticsTiming
      then resolveShards (if dc_TimingSampleEvery cfg = 0 then cfg\<lparr>dc_TimingSampleEvery := 64\<rparr> else cfg)
      else None)"

text \<open>The shard a new endpoint is bound to.\<close>

definition diagnosticsShardIndex :: "u64 \<Rightarrow> int \<Rightarrow> int" where
  "diagnosticsShardIndex ticket shards = int (unat (ticket AND of_int (shards - 1)))"

subsection \<open>Histograms\<close>

record histogram =
  hg_Buckets :: "u64 list"
  hg_Count :: u64
  hg_Sum :: u64
  hg_Min :: u64
  hg_Max :: u64

text \<open>\<^verbatim>\<open>bits.Len64\<close>: the number of bits needed to write a value, 0 for 0.\<close>

fun bit_length :: "nat \<Rightarrow> nat" where
  "bit_length n = (if n = 0 then 0 else bit_length (n div 2) + 1)"

declare bit_length.simps [simp del]

definition bits_Len64 :: "u64 \<Rightarrow> nat" where
  "bits_Len64 v = bit_length (unat v)"

text \<open>
  The zero value of a histogram with \<open>n\<close> buckets, and the one construction leaves, whose minimum is
  the largest value.
\<close>

definition zero_histogram :: "nat \<Rightarrow> histogram" where
  "zero_histogram n = \<lparr>hg_Buckets = replicate n 0, hg_Count = 0, hg_Sum = 0, hg_Min = 0, hg_Max = 0\<rparr>"

definition initializeMinimum :: "histogram \<Rightarrow> histogram" where
  "initializeMinimum h = h\<lparr>hg_Min := - 1\<rparr>"

definition updateAtomicMinimum :: "u64 \<Rightarrow> u64 \<Rightarrow> u64" where
  "updateAtomicMinimum target v = (if v < target then v else target)"

definition updateAtomicMaximum :: "u64 \<Rightarrow> u64 \<Rightarrow> u64" where
  "updateAtomicMaximum target v = (if v > target then v else target)"

definition record_in :: "nat \<Rightarrow> u64 \<Rightarrow> histogram \<Rightarrow> (histogram, unit) outcome" where
  "record_in bucket v h =
     (if bucket < length (hg_Buckets h)
      then Return () \<lparr>hg_Buckets = (hg_Buckets h)[bucket := hg_Buckets h ! bucket + 1],
             hg_Count = hg_Count h + 1, hg_Sum = hg_Sum h + v,
             hg_Min = updateAtomicMinimum (hg_Min h) v, hg_Max = updateAtomicMaximum (hg_Max h) v\<rparr>
      else Panic BoundsPanic h)"

definition size_bucket :: "u64 \<Rightarrow> nat" where
  "size_bucket v = (if v > 32 then bits_Len64 (v - 1) + 27 else unat v)"

definition AtomicSizeHistogram_Record :: "histogram \<Rightarrow> u64 \<Rightarrow> (histogram, unit) outcome" where
  "AtomicSizeHistogram_Record h v = record_in (size_bucket v) v h"

definition AtomicDurationHistogram_Record :: "histogram \<Rightarrow> u64 \<Rightarrow> (histogram, unit) outcome" where
  "AtomicDurationHistogram_Record h v = record_in (bits_Len64 v) v h"

record capacity_histogram =
  ch_hist :: histogram
  ch_AtCapacity :: u64

definition AtomicCapacityHistogram_Record :: "capacity_histogram \<Rightarrow> u64 \<Rightarrow> u32 \<Rightarrow> (capacity_histogram, unit) outcome" where
  "AtomicCapacityHistogram_Record h v capacity =
     (case AtomicSizeHistogram_Record (ch_hist h) v of
        Panic p g \<Rightarrow> Panic p (h\<lparr>ch_hist := g\<rparr>)
      | Return _ g \<Rightarrow> Return () \<lparr>ch_hist = g, ch_AtCapacity = ch_AtCapacity h + (if v = ucast capacity then 1 else 0)\<rparr>)"

definition addHistogram :: "histogram \<Rightarrow> histogram \<Rightarrow> histogram" where
  "addHistogram h source =
     \<lparr>hg_Buckets = map2 (+) (hg_Buckets h) (hg_Buckets source), hg_Count = hg_Count h + hg_Count source,
      hg_Sum = hg_Sum h + hg_Sum source, hg_Min = min (hg_Min h) (hg_Min source), hg_Max = max (hg_Max h) (hg_Max source)\<rparr>"

definition normalizeEmptyMinimum :: "histogram \<Rightarrow> histogram" where
  "normalizeEmptyMinimum h = (if hg_Min h = - 1 then h\<lparr>hg_Min := 0\<rparr> else h)"

text \<open>The part of \<^verbatim>\<open>Snapshot\<close> that concerns one histogram of \<open>n\<close> buckets, given its copies in the shards.\<close>

definition snapshot_histogram :: "nat \<Rightarrow> histogram list \<Rightarrow> histogram" where
  "snapshot_histogram n shards =
     normalizeEmptyMinimum (fold (\<lambda>source h. addHistogram h source) shards (initializeMinimum (zero_histogram n)))"

text \<open>The observations one shard has recorded since its construction, in order.\<close>

definition record_all :: "(histogram \<Rightarrow> u64 \<Rightarrow> (histogram, unit) outcome) \<Rightarrow> nat \<Rightarrow> u64 list \<Rightarrow> (histogram, unit) outcome" where
  "record_all rec n vs =
     fold (\<lambda>v out. then_do out (\<lambda>_ h. rec h v)) vs (Return () (initializeMinimum (zero_histogram n)))"

section \<open>What a histogram holds\<close>

definition hist_of :: "(u64 \<Rightarrow> nat) \<Rightarrow> nat \<Rightarrow> u64 list \<Rightarrow> histogram" where
  "hist_of bucket n vs =
     \<lparr>hg_Buckets = map (\<lambda>i. of_nat (length (filter (\<lambda>v. bucket v = i) vs))) [0..<n],
      hg_Count = of_nat (length vs), hg_Sum = sum_list vs, hg_Min = fold min vs (- 1), hg_Max = fold max vs 0\<rparr>"

lemma hist_of_Nil: "initializeMinimum (zero_histogram n) = hist_of bucket n []"
  by (simp add: initializeMinimum_def zero_histogram_def hist_of_def map_replicate_const)

lemma record_in_hist:
  assumes "bucket v < n"
  shows "record_in (bucket v) v (hist_of bucket n vs) = Return () (hist_of bucket n (vs @ [v]))"
  using assms
  by (auto simp: record_in_def hist_of_def updateAtomicMinimum_def updateAtomicMaximum_def min_def max_def
      list_eq_iff_nth_eq nth_list_update)

lemma record_all_hist:
  assumes "\<And>h v. rec h v = record_in (bucket v) v h" "\<forall>v\<in>set vs. bucket v < n"
  shows "record_all rec n vs = Return () (hist_of bucket n vs)"
  using assms(2)
proof (induction vs rule: rev_induct)
  case (snoc v vs)
  then show ?case using record_in_hist [of bucket v n vs] by (simp add: record_all_def assms(1))
qed (simp add: record_all_def hist_of_Nil)

lemma fold_min_from: "fold min ys a = min a (fold min ys (- 1))" for a :: u64
proof (induction ys arbitrary: a)
  case (Cons y ys)
  show ?case using Cons.IH [of "min y a"] Cons.IH [of y]
    by (simp add: min.absorb1 word_order.extremum min.assoc min.left_commute)
qed (simp add: min.absorb1 word_order.extremum)

lemma fold_max_from: "fold max ys a = max a (fold max ys 0)" for a :: u64
proof (induction ys arbitrary: a)
  case (Cons y ys)
  show ?case using Cons.IH [of "max y a"] Cons.IH [of y]
    by (simp add: max.absorb1 max.assoc max.left_commute)
qed (simp add: max.absorb1)

lemma fold_min_Min: "vs \<noteq> [] \<Longrightarrow> fold min vs (- 1 :: u64) = Min (set vs)"
proof (cases vs)
  case (Cons y ys)
  then show ?thesis using Min.set_eq_fold [of y ys] by (simp add: min.absorb1 word_order.extremum)
qed simp

lemma fold_max_Max: "vs \<noteq> [] \<Longrightarrow> fold max vs (0 :: u64) = Max (set vs)"
proof (cases vs)
  case (Cons y ys)
  then show ?thesis using Max.set_eq_fold [of y ys] by (simp add: max.absorb1)
qed simp

lemma addHistogram_hist: "addHistogram (hist_of bucket n xs) (hist_of bucket n ys) = hist_of bucket n (xs @ ys)"
  using fold_min_from [of ys "fold min xs (- 1)"] fold_max_from [of ys "fold max xs 0"]
  by (simp add: addHistogram_def hist_of_def list_eq_iff_nth_eq)

lemma fold_addHistogram:
  "fold (\<lambda>source h. addHistogram h source) (map (hist_of bucket n) vss) (hist_of bucket n vs) = hist_of bucket n (vs @ concat vss)"
  by (induction vss arbitrary: vs) (simp_all add: addHistogram_hist)

text \<open>
  The reduction of the shards is the histogram of everything they recorded, and its minimum the
  least value, or 0 when nothing was recorded.
\<close>

lemma snapshot_histogram_hist:
  assumes "\<forall>vs\<in>set vss. \<forall>v\<in>set vs. v \<noteq> - 1"
  shows "snapshot_histogram n (map (hist_of bucket n) vss) =
    (hist_of bucket n (concat vss))\<lparr>hg_Min := if concat vss = [] then 0 else Min (set (concat vss)),
       hg_Max := if concat vss = [] then 0 else Max (set (concat vss))\<rparr>"
proof (cases "concat vss = []")
  case True
  have "fold (\<lambda>source h. addHistogram h source) (map (hist_of bucket n) vss) (hist_of bucket n []) = hist_of bucket n []"
    using fold_addHistogram [of bucket n vss "[]"] by (simp only: True append_Nil)
  then show ?thesis
    unfolding snapshot_histogram_def hist_of_Nil [of n bucket] True by (simp add: normalizeEmptyMinimum_def hist_of_def)
next
  case False
  have "Min (set (concat vss)) \<in> set (concat vss)" using False by (intro Min_in) auto
  then have "Min (set (concat vss)) \<noteq> - 1" using assms by fastforce
  moreover have "fold (\<lambda>source h. addHistogram h source) (map (hist_of bucket n) vss) (hist_of bucket n [])
      = hist_of bucket n (concat vss)"
    using fold_addHistogram [of bucket n vss "[]"] by (simp only: append_Nil)
  ultimately show ?thesis
    unfolding snapshot_histogram_def hist_of_Nil [of n bucket] if_not_P [OF False]
    using fold_min_Min [OF False] fold_max_Max [OF False]
    by (simp add: normalizeEmptyMinimum_def hist_of_def del: set_concat)
qed

section \<open>Buckets\<close>

lemma bit_length_le: "bit_length n \<le> k \<longleftrightarrow> n < 2 ^ k"
proof (induction n arbitrary: k rule: bit_length.induct)
  case (1 n)
  show ?case
  proof (cases k)
    case 0 then show ?thesis by (simp add: bit_length.simps [of n])
  next
    case (Suc j)
    have "n div 2 < 2 ^ j \<longleftrightarrow> n < 2 ^ k" by (auto simp: Suc)
    with 1 Suc show ?thesis by (subst bit_length.simps) auto
  qed
qed

lemma bit_length_eq: "bit_length n = Suc k \<longleftrightarrow> 2 ^ k \<le> n \<and> n < 2 ^ Suc k"
  using bit_length_le [of n k] bit_length_le [of n "Suc k"] by linarith

text \<open>The documented ranges: exact sizes up to 32, then powers of two; durations by their length in bits.\<close>

definition in_size_bucket :: "nat \<Rightarrow> u64 \<Rightarrow> bool" where
  "in_size_bucket i v \<longleftrightarrow> (if i \<le> 32 then unat v = i else 2 ^ (i - 28) < unat v \<and> unat v \<le> 2 ^ (i - 27))"

definition in_duration_bucket :: "nat \<Rightarrow> u64 \<Rightarrow> bool" where
  "in_duration_bucket i v \<longleftrightarrow> (if i = 0 then v = 0 else 2 ^ (i - 1) \<le> unat v \<and> unat v \<le> 2 ^ i - 1)"

lemma size_bucket_range: "size_bucket v = i \<longleftrightarrow> in_size_bucket i v"
proof (cases "v > 32")
  case True
  then have v: "unat v > 32" by (simp add: word_less_nat_alt)
  have pred: "unat (v - 1) = unat v - 1" using True by (subst unat_sub) (auto simp: word_le_nat_alt word_less_nat_alt)
  have "\<not> bit_length (unat v - 1) \<le> 5" unfolding bit_length_le using v by simp
  then have big: "size_bucket v > 32" using True by (simp add: size_bucket_def bits_Len64_def pred)
  show ?thesis
  proof (cases "i \<le> 32")
    case True then show ?thesis using big v by (auto simp: in_size_bucket_def)
  next
    case False
    define k where "k = i - 28"
    have i: "i = Suc k + 27" using False by (simp add: k_def)
    have "size_bucket v = i \<longleftrightarrow> bit_length (unat v - 1) = Suc k" using True by (simp add: size_bucket_def bits_Len64_def pred i)
    also have "\<dots> \<longleftrightarrow> in_size_bucket i v" unfolding bit_length_eq in_size_bucket_def using False v by (auto simp: i)
    finally show ?thesis .
  qed
next
  case False
  then have v: "unat v \<le> 32" by (simp add: word_less_nat_alt not_less)
  have "\<not> in_size_bucket i v" if "i > 32"
  proof -
    have "(2::nat) ^ 5 \<le> 2 ^ (i - 28)" using that by (intro power_increasing) auto
    then show ?thesis using that v by (simp add: in_size_bucket_def)
  qed
  with False v show ?thesis by (cases "i \<le> 32") (auto simp: size_bucket_def in_size_bucket_def)
qed

lemma size_bucket_less: "v \<le> 2 ^ 30 \<Longrightarrow> size_bucket v < SizeBucketCount"
proof -
  assume "v \<le> 2 ^ 30"
  then have v: "unat v \<le> 2 ^ 30" by (simp add: word_le_nat_alt)
  show ?thesis
  proof (rule ccontr)
    assume "\<not> ?thesis"
    then have i: "58 \<le> size_bucket v" by (simp add: SizeBucketCount_def)
    have "in_size_bucket (size_bucket v) v" by (simp flip: size_bucket_range)
    then have "2 ^ (size_bucket v - 28) < unat v" using i by (simp add: in_size_bucket_def)
    moreover have "(2::nat) ^ 30 \<le> 2 ^ (size_bucket v - 28)" using i by (intro power_increasing) auto
    ultimately show False using v by simp
  qed
qed

lemma duration_bucket_range: "bits_Len64 v = i \<longleftrightarrow> in_duration_bucket i v"
proof (cases i)
  case 0
  then show ?thesis using bit_length_le [of "unat v" 0] by (simp add: bits_Len64_def in_duration_bucket_def unat_eq_0)
next
  case (Suc k)
  then show ?thesis unfolding bits_Len64_def by (simp only: bit_length_eq in_duration_bucket_def) (auto simp: Suc_le_eq [symmetric] le_diff_conv2)
qed

lemma duration_bucket_less: "v < 2 ^ 63 \<Longrightarrow> bits_Len64 v < DurationBucketCount"
  using bit_length_le [of "unat v" 63] by (simp add: bits_Len64_def DurationBucketCount_def word_less_nat_alt)

section \<open>The configuration\<close>

definition diagnostics_stride :: "DiagnosticsMode \<Rightarrow> int" where
  "diagnostics_stride mode = (if mode = DiagnosticsTiming then 17664 else 9728)"

text \<open>
  Validation accepts the zero configuration, and the enabled ones whose number of shards, 16 by
  default, is a power of two that fits memory, without timing samples when only counters are on.
  The result is the configuration with the defaults filled in.
\<close>

definition diagnostics_resolved :: "DiagnosticsConfig \<Rightarrow> DiagnosticsConfig \<Rightarrow> bool" where
  "diagnostics_resolved cfg r \<longleftrightarrow>
     dc_Mode cfg = DiagnosticsDisabled \<and> cfg = zero_DiagnosticsConfig \<and> r = cfg
   \<or> (dc_Mode cfg = DiagnosticsCounters \<and> dc_TimingSampleEvery cfg = 0 \<or> dc_Mode cfg = DiagnosticsTiming)
     \<and> r = cfg\<lparr>dc_Shards := if dc_Shards cfg = 0 then 16 else dc_Shards cfg,
          dc_TimingSampleEvery := if dc_Mode cfg = DiagnosticsTiming \<and> dc_TimingSampleEvery cfg = 0 then 64
            else dc_TimingSampleEvery cfg\<rparr>
     \<and> (\<exists>k. dc_Shards r = 2 ^ k) \<and> 80 + dc_Shards r * diagnostics_stride (dc_Mode cfg) \<le> maxInt"

lemma sizeof_values: "sizeof_CounterShard = 9728" "sizeof_TimingShard = 7936" "sizeof_Storage = 80"
  by (simp_all add: sizeof_CounterShard_def sizeof_TimingShard_def sizeof_Storage_def sizeof_SideCounters_def
      sizeof_SizeHistogram_def SizeBucketCount_def AttemptPhaseCount_def WaitOutcomeCount_def ParkSelectCaseCount_def
      WakeKindCount_def WakeRetryOutcomeCount_def CapacitySourceCount_def DurationBucketCount_def)

lemma AllocationSize_fits:
  assumes "dc_Mode cfg \<noteq> DiagnosticsDisabled" "1 \<le> dc_Shards cfg"
  shows "snd (AllocationSize cfg) \<longleftrightarrow> 80 + dc_Shards cfg * diagnostics_stride (dc_Mode cfg) \<le> maxInt"
proof -
  have "a > (maxInt - 80) div s \<longleftrightarrow> \<not> 80 + a * s \<le> maxInt" if "0 < s" for a s :: int
  proof -
    have "a \<le> (maxInt - 80) div s \<longleftrightarrow> a * s \<le> maxInt - 80"
    proof
      assume "a \<le> (maxInt - 80) div s"
      then have "a * s \<le> (maxInt - 80) div s * s" using that by (intro mult_right_mono) auto
      also have "\<dots> \<le> maxInt - 80" using that pos_mod_sign [of s "maxInt - 80"] div_mult_mod_eq [of "maxInt - 80" s] by linarith
      finally show "a * s \<le> maxInt - 80" .
    next
      assume "a * s \<le> maxInt - 80"
      then show "a \<le> (maxInt - 80) div s" using that zdiv_mono1 [of "a * s" "maxInt - 80" s] by simp
    qed
    then show ?thesis by linarith
  qed
  then show ?thesis using assms by (auto simp: AllocationSize_def Let_def sizeof_values diagnostics_stride_def)
qed

lemma resolveShards_Some:
  assumes "dc_Mode cfg \<noteq> DiagnosticsDisabled"
  defines "sh \<equiv> if dc_Shards cfg = 0 then 16 else dc_Shards cfg"
  shows "resolveShards cfg = Some r \<longleftrightarrow>
    r = cfg\<lparr>dc_Shards := sh\<rparr> \<and> (\<exists>k. sh = 2 ^ k) \<and> 80 + sh * diagnostics_stride (dc_Mode cfg) \<le> maxInt"
proof -
  let ?c = "cfg\<lparr>dc_Shards := sh\<rparr>"
  have c: "(if dc_Shards cfg = 0 then cfg\<lparr>dc_Shards := 16\<rparr> else cfg) = ?c" by (simp add: sh_def)
  show ?thesis
  proof (cases "1 \<le> sh")
    case True
    have "snd (AllocationSize ?c) \<longleftrightarrow> 80 + sh * diagnostics_stride (dc_Mode cfg) \<le> maxInt"
      using AllocationSize_fits [of ?c] assms(1) True by simp
    then show ?thesis using True and_pred_zero [of sh] unfolding resolveShards_def c Let_def by auto
  next
    case False
    then have "sh \<noteq> 2 ^ k" for k using zero_less_power [of "2::int" k] by linarith
    with False show ?thesis unfolding resolveShards_def c Let_def by simp
  qed
qed

lemma resolveDiagnostics_Some: "resolveDiagnostics cfg = Some r \<longleftrightarrow> diagnostics_resolved cfg r"
proof -
  have d: "DiagnosticsTiming \<noteq> DiagnosticsCounters" "DiagnosticsTiming \<noteq> DiagnosticsDisabled" "DiagnosticsCounters \<noteq> DiagnosticsDisabled"
    by (simp_all add: DiagnosticsDisabled_def DiagnosticsCounters_def DiagnosticsTiming_def)
  consider "dc_Mode cfg = DiagnosticsDisabled" | "dc_Mode cfg = DiagnosticsCounters" | "dc_Mode cfg = DiagnosticsTiming"
    | "dc_Mode cfg \<notin> {DiagnosticsDisabled, DiagnosticsCounters, DiagnosticsTiming}" by blast
  then show ?thesis
  proof cases
    case 1
    then have "dc_Shards cfg \<noteq> 0 \<or> dc_TimingSampleEvery cfg \<noteq> 0 \<or> dc_CapacitySampleEvery cfg \<noteq> 0 \<longleftrightarrow> cfg \<noteq> zero_DiagnosticsConfig"
      by (cases cfg) (simp add: zero_DiagnosticsConfig_def)
    with 1 show ?thesis unfolding resolveDiagnostics_def diagnostics_resolved_def using d by auto
  next
    case 2
    then show ?thesis unfolding resolveDiagnostics_def diagnostics_resolved_def using d resolveShards_Some [of cfg r]
      by (cases cfg) (cases "dc_TimingSampleEvery cfg = 0"; auto)
  next
    case 3
    let ?t = "if dc_TimingSampleEvery cfg = 0 then cfg\<lparr>dc_TimingSampleEvery := 64\<rparr> else cfg"
    have t: "dc_Mode ?t = DiagnosticsTiming" "dc_Shards ?t = dc_Shards cfg" using 3 by simp_all
    have "resolveDiagnostics cfg = resolveShards ?t" using 3 d by (simp add: resolveDiagnostics_def)
    with resolveShards_Some [of ?t r] 3 t d show ?thesis
      by (cases cfg) (cases "dc_TimingSampleEvery cfg = 0"; auto simp: diagnostics_resolved_def)
  next
    case 4
    then show ?thesis by (simp add: resolveDiagnostics_def diagnostics_resolved_def)
  qed
qed

section \<open>Properties\<close>

text \<open>
  C29. A snapshot of the size histograms of any number of shards is the histogram of all the
  observations the shards recorded, whichever shard recorded which: every bucket counts the values
  of its documented range, the count and the sum are those of all values modulo \<open>2^64\<close>, the extrema are
  the least and the greatest value, or 0 when nothing was recorded, and no recording is out of
  the range of the buckets for sizes up to \<open>2^30\<close>. The same holds of the duration histograms for
  durations below \<open>2^63\<close>.
\<close>

theorem snapshot_is_histogram_of_all:
  fixes vss dss :: "u64 list list"
  assumes "\<forall>vs\<in>set vss. \<forall>v\<in>set vs. v \<le> 2 ^ 30" and "\<forall>ds\<in>set dss. \<forall>d\<in>set ds. d < 2 ^ 63"
  defines "summary in_bucket n xs h \<equiv>
    h = \<lparr>hg_Buckets = map (\<lambda>i. of_nat (length (filter (in_bucket i) xs))) [0..<n],
         hg_Count = of_nat (length xs), hg_Sum = sum_list xs,
         hg_Min = if xs = [] then 0 else Min (set xs),
         hg_Max = if xs = [] then 0 else Max (set xs)\<rparr>"
  shows "\<exists>sizes durations.
      map (record_all AtomicSizeHistogram_Record SizeBucketCount) vss = map (Return ()) sizes
    \<and> summary in_size_bucket SizeBucketCount (concat vss) (snapshot_histogram SizeBucketCount sizes)
    \<and> map (record_all AtomicDurationHistogram_Record DurationBucketCount) dss = map (Return ()) durations
    \<and> summary in_duration_bucket DurationBucketCount (concat dss) (snapshot_histogram DurationBucketCount durations)"
proof -
  have fits: "size_bucket v < SizeBucketCount" "v \<noteq> - 1" if "vs \<in> set vss" "v \<in> set vs" for v vs
    using bspec [OF bspec [OF assms(1) that(1)] that(2)]
    by (auto intro!: size_bucket_less simp: word_le_nat_alt unsigned_minus_1_eq_mask mask_eq_exp_minus_1)
  have dfits: "bits_Len64 d < DurationBucketCount" "d \<noteq> - 1" if "ds \<in> set dss" "d \<in> set ds" for d ds
    using bspec [OF bspec [OF assms(2) that(1)] that(2)]
    by (auto intro!: duration_bucket_less simp: word_less_nat_alt unsigned_minus_1_eq_mask mask_eq_exp_minus_1)
  have rec: "map (record_all AtomicSizeHistogram_Record SizeBucketCount) vss = map (Return ()) (map (hist_of size_bucket SizeBucketCount) vss)"
    using fits by (auto intro!: record_all_hist simp: AtomicSizeHistogram_Record_def)
  have drec: "map (record_all AtomicDurationHistogram_Record DurationBucketCount) dss
       = map (Return ()) (map (hist_of bits_Len64 DurationBucketCount) dss)"
    using dfits by (auto intro!: record_all_hist simp: AtomicDurationHistogram_Record_def)
  have snap: "snapshot_histogram n (map (hist_of bucket n) xss) =
      (hist_of bucket n (concat xss))\<lparr>hg_Min := if concat xss = [] then 0 else Min (set (concat xss)),
         hg_Max := if concat xss = [] then 0 else Max (set (concat xss))\<rparr>"
    if "xss = vss \<or> xss = dss" for bucket n xss
    using fits(2) dfits(2) that by (intro snapshot_histogram_hist) blast
  show ?thesis
    by (intro exI conjI, rule rec, subst snap, simp, simp add: summary_def hist_of_def size_bucket_range,
        rule drec, subst snap, simp, simp add: summary_def hist_of_def duration_bucket_range)
qed

theorem snapshot_is_histogram_of_all_witness:
  "\<exists>sizes durations.
      map (record_all AtomicSizeHistogram_Record SizeBucketCount) [[3], [], [40, 0]] = map (Return ()) sizes
    \<and> map (record_all AtomicDurationHistogram_Record DurationBucketCount) [[2 ^ 62], [7]] = map (Return ()) durations
    \<and> hg_Count (snapshot_histogram SizeBucketCount sizes) = 3 \<and> hg_Min (snapshot_histogram SizeBucketCount sizes) = 0
    \<and> hg_Buckets (snapshot_histogram SizeBucketCount sizes) ! 33 = 1
    \<and> hg_Max (snapshot_histogram DurationBucketCount durations) = 2 ^ 62"
proof -
  have v: "\<forall>vs\<in>set [[3], [], [40, 0]]. \<forall>v\<in>set vs. v \<le> (2 ^ 30 :: u64)"
    and d: "\<forall>ds\<in>set [[2 ^ 62], [7]]. \<forall>d\<in>set ds. d < (2 ^ 63 :: u64)" by simp_all
  show ?thesis
    by (rule exE [OF snapshot_is_histogram_of_all [OF v d]], elim exE conjE, intro exI conjI, assumption, assumption)
      (simp_all add: in_size_bucket_def SizeBucketCount_def)
qed

end
