(* ===== verification/WorkEngine.thy ===== *)
theory WorkEngine
  imports DpdkSPSC FrontierMPSC FrontierSPMC FrontierMPMC WorkDiagnostics
begin

text \<open>
  The engines of \<^verbatim>\<open>workq/engine.go\<close>: the interface the work queue calls, as a sum of the four ring
  buffers that implement it, and the choice among them. The ring that \<^verbatim>\<open>newEngine\<close> builds is a bounded
  FIFO of the capacity and the batch limits asked for, whichever of the four it is.
\<close>

section \<open>Definitions\<close>

subsection \<open>Configuration of a work queue\<close>

record WaitStrategy =
  st_Spins :: int
  st_Yields :: int
  st_NeverPark :: bool

record wq_config =
  wc_diagnostics :: DiagnosticsConfig
  wc_singleProducer :: bool
  wc_singleConsumer :: bool
  wc_maxPushBatch :: int
  wc_maxReceiveBatch :: int
  wc_consumerWait :: WaitStrategy
  wc_producerWait :: WaitStrategy

subsection \<open>The interface and its implementations\<close>

datatype 'a engine =
    SPSC_engine "'a SPSCQueue"
  | MPSC_engine "'a FR_MPSCQueue"
  | SPMC_engine "'a FR_SPMCQueue"
  | MPMC_engine "'a FR_MPMCQueue"

fun engine_Enqueue :: "('a::zero) engine \<Rightarrow> 'a \<Rightarrow> ('a engine \<times> ring_error option) option" where
  "engine_Enqueue (SPSC_engine r) x = Some (apfst SPSC_engine (SPSC_Enqueue r x))"
| "engine_Enqueue (MPSC_engine q) x =
     map_option (\<lambda>(r, e). (MPSC_engine (q\<lparr>fmq_base := r\<rparr>), e)) (fr_mpscBase_Enqueue (fmq_base q) x)"
| "engine_Enqueue (SPMC_engine r) x = Some (apfst SPMC_engine (FR_SPMC_Enqueue r x))"
| "engine_Enqueue (MPMC_engine r) x = map_option (apfst MPMC_engine) (FR_MPMC_Enqueue r x)"

fun engine_EnqueueBurst :: "('a::zero) engine \<Rightarrow> 'a list \<Rightarrow> ('a engine \<times> int \<times> int) option" where
  "engine_EnqueueBurst (SPSC_engine r) xs = Some (apfst SPSC_engine (SPSC_EnqueueBurst r xs))"
| "engine_EnqueueBurst (MPSC_engine q) xs =
     map_option (\<lambda>(r, n). (MPSC_engine (q\<lparr>fmq_base := r\<rparr>), n)) (fr_mpscBase_EnqueueBurst (fmq_base q) xs)"
| "engine_EnqueueBurst (SPMC_engine r) xs = Some (apfst SPMC_engine (FR_SPMC_EnqueueBurst r xs))"
| "engine_EnqueueBurst (MPMC_engine r) xs = map_option (apfst MPMC_engine) (FR_MPMC_EnqueueBurst r xs)"

fun engine_Dequeue :: "('a::zero) engine \<Rightarrow> ('a engine \<times> 'a \<times> ring_error option) option" where
  "engine_Dequeue (SPSC_engine r) = Some (apfst SPSC_engine (SPSC_Dequeue r))"
| "engine_Dequeue (MPSC_engine q) =
     (case fr_mpscBase_Dequeue (fmq_base q) of (r, v) \<Rightarrow> Some (MPSC_engine (q\<lparr>fmq_base := r\<rparr>), v))"
| "engine_Dequeue (SPMC_engine r) = map_option (apfst SPMC_engine) (FR_SPMC_Dequeue r)"
| "engine_Dequeue (MPMC_engine r) = map_option (apfst MPMC_engine) (FR_MPMC_Dequeue r)"

fun engine_DequeueBurst :: "('a::zero) engine \<Rightarrow> 'a list \<Rightarrow> ('a engine \<times> int \<times> int \<times> 'a list) option" where
  "engine_DequeueBurst (SPSC_engine r) dst = Some (apfst SPSC_engine (SPSC_DequeueBurst r dst))"
| "engine_DequeueBurst (MPSC_engine q) dst =
     (case fr_mpscBase_DequeueBurst (fmq_base q) dst of (r, v) \<Rightarrow> Some (MPSC_engine (q\<lparr>fmq_base := r\<rparr>), v))"
| "engine_DequeueBurst (SPMC_engine r) dst = map_option (apfst SPMC_engine) (FR_SPMC_DequeueBurst r dst)"
| "engine_DequeueBurst (MPMC_engine r) dst = map_option (apfst MPMC_engine) (FR_MPMC_DequeueBurst r dst)"

fun engine_Capacity :: "'a engine \<Rightarrow> int" where
  "engine_Capacity (SPSC_engine r) = SPSC_Capacity r"
| "engine_Capacity (MPSC_engine q) = fr_mpscBase_Capacity (fmq_base q)"
| "engine_Capacity (SPMC_engine r) = FR_SPMC_Capacity r"
| "engine_Capacity (MPMC_engine r) = FR_MPMC_Capacity r"

subsection \<open>Construction\<close>

definition newSPSCEngine :: "int \<Rightarrow> wq_config \<Rightarrow> ring_error + ('a::zero) engine" where
  "newSPSCEngine capacity cfg =
     (case NewSPSCQueue capacity [WithMaxEnqueueBatch (wc_maxPushBatch cfg), WithMaxDequeueBatch (wc_maxReceiveBatch cfg)] of
        Inl e \<Rightarrow> Inl e
      | Inr r \<Rightarrow> Inr (SPSC_engine r))"

definition newFrontierEngine ::
    "('q \<Rightarrow> 'a engine) \<Rightarrow> (int \<Rightarrow> fr_Option list \<Rightarrow> ring_error + 'q) \<Rightarrow> int \<Rightarrow> wq_config \<Rightarrow> ring_error + ('a::zero) engine" where
  "newFrontierEngine as_engine construct capacity cfg =
     (case construct capacity [fr_WithMaxEnqueueBatch (wc_maxPushBatch cfg), fr_WithMaxDequeueBatch (wc_maxReceiveBatch cfg)] of
        Inl e \<Rightarrow> Inl e
      | Inr r \<Rightarrow> Inr (as_engine r))"

definition newEngine :: "int \<Rightarrow> wq_config \<Rightarrow> ring_error + ('a::zero) engine" where
  "newEngine capacity cfg =
     (if wc_singleProducer cfg \<and> wc_singleConsumer cfg then newSPSCEngine capacity cfg
      else if wc_singleConsumer cfg then newFrontierEngine MPSC_engine FR_NewMPSCQueue capacity cfg
      else if wc_singleProducer cfg then newFrontierEngine SPMC_engine FR_NewSPMCQueue capacity cfg
      else newFrontierEngine MPMC_engine FR_NewMPMCQueue capacity cfg)"

datatype EngineKind = EngineSPSC | EngineMPSC | EngineSPMC | EngineMPMC

fun diagnosticsEngineKind :: "'a engine \<Rightarrow> EngineKind" where
  "diagnosticsEngineKind (SPSC_engine r) = EngineSPSC"
| "diagnosticsEngineKind (MPSC_engine r) = EngineMPSC"
| "diagnosticsEngineKind (SPMC_engine r) = EngineSPMC"
| "diagnosticsEngineKind (MPMC_engine r) = EngineMPMC"

text \<open>A sequence of calls through the interface, which has four of the queues' operations.\<close>

fun interface_op :: "'a qop \<Rightarrow> bool" where
  "interface_op (Enqueue_op x) = True"
| "interface_op (EnqueueBurst_op xs) = True"
| "interface_op Dequeue_op = True"
| "interface_op (DequeueBurst_op dst) = True"
| "interface_op _ = False"

fun interface_step :: "('a::zero) engine \<Rightarrow> 'a qop \<Rightarrow> ('a engine \<times> 'a qres) option" where
  "interface_step e (Enqueue_op x) = map_option (\<lambda>(e', err). (e', Enqueued err)) (engine_Enqueue e x)"
| "interface_step e (EnqueueBurst_op xs) = map_option (\<lambda>(e', n, free). (e', BurstIn n free)) (engine_EnqueueBurst e xs)"
| "interface_step e Dequeue_op = map_option (\<lambda>(e', v, err). (e', Dequeued v err)) (engine_Dequeue e)"
| "interface_step e (DequeueBurst_op dst) =
     map_option (\<lambda>(e', n, avail, out). (e', BurstOut n avail out)) (engine_DequeueBurst e dst)"
| "interface_step e _ = None"

section \<open>An engine is a bounded FIFO\<close>

fun engine_inv :: "'a engine \<Rightarrow> bool" where
  "engine_inv (SPSC_engine r) = SPSC_inv r"
| "engine_inv (MPSC_engine r) = FR_MPSC_inv r"
| "engine_inv (SPMC_engine r) = FR_SPMC_inv r"
| "engine_inv (MPMC_engine r) = FR_MPMC_inv r"

fun engine_conf :: "'a engine \<Rightarrow> qconf" where
  "engine_conf (SPSC_engine r) = SPSC_conf r"
| "engine_conf (MPSC_engine r) = FR_MPSC_conf r"
| "engine_conf (SPMC_engine r) = FR_SPMC_conf r"
| "engine_conf (MPMC_engine r) = FR_MPMC_conf r"

fun engine_contents :: "'a engine \<Rightarrow> 'a list" where
  "engine_contents (SPSC_engine r) = SPSC_contents r"
| "engine_contents (MPSC_engine r) = FR_MPSC_contents r"
| "engine_contents (SPMC_engine r) = FR_SPMC_contents r"
| "engine_contents (MPMC_engine r) = FR_MPMC_contents r"

fun engine_fits :: "'a engine \<Rightarrow> nat \<Rightarrow> bool" where
  "engine_fits (SPSC_engine r) n = True"
| "engine_fits (MPSC_engine r) n = FR_MPSC_fits r n"
| "engine_fits (SPMC_engine r) n = FR_SPMC_fits r n"
| "engine_fits (MPMC_engine r) n = FR_MPMC_fits r n"

text \<open>Any call of the concrete queue behind the interface.\<close>

fun engine_step :: "('a::zero) engine \<Rightarrow> 'a qop \<Rightarrow> ('a engine \<times> 'a qres) option" where
  "engine_step (SPSC_engine r) opn = map_option (apfst SPSC_engine) (SPSC_step r opn)"
| "engine_step (MPSC_engine r) opn = map_option (apfst MPSC_engine) (FR_MPSC_step r opn)"
| "engine_step (SPMC_engine r) opn = map_option (apfst SPMC_engine) (FR_SPMC_step r opn)"
| "engine_step (MPMC_engine r) opn = map_option (apfst MPMC_engine) (FR_MPMC_step r opn)"

lemma fifo_outcome_map:
  assumes "fifo_outcome invar conf contents fits n q opn out"
    and "\<And>r. invar' (f r) = invar r" "\<And>r. conf' (f r) = conf r" "\<And>r. contents' (f r) = contents r" "\<And>r n. fits' (f r) n = fits r n"
  shows "fifo_outcome invar' conf' contents' fits' n (f q) opn (map_option (apfst f) out)"
  using assms by (auto simp: fifo_outcome_def)

interpretation eng: fifo_queue_within engine_inv engine_conf engine_contents engine_fits engine_step
proof unfold_locales
  fix q :: "'a engine" assume "engine_inv q"
  then show "length (engine_contents q) \<le> qc_cap (engine_conf q)"
    by (cases q) (simp_all add: spsc.bounded fr_mpsc.bounded fr_spmc.bounded fr_mpmc.bounded)
next
  fix q :: "'a engine" and opn :: "'a qop" and n
  assume q: "engine_inv q" "engine_fits q (op_size opn + n)"
  show "fifo_outcome engine_inv engine_conf engine_contents engine_fits n q opn (engine_step q opn)"
  proof (cases q)
    case (SPSC_engine r)
    with q show ?thesis
      using fifo_outcome_map [OF spsc.within.step_within [where q = r and opn = opn and n = n], where f = SPSC_engine and invar' = engine_inv and conf' = engine_conf
        and contents' = engine_contents and fits' = engine_fits] by simp
  next
    case (MPSC_engine r)
    with q show ?thesis
      using fifo_outcome_map [OF fr_mpsc.step_within [where q = r and opn = opn and n = n], where f = MPSC_engine and invar' = engine_inv and conf' = engine_conf
        and contents' = engine_contents and fits' = engine_fits] by simp
  next
    case (SPMC_engine r)
    with q show ?thesis
      using fifo_outcome_map [OF fr_spmc.step_within [where q = r and opn = opn and n = n], where f = SPMC_engine and invar' = engine_inv and conf' = engine_conf
        and contents' = engine_contents and fits' = engine_fits] by simp
  next
    case (MPMC_engine r)
    with q show ?thesis
      using fifo_outcome_map [OF fr_mpmc.step_within [where q = r and opn = opn and n = n], where f = MPMC_engine and invar' = engine_inv and conf' = engine_conf
        and contents' = engine_contents and fits' = engine_fits] by simp
  qed
qed

subsection \<open>The calls of the interface\<close>

lemma burst_Nil [simp]: "burst_in cf xs [] = 0" "burst_out cf xs [] = 0"
  by (simp_all add: burst_in_def burst_out_def)

lemma engine_step_calls:
  "engine_step e (Enqueue_op x) = map_option (\<lambda>(e', err). (e', Enqueued err)) (engine_Enqueue e x)"
  "engine_step e (EnqueueBurst_op xs) = map_option (\<lambda>(e', n, free). (e', BurstIn n free)) (engine_EnqueueBurst e xs)"
  "engine_step e Dequeue_op = map_option (\<lambda>(e', v, err). (e', Dequeued v err)) (engine_Dequeue e)"
  "engine_step e (DequeueBurst_op dst) =
     map_option (\<lambda>(e', n, avail, out). (e', BurstOut n avail out)) (engine_DequeueBurst e dst)"
  by (cases e; simp add: FR_MPSC_step_def option.map_comp comp_def case_prod_unfold)+

definition engine_kept :: "'a engine \<Rightarrow> nat \<Rightarrow> 'a engine \<Rightarrow> 'a list \<Rightarrow> bool" where
  "engine_kept e n e' xs \<longleftrightarrow> engine_inv e' \<and> engine_conf e' = engine_conf e \<and> engine_fits e' n \<and> engine_contents e' = xs"

lemma engine_fits_less: "engine_fits e n \<Longrightarrow> m \<le> n \<Longrightarrow> engine_fits e m"
  by (cases e) (auto simp: FR_MPSC_fits_def fr_base_fits_def FR_SPMC_fits_def FR_MPMC_fits_def)

lemma engine_Enqueue_ok:
  assumes "engine_inv e" "engine_fits e (Suc n)"
  shows "\<exists>e'. engine_Enqueue e x = Some (e', if length (engine_contents e) < qc_cap (engine_conf e) then None else Some (Sentinel ErrFull))
    \<and> engine_kept e n e' (engine_contents e @ (if length (engine_contents e) < qc_cap (engine_conf e) then [x] else []))"
  using eng.step_within [where q = e and opn = "Enqueue_op x" and n = n] assms
  by (auto simp: fifo_outcome_def engine_step_calls fifo_result_def engine_kept_def)

lemma engine_EnqueueBurst_ok:
  fixes xs :: "('a::zero) list"
  assumes "engine_inv e" "engine_fits e (length xs + n)"
  defines "m \<equiv> burst_in (engine_conf e) (engine_contents e) xs"
  shows "\<exists>e' free. engine_EnqueueBurst e xs = Some (e', int m, free) \<and> engine_kept e n e' (engine_contents e @ take m xs)
    \<and> (xs = [] \<longrightarrow> free = int (qc_cap (engine_conf e) - length (engine_contents e)))"
  using eng.step_within [where q = e and opn = "EnqueueBurst_op xs" and n = n] assms
  by (auto simp: fifo_outcome_def engine_step_calls fifo_result_def engine_kept_def reports_def)

lemma engine_Dequeue_ok:
  assumes "engine_inv e" "engine_fits e n"
  shows "\<exists>e'. engine_Dequeue e = Some (e', if engine_contents e = [] then (0, Some (Sentinel ErrEmpty)) else (hd (engine_contents e), None))
    \<and> engine_kept e n e' (drop 1 (engine_contents e))"
  using eng.step_within [where q = e and opn = "Dequeue_op" and n = n] assms
  by (auto simp: fifo_outcome_def engine_step_calls fifo_result_def engine_kept_def drop_Suc split: if_splits)

lemma engine_DequeueBurst_ok:
  fixes dst :: "('a::zero) list"
  assumes "engine_inv e" "engine_fits e n"
  defines "m \<equiv> burst_out (engine_conf e) (engine_contents e) dst"
  shows "\<exists>e' avail. engine_DequeueBurst e dst = Some (e', int m, avail, take m (engine_contents e) @ drop m dst)
    \<and> engine_kept e n e' (drop m (engine_contents e)) \<and> (dst = [] \<longrightarrow> avail = int (length (engine_contents e)))"
  using eng.step_within [where q = e and opn = "DequeueBurst_op dst" and n = n] assms
  by (auto simp: fifo_outcome_def engine_step_calls fifo_result_def engine_kept_def reports_def)

subsection \<open>The engine that construction selects\<close>

definition capacity_ok :: "int \<Rightarrow> bool" where
  "capacity_ok capacity \<longleftrightarrow> (\<exists>k \<le> 30. capacity = 2 ^ k)"

definition batches_ok :: "int \<Rightarrow> wq_config \<Rightarrow> bool" where
  "batches_ok capacity cfg \<longleftrightarrow> 1 \<le> wc_maxPushBatch cfg \<and> wc_maxPushBatch cfg \<le> capacity
     \<and> 1 \<le> wc_maxReceiveBatch cfg \<and> wc_maxReceiveBatch cfg \<le> capacity"

definition engine_new :: "int \<Rightarrow> wq_config \<Rightarrow> 'a engine \<Rightarrow> bool" where
  "engine_new capacity cfg e \<longleftrightarrow> engine_inv e \<and> engine_contents e = [] \<and> (\<forall>n < 2 ^ 64. engine_fits e n)
     \<and> qc_cap (engine_conf e) = nat capacity \<and> qc_maxE (engine_conf e) = nat (wc_maxPushBatch cfg)
     \<and> qc_maxD (engine_conf e) = nat (wc_maxReceiveBatch cfg) \<and> \<not> qc_exact (engine_conf e)"

lemma batch_words:
  assumes "capacity_ok capacity" "batches_ok capacity cfg"
  shows "unat (of_int (wc_maxPushBatch cfg) :: u32) = nat (wc_maxPushBatch cfg)"
    "unat (of_int (wc_maxReceiveBatch cfg) :: u32) = nat (wc_maxReceiveBatch cfg)"
  using assms unat_of_batch by (auto simp: capacity_ok_def batches_ok_def)

definition engine_error :: "int \<Rightarrow> ring_error" where
  "engine_error capacity = Wrap (Wrap (Sentinel (if capacity_ok capacity then ErrInvalidMaxBatch else ErrInvalidCount)))"

abbreviation batch_options :: "wq_config \<Rightarrow> fr_Option list" where
  "batch_options cfg \<equiv> [fr_WithMaxEnqueueBatch (wc_maxPushBatch cfg), fr_WithMaxDequeueBatch (wc_maxReceiveBatch cfg)]"

lemma frontier_options:
  fixes cfg :: wq_config
  shows "fr_resolveConfig capacity (batch_options cfg) =
    (if capacity_ok capacity \<and> batches_ok capacity cfg
     then Inr \<lparr>fr_maxEnqueueBatch = wc_maxPushBatch cfg, fr_maxDequeueBatch = wc_maxReceiveBatch cfg,
       fr_keepDequeued = False, fr_exactBatchCounts = False\<rparr>
     else Inl (engine_error capacity))"
proof (cases "CheckCapacity capacity")
  case None
  then have "capacity_ok capacity" by (simp add: CheckCapacity_iff capacity_ok_def)
  then show ?thesis using None
    by (auto simp: fr_resolveConfig_def Let_def CheckMaxBatch_def batches_ok_def engine_error_def
        fr_WithMaxEnqueueBatch_def fr_WithMaxDequeueBatch_def)
next
  case (Some e)
  then have "\<not> capacity_ok capacity" by (metis CheckCapacity_iff capacity_ok_def option.distinct(1))
  with Some CheckCapacity_error [OF Some] show ?thesis by (auto simp: fr_resolveConfig_def engine_error_def)
qed

lemma dpdk_options:
  fixes cfg :: wq_config
  defines "options \<equiv> [WithMaxEnqueueBatch (wc_maxPushBatch cfg), WithMaxDequeueBatch (wc_maxReceiveBatch cfg)]"
  shows "resolveConfig capacity modeSingle modeSingle True options =
    (if capacity_ok capacity \<and> batches_ok capacity cfg
     then Inr ((defaultConfig capacity modeSingle modeSingle)\<lparr>maxEnqueueBatch := wc_maxPushBatch cfg, maxDequeueBatch := wc_maxReceiveBatch cfg\<rparr>)
     else Inl (engine_error capacity))"
proof (cases "capacity_ok capacity \<and> batches_ok capacity cfg")
  case True
  then have "resolveConfig capacity modeSingle modeSingle True options =
      Inr ((defaultConfig capacity modeSingle modeSingle)\<lparr>maxEnqueueBatch := wc_maxPushBatch cfg, maxDequeueBatch := wc_maxReceiveBatch cfg\<rparr>)"
    unfolding resolveConfig_Inr
    by (auto simp: capacity_ok_def batches_ok_def options_def config_ok_def side_ok_def defaultConfig_def
        defaultSpinsBeforeYield_def WithMaxEnqueueBatch_def WithMaxDequeueBatch_def)
  with True show ?thesis by simp
next
  case False
  show ?thesis
  proof (cases "CheckCapacity capacity")
    case None
    then have "capacity_ok capacity" by (simp add: CheckCapacity_iff capacity_ok_def)
    then show ?thesis using None False
      by (auto simp: resolveConfig_def options_def Let_def CheckMaxBatch_def batches_ok_def engine_error_def
          WithMaxEnqueueBatch_def WithMaxDequeueBatch_def)
  next
    case (Some e)
    then have "\<not> capacity_ok capacity" by (metis CheckCapacity_iff capacity_ok_def option.distinct(1))
    with Some CheckCapacity_error [OF Some] show ?thesis by (auto simp: resolveConfig_def engine_error_def)
  qed
qed

text \<open>
  Each of the four constructors either rejects the configuration with the error of the first check
  that fails or returns a new queue of the requested sizes.
\<close>

definition engine_built :: "int \<Rightarrow> wq_config \<Rightarrow> ring_error + 'a engine \<Rightarrow> bool" where
  "engine_built capacity cfg r \<longleftrightarrow>
     (case r of
        Inl err \<Rightarrow> \<not> (capacity_ok capacity \<and> batches_ok capacity cfg) \<and> err = engine_error capacity
      | Inr e \<Rightarrow> capacity_ok capacity \<and> batches_ok capacity cfg \<and> engine_new capacity cfg e)"

lemma nat_eq_capacity: "int n = capacity \<Longrightarrow> n = nat capacity"
  by simp

lemma newSPSCEngine_built: "engine_built capacity cfg (newSPSCEngine capacity cfg :: ring_error + ('a::zero) engine)"
proof (cases "capacity_ok capacity \<and> batches_ok capacity cfg")
  case True
  let ?options = "[WithMaxEnqueueBatch (wc_maxPushBatch cfg), WithMaxDequeueBatch (wc_maxReceiveBatch cfg)]"
  obtain r :: "'a SPSCQueue" where r: "NewSPSCQueue capacity ?options = Inr r"
    "\<not> sp_exactBatchCounts (spsc_producer r)" "sp_maxBatch (spsc_producer r) = of_int (wc_maxPushBatch cfg)" "sc_maxBatch (spsc_consumer r) = of_int (wc_maxReceiveBatch cfg)"
    using True dpdk_options [of capacity cfg] by (auto simp: NewSPSCQueue_def defaultConfig_def)
  with True NewSPSCQueue_ok [OF r(1)] batch_words [of capacity cfg] show ?thesis
    by (auto simp: engine_built_def newSPSCEngine_def engine_new_def SPSC_conf_def dest: nat_eq_capacity)
next
  case False
  then show ?thesis
    using dpdk_options [of capacity cfg] by (auto simp: engine_built_def newSPSCEngine_def NewSPSCQueue_def)
qed

lemma FR_NewMPSCQueue_new:
  fixes q :: "('a::zero) FR_MPSCQueue"
  assumes "FR_NewMPSCQueue count options = Inr q"
  shows "FR_MPSC_inv q" "FR_MPSC_contents q = []" "int (qc_cap (FR_MPSC_conf q)) = count" "n < 2 ^ 64 \<Longrightarrow> FR_MPSC_fits q n"
proof -
  obtain cfg where cfg: "fr_resolveConfig count options = Inr cfg"
    and q: "q = \<lparr>fmq_base = fr_mpscBase_init fr_mpscBase_zero count cfg, fmq_observerCompleted = 0\<rparr>"
    using assms by (auto simp: FR_NewMPSCQueue_def split: sum.splits)
  show "FR_MPSC_inv q" "FR_MPSC_contents q = []" "int (qc_cap (FR_MPSC_conf q)) = count" "n < 2 ^ 64 \<Longrightarrow> FR_MPSC_fits q n"
    using fr_base_new_ok [OF cfg, where 'a = 'a]
    by (simp_all add: q FR_MPSC_inv_def FR_MPSC_contents_def FR_MPSC_conf_def FR_MPSC_fits_def fr_base_fits_def)
qed

lemma newFrontierEngine_built:
  fixes as_engine :: "'q \<Rightarrow> ('a::zero) engine"
  assumes rejects: "\<And>err. fr_resolveConfig capacity (batch_options cfg) = Inl err \<Longrightarrow> construct capacity (batch_options cfg) = Inl err"
    and accepts: "\<And>c. fr_resolveConfig capacity (batch_options cfg) = Inr c \<Longrightarrow> batches_ok capacity cfg \<Longrightarrow>
      \<exists>r. construct capacity (batch_options cfg) = Inr r \<and> engine_new capacity cfg (as_engine r)"
  shows "engine_built capacity cfg (newFrontierEngine as_engine construct capacity cfg)"
proof (cases "capacity_ok capacity \<and> batches_ok capacity cfg")
  case True
  then obtain r where "construct capacity (batch_options cfg) = Inr r" "engine_new capacity cfg (as_engine r)"
    using accepts frontier_options [of capacity cfg] by auto
  with True show ?thesis by (simp add: engine_built_def newFrontierEngine_def)
next
  case False
  then have "construct capacity (batch_options cfg) = Inl (engine_error capacity)"
    using rejects frontier_options [of capacity cfg] by auto
  with False show ?thesis by (auto simp: engine_built_def newFrontierEngine_def)
qed

lemma frontier_resolved:
  fixes cfg :: wq_config
  assumes "fr_resolveConfig capacity (batch_options cfg) = Inr c"
  shows "fr_maxEnqueueBatch c = wc_maxPushBatch cfg" "fr_maxDequeueBatch c = wc_maxReceiveBatch cfg" "\<not> fr_exactBatchCounts c"
    "unat (of_int (wc_maxPushBatch cfg) :: u32) = nat (wc_maxPushBatch cfg)"
    "unat (of_int (wc_maxReceiveBatch cfg) :: u32) = nat (wc_maxReceiveBatch cfg)"
  using assms frontier_options [of capacity cfg] batch_words [of capacity cfg] by (auto split: if_splits)

lemma newMPSCEngine_built:
  "engine_built capacity cfg (newFrontierEngine MPSC_engine FR_NewMPSCQueue capacity cfg :: ring_error + ('a::zero) engine)"
proof (rule newFrontierEngine_built)
  fix c assume c: "fr_resolveConfig capacity (batch_options cfg) = Inr c"
  then obtain q :: "'a FR_MPSCQueue" where q: "FR_NewMPSCQueue capacity (batch_options cfg) = Inr q"
    "q = \<lparr>fmq_base = fr_mpscBase_init fr_mpscBase_zero capacity c, fmq_observerCompleted = 0\<rparr>"
    by (auto simp: FR_NewMPSCQueue_def)
  then show "\<exists>q. FR_NewMPSCQueue capacity (batch_options cfg) = Inr q
      \<and> engine_new capacity cfg (MPSC_engine q :: 'a engine)"
    using FR_NewMPSCQueue_new [OF q(1)] frontier_resolved [OF c]
    by (intro exI [of _ q]) (auto simp: engine_new_def FR_MPSC_conf_def fr_base_conf_def fr_mpscBase_init_def dest: nat_eq_capacity)
qed (simp add: FR_NewMPSCQueue_def)

lemma newSPMCEngine_built:
  "engine_built capacity cfg (newFrontierEngine SPMC_engine FR_NewSPMCQueue capacity cfg :: ring_error + ('a::zero) engine)"
proof (rule newFrontierEngine_built)
  fix c assume c: "fr_resolveConfig capacity (batch_options cfg) = Inr c"
  then obtain q :: "'a FR_SPMCQueue" where q: "FR_NewSPMCQueue capacity (batch_options cfg) = Inr q"
    "\<not> fsp_exactBatchCounts (fsq_producer q)" "fsp_maxBatch (fsq_producer q) = of_int (wc_maxPushBatch cfg)" "fsc_maxBatch (fsq_consumerConfig q) = of_int (wc_maxReceiveBatch cfg)"
    using frontier_resolved [OF c] by (auto simp: FR_NewSPMCQueue_def)
  then show "\<exists>q. FR_NewSPMCQueue capacity (batch_options cfg) = Inr q
      \<and> engine_new capacity cfg (SPMC_engine q :: 'a engine)"
    using FR_NewSPMCQueue_ok [OF q(1)] frontier_resolved [OF c]
    by (intro exI [of _ q]) (auto simp: engine_new_def FR_SPMC_conf_def FR_SPMC_fits_def dest: nat_eq_capacity)
qed (simp add: FR_NewSPMCQueue_def)

lemma newMPMCEngine_built:
  "engine_built capacity cfg (newFrontierEngine MPMC_engine FR_NewMPMCQueue capacity cfg :: ring_error + ('a::zero) engine)"
proof (rule newFrontierEngine_built)
  fix c assume c: "fr_resolveConfig capacity (batch_options cfg) = Inr c"
  then obtain q :: "'a FR_MPMCQueue" where q: "FR_NewMPMCQueue capacity (batch_options cfg) = Inr q"
    "\<not> fmm_exactBatchCounts (fxq_config q)" "fmm_maxEnqueueBatch (fxq_config q) = of_int (wc_maxPushBatch cfg)" "fmm_maxDequeueBatch (fxq_config q) = of_int (wc_maxReceiveBatch cfg)"
    using frontier_resolved [OF c] by (auto simp: FR_NewMPMCQueue_def)
  then show "\<exists>q. FR_NewMPMCQueue capacity (batch_options cfg) = Inr q
      \<and> engine_new capacity cfg (MPMC_engine q :: 'a engine)"
    using FR_NewMPMCQueue_ok [OF q(1)] frontier_resolved [OF c]
    by (intro exI [of _ q]) (auto simp: engine_new_def FR_MPMC_conf_def FR_MPMC_fits_def dest: nat_eq_capacity)
qed (simp add: FR_NewMPMCQueue_def)

lemma newEngine_built: "engine_built capacity cfg (newEngine capacity cfg :: ring_error + ('a::zero) engine)"
  by (simp add: newEngine_def newSPSCEngine_built newMPSCEngine_built newSPMCEngine_built newMPMCEngine_built)

lemma FR_SPMC_Capacity_ok: "FR_SPMC_inv r \<Longrightarrow> FR_SPMC_Capacity r = int (qc_cap (FR_SPMC_conf r))"
  using FR_SPMC_cap [of r] by (simp add: FR_SPMC_Capacity_def FR_SPMC_inv_def)

lemma engine_Capacity_ok: "engine_inv e \<Longrightarrow> engine_Capacity e = int (qc_cap (engine_conf e))"
  by (cases e) (auto simp: SPSC_Capacity_def SPSC_cap fr_mpscBase_Capacity_def FR_MPSC_inv_def FR_MPSC_conf_def fr_base_cap
      FR_SPMC_Capacity_ok FR_MPMC_Capacity_def FR_MPMC_cap)

lemma interface_run: "list_all interface_op ops \<Longrightarrow> queue_run interface_step e ops = queue_run engine_step e ops"
proof (induction ops arbitrary: e)
  case (Cons opn ops)
  then have "interface_step e opn = engine_step e opn" by (cases opn) (simp_all add: engine_step_calls)
  with Cons show ?case by (auto split: option.splits)
qed simp

lemma newEngine_kind:
  "newEngine capacity cfg = Inr e \<Longrightarrow> diagnosticsEngineKind e =
     (if wc_singleProducer cfg then (if wc_singleConsumer cfg then EngineSPSC else EngineSPMC)
      else if wc_singleConsumer cfg then EngineMPSC else EngineMPMC)"
  by (auto simp: newEngine_def newSPSCEngine_def newFrontierEngine_def split: if_splits sum.splits)

section \<open>Properties\<close>

text \<open>
  C21. The engine of a work queue is the ring its declared sides select, and a bounded FIFO of the
  requested capacity and batch limits: every sequence of calls through the interface returns, with
  the results of the FIFO, and hands out exactly what it accepted, in order, as long as fewer than
  \<open>2^64\<close> elements are offered. Construction fails for exactly the invalid capacities and limits, with
  an error that wraps \<^verbatim>\<open>ErrInvalidCount\<close> or, for a valid capacity, \<^verbatim>\<open>ErrInvalidMaxBatch\<close>.
\<close>

theorem newEngine_is_bounded_fifo:
  fixes capacity :: int and cfg :: wq_config
  assumes "list_all interface_op ops" "ops_size ops < 2 ^ 64"
  shows "case newEngine capacity cfg of
      Inl err \<Rightarrow> \<not> (capacity_ok capacity \<and> batches_ok capacity cfg)
        \<and> errors_Is err (if capacity_ok capacity then ErrInvalidMaxBatch else ErrInvalidCount)
    | Inr e \<Rightarrow> capacity_ok capacity \<and> batches_ok capacity cfg
        \<and> diagnosticsEngineKind e = (if wc_singleProducer cfg then (if wc_singleConsumer cfg then EngineSPSC else EngineSPMC)
            else if wc_singleConsumer cfg then EngineMPSC else EngineMPMC)
        \<and> (\<exists>e' rs. queue_run interface_step e ops = Some (e', rs)
          \<and> results_allowed \<lparr>qc_cap = nat capacity, qc_maxE = nat (wc_maxPushBatch cfg), qc_maxD = nat (wc_maxReceiveBatch cfg),
              qc_exact = False\<rparr> [] ops rs
          \<and> all_enqueued ops rs = all_dequeued rs @ engine_contents e'
          \<and> length (engine_contents e') \<le> nat capacity \<and> engine_Capacity e' = capacity)"
proof (cases "newEngine capacity cfg :: ring_error + ('a::zero) engine")
  case (Inl err)
  with newEngine_built [of capacity cfg, where 'a = 'a] show ?thesis by (simp add: engine_built_def engine_error_def)
next
  case (Inr e)
  then have b: "capacity_ok capacity" "batches_ok capacity cfg" "engine_new capacity cfg e"
    using newEngine_built [of capacity cfg, where 'a = 'a] by (auto simp: engine_built_def)
  have conf: "engine_conf e = \<lparr>qc_cap = nat capacity, qc_maxE = nat (wc_maxPushBatch cfg), qc_maxD = nat (wc_maxReceiveBatch cfg),
      qc_exact = False\<rparr>" and new: "engine_inv e" "engine_contents e = []" "engine_fits e (ops_size ops)"
    using b(3) assms(2) by (auto simp: engine_new_def intro!: qconf.equality)
  obtain e' rs where run: "queue_run engine_step e ops = Some (e', rs)" "engine_inv e'" "engine_conf e' = engine_conf e"
    "results_allowed (engine_conf e) [] ops rs"
    using eng.run_within [OF new(1,3)] new(2) by auto
  have "Reset_op \<notin> set ops" using assms(1) by (auto simp: list_all_iff)
  then have "all_enqueued ops rs = all_dequeued rs @ engine_contents e'"
    using eng.stream_within [OF new(1,3) _ run(1)] new(2) by simp
  moreover have "engine_Capacity e' = capacity"
    using engine_Capacity_ok [OF run(2)] run(3) conf b(1) by (auto simp: capacity_ok_def)
  moreover have "length (engine_contents e') \<le> nat capacity" using eng.bounded [OF run(2)] run(3) conf by simp
  ultimately show ?thesis
    using Inr b run newEngine_kind [OF Inr] conf interface_run [OF assms(1), of e] by auto
qed

theorem newEngine_is_bounded_fifo_witness:
  "\<exists>e e' rs. newEngine 4 \<lparr>wc_diagnostics = zero_DiagnosticsConfig, wc_singleProducer = False, wc_singleConsumer = True,
        wc_maxPushBatch = 2, wc_maxReceiveBatch = 4, wc_consumerWait = \<lparr>st_Spins = 0, st_Yields = 0, st_NeverPark = False\<rparr>,
        wc_producerWait = \<lparr>st_Spins = 0, st_Yields = 0, st_NeverPark = False\<rparr>\<rparr> = Inr e
    \<and> diagnosticsEngineKind e = EngineMPSC
    \<and> queue_run interface_step e [EnqueueBurst_op [1 :: int, 2, 3], Enqueue_op 4, Dequeue_op] = Some (e', rs)
    \<and> engine_Capacity e' = 4"
proof -
  let ?cfg = "\<lparr>wc_diagnostics = zero_DiagnosticsConfig, wc_singleProducer = False, wc_singleConsumer = True,
        wc_maxPushBatch = 2, wc_maxReceiveBatch = 4, wc_consumerWait = \<lparr>st_Spins = 0, st_Yields = 0, st_NeverPark = False\<rparr>,
        wc_producerWait = \<lparr>st_Spins = 0, st_Yields = 0, st_NeverPark = False\<rparr>\<rparr>"
  have "capacity_ok 4" unfolding capacity_ok_def by (intro exI [of _ 2]) simp
  moreover have "batches_ok 4 ?cfg" by (simp add: batches_ok_def)
  ultimately show ?thesis
    using newEngine_is_bounded_fifo [of "[EnqueueBurst_op [1 :: int, 2, 3], Enqueue_op 4, Dequeue_op]" 4 ?cfg]
    by (cases "newEngine 4 ?cfg :: ring_error + int engine") auto
qed

end
