(* ===== verification/WorkQueue.thy ===== *)
theory WorkQueue
  imports WorkEngine WakeHandoff
begin

text \<open>
  The work queue of \<^verbatim>\<open>workq\<close>: construction and options (\<^verbatim>\<open>workq.go\<close>, \<^verbatim>\<open>queue.go\<close>), the producer calls
  (\<^verbatim>\<open>push.go\<close>), the consumer calls (\<^verbatim>\<open>receive.go\<close>), the phases of a wait (\<^verbatim>\<open>wait.go\<close>) and the consumer
  wakes (\<^verbatim>\<open>consumer_wake.go\<close>), over the engines of \<open>WorkEngine\<close> and the wait sides of \<open>WaitSide\<close>.

  A call shares the queue with other goroutines. What they do during the call is a script, a list of
  functions of the queue: the next one runs before each operation of the call on the engine or on a
  wait side, each load of a closed flag included, at \<^verbatim>\<open>runtime.Gosched\<close>, and while the call is parked.
  An entry that changes nothing says that nobody acts at that point, so a script can place the others'
  actions anywhere between the call's own operations. One operation here is an attempt on the engine, a
  registration, an exit from polling or from the list with the peek that follows it, a wake check, or the
  drain check of a closed queue; what other goroutines do inside one of them is the subject of
  \<open>WaitProtocol\<close> and \<open>WakeHandoff\<close>. The model is of a queue whose diagnostics are disabled, so every
  recording is nil and records nothing; the test hooks are nil too.
\<close>

section \<open>Sequencing\<close>

text \<open>\<open>None\<close> is a call that does not return; a panic ends the call.\<close>

definition and_then :: "('s, 'r) outcome option \<Rightarrow> ('r \<Rightarrow> 's \<Rightarrow> ('s, 't) outcome option) \<Rightarrow> ('s, 't) outcome option" where
  "and_then m f = Option.bind m (\<lambda>out. case out of Return r s \<Rightarrow> f r s | Panic p s \<Rightarrow> Some (Panic p s))"

lemma and_then_simps [simp]:
  "and_then None f = None" "and_then (Some (Return r s)) f = f r s" "and_then (Some (Panic p s)) f = Some (Panic p s)"
  by (simp_all add: and_then_def)

abbreviation ret :: "'r \<Rightarrow> 's \<Rightarrow> ('s, 'r) outcome option" where
  "ret r s \<equiv> Some (Return r s)"

lemma and_then_mono [partial_function_mono]:
  assumes "mono_option (\<lambda>f. m f)" "\<And>r s. mono_option (\<lambda>f. g f r s)"
  shows "mono_option (\<lambda>f. and_then (m f) (\<lambda>r s. g f r s))"
  unfolding and_then_def
proof (rule bind_mono [OF assms(1)])
  fix out :: "('c, 'd) outcome"
  show "mono_option (\<lambda>f. case out of Return r s \<Rightarrow> g f r s | Panic p s \<Rightarrow> Some (Panic p s))"
    by (cases out) (use assms(2) in \<open>auto simp: monotone_def option.leq_refl\<close>)
qed

section \<open>Definitions\<close>

subsection \<open>Errors and contexts\<close>

datatype ctx_error = Canceled | DeadlineExceeded

datatype work_error =
    RingErr ring_error | ErrClosed | ErrClosedDuringPush | ErrInvalidWaitStrategy | ErrInvalidDiagnostics
  | ContextErr ctx_error | HandlerErr string | WrapErr work_error

text \<open>\<^verbatim>\<open>errors.Is(err, ErrClosed)\<close>, where \<^verbatim>\<open>ErrClosedDuringPush\<close> wraps \<^verbatim>\<open>ErrClosed\<close>.\<close>

fun is_ErrClosed :: "work_error \<Rightarrow> bool" where
  "is_ErrClosed ErrClosed = True"
| "is_ErrClosed ErrClosedDuringPush = True"
| "is_ErrClosed (WrapErr e) = is_ErrClosed e"
| "is_ErrClosed _ = False"

text \<open>
  A context is done after a number of further looks at it, or never, and then reports its error.
\<close>

record ctx =
  cx_left :: "nat option"
  cx_err :: ctx_error

subsection \<open>The queue\<close>

record 'a wq_queue =
  wq_engine :: "'a engine"
  wq_maxPushBatch :: int
  wq_maxReceiveBatch :: int
  wq_consumerWakeCap :: u32
  wq_capacity :: u32
  wq_consumerWait :: WaitStrategy
  wq_producerWait :: WaitStrategy
  wq_done :: bool
  wq_consumers :: waitSide
  wq_producers :: waitSide

definition defaultMaxBatch :: int where
  "defaultMaxBatch = 32"

definition defaultConsumerWait :: WaitStrategy where
  "defaultConsumerWait = \<lparr>st_Spins = 64, st_Yields = 16, st_NeverPark = False\<rparr>"

definition defaultProducerWait :: WaitStrategy where
  "defaultProducerWait = \<lparr>st_Spins = 16, st_Yields = 4, st_NeverPark = False\<rparr>"

type_synonym wq_Option = "wq_config \<Rightarrow> wq_config"

definition WithSingleProducer :: wq_Option where
  "WithSingleProducer cfg = cfg\<lparr>wc_singleProducer := True\<rparr>"

definition WithSingleConsumer :: wq_Option where
  "WithSingleConsumer cfg = cfg\<lparr>wc_singleConsumer := True\<rparr>"

definition WithMaxPushBatch :: "int \<Rightarrow> wq_Option" where
  "WithMaxPushBatch n cfg = cfg\<lparr>wc_maxPushBatch := n\<rparr>"

definition WithMaxReceiveBatch :: "int \<Rightarrow> wq_Option" where
  "WithMaxReceiveBatch n cfg = cfg\<lparr>wc_maxReceiveBatch := n\<rparr>"

definition WithConsumerWait :: "WaitStrategy \<Rightarrow> wq_Option" where
  "WithConsumerWait strategy cfg = cfg\<lparr>wc_consumerWait := strategy\<rparr>"

definition WithProducerWait :: "WaitStrategy \<Rightarrow> wq_Option" where
  "WithProducerWait strategy cfg = cfg\<lparr>wc_producerWait := strategy\<rparr>"

definition WithDiagnostics :: "DiagnosticsConfig \<Rightarrow> wq_Option" where
  "WithDiagnostics settings cfg = cfg\<lparr>wc_diagnostics := settings\<rparr>"

definition checkWaitStrategy :: "WaitStrategy \<Rightarrow> work_error option" where
  "checkWaitStrategy strategy =
     (if st_Spins strategy < 0 then Some (WrapErr ErrInvalidWaitStrategy)
      else if st_Yields strategy < 0 then Some (WrapErr ErrInvalidWaitStrategy)
      else None)"

definition wq_resolveConfig :: "int \<Rightarrow> wq_Option list \<Rightarrow> work_error + wq_config" where
  "wq_resolveConfig capacity options =
     (let defaultBatch = min defaultMaxBatch capacity;
          cfg = fold (\<lambda>option cfg. option cfg) options
            \<lparr>wc_diagnostics = zero_DiagnosticsConfig, wc_singleProducer = False, wc_singleConsumer = False,
             wc_maxPushBatch = defaultBatch, wc_maxReceiveBatch = defaultBatch,
             wc_consumerWait = defaultConsumerWait, wc_producerWait = defaultProducerWait\<rparr>
      in case checkWaitStrategy (wc_consumerWait cfg) of
           Some e \<Rightarrow> Inl e
         | None \<Rightarrow>
        (case checkWaitStrategy (wc_producerWait cfg) of
           Some e \<Rightarrow> Inl e
         | None \<Rightarrow>
        (case resolveDiagnostics (wc_diagnostics cfg) of
           None \<Rightarrow> Inl (WrapErr (WrapErr ErrInvalidDiagnostics))
         | Some resolved \<Rightarrow> Inr (cfg\<lparr>wc_diagnostics := resolved\<rparr>))))"

text \<open>\<open>procs\<close> is \<^verbatim>\<open>runtime.GOMAXPROCS(0)\<close>.\<close>

definition newQueue :: "int \<Rightarrow> 'a engine \<Rightarrow> wq_config \<Rightarrow> 'a wq_queue" where
  "newQueue procs e cfg =
     (let capacity = engine_Capacity e;
          wakeCap = (if wc_singleConsumer cfg then 1 else max 1 (min procs capacity));
          strategy = (\<lambda>s. if procs = 1 then s\<lparr>st_Spins := 0\<rparr> else s)
      in \<lparr>wq_engine = e, wq_maxPushBatch = wc_maxPushBatch cfg, wq_maxReceiveBatch = wc_maxReceiveBatch cfg,
          wq_consumerWakeCap = of_int wakeCap, wq_capacity = of_int capacity,
          wq_consumerWait = strategy (wc_consumerWait cfg), wq_producerWait = strategy (wc_producerWait cfg),
          wq_done = False, wq_consumers = zero_waitSide, wq_producers = zero_waitSide\<rparr>)"

definition wq_New :: "int \<Rightarrow> int \<Rightarrow> wq_Option list \<Rightarrow> work_error + ('a::zero) wq_queue" where
  "wq_New procs capacity options =
     (case wq_resolveConfig capacity options of
        Inl e \<Rightarrow> Inl e
      | Inr cfg \<Rightarrow>
          (case newEngine capacity cfg of
             Inl e \<Rightarrow> Inl (WrapErr (RingErr e))
           | Inr e \<Rightarrow> Inr (newQueue procs e cfg)))"

definition wq_Capacity :: "'a wq_queue \<Rightarrow> int" where
  "wq_Capacity q = engine_Capacity (wq_engine q)"

definition wq_Close :: "'a wq_queue \<Rightarrow> 'a wq_queue option" where
  "wq_Close q =
     (case setClosedLocked (wq_consumers q) of
        None \<Rightarrow> None
      | Some (consumers, first) \<Rightarrow>
          (let q1 = q\<lparr>wq_consumers := consumers, wq_done := wq_done q \<or> first\<rparr>
           in map_option (\<lambda>(producers, _). q1\<lparr>wq_producers := producers\<rparr>) (setClosedLocked (wq_producers q1))))"

subsection \<open>Calls on the engine and on the sides\<close>

text \<open>A method of a side that may also call the engine runs on the two parts of the queue.\<close>

definition on_consumers_with :: "('a engine \<Rightarrow> waitSide \<Rightarrow> ('a engine \<times> waitSide, 'r) outcome option) \<Rightarrow> 'a wq_queue
    \<Rightarrow> ('a wq_queue, 'r) outcome option" where
  "on_consumers_with f q =
     (case f (wq_engine q) (wq_consumers q) of
        None \<Rightarrow> None
      | Some (Return r (e, side)) \<Rightarrow> ret r (q\<lparr>wq_engine := e, wq_consumers := side\<rparr>)
      | Some (Panic p (e, side)) \<Rightarrow> Some (Panic p (q\<lparr>wq_engine := e, wq_consumers := side\<rparr>)))"

definition on_producers_with :: "('a engine \<Rightarrow> waitSide \<Rightarrow> ('a engine \<times> waitSide, 'r) outcome option) \<Rightarrow> 'a wq_queue
    \<Rightarrow> ('a wq_queue, 'r) outcome option" where
  "on_producers_with f q =
     (case f (wq_engine q) (wq_producers q) of
        None \<Rightarrow> None
      | Some (Return r (e, side)) \<Rightarrow> ret r (q\<lparr>wq_engine := e, wq_producers := side\<rparr>)
      | Some (Panic p (e, side)) \<Rightarrow> Some (Panic p (q\<lparr>wq_engine := e, wq_producers := side\<rparr>)))"

definition beside :: "'e \<Rightarrow> (waitSide, 'r) outcome option \<Rightarrow> ('e \<times> waitSide, 'r) outcome option" where
  "beside e = map_option (\<lambda>out. case out of Return r side \<Rightarrow> Return r (e, side) | Panic p side \<Rightarrow> Panic p (e, side))"

definition on_consumers :: "(waitSide \<Rightarrow> (waitSide, 'r) outcome option) \<Rightarrow> 'a wq_queue \<Rightarrow> ('a wq_queue, 'r) outcome option" where
  "on_consumers f = on_consumers_with (\<lambda>e side. beside e (f side))"

definition on_producers :: "(waitSide \<Rightarrow> (waitSide, 'r) outcome option) \<Rightarrow> 'a wq_queue \<Rightarrow> ('a wq_queue, 'r) outcome option" where
  "on_producers f = on_producers_with (\<lambda>e side. beside e (f side))"

definition consumers_closed :: "'a wq_queue \<Rightarrow> bool" where
  "consumers_closed q \<longleftrightarrow> sideWord_closed (ws_word (wq_consumers q))"

definition producers_closed :: "'a wq_queue \<Rightarrow> bool" where
  "producers_closed q \<longleftrightarrow> sideWord_closed (ws_word (wq_producers q))"

definition peekItems :: "('a::zero) engine \<Rightarrow> ('a engine \<times> bool) option" where
  "peekItems e = map_option (\<lambda>(e', _, available, _). (e', available > 0)) (engine_DequeueBurst e [])"

definition peekRoom :: "('a::zero) engine \<Rightarrow> ('a engine \<times> bool) option" where
  "peekRoom e = map_option (\<lambda>(e', _, free). (e', free > 0)) (engine_EnqueueBurst e [])"

definition enqueueAttempt :: "('a::zero) \<Rightarrow> 'a wq_queue \<Rightarrow> ('a wq_queue, int) outcome option" where
  "enqueueAttempt item q =
     map_option (\<lambda>(e, err). Return (if err = None then 1 else 0) (q\<lparr>wq_engine := e\<rparr>)) (engine_Enqueue (wq_engine q) item)"

text \<open>The attempt of \<^verbatim>\<open>pushChunk\<close> and \<^verbatim>\<open>tryPushBatch\<close>.\<close>

definition burstAttempt :: "('a::zero) list \<Rightarrow> 'a wq_queue \<Rightarrow> ('a wq_queue, int) outcome option" where
  "burstAttempt rest q =
     map_option (\<lambda>(e, enqueued, _). Return enqueued (q\<lparr>wq_engine := e\<rparr>)) (engine_EnqueueBurst (wq_engine q) rest)"

text \<open>The result has the contents of \<open>dst\<close> after the call.\<close>

definition dequeueAttempt :: "('a::zero) list \<Rightarrow> 'a wq_queue \<Rightarrow> ('a wq_queue, int \<times> 'a list) outcome option" where
  "dequeueAttempt dst q =
     (if length dst = 1
      then map_option (\<lambda>(e, item, err). Return (if err = None then (1, [item]) else (0, dst)) (q\<lparr>wq_engine := e\<rparr>))
             (engine_Dequeue (wq_engine q))
      else map_option (\<lambda>(e, dequeued, _, out). Return (dequeued, out) (q\<lparr>wq_engine := e\<rparr>))
             (engine_DequeueBurst (wq_engine q) dst))"

subsection \<open>Waking consumers\<close>

definition consumerTarget :: "u32 \<Rightarrow> int \<Rightarrow> ('a::zero) engine \<Rightarrow> ('a engine \<times> u32) option" where
  "consumerTarget cap batch e =
     map_option (\<lambda>(e', _, available, _). (e', consumerTargetOf cap batch available)) (engine_DequeueBurst e [])"

definition wakeConsumersAfterPublication :: "('a::zero) wq_queue \<Rightarrow> ('a wq_queue, bool) outcome option" where
  "wakeConsumersAfterPublication q =
     (let w = ws_word (wq_consumers q); cap = wq_consumerWakeCap q
      in if sideWord_parked w = 0 then ret (sideWord_closed w) q
         else if cap = 1
         then (if sideWord_needsWake w
               then and_then (on_consumers wakeOne q) (\<lambda>_. ret (sideWord_closed w))
               else ret (sideWord_closed w) q)
         else if sideWord_pollers w \<ge> cap then ret (sideWord_closed w) q
         else case consumerTarget cap (wq_maxReceiveBatch q) (wq_engine q) of
                None \<Rightarrow> None
              | Some (e, t) \<Rightarrow>
                  (let q1 = q\<lparr>wq_engine := e\<rparr>; target = max 1 t
                   in if sideWord_pollers w < target
                      then and_then (on_consumers (\<lambda>side. wakeGroup side target) q1) (\<lambda>_. ret (sideWord_closed w))
                      else ret (sideWord_closed w) q1))"

definition replenishConsumers ::
    "u32 \<Rightarrow> int \<Rightarrow> ('a::zero) engine \<Rightarrow> waitSide \<Rightarrow> sideWord \<Rightarrow> ('a engine \<times> waitSide, bool) outcome option" where
  "replenishConsumers cap batch e side w =
     (if sideWord_parked w = 0 \<or> sideWord_pollers w \<ge> cap then ret False (e, side)
      else if cap = 1
      then (case peekItems e of
              None \<Rightarrow> None
            | Some (e', visible) \<Rightarrow> if visible then beside e' (wakeOne side) else ret False (e', side))
      else case consumerTarget cap batch e of
             None \<Rightarrow> None
           | Some (e', target) \<Rightarrow>
               if sideWord_pollers w < target then beside e' (wakeGroup side target) else ret False (e', side))"

definition leaveConsumerPolling :: "('a::zero) wq_queue \<Rightarrow> ('a wq_queue, bool) outcome option" where
  "leaveConsumerPolling q =
     on_consumers_with (leavePollingWith (replenishConsumers (wq_consumerWakeCap q) (wq_maxReceiveBatch q))) q"

definition leaveConsumerList :: "nat \<Rightarrow> bool \<Rightarrow> ('a::zero) wq_queue \<Rightarrow> ('a wq_queue, bool) outcome option" where
  "leaveConsumerList caller movedItems q =
     on_consumers_with (\<lambda>e side. leaveListWith (replenishConsumers (wq_consumerWakeCap q) (wq_maxReceiveBatch q)) e side
       caller movedItems) q"

definition consumerWakeCheck :: "('a::zero) wq_queue \<Rightarrow> ('a wq_queue, work_error option) outcome option" where
  "consumerWakeCheck q =
     and_then (wakeConsumersAfterPublication q) (\<lambda>closed. ret (if closed then Some ErrClosedDuringPush else None))"

text \<open>The producer side's wake check, of which a consumer ignores the result.\<close>

definition wakeProducers :: "'a wq_queue \<Rightarrow> ('a wq_queue, bool) outcome option" where
  "wakeProducers = on_producers wakeCheck"

subsection \<open>Calls that do not wait\<close>

definition tryPush :: "('a::zero) \<Rightarrow> 'a wq_queue \<Rightarrow> ('a wq_queue, work_error option) outcome option" where
  "tryPush item q =
     (if consumers_closed q then ret (Some ErrClosed) q
      else and_then (enqueueAttempt item q) (\<lambda>moved q1.
        if moved = 0 then ret (Some (RingErr (Sentinel ErrFull))) q1 else consumerWakeCheck q1))"

text \<open>\<^verbatim>\<open>items[pushed:min(pushed+q.maxPushBatch, len(items))]\<close>\<close>

definition next_chunk :: "'a wq_queue \<Rightarrow> 'a list \<Rightarrow> nat \<Rightarrow> 'a list" where
  "next_chunk q items pushed =
     take (nat (min (int pushed + wq_maxPushBatch q) (int (length items))) - pushed) (drop pushed items)"

partial_function (option) tryPushBatch_from ::
    "('a::zero) list \<Rightarrow> nat \<Rightarrow> 'a wq_queue \<Rightarrow> ('a wq_queue, nat \<times> work_error option) outcome option" where
  "tryPushBatch_from items pushed q =
     (if pushed < length items
      then and_then (burstAttempt (next_chunk q items pushed) q) (\<lambda>enqueued q1.
             and_then (if enqueued > 0 then consumerWakeCheck q1 else ret None q1) (\<lambda>err q2.
               if err \<noteq> None then ret (pushed + nat enqueued, err) q2
               else if enqueued < int (length (next_chunk q items pushed))
               then ret (pushed + nat enqueued,
                      if pushed + nat enqueued < length items then Some (RingErr (Sentinel ErrFull)) else None) q2
               else tryPushBatch_from items (pushed + nat enqueued) q2))
      else ret (pushed, None) q)"

definition tryPushBatch :: "('a::zero) list \<Rightarrow> 'a wq_queue \<Rightarrow> ('a wq_queue, nat \<times> work_error option) outcome option" where
  "tryPushBatch items q =
     (if consumers_closed q then ret (0, Some ErrClosed) q
      else if items = [] then ret (0, None) q
      else tryPushBatch_from items 0 q)"

definition drainCheck :: "('a::zero) list \<Rightarrow> 'a wq_queue \<Rightarrow> ('a wq_queue, int \<times> 'a list \<times> work_error option) outcome option" where
  "drainCheck dst q =
     and_then (dequeueAttempt dst q) (\<lambda>(received, out) q1.
       if received > 0 then and_then (wakeProducers q1) (\<lambda>_. ret (received, out, None))
       else ret (0, out, Some ErrClosed) q1)"

text \<open>The clamped part of \<open>dst\<close> is what the call works on; the rest is untouched.\<close>

definition clamped :: "'a wq_queue \<Rightarrow> 'a list \<Rightarrow> 'a list" where
  "clamped q dst = take (nat (min (int (length dst)) (wq_maxReceiveBatch q))) dst"

definition unclamp :: "'a list \<Rightarrow> int \<times> 'a list \<times> work_error option \<Rightarrow> int \<times> 'a list \<times> work_error option" where
  "unclamp dst r = (case r of (received, out, err) \<Rightarrow> (received, out @ drop (length out) dst, err))"

definition tryReceive :: "('a::zero) list \<Rightarrow> 'a wq_queue \<Rightarrow> ('a wq_queue, int \<times> 'a list \<times> work_error option) outcome option" where
  "tryReceive dst q =
     (if dst = [] then ret (0, dst, None) q
      else and_then (dequeueAttempt (clamped q dst) q) (\<lambda>(received, out) q1.
        if received > 0 then and_then (wakeProducers q1) (\<lambda>_. ret (unclamp dst (received, out, None)))
        else if \<not> consumers_closed q1 then ret (unclamp dst (0, out, None)) q1
        else and_then (drainCheck (clamped q dst) q1) (\<lambda>r. ret (unclamp dst r))))"

subsection \<open>The state of a call that may wait\<close>

record 'a work =
  wk_queue :: "'a wq_queue"
  wk_ctx :: ctx
  wk_script :: "('a wq_queue \<Rightarrow> 'a wq_queue) list"

definition others :: "'a work \<Rightarrow> 'a work" where
  "others s = (case wk_script s of [] \<Rightarrow> s | f # fs \<Rightarrow> s\<lparr>wk_queue := f (wk_queue s), wk_script := fs\<rparr>)"

text \<open>One operation of the call on the queue, after what the others do before it.\<close>

definition with_queue :: "('a wq_queue \<Rightarrow> ('a wq_queue, 'r) outcome option) \<Rightarrow> 'a work \<Rightarrow> ('a work, 'r) outcome option" where
  "with_queue f s =
     map_option (\<lambda>out. case out of Return r q \<Rightarrow> Return r ((others s)\<lparr>wk_queue := q\<rparr>) | Panic p q \<Rightarrow> Panic p ((others s)\<lparr>wk_queue := q\<rparr>))
       (f (wk_queue (others s)))"

abbreviation look_at :: "('a wq_queue \<Rightarrow> 'r) \<Rightarrow> 'a work \<Rightarrow> ('a work, 'r) outcome option" where
  "look_at g \<equiv> with_queue (\<lambda>q. ret (g q) q)"

definition Gosched :: "'a work \<Rightarrow> 'a work" where
  "Gosched s = others s"

definition isDone :: "'a work \<Rightarrow> ('a work, bool) outcome option" where
  "isDone s =
     (case cx_left (wk_ctx s) of
        None \<Rightarrow> ret False s
      | Some 0 \<Rightarrow> ret True s
      | Some (Suc n) \<Rightarrow> ret False (s\<lparr>wk_ctx := (wk_ctx s)\<lparr>cx_left := Some n\<rparr>\<rparr>))"

definition ctx_Err :: "'a work \<Rightarrow> work_error" where
  "ctx_Err s = ContextErr (cx_err (wk_ctx s))"

text \<open>
  The \<^verbatim>\<open>select\<close> of a parked caller. When several cases are ready the runtime picks one, as \<open>sel\<close> says.
  When none is, the other goroutines go on; when they have no more to do, a context that is done some
  day is done next, and the call blocks for ever otherwise.
\<close>

datatype ParkSelectCase = ParkToken | ParkContext | ParkDone

definition ready_cases :: "waitSide \<Rightarrow> nat \<Rightarrow> 'a work \<Rightarrow> ParkSelectCase list" where
  "ready_cases side caller s =
     (if wt_token (ws_heap side caller) then [ParkToken] else [])
     @ (if cx_left (wk_ctx s) = Some 0 then [ParkContext] else [])
     @ (if wq_done (wk_queue s) then [ParkDone] else [])"

function park_select :: "('a wq_queue \<Rightarrow> waitSide) \<Rightarrow> nat \<Rightarrow> nat \<Rightarrow> 'a work \<Rightarrow> ('a work, ParkSelectCase) outcome option" where
  "park_select side sel caller s =
     (let ready = ready_cases (side (wk_queue s)) caller s
      in if ready \<noteq> [] then ret (ready ! (sel mod length ready)) s
         else if wk_script s \<noteq> [] then park_select side sel caller (Gosched s)
         else if cx_left (wk_ctx s) = None then None
         else ret ParkContext (s\<lparr>wk_ctx := (wk_ctx s)\<lparr>cx_left := Some 0\<rparr>\<rparr>))"
  by pat_completeness auto
termination
  by (relation "measure (\<lambda>(side, sel, caller, s). length (wk_script s))") (auto simp: Gosched_def others_def neq_Nil_conv)

declare park_select.simps [simp del]

text \<open>What the runtime chooses in a call: the waiter \<^verbatim>\<open>sync.Pool\<close> returns and the ready case it selects.\<close>

record choice =
  pick_pool :: "nat option"
  pick_case :: nat

definition contextCheckInterval :: nat where
  "contextCheckInterval = 64"

subsection \<open>A consumer that waits\<close>

type_synonym 'a received = "int \<times> 'a list \<times> work_error option"

text \<open>A phase that has not finished the wait returns \<open>None\<close>.\<close>

fun spinForItems_from :: "('a::zero) list \<Rightarrow> nat \<Rightarrow> nat \<Rightarrow> 'a work \<Rightarrow> ('a work, 'a received option) outcome option" where
  "spinForItems_from dst poll 0 s = ret None s"
| "spinForItems_from dst poll (Suc left) s =
     and_then (look_at consumers_closed s) (\<lambda>closed s0.
       if closed then and_then (with_queue (drainCheck dst) s0) (\<lambda>r. ret (Some r))
       else and_then (if poll mod contextCheckInterval = 0 then isDone s0 else ret False s0) (\<lambda>over s1.
         if over then ret (Some (0, dst, Some (ctx_Err s1))) s1
         else and_then (with_queue (dequeueAttempt dst) s1) (\<lambda>(received, out) s2.
           if received > 0 then and_then (with_queue wakeProducers s2) (\<lambda>_. ret (Some (received, out, None)))
           else spinForItems_from dst (Suc poll) left s2)))"

definition spinForItems :: "('a::zero) list \<Rightarrow> 'a work \<Rightarrow> ('a work, 'a received option) outcome option" where
  "spinForItems dst s = spinForItems_from dst 0 (nat (st_Spins (wq_consumerWait (wk_queue s)))) s"

definition leavePollingAndDrain :: "('a::zero) list \<Rightarrow> 'a work \<Rightarrow> ('a work, 'a received) outcome option" where
  "leavePollingAndDrain dst s = and_then (with_queue leaveConsumerPolling s) (\<lambda>_. with_queue (drainCheck dst))"

definition pollRegistered :: "('a::zero) list \<Rightarrow> 'a work \<Rightarrow> ('a work, 'a received option) outcome option" where
  "pollRegistered dst s =
     and_then (look_at consumers_closed s) (\<lambda>closed s0.
       if closed then and_then (leavePollingAndDrain dst s0) (\<lambda>r. ret (Some r))
       else and_then (with_queue (dequeueAttempt dst) s0) (\<lambda>(received, out) s1.
         if received > 0
         then and_then (with_queue wakeProducers s1) (\<lambda>_ s2.
                and_then (with_queue leaveConsumerPolling s2) (\<lambda>_. ret (Some (received, out, None))))
         else and_then (look_at consumers_closed s1) (\<lambda>closed s2.
           if closed then and_then (leavePollingAndDrain dst s2) (\<lambda>r. ret (Some r))
           else and_then (isDone s2) (\<lambda>over s3.
             if over then and_then (with_queue leaveConsumerPolling s3) (\<lambda>_ s4. ret (Some (0, out, Some (ctx_Err s4))) s4)
             else ret None s3))))"

fun yieldForItems_from :: "('a::zero) list \<Rightarrow> nat \<Rightarrow> nat \<Rightarrow> 'a work \<Rightarrow> ('a work, 'a received option) outcome option" where
  "yieldForItems_from dst poll 0 s = ret None s"
| "yieldForItems_from dst poll (Suc left) s =
     and_then (pollRegistered dst (if poll > 0 then Gosched s else s)) (\<lambda>r s1.
       if r \<noteq> None then ret r s1 else yieldForItems_from dst (Suc poll) left s1)"

definition yieldForItems :: "('a::zero) list \<Rightarrow> bool \<Rightarrow> 'a work \<Rightarrow> ('a work, 'a received option) outcome option" where
  "yieldForItems dst woken s =
     (let yields = st_Yields (wq_consumerWait (wk_queue s))
      in yieldForItems_from dst 0 (nat (if woken then max yields 1 else yields)) s)"

partial_function (option) pollWithoutParking :: "('a::zero) list \<Rightarrow> 'a work \<Rightarrow> ('a work, 'a received) outcome option" where
  "pollWithoutParking dst s =
     and_then (pollRegistered dst s) (\<lambda>r s1. case r of Some v \<Rightarrow> ret v s1 | None \<Rightarrow> pollWithoutParking dst (Gosched s1))"

definition update_consumers :: "(waitSide \<Rightarrow> waitSide) \<Rightarrow> 'a work \<Rightarrow> 'a work" where
  "update_consumers f s = s\<lparr>wk_queue := (wk_queue s)\<lparr>wq_consumers := f (wq_consumers (wk_queue s))\<rparr>\<rparr>"

definition update_producers :: "(waitSide \<Rightarrow> waitSide) \<Rightarrow> 'a work \<Rightarrow> 'a work" where
  "update_producers f s = s\<lparr>wk_queue := (wk_queue s)\<lparr>wq_producers := f (wq_producers (wk_queue s))\<rparr>\<rparr>"

text \<open>The body of \<^verbatim>\<open>parkForItems\<close> once the caller has its waiter.\<close>

definition parkForItems_as :: "choice \<Rightarrow> ('a::zero) list \<Rightarrow> nat \<Rightarrow> 'a work \<Rightarrow> ('a work, 'a received option) outcome option" where
  "parkForItems_as ch dst caller s =
     and_then (with_queue (on_consumers (\<lambda>side. enlist side caller atNewest)) s) (\<lambda>closed s1.
       if closed then and_then (leavePollingAndDrain dst s1) (\<lambda>r. ret (Some r))
       else and_then (with_queue (dequeueAttempt dst) s1) (\<lambda>(received, out) s2.
         if received > 0
         then and_then (with_queue wakeProducers s2) (\<lambda>_ s3.
                and_then (with_queue (leaveConsumerList caller True) s3) (\<lambda>_. ret (Some (received, out, None))))
         else and_then (park_select wq_consumers (pick_case ch) caller s2) (\<lambda>selected s3.
           case selected of
             ParkToken \<Rightarrow> ret None (update_consumers (\<lambda>side. take_token side caller) s3)
           | ParkContext \<Rightarrow>
               and_then (with_queue (leaveConsumerList caller False) s3) (\<lambda>_ s4.
                 and_then (look_at consumers_closed s4) (\<lambda>closed s5.
                   if closed then and_then (with_queue (drainCheck dst) s5) (\<lambda>r. ret (Some r))
                   else ret (Some (0, out, Some (ctx_Err s5))) s5))
           | ParkDone \<Rightarrow>
               and_then (with_queue (leaveConsumerList caller False) s3) (\<lambda>_ s4.
                 and_then (with_queue (drainCheck dst) s4) (\<lambda>r. ret (Some r))))))"

text \<open>A deferred call runs whether the function returns or panics.\<close>

definition finally_do :: "('s \<Rightarrow> 's) \<Rightarrow> ('s, 'r) outcome option \<Rightarrow> ('s, 'r) outcome option" where
  "finally_do f = map_option (\<lambda>out. case out of Return r s \<Rightarrow> Return r (f s) | Panic p s \<Rightarrow> Panic p (f s))"

definition parkForItems :: "choice \<Rightarrow> ('a::zero) list \<Rightarrow> nat option \<Rightarrow> 'a work \<Rightarrow> ('a work, 'a received option) outcome option" where
  "parkForItems ch dst own s =
     (case own of
        Some caller \<Rightarrow> parkForItems_as ch dst caller s
      | None \<Rightarrow>
          (let (side, caller) = getWaiter (pick_pool ch) (wq_consumers (wk_queue s))
           in finally_do (update_consumers (\<lambda>side. putWaiter side caller))
                (parkForItems_as ch dst caller (update_consumers (\<lambda>_. side) s))))"

partial_function (option) receiveWait_loop ::
    "choice \<Rightarrow> ('a::zero) list \<Rightarrow> nat option \<Rightarrow> bool \<Rightarrow> 'a work \<Rightarrow> ('a work, 'a received) outcome option" where
  "receiveWait_loop ch dst own woken s =
     and_then (yieldForItems dst woken s) (\<lambda>r s1.
       case r of
         Some v \<Rightarrow> ret v s1
       | None \<Rightarrow>
           if st_NeverPark (wq_consumerWait (wk_queue s1)) then pollWithoutParking dst s1
           else and_then (parkForItems ch dst own s1) (\<lambda>r s2.
             case r of Some v \<Rightarrow> ret v s2 | None \<Rightarrow> receiveWait_loop ch dst own True s2))"

definition registerConsumer :: "'a wq_queue \<Rightarrow> ('a wq_queue, bool) outcome option" where
  "registerConsumer = on_consumers (\<lambda>side. map_option (\<lambda>(side', closed). Return closed side') (register side))"

text \<open>\<open>clearing\<close> says whether \<open>dst\<close> is also the buffer that is cleared before the consumer registers.\<close>

definition receiveWait :: "choice \<Rightarrow> ('a::zero) list \<Rightarrow> nat option \<Rightarrow> bool \<Rightarrow> 'a work \<Rightarrow> ('a work, 'a received) outcome option" where
  "receiveWait ch dst own clearing s =
     and_then (spinForItems dst s) (\<lambda>r s1.
       case r of
         Some v \<Rightarrow> ret v s1
       | None \<Rightarrow>
           (let dst1 = (if clearing then map (\<lambda>_. 0) dst else dst)
            in and_then (with_queue registerConsumer s1) (\<lambda>closed s2.
                 if closed then with_queue (drainCheck dst1) s2 else receiveWait_loop ch dst1 own False s2)))"

definition receive :: "choice \<Rightarrow> ('a::zero) list \<Rightarrow> nat option \<Rightarrow> bool \<Rightarrow> 'a work \<Rightarrow> ('a work, 'a received) outcome option" where
  "receive ch dst own clearing s =
     and_then (with_queue (dequeueAttempt dst) s) (\<lambda>(received, out) s1.
       if received > 0 then and_then (with_queue wakeProducers s1) (\<lambda>_. ret (received, out, None))
       else receiveWait ch out own clearing s1)"

definition Receive :: "choice \<Rightarrow> ('a::zero) list \<Rightarrow> 'a work \<Rightarrow> ('a work, 'a received) outcome option" where
  "Receive ch dst s =
     (if dst = [] then ret (0, dst, None) s
      else and_then (receive ch (clamped (wk_queue s) dst) None False s) (\<lambda>r. ret (unclamp dst r)))"

text \<open>
  \<^verbatim>\<open>Consume\<close>. The handler is the caller's: it gets its own state and the batch, and returns its new state
  and an error or none.
\<close>

partial_function (option) consume_loop ::
    "choice \<Rightarrow> ('h \<Rightarrow> 'a list \<Rightarrow> 'h \<times> string option) \<Rightarrow> nat \<Rightarrow> ('a::zero) list \<Rightarrow> 'h \<Rightarrow> 'a work
      \<Rightarrow> ('a work, 'h \<times> work_error option) outcome option" where
  "consume_loop ch handler own buffer h s =
     and_then (isDone s) (\<lambda>over s1.
       if over then ret (h, Some (ctx_Err s1)) s1
       else and_then (receive ch buffer (Some own) True s1) (\<lambda>r s2.
         case r of (received, out, err) \<Rightarrow>
           (case err of
              Some e \<Rightarrow> if is_ErrClosed e then ret (h, None) s2 else ret (h, Some e) s2
            | None \<Rightarrow>
                (case handler h (take (nat received) out) of (h1, failed) \<Rightarrow>
                   (case failed of
                      Some msg \<Rightarrow> ret (h1, Some (WrapErr (HandlerErr msg))) s2
                    | None \<Rightarrow> consume_loop ch handler own out h1 s2)))))"

definition Consume :: "choice \<Rightarrow> ('h \<Rightarrow> ('a::zero) list \<Rightarrow> 'h \<times> string option) \<Rightarrow> 'h \<Rightarrow> 'a work
    \<Rightarrow> ('a work, 'h \<times> work_error option) outcome option" where
  "Consume ch handler h s =
     (let (side, own) = newWaiter (wq_consumers (wk_queue s))
      in consume_loop ch handler own (replicate (nat (wq_maxReceiveBatch (wk_queue s))) 0) h (update_consumers (\<lambda>_. side) s))"

subsection \<open>A producer that waits\<close>

type_synonym pushed = "int \<times> work_error option"

definition closedWhileWaiting :: "nat \<Rightarrow> work_error" where
  "closedWhileWaiting pushedBefore = (if pushedBefore = 0 then ErrClosed else ErrClosedDuringPush)"

definition producerContextError :: "nat \<Rightarrow> 'a work \<Rightarrow> ('a work, work_error) outcome option" where
  "producerContextError pushedBefore s =
     and_then (look_at consumers_closed s) (\<lambda>closed s1. ret (if closed then closedWhileWaiting pushedBefore else ctx_Err s1) s1)"

definition leaveProducerPolling :: "('a::zero) wq_queue \<Rightarrow> ('a wq_queue, bool) outcome option" where
  "leaveProducerPolling = on_producers_with (leavePolling peekRoom)"

definition leaveProducerList :: "nat \<Rightarrow> bool \<Rightarrow> ('a::zero) wq_queue \<Rightarrow> ('a wq_queue, bool) outcome option" where
  "leaveProducerList caller movedItems = on_producers_with (\<lambda>e side. leaveList peekRoom e side caller movedItems)"

definition leavePollingClosed :: "nat \<Rightarrow> ('a::zero) work \<Rightarrow> ('a work, work_error) outcome option" where
  "leavePollingClosed pushedBefore s =
     and_then (with_queue leaveProducerPolling s) (\<lambda>_. ret (closedWhileWaiting pushedBefore))"

fun spinForRoom_from :: "(('a::zero) wq_queue \<Rightarrow> ('a wq_queue, int) outcome option) \<Rightarrow> nat \<Rightarrow> nat \<Rightarrow> nat \<Rightarrow> 'a work
    \<Rightarrow> ('a work, pushed option) outcome option" where
  "spinForRoom_from attempt pushedBefore poll 0 s = ret None s"
| "spinForRoom_from attempt pushedBefore poll (Suc left) s =
     and_then (look_at producers_closed s) (\<lambda>closed s0.
       if closed then ret (Some (0, Some (closedWhileWaiting pushedBefore))) s0
       else and_then (if poll mod contextCheckInterval = 0 then isDone s0 else ret False s0) (\<lambda>over s1.
         if over then and_then (producerContextError pushedBefore s1) (\<lambda>e. ret (Some (0, Some e)))
         else and_then (with_queue attempt s1) (\<lambda>moved s2.
           if moved > 0 then and_then (with_queue consumerWakeCheck s2) (\<lambda>err. ret (Some (moved, err)))
           else spinForRoom_from attempt pushedBefore (Suc poll) left s2)))"

definition spinForRoom :: "(('a::zero) wq_queue \<Rightarrow> ('a wq_queue, int) outcome option) \<Rightarrow> nat \<Rightarrow> 'a work
    \<Rightarrow> ('a work, pushed option) outcome option" where
  "spinForRoom attempt pushedBefore s =
     spinForRoom_from attempt pushedBefore 0 (nat (st_Spins (wq_producerWait (wk_queue s)))) s"

definition attemptRegistered :: "(('a::zero) wq_queue \<Rightarrow> ('a wq_queue, int) outcome option) \<Rightarrow> nat \<Rightarrow> 'a work
    \<Rightarrow> ('a work, pushed option) outcome option" where
  "attemptRegistered attempt pushedBefore s =
     and_then (look_at producers_closed s) (\<lambda>closed s0.
       if closed then and_then (leavePollingClosed pushedBefore s0) (\<lambda>e. ret (Some (0, Some e)))
       else and_then (with_queue attempt s0) (\<lambda>moved s1.
         if moved > 0
         then and_then (with_queue consumerWakeCheck s1) (\<lambda>err s2.
                and_then (with_queue leaveProducerPolling s2) (\<lambda>_. ret (Some (moved, err))))
         else and_then (look_at producers_closed s1) (\<lambda>closed s2.
           if closed then and_then (leavePollingClosed pushedBefore s2) (\<lambda>e. ret (Some (0, Some e)))
           else and_then (isDone s2) (\<lambda>over s3.
             if over
             then and_then (with_queue leaveProducerPolling s3) (\<lambda>_ s4.
                    and_then (producerContextError pushedBefore s4) (\<lambda>e. ret (Some (0, Some e))))
             else ret None s3))))"

fun yieldForRoom_from :: "(('a::zero) wq_queue \<Rightarrow> ('a wq_queue, int) outcome option) \<Rightarrow> nat \<Rightarrow> nat \<Rightarrow> nat \<Rightarrow> 'a work
    \<Rightarrow> ('a work, pushed option) outcome option" where
  "yieldForRoom_from attempt pushedBefore poll 0 s = ret None s"
| "yieldForRoom_from attempt pushedBefore poll (Suc left) s =
     and_then (attemptRegistered attempt pushedBefore (if poll > 0 then Gosched s else s)) (\<lambda>r s1.
       if r \<noteq> None then ret r s1 else yieldForRoom_from attempt pushedBefore (Suc poll) left s1)"

definition yieldForRoom :: "(('a::zero) wq_queue \<Rightarrow> ('a wq_queue, int) outcome option) \<Rightarrow> nat \<Rightarrow> bool \<Rightarrow> 'a work
    \<Rightarrow> ('a work, pushed option) outcome option" where
  "yieldForRoom attempt pushedBefore woken s =
     (let yields = st_Yields (wq_producerWait (wk_queue s))
      in yieldForRoom_from attempt pushedBefore 0 (nat (if woken then max yields 1 else yields)) s)"

partial_function (option) pushWithoutParking :: "(('a::zero) wq_queue \<Rightarrow> ('a wq_queue, int) outcome option) \<Rightarrow> nat \<Rightarrow> 'a work
    \<Rightarrow> ('a work, pushed) outcome option" where
  "pushWithoutParking attempt pushedBefore s =
     and_then (attemptRegistered attempt pushedBefore s) (\<lambda>r s1.
       case r of Some v \<Rightarrow> ret v s1 | None \<Rightarrow> pushWithoutParking attempt pushedBefore (Gosched s1))"

definition parkForRoom_as :: "choice \<Rightarrow> (('a::zero) wq_queue \<Rightarrow> ('a wq_queue, int) outcome option) \<Rightarrow> nat \<Rightarrow> enlistPosition \<Rightarrow> nat
    \<Rightarrow> 'a work \<Rightarrow> ('a work, pushed option) outcome option" where
  "parkForRoom_as ch attempt pushedBefore position caller s =
     and_then (with_queue (on_producers (\<lambda>side. enlist side caller position)) s) (\<lambda>closed s1.
       if closed then and_then (leavePollingClosed pushedBefore s1) (\<lambda>e. ret (Some (0, Some e)))
       else and_then (with_queue attempt s1) (\<lambda>moved s2.
         if moved > 0
         then and_then (with_queue consumerWakeCheck s2) (\<lambda>err s3.
                and_then (with_queue (leaveProducerList caller True) s3) (\<lambda>_. ret (Some (moved, err))))
         else and_then (park_select wq_producers (pick_case ch) caller s2) (\<lambda>selected s3.
           case selected of
             ParkToken \<Rightarrow> ret None (update_producers (\<lambda>side. take_token side caller) s3)
           | ParkContext \<Rightarrow>
               and_then (with_queue (leaveProducerList caller False) s3) (\<lambda>_ s4.
                 and_then (producerContextError pushedBefore s4) (\<lambda>e. ret (Some (0, Some e))))
           | ParkDone \<Rightarrow>
               and_then (with_queue (leaveProducerList caller False) s3) (\<lambda>_.
                 ret (Some (0, Some (closedWhileWaiting pushedBefore)))))))"

definition parkForRoom :: "choice \<Rightarrow> (('a::zero) wq_queue \<Rightarrow> ('a wq_queue, int) outcome option) \<Rightarrow> nat \<Rightarrow> bool \<Rightarrow> 'a work
    \<Rightarrow> ('a work, pushed option) outcome option" where
  "parkForRoom ch attempt pushedBefore woken s =
     (let (side, caller) = getWaiter (pick_pool ch) (wq_producers (wk_queue s));
          position = (if woken then atOldest else atNewest)
      in finally_do (update_producers (\<lambda>side. putWaiter side caller))
           (parkForRoom_as ch attempt pushedBefore position caller (update_producers (\<lambda>_. side) s)))"

partial_function (option) pushWait_loop ::
    "choice \<Rightarrow> (('a::zero) wq_queue \<Rightarrow> ('a wq_queue, int) outcome option) \<Rightarrow> nat \<Rightarrow> bool \<Rightarrow> 'a work
      \<Rightarrow> ('a work, pushed) outcome option" where
  "pushWait_loop ch attempt pushedBefore woken s =
     and_then (yieldForRoom attempt pushedBefore woken s) (\<lambda>r s1.
       case r of
         Some v \<Rightarrow> ret v s1
       | None \<Rightarrow>
           if st_NeverPark (wq_producerWait (wk_queue s1)) then pushWithoutParking attempt pushedBefore s1
           else and_then (parkForRoom ch attempt pushedBefore woken s1) (\<lambda>r s2.
             case r of Some v \<Rightarrow> ret v s2 | None \<Rightarrow> pushWait_loop ch attempt pushedBefore True s2))"

definition registerProducer :: "'a wq_queue \<Rightarrow> ('a wq_queue, bool) outcome option" where
  "registerProducer = on_producers (\<lambda>side. map_option (\<lambda>(side', closed). Return closed side') (register side))"

definition pushWait :: "choice \<Rightarrow> (('a::zero) wq_queue \<Rightarrow> ('a wq_queue, int) outcome option) \<Rightarrow> nat \<Rightarrow> 'a work
    \<Rightarrow> ('a work, pushed) outcome option" where
  "pushWait ch attempt pushedBefore s =
     and_then (spinForRoom attempt pushedBefore s) (\<lambda>r s1.
       case r of
         Some v \<Rightarrow> ret v s1
       | None \<Rightarrow>
           and_then (with_queue registerProducer s1) (\<lambda>closed s2.
             if closed then ret (0, Some (closedWhileWaiting pushedBefore)) s2
             else pushWait_loop ch attempt pushedBefore False s2))"

definition Push :: "choice \<Rightarrow> ('a::zero) \<Rightarrow> 'a work \<Rightarrow> ('a work, work_error option) outcome option" where
  "Push ch item s =
     and_then (look_at consumers_closed s) (\<lambda>closed s0.
       if closed then ret (Some ErrClosed) s0
       else and_then (with_queue (enqueueAttempt item) s0) (\<lambda>moved s1.
         if moved = 0 then and_then (pushWait ch (enqueueAttempt item) 0 s1) (\<lambda>(_, err). ret err)
         else with_queue consumerWakeCheck s1))"

definition checkBetweenChunks :: "nat \<Rightarrow> 'a work \<Rightarrow> ('a work, work_error option) outcome option" where
  "checkBetweenChunks pushedBefore s =
     and_then (look_at consumers_closed s) (\<lambda>closed s0.
       if closed then ret (Some ErrClosedDuringPush) s0
       else and_then (isDone s0) (\<lambda>over s1.
         if over then and_then (producerContextError pushedBefore s1) (\<lambda>e. ret (Some e)) else ret None s1))"

partial_function (option) pushChunk :: "choice \<Rightarrow> ('a::zero) list \<Rightarrow> nat \<Rightarrow> nat \<Rightarrow> 'a work
    \<Rightarrow> ('a work, nat \<times> work_error option) outcome option" where
  "pushChunk ch chunk pushedBefore pushed s =
     (if pushed < length chunk
      then and_then (with_queue (burstAttempt (drop pushed chunk)) s) (\<lambda>enqueued s1.
             if enqueued > 0
             then and_then (with_queue consumerWakeCheck s1) (\<lambda>err s2.
                    if err \<noteq> None then ret (pushed + nat enqueued, err) s2
                    else pushChunk ch chunk pushedBefore (pushed + nat enqueued) s2)
             else and_then (pushWait ch (burstAttempt (drop pushed chunk)) (pushedBefore + pushed) s1) (\<lambda>(moved, err) s2.
                    if err \<noteq> None then ret (pushed + nat moved, err) s2
                    else pushChunk ch chunk pushedBefore (pushed + nat moved) s2))
      else ret (pushed, None) s)"

partial_function (option) pushBatch_from :: "choice \<Rightarrow> ('a::zero) list \<Rightarrow> nat \<Rightarrow> 'a work
    \<Rightarrow> ('a work, nat \<times> work_error option) outcome option" where
  "pushBatch_from ch items pushed s =
     (if pushed < length items
      then and_then (if pushed > 0 then checkBetweenChunks pushed s else ret None s) (\<lambda>stop s1.
             if stop \<noteq> None then ret (pushed, stop) s1
             else and_then (pushChunk ch (next_chunk (wk_queue s1) items pushed) pushed 0 s1) (\<lambda>(chunkPushed, err) s2.
               if err \<noteq> None then ret (pushed + chunkPushed, err) s2
               else pushBatch_from ch items (pushed + chunkPushed) s2))
      else ret (pushed, None) s)"

definition PushBatch :: "choice \<Rightarrow> ('a::zero) list \<Rightarrow> 'a work \<Rightarrow> ('a work, nat \<times> work_error option) outcome option" where
  "PushBatch ch items s =
     and_then (look_at consumers_closed s) (\<lambda>closed s0.
       if closed then ret (0, Some ErrClosed) s0
       else if items = [] then ret (0, None) s0
       else pushBatch_from ch items 0 s0)"

end
