(* ===== verification/WorkCalls.thy ===== *)
theory WorkCalls
  imports WorkQueue
begin

text \<open>
  What each call of the work queue does in a consistent state: the attempts on the engine, the wakes
  of either side, and the calls that do not wait. A queue that was just constructed is consistent,
  and a sequence of such calls behaves as a bounded FIFO that can be closed.
\<close>

section \<open>Consistent states\<close>

text \<open>A pooled waiter and one not yet allocated are clean, and no waiter is pooled twice.\<close>

definition pool_ok :: "waitSide \<Rightarrow> bool" where
  "pool_ok side \<longleftrightarrow> distinct (ws_pool side) \<and> (\<forall>w\<in>set (ws_pool side). w < ws_fresh side)
     \<and> (\<forall>w. w \<in> set (ws_pool side) \<or> ws_fresh side \<le> w \<longrightarrow> clean side w)"

definition side_in :: "waitSide \<Rightarrow> nat \<times> nat list \<Rightarrow> bool \<Rightarrow> bool" where
  "side_in side C c \<longleftrightarrow> side_state side (fst C) (snd C) c \<and> pool_ok side"

text \<open>What a call never changes.\<close>

record settings =
  sg_conf :: qconf
  sg_push :: int
  sg_receive :: int
  sg_cap :: u32
  sg_consumerWait :: WaitStrategy
  sg_producerWait :: WaitStrategy

definition settings_of :: "'a wq_queue \<Rightarrow> settings" where
  "settings_of q = \<lparr>sg_conf = engine_conf (wq_engine q), sg_push = wq_maxPushBatch q, sg_receive = wq_maxReceiveBatch q,
     sg_cap = wq_consumerWakeCap q, sg_consumerWait = wq_consumerWait q, sg_producerWait = wq_producerWait q\<rparr>"

definition settings_ok :: "settings \<Rightarrow> bool" where
  "settings_ok st \<longleftrightarrow> sg_push st = int (qc_maxE (sg_conf st)) \<and> sg_receive st = int (qc_maxD (sg_conf st))
     \<and> 1 \<le> qc_maxE (sg_conf st) \<and> qc_maxE (sg_conf st) \<le> qc_cap (sg_conf st)
     \<and> 1 \<le> qc_maxD (sg_conf st) \<and> qc_maxD (sg_conf st) \<le> qc_cap (sg_conf st)
     \<and> 0 < unat (sg_cap st) \<and> unat (sg_cap st) < 2 ^ 31"

text \<open>
  \<open>wq_at st q n xs c C P\<close>: the queue holds \<open>xs\<close> and is closed when \<open>c\<close>, \<open>n\<close> more elements can be offered
  before a position overflows, and \<open>C\<close> and \<open>P\<close> are the pollers and the parked waiters of the sides.
\<close>

definition wq_at :: "settings \<Rightarrow> 'a wq_queue \<Rightarrow> nat \<Rightarrow> 'a list \<Rightarrow> bool \<Rightarrow> nat \<times> nat list \<Rightarrow> nat \<times> nat list \<Rightarrow> bool" where
  "wq_at st q n xs c C P \<longleftrightarrow> settings_of q = st \<and> settings_ok st \<and> engine_inv (wq_engine q) \<and> engine_fits (wq_engine q) n
     \<and> engine_contents (wq_engine q) = xs \<and> wq_done q = c \<and> side_in (wq_consumers q) C c \<and> side_in (wq_producers q) P c"

lemma wq_at_room: "wq_at st (q :: ('a::zero) wq_queue) n xs c C P \<Longrightarrow> length xs \<le> qc_cap (sg_conf st)"
  using eng.bounded [of "wq_engine q"] by (auto simp: wq_at_def settings_of_def)

lemma wq_at_less: "wq_at st q n xs c C P \<Longrightarrow> m \<le> n \<Longrightarrow> wq_at st q m xs c C P"
  by (auto simp: wq_at_def intro: engine_fits_less)

lemma wq_at_engine:
  assumes "wq_at st q n xs c C P" "engine_kept (wq_engine q) m e ys"
  shows "wq_at st (q\<lparr>wq_engine := e\<rparr>) m ys c C P"
  using assms by (auto simp: wq_at_def engine_kept_def settings_of_def)

lemma wq_at_consumers:
  assumes "wq_at st q n xs c C P" "side_in side C' c"
  shows "wq_at st (q\<lparr>wq_consumers := side\<rparr>) n xs c C' P"
  using assms by (auto simp: wq_at_def settings_of_def)

lemma wq_at_producers:
  assumes "wq_at st q n xs c C P" "side_in side P' c"
  shows "wq_at st (q\<lparr>wq_producers := side\<rparr>) n xs c C P'"
  using assms by (auto simp: wq_at_def settings_of_def)

lemma wq_at_closed [simp]:
  "wq_at st q n xs c C P \<Longrightarrow> consumers_closed q \<longleftrightarrow> c" "wq_at st q n xs c C P \<Longrightarrow> producers_closed q \<longleftrightarrow> c"
  by (auto simp: wq_at_def side_in_def side_state_def consumers_closed_def producers_closed_def)

section \<open>Attempts\<close>

lemma enqueueAttempt_ok:
  assumes "wq_at st q (Suc n) xs c C P"
  defines "room \<equiv> length xs < qc_cap (sg_conf st)"
  shows "\<exists>q'. enqueueAttempt x q = ret (if room then 1 else 0) q' \<and> wq_at st q' n (xs @ (if room then [x] else [])) c C P"
proof -
  have e: "engine_inv (wq_engine q)" "engine_fits (wq_engine q) (Suc n)" "engine_contents (wq_engine q) = xs"
    "engine_conf (wq_engine q) = sg_conf st" using assms(1) by (auto simp: wq_at_def settings_of_def)
  obtain e' where "engine_Enqueue (wq_engine q) x = Some (e', if room then None else Some (Sentinel ErrFull))"
    "engine_kept (wq_engine q) n e' (xs @ (if room then [x] else []))"
    using engine_Enqueue_ok [OF e(1,2), of x] unfolding e(3,4) room_def by blast
  with wq_at_engine [OF assms(1)] show ?thesis by (auto simp: enqueueAttempt_def)
qed

lemma burstAttempt_ok:
  assumes "wq_at st q (length rest + n) xs c C P"
  defines "m \<equiv> burst_in (sg_conf st) xs rest"
  shows "\<exists>q'. burstAttempt rest q = ret (int m) q' \<and> wq_at st q' n (xs @ take m rest) c C P"
proof -
  have e: "engine_inv (wq_engine q)" "engine_fits (wq_engine q) (length rest + n)" "engine_contents (wq_engine q) = xs"
    "engine_conf (wq_engine q) = sg_conf st" using assms(1) by (auto simp: wq_at_def settings_of_def)
  obtain e' free where "engine_EnqueueBurst (wq_engine q) rest = Some (e', int m, free)"
    "engine_kept (wq_engine q) n e' (xs @ take m rest)"
    using engine_EnqueueBurst_ok [OF e(1,2)] unfolding e(3,4) m_def by blast
  with wq_at_engine [OF assms(1)] show ?thesis by (auto simp: burstAttempt_def)
qed

lemma dequeueAttempt_ok:
  assumes "wq_at st q n xs c C P" "dst \<noteq> []" "length dst \<le> qc_maxD (sg_conf st)"
  defines "m \<equiv> min (length dst) (length xs)"
  shows "\<exists>q'. dequeueAttempt dst q = ret (int m, take m xs @ drop m dst) q' \<and> wq_at st q' n (drop m xs) c C P"
proof -
  have e: "engine_inv (wq_engine q)" "engine_fits (wq_engine q) n" "engine_contents (wq_engine q) = xs"
    "engine_conf (wq_engine q) = sg_conf st" using assms(1) by (auto simp: wq_at_def settings_of_def)
  show ?thesis
  proof (cases "length dst = 1")
    case True
    then obtain d where d: "dst = [d]" by (auto simp: length_Suc_conv)
    obtain e' where "engine_Dequeue (wq_engine q) = Some (e', if xs = [] then (0, Some (Sentinel ErrEmpty)) else (hd xs, None))"
      "engine_kept (wq_engine q) n e' (drop 1 xs)"
      using engine_Dequeue_ok [OF e(1,2)] unfolding e(3) by blast
    with wq_at_engine [OF assms(1)] show ?thesis by (cases xs) (auto simp: dequeueAttempt_def d m_def)
  next
    case False
    have m: "burst_out (sg_conf st) xs dst = m" using assms(3) by (auto simp: burst_out_def m_def)
    obtain e' avail where "engine_DequeueBurst (wq_engine q) dst = Some (e', int m, avail, take m xs @ drop m dst)"
      "engine_kept (wq_engine q) n e' (drop m xs)"
      using engine_DequeueBurst_ok [OF e(1,2), of dst] unfolding e(3,4) m by blast
    with False wq_at_engine [OF assms(1)] show ?thesis by (auto simp: dequeueAttempt_def)
  qed
qed

lemma peekRoom_ok:
  assumes "engine_inv e" "engine_fits e n"
  shows "\<exists>e'. peekRoom e = Some (e', length (engine_contents e) < qc_cap (engine_conf e))
    \<and> engine_kept e n e' (engine_contents e)"
  using engine_EnqueueBurst_ok [of e "[]" n] assms by (auto simp: peekRoom_def)

lemma available_ok:
  assumes "engine_inv e" "engine_fits e n"
  shows "\<exists>e'. engine_DequeueBurst e [] = Some (e', 0, int (length (engine_contents e)), [])
    \<and> engine_kept e n e' (engine_contents e)"
  using engine_DequeueBurst_ok [of e n "[]"] assms by auto

section \<open>Wakes\<close>

text \<open>\<open>woken side C k side'\<close>: the \<open>k\<close> oldest waiters got their tokens and now count as pollers.\<close>

definition woken :: "waitSide \<Rightarrow> nat \<times> nat list \<Rightarrow> nat \<Rightarrow> waitSide \<Rightarrow> bool \<Rightarrow> bool" where
  "woken side C k side' c \<longleftrightarrow> k \<le> length (snd C) \<and> side_in side' (fst C + k, drop k (snd C)) c
     \<and> (\<forall>w\<in>set (take k (snd C)). ws_heap side' w = zero_waiter\<lparr>wt_token := True\<rparr>)
     \<and> (\<forall>d. d \<notin> set (snd C) \<longrightarrow> ws_heap side' d = ws_heap side d)"

lemma woken_refl: "side_in side C c \<Longrightarrow> woken side C 0 side c"
  by (simp add: woken_def)

lemma listed_not_clean: "side_state side P xs c \<Longrightarrow> w \<in> set xs \<Longrightarrow> \<not> clean side w"
proof -
  assume "side_state side P xs c" "w \<in> set xs"
  then have "wt_listed (ws_heap side w)" by (simp add: side_state_def wait_list_def)
  then show ?thesis by (auto simp: clean_def zero_waiter_def)
qed

lemma wokenI:
  assumes "side_in side C c" "k \<le> length (snd C)" "side_state side' (fst C + k) (drop k (snd C)) c"
    "\<forall>w\<in>set (take k (snd C)). ws_heap side' w = zero_waiter\<lparr>wt_token := True\<rparr>"
    "\<forall>d. d \<notin> set (snd C) \<longrightarrow> ws_heap side' d = ws_heap side d"
    "ws_pool side' = ws_pool side" "ws_fresh side' = ws_fresh side"
  shows "woken side C k side' c"
proof -
  have "w \<notin> set (snd C)" if "w \<in> set (ws_pool side) \<or> ws_fresh side \<le> w" for w
    using that assms(1) listed_not_clean [of side "fst C" "snd C" c w] by (auto simp: side_in_def pool_ok_def)
  then have "pool_ok side'" using assms by (auto simp: side_in_def pool_ok_def clean_def)
  with assms show ?thesis by (simp add: woken_def side_in_def)
qed

lemma wakeOne_woken:
  assumes "side_in side C c"
  defines "k \<equiv> if fst C = 0 \<and> snd C \<noteq> [] then 1 else 0 :: nat"
  shows "\<exists>side'. wakeOne side = ret (0 < k) side' \<and> woken side C k side' c"
proof -
  have st: "side_state side (fst C) (snd C) c" using assms(1) by (simp add: side_in_def)
  show ?thesis
  proof (cases "fst C = 0 \<and> snd C \<noteq> []")
    case True
    then obtain side' where s': "wakeOne side = ret True side'" "side_state side' 1 (tl (snd C)) c"
      "ws_heap side' (hd (snd C)) = zero_waiter\<lparr>wt_token := True\<rparr>" "\<forall>d. d \<notin> set (snd C) \<longrightarrow> ws_heap side' d = ws_heap side d"
      "ws_pool side' = ws_pool side" "ws_fresh side' = ws_fresh side"
      using wakeOne_ok [OF st] by auto
    have "woken side C 1 side' c"
      using True s' by (intro wokenI [OF assms(1)]) (cases "snd C"; auto)+
    with True s'(1) show ?thesis by (auto simp: k_def)
  next
    case False
    with wakeOne_ok [OF st] woken_refl [OF assms(1)] show ?thesis by (auto simp: k_def)
  qed
qed

lemma wakeGroup_woken:
  fixes target :: u32
  assumes "side_in side C c" "unat target < 2 ^ 31"
  defines "k \<equiv> min (length (snd C)) (unat target - fst C)"
  shows "\<exists>side'. wakeGroup side target = ret (0 < k) side' \<and> woken side C k side' c"
proof -
  have st: "side_state side (fst C) (snd C) c" using assms(1) by (simp add: side_in_def)
  show ?thesis
  proof (cases "0 < k")
    case True
    then obtain side' where s': "wakeGroup side target = ret True side'" "side_state side' (fst C + k) (drop k (snd C)) c"
      "\<forall>w\<in>set (take k (snd C)). ws_heap side' w = zero_waiter\<lparr>wt_token := True\<rparr>"
      "\<forall>d. d \<notin> set (snd C) \<longrightarrow> ws_heap side' d = ws_heap side d"
      "ws_pool side' = ws_pool side" "ws_fresh side' = ws_fresh side"
      using wakeGroup_ok [OF st assms(2)] by (auto simp: k_def)
    have "woken side C k side' c" using s' by (intro wokenI [OF assms(1)]) (auto simp: k_def)
    with True s'(1) show ?thesis by auto
  next
    case False
    with wakeGroup_ok [OF st assms(2)] woken_refl [OF assms(1)] show ?thesis by (auto simp: k_def)
  qed
qed

lemma on_consumers_ret:
  "f (wq_consumers q) = ret r side \<Longrightarrow> on_consumers f q = ret r (q\<lparr>wq_consumers := side\<rparr>)"
  by (simp add: on_consumers_def on_consumers_with_def beside_def)

lemma on_producers_ret:
  "f (wq_producers q) = ret r side \<Longrightarrow> on_producers f q = ret r (q\<lparr>wq_producers := side\<rparr>)"
  by (simp add: on_producers_def on_producers_with_def beside_def)

text \<open>A call that found work for the other side hands the side over to \<open>woken\<close>.\<close>

definition wakes_consumers :: "settings \<Rightarrow> 'a wq_queue \<Rightarrow> 'a wq_queue \<Rightarrow> nat \<Rightarrow> 'a list \<Rightarrow> bool \<Rightarrow> nat \<times> nat list \<Rightarrow> nat \<times> nat list \<Rightarrow> nat \<Rightarrow> bool" where
  "wakes_consumers st q q' n xs c C P k \<longleftrightarrow>
     wq_at st q' n xs c (fst C + k, drop k (snd C)) P \<and> woken (wq_consumers q) C k (wq_consumers q') c
     \<and> wq_producers q' = wq_producers q"

definition wakes_producers :: "settings \<Rightarrow> 'a wq_queue \<Rightarrow> 'a wq_queue \<Rightarrow> nat \<Rightarrow> 'a list \<Rightarrow> bool \<Rightarrow> nat \<times> nat list \<Rightarrow> nat \<times> nat list \<Rightarrow> nat \<Rightarrow> bool" where
  "wakes_producers st q q' n xs c C P k \<longleftrightarrow>
     wq_at st q' n xs c C (fst P + k, drop k (snd P)) \<and> woken (wq_producers q) P k (wq_producers q') c
     \<and> wq_consumers q' = wq_consumers q"

lemma wakes_consumersI:
  assumes "wq_at st q n xs c C P" "woken (wq_consumers q) C k side c"
  shows "wakes_consumers st q (q\<lparr>wq_consumers := side\<rparr>) n xs c C P k"
  using assms wq_at_consumers [OF assms(1)] by (auto simp: wakes_consumers_def woken_def)

lemma wakes_producersI:
  assumes "wq_at st q n xs c C P" "woken (wq_producers q) P k side c"
  shows "wakes_producers st q (q\<lparr>wq_producers := side\<rparr>) n xs c C P k"
  using assms wq_at_producers [OF assms(1)] by (auto simp: wakes_producers_def woken_def)

lemma wakes_consumers_refl: "wq_at st q n xs c C P \<Longrightarrow> wakes_consumers st q q n xs c C P 0"
  by (simp add: wakes_consumers_def woken_refl wq_at_def)

lemma wakeProducers_ok:
  assumes "wq_at st q n xs c C P"
  defines "k \<equiv> if fst P = 0 \<and> snd P \<noteq> [] then 1 else 0 :: nat"
  shows "\<exists>q'. wakeProducers q = ret c q' \<and> wakes_producers st q q' n xs c C P k"
proof -
  have side: "side_in (wq_producers q) P c" using assms(1) by (simp add: wq_at_def)
  then have st: "side_state (wq_producers q) (fst P) (snd P) c" by (simp add: side_in_def)
  obtain side where w: "wakeOne (wq_producers q) = ret (0 < k) side" "woken (wq_producers q) P k side c"
    using wakeOne_woken [OF side] unfolding k_def by blast
  have "wakeCheck (wq_producers q) = ret c side" using wakeCheck_ok [OF st] w(1) by auto
  from on_producers_ret [of wakeCheck, OF this] wakes_producersI [OF assms(1) w(2)] show ?thesis
    by (auto simp: wakeProducers_def)
qed

text \<open>The words a consistent side has.\<close>

lemma side_in_word:
  assumes "side_in side C c"
  shows "sideWord_closed (ws_word side) = c" "sideWord_parked (ws_word side) = 0 \<longleftrightarrow> snd C = []"
    "sideWord_needsWake (ws_word side) \<longleftrightarrow> fst C = 0 \<and> snd C \<noteq> []" "unat (sideWord_pollers (ws_word side)) = fst C"
  using assms by (auto simp: side_in_def side_state_def unat_of_nat)

lemma consumerTarget_ok:
  assumes "engine_inv e" "engine_fits e n"
  shows "\<exists>e'. consumerTarget cap batch e = Some (e', consumerTargetOf cap batch (int (length (engine_contents e))))
    \<and> engine_kept e n e' (engine_contents e)"
  using available_ok [OF assms] by (auto simp: consumerTarget_def)

lemma target_bounds:
  assumes "settings_ok st"
  shows "unat (consumerTargetOf (sg_cap st) (sg_receive st) (int m)) < 2 ^ 31"
    "unat (max 1 (consumerTargetOf (sg_cap st) (sg_receive st) (int m))) < 2 ^ 31"
    "0 < unat (max 1 (consumerTargetOf (sg_cap st) (sg_receive st) (int m)))"
proof -
  have "unat (consumerTargetOf (sg_cap st) (sg_receive st) (int m)) \<le> unat (sg_cap st)"
  proof (cases "m = 0")
    case False
    then show ?thesis using assms consumerTargetOf_bounds(2) [of "int m" "sg_receive st" "sg_cap st"]
      by (simp add: settings_ok_def)
  qed (simp add: consumerTargetOf_def)
  then show b: "unat (consumerTargetOf (sg_cap st) (sg_receive st) (int m)) < 2 ^ 31"
    using assms by (simp add: settings_ok_def)
  show "unat (max 1 (consumerTargetOf (sg_cap st) (sg_receive st) (int m))) < 2 ^ 31" using b by (simp add: max_def)
  show "0 < unat (max 1 (consumerTargetOf (sg_cap st) (sg_receive st) (int m)))"
    by (auto simp: max_def word_le_nat_alt)
qed

lemma wakeConsumers_ok:
  assumes at: "wq_at st q n xs c C P"
  shows "\<exists>q' k. wakeConsumersAfterPublication q = ret c q' \<and> wakes_consumers st q q' n xs c C P k
    \<and> (snd C = [] \<or> 0 < fst C + k)"
proof -
  let ?w = "ws_word (wq_consumers q)" and ?cap = "wq_consumerWakeCap q"
  have side: "side_in (wq_consumers q) C c" and ok: "settings_ok st" and cap: "?cap = sg_cap st" "wq_maxReceiveBatch q = sg_receive st"
    and e: "engine_inv (wq_engine q)" "engine_fits (wq_engine q) n" "engine_contents (wq_engine q) = xs"
    using at by (auto simp: wq_at_def settings_of_def)
  note w = side_in_word [OF side]
  have stay: "\<exists>q' k. ret c q = ret c q' \<and> wakes_consumers st q q' n xs c C P k \<and> (snd C = [] \<or> 0 < fst C + k)"
    if "snd C = [] \<or> 0 < fst C" using that wakes_consumers_refl [OF at] by auto
  consider (idle) "snd C = []" | (one) "snd C \<noteq> []" "?cap = 1" | (busy) "snd C \<noteq> []" "?cap \<noteq> 1" "sideWord_pollers ?w \<ge> ?cap"
    | (group) "snd C \<noteq> []" "?cap \<noteq> 1" "\<not> sideWord_pollers ?w \<ge> ?cap" by blast
  then show ?thesis
  proof cases
    case idle then show ?thesis using stay w by (simp add: wakeConsumersAfterPublication_def Let_def)
  next
    case busy
    then have "0 < fst C" using w(4) ok cap by (auto simp: settings_ok_def word_le_nat_alt)
    with busy stay w show ?thesis by (simp add: wakeConsumersAfterPublication_def Let_def)
  next
    case one
    obtain side where s: "wakeOne (wq_consumers q) = ret (fst C = 0) side"
      "woken (wq_consumers q) C (if fst C = 0 then 1 else 0) side c"
      using wakeOne_woken [OF side] one(1) by (auto split: if_splits)
    show ?thesis
    proof (cases "fst C = 0")
      case True
      then have "wakeConsumersAfterPublication q = ret c (q\<lparr>wq_consumers := side\<rparr>)"
        using one w s(1) on_consumers_ret [of wakeOne q, OF s(1)] by (simp add: wakeConsumersAfterPublication_def Let_def)
      with True wakes_consumersI [OF at s(2)] show ?thesis by auto
    next
      case False
      then show ?thesis using stay one w by (simp add: wakeConsumersAfterPublication_def Let_def)
    qed
  next
    case group
    let ?t = "max 1 (consumerTargetOf (sg_cap st) (sg_receive st) (int (length xs)))"
    obtain e' where e': "consumerTarget ?cap (wq_maxReceiveBatch q) (wq_engine q)
        = Some (e', consumerTargetOf (sg_cap st) (sg_receive st) (int (length xs)))" "engine_kept (wq_engine q) n e' xs"
      using consumerTarget_ok [OF e(1,2)] unfolding e(3) cap by blast
    let ?q = "q\<lparr>wq_engine := e'\<rparr>"
    have at': "wq_at st ?q n xs c C P" by (rule wq_at_engine [OF at e'(2)])
    have eq: "wakeConsumersAfterPublication q =
        (if sideWord_pollers ?w < ?t then and_then (on_consumers (\<lambda>side. wakeGroup side ?t) ?q) (\<lambda>_. ret c) else ret c ?q)"
      using group w e'(1) by (simp add: wakeConsumersAfterPublication_def Let_def)
    show ?thesis
    proof (cases "sideWord_pollers ?w < ?t")
      case True
      let ?k = "min (length (snd C)) (unat ?t - fst C)"
      obtain side where s: "wakeGroup (wq_consumers q) ?t = ret (0 < ?k) side" "woken (wq_consumers q) C ?k side c"
        using wakeGroup_woken [OF side target_bounds(2) [OF ok]] by blast
      have "0 < ?k" using True group(1) w(4) by (auto simp: word_less_nat_alt)
      moreover have "wakeConsumersAfterPublication q = ret c (?q\<lparr>wq_consumers := side\<rparr>)"
        unfolding eq using True on_consumers_ret [of "\<lambda>side. wakeGroup side ?t" ?q] s(1) by simp
      ultimately show ?thesis using wakes_consumersI [OF at', of ?k side] s(2)
        by (intro exI [of _ "?q\<lparr>wq_consumers := side\<rparr>"] exI [of _ ?k]) (auto simp: wakes_consumers_def)
    next
      case False
      then have "0 < fst C" using w(4) target_bounds(3) [OF ok, of "length xs"] by (simp add: word_less_nat_alt)
      with False eq wakes_consumers_refl [OF at'] show ?thesis
        by (intro exI [of _ ?q] exI [of _ 0]) (auto simp: wakes_consumers_def)
    qed
  qed
qed

text \<open>Some of the oldest waiters of a side became pollers.\<close>

definition advanced :: "nat \<times> nat list \<Rightarrow> nat \<times> nat list \<Rightarrow> bool" where
  "advanced C C' \<longleftrightarrow> (\<exists>k \<le> length (snd C). C' = (fst C + k, drop k (snd C)))"

lemma advanced_refl [simp]: "advanced C C"
  by (auto simp: advanced_def intro: exI [of _ 0])

lemma advanced_trans: "advanced C D \<Longrightarrow> advanced D E \<Longrightarrow> advanced C E"
  unfolding advanced_def
proof (elim exE conjE)
  fix k l assume "k \<le> length (snd C)" "D = (fst C + k, drop k (snd C))" "l \<le> length (snd D)" "E = (fst D + l, drop l (snd D))"
  then show "\<exists>k\<le>length (snd C). E = (fst C + k, drop k (snd C))" by (intro exI [of _ "k + l"]) (auto simp: add.commute)
qed

lemma advanced_idle: "advanced C C' \<Longrightarrow> snd C = [] \<Longrightarrow> C' = C"
  by (cases C) (auto simp: advanced_def)

lemma advanced_served: "advanced C C' \<Longrightarrow> snd C = [] \<or> 0 < fst C \<Longrightarrow> snd C' = [] \<or> 0 < fst C'"
  by (auto simp: advanced_def)

lemma wakes_consumers_at:
  "wakes_consumers st q q' n xs c C P k \<Longrightarrow>
     wq_at st q' n xs c (fst C + k, drop k (snd C)) P \<and> advanced C (fst C + k, drop k (snd C))"
  by (auto simp: wakes_consumers_def woken_def advanced_def)

lemma wakes_producers_at:
  "wakes_producers st q q' n xs c C P k \<Longrightarrow>
     wq_at st q' n xs c C (fst P + k, drop k (snd P)) \<and> advanced P (fst P + k, drop k (snd P))"
  by (auto simp: wakes_producers_def woken_def advanced_def)

lemma consumerWakeCheck_ok:
  assumes "wq_at st q n xs c C P"
  shows "\<exists>q' k. consumerWakeCheck q = ret (if c then Some ErrClosedDuringPush else None) q'
    \<and> wakes_consumers st q q' n xs c C P k \<and> (snd C = [] \<or> 0 < fst C + k)"
proof -
  obtain q' k where k: "wakeConsumersAfterPublication q = ret c q'" "wakes_consumers st q q' n xs c C P k" "snd C = [] \<or> 0 < fst C + k"
    using wakeConsumers_ok [OF assms] by (elim exE conjE) (rule that)
  show ?thesis by (rule exI [of _ q'], rule exI [of _ k]) (use k(3) in \<open>simp add: consumerWakeCheck_def k(1,2)\<close>)
qed

section \<open>Calls that do not wait\<close>

lemma attempts_frame:
  "enqueueAttempt x q = ret r q' \<Longrightarrow> wq_consumers q' = wq_consumers q \<and> wq_producers q' = wq_producers q"
  "burstAttempt rest q = ret r q' \<Longrightarrow> wq_consumers q' = wq_consumers q \<and> wq_producers q' = wq_producers q"
  "dequeueAttempt dst q = ret v q' \<Longrightarrow> wq_consumers q' = wq_consumers q \<and> wq_producers q' = wq_producers q"
  by (auto simp: enqueueAttempt_def burstAttempt_def dequeueAttempt_def split: if_splits)

definition push_result :: "settings \<Rightarrow> 'a list \<Rightarrow> bool \<Rightarrow> work_error option" where
  "push_result st xs c =
     (if c then Some ErrClosed else if length xs < qc_cap (sg_conf st) then None else Some (RingErr (Sentinel ErrFull)))"

definition pushed_items :: "settings \<Rightarrow> 'a list \<Rightarrow> bool \<Rightarrow> 'a list \<Rightarrow> 'a list" where
  "pushed_items st xs c items = xs @ (if c then [] else take (qc_cap (sg_conf st) - length xs) items)"

lemma tryPush_ok:
  assumes at: "wq_at st q (Suc n) xs c C P"
  shows "\<exists>q' k. tryPush x q = ret (push_result st xs c) q' \<and> wakes_consumers st q q' n (pushed_items st xs c [x]) c C P k
    \<and> (push_result st xs c = None \<longrightarrow> snd C = [] \<or> 0 < fst C + k)"
proof (cases "c \<or> \<not> length xs < qc_cap (sg_conf st)")
  case True
  obtain q' where "enqueueAttempt x q = ret (if length xs < qc_cap (sg_conf st) then 1 else 0) q'"
    "wq_at st q' n (xs @ (if length xs < qc_cap (sg_conf st) then [x] else [])) c C P"
    using enqueueAttempt_ok [OF at, of x] by blast
  with True at wakes_consumers_refl [OF wq_at_less [OF at, of n]] attempts_frame(1) [of x q _ q']
  show ?thesis
    by (intro exI [of _ "if c then q else q'"] exI [of _ 0])
      (auto simp: tryPush_def push_result_def pushed_items_def wakes_consumers_def)
next
  case False
  then obtain q1 where q1: "enqueueAttempt x q = ret 1 q1" "wq_at st q1 n (xs @ [x]) c C P"
    using enqueueAttempt_ok [OF at, of x] by auto
  obtain q' k where k: "consumerWakeCheck q1 = ret None q'" "wakes_consumers st q1 q' n (xs @ [x]) c C P k" "snd C = [] \<or> 0 < fst C + k"
    using consumerWakeCheck_ok [OF q1(2)] False by auto
  have "wakes_consumers st q q' n (pushed_items st xs c [x]) c C P k"
    using k(2) False attempts_frame(1) [OF q1(1)] by (simp add: wakes_consumers_def pushed_items_def take_Cons')
  with False at q1(1) k show ?thesis by (intro exI [of _ q'] exI [of _ k]) (auto simp: tryPush_def push_result_def)
qed

lemma next_chunk_eq:
  assumes "wq_at st q n xs c C P" "pushed \<le> length items"
  shows "next_chunk q items pushed = take (qc_maxE (sg_conf st)) (drop pushed items)"
proof -
  have "wq_maxPushBatch q = int (qc_maxE (sg_conf st))" using assms(1) by (auto simp: wq_at_def settings_of_def settings_ok_def)
  then have "next_chunk q items pushed = take (min (pushed + qc_maxE (sg_conf st)) (length items) - pushed) (drop pushed items)"
    by (simp add: next_chunk_def flip: of_nat_add of_nat_min)
  also have "\<dots> = take (qc_maxE (sg_conf st)) (drop pushed items)"
    using assms(2) by (cases "pushed + qc_maxE (sg_conf st) \<le> length items") auto
  finally show ?thesis .
qed

text \<open>\<open>served C C' mv\<close>: after a call that moved something no waiter is left parked without a poller.\<close>

definition served :: "nat \<times> nat list \<Rightarrow> nat \<times> nat list \<Rightarrow> bool \<Rightarrow> bool" where
  "served C C' mv \<longleftrightarrow> advanced C C' \<and> (mv \<longrightarrow> snd C' = [] \<or> 0 < fst C')"

lemma served_idle: "served C C' mv \<Longrightarrow> snd C = [] \<Longrightarrow> C' = C"
  by (auto simp: served_def dest: advanced_idle)

lemma served_trans: "served C D m1 \<Longrightarrow> served D E m2 \<Longrightarrow> served C E (m1 \<or> m2)"
  by (auto simp: served_def dest: advanced_trans advanced_served)

lemma served_refl [simp]: "served C C False"
  by (simp add: served_def)

text \<open>One chunk: what fits of it, and the wake check when something did.\<close>

lemma push_chunk_ok:
  assumes at: "wq_at st q (length chunk + n) xs False C P" and len: "length chunk \<le> qc_maxE (sg_conf st)"
  defines "m \<equiv> min (length chunk) (qc_cap (sg_conf st) - length xs)"
  shows "\<exists>q1 q' C'. burstAttempt chunk q = ret (int m) q1
    \<and> (if int m > 0 then consumerWakeCheck q1 else ret None q1) = ret None q'
    \<and> wq_at st q' n (xs @ take m chunk) False C' P \<and> served C C' (0 < m)"
proof -
  have "burst_in (sg_conf st) xs chunk = m" using len by (simp add: burst_in_def m_def)
  then obtain q1 where q1: "burstAttempt chunk q = ret (int m) q1" "wq_at st q1 n (xs @ take m chunk) False C P"
    using burstAttempt_ok [OF at] by auto
  show ?thesis
  proof (cases "m = 0")
    case True
    with q1 show ?thesis by (intro exI [of _ q1] exI [of _ C]) simp
  next
    case False
    obtain q' k where k: "consumerWakeCheck q1 = ret None q'" "wakes_consumers st q1 q' n (xs @ take m chunk) False C P k"
      "snd C = [] \<or> 0 < fst C + k"
      using consumerWakeCheck_ok [OF q1(2)] by (elim exE conjE) (simp add: that)
    then have "wq_at st q' n (xs @ take m chunk) False (fst C + k, drop k (snd C)) P" "served C (fst C + k, drop k (snd C)) True"
      using wakes_consumers_at [OF k(2)] by (auto simp: served_def)
    with False q1(1) k(1) show ?thesis by (intro exI [of _ q1] exI [of _ q']) auto
  qed
qed

lemma tryPushBatch_from_ok:
  "wq_at st q (length items - pushed + n) xs False C P \<Longrightarrow> pushed \<le> length items \<Longrightarrow>
    m = min (length items - pushed) (qc_cap (sg_conf st) - length xs) \<Longrightarrow>
    \<exists>q' C'. tryPushBatch_from items pushed q
      = ret (pushed + m, if pushed + m < length items then Some (RingErr (Sentinel ErrFull)) else None) q'
    \<and> wq_at st q' n (xs @ take m (drop pushed items)) False C' P \<and> served C C' (0 < m)"
proof (induction "length items - pushed" arbitrary: pushed q xs C m rule: less_induct)
  case less
  show ?case
  proof (cases "pushed < length items")
    case False
    then show ?thesis using wq_at_less [OF less.prems(1), of n] less.prems(2)
      by (subst tryPushBatch_from.simps) (intro exI [of _ q] exI [of _ C], simp add: less.prems(3))
  next
    case True
    let ?E = "qc_maxE (sg_conf st)" and ?chunk = "next_chunk q items pushed"
    have E: "1 \<le> ?E" using less.prems(1) by (simp add: wq_at_def settings_ok_def)
    have chunk: "?chunk = take ?E (drop pushed items)" using next_chunk_eq [OF less.prems(1)] True by simp
    then have len: "length ?chunk = min (length items - pushed) ?E" "length ?chunk \<le> ?E" by simp_all
    define n1 where "n1 = length items - pushed - length ?chunk + n"
    have "length ?chunk + n1 = length items - pushed + n" using len(1) by (simp add: n1_def)
    then have at1: "wq_at st q (length ?chunk + n1) xs False C P" using less.prems(1) by simp
    obtain q1 q2 C1 where c: "burstAttempt ?chunk q = ret (int (min (length ?chunk) (qc_cap (sg_conf st) - length xs))) q1"
      "(if int (min (length ?chunk) (qc_cap (sg_conf st) - length xs)) > 0 then consumerWakeCheck q1 else ret None q1) = ret None q2"
      "wq_at st q2 n1 (xs @ take (min (length ?chunk) (qc_cap (sg_conf st) - length xs)) ?chunk) False C1 P"
      "served C C1 (0 < min (length ?chunk) (qc_cap (sg_conf st) - length xs))"
      using push_chunk_ok [OF at1 len(2)] by (elim exE conjE) (rule that)
    define j where "j = min (length ?chunk) (qc_cap (sg_conf st) - length xs)"
    note c = c [folded j_def]
    have step: "tryPushBatch_from items pushed q =
        (if int j < int (length ?chunk)
         then ret (pushed + j, if pushed + j < length items then Some (RingErr (Sentinel ErrFull)) else None) q2
         else tryPushBatch_from items (pushed + j) q2)"
      using True c(1,2) by (subst tryPushBatch_from.simps) (simp add: Let_def)
    show ?thesis
    proof (cases "j < length ?chunk")
      case short: True
      then have "j = m" using len(1) by (auto simp: j_def less.prems(3) min_def split: if_splits)
      moreover have "take j ?chunk = take j (drop pushed items)" using short len by (simp add: chunk)
      ultimately show ?thesis using short step c(3,4) wq_at_less [OF c(3), of n]
        by (intro exI [of _ q2] exI [of _ C1]) (simp add: n1_def)
    next
      case False
      then have j: "j = length ?chunk" by (simp add: j_def)
      then have pos: "0 < j" using True E len by simp
      have at2: "wq_at st q2 (length items - (pushed + j) + n) (xs @ ?chunk) False C1 P"
        using c(3) j by (simp add: n1_def)
      have smaller: "length items - (pushed + j) < length items - pushed" "pushed + j \<le> length items" using pos True len j by auto
      obtain q' C' where r: "tryPushBatch_from items (pushed + j) q2 =
          ret (pushed + j + min (length items - (pushed + j)) (qc_cap (sg_conf st) - length (xs @ ?chunk)),
            if pushed + j + min (length items - (pushed + j)) (qc_cap (sg_conf st) - length (xs @ ?chunk)) < length items
            then Some (RingErr (Sentinel ErrFull)) else None) q'"
        "wq_at st q' n ((xs @ ?chunk) @ take (min (length items - (pushed + j)) (qc_cap (sg_conf st) - length (xs @ ?chunk)))
            (drop (pushed + j) items)) False C' P"
        "served C1 C' (0 < min (length items - (pushed + j)) (qc_cap (sg_conf st) - length (xs @ ?chunk)))"
        using less.hyps [OF smaller(1) at2 smaller(2) refl] by (elim exE conjE) (rule that)
      define l where "l = min (length items - (pushed + j)) (qc_cap (sg_conf st) - length (xs @ ?chunk))"
      note r = r [folded l_def]
      have "j \<le> qc_cap (sg_conf st) - length xs" "j \<le> length items - pushed"
        unfolding j_def using len(1) by (auto intro: min.coboundedI1 min.coboundedI2)
      then have m: "m = j + l" using j by (simp add: less.prems(3) l_def)
      have "?chunk @ take l (drop (pushed + j) items) = take m (drop pushed items)"
      proof -
        have "take j (drop pushed items) = ?chunk" unfolding j chunk by (cases "?E \<le> length (drop pushed items)") auto
        then show ?thesis unfolding m take_add by (simp add: add.commute)
      qed
      then show ?thesis using step False r served_trans [OF c(4) r(3)] pos m
        by (intro exI [of _ q'] exI [of _ C']) (auto simp: add.assoc)
    qed
  qed
qed

lemma tryPushBatch_ok:
  assumes at: "wq_at st q (length items + n) xs c C P"
  defines "m \<equiv> if c then 0 else min (length items) (qc_cap (sg_conf st) - length xs)"
  shows "\<exists>q' C'. tryPushBatch items q
      = ret (m, if c then Some ErrClosed else if m < length items then Some (RingErr (Sentinel ErrFull)) else None) q'
    \<and> wq_at st q' n (xs @ take m items) c C' P \<and> served C C' (0 < m)"
proof (cases "c \<or> items = []")
  case True
  with at wq_at_less [OF at, of n] show ?thesis
    by (intro exI [of _ q] exI [of _ C]) (auto simp: tryPushBatch_def m_def)
next
  case False
  then show ?thesis using at tryPushBatch_from_ok [of st q items 0 n xs C P m] by (auto simp: tryPushBatch_def m_def)
qed

lemma dequeue_wake_ok:
  assumes "wq_at st q n xs c C P" "dst \<noteq> []" "length dst \<le> qc_maxD (sg_conf st)"
  defines "m \<equiv> min (length dst) (length xs)"
  shows "\<exists>q1 q' P'. dequeueAttempt dst q = ret (int m, take m xs @ drop m dst) q1 \<and> wq_at st q1 n (drop m xs) c C P
    \<and> wakeProducers q1 = ret c q' \<and> wq_at st q' n (drop m xs) c C P' \<and> served P P' True"
proof -
  obtain q1 where q1: "dequeueAttempt dst q = ret (int m, take m xs @ drop m dst) q1" "wq_at st q1 n (drop m xs) c C P"
    using dequeueAttempt_ok [OF assms(1-3)] unfolding m_def by blast
  let ?k = "if fst P = 0 \<and> snd P \<noteq> [] then 1 else 0 :: nat"
  obtain q' where q': "wakeProducers q1 = ret c q'" "wakes_producers st q1 q' n (drop m xs) c C P ?k"
    using wakeProducers_ok [OF q1(2)] by blast
  have "served P (fst P + ?k, drop ?k (snd P)) True" using wakes_producers_at [OF q'(2)] by (auto simp: served_def)
  with q1 q'(1) wakes_producers_at [OF q'(2)] show ?thesis by blast
qed

lemma drainCheck_ok:
  assumes "wq_at st q n xs c C P" "dst \<noteq> []" "length dst \<le> qc_maxD (sg_conf st)"
  defines "m \<equiv> min (length dst) (length xs)"
  shows "\<exists>q' P'. drainCheck dst q = ret (int m, take m xs @ drop m dst, if m = 0 then Some ErrClosed else None) q'
    \<and> wq_at st q' n (drop m xs) c C P' \<and> served P P' (0 < m)"
proof -
  obtain q1 q' P' where "dequeueAttempt dst q = ret (int m, take m xs @ drop m dst) q1" "wq_at st q1 n (drop m xs) c C P"
    "wakeProducers q1 = ret c q'" "wq_at st q' n (drop m xs) c C P'" "served P P' True"
    using dequeue_wake_ok [OF assms(1-3), folded m_def] by (elim exE conjE) (rule that)
  then show ?thesis
    by (intro exI [of _ "if m = 0 then q1 else q'"] exI [of _ "if m = 0 then P else P'"]) (auto simp: drainCheck_def)
qed

lemma clamped_eq: "wq_at st q n xs c C P \<Longrightarrow> clamped q dst = take (qc_maxD (sg_conf st)) dst"
  by (auto simp: clamped_def wq_at_def settings_of_def settings_ok_def min_def)

lemma clamped_fits:
  assumes "wq_at st q n xs c C P" "dst \<noteq> []"
  shows "clamped q dst \<noteq> []" "length (clamped q dst) \<le> qc_maxD (sg_conf st)"
    "length (clamped q dst) = min (length dst) (qc_maxD (sg_conf st))"
proof -
  have "1 \<le> qc_maxD (sg_conf st)" using assms(1) by (simp add: wq_at_def settings_ok_def)
  then show "clamped q dst \<noteq> []" "length (clamped q dst) \<le> qc_maxD (sg_conf st)"
    "length (clamped q dst) = min (length dst) (qc_maxD (sg_conf st))"
    using assms(2) unfolding clamped_eq [OF assms(1)] by auto
qed

lemma unclamp_eq:
  assumes "m \<le> min (length dst) D" "m \<le> length xs"
  shows "unclamp dst (int m, take m xs @ drop m (take D dst), err) = (int m, take m xs @ drop m dst, err)"
proof -
  have "drop m (take D dst) @ drop D dst = drop m dst"
    using assms(1) by (metis append_take_drop_id drop_append length_take min.commute diff_is_0_eq' drop_0)
  moreover have "length (take m xs @ drop m (take D dst)) = min (length dst) D" using assms by (auto simp: min_def)
  moreover have "drop (min (length dst) D) dst = drop D dst" by (cases "D \<le> length dst") auto
  ultimately show ?thesis by (simp add: unclamp_def)
qed

lemma tryReceive_ok:
  fixes dst :: "('a::zero) list"
  assumes at: "wq_at st q n xs c C P"
  defines "m \<equiv> min (min (length dst) (qc_maxD (sg_conf st))) (length xs)"
  shows "\<exists>q' P'. tryReceive dst q = ret (int m, take m xs @ drop m dst, if m = 0 \<and> c \<and> dst \<noteq> [] then Some ErrClosed else None) q'
    \<and> wq_at st q' n (drop m xs) c C P' \<and> served P P' (0 < m)"
proof (cases "dst = []")
  case True
  with at show ?thesis by (intro exI [of _ q] exI [of _ P]) (simp add: tryReceive_def m_def)
next
  case False
  let ?d = "clamped q dst"
  note d = clamped_fits [OF at False]
  have m: "min (length ?d) (length xs) = m" using d(3) by (simp add: m_def)
  have un: "unclamp dst (int m, take m xs @ drop m ?d, err) = (int m, take m xs @ drop m dst, err)" for err
    unfolding clamped_eq [OF at] by (rule unclamp_eq) (auto simp: m_def)
  obtain q1 q' P' where a: "dequeueAttempt ?d q = ret (int m, take m xs @ drop m ?d) q1" "wq_at st q1 n (drop m xs) c C P"
    "wakeProducers q1 = ret c q'" "wq_at st q' n (drop m xs) c C P'" "served P P' True"
    using dequeue_wake_ok [OF at d(1,2), unfolded m] by (elim exE conjE) (rule that)
  show ?thesis
  proof (cases "m = 0")
    case pos: False
    then have "tryReceive dst q = ret (int m, take m xs @ drop m dst, None) q'"
      using a(1,3) False un by (simp add: tryReceive_def)
    with pos a(4,5) show ?thesis by (intro exI [of _ q'] exI [of _ P']) simp
  next
    case zero: True
    then have xs: "xs = []" using False d(1) m by (cases xs) (auto simp: min_def split: if_splits)
    obtain q2 P2 where dr: "drainCheck ?d q1 = ret (0, ?d, Some ErrClosed) q2" "wq_at st q2 n [] c C P2" "served P P2 False"
      using drainCheck_ok [OF a(2) d(1,2)] zero xs by auto
    have "tryReceive dst q = (if c then ret (0, dst, Some ErrClosed) q2 else ret (0, dst, None) q1)"
      using a(1,2) zero False un [of None] un [of "Some ErrClosed"] dr(1) by (simp add: tryReceive_def)
    then show ?thesis using zero xs a(2) dr(2,3) False
      by (intro exI [of _ "if c then q2 else q1"] exI [of _ "if c then P2 else P"]) auto
  qed
qed

lemma side_in_close:
  assumes "side_in side C c"
  shows "\<exists>side' first. setClosedLocked side = Some (side', first) \<and> side_in side' C True \<and> (first \<longleftrightarrow> \<not> c)"
proof -
  have st: "side_state side (fst C) (snd C) c" "pool_ok side" using assms by (simp_all add: side_in_def)
  then have "fst C < 2 ^ 31" by (simp add: side_state_def)
  from side_state_word [OF st(1) this, of True] st(2) setClosedLocked_ok [OF st(1)] show ?thesis
    using st(1) by (auto simp: side_in_def pool_ok_def clean_def)
qed

lemma wq_Close_ok:
  assumes "wq_at st q n xs c C P"
  shows "\<exists>q'. wq_Close q = Some q' \<and> wq_at st q' n xs True C P"
proof -
  obtain cs f1 ps f2 where s: "setClosedLocked (wq_consumers q) = Some (cs, f1)" "side_in cs C True" "f1 \<longleftrightarrow> \<not> c"
    "setClosedLocked (wq_producers q) = Some (ps, f2)" "side_in ps P True"
    using side_in_close [of "wq_consumers q" C c] side_in_close [of "wq_producers q" P c] assms by (auto simp: wq_at_def)
  then have "wq_Close q = Some (q\<lparr>wq_consumers := cs, wq_done := True, wq_producers := ps\<rparr>)"
    using assms by (auto simp: wq_Close_def wq_at_def)
  then show ?thesis using assms s by (auto simp: wq_at_def settings_of_def)
qed

section \<open>A new queue\<close>

lemma zero_side: "side_in zero_waitSide (0, []) False"
  by (auto simp: side_in_def side_state_def pool_ok_def zero_waitSide_def wait_list_def side_word_def clean_def zero_waiter_def)

lemma of_int_word:
  assumes "0 \<le> x" "x < 2 ^ 32"
  shows "unat (of_int x :: u32) = nat x"
proof -
  have "uint (of_int x :: u32) = x" using assms by (simp only: uint_word_of_int) simp
  then show ?thesis by (metis nat_int of_nat_unat)
qed

lemma wq_New_ok:
  assumes "wq_New procs capacity options = Inr q" "1 \<le> procs" "n < 2 ^ 64"
  shows "wq_at (settings_of q) q n [] False (0, []) (0, [])" "int (qc_cap (sg_conf (settings_of q))) = capacity"
    "wq_Capacity q = capacity"
proof -
  obtain cfg e where cfg: "newEngine capacity cfg = Inr e" and q: "q = newQueue procs e cfg"
    using assms(1) by (auto simp: wq_New_def split: sum.splits)
  have b: "capacity_ok capacity" "batches_ok capacity cfg" "engine_new capacity cfg e"
    using newEngine_built [of capacity cfg, where 'a = 'a] cfg by (auto simp: engine_built_def)
  have cap: "engine_Capacity e = capacity" "1 \<le> capacity" "capacity \<le> 2 ^ 30"
  proof -
    show c: "1 \<le> capacity" "capacity \<le> 2 ^ 30"
      using b(1) power_increasing [of _ 30 "2::int"] by (auto simp: capacity_ok_def)
    show "engine_Capacity e = capacity" using engine_Capacity_ok [of e] b(3) c by (simp add: engine_new_def)
  qed
  let ?w = "if wc_singleConsumer cfg then 1 else max 1 (min procs capacity)"
  have w: "unat (of_int ?w :: u32) = nat ?w" by (rule of_int_word) (use cap in auto)
  have "0 < nat ?w" "nat ?w < 2 ^ 31" using cap by auto
  moreover have "nat (wc_maxPushBatch cfg) \<le> nat capacity" "nat (wc_maxReceiveBatch cfg) \<le> nat capacity"
    "1 \<le> nat (wc_maxPushBatch cfg)" "1 \<le> nat (wc_maxReceiveBatch cfg)"
    using b(2) by (auto simp: batches_ok_def)
  moreover have "sg_conf (settings_of q) = engine_conf e" "sg_push (settings_of q) = wc_maxPushBatch cfg"
    "sg_receive (settings_of q) = wc_maxReceiveBatch cfg" "sg_cap (settings_of q) = of_int ?w"
    by (simp_all add: q newQueue_def Let_def settings_of_def cap(1))
  moreover have "qc_cap (engine_conf e) = nat capacity" "qc_maxE (engine_conf e) = nat (wc_maxPushBatch cfg)"
    "qc_maxD (engine_conf e) = nat (wc_maxReceiveBatch cfg)" using b(3) by (simp_all add: engine_new_def)
  ultimately have "settings_ok (settings_of q)"
    using b(2) unfolding settings_ok_def by (simp only: w) (simp add: batches_ok_def)
  then show "wq_at (settings_of q) q n [] False (0, []) (0, [])"
    using b(3) zero_side assms(3) by (simp add: wq_at_def q newQueue_def Let_def engine_new_def)
  show "int (qc_cap (sg_conf (settings_of q))) = capacity" "wq_Capacity q = capacity"
    using b(3) cap by (auto simp: q newQueue_def Let_def settings_of_def engine_new_def wq_Capacity_def)
qed

definition default_wq_config :: "int \<Rightarrow> wq_config" where
  "default_wq_config capacity = \<lparr>wc_diagnostics = zero_DiagnosticsConfig, wc_singleProducer = False, wc_singleConsumer = False,
     wc_maxPushBatch = min 32 capacity, wc_maxReceiveBatch = min 32 capacity,
     wc_consumerWait = \<lparr>st_Spins = 64, st_Yields = 16, st_NeverPark = False\<rparr>,
     wc_producerWait = \<lparr>st_Spins = 16, st_Yields = 4, st_NeverPark = False\<rparr>\<rparr>"

definition strategy_ok :: "WaitStrategy \<Rightarrow> bool" where
  "strategy_ok s \<longleftrightarrow> 0 \<le> st_Spins s \<and> 0 \<le> st_Yields s"

lemma checkWaitStrategy_eq: "checkWaitStrategy s = (if strategy_ok s then None else Some (WrapErr ErrInvalidWaitStrategy))"
  by (simp add: checkWaitStrategy_def strategy_ok_def)

lemma wq_resolveConfig_eq:
  "wq_resolveConfig capacity options =
     (let cfg = fold (\<lambda>option cfg. option cfg) options (default_wq_config capacity)
      in if \<not> (strategy_ok (wc_consumerWait cfg) \<and> strategy_ok (wc_producerWait cfg)) then Inl (WrapErr ErrInvalidWaitStrategy)
         else case resolveDiagnostics (wc_diagnostics cfg) of
                None \<Rightarrow> Inl (WrapErr (WrapErr ErrInvalidDiagnostics)) | Some r \<Rightarrow> Inr (cfg\<lparr>wc_diagnostics := r\<rparr>))"
  by (simp add: wq_resolveConfig_def default_wq_config_def defaultMaxBatch_def defaultConsumerWait_def
      defaultProducerWait_def checkWaitStrategy_eq Let_def)

lemma newEngine_diagnostics: "newEngine capacity (cfg\<lparr>wc_diagnostics := d\<rparr>) = newEngine capacity cfg"
  by (simp add: newEngine_def newSPSCEngine_def newFrontierEngine_def)

lemma wq_New_eq:
  assumes "wq_resolveConfig capacity options = Inr cfg"
  shows "wq_New procs capacity options = (case newEngine capacity cfg of
      Inl e \<Rightarrow> Inl (WrapErr (RingErr e)) | Inr e \<Rightarrow> Inr (newQueue procs e cfg))"
  using assms by (simp add: wq_New_def)

section \<open>Sequences of calls that do not wait\<close>

datatype 'a wop = TryPush_call 'a | TryPushBatch_call "'a list" | TryReceive_call "'a list" | Close_call

datatype 'a wres = Pushed "work_error option" | BatchPushed nat "work_error option"
  | Received int "'a list" "work_error option" | CloseDone

fun wq_call :: "('a::zero) wop \<Rightarrow> 'a wq_queue \<Rightarrow> ('a wq_queue, 'a wres) outcome option" where
  "wq_call (TryPush_call x) q = and_then (tryPush x q) (\<lambda>e. ret (Pushed e))"
| "wq_call (TryPushBatch_call items) q = and_then (tryPushBatch items q) (\<lambda>(n, e). ret (BatchPushed n e))"
| "wq_call (TryReceive_call dst) q = and_then (tryReceive dst q) (\<lambda>(n, out, e). ret (Received n out e))"
| "wq_call Close_call q = map_option (Return CloseDone) (wq_Close q)"

fun wq_run :: "('a::zero) wop list \<Rightarrow> 'a wq_queue \<Rightarrow> ('a wq_queue, 'a wres list) outcome option" where
  "wq_run [] q = ret [] q"
| "wq_run (opn # ops) q = and_then (wq_call opn q) (\<lambda>r q1. and_then (wq_run ops q1) (\<lambda>rs. ret (r # rs)))"

text \<open>
  The specification: a FIFO of at most \<open>cap\<close> elements that can be closed, of which a receive takes at
  most \<open>D\<close>.
\<close>

definition room :: "nat \<Rightarrow> 'a list \<times> bool \<Rightarrow> nat" where
  "room cap t = (if snd t then 0 else cap - length (fst t))"

fun cq_next :: "nat \<Rightarrow> nat \<Rightarrow> 'a list \<times> bool \<Rightarrow> 'a wop \<Rightarrow> 'a list \<times> bool" where
  "cq_next cap D t (TryPush_call x) = (fst t @ take (room cap t) [x], snd t)"
| "cq_next cap D t (TryPushBatch_call items) = (fst t @ take (room cap t) items, snd t)"
| "cq_next cap D t (TryReceive_call dst) = (drop (min (length dst) D) (fst t), snd t)"
| "cq_next cap D t Close_call = (fst t, True)"

fun cq_result :: "nat \<Rightarrow> nat \<Rightarrow> 'a list \<times> bool \<Rightarrow> 'a wop \<Rightarrow> 'a wres" where
  "cq_result cap D t (TryPush_call x) =
     Pushed (if snd t then Some ErrClosed else if room cap t = 0 then Some (RingErr (Sentinel ErrFull)) else None)"
| "cq_result cap D t (TryPushBatch_call items) =
     BatchPushed (min (length items) (room cap t))
       (if snd t then Some ErrClosed else if room cap t < length items then Some (RingErr (Sentinel ErrFull)) else None)"
| "cq_result cap D t (TryReceive_call dst) =
     (let m = min (min (length dst) D) (length (fst t))
      in Received (int m) (take m (fst t) @ drop m dst) (if m = 0 \<and> snd t \<and> dst \<noteq> [] then Some ErrClosed else None))"
| "cq_result cap D t Close_call = CloseDone"

fun cq_results :: "nat \<Rightarrow> nat \<Rightarrow> 'a list \<times> bool \<Rightarrow> 'a wop list \<Rightarrow> 'a wres list" where
  "cq_results cap D t [] = []"
| "cq_results cap D t (opn # ops) = cq_result cap D t opn # cq_results cap D (cq_next cap D t opn) ops"

fun wop_size :: "'a wop \<Rightarrow> nat" where
  "wop_size (TryPush_call x) = 1"
| "wop_size (TryPushBatch_call items) = length items"
| "wop_size _ = 0"

fun taken_in :: "'a wop \<Rightarrow> 'a wres \<Rightarrow> 'a list" where
  "taken_in (TryPush_call x) (Pushed None) = [x]"
| "taken_in (TryPushBatch_call items) (BatchPushed n e) = take n items"
| "taken_in _ _ = []"

fun handed_out :: "'a wres \<Rightarrow> 'a list" where
  "handed_out (Received n out e) = take (nat n) out"
| "handed_out _ = []"

lemma drop_min_length: "drop (min a (length xs)) xs = drop a xs"
  by (simp add: min_def)

lemma wq_call_ok:
  assumes "wq_at st q (wop_size opn + n) xs c C P"
  defines "cap \<equiv> qc_cap (sg_conf st)" and "D \<equiv> qc_maxD (sg_conf st)"
  shows "\<exists>q' C' P'. wq_call opn q = ret (cq_result cap D (xs, c) opn) q'
    \<and> wq_at st q' n (fst (cq_next cap D (xs, c) opn)) (snd (cq_next cap D (xs, c) opn)) C' P'"
proof (cases opn)
  case (TryPush_call x)
  then obtain q' k where "tryPush x q = ret (push_result st xs c) q'" "wakes_consumers st q q' n (pushed_items st xs c [x]) c C P k"
    using tryPush_ok [of st q n xs c C P x] assms(1) by (auto simp: wop_size.simps)
  note k = this(1) wakes_consumers_at [OF this(2)]
  have "pushed_items st xs c [x] = fst (cq_next cap D (xs, c) opn)"
    by (simp add: TryPush_call pushed_items_def room_def cap_def)
  moreover have "Pushed (push_result st xs c) = cq_result cap D (xs, c) opn"
    by (simp add: TryPush_call push_result_def room_def cap_def)
  ultimately show ?thesis using k
    by (intro exI [of _ q'] exI [of _ "(fst C + k, drop k (snd C))"] exI [of _ P]) (simp add: TryPush_call)
next
  case (TryPushBatch_call items)
  let ?m = "if c then 0 else min (length items) (cap - length xs)"
  obtain q' C' where r: "tryPushBatch items q
      = ret (?m, if c then Some ErrClosed else if ?m < length items then Some (RingErr (Sentinel ErrFull)) else None) q'"
    "wq_at st q' n (xs @ take ?m items) c C' P"
    using tryPushBatch_ok [of st q items n xs c C P] assms(1) TryPushBatch_call unfolding cap_def by auto
  moreover have "take ?m items = take (room cap (xs, c)) items" by (auto simp: room_def min_def)
  ultimately show ?thesis
    by (intro exI [of _ q'] exI [of _ C'] exI [of _ P]) (auto simp: TryPushBatch_call room_def min_def)
next
  case (TryReceive_call dst)
  let ?m = "min (min (length dst) D) (length xs)"
  have "drop ?m xs = drop (min (length dst) D) xs" by (rule drop_min_length)
  moreover obtain q' P' where "tryReceive dst q =
      ret (int ?m, take ?m xs @ drop ?m dst, if ?m = 0 \<and> c \<and> dst \<noteq> [] then Some ErrClosed else None) q'"
    "wq_at st q' n (drop ?m xs) c C P'"
    using tryReceive_ok [of st q n xs c C P dst] assms(1) TryReceive_call unfolding D_def by auto
  ultimately show ?thesis by (intro exI [of _ q'] exI [of _ C] exI [of _ P']) (simp add: TryReceive_call Let_def)
next
  case Close_call
  obtain q' where "wq_Close q = Some q'" "wq_at st q' n xs True C P"
    using wq_Close_ok [of st q n xs c C P] assms(1) Close_call by auto
  then show ?thesis by (intro exI [of _ q'] exI [of _ C] exI [of _ P]) (simp add: Close_call)
qed

lemma wq_run_ok:
  "wq_at st q (\<Sum>opn\<leftarrow>ops. wop_size opn) xs c C P \<Longrightarrow>
    \<exists>q' C' P'. wq_run ops q = ret (cq_results (qc_cap (sg_conf st)) (qc_maxD (sg_conf st)) (xs, c) ops) q'
      \<and> (case fold (\<lambda>opn t. cq_next (qc_cap (sg_conf st)) (qc_maxD (sg_conf st)) t opn) ops (xs, c) of
           (ys, d) \<Rightarrow> wq_at st q' 0 ys d C' P')"
proof (induction ops arbitrary: q xs c C P)
  case Nil
  then show ?case by (intro exI [of _ q] exI [of _ C] exI [of _ P]) simp
next
  case (Cons opn ops)
  let ?cap = "qc_cap (sg_conf st)" and ?D = "qc_maxD (sg_conf st)"
  obtain ys d where t: "cq_next ?cap ?D (xs, c) opn = (ys, d)" by (cases "cq_next ?cap ?D (xs, c) opn")
  obtain q1 C1 P1 where s: "wq_call opn q = ret (cq_result ?cap ?D (xs, c) opn) q1"
    "wq_at st q1 (\<Sum>opn\<leftarrow>ops. wop_size opn) ys d C1 P1"
    using wq_call_ok [of st q opn "\<Sum>opn\<leftarrow>ops. wop_size opn" xs c C P] Cons.prems t by auto
  obtain q' C' P' where r: "wq_run ops q1 = ret (cq_results ?cap ?D (ys, d) ops) q'"
    "case fold (\<lambda>opn t. cq_next ?cap ?D t opn) ops (ys, d) of (ys, d) \<Rightarrow> wq_at st q' 0 ys d C' P'"
    using Cons.IH [OF s(2)] by (elim exE conjE) (rule that)
  show ?case by (intro exI [of _ q'] exI [of _ C'] exI [of _ P']) (use r in \<open>simp add: s(1) t\<close>)
qed

lemma cq_stream:
  "length xs \<le> cap \<Longrightarrow> xs @ concat (map2 taken_in ops (cq_results cap D (xs, c) ops))
     = concat (map handed_out (cq_results cap D (xs, c) ops)) @ fst (fold (\<lambda>opn t. cq_next cap D t opn) ops (xs, c))"
proof (induction ops arbitrary: xs c)
  case (Cons opn ops)
  obtain ys d where t: "cq_next cap D (xs, c) opn = (ys, d)" by (cases "cq_next cap D (xs, c) opn")
  have "xs @ taken_in opn (cq_result cap D (xs, c) opn) = handed_out (cq_result cap D (xs, c) opn) @ ys"
    using t by (cases opn) (auto simp: room_def Let_def drop_min_length take_Cons' min_def)
  moreover have "length ys \<le> cap" using t Cons.prems by (cases opn) (auto simp: room_def)
  ultimately show ?case using Cons.IH [of ys d] t by simp (metis append_assoc)
qed simp

section \<open>Properties\<close>

text \<open>
  C12. A work queue built by \<^verbatim>\<open>New\<close> behaves, under any sequence of \<^verbatim>\<open>TryPush\<close>, \<^verbatim>\<open>TryPushBatch\<close>, \<^verbatim>\<open>TryReceive\<close> and
  \<^verbatim>\<open>Close\<close>, as a bounded FIFO that can be closed, whatever engine and options it has: every call returns
  without a panic and with the results of the specification, every accepted element is handed out
  once and in order or is still queued, a closed queue accepts nothing and reports \<^verbatim>\<open>ErrClosed\<close> to
  producers at once and to consumers only when it is drained.
\<close>

theorem work_queue_is_closable_fifo:
  fixes q :: "('a::zero) wq_queue"
  assumes "wq_New procs capacity options = Inr q" "1 \<le> procs" "(\<Sum>opn\<leftarrow>ops. wop_size opn) < 2 ^ 64"
  defines "cap \<equiv> nat capacity" and "D \<equiv> nat (wq_maxReceiveBatch q)"
  shows "\<exists>q'. wq_run ops q = ret (cq_results cap D ([], False) ops) q'
    \<and> fold (\<lambda>opn t. cq_next cap D t opn) ops ([], False) = (engine_contents (wq_engine q'), wq_done q')
    \<and> concat (map2 taken_in ops (cq_results cap D ([], False) ops))
      = concat (map handed_out (cq_results cap D ([], False) ops)) @ engine_contents (wq_engine q')
    \<and> length (engine_contents (wq_engine q')) \<le> cap \<and> wq_Capacity q' = capacity"
proof -
  note new = wq_New_ok [OF assms(1-3)]
  have conf: "qc_cap (sg_conf (settings_of q)) = cap" "qc_maxD (sg_conf (settings_of q)) = D"
    using new(1,2) by (auto simp: cap_def D_def wq_at_def settings_ok_def settings_of_def)
  obtain ys d where t: "fold (\<lambda>opn t. cq_next cap D t opn) ops ([], False) = (ys, d)"
    by (cases "fold (\<lambda>opn t. cq_next cap D t opn) ops ([] :: 'a list, False)")
  obtain q' C' P' where r: "wq_run ops q = ret (cq_results cap D ([], False) ops) q'" "wq_at (settings_of q) q' 0 ys d C' P'"
    using wq_run_ok [OF new(1)] unfolding conf t by auto
  have "engine_contents (wq_engine q') = ys" "wq_done q' = d" using r(2) by (auto simp: wq_at_def)
  moreover have "length ys \<le> cap" using wq_at_room [OF r(2)] conf by simp
  moreover have "wq_Capacity q' = capacity"
    using r(2) engine_Capacity_ok [of "wq_engine q'"] new(2) by (auto simp: wq_at_def wq_Capacity_def settings_of_def)
  ultimately show ?thesis using r(1) t cq_stream [of "[]" cap ops D False] by auto
qed

lemma small_queue_exists: "\<exists>q. (wq_New 4 2 [] :: work_error + ('a::zero) wq_queue) = Inr q \<and> wq_maxReceiveBatch q = 2"
proof -
  have "resolveDiagnostics zero_DiagnosticsConfig = Some zero_DiagnosticsConfig"
    by (simp add: resolveDiagnostics_def zero_DiagnosticsConfig_def)
  then have cfg: "wq_resolveConfig 2 [] = Inr (default_wq_config 2)"
    by (simp add: wq_resolveConfig_eq default_wq_config_def strategy_ok_def)
  have "capacity_ok 2" unfolding capacity_ok_def by (intro exI [of _ 1]) simp
  moreover have "batches_ok 2 (default_wq_config 2)" by (simp add: batches_ok_def default_wq_config_def)
  ultimately obtain e :: "'a engine" where "newEngine 2 (default_wq_config 2) = Inr e"
    using newEngine_built [of 2 "default_wq_config 2", where 'a = 'a] by (auto simp: engine_built_def split: sum.splits)
  then show ?thesis by (simp add: wq_New_eq [OF cfg] newQueue_def Let_def default_wq_config_def)
qed

theorem work_queue_is_closable_fifo_witness:
  "\<exists>q q'. wq_New 4 2 [] = Inr q
    \<and> wq_run [TryPushBatch_call [1 :: int, 2, 3], Close_call, TryPush_call 4, TryReceive_call [0], TryReceive_call [0, 0], TryReceive_call [0]] q
      = ret [BatchPushed 2 (Some (RingErr (Sentinel ErrFull))), CloseDone, Pushed (Some ErrClosed),
          Received 1 [1] None, Received 1 [2, 0] None, Received 0 [0] (Some ErrClosed)] q'
    \<and> wq_Capacity q' = 2"
proof -
  let ?ops = "[TryPushBatch_call [1 :: int, 2, 3], Close_call, TryPush_call 4, TryReceive_call [0], TryReceive_call [0, 0], TryReceive_call [0]]"
  obtain q :: "int wq_queue" where q: "wq_New 4 2 [] = Inr q" "wq_maxReceiveBatch q = 2" using small_queue_exists by blast
  have size: "(\<Sum>opn\<leftarrow>?ops. wop_size opn) < 2 ^ 64" "1 \<le> (4 :: int)" by simp_all
  obtain q' where run: "wq_run ?ops q = ret (cq_results (nat 2) (nat (wq_maxReceiveBatch q)) ([], False) ?ops) q'" "wq_Capacity q' = 2"
    using work_queue_is_closable_fifo [OF q(1) size(2,1)] by (elim exE conjE) (rule that)
  have "cq_results (nat 2) (nat (wq_maxReceiveBatch q)) ([], False) ?ops =
      [BatchPushed 2 (Some (RingErr (Sentinel ErrFull))), CloseDone, Pushed (Some ErrClosed),
        Received 1 [1] None, Received 1 [2, 0] None, Received 0 [0] (Some ErrClosed)]"
    by (simp add: q(2) room_def Let_def)
  with run q(1) show ?thesis by (intro exI [of _ q] exI [of _ q']) (simp only: simp_thms)
qed

text \<open>
  C22. \<^verbatim>\<open>New\<close> accepts exactly the valid configurations, and for an invalid one reports the first thing that is
  wrong: a wait strategy with a negative count, then an invalid diagnostics configuration, then an
  invalid capacity, then invalid batch limits. The options apply in order to the documented
  defaults. A queue it returns is open and empty, has the requested capacity and limits and the
  engine its sides select, waits on both sides as configured except that neither side spins with one
  processor, and wakes at most as many consumers at once as there are processors, or one when the
  consumer is single.
\<close>

theorem wq_New_decides:
  defines "cfg capacity options \<equiv> fold (\<lambda>option cfg. option cfg) options (default_wq_config capacity)"
  shows "case wq_New procs capacity options of
      Inl err \<Rightarrow> \<not> (strategy_ok (wc_consumerWait (cfg capacity options)) \<and> strategy_ok (wc_producerWait (cfg capacity options))
          \<and> (\<exists>r. diagnostics_resolved (wc_diagnostics (cfg capacity options)) r)
          \<and> capacity_ok capacity \<and> batches_ok capacity (cfg capacity options))
        \<and> err =
        (if \<not> (strategy_ok (wc_consumerWait (cfg capacity options)) \<and> strategy_ok (wc_producerWait (cfg capacity options)))
         then WrapErr ErrInvalidWaitStrategy
         else if \<not> (\<exists>r. diagnostics_resolved (wc_diagnostics (cfg capacity options)) r) then WrapErr (WrapErr ErrInvalidDiagnostics)
         else WrapErr (RingErr (Wrap (Wrap (Sentinel (if capacity_ok capacity then ErrInvalidMaxBatch else ErrInvalidCount))))))
    | Inr q \<Rightarrow> strategy_ok (wc_consumerWait (cfg capacity options)) \<and> strategy_ok (wc_producerWait (cfg capacity options))
        \<and> (\<exists>r. diagnostics_resolved (wc_diagnostics (cfg capacity options)) r)
        \<and> capacity_ok capacity \<and> batches_ok capacity (cfg capacity options)
        \<and> engine_contents (wq_engine (q :: ('a::zero) wq_queue)) = [] \<and> \<not> wq_done q \<and> wq_Capacity q = capacity
        \<and> wq_maxPushBatch q = wc_maxPushBatch (cfg capacity options) \<and> wq_maxReceiveBatch q = wc_maxReceiveBatch (cfg capacity options)
        \<and> diagnosticsEngineKind (wq_engine q) =
            (if wc_singleProducer (cfg capacity options)
             then (if wc_singleConsumer (cfg capacity options) then EngineSPSC else EngineSPMC)
             else if wc_singleConsumer (cfg capacity options) then EngineMPSC else EngineMPMC)
        \<and> int (unat (wq_consumerWakeCap q)) = (if wc_singleConsumer (cfg capacity options) then 1 else max 1 (min procs capacity))
        \<and> wq_consumerWait q = (wc_consumerWait (cfg capacity options))
            \<lparr>st_Spins := if procs = 1 then 0 else st_Spins (wc_consumerWait (cfg capacity options))\<rparr>
        \<and> wq_producerWait q = (wc_producerWait (cfg capacity options))
            \<lparr>st_Spins := if procs = 1 then 0 else st_Spins (wc_producerWait (cfg capacity options))\<rparr>"
proof -
  define c where "c = cfg capacity options"
  have cf: "wq_resolveConfig capacity options =
      (if \<not> (strategy_ok (wc_consumerWait c) \<and> strategy_ok (wc_producerWait c)) then Inl (WrapErr ErrInvalidWaitStrategy)
       else case resolveDiagnostics (wc_diagnostics c) of
              None \<Rightarrow> Inl (WrapErr (WrapErr ErrInvalidDiagnostics)) | Some r \<Rightarrow> Inr (c\<lparr>wc_diagnostics := r\<rparr>))"
    unfolding wq_resolveConfig_eq Let_def c_def cfg_def by (rule refl)
  show ?thesis
  proof (cases "strategy_ok (wc_consumerWait c) \<and> strategy_ok (wc_producerWait c)")
    case False
    then show ?thesis using cf by (auto simp: wq_New_def c_def)
  next
    case strat: True
    show ?thesis
    proof (cases "resolveDiagnostics (wc_diagnostics c)")
      case None
      then have "\<not> (\<exists>r. diagnostics_resolved (wc_diagnostics c) r)" using resolveDiagnostics_Some [of "wc_diagnostics c"] by auto
      with None strat cf show ?thesis by (simp add: wq_New_def c_def)
    next
      case (Some r)
      then have r: "diagnostics_resolved (wc_diagnostics c) r" by (simp add: resolveDiagnostics_Some)
      have res: "wq_resolveConfig capacity options = Inr (c\<lparr>wc_diagnostics := r\<rparr>)" using cf strat Some by simp
      note built = newEngine_built [of capacity c, where 'a = 'a]
      show ?thesis
      proof (cases "newEngine capacity c :: ring_error + 'a engine")
        case (Inl e)
        then show ?thesis using built strat r
          by (auto simp: wq_New_eq [OF res] newEngine_diagnostics engine_built_def engine_error_def c_def)
      next
        case (Inr e)
        then have b: "capacity_ok capacity" "batches_ok capacity c" "engine_new capacity c e" using built by (auto simp: engine_built_def)
        have cap: "1 \<le> capacity" "capacity \<le> 2 ^ 30"
          using b(1) power_increasing [of _ 30 "2::int"] by (auto simp: capacity_ok_def)
        have ec: "engine_Capacity e = capacity" using engine_Capacity_ok [of e] b(3) cap by (simp add: engine_new_def)
        let ?w = "if wc_singleConsumer c then 1 else max 1 (min procs capacity)"
        have "int (unat (of_int ?w :: u32)) = ?w" using of_int_word [of ?w] cap by (cases "wc_singleConsumer c") auto
        then show ?thesis using Inr b ec strat r newEngine_kind [OF Inr]
          by (auto simp: wq_New_eq [OF res] newEngine_diagnostics newQueue_def Let_def engine_new_def wq_Capacity_def c_def)
      qed
    qed
  qed
qed

end
