(* ===== verification/WorkWait.thy ===== *)
theory WorkWait
  imports WorkCalls
begin

text \<open>
  What the consumers' calls of the work queue do when they have to wait and no other goroutine acts
  during the call (the script is empty), whatever the wait strategy and the context. When a call
  returns, the caller has given back its registration and its waiter is clean in the pool.
  \<open>ReceiveEvents\<close> treats the calls during which another goroutine acts.
\<close>

section \<open>Registration and parking\<close>

lemma register_in:
  assumes "side_in side C c" "fst C + 1 < 2 ^ 31"
  shows "\<exists>side'. register side = Some (side', c) \<and> side_in side' (if c then C else (fst C + 1, snd C)) c"
proof -
  have st: "side_state side (fst C) (snd C) c" "pool_ok side" using assms(1) by (simp_all add: side_in_def)
  from side_state_word [OF st(1) assms(2), of c] st(2) register_ok [OF st(1) assms(2)] show ?thesis
    using assms(1) by (auto simp: side_in_def pool_ok_def clean_def)
qed

text \<open>A waiter the caller owns: not in the pool, not on the list, nothing left in it.\<close>

definition owned :: "waitSide \<Rightarrow> nat \<Rightarrow> bool" where
  "owned side w \<longleftrightarrow> clean side w \<and> w \<notin> set (ws_pool side) \<and> w < ws_fresh side"

lemma getWaiter_in:
  assumes "side_in side C c" "getWaiter pick side = (side', w)"
  shows "side_in side' C c" "owned side' w"
proof -
  have st: "side_state side (fst C) (snd C) c" "pool_ok side" using assms(1) by (simp_all add: side_in_def)
  have "side_in side' C c \<and> owned side' w"
  proof (cases "\<exists>i. pick = Some i \<and> i < length (ws_pool side)")
    case True
    then obtain i where i: "pick = Some i" "i < length (ws_pool side)" by blast
    let ?pool = "take i (ws_pool side) @ drop (i + 1) (ws_pool side)"
    have p: "ws_pool side = take i (ws_pool side) @ ws_pool side ! i # drop (i + 1) (ws_pool side)"
      using i(2) by (simp add: id_take_nth_drop)
    have "distinct (ws_pool side)" using st(2) by (simp add: pool_ok_def)
    then have "ws_pool side ! i \<notin> set ?pool" "distinct ?pool" "set ?pool \<subseteq> set (ws_pool side)"
      using p by (metis distinct.simps(2) distinct_append not_distinct_conv_prefix set_append Un_iff disjoint_insert(1) inf_commute list.set(2) insert_iff,
          metis p distinct_append distinct.simps(2) list.set(2) disjoint_insert(1),
          auto dest: in_set_takeD in_set_dropD)
    moreover have "side' = side\<lparr>ws_pool := ?pool\<rparr>" "w = ws_pool side ! i" using assms(2) i by (simp_all add: getWaiter_def)
    moreover have "w \<in> set (ws_pool side)" using i \<open>w = _\<close> by simp
    ultimately show ?thesis using st
      by (auto simp: side_in_def side_state_def pool_ok_def owned_def clean_def wait_list_def)
  next
    case False
    then have "getWaiter pick side = newWaiter side" by (auto simp: getWaiter_def split: option.splits)
    then have n: "side' = side\<lparr>ws_heap := (ws_heap side)(ws_fresh side := zero_waiter), ws_fresh := ws_fresh side + 1\<rparr>"
      "w = ws_fresh side" using assms(2) by (simp_all add: newWaiter_def)
    have "ws_heap side (ws_fresh side) = zero_waiter" using st(2) by (simp add: pool_ok_def clean_def)
    then have "(ws_heap side)(ws_fresh side := zero_waiter) = ws_heap side" by (simp add: fun_upd_idem)
    with n st show ?thesis
      by (auto simp: side_in_def side_state_def pool_ok_def owned_def clean_def wait_list_def)
  qed
  then show "side_in side' C c" "owned side' w" by blast+
qed

lemma putWaiter_in: "side_in side C c \<Longrightarrow> owned side w \<Longrightarrow> side_in (putWaiter side w) C c"
  by (auto simp: side_in_def putWaiter_def pool_ok_def owned_def side_state_def wait_list_def clean_def)

lemma enlist_frame: "enlist side w pos = ret b side' \<Longrightarrow> ws_pool side' = ws_pool side \<and> ws_fresh side' = ws_fresh side"
  by (subst (asm) enlist.simps) (auto simp: enlistAttempt_def compareAndSwap_def split: if_splits)

lemma enlist_in:
  assumes "side_in side C c" "0 < fst C" "owned side w" "length (snd C) + 1 < 2 ^ 31"
  shows "\<exists>side'. enlist side w pos = ret c side' \<and> side_in side' (if c then C else (fst C - 1, enlisted pos w (snd C))) c
    \<and> w \<notin> set (ws_pool side') \<and> w < ws_fresh side' \<and> (c \<longrightarrow> side' = side)"
proof -
  have st: "side_state side (fst C) (snd C) c" "pool_ok side" using assms(1) by (simp_all add: side_in_def)
  obtain side' where e: "enlist side w pos = ret c side'" "if c then side' = side
       else side_state side' (fst C - 1) (enlisted pos w (snd C)) c
         \<and> (\<forall>d. d \<notin> set (enlisted pos w (snd C)) \<longrightarrow> ws_heap side' d = ws_heap side d)"
    using enlist_ok [OF st(1) assms(2) _ assms(4), of w pos] assms(3) by (auto simp: owned_def)
  note f = enlist_frame [OF e(1)]
  have "d \<notin> set (enlisted pos w (snd C))" if "d \<in> set (ws_pool side) \<or> ws_fresh side \<le> d" for d
    using that st(2) assms(3) listed_not_clean [OF st(1), of d] by (auto simp: pool_ok_def owned_def)
  then have "\<not> c \<Longrightarrow> pool_ok side'" using e(2) f st(2) by (auto simp: pool_ok_def clean_def)
  with e f assms(1,3) show ?thesis by (auto simp: side_in_def owned_def)
qed

lemma leaveList_in:
  assumes "side_in side (P, ys @ w # zs) c" "w \<notin> set (ws_pool side)" "w < ws_fresh side"
  shows "\<exists>side'. (\<forall>cleanup (e :: 'e) mv. leaveListWith cleanup e side w mv =
      (if mv then cleanup e side' (ws_word side') else ret False (e, side')))
    \<and> side_in side' (P, ys @ zs) c \<and> owned side' w"
proof -
  have st: "side_state side P (ys @ w # zs) c" "pool_ok side" using assms(1) by (simp_all add: side_in_def)
  obtain side' where u: "unpark (unlink side w) = ret () side'" "side_state side' P (ys @ zs) c" "clean side' w"
    "\<forall>d. d \<notin> set (ys @ w # zs) \<longrightarrow> ws_heap side' d = ws_heap side d"
    using unpark_unlink_ok [OF st(1)] by (elim exE conjE) (rule that)
  have f: "ws_pool side' = ws_pool side" "ws_fresh side' = ws_fresh side"
    using u(1) by (subst (asm) unpark.simps, auto simp: unparkAttempt_def compareAndSwap_def split: if_splits)+
  have "d \<notin> set (ys @ w # zs)" if "d \<in> set (ws_pool side) \<or> ws_fresh side \<le> d" for d
    using that st(2) listed_not_clean [OF st(1), of d] by (auto simp: pool_ok_def)
  then have "pool_ok side'" using u(4) f st(2) by (auto simp: pool_ok_def clean_def)
  moreover have "wt_listed (ws_heap side w)" using st(1) by (simp add: side_state_def wait_list_def)
  then have "leaveListWith cleanup e side w mv = (if mv then cleanup e side' (ws_word side') else ret False (e, side'))" for cleanup and e :: 'e and mv
    using u(1) by (simp add: leaveListWith_def)
  ultimately show ?thesis using u f assms(2,3) unfolding side_in_def owned_def
    by (intro exI [of _ side'] conjI allI) simp_all
qed

section \<open>Leaving the wait\<close>

lemma replenishConsumers_ok:
  assumes "side_in side C c" "engine_inv e" "engine_fits e n" "settings_ok st"
  shows "\<exists>r e' side' k. replenishConsumers (sg_cap st) (sg_receive st) e side (ws_word side) = ret r (e', side')
    \<and> engine_kept e n e' (engine_contents e) \<and> woken side C k side' c
    \<and> (engine_contents e = [] \<longrightarrow> k = 0) \<and> (engine_contents e \<noteq> [] \<longrightarrow> snd C = [] \<or> 0 < fst C + k)"
proof -
  note w = side_in_word [OF assms(1)]
  let ?cap = "sg_cap st" and ?w = "ws_word side" and ?xs = "engine_contents e"
  have keep: "engine_kept e n e ?xs" using assms(2,3) by (simp add: engine_kept_def)
  note stay = woken_refl [OF assms(1)]
  consider (skip) "snd C = [] \<or> sideWord_pollers ?w \<ge> ?cap" | (one) "snd C \<noteq> []" "\<not> sideWord_pollers ?w \<ge> ?cap" "?cap = 1"
    | (group) "snd C \<noteq> []" "\<not> sideWord_pollers ?w \<ge> ?cap" "?cap \<noteq> 1" by blast
  then show ?thesis
  proof cases
    case skip
    then have "snd C = [] \<or> 0 < fst C" using w(4) assms(4) by (auto simp: settings_ok_def word_le_nat_alt)
    with skip w(2) keep stay show ?thesis
      by (intro exI [of _ False] exI [of _ e] exI [of _ side] exI [of _ 0]) (auto simp: replenishConsumers_def)
  next
    case one
    obtain e' where e': "peekItems e = Some (e', ?xs \<noteq> [])" "engine_kept e n e' ?xs"
      using available_ok [OF assms(2,3)] by (auto simp: peekItems_def)
    let ?k = "if fst C = 0 \<and> snd C \<noteq> [] then 1 else 0 :: nat"
    obtain side' where s: "wakeOne side = ret (0 < ?k) side'" "woken side C ?k side' c"
      using wakeOne_woken [OF assms(1)] by blast
    have "replenishConsumers ?cap (sg_receive st) e side ?w = (if ?xs \<noteq> [] then ret (0 < ?k) (e', side') else ret False (e', side))"
      using one w(2) e'(1) s(1) by (simp add: replenishConsumers_def beside_def)
    with one(1) e'(2) s(2) stay show ?thesis
      by (cases "?xs = []"; cases "fst C = 0") (auto intro!: exI [of _ e'] exI [of _ side] exI [of _ side'] exI [of _ ?k])
  next
    case group
    let ?t = "consumerTargetOf ?cap (sg_receive st) (int (length ?xs))"
    obtain e' where e': "consumerTarget ?cap (sg_receive st) e = Some (e', ?t)" "engine_kept e n e' ?xs"
      using consumerTarget_ok [OF assms(2,3)] by blast
    let ?k = "min (length (snd C)) (unat ?t - fst C)"
    obtain side' where s: "wakeGroup side ?t = ret (0 < ?k) side'" "woken side C ?k side' c"
      using wakeGroup_woken [OF assms(1) target_bounds(1) [OF assms(4)]] by blast
    have eq: "replenishConsumers ?cap (sg_receive st) e side ?w =
        (if sideWord_pollers ?w < ?t then ret (0 < ?k) (e', side') else ret False (e', side))"
      using group w(2) e'(1) s(1) by (simp add: replenishConsumers_def beside_def)
    have t: "?xs = [] \<Longrightarrow> unat ?t = 0" "?xs \<noteq> [] \<Longrightarrow> 0 < unat ?t"
      using consumerTargetOf_bounds(1) [of "int (length ?xs)" "sg_receive st" ?cap] assms(4)
      by (auto simp: consumerTargetOf_def settings_ok_def)
    show ?thesis
    proof (cases "sideWord_pollers ?w < ?t")
      case True
      then have "fst C < unat ?t" using w(4) by (simp add: word_less_nat_alt)
      with True eq e'(2) s(2) t group(1) show ?thesis
        by (intro exI [of _ "0 < ?k"] exI [of _ e'] exI [of _ side'] exI [of _ ?k]) auto
    next
      case False
      then have "unat ?t \<le> fst C" using w(4) by (simp add: word_less_nat_alt)
      with False eq e'(2) stay t show ?thesis
        by (intro exI [of _ False] exI [of _ e'] exI [of _ side] exI [of _ 0]) auto
    qed
  qed
qed

lemma wq_at_consumers_engine:
  assumes "wq_at st q n xs c C P" "engine_kept (wq_engine q) n e xs" "side_in side C' c"
  shows "wq_at st (q\<lparr>wq_engine := e, wq_consumers := side\<rparr>) n xs c C' P"
  using assms by (auto simp: wq_at_def settings_of_def engine_kept_def)

lemma wq_at_producers_engine:
  assumes "wq_at st q n xs c C P" "engine_kept (wq_engine q) n e xs" "side_in side P' c"
  shows "wq_at st (q\<lparr>wq_engine := e, wq_producers := side\<rparr>) n xs c C P'"
  using assms by (auto simp: wq_at_def settings_of_def engine_kept_def)

text \<open>\<open>C\<close> minus the caller's own registration, then whoever its cleanup woke.\<close>

lemma leaveConsumerPolling_ok:
  assumes at: "wq_at st q n xs c C P" and pos: "0 < fst C"
  shows "\<exists>r q' k. leaveConsumerPolling q = ret r q' \<and> wq_at st q' n xs c (fst C - 1 + k, drop k (snd C)) P
    \<and> k \<le> length (snd C) \<and> (xs = [] \<longrightarrow> k = 0) \<and> (xs \<noteq> [] \<longrightarrow> snd C = [] \<or> 0 < fst C - 1 + k)"
proof -
  let ?left = "side_word (fst C - 1) (length (snd C)) c"
  let ?side = "(wq_consumers q)\<lparr>ws_word := ?left\<rparr>"
  have s: "side_state (wq_consumers q) (fst C) (snd C) c" "pool_ok (wq_consumers q)"
    and e: "engine_inv (wq_engine q)" "engine_fits (wq_engine q) n" "engine_contents (wq_engine q) = xs" and ok: "settings_ok st"
    and cap: "wq_consumerWakeCap q = sg_cap st" "wq_maxReceiveBatch q = sg_receive st"
    using at by (auto simp: wq_at_def side_in_def settings_of_def)
  have side: "side_in ?side (fst C - 1, snd C) c"
    using leavePollingWith_ok(2) [OF s(1) pos] s(2) by (simp add: side_in_def pool_ok_def clean_def)
  obtain r e' side' k where r: "replenishConsumers (sg_cap st) (sg_receive st) (wq_engine q) ?side (ws_word ?side) = ret r (e', side')"
    "engine_kept (wq_engine q) n e' xs" "woken ?side (fst C - 1, snd C) k side' c"
    "xs = [] \<longrightarrow> k = 0" "xs \<noteq> [] \<longrightarrow> snd C = [] \<or> 0 < fst C - 1 + k"
    using replenishConsumers_ok [OF side e(1,2) ok, unfolded e(3) fst_conv snd_conv] by (elim exE conjE) (rule that)
  have "leaveConsumerPolling q = ret r (q\<lparr>wq_engine := e', wq_consumers := side'\<rparr>)"
    using leavePollingWith_ok(1) [OF s(1) pos, of "replenishConsumers (sg_cap st) (sg_receive st)" "wq_engine q"] r(1)
    by (simp add: leaveConsumerPolling_def on_consumers_with_def cap)
  moreover have "wq_at st (q\<lparr>wq_engine := e', wq_consumers := side'\<rparr>) n xs c (fst C - 1 + k, drop k (snd C)) P"
    using wq_at_consumers_engine [OF at r(2)] r(3) by (simp add: woken_def)
  ultimately show ?thesis using r(3-5) unfolding woken_def by (intro exI [of _ r] exI [of _ "q\<lparr>wq_engine := e', wq_consumers := side'\<rparr>"] exI [of _ k]) simp
qed

lemma leaveProducerPolling_ok:
  assumes at: "wq_at st q n xs c C P" and pos: "0 < fst P"
  shows "\<exists>r q' k. leaveProducerPolling q = ret r q' \<and> wq_at st q' n xs c C (fst P - 1 + k, drop k (snd P))
    \<and> k \<le> length (snd P) \<and> (length xs = qc_cap (sg_conf st) \<longrightarrow> k = 0) \<and> (length xs < qc_cap (sg_conf st) \<longrightarrow> snd P = [] \<or> 0 < fst P - 1 + k)"
proof -
  let ?left = "side_word (fst P - 1) (length (snd P)) c"
  let ?side = "(wq_producers q)\<lparr>ws_word := ?left\<rparr>" and ?D = "(fst P - 1, snd P)"
  have s: "side_state (wq_producers q) (fst P) (snd P) c" "pool_ok (wq_producers q)"
    and e: "engine_inv (wq_engine q)" "engine_fits (wq_engine q) n" "engine_contents (wq_engine q) = xs"
      "engine_conf (wq_engine q) = sg_conf st"
    using at by (auto simp: wq_at_def side_in_def settings_of_def)
  have side: "side_in ?side ?D c"
    using leavePollingWith_ok(2) [OF s(1) pos] s(2) by (simp add: side_in_def pool_ok_def clean_def)
  note w = side_in_word [OF side]
  obtain e' where e': "peekRoom (wq_engine q) = Some (e', length xs < qc_cap (sg_conf st))" "engine_kept (wq_engine q) n e' xs"
    using peekRoom_ok [OF e(1,2)] unfolding e(3,4) by blast
  let ?k = "if fst ?D = 0 \<and> snd ?D \<noteq> [] then 1 else 0 :: nat"
  obtain side' where w1: "wakeOne ?side = ret (0 < ?k) side'" "woken ?side ?D ?k side' c"
    using wakeOne_woken [OF side] by blast
  have eq: "leaveProducerPolling q = (if sideWord_needsWake (ws_word ?side)
      then (if length xs < qc_cap (sg_conf st) then ret (0 < ?k) (q\<lparr>wq_engine := e', wq_producers := side'\<rparr>)
            else ret False (q\<lparr>wq_engine := e', wq_producers := ?side\<rparr>))
      else ret False (q\<lparr>wq_producers := ?side\<rparr>))"
    using leavePollingWith_ok(1) [OF s(1) pos, of "peek_and_wake peekRoom" "wq_engine q"] e'(1) w1(1)
    by (simp add: leaveProducerPolling_def leavePolling_def on_producers_with_def peek_and_wake_def)
  have stay: "wq_at st (q\<lparr>wq_producers := ?side\<rparr>) n xs c C ?D" by (rule wq_at_producers [OF at side])
  have stay': "wq_at st (q\<lparr>wq_engine := e', wq_producers := ?side\<rparr>) n xs c C ?D"
    by (rule wq_at_producers_engine [OF at e'(2) side])
  have go: "wq_at st (q\<lparr>wq_engine := e', wq_producers := side'\<rparr>) n xs c C (fst ?D + ?k, drop ?k (snd ?D))"
    using wq_at_producers_engine [OF at e'(2)] w1(2) by (simp add: woken_def)
  show ?thesis
  proof (cases "fst ?D = 0 \<and> snd ?D \<noteq> []")
    case True
    then have n: "sideWord_needsWake (ws_word ?side)" "?k = 1" using w(3) by simp_all
    show ?thesis
    proof (cases "length xs < qc_cap (sg_conf st)")
      case room: True
      then show ?thesis using eq n go True
        by (intro exI [of _ True] exI [of _ "q\<lparr>wq_engine := e', wq_producers := side'\<rparr>"] exI [of _ 1]) (simp add: Suc_le_eq)
    next
      case False
      then show ?thesis using eq n stay'
        by (intro exI [of _ False] exI [of _ "q\<lparr>wq_engine := e', wq_producers := ?side\<rparr>"] exI [of _ 0]) simp
    qed
  next
    case False
    then have "\<not> sideWord_needsWake (ws_word ?side)" using w(3) by simp
    with False eq stay show ?thesis
      by (intro exI [of _ False] exI [of _ "q\<lparr>wq_producers := ?side\<rparr>"] exI [of _ 0]) auto
  qed
qed

section \<open>A consumer that waits for items\<close>

lemma others_nil [simp]: "wk_script s = [] \<Longrightarrow> others s = s"
  by (simp add: others_def)

lemma with_queue_ret: "wk_script s = [] \<Longrightarrow> f (wk_queue s) = ret r q \<Longrightarrow> with_queue f s = ret r (s\<lparr>wk_queue := q\<rparr>)"
  by (simp add: with_queue_def)

lemma look_at_idle [simp]: "wk_script s = [] \<Longrightarrow> look_at g s = ret (g (wk_queue s)) s"
  by (simp add: with_queue_def)

lemma Gosched_idle [simp]: "wk_script s = [] \<Longrightarrow> Gosched s = s"
  by (simp add: Gosched_def)

text \<open>What looking at a context does to it, and what it keeps of it.\<close>

definition looked :: "ctx \<Rightarrow> ctx" where
  "looked cx = cx\<lparr>cx_left := map_option (\<lambda>n. n - 1) (cx_left cx)\<rparr>"

definition ctx_later :: "ctx \<Rightarrow> ctx \<Rightarrow> bool" where
  "ctx_later cx cx' \<longleftrightarrow> cx_err cx' = cx_err cx \<and> (cx_left cx' = None \<longleftrightarrow> cx_left cx = None)"

lemma ctx_later_refl [simp]: "ctx_later cx cx" and ctx_later_looked [simp]: "ctx_later cx (looked cx)"
  by (simp_all add: ctx_later_def looked_def)

lemma looked_simps [simp]: "cx_err (looked cx) = cx_err cx" "cx_left (looked cx) = None \<longleftrightarrow> cx_left cx = None"
  by (simp_all add: looked_def)

lemma ctx_later_trans: "ctx_later a b \<Longrightarrow> ctx_later b d \<Longrightarrow> ctx_later a d"
  by (simp add: ctx_later_def)

lemma isDone_eq: "isDone s = ret (cx_left (wk_ctx s) = Some 0) (s\<lparr>wk_ctx := looked (wk_ctx s)\<rparr>)"
  by (cases "cx_left (wk_ctx s)") (auto simp: isDone_def looked_def split: nat.splits)

definition gave_up :: "'a list \<Rightarrow> 'a work \<Rightarrow> 'a received" where
  "gave_up dst s = (0, dst, Some (ctx_Err s))"

lemma dequeue_empty:
  assumes "wq_at st q n [] c C P" "dst \<noteq> []" "length dst \<le> qc_maxD (sg_conf st)"
  shows "\<exists>q'. dequeueAttempt dst q = ret (0, dst) q' \<and> wq_at st q' n [] c C P"
  using dequeueAttempt_ok [OF assms] by simp

lemma spinForItems_from_idle:
  assumes "wq_at st (wk_queue s) n [] False C P" "dst \<noteq> []" "length dst \<le> qc_maxD (sg_conf st)" "wk_script s = []"
  shows "\<exists>r s'. spinForItems_from dst poll left s = ret r s' \<and> wq_at st (wk_queue s') n [] False C P
    \<and> wk_script s' = [] \<and> ctx_later (wk_ctx s) (wk_ctx s')
    \<and> (r = None \<or> r = Some (gave_up dst s) \<and> cx_left (wk_ctx s) \<noteq> None)"
  using assms(1,4)
proof (induction left arbitrary: poll s)
  case 0
  then show ?case by (auto intro!: exI [of _ None] exI [of _ s])
next
  case (Suc left)
  define s1 where "s1 = (if poll mod contextCheckInterval = 0 then s\<lparr>wk_ctx := looked (wk_ctx s)\<rparr> else s)"
  let ?over = "poll mod contextCheckInterval = 0 \<and> cx_left (wk_ctx s) = Some 0"
  have look: "(if poll mod contextCheckInterval = 0 then isDone s else ret False s) = ret ?over s1"
    by (simp add: isDone_eq s1_def)
  have s1: "wk_queue s1 = wk_queue s" "wk_script s1 = []" "ctx_later (wk_ctx s) (wk_ctx s1)" "cx_err (wk_ctx s1) = cx_err (wk_ctx s)"
    using Suc.prems(2) by (simp_all add: s1_def)
  show ?case
  proof (cases ?over)
    case True
    have "spinForItems_from dst poll (Suc left) s = ret (Some (gave_up dst s)) s1"
      using True Suc.prems look s1(4) by (simp add: gave_up_def ctx_Err_def)
    then show ?thesis using True Suc.prems s1 by (intro exI [of _ "Some (gave_up dst s)"] exI [of _ s1]) simp
  next
    case False
    obtain q' where q': "dequeueAttempt dst (wk_queue s1) = ret (0, dst) q'" "wq_at st q' n [] False C P"
      using dequeue_empty [OF Suc.prems(1) assms(2,3)] s1(1) by auto
    let ?s = "s1\<lparr>wk_queue := q'\<rparr>"
    have step: "spinForItems_from dst poll (Suc left) s = spinForItems_from dst (Suc poll) left ?s"
      using False Suc.prems look with_queue_ret [where f = "dequeueAttempt dst", OF s1(2) q'(1)] by auto
    obtain r s' where r: "spinForItems_from dst (Suc poll) left ?s = ret r s'" "wq_at st (wk_queue s') n [] False C P"
      "wk_script s' = []" "ctx_later (wk_ctx ?s) (wk_ctx s')" "r = None \<or> r = Some (gave_up dst ?s) \<and> cx_left (wk_ctx ?s) \<noteq> None"
      using Suc.IH [of ?s "Suc poll"] q'(2) s1(2) by (auto simp del: spinForItems_from.simps)
    have "gave_up dst ?s = gave_up dst s" using s1(4) by (simp add: gave_up_def ctx_Err_def)
    then show ?thesis using step r s1 ctx_later_trans [OF s1(3)]
      by (intro exI [of _ r] exI [of _ s']) (auto simp: ctx_later_def)
  qed
qed

lemma spinForItems_idle:
  assumes "wq_at st (wk_queue s) n [] False C P" "dst \<noteq> []" "length dst \<le> qc_maxD (sg_conf st)" "wk_script s = []"
  shows "\<exists>r s'. spinForItems dst s = ret r s' \<and> wq_at st (wk_queue s') n [] False C P
    \<and> wk_script s' = [] \<and> ctx_later (wk_ctx s) (wk_ctx s')
    \<and> (r = None \<or> r = Some (gave_up dst s) \<and> cx_left (wk_ctx s) \<noteq> None)"
  unfolding spinForItems_def by (rule spinForItems_from_idle [OF assms])

lemma pollRegistered_idle:
  assumes "wq_at st (wk_queue s) n [] False C P" "0 < fst C" "dst \<noteq> []" "length dst \<le> qc_maxD (sg_conf st)" "wk_script s = []"
  defines "over \<equiv> cx_left (wk_ctx s) = Some 0"
  shows "\<exists>s'. pollRegistered dst s = ret (if over then Some (gave_up dst s) else None) s'
    \<and> wq_at st (wk_queue s') n [] False (if over then (fst C - 1, snd C) else C) P
    \<and> wk_script s' = [] \<and> wk_ctx s' = looked (wk_ctx s)"
proof -
  obtain q' where q': "dequeueAttempt dst (wk_queue s) = ret (0, dst) q'" "wq_at st q' n [] False C P"
    using dequeue_empty [OF assms(1,3,4)] by blast
  let ?s = "s\<lparr>wk_queue := q', wk_ctx := looked (wk_ctx s)\<rparr>"
  have eq: "pollRegistered dst s = (if over
      then and_then (with_queue leaveConsumerPolling ?s) (\<lambda>_ s3. ret (Some (0, dst, Some (ctx_Err s3))) s3) else ret None ?s)"
    using assms(1,5) q' with_queue_ret [where f = "dequeueAttempt dst", OF assms(5) q'(1)]
    by (simp add: pollRegistered_def isDone_eq over_def)
  obtain b q2 where q2: "leaveConsumerPolling q' = ret b q2" "wq_at st q2 n [] False (fst C - 1, snd C) P"
    using leaveConsumerPolling_ok [OF q'(2) assms(2)] by auto
  have "with_queue leaveConsumerPolling ?s = ret b (?s\<lparr>wk_queue := q2\<rparr>)"
    using with_queue_ret [of ?s leaveConsumerPolling] q2(1) assms(5) by simp
  then show ?thesis using eq q'(2) q2(2) assms(5)
    by (intro exI [of _ "if over then ?s\<lparr>wk_queue := q2\<rparr> else ?s"]) (simp add: gave_up_def ctx_Err_def looked_def)
qed

lemma yieldForItems_from_idle:
  assumes "wq_at st (wk_queue s) n [] False C P" "0 < fst C" "dst \<noteq> []" "length dst \<le> qc_maxD (sg_conf st)" "wk_script s = []"
  shows "\<exists>r s'. yieldForItems_from dst poll left s = ret r s' \<and> wk_script s' = [] \<and> ctx_later (wk_ctx s) (wk_ctx s')
    \<and> (r = None \<and> wq_at st (wk_queue s') n [] False C P
      \<or> r = Some (gave_up dst s) \<and> cx_left (wk_ctx s) \<noteq> None \<and> wq_at st (wk_queue s') n [] False (fst C - 1, snd C) P)"
  using assms(1,5)
proof (induction left arbitrary: poll s)
  case 0
  then show ?case by (intro exI [of _ None] exI [of _ s]) simp
next
  case (Suc left)
  have g: "(if poll > 0 then Gosched s else s) = s" using Suc.prems(2) by simp
  let ?over = "cx_left (wk_ctx s) = Some 0"
  obtain s1 where s1: "pollRegistered dst s = ret (if ?over then Some (gave_up dst s) else None) s1"
    "wq_at st (wk_queue s1) n [] False (if ?over then (fst C - 1, snd C) else C) P" "wk_script s1 = []" "wk_ctx s1 = looked (wk_ctx s)"
    using pollRegistered_idle [OF Suc.prems(1) assms(2-4) Suc.prems(2)] by auto
  show ?case
  proof (cases ?over)
    case True
    then show ?thesis using s1 by (intro exI [of _ "Some (gave_up dst s)"] exI [of _ s1]) (simp add: g del: not_None_eq)
  next
    case False
    then have at1: "wq_at st (wk_queue s1) n [] False C P" using s1(2) by simp
    have step: "yieldForItems_from dst poll (Suc left) s = yieldForItems_from dst (Suc poll) left s1"
      using False s1(1) by (simp add: g)
    obtain r s' where r: "yieldForItems_from dst (Suc poll) left s1 = ret r s'" "wk_script s' = []" "ctx_later (wk_ctx s1) (wk_ctx s')"
      "r = None \<and> wq_at st (wk_queue s') n [] False C P
        \<or> r = Some (gave_up dst s1) \<and> cx_left (wk_ctx s1) \<noteq> None \<and> wq_at st (wk_queue s') n [] False (fst C - 1, snd C) P"
      using Suc.IH [OF at1 s1(3), of "Suc poll"] by (elim exE conjE) (rule that)
    have "gave_up dst s1 = gave_up dst s" "cx_left (wk_ctx s1) \<noteq> None \<longleftrightarrow> cx_left (wk_ctx s) \<noteq> None"
      using s1(4) by (auto simp: gave_up_def ctx_Err_def looked_def)
    then show ?thesis using step r s1(4) by (intro exI [of _ r] exI [of _ s']) (auto simp: ctx_later_def)
  qed
qed

lemma yieldForItems_idle:
  assumes "wq_at st (wk_queue s) n [] False C P" "0 < fst C" "dst \<noteq> []" "length dst \<le> qc_maxD (sg_conf st)" "wk_script s = []"
  shows "\<exists>r s'. yieldForItems dst wkn s = ret r s' \<and> wk_script s' = [] \<and> ctx_later (wk_ctx s) (wk_ctx s')
    \<and> (r = None \<and> wq_at st (wk_queue s') n [] False C P
      \<or> r = Some (gave_up dst s) \<and> cx_left (wk_ctx s) \<noteq> None \<and> wq_at st (wk_queue s') n [] False (fst C - 1, snd C) P)"
  unfolding yieldForItems_def Let_def by (rule yieldForItems_from_idle [OF assms])

lemma pollWithoutParking_idle:
  assumes "wq_at st (wk_queue s) n [] False C P" "0 < fst C" "dst \<noteq> []" "length dst \<le> qc_maxD (sg_conf st)"
    "wk_script s = []" "cx_left (wk_ctx s) = Some k"
  shows "\<exists>s'. pollWithoutParking dst s = ret (gave_up dst s) s' \<and> wk_script s' = [] \<and> ctx_later (wk_ctx s) (wk_ctx s')
    \<and> wq_at st (wk_queue s') n [] False (fst C - 1, snd C) P"
  using assms(1,5,6)
proof (induction k arbitrary: s)
  case 0
  obtain s1 where "pollRegistered dst s = ret (Some (gave_up dst s)) s1"
    "wq_at st (wk_queue s1) n [] False (fst C - 1, snd C) P" "wk_script s1 = []" "wk_ctx s1 = looked (wk_ctx s)"
    using pollRegistered_idle [OF 0(1) assms(2-4) 0(2)] 0(3) by auto
  then show ?case by (subst pollWithoutParking.simps) (intro exI [of _ s1], simp)
next
  case (Suc k)
  obtain s1 where s1: "pollRegistered dst s = ret None s1" "wq_at st (wk_queue s1) n [] False C P" "wk_script s1 = []"
    "wk_ctx s1 = looked (wk_ctx s)"
    using pollRegistered_idle [OF Suc.prems(1) assms(2-4) Suc.prems(2)] Suc.prems(3) by auto
  have g: "Gosched s1 = s1" using s1(3) by simp
  have "cx_left (wk_ctx s1) = Some k" using s1(4) Suc.prems(3) by (simp add: looked_def)
  then obtain s' where r: "pollWithoutParking dst s1 = ret (gave_up dst s1) s'" "wk_script s' = []" "ctx_later (wk_ctx s1) (wk_ctx s')"
    "wq_at st (wk_queue s') n [] False (fst C - 1, snd C) P"
    using Suc.IH [OF s1(2,3)] by (elim meta_impE exE conjE) (auto intro: that)
  have "gave_up dst s1 = gave_up dst s" using s1(4) by (simp add: gave_up_def ctx_Err_def)
  moreover have "pollWithoutParking dst s = pollWithoutParking dst (Gosched s1)"
    using s1(1) by (subst pollWithoutParking.simps) simp
  ultimately show ?case using r s1(4) unfolding g by (intro exI [of _ s']) (auto simp: ctx_later_def)
qed

text \<open>With a context that is never done it polls for ever.\<close>

lemma pollWithoutParking_never:
  assumes "wq_at st (wk_queue s) n [] False C P" "0 < fst C" "dst \<noteq> []" "length dst \<le> qc_maxD (sg_conf st)"
    "wk_script s = []" "cx_left (wk_ctx s) = None"
  shows "pollWithoutParking dst s = None"
proof (rule ccontr)
  assume "pollWithoutParking dst s \<noteq> None"
  then obtain out where "pollWithoutParking dst s = Some out" by blast
  then have "\<not> (wq_at st (wk_queue s) n [] False C P \<and> dst \<noteq> [] \<and> length dst \<le> qc_maxD (sg_conf st)
      \<and> wk_script s = [] \<and> cx_left (wk_ctx s) = None)"
  proof (rule pollWithoutParking.raw_induct [rotated], goal_cases)
    case (1 f dst s out)
    show ?case
    proof
      assume a: "wq_at st (wk_queue s) n [] False C P \<and> dst \<noteq> [] \<and> length dst \<le> qc_maxD (sg_conf st)
        \<and> wk_script s = [] \<and> cx_left (wk_ctx s) = None"
      then obtain s1 where s1: "pollRegistered dst s = ret None s1" "wq_at st (wk_queue s1) n [] False C P" "wk_script s1 = []"
        "wk_ctx s1 = looked (wk_ctx s)"
        using pollRegistered_idle [of st s n C P dst] assms(2) by auto
      then have "f dst s1 = Some out" using 1(2) by simp
      from 1(1) [OF this] a s1(2-4) show False by simp
    qed
  qed
  with assms show False by simp
qed

lemma finally_do_ret [simp]: "finally_do f (ret r s) = ret r (f s)" "finally_do f None = None"
  by (simp_all add: finally_do_def)

lemma update_consumers_frame [simp]:
  "wk_ctx (update_consumers f s) = wk_ctx s" "wk_script (update_consumers f s) = wk_script s"
  "wq_consumers (wk_queue (update_consumers f s)) = f (wq_consumers (wk_queue s))"
  by (simp_all add: update_consumers_def)

lemma wq_at_update_consumers:
  "wq_at st (wk_queue s) n xs c C P \<Longrightarrow> side_in (f (wq_consumers (wk_queue s))) C' c \<Longrightarrow>
     wq_at st (wk_queue (update_consumers f s)) n xs c C' P"
  by (simp add: update_consumers_def wq_at_consumers)

text \<open>Nobody to wake the parked caller: only its context ends the wait.\<close>

lemma park_select_idle:
  assumes "\<not> wt_token (ws_heap (side (wk_queue s)) w)" "\<not> wq_done (wk_queue s)" "wk_script s = []"
  shows "park_select side sel w s = (if cx_left (wk_ctx s) = None then None
    else ret ParkContext (s\<lparr>wk_ctx := (wk_ctx s)\<lparr>cx_left := Some 0\<rparr>\<rparr>))"
  using assms by (subst park_select.simps) (auto simp: ready_cases_def Let_def)

lemma no_token: "side_in side (P, ys @ w # zs) c \<Longrightarrow> \<not> wt_token (ws_heap side w)"
  by (simp add: side_in_def side_state_def)

lemma parked_consumer:
  assumes "wq_at st (wk_queue s) n [] False C P" "0 < fst C" "owned (wq_consumers (wk_queue s)) w" "length (snd C) + 1 < 2 ^ 31"
    "dst \<noteq> []" "length dst \<le> qc_maxD (sg_conf st)" "wk_script s = []"
  shows "\<exists>s1 s2. with_queue (on_consumers (\<lambda>side. enlist side w atNewest)) s = ret False s1
    \<and> with_queue (dequeueAttempt dst) s1 = ret (0, dst) s2 \<and> wk_ctx s2 = wk_ctx s \<and> wk_script s2 = []
    \<and> wq_at st (wk_queue s2) n [] False (fst C - 1, snd C @ [w]) P
    \<and> w \<notin> set (ws_pool (wq_consumers (wk_queue s2))) \<and> w < ws_fresh (wq_consumers (wk_queue s2))"
proof -
  have side: "side_in (wq_consumers (wk_queue s)) C False" using assms(1) by (simp add: wq_at_def)
  obtain side' where e: "enlist (wq_consumers (wk_queue s)) w atNewest = ret False side'"
    "side_in side' (fst C - 1, snd C @ [w]) False" "w \<notin> set (ws_pool side')" "w < ws_fresh side'"
    using enlist_in [OF side assms(2-4), of atNewest] by (auto simp: enlisted_def)
  let ?q1 = "(wk_queue s)\<lparr>wq_consumers := side'\<rparr>"
  have at1: "wq_at st ?q1 n [] False (fst C - 1, snd C @ [w]) P" by (rule wq_at_consumers [OF assms(1) e(2)])
  obtain q2 where q2: "dequeueAttempt dst ?q1 = ret (0, dst) q2" "wq_at st q2 n [] False (fst C - 1, snd C @ [w]) P"
    using dequeue_empty [OF at1 assms(5,6)] by blast
  have "with_queue (on_consumers (\<lambda>side. enlist side w atNewest)) s = ret False (s\<lparr>wk_queue := ?q1\<rparr>)"
    by (rule with_queue_ret [OF assms(7)], rule on_consumers_ret) (rule e(1))
  moreover have "with_queue (dequeueAttempt dst) (s\<lparr>wk_queue := ?q1\<rparr>) = ret (0, dst) (s\<lparr>wk_queue := q2\<rparr>)"
    using with_queue_ret [of "s\<lparr>wk_queue := ?q1\<rparr>" "dequeueAttempt dst"] q2(1) assms(7) by simp
  ultimately show ?thesis using q2(2) assms(7) attempts_frame(3) [OF q2(1)] e(3,4)
    by (intro exI [of _ "s\<lparr>wk_queue := ?q1\<rparr>"] exI [of _ "s\<lparr>wk_queue := q2\<rparr>"]) simp
qed

lemma leaveConsumerList_ok:
  assumes "wq_at st q n xs c (k, ys @ w # zs) P" "w \<notin> set (ws_pool (wq_consumers q))" "w < ws_fresh (wq_consumers q)"
  shows "\<exists>q'. leaveConsumerList w False q = ret False q' \<and> wq_at st q' n xs c (k, ys @ zs) P \<and> owned (wq_consumers q') w"
proof -
  have side: "side_in (wq_consumers q) (k, ys @ w # zs) c" using assms(1) by (simp add: wq_at_def)
  obtain side' where "leaveListWith (replenishConsumers (wq_consumerWakeCap q) (wq_maxReceiveBatch q)) (wq_engine q) (wq_consumers q) w False
      = ret False (wq_engine q, side')" "side_in side' (k, ys @ zs) c" "owned side' w"
    using leaveList_in [OF side assms(2,3), where 'e = "'a engine"] by auto
  with wq_at_consumers [OF assms(1)] show ?thesis
    by (intro exI [of _ "q\<lparr>wq_consumers := side'\<rparr>"]) (simp add: leaveConsumerList_def on_consumers_with_def)
qed

lemma parkForItems_as_idle:
  assumes "wq_at st (wk_queue s) n [] False C P" "0 < fst C" "owned (wq_consumers (wk_queue s)) w" "length (snd C) + 1 < 2 ^ 31"
    "dst \<noteq> []" "length dst \<le> qc_maxD (sg_conf st)" "wk_script s = []"
  shows "if cx_left (wk_ctx s) = None then parkForItems_as ch dst w s = None
    else \<exists>s'. parkForItems_as ch dst w s = ret (Some (gave_up dst s)) s' \<and> wk_script s' = [] \<and> ctx_later (wk_ctx s) (wk_ctx s')
      \<and> wq_at st (wk_queue s') n [] False (fst C - 1, snd C) P \<and> owned (wq_consumers (wk_queue s')) w"
proof -
  obtain s1 s2 where s: "with_queue (on_consumers (\<lambda>side. enlist side w atNewest)) s = ret False s1"
    "with_queue (dequeueAttempt dst) s1 = ret (0, dst) s2" "wk_ctx s2 = wk_ctx s" "wk_script s2 = []"
    "wq_at st (wk_queue s2) n [] False (fst C - 1, snd C @ [w]) P"
    "w \<notin> set (ws_pool (wq_consumers (wk_queue s2)))" "w < ws_fresh (wq_consumers (wk_queue s2))"
    using parked_consumer [OF assms(1-7)] by (elim exE conjE) (rule that)
  let ?s3 = "s2\<lparr>wk_ctx := (wk_ctx s)\<lparr>cx_left := Some 0\<rparr>\<rparr>"
  have "\<not> wt_token (ws_heap (wq_consumers (wk_queue s2)) w)" "\<not> wq_done (wk_queue s2)"
    using s(5) no_token [of "wq_consumers (wk_queue s2)" "fst C - 1" "snd C" w "[]"] by (auto simp: wq_at_def)
  then have sel: "park_select wq_consumers (pick_case ch) w s2 = (if cx_left (wk_ctx s) = None then None else ret ParkContext ?s3)"
    using park_select_idle [of wq_consumers s2 w] s(3,4) assms(7) by simp
  obtain q' where q': "leaveConsumerList w False (wk_queue s2) = ret False q'" "wq_at st q' n [] False (fst C - 1, snd C) P"
    "owned (wq_consumers q') w"
    using leaveConsumerList_ok [of st "wk_queue s2" n "[]" False "fst C - 1" "snd C" w "[]" P] s(5-7) by auto
  have leave: "with_queue (leaveConsumerList w False) ?s3 = ret False (?s3\<lparr>wk_queue := q'\<rparr>)"
    by (rule with_queue_ret) (simp_all add: q'(1) s(4))
  have "parkForItems_as ch dst w s = (if cx_left (wk_ctx s) = None then None
      else ret (Some (gave_up dst s)) (?s3\<lparr>wk_queue := q'\<rparr>))"
    using s(1,2,4) sel leave q'(2) by (simp add: parkForItems_as_def gave_up_def ctx_Err_def)
  then show ?thesis using q' s(4) assms(7) by (auto simp: ctx_later_def)
qed

lemma parkForItems_idle:
  assumes "wq_at st (wk_queue s) n [] False C P" "0 < fst C" "length (snd C) + 1 < 2 ^ 31"
    "dst \<noteq> []" "length dst \<le> qc_maxD (sg_conf st)" "wk_script s = []"
  shows "if cx_left (wk_ctx s) = None then parkForItems ch dst None s = None
    else \<exists>s'. parkForItems ch dst None s = ret (Some (gave_up dst s)) s' \<and> wk_script s' = [] \<and> ctx_later (wk_ctx s) (wk_ctx s')
      \<and> wq_at st (wk_queue s') n [] False (fst C - 1, snd C) P"
proof -
  obtain side w where g: "getWaiter (pick_pool ch) (wq_consumers (wk_queue s)) = (side, w)"
    by (cases "getWaiter (pick_pool ch) (wq_consumers (wk_queue s))")
  have in1: "side_in side C False" "owned side w"
    using getWaiter_in [OF _ g, of C False] assms(1) by (simp_all add: wq_at_def)
  let ?s = "update_consumers (\<lambda>_. side) s"
  have at1: "wq_at st (wk_queue ?s) n [] False C P" using wq_at_update_consumers [OF assms(1), of "\<lambda>_. side"] in1(1) by simp
  have eq: "parkForItems ch dst None s =
      finally_do (update_consumers (\<lambda>side. putWaiter side w)) (parkForItems_as ch dst w ?s)"
    by (simp add: parkForItems_def g)
  have "gave_up dst ?s = gave_up dst s" by (simp add: gave_up_def ctx_Err_def)
  note p = parkForItems_as_idle [OF at1 assms(2) _ assms(3-5), of w ch, unfolded this]
  show ?thesis
  proof (cases "cx_left (wk_ctx s) = None")
    case True
    then show ?thesis using p in1(2) assms(6) by (simp add: eq)
  next
    case False
    then obtain s' where s': "parkForItems_as ch dst w ?s = ret (Some (gave_up dst s)) s'" "wk_script s' = []"
      "ctx_later (wk_ctx s) (wk_ctx s')" "wq_at st (wk_queue s') n [] False (fst C - 1, snd C) P" "owned (wq_consumers (wk_queue s')) w"
      using p in1(2) assms(6) by auto
    have "side_in (wq_consumers (wk_queue s')) (fst C - 1, snd C) False" using s'(4) by (simp add: wq_at_def)
    then have "wq_at st (wk_queue (update_consumers (\<lambda>side. putWaiter side w) s')) n [] False (fst C - 1, snd C) P"
      using putWaiter_in s'(5) by (intro wq_at_update_consumers [OF s'(4)]) blast
    then have "\<exists>s'. parkForItems ch dst None s = ret (Some (gave_up dst s)) s' \<and> wk_script s' = [] \<and> ctx_later (wk_ctx s) (wk_ctx s')
        \<and> wq_at st (wk_queue s') n [] False (fst C - 1, snd C) P"
      unfolding eq using s' by (intro exI [of _ "update_consumers (\<lambda>side. putWaiter side w) s'"]) simp
    then show ?thesis unfolding if_not_P [OF False] .
  qed
qed

lemma settings_waits: "wq_at st q n xs c C P \<Longrightarrow> wq_consumerWait q = sg_consumerWait st \<and> wq_producerWait q = sg_producerWait st"
  by (auto simp: wq_at_def settings_of_def)

lemma receiveWait_loop_idle:
  assumes "wq_at st (wk_queue s) n [] False C P" "0 < fst C" "length (snd C) + 1 < 2 ^ 31"
    "dst \<noteq> []" "length dst \<le> qc_maxD (sg_conf st)" "wk_script s = []"
  shows "if cx_left (wk_ctx s) = None then receiveWait_loop ch dst None wkn s = None
    else \<exists>s'. receiveWait_loop ch dst None wkn s = ret (gave_up dst s) s' \<and> wq_at st (wk_queue s') n [] False (fst C - 1, snd C) P"
proof -
  obtain r s1 where y: "yieldForItems dst wkn s = ret r s1" "wk_script s1 = []" "ctx_later (wk_ctx s) (wk_ctx s1)"
    "r = None \<and> wq_at st (wk_queue s1) n [] False C P
      \<or> r = Some (gave_up dst s) \<and> cx_left (wk_ctx s) \<noteq> None \<and> wq_at st (wk_queue s1) n [] False (fst C - 1, snd C) P"
    using yieldForItems_idle [OF assms(1,2,4-6), where wkn = wkn] by (elim exE conjE) (rule that)
  show ?thesis
  proof (cases r)
    case (Some v)
    then have "receiveWait_loop ch dst None wkn s = ret v s1" using y(1) by (subst receiveWait_loop.simps) simp
    then show ?thesis using Some y(4) by auto
  next
    case None
    then have at1: "wq_at st (wk_queue s1) n [] False C P" using y(4) by simp
    have same: "gave_up dst s1 = gave_up dst s" "cx_left (wk_ctx s1) = None \<longleftrightarrow> cx_left (wk_ctx s) = None"
      using y(3) by (auto simp: gave_up_def ctx_Err_def ctx_later_def)
    have eq: "receiveWait_loop ch dst None wkn s = (if st_NeverPark (sg_consumerWait st) then pollWithoutParking dst s1
        else and_then (parkForItems ch dst None s1) (\<lambda>r s2. case r of Some v \<Rightarrow> ret v s2 | None \<Rightarrow> receiveWait_loop ch dst None True s2))"
      using y(1) None settings_waits [OF at1] by (subst receiveWait_loop.simps) simp
    show ?thesis
    proof (cases "st_NeverPark (sg_consumerWait st)")
      case True
      then show ?thesis using eq same pollWithoutParking_never [OF at1 assms(2,4,5) y(2)]
          pollWithoutParking_idle [OF at1 assms(2,4,5) y(2)] by (cases "cx_left (wk_ctx s1)") auto
    next
      case False
      then show ?thesis using eq same parkForItems_idle [OF at1 assms(2-5) y(2), of ch] by auto
    qed
  qed
qed

lemma registerConsumer_ok:
  assumes "wq_at st q n xs c C P" "fst C + 1 < 2 ^ 31"
  shows "\<exists>q'. registerConsumer q = ret c q' \<and> wq_at st q' n xs c (if c then C else (fst C + 1, snd C)) P"
proof -
  have "side_in (wq_consumers q) C c" using assms(1) by (simp add: wq_at_def)
  from register_in [OF this assms(2)] obtain side where s: "register (wq_consumers q) = Some (side, c)"
    "side_in side (if c then C else (fst C + 1, snd C)) c" by blast
  have "registerConsumer q = ret c (q\<lparr>wq_consumers := side\<rparr>)"
    unfolding registerConsumer_def by (rule on_consumers_ret) (simp add: s(1))
  with wq_at_consumers [OF assms(1) s(2)] show ?thesis by blast
qed

lemma receiveWait_idle:
  assumes "wq_at st (wk_queue s) n [] False C P" "fst C + 1 < 2 ^ 31" "length (snd C) + 1 < 2 ^ 31"
    "dst \<noteq> []" "length dst \<le> qc_maxD (sg_conf st)" "wk_script s = []"
  shows "if cx_left (wk_ctx s) = None then receiveWait ch dst None False s = None
    else \<exists>s'. receiveWait ch dst None False s = ret (gave_up dst s) s' \<and> wq_at st (wk_queue s') n [] False C P"
proof -
  obtain r s1 where sp: "spinForItems dst s = ret r s1" "wq_at st (wk_queue s1) n [] False C P" "wk_script s1 = []"
    "ctx_later (wk_ctx s) (wk_ctx s1)" "r = None \<or> r = Some (gave_up dst s) \<and> cx_left (wk_ctx s) \<noteq> None"
    using spinForItems_idle [OF assms(1,4-6)] by (elim exE conjE) (rule that)
  show ?thesis
  proof (cases r)
    case (Some v)
    then show ?thesis using sp by (simp add: receiveWait_def)
  next
    case None
    obtain q1 where reg: "registerConsumer (wk_queue s1) = ret False q1" "wq_at st q1 n [] False (fst C + 1, snd C) P"
      using registerConsumer_ok [OF sp(2) assms(2)] by auto
    let ?s = "s1\<lparr>wk_queue := q1\<rparr>"
    have at1: "wq_at st (wk_queue ?s) n [] False (fst C + 1, snd C) P" using reg(2) by simp
    have same: "gave_up dst ?s = gave_up dst s" "cx_left (wk_ctx ?s) = None \<longleftrightarrow> cx_left (wk_ctx s) = None"
      using sp(4) by (auto simp: gave_up_def ctx_Err_def ctx_later_def)
    have "receiveWait ch dst None False s = receiveWait_loop ch dst None False ?s"
      using sp(1) None with_queue_ret [where f = registerConsumer, OF sp(3) reg(1)] by (simp add: receiveWait_def)
    then show ?thesis
      using receiveWait_loop_idle [OF at1 _ _ assms(4,5), of ch False] assms(3) sp(3) same by auto
  qed
qed

section \<open>Receive and Consume\<close>

lemma receive_items:
  assumes "wq_at st (wk_queue s) n xs c C P" "xs \<noteq> []" "dst \<noteq> []" "length dst \<le> qc_maxD (sg_conf st)" "wk_script s = []"
  defines "m \<equiv> min (length dst) (length xs)"
  shows "\<exists>s' P'. receive ch dst own clearing s = ret (int m, take m xs @ drop m dst, None) s'
    \<and> wq_at st (wk_queue s') n (drop m xs) c C P' \<and> served P P' True \<and> wk_ctx s' = wk_ctx s \<and> wk_script s' = []"
proof -
  have m: "0 < m" using assms(2,3) by (auto simp: m_def)
  obtain q1 q2 P' where d: "dequeueAttempt dst (wk_queue s) = ret (int m, take m xs @ drop m dst) q1"
    "wakeProducers q1 = ret c q2" "wq_at st q2 n (drop m xs) c C P'" "served P P' True"
    using dequeue_wake_ok [OF assms(1,3,4), folded m_def] by (elim exE conjE) (rule that)
  have "with_queue (dequeueAttempt dst) s = ret (int m, take m xs @ drop m dst) (s\<lparr>wk_queue := q1\<rparr>)"
    "with_queue wakeProducers (s\<lparr>wk_queue := q1\<rparr>) = ret c (s\<lparr>wk_queue := q2\<rparr>)"
    using d(1,2) assms(5) by (simp_all add: with_queue_def)
  then show ?thesis using m d(3,4) assms(5)
    by (intro exI [of _ "s\<lparr>wk_queue := q2\<rparr>"] exI [of _ P']) (simp add: receive_def)
qed

lemma receive_empty:
  assumes "wq_at st (wk_queue s) n [] c C P" "dst \<noteq> []" "length dst \<le> qc_maxD (sg_conf st)" "wk_script s = []"
  shows "\<exists>s'. receive ch dst own clearing s = receiveWait ch dst own clearing s' \<and> wq_at st (wk_queue s') n [] c C P
    \<and> wk_ctx s' = wk_ctx s \<and> wk_script s' = []"
proof -
  obtain q' where q': "dequeueAttempt dst (wk_queue s) = ret (0, dst) q'" "wq_at st q' n [] c C P"
    using dequeue_empty [OF assms(1-3)] by blast
  then show ?thesis using with_queue_ret [where f = "dequeueAttempt dst", OF assms(4) q'(1)] assms(4)
    by (intro exI [of _ "s\<lparr>wk_queue := q'\<rparr>"]) (simp add: receive_def)
qed

text \<open>A drained closed queue ends the wait at the first check, spinning or registering.\<close>

lemma drain_work:
  assumes "wq_at st (wk_queue s) n [] True C P" "dst \<noteq> []" "length dst \<le> qc_maxD (sg_conf st)" "wk_script s = []"
  shows "\<exists>s' P'. with_queue (drainCheck dst) s = ret (0, dst, Some ErrClosed) s' \<and> wq_at st (wk_queue s') n [] True C P' \<and> served P P' False"
proof -
  obtain q' P' where "drainCheck dst (wk_queue s) = ret (0, dst, Some ErrClosed) q'" "wq_at st q' n [] True C P'" "served P P' False"
    using drainCheck_ok [OF assms(1-3)] by auto
  then show ?thesis using assms(4) by (intro exI [of _ "s\<lparr>wk_queue := q'\<rparr>"] exI [of _ P']) (simp add: with_queue_def)
qed

lemma receive_closed:
  assumes "wq_at st (wk_queue s) n [] True C P" "fst C + 1 < 2 ^ 31" "dst \<noteq> []" "length dst \<le> qc_maxD (sg_conf st)" "wk_script s = []"
  shows "\<exists>out s' P'. receive ch dst own clearing s = ret (0, out, Some ErrClosed) s'
    \<and> wq_at st (wk_queue s') n [] True C P' \<and> served P P' False \<and> (\<not> clearing \<longrightarrow> out = dst)"
proof -
  obtain s1 where s1: "receive ch dst own clearing s = receiveWait ch dst own clearing s1" "wq_at st (wk_queue s1) n [] True C P"
    "wk_script s1 = []"
    using receive_empty [OF assms(1,3-5)] by blast
  obtain s2 P2 where d2: "with_queue (drainCheck dst) s1 = ret (0, dst, Some ErrClosed) s2" "wq_at st (wk_queue s2) n [] True C P2" "served P P2 False"
    using drain_work [OF s1(2) assms(3,4) s1(3)] by blast
  have cl: "consumers_closed (wk_queue s1)" using s1(2) by simp
  show ?thesis
  proof (cases "nat (st_Spins (wq_consumerWait (wk_queue s1)))")
    case (Suc l)
    then have "receiveWait ch dst own clearing s1 = ret (0, dst, Some ErrClosed) s2"
      using cl d2(1) s1(3) by (simp add: receiveWait_def spinForItems_def)
    then show ?thesis using s1(1) d2(2,3) by (intro exI [of _ dst] exI [of _ s2] exI [of _ P2]) simp
  next
    case 0
    let ?dst = "if clearing then map (\<lambda>_. 0) dst else dst"
    obtain q1 where reg: "registerConsumer (wk_queue s1) = ret True q1" "wq_at st q1 n [] True C P"
      using registerConsumer_ok [OF s1(2) assms(2)] by auto
    let ?s = "s1\<lparr>wk_queue := q1\<rparr>"
    have at: "wq_at st (wk_queue ?s) n [] True C P" "wk_script ?s = []" using reg(2) s1(3) by simp_all
    obtain s3 P3 where d3: "with_queue (drainCheck ?dst) ?s = ret (0, ?dst, Some ErrClosed) s3" "wq_at st (wk_queue s3) n [] True C P3"
      "served P P3 False"
    proof -
      have "?dst \<noteq> []" "length ?dst \<le> qc_maxD (sg_conf st)" using assms(3,4) by simp_all
      from drain_work [OF at(1) this at(2)] show ?thesis using that by blast
    qed
    then have "receiveWait ch dst own clearing s1 = ret (0, ?dst, Some ErrClosed) s3"
      using 0 with_queue_ret [where f = registerConsumer, OF s1(3) reg(1)] by (simp add: receiveWait_def spinForItems_def)
    then show ?thesis using s1(1) d3(2,3) by (intro exI [of _ ?dst] exI [of _ s3] exI [of _ P3]) simp
  qed
qed

lemma Receive_eq:
  assumes "wq_at st (wk_queue s) n xs c C P" "dst \<noteq> []"
  shows "Receive ch dst s = and_then (receive ch (take (qc_maxD (sg_conf st)) dst) None False s) (\<lambda>r. ret (unclamp dst r))"
  using assms by (simp add: Receive_def clamped_eq)

lemma unclamp_none: "unclamp dst (0, take D dst, err) = (0, dst, err)"
  using unclamp_eq [of 0 dst D "[]" err] by simp

text \<open>
  The batches a consumer's handler gets from the items left in a closed queue, and what ends the call:
  a context that is done at the look before a batch, a handler that fails, or the end of the items.
\<close>

function deliver :: "nat \<Rightarrow> ('h \<Rightarrow> 'a list \<Rightarrow> 'h \<times> string option) \<Rightarrow> ctx \<Rightarrow> 'h \<Rightarrow> 'a list \<Rightarrow> 'h \<times> work_error option \<times> 'a list" where
  "deliver D handler cx h xs =
     (if cx_left cx = Some 0 then (h, Some (ContextErr (cx_err cx)), xs)
      else if D = 0 \<or> xs = [] then (h, None, [])
      else case handler h (take D xs) of (h1, failed) \<Rightarrow>
        (case failed of
           Some msg \<Rightarrow> (h1, Some (WrapErr (HandlerErr msg)), drop D xs)
         | None \<Rightarrow> deliver D handler (looked cx) h1 (drop D xs)))"
  by pat_completeness auto
termination
  by (relation "measure (\<lambda>(D, handler, cx, h, xs). length xs)") auto

declare deliver.simps [simp del]

lemma deliver_rest:
  assumes "deliver D handler cx h xs = (h', err, ys)" "0 < D"
  shows "(err = None \<longrightarrow> ys = []) \<and> (\<exists>k. ys = drop k xs)"
  using assms
proof (induction D handler cx h xs rule: deliver.induct)
  case (1 D handler cx h xs)
  show ?case
  proof (cases "cx_left cx = Some 0 \<or> xs = []")
    case True
    then show ?thesis using 1(2) by (subst (asm) deliver.simps) (auto split: if_splits intro: exI [of _ 0])
  next
    case False
    obtain h1 failed where h: "handler h (take D xs) = (h1, failed)" by fastforce
    show ?thesis
    proof (cases failed)
      case None
      then have "deliver D handler (looked cx) h1 (drop D xs) = (h', err, ys)" using 1(2,3) False h by (subst (asm) deliver.simps) simp
      then show ?thesis using 1(1) [OF _ _ h [symmetric] None] 1(3) False by (auto simp: add.commute)
    next
      case (Some msg)
      then show ?thesis using 1(2,3) False h by (subst (asm) deliver.simps) auto
    qed
  qed
qed

lemma consume_loop_closed:
  assumes "wq_at st (wk_queue s) n xs True C P" "fst C + 1 < 2 ^ 31" "length buffer = qc_maxD (sg_conf st)" "wk_script s = []"
  shows "case deliver (qc_maxD (sg_conf st)) handler (wk_ctx s) h xs of (h', err, ys) \<Rightarrow>
    \<exists>s' P'. consume_loop ch handler own buffer h s = ret (h', err) s' \<and> wq_at st (wk_queue s') n ys True C P' \<and> served P P' (xs \<noteq> ys)"
  using assms(1,3,4)
proof (induction xs arbitrary: buffer h s P rule: length_induct)
  case (1 xs)
  let ?D = "qc_maxD (sg_conf st)"
  have D: "1 \<le> ?D" using 1(2) by (simp add: wq_at_def settings_ok_def)
  have buf: "buffer \<noteq> []" "length buffer \<le> ?D" using D 1(3) by auto
  let ?s = "s\<lparr>wk_ctx := looked (wk_ctx s)\<rparr>"
  have at: "wq_at st (wk_queue ?s) n xs True C P" "wk_script ?s = []" using 1(2,4) by simp_all
  show ?case
  proof (cases "cx_left (wk_ctx s) = Some 0")
    case True
    then have "consume_loop ch handler own buffer h s = ret (h, Some (ContextErr (cx_err (wk_ctx s)))) ?s"
      by (subst consume_loop.simps) (simp add: isDone_eq ctx_Err_def)
    then have "\<exists>s' P'. consume_loop ch handler own buffer h s = ret (h, Some (ContextErr (cx_err (wk_ctx s)))) s'
        \<and> wq_at st (wk_queue s') n xs True C P' \<and> served P P' (xs \<noteq> xs)"
      using at(1) by (intro exI [of _ ?s] exI [of _ P]) simp
    then show ?thesis using True by (subst deliver.simps) simp
  next
    case open_ctx: False
    have eq: "consume_loop ch handler own buffer h s = and_then (receive ch buffer (Some own) True ?s) (\<lambda>r s2.
        case r of (received, out, err) \<Rightarrow> (case err of
            Some e \<Rightarrow> if is_ErrClosed e then ret (h, None) s2 else ret (h, Some e) s2
          | None \<Rightarrow> (case handler h (take (nat received) out) of (h1, failed) \<Rightarrow>
              (case failed of Some msg \<Rightarrow> ret (h1, Some (WrapErr (HandlerErr msg))) s2 | None \<Rightarrow> consume_loop ch handler own out h1 s2))))"
      using open_ctx by (subst consume_loop.simps) (simp add: isDone_eq)
    show ?thesis
    proof (cases "xs = []")
      case True
      obtain out s' P' where "receive ch buffer (Some own) True ?s = ret (0, out, Some ErrClosed) s'"
        "wq_at st (wk_queue s') n [] True C P'" "served P P' False"
        using receive_closed [OF at(1) [unfolded True] assms(2) buf at(2)] by blast
      then show ?thesis using True eq open_ctx by (cases P', subst deliver.simps) auto
    next
      case False
      let ?m = "min (length buffer) (length xs)"
      have m: "take ?m xs = take ?D xs" "drop ?m xs = drop ?D xs" "?m \<le> length xs" using 1(3) by (simp_all add: min_def)
      obtain s' P' where r: "receive ch buffer (Some own) True ?s = ret (int ?m, take ?D xs @ drop ?m buffer, None) s'"
        "wq_at st (wk_queue s') n (drop ?D xs) True C P'" "served P P' True" "wk_ctx s' = wk_ctx ?s" "wk_script s' = []"
        using receive_items [OF at(1) False buf at(2), of ch "Some own" True] unfolding m(1,2) by (elim exE conjE) (rule that)
      obtain h1 failed where h: "handler h (take ?D xs) = (h1, failed)" by fastforce
      have len: "length (take ?D xs) = ?m" "take ?m xs = take ?D xs" using 1(3) m(1) by auto
      have "take (nat (int ?m)) (take ?D xs @ drop ?m buffer) = take ?D xs" using len by simp
      then have eq': "consume_loop ch handler own buffer h s = (case failed of Some msg \<Rightarrow> ret (h1, Some (WrapErr (HandlerErr msg))) s'
          | None \<Rightarrow> consume_loop ch handler own (take ?D xs @ drop ?m buffer) h1 s')"
        unfolding eq r(1) by (simp add: h del: take_append)
      have del: "deliver ?D handler (wk_ctx s) h xs = (case failed of Some msg \<Rightarrow> (h1, Some (WrapErr (HandlerErr msg)), drop ?D xs)
          | None \<Rightarrow> deliver ?D handler (wk_ctx s') h1 (drop ?D xs))"
        using False D h open_ctx r(4) by (subst deliver.simps) (simp split: option.split)
      show ?thesis
      proof (cases failed)
        case (Some msg)
        then show ?thesis using eq' del r(2,3) by (cases P') (auto simp: served_def)
      next
        case None
        obtain h' err ys where dd: "deliver ?D handler (wk_ctx s') h1 (drop ?D xs) = (h', err, ys)" by (rule prod_cases3)
        obtain s'' P'' where x: "consume_loop ch handler own (take ?D xs @ drop ?m buffer) h1 s' = ret (h', err) s''"
          "wq_at st (wk_queue s'') n ys True C P''" "served P' P'' (drop ?D xs \<noteq> ys)"
          using 1(1) [rule_format, of "drop ?D xs" s' P' "take ?D xs @ drop ?m buffer" h1] r(2,5) False D len(1) 1(3) dd by auto
        have "served P P'' (xs \<noteq> ys)" using served_trans [OF r(3) x(3)] by (simp add: served_def)
        then show ?thesis using eq' del None dd x(1,2) by (cases P'') auto
      qed
    qed
  qed
qed

text \<open>
  C13. \<^verbatim>\<open>Receive\<close>, when no other goroutine acts during the call. It hands out the oldest items at once when
  there are any, at most as many as the buffer and the batch limit allow and also when the queue is
  closed; it reports \<^verbatim>\<open>ErrClosed\<close> when the queue is closed and drained; otherwise it waits, returns the
  context's error once the context is done, having given back its registration and left the queue as
  it was, and never returns when the context is never done. A buffer keeps what the call does not
  overwrite.
\<close>

theorem Receive_decides:
  fixes dst :: "('a::zero) list"
  assumes "wq_at st (wk_queue s) n xs c C P" "fst C + 1 < 2 ^ 31" "length (snd C) + 1 < 2 ^ 31" "dst \<noteq> []" "wk_script s = []"
  defines "m \<equiv> min (min (length dst) (qc_maxD (sg_conf st))) (length xs)"
  shows "if xs \<noteq> [] then \<exists>s' P'. Receive ch dst s = ret (int m, take m xs @ drop m dst, None) s'
        \<and> wq_at st (wk_queue s') n (drop m xs) c C P' \<and> served P P' True
    else if c then \<exists>s' P'. Receive ch dst s = ret (0, dst, Some ErrClosed) s' \<and> wq_at st (wk_queue s') n [] True C P' \<and> served P P' False
    else if cx_left (wk_ctx s) = None then Receive ch dst s = None
    else \<exists>s'. Receive ch dst s = ret (0, dst, Some (ctx_Err s)) s' \<and> wq_at st (wk_queue s') n [] False C P"
proof -
  let ?D = "qc_maxD (sg_conf st)"
  let ?d = "take ?D dst"
  have d: "?d \<noteq> []" "length ?d \<le> ?D" using clamped_fits(1,2) [OF assms(1,4)] clamped_eq [OF assms(1), of dst] by simp_all
  note eq = Receive_eq [OF assms(1,4), of ch]
  consider "xs \<noteq> []" | "xs = []" c | "xs = []" "\<not> c" by blast
  then show ?thesis
  proof cases
    case 1
    have m: "min (length ?d) (length xs) = m" by (simp add: m_def)
    obtain s' P' where r: "receive ch ?d None False s = ret (int m, take m xs @ drop m ?d, None) s'"
      "wq_at st (wk_queue s') n (drop m xs) c C P'" "served P P' True"
      using receive_items [OF assms(1) 1 d assms(5), of ch None False, unfolded m] by (elim exE conjE) (rule that)
    have "unclamp dst (int m, take m xs @ drop m ?d, None) = (int m, take m xs @ drop m dst, None)"
      by (rule unclamp_eq) (auto simp: m_def)
    then have "Receive ch dst s = ret (int m, take m xs @ drop m dst, None) s'" using eq r(1) by simp
    then have "\<exists>s' P'. Receive ch dst s = ret (int m, take m xs @ drop m dst, None) s'
        \<and> wq_at st (wk_queue s') n (drop m xs) c C P' \<and> served P P' True"
      using r(2,3) by blast
    then show ?thesis unfolding if_P [OF 1] .
  next
    case 2
    obtain s' P' where "receive ch ?d None False s = ret (0, ?d, Some ErrClosed) s'" "wq_at st (wk_queue s') n [] True C P'" "served P P' False"
      using receive_closed [OF _ assms(2) d assms(5), of n P ch None False] assms(1) 2 by fastforce
    then have "Receive ch dst s = ret (0, dst, Some ErrClosed) s'" "wq_at st (wk_queue s') n [] True C P'" "served P P' False"
      using eq by (simp_all add: unclamp_none)
    then show ?thesis using 2 by (cases P') auto
  next
    case 3
    obtain s1 where s1: "receive ch ?d None False s = receiveWait ch ?d None False s1" "wq_at st (wk_queue s1) n [] False C P"
      "wk_ctx s1 = wk_ctx s" "wk_script s1 = []"
      using receive_empty [of st s n c C P ?d ch None False] assms(1,5) 3 d by auto
    have same: "gave_up ?d s1 = (0, ?d, Some (ctx_Err s))" by (simp add: gave_up_def ctx_Err_def s1(3))
    from receiveWait_idle [OF s1(2) assms(2,3) d s1(4), of ch, unfolded same s1(3), folded s1(1)]
    show ?thesis using 3 eq by (auto simp: unclamp_none)
  qed
qed

theorem Receive_decides_witness:
  "\<exists>q s'. wq_New 4 2 [] = Inr q
    \<and> Receive \<lparr>pick_pool = None, pick_case = 0\<rparr> [0 :: int, 0, 0]
        \<lparr>wk_queue = q, wk_ctx = \<lparr>cx_left = Some 3, cx_err = DeadlineExceeded\<rparr>, wk_script = []\<rparr>
      = ret (0, [0, 0, 0], Some (ContextErr DeadlineExceeded)) s'"
proof -
  obtain q :: "int wq_queue" where q: "wq_New 4 2 [] = Inr q" using small_queue_exists by blast
  let ?s = "\<lparr>wk_queue = q, wk_ctx = \<lparr>cx_left = Some 3, cx_err = DeadlineExceeded\<rparr>, wk_script = []\<rparr>"
  have "wq_at (settings_of q) (wk_queue ?s) 0 [] False (0, []) (0, [])" using wq_New_ok(1) [OF q, of 0] by simp
  from Receive_decides [OF this, of "[0, 0, 0]" "\<lparr>pick_pool = None, pick_case = 0\<rparr>"] q
  show ?thesis by (auto simp: ctx_Err_def)
qed

text \<open>
  C16. \<^verbatim>\<open>Consume\<close> on a closed queue, when no other goroutine acts during the call, drains it and returns: the
  handler gets the remaining items in order, each once, in batches of the receive limit with a possibly
  shorter last one, and the context is looked at before each batch. The call returns nil after the
  last batch, the wrapped error of the first batch whose handler fails, or the context's error when the
  context is done first, with exactly the items left that no batch had.
\<close>

theorem Consume_drains_closed_queue:
  fixes s :: "('a::zero) work"
  assumes "wq_at st (wk_queue s) n xs True C P" "fst C + 1 < 2 ^ 31" "wk_script s = []"
  shows "\<exists>h' err ys s' P'. deliver (qc_maxD (sg_conf st)) handler (wk_ctx s) h xs = (h', err, ys)
    \<and> Consume ch handler h s = ret (h', err) s' \<and> wq_at st (wk_queue s') n ys True C P' \<and> served P P' (xs \<noteq> ys)
    \<and> (err = None \<longrightarrow> ys = []) \<and> (\<exists>k. ys = drop k xs)"
proof -
  let ?D = "qc_maxD (sg_conf st)"
  obtain side own where g: "newWaiter (wq_consumers (wk_queue s)) = (side, own)" by fastforce
  have "side_in side C True" using getWaiter_in(1) [of "wq_consumers (wk_queue s)" C True None side own] g assms(1) by (simp add: getWaiter_def wq_at_def)
  then have at: "wq_at st (wk_queue (update_consumers (\<lambda>_. side) s)) n xs True C P"
    using wq_at_update_consumers [OF assms(1), of "\<lambda>_. side"] by simp
  have D: "nat (wq_maxReceiveBatch (wk_queue s)) = ?D" using assms(1) by (auto simp: wq_at_def settings_of_def settings_ok_def)
  have eq: "Consume ch handler h s = consume_loop ch handler own (replicate ?D 0) h (update_consumers (\<lambda>_. side) s)"
    by (simp add: Consume_def g D)
  obtain h' err ys where del: "deliver ?D handler (wk_ctx s) h xs = (h', err, ys)" by (rule prod_cases3)
  obtain s' P' where "Consume ch handler h s = ret (h', err) s'" "wq_at st (wk_queue s') n ys True C P'" "served P P' (xs \<noteq> ys)"
    using consume_loop_closed [OF at assms(2), where buffer = "replicate ?D 0" and handler = handler and h = h and ch = ch and own = own,
        unfolded update_consumers_frame del, folded eq] assms(3) by fastforce
  then show ?thesis using del deliver_rest [OF del] assms(1)
    by (intro exI [of _ h'] exI [of _ err] exI [of _ ys] exI [of _ s'] exI [of _ P']) (simp add: wq_at_def settings_ok_def)
qed

text \<open>A queue of capacity two that is closed with the item 5 in it.\<close>

lemma closed_queue_exists:
  "\<exists>q q' q''. (wq_New 4 2 [] :: work_error + int wq_queue) = Inr q \<and> tryPush 5 q = ret None q' \<and> wq_Close q' = Some q''
    \<and> wq_at (settings_of q) q'' 0 [5] True (0, []) (0, []) \<and> qc_maxD (sg_conf (settings_of q)) = 2"
proof -
  obtain q :: "int wq_queue" where q: "wq_New 4 2 [] = Inr q" "wq_maxReceiveBatch q = 2" using small_queue_exists by blast
  have at: "wq_at (settings_of q) q (Suc 0) [] False (0, []) (0, [])" using wq_New_ok(1) [OF q(1), of 1] by simp
  then have D: "qc_maxD (sg_conf (settings_of q)) = 2" using q(2) by (auto simp: wq_at_def settings_ok_def settings_of_def)
  have cap: "0 < qc_cap (sg_conf (settings_of q))" using at by (auto simp: wq_at_def settings_ok_def)
  obtain q' where "tryPush 5 q = ret None q'" "wq_at (settings_of q) q' 0 [5] False (0, []) (0, [])"
    using tryPush_ok [OF at, of 5] cap by (auto simp: push_result_def pushed_items_def take_Cons' wakes_consumers_def woken_def)
  with q(1) D wq_Close_ok [OF this(2)] show ?thesis by blast
qed

theorem Consume_drains_closed_queue_witness:
  "\<exists>q q' q'' s'. wq_New 4 2 [] = Inr q \<and> tryPush 5 q = ret None q' \<and> wq_Close q' = Some q''
    \<and> Consume \<lparr>pick_pool = None, pick_case = 0\<rparr> (\<lambda>h batch. (h @ batch, None)) []
        \<lparr>wk_queue = q'', wk_ctx = \<lparr>cx_left = Some 1, cx_err = Canceled\<rparr>, wk_script = []\<rparr>
      = ret ([5 :: int], Some (ContextErr Canceled)) s'"
proof -
  obtain q q' q'' :: "int wq_queue" where q: "wq_New 4 2 [] = Inr q" "tryPush 5 q = ret None q'" "wq_Close q' = Some q''"
    "wq_at (settings_of q) q'' 0 [5] True (0, []) (0, [])" "qc_maxD (sg_conf (settings_of q)) = 2"
    using closed_queue_exists by blast
  let ?s = "\<lparr>wk_queue = q'', wk_ctx = \<lparr>cx_left = Some 1, cx_err = Canceled\<rparr>, wk_script = []\<rparr>"
  have "wq_at (settings_of q) (wk_queue ?s) 0 [5] True (0, []) (0, [])" using q(4) by simp
  from Consume_drains_closed_queue [OF this, of "\<lambda>h batch. (h @ batch, None)" "[]" "\<lparr>pick_pool = None, pick_case = 0\<rparr>"] q
  show ?thesis by (auto simp: deliver.simps looked_def)
qed

end
