(* ===== verification/ReceiveEvents.thy ===== *)
theory ReceiveEvents
  imports WorkWait
begin

text \<open>
  A consumer's call during which another goroutine acts once, at any point: before any of the call's
  own operations on the queue, in particular between its last poll and the moment it joins the list,
  between that and the attempt that follows, or while it is parked. The locale \<open>consumer_event\<close> states what
  the call relies on of the other goroutine's action; it is interpreted for a push and for a close. The
  actions themselves are the complete calls \<^verbatim>\<open>TryPush\<close>, \<^verbatim>\<open>TryReceive\<close> and \<^verbatim>\<open>Close\<close> of the model.
\<close>

section \<open>The other goroutine's action\<close>

definition others_push :: "('a::zero) \<Rightarrow> 'a wq_queue \<Rightarrow> 'a wq_queue" where
  "others_push x q = (case tryPush x q of Some out \<Rightarrow> out_state out | None \<Rightarrow> q)"

definition others_close :: "'a wq_queue \<Rightarrow> 'a wq_queue" where
  "others_close q = (case wq_Close q of Some q' \<Rightarrow> q' | None \<Rightarrow> q)"

text \<open>The script on which nothing happens for a while and then \<open>f\<close>.\<close>

definition later :: "('a wq_queue \<Rightarrow> 'a wq_queue) \<Rightarrow> 'a work \<Rightarrow> bool" where
  "later f s \<longleftrightarrow> (\<exists>k. wk_script s = replicate k id @ [f])"

lemma others_frame [simp]: "wk_ctx (others s) = wk_ctx s" "wk_script (others s) = tl (wk_script s)"
  by (simp_all add: others_def split: list.split)

lemma later_others:
  assumes "later f s"
  shows "wk_queue (others s) = f (wk_queue s) \<and> wk_script (others s) = [] \<or> wk_queue (others s) = wk_queue s \<and> later f (others s)"
proof -
  obtain k where k: "wk_script s = replicate k id @ [f]" using assms by (auto simp: later_def)
  show ?thesis using k by (cases k) (auto simp: others_def later_def)
qed

lemma later_script: "later f s \<Longrightarrow> wk_script s \<noteq> []"
  by (auto simp: later_def)

lemma with_queue_frame:
  assumes "with_queue g s = ret r s'"
  shows "wk_ctx s' = wk_ctx s \<and> wk_script s' = tl (wk_script s)"
proof -
  obtain out where "g (wk_queue (others s)) = Some out" using assms by (auto simp: with_queue_def)
  then show ?thesis using assms by (cases out) (auto simp: with_queue_def)
qed

lemma and_then_ret: "and_then m g = ret r s' \<longleftrightarrow> (\<exists>v s. m = ret v s \<and> g v s = ret r s')"
  by (auto simp: and_then_def bind_eq_Some_conv split: outcome.split_asm)

lemma with_queue_others: "g (wk_queue (others s)) = ret r q \<Longrightarrow> with_queue g s = ret r ((others s)\<lparr>wk_queue := q\<rparr>)"
  by (simp add: with_queue_def)

lemma with_queue_done:
  assumes "wk_script (others s) = []"
  shows "with_queue g s = with_queue g (others s)"
  using others_nil [OF assms] by (simp only: with_queue_def)

text \<open>
  A call that has reached a point with the action still to come or already done: \<open>xs\<close> is the contents
  before it, \<open>ys\<close> the contents and \<open>d\<close> whether the queue is closed after it.
\<close>

definition underway :: "settings \<Rightarrow> ('a wq_queue \<Rightarrow> 'a wq_queue) \<Rightarrow> nat \<Rightarrow> 'a list \<Rightarrow> nat \<Rightarrow> 'a list \<Rightarrow> bool
    \<Rightarrow> 'a work \<Rightarrow> nat \<times> nat list \<Rightarrow> nat \<times> nat list \<Rightarrow> bool" where
  "underway st f N xs n ys d s C P \<longleftrightarrow> cx_left (wk_ctx s) = None
     \<and> (wq_at st (wk_queue s) N xs False C P \<and> later f s \<or> wq_at st (wk_queue s) n ys d C P \<and> wk_script s = [])"

lemma underway_ctx:
  "underway st f N xs n ys d s C P \<Longrightarrow> underway st f N xs n ys d (s\<lparr>wk_ctx := looked (wk_ctx s)\<rparr>) C P"
  "underway st f N xs n ys d s C P \<Longrightarrow> isDone s = ret False (s\<lparr>wk_ctx := looked (wk_ctx s)\<rparr>)"
  by (simp_all add: underway_def later_def isDone_eq)

section \<open>A side on which nobody else waits\<close>

lemma alone_word:
  assumes "side_in side (Suc j, []) c"
  defines "side' \<equiv> side\<lparr>ws_word := side_word j 0 c\<rparr>"
  shows "leavePollingWith cleanup e side = cleanup e side' (ws_word side')" "side_in side' (j, []) c"
    "owned side w \<Longrightarrow> owned side' w"
proof -
  have st: "side_state side (Suc j) [] c" "pool_ok side" using assms(1) by (simp_all add: side_in_def)
  show "leavePollingWith cleanup e side = cleanup e side' (ws_word side')"
    using leavePollingWith_ok(1) [OF st(1)] by (simp add: side'_def)
  show "side_in side' (j, []) c"
    using leavePollingWith_ok(2) [OF st(1)] st(2) by (simp add: side'_def side_in_def pool_ok_def clean_def)
  show "owned side w \<Longrightarrow> owned side' w" by (simp add: side'_def owned_def clean_def)
qed

lemma alone_replenish: "side_in side (j, []) c \<Longrightarrow> replenishConsumers cap batch e side (ws_word side) = ret False (e, side)"
  using side_in_word(2) [of side "(j, [])" c] by (simp add: replenishConsumers_def)

lemma leaveConsumerPolling_alone:
  assumes "wq_at st q n xs c (Suc j, []) P"
  shows "\<exists>q'. leaveConsumerPolling q = ret False q' \<and> wq_at st q' n xs c (j, []) P
    \<and> (\<forall>w. owned (wq_consumers q) w \<longrightarrow> owned (wq_consumers q') w)"
proof -
  have side: "side_in (wq_consumers q) (Suc j, []) c" using assms by (simp add: wq_at_def)
  note a = alone_word [OF side]
  show ?thesis using wq_at_consumers [OF assms a(2)] a(3)
    by (intro exI [of _ "q\<lparr>wq_consumers := (wq_consumers q)\<lparr>ws_word := side_word j 0 c\<rparr>\<rparr>"])
      (simp add: leaveConsumerPolling_def on_consumers_with_def a(1) alone_replenish [OF a(2), simplified])
qed

lemma listed_elsewhere:
  assumes "side_in side (j, [w]) c"
  shows "w \<notin> set (ws_pool side)" "w < ws_fresh side"
  using assms listed_not_clean [of side j "[w]" c w] by (auto simp: side_in_def pool_ok_def not_le [symmetric])

lemma token_in:
  assumes "side_in side (j, []) c" "ws_heap side w = zero_waiter\<lparr>wt_token := True\<rparr>"
  shows "side_in (take_token side w) (j, []) c" "owned (take_token side w) w"
proof -
  have "\<not> clean side w" using assms(2) by (simp add: clean_def zero_waiter_def)
  then have "w \<notin> set (ws_pool side)" "w < ws_fresh side" using assms(1) by (auto simp: side_in_def pool_ok_def not_le [symmetric])
  then show "side_in (take_token side w) (j, []) c" "owned (take_token side w) w" using assms
    by (auto simp: side_in_def side_state_def wait_list_def pool_ok_def clean_def owned_def take_token_def update_waiter_def zero_waiter_def)
qed

text \<open>The caller leaves the list, or takes the token it was sent and leaves polling.\<close>

lemma leaveConsumerList_listed:
  assumes "wq_at st q n xs c (j, [w]) P"
  shows "\<exists>q'. leaveConsumerList w mv q = ret False q' \<and> wq_at st q' n xs c (j, []) P \<and> owned (wq_consumers q') w"
proof -
  have side: "side_in (wq_consumers q) (j, [] @ w # []) c" using assms by (simp add: wq_at_def)
  obtain side' where l: "\<forall>cleanup (e :: 'a engine) mv. leaveListWith cleanup e (wq_consumers q) w mv =
      (if mv then cleanup e side' (ws_word side') else ret False (e, side'))" "side_in side' (j, []) c" "owned side' w"
    using leaveList_in [OF side] listed_elsewhere [of "wq_consumers q" j w c] side by auto
  then show ?thesis using wq_at_consumers [OF assms l(2)]
    by (intro exI [of _ "q\<lparr>wq_consumers := side'\<rparr>"]) (simp add: leaveConsumerList_def on_consumers_with_def alone_replenish [OF l(2)])
qed

lemma leaveConsumerList_token:
  assumes "wq_at st q n xs c (Suc j, []) P" "ws_heap (wq_consumers q) w = zero_waiter\<lparr>wt_token := True\<rparr>"
  shows "\<exists>q'. leaveConsumerList w mv q = ret False q' \<and> wq_at st q' n xs c (j, []) P \<and> owned (wq_consumers q') w"
proof -
  have side: "side_in (wq_consumers q) (Suc j, []) c" using assms by (simp add: wq_at_def)
  note t = token_in [OF side assms(2)]
  note a = alone_word [OF t(1)]
  let ?side = "(take_token (wq_consumers q) w)\<lparr>ws_word := side_word j 0 c\<rparr>"
  have "leaveListWith cleanup e (wq_consumers q) w mv = cleanup e ?side (ws_word ?side)" for cleanup and e :: "'a engine"
    using assms(2) a(1) by (simp add: leaveListWith_def take_token_def zero_waiter_def)
  then show ?thesis using wq_at_consumers [OF assms(1) a(2)] a(3) [OF t(2)]
    by (intro exI [of _ "q\<lparr>wq_consumers := ?side\<rparr>"])
      (simp add: leaveConsumerList_def on_consumers_with_def alone_replenish [OF a(2), simplified])
qed

lemma consumers_frame:
  "wakeProducers q = ret r q' \<Longrightarrow> wq_consumers q' = wq_consumers q"
  "drainCheck dst q = ret v q' \<Longrightarrow> wq_consumers q' = wq_consumers q"
proof -
  show w: "wakeProducers q = ret r q' \<Longrightarrow> wq_consumers q' = wq_consumers q" for q q' :: "'a wq_queue" and r
    by (auto simp: wakeProducers_def on_producers_def on_producers_with_def split: option.splits outcome.splits)
  show "drainCheck dst q = ret v q' \<Longrightarrow> wq_consumers q' = wq_consumers q"
    by (auto simp: drainCheck_def and_then_ret split: if_splits dest!: w attempts_frame(3))
qed

section \<open>A consumer that waits\<close>

text \<open>What the call returns once the action is done: the items, or \<^verbatim>\<open>ErrClosed\<close> when there are none.\<close>

definition concluded :: "settings \<Rightarrow> 'a list \<Rightarrow> nat \<Rightarrow> 'a list \<Rightarrow> bool \<Rightarrow> nat \<times> nat list \<Rightarrow> nat set \<Rightarrow> ('a work, 'a received) outcome option \<Rightarrow> bool" where
  "concluded st dst n ys d P W out \<longleftrightarrow>
     (\<exists>m s' P'. m = min (length dst) (length ys) \<and> out = ret (int m, take m ys @ drop m dst, if m = 0 then Some ErrClosed else None) s'
       \<and> wq_at st (wk_queue s') n (drop m ys) d (0, []) P' \<and> served P P' (0 < m) \<and> (\<forall>w\<in>W. owned (wq_consumers (wk_queue s')) w))"

lemma concludedI:
  assumes "out = ret (int m, take m ys @ drop m dst, if m = 0 then Some ErrClosed else None) s'" "m = min (length dst) (length ys)"
    "wq_at st (wk_queue s') n (drop m ys) d (0, []) P'" "served P P' (0 < m)" "\<forall>w\<in>W. owned (wq_consumers (wk_queue s')) w"
  shows "concluded st dst n ys d P W out"
  using assms unfolding concluded_def by blast

lemma concluded_less: "concluded st dst n ys d P W out \<Longrightarrow> V \<subseteq> W \<Longrightarrow> concluded st dst n ys d P V out"
  unfolding concluded_def by blast

text \<open>After the action: the attempt that takes the items, and the drain of a closed queue.\<close>

lemma attempt_done:
  assumes "wq_at st (wk_queue s) n ys d C P" "wk_script s = []" "dst \<noteq> []" "length dst \<le> qc_maxD (sg_conf st)"
  defines "m \<equiv> min (length dst) (length ys)"
  shows "\<exists>s1 s2 P'. with_queue (dequeueAttempt dst) s = ret (int m, take m ys @ drop m dst) s1 \<and> with_queue wakeProducers s1 = ret d s2
    \<and> wq_at st (wk_queue s2) n (drop m ys) d C P' \<and> served P P' True \<and> wk_script s2 = [] \<and> wk_ctx s2 = wk_ctx s
    \<and> wq_consumers (wk_queue s2) = wq_consumers (wk_queue s)"
proof -
  obtain q1 q2 P' where q: "dequeueAttempt dst (wk_queue s) = ret (int m, take m ys @ drop m dst) q1" "wakeProducers q1 = ret d q2"
    "wq_at st q2 n (drop m ys) d C P'" "served P P' True"
    using dequeue_wake_ok [OF assms(1,3,4), folded m_def] by (elim exE conjE) (rule that)
  have "with_queue (dequeueAttempt dst) s = ret (int m, take m ys @ drop m dst) (s\<lparr>wk_queue := q1\<rparr>)"
    "with_queue wakeProducers (s\<lparr>wk_queue := q1\<rparr>) = ret d (s\<lparr>wk_queue := q2\<rparr>)"
    using q(1,2) assms(2) by (simp_all add: with_queue_def)
  then show ?thesis using q(3,4) assms(2) consumers_frame(1) [OF q(2)] attempts_frame(3) [OF q(1)]
    by (intro exI [of _ "s\<lparr>wk_queue := q1\<rparr>"] exI [of _ "s\<lparr>wk_queue := q2\<rparr>"] exI [of _ P']) simp
qed

lemma drain_done:
  assumes "wq_at st (wk_queue s) n ys d (0, []) P" "wk_script s = []" "dst \<noteq> []" "length dst \<le> qc_maxD (sg_conf st)"
    "\<forall>w\<in>W. owned (wq_consumers (wk_queue s)) w"
  shows "\<exists>v s'. with_queue (drainCheck dst) s = ret v s' \<and> concluded st dst n ys d P W (ret v s')"
proof -
  let ?m = "min (length dst) (length ys)"
  obtain q P' where q: "drainCheck dst (wk_queue s) = ret (int ?m, take ?m ys @ drop ?m dst, if ?m = 0 then Some ErrClosed else None) q"
    "wq_at st q n (drop ?m ys) d (0, []) P'" "served P P' (0 < ?m)"
    using drainCheck_ok [OF assms(1,3,4)] by (elim exE conjE) (rule that)
  have w: "with_queue (drainCheck dst) s = ret (int ?m, take ?m ys @ drop ?m dst, if ?m = 0 then Some ErrClosed else None) (s\<lparr>wk_queue := q\<rparr>)"
    using with_queue_ret [of s "drainCheck dst", OF assms(2) q(1)] .
  have "concluded st dst n ys d P W (with_queue (drainCheck dst) s)"
    by (rule concludedI [OF w refl, of st n d P' P]) (use q(2,3) consumers_frame(2) [OF q(1)] assms(5) in simp_all)
  then show ?thesis unfolding w by blast
qed

lemma leavePollingAndDrain_done:
  assumes "wq_at st (wk_queue s) n ys d (1, []) P" "wk_script s = []" "dst \<noteq> []" "length dst \<le> qc_maxD (sg_conf st)"
    "\<forall>w\<in>W. owned (wq_consumers (wk_queue s)) w"
  shows "\<exists>v s'. leavePollingAndDrain dst s = ret v s' \<and> concluded st dst n ys d P W (ret v s')"
proof -
  obtain q where q: "leaveConsumerPolling (wk_queue s) = ret False q" "wq_at st q n ys d (0, []) P"
    "\<forall>w. owned (wq_consumers (wk_queue s)) w \<longrightarrow> owned (wq_consumers q) w"
    using leaveConsumerPolling_alone [of st "wk_queue s" n ys d 0 P] assms(1) by auto
  have "with_queue leaveConsumerPolling s = ret False (s\<lparr>wk_queue := q\<rparr>)" using q(1) assms(2) by (simp add: with_queue_def)
  then show ?thesis using drain_done [of st "s\<lparr>wk_queue := q\<rparr>" n ys d P dst W] q(2,3) assms(2-5)
    by (simp add: leavePollingAndDrain_def)
qed

text \<open>
  What a waiting consumer relies on of the other goroutine's action \<open>f\<close> on an empty open queue: it leaves items
  or closes the queue; it keeps the registered pollers and a waiter that is not on the list; and when
  the one consumer on the list has no poller beside it, an action that leaves items sends it a token.
\<close>

locale consumer_event =
  fixes st :: settings and f :: "('a::zero) wq_queue \<Rightarrow> 'a wq_queue" and N n :: nat and ys :: "'a list" and d :: bool
  assumes effect: "if d then ys = [] else ys \<noteq> []"
    and nobody_parked: "wq_at st q N [] False (j, []) P \<Longrightarrow> wq_at st (f q) n ys d (j, []) P"
    and waiter_kept: "wq_at st q N [] False (j, []) P \<Longrightarrow> owned (wq_consumers q) w \<Longrightarrow> owned (wq_consumers (f q)) w"
    and one_parked: "wq_at st q N [] False (0, [w]) P \<Longrightarrow>
      if d then wq_at st (f q) n ys d (0, [w]) P
      else wq_at st (f q) n ys d (1, []) P \<and> ws_heap (wq_consumers (f q)) w = zero_waiter\<lparr>wt_token := True\<rparr>"
begin

abbreviation at_work :: "'a work \<Rightarrow> nat \<times> nat list \<Rightarrow> nat \<times> nat list \<Rightarrow> bool" where
  "at_work \<equiv> underway st f N [] n ys d"

abbreviation fits :: "'a list \<Rightarrow> bool" where
  "fits dst \<equiv> dst \<noteq> [] \<and> length dst \<le> qc_maxD (sg_conf st)"

lemma slot:
  assumes "at_work s (j, []) P"
  shows "at_work (others s) (j, []) P" "owned (wq_consumers (wk_queue s)) w \<Longrightarrow> owned (wq_consumers (wk_queue (others s))) w"
proof -
  have "at_work (others s) (j, []) P \<and> (owned (wq_consumers (wk_queue s)) w \<longrightarrow> owned (wq_consumers (wk_queue (others s))) w)"
  proof (cases "wk_script s = []")
    case True
    then show ?thesis using assms by simp
  next
    case False
    then have s: "wq_at st (wk_queue s) N [] False (j, []) P" "later f s" using assms by (auto simp: underway_def)
    from later_others [OF s(2)] show ?thesis
      using assms s nobody_parked [OF s(1)] waiter_kept [OF s(1)] by (auto simp: underway_def)
  qed
  then show "at_work (others s) (j, []) P" "owned (wq_consumers (wk_queue s)) w \<Longrightarrow> owned (wq_consumers (wk_queue (others s))) w"
    by blast+
qed

lemma look_slot:
  assumes "at_work s (j, []) P"
  shows "\<exists>c s'. look_at consumers_closed s = ret c s' \<and> s' = others s \<and> at_work s' (j, []) P
    \<and> (c \<longrightarrow> d \<and> wq_at st (wk_queue s') n ys d (j, []) P \<and> wk_script s' = [])"
proof -
  have "look_at consumers_closed s = ret (consumers_closed (wk_queue (others s))) (others s)" by (simp add: with_queue_def)
  then show ?thesis using slot(1) [OF assms] by (auto simp: underway_def)
qed

lemma attempt_slot:
  assumes "at_work s (j, []) P" "fits dst"
  shows "(\<exists>s'. with_queue (dequeueAttempt dst) s = ret (0, dst) s' \<and> at_work s' (j, []) P
      \<and> wq_consumers (wk_queue s') = wq_consumers (wk_queue (others s)))
    \<or> (\<exists>m s1 s2 P'. m = min (length dst) (length ys) \<and> 0 < m \<and> with_queue (dequeueAttempt dst) s = ret (int m, take m ys @ drop m dst) s1
      \<and> with_queue wakeProducers s1 = ret d s2 \<and> wq_at st (wk_queue s2) n (drop m ys) d (j, []) P' \<and> served P P' True \<and> wk_script s2 = []
      \<and> wq_consumers (wk_queue s2) = wq_consumers (wk_queue (others s)))"
proof -
  from slot(1) [OF assms(1)] consider
      (before) "wq_at st (wk_queue (others s)) N [] False (j, []) P" "later f (others s)"
    | (after) "wq_at st (wk_queue (others s)) n ys d (j, []) P" "wk_script (others s) = []"
    unfolding underway_def by blast
  then show ?thesis
  proof cases
    case before
    obtain q where q: "dequeueAttempt dst (wk_queue (others s)) = ret (0, dst) q" "wq_at st q N [] False (j, []) P"
      using dequeue_empty [OF before(1)] assms(2) by blast
    have "at_work ((others s)\<lparr>wk_queue := q\<rparr>) (j, []) P" using q(2) before(2) assms(1) by (simp add: underway_def later_def)
    then show ?thesis using with_queue_others [where g = "dequeueAttempt dst", OF q(1)] attempts_frame(3) [OF q(1)] by auto
  next
    case after
    let ?m = "min (length dst) (length ys)"
    obtain s1 s2 P' where r: "with_queue (dequeueAttempt dst) (others s) = ret (int ?m, take ?m ys @ drop ?m dst) s1"
      "with_queue wakeProducers s1 = ret d s2" "wq_at st (wk_queue s2) n (drop ?m ys) d (j, []) P'" "served P P' True" "wk_script s2 = []"
      "wq_consumers (wk_queue s2) = wq_consumers (wk_queue (others s))"
      using attempt_done [OF after, of dst] assms(2) by (elim meta_impE exE conjE) (auto intro: that)
    note eq = with_queue_done [OF after(2), of "dequeueAttempt dst"]
    show ?thesis
    proof (cases "ys = []")
      case True
      obtain q where q: "dequeueAttempt dst (wk_queue (others s)) = ret (0, dst) q" "wq_at st q n [] d (j, []) P"
        using dequeue_empty [of st "wk_queue (others s)" n d "(j, [])" P dst] after(1) assms(2) True by auto
      have "at_work ((others s)\<lparr>wk_queue := q\<rparr>) (j, []) P" using q(2) after(2) assms(1) True by (simp add: underway_def)
      then show ?thesis using with_queue_others [where g = "dequeueAttempt dst", OF q(1)] attempts_frame(3) [OF q(1)] by auto
    next
      case False
      then have "0 < ?m" using assms(2) by (cases dst) auto
      then show ?thesis using r unfolding eq by blast
    qed
  qed
qed

abbreviation ends :: "'a list \<Rightarrow> nat \<times> nat list \<Rightarrow> nat set \<Rightarrow> ('a work, 'a received option) outcome option \<Rightarrow> bool" where
  "ends dst P W out \<equiv> \<exists>v s'. out = ret (Some v) s' \<and> concluded st dst n ys d P W (ret v s')"

lemma spin_event:
  assumes "at_work s (0, []) P" "fits dst"
  shows "ends dst P {} (spinForItems_from dst poll left s)
    \<or> (\<exists>s'. spinForItems_from dst poll left s = ret None s' \<and> at_work s' (0, []) P)"
  using assms(1)
proof (induction left arbitrary: poll s)
  case (Suc left)
  obtain c s0 where l: "look_at consumers_closed s = ret c s0" "at_work s0 (0, []) P"
    "c \<longrightarrow> d \<and> wq_at st (wk_queue s0) n ys d (0, []) P \<and> wk_script s0 = []"
    using look_slot [OF Suc.prems] by blast
  show ?case
  proof (cases c)
    case True
    then show ?thesis using l drain_done [of st s0 n ys d P dst "{}"] assms(2) by auto
  next
    case False
    obtain s1 where s1: "(if poll mod contextCheckInterval = 0 then isDone s0 else ret False s0) = ret False s1" "at_work s1 (0, []) P"
      using underway_ctx [OF l(2)] l(2) by (cases "poll mod contextCheckInterval = 0") auto
    from attempt_slot [OF s1(2) assms(2)] show ?thesis
    proof (elim disjE exE conjE)
      fix s2 assume "with_queue (dequeueAttempt dst) s1 = ret (0, dst) s2" and at2: "at_work s2 (0, []) P"
      then have "spinForItems_from dst poll (Suc left) s = spinForItems_from dst (Suc poll) left s2" using l(1) False s1(1) by simp
      then show ?thesis using Suc.IH [OF at2, of "Suc poll"] by simp
    next
      fix m s2 s3 P' assume m: "m = min (length dst) (length ys)" "0 < m"
        and r: "with_queue (dequeueAttempt dst) s1 = ret (int m, take m ys @ drop m dst) s2" "with_queue wakeProducers s2 = ret d s3"
          "wq_at st (wk_queue s3) n (drop m ys) d (0, []) P'" "served P P' True"
      then have "spinForItems_from dst poll (Suc left) s = ret (Some (int m, take m ys @ drop m dst, None)) s3"
        using l(1) False s1(1) by simp
      moreover have "concluded st dst n ys d P {} (ret (int m, take m ys @ drop m dst, None) s3)"
        by (rule concludedI [OF _ m(1) r(3)]) (use m(2) r(4) in simp_all)
      ultimately show ?thesis by blast
    qed
  qed
qed simp

lemma register_slot:
  assumes "at_work s (0, []) P"
  shows "\<exists>c s'. with_queue registerConsumer s = ret c s' \<and>
    (if c then wq_at st (wk_queue s') n ys d (0, []) P \<and> wk_script s' = [] else at_work s' (1, []) P)"
proof -
  from slot(1) [OF assms] consider
      (before) "wq_at st (wk_queue (others s)) N [] False (0, []) P" "later f (others s)"
    | (after) "wq_at st (wk_queue (others s)) n ys d (0, []) P" "wk_script (others s) = []"
    unfolding underway_def by blast
  then show ?thesis
  proof cases
    case before
    obtain q where q: "registerConsumer (wk_queue (others s)) = ret False q" "wq_at st q N [] False (1, []) P"
      using registerConsumer_ok [OF before(1)] by auto
    have "at_work ((others s)\<lparr>wk_queue := q\<rparr>) (1, []) P" using q(2) before(2) assms by (simp add: underway_def later_def)
    then show ?thesis using with_queue_others [where g = registerConsumer, OF q(1)] by auto
  next
    case after
    obtain q where q: "registerConsumer (wk_queue (others s)) = ret d q" "wq_at st q n ys d (if d then (0, []) else (1, [])) P"
      using registerConsumer_ok [OF after(1)] by (cases d) auto
    have "\<not> d \<Longrightarrow> at_work ((others s)\<lparr>wk_queue := q\<rparr>) (1, []) P" using q(2) after(2) assms by (simp add: underway_def)
    then show ?thesis using with_queue_others [where g = registerConsumer, OF q(1)] q(2) after(2) by (cases d) auto
  qed
qed

text \<open>Once the action is done, the next poll ends the wait.\<close>

lemma poll_done:
  assumes "wq_at st (wk_queue s) n ys d (1, []) P" "wk_script s = []" "fits dst"
  shows "ends dst P {} (pollRegistered dst s)"
proof (cases d)
  case True
  then show ?thesis using leavePollingAndDrain_done [OF assms(1,2), of dst "{}"] assms by (auto simp: pollRegistered_def)
next
  case False
  let ?m = "min (length dst) (length ys)"
  have m: "0 < ?m" using effect False assms(3) by (cases dst) auto
  obtain s1 s2 P' where r: "with_queue (dequeueAttempt dst) s = ret (int ?m, take ?m ys @ drop ?m dst) s1" "with_queue wakeProducers s1 = ret d s2"
    "wq_at st (wk_queue s2) n (drop ?m ys) d (1, []) P'" "served P P' True" "wk_script s2 = []"
    using attempt_done [OF assms(1,2), of dst] assms(3) by (elim meta_impE exE conjE) (auto intro: that)
  obtain q where q: "leaveConsumerPolling (wk_queue s2) = ret False q" "wq_at st q n (drop ?m ys) d (0, []) P'"
    using leaveConsumerPolling_alone [of st "wk_queue s2" n _ d 0 P'] r(3) by auto
  have "with_queue leaveConsumerPolling s2 = ret False (s2\<lparr>wk_queue := q\<rparr>)" using q(1) r(5) by (simp add: with_queue_def)
  then have "pollRegistered dst s = ret (Some (int ?m, take ?m ys @ drop ?m dst, None)) (s2\<lparr>wk_queue := q\<rparr>)"
    using r(1,2) m False assms(1,2) by (simp add: pollRegistered_def)
  moreover have "concluded st dst n ys d P {} (ret (int ?m, take ?m ys @ drop ?m dst, None) (s2\<lparr>wk_queue := q\<rparr>))"
    by (rule concludedI [where m = ?m and P' = P' and s' = "s2\<lparr>wk_queue := q\<rparr>"]) (use m q(2) r(4) in simp_all)
  ultimately show ?thesis by blast
qed

lemma poll_event:
  assumes "at_work s (1, []) P" "fits dst"
  shows "ends dst P {} (pollRegistered dst s)
    \<or> (\<exists>s'. pollRegistered dst s = ret None s' \<and> at_work s' (1, []) P \<and> length (wk_script s') < length (wk_script s))"
proof (cases "wk_script s = []")
  case True
  then have "wq_at st (wk_queue s) n ys d (1, []) P" using assms(1) by (auto simp: underway_def later_def)
  then show ?thesis using poll_done [OF _ True assms(2)] by blast
next
  case script: False
  obtain c s0 where l: "look_at consumers_closed s = ret c s0" "at_work s0 (1, []) P"
    "c \<longrightarrow> d \<and> wq_at st (wk_queue s0) n ys d (1, []) P \<and> wk_script s0 = []"
    using look_slot [OF assms(1)] by blast
  have drop: "length (wk_script s0) < length (wk_script s)" using with_queue_frame [OF l(1)] script by (cases "wk_script s") auto
  show ?thesis
  proof (cases c)
    case True
    then show ?thesis using l leavePollingAndDrain_done [of st s0 n ys d P dst "{}"] assms(2) by (auto simp: pollRegistered_def)
  next
    case False
    from attempt_slot [OF l(2) assms(2)] show ?thesis
    proof (elim disjE exE conjE)
      fix s1 assume r: "with_queue (dequeueAttempt dst) s0 = ret (0, dst) s1" and at1: "at_work s1 (1, []) P"
      obtain c2 s2 where l2: "look_at consumers_closed s1 = ret c2 s2" "at_work s2 (1, []) P"
        "c2 \<longrightarrow> d \<and> wq_at st (wk_queue s2) n ys d (1, []) P \<and> wk_script s2 = []"
        using look_slot [OF at1] by blast
      have "length (wk_script s2) < length (wk_script s)"
        using with_queue_frame [OF r] with_queue_frame [OF l2(1)] drop by simp
      then show ?thesis
        using l(1) False r l2 underway_ctx [OF l2(2)] leavePollingAndDrain_done [of st s2 n ys d P dst "{}"] assms(2)
        by (cases c2) (auto simp: pollRegistered_def)
    next
      fix m s1 s2 P' assume m: "m = min (length dst) (length ys)" "0 < m"
        and r: "with_queue (dequeueAttempt dst) s0 = ret (int m, take m ys @ drop m dst) s1" "with_queue wakeProducers s1 = ret d s2"
          "wq_at st (wk_queue s2) n (drop m ys) d (1, []) P'" "served P P' True" "wk_script s2 = []"
      obtain q where q: "leaveConsumerPolling (wk_queue s2) = ret False q" "wq_at st q n (drop m ys) d (0, []) P'"
        using leaveConsumerPolling_alone [of st "wk_queue s2" n _ d 0 P'] r(3) by auto
      have "with_queue leaveConsumerPolling s2 = ret False (s2\<lparr>wk_queue := q\<rparr>)" using q(1) r(5) by (simp add: with_queue_def)
      then have "pollRegistered dst s = ret (Some (int m, take m ys @ drop m dst, None)) (s2\<lparr>wk_queue := q\<rparr>)"
        using l(1) r(1,2) m(2) False by (simp add: pollRegistered_def)
      moreover have "concluded st dst n ys d P {} (ret (int m, take m ys @ drop m dst, None) (s2\<lparr>wk_queue := q\<rparr>))"
        by (rule concludedI [where m = m and P' = P' and s' = "s2\<lparr>wk_queue := q\<rparr>"]) (use m q(2) r(4) in simp_all)
      ultimately show ?thesis by blast
    qed
  qed
qed

lemma Gosched_slot:
  assumes "at_work s (j, []) P"
  shows "at_work (Gosched s) (j, []) P" "length (wk_script (Gosched s)) \<le> length (wk_script s)"
  using slot(1) [OF assms] by (simp_all add: Gosched_def)

lemma yield_event:
  assumes "at_work s (1, []) P" "fits dst"
  shows "ends dst P {} (yieldForItems_from dst poll left s)
    \<or> (\<exists>s'. yieldForItems_from dst poll left s = ret None s' \<and> at_work s' (1, []) P)"
  using assms(1)
proof (induction left arbitrary: poll s)
  case (Suc left)
  let ?s = "if poll > 0 then Gosched s else s"
  have at: "at_work ?s (1, []) P" using Suc.prems Gosched_slot(1) [OF Suc.prems] by simp
  from poll_event [OF at assms(2)] show ?case
  proof (elim disjE exE conjE)
    fix v s' assume "pollRegistered dst ?s = ret (Some v) s'" "concluded st dst n ys d P {} (ret v s')"
    then show ?thesis by (auto simp del: not_None_eq)
  next
    fix s' assume "pollRegistered dst ?s = ret None s'" "at_work s' (1, []) P"
    then show ?thesis using Suc.IH [of s' "Suc poll"] by (auto simp del: not_None_eq)
  qed
qed simp

lemma never_park_event:
  "at_work s (1, []) P \<Longrightarrow> fits dst \<Longrightarrow> concluded st dst n ys d P {} (pollWithoutParking dst s)"
proof (induction "length (wk_script s)" arbitrary: s rule: less_induct)
  case less
  from poll_event [OF less.prems] show ?case
  proof (elim disjE exE conjE)
    fix v s' assume "pollRegistered dst s = ret (Some v) s'" "concluded st dst n ys d P {} (ret v s')"
    then show ?thesis by (subst pollWithoutParking.simps) simp
  next
    fix s' assume r: "pollRegistered dst s = ret None s'" and at: "at_work s' (1, []) P" and l: "length (wk_script s') < length (wk_script s)"
    have "concluded st dst n ys d P {} (pollWithoutParking dst (Gosched s'))"
      by (rule less.hyps) (use Gosched_slot [OF at] l less.prems(2) in auto)
    then show ?thesis using r by (subst pollWithoutParking.simps) simp
  qed
qed

subsection \<open>Parking\<close>

text \<open>The action while the consumer is on the list, and while it is parked.\<close>

lemma listed_slot:
  assumes "wq_at st (wk_queue s) N [] False (0, [w]) P" "later f s"
  shows "wq_at st (wk_queue (others s)) N [] False (0, [w]) P \<and> later f (others s)
    \<or> wk_script (others s) = [] \<and> d \<and> wq_at st (wk_queue (others s)) n ys d (0, [w]) P
    \<or> wk_script (others s) = [] \<and> \<not> d \<and> wq_at st (wk_queue (others s)) n ys d (1, []) P
      \<and> ws_heap (wq_consumers (wk_queue (others s))) w = zero_waiter\<lparr>wt_token := True\<rparr>"
  using later_others [OF assms(2)] assms(1) one_parked [OF assms(1)] by (cases d) auto

lemma select_done:
  assumes "wk_script s = []" "cx_left (wk_ctx s) = None" "d" "wq_at st (wk_queue s) n ys d (0, [w]) P"
  shows "park_select wq_consumers sel w s = ret ParkDone s"
proof -
  have "\<not> wt_token (ws_heap (wq_consumers (wk_queue s)) w)" "wq_done (wk_queue s)"
    using assms(3,4) no_token [of "wq_consumers (wk_queue s)" 0 "[]" w "[]"] by (auto simp: wq_at_def)
  then show ?thesis using assms(2) by (subst park_select.simps) (simp add: ready_cases_def)
qed

lemma select_token:
  assumes "cx_left (wk_ctx s) = None" "\<not> d" "wq_at st (wk_queue s) n ys d (1, []) P"
    "ws_heap (wq_consumers (wk_queue s)) w = zero_waiter\<lparr>wt_token := True\<rparr>"
  shows "park_select wq_consumers sel w s = ret ParkToken s"
proof -
  have "\<not> wq_done (wk_queue s)" using assms(2,3) by (simp add: wq_at_def)
  then show ?thesis using assms(1,4) by (subst park_select.simps) (simp add: ready_cases_def zero_waiter_def)
qed

lemma select_event:
  "wq_at st (wk_queue s) N [] False (0, [w]) P \<Longrightarrow> later f s \<Longrightarrow> cx_left (wk_ctx s) = None \<Longrightarrow>
     \<exists>s'. wk_script s' = [] \<and> cx_left (wk_ctx s') = None \<and>
       (if d then park_select wq_consumers sel w s = ret ParkDone s' \<and> wq_at st (wk_queue s') n ys d (0, [w]) P
        else park_select wq_consumers sel w s = ret ParkToken s' \<and> wq_at st (wk_queue s') n ys d (1, []) P
          \<and> ws_heap (wq_consumers (wk_queue s')) w = zero_waiter\<lparr>wt_token := True\<rparr>)"
proof (induction "length (wk_script s)" arbitrary: s rule: less_induct)
  case less
  have "\<not> wt_token (ws_heap (wq_consumers (wk_queue s)) w)" "\<not> wq_done (wk_queue s)"
    using less.prems(1) no_token [of "wq_consumers (wk_queue s)" 0 "[]" w "[]"] by (auto simp: wq_at_def)
  then have step: "park_select wq_consumers sel w s = park_select wq_consumers sel w (others s)"
    using less.prems(3) later_script [OF less.prems(2)] by (subst park_select.simps) (simp add: ready_cases_def Gosched_def)
  have ctx: "cx_left (wk_ctx (others s)) = None" using less.prems(3) by simp
  from listed_slot [OF less.prems(1,2)] show ?case
  proof (elim disjE conjE)
    assume at: "wq_at st (wk_queue (others s)) N [] False (0, [w]) P" "later f (others s)"
    have "length (wk_script (others s)) < length (wk_script s)" using later_script [OF less.prems(2)] by (cases "wk_script s") auto
    from less.hyps [OF this at ctx] show ?thesis unfolding step .
  next
    assume "wk_script (others s) = []" d "wq_at st (wk_queue (others s)) n ys d (0, [w]) P"
    then show ?thesis using select_done [OF _ ctx] step ctx by (intro exI [of _ "others s"]) simp
  next
    assume "wk_script (others s) = []" "\<not> d" "wq_at st (wk_queue (others s)) n ys d (1, []) P"
      "ws_heap (wq_consumers (wk_queue (others s))) w = zero_waiter\<lparr>wt_token := True\<rparr>"
    then show ?thesis using select_token [OF ctx] step ctx by (intro exI [of _ "others s"]) simp
  qed
qed

text \<open>The items found by the attempt that follows the list, with the caller on it or already selected.\<close>

lemma extra_found:
  assumes "wq_at st (wk_queue s) n ys False C P" "wk_script s = []" "fits dst" "\<not> d"
    and C: "C = (0, [w]) \<or> C = (1, []) \<and> ws_heap (wq_consumers (wk_queue s)) w = zero_waiter\<lparr>wt_token := True\<rparr>"
  shows "\<exists>m s1 s2 s3. m = min (length dst) (length ys) \<and> 0 < m \<and> with_queue (dequeueAttempt dst) s = ret (int m, take m ys @ drop m dst) s1
    \<and> with_queue wakeProducers s1 = ret False s2 \<and> with_queue (leaveConsumerList w True) s2 = ret False s3
    \<and> concluded st dst n ys d P {w} (ret (int m, take m ys @ drop m dst, None) s3)"
proof -
  let ?m = "min (length dst) (length ys)"
  have m: "0 < ?m" using effect assms(3,4) by (cases dst) auto
  obtain s1 s2 P' where r: "with_queue (dequeueAttempt dst) s = ret (int ?m, take ?m ys @ drop ?m dst) s1" "with_queue wakeProducers s1 = ret False s2"
    "wq_at st (wk_queue s2) n (drop ?m ys) False C P'" "served P P' True" "wk_script s2 = []"
    "wq_consumers (wk_queue s2) = wq_consumers (wk_queue s)"
    using attempt_done [OF assms(1,2), of dst] assms(3) by (elim meta_impE exE conjE) (auto intro: that)
  obtain q where q: "leaveConsumerList w True (wk_queue s2) = ret False q" "wq_at st q n (drop ?m ys) False (0, []) P'" "owned (wq_consumers q) w"
    using C leaveConsumerList_listed [of st "wk_queue s2" n _ False 0 w P' True] leaveConsumerList_token [of st "wk_queue s2" n _ False 0 P' w True]
      r(3,6) by auto
  have "with_queue (leaveConsumerList w True) s2 = ret False (s2\<lparr>wk_queue := q\<rparr>)" using q(1) r(5) by (simp add: with_queue_def)
  moreover have "concluded st dst n ys d P {w} (ret (int ?m, take ?m ys @ drop ?m dst, None) (s2\<lparr>wk_queue := q\<rparr>))"
    by (rule concludedI [where m = ?m and P' = P' and s' = "s2\<lparr>wk_queue := q\<rparr>"]) (use m q(2,3) r(4) assms(4) in simp_all)
  ultimately show ?thesis using m r(1,2) by blast
qed

lemma enlist_slot:
  assumes "at_work s (1, []) P" "owned (wq_consumers (wk_queue s)) w"
  shows "\<exists>s'. cx_left (wk_ctx s') = None \<and>
    (with_queue (on_consumers (\<lambda>side. enlist side w atNewest)) s = ret False s' \<and> wq_at st (wk_queue s') N [] False (0, [w]) P \<and> later f s'
     \<or> wk_script s' = [] \<and> with_queue (on_consumers (\<lambda>side. enlist side w atNewest)) s = ret d s'
       \<and> wq_at st (wk_queue s') n ys d (if d then (1, []) else (0, [w])) P \<and> (d \<longrightarrow> owned (wq_consumers (wk_queue s')) w))"
proof -
  let ?s = "others s" and ?e = "\<lambda>side. enlist side w atNewest"
  have own: "owned (wq_consumers (wk_queue ?s)) w" using slot(2) [OF assms] .
  have joins: "\<exists>q. on_consumers ?e (wk_queue ?s) = ret c q \<and> wq_at st q k xs c (if c then (1, []) else (0, [w])) P
      \<and> (c \<longrightarrow> owned (wq_consumers q) w)"
    if at: "wq_at st (wk_queue ?s) k xs c (1, []) P" for k xs c
  proof -
    have "side_in (wq_consumers (wk_queue ?s)) (1, []) c" using at by (simp add: wq_at_def)
    then obtain side where e: "enlist (wq_consumers (wk_queue ?s)) w atNewest = ret c side"
      "side_in side (if c then (1, []) else (0, [w])) c" "c \<longrightarrow> side = wq_consumers (wk_queue ?s)"
      using enlist_in [OF _ _ own, of "(1, [])" c atNewest] by (cases c) (auto simp: enlisted_def)
    then show ?thesis using on_consumers_ret [of ?e "wk_queue ?s", OF e(1)] wq_at_consumers [OF at e(2)] own by auto
  qed
  from slot(1) [OF assms(1)] consider
      (before) "wq_at st (wk_queue ?s) N [] False (1, []) P" "later f ?s"
    | (after) "wq_at st (wk_queue ?s) n ys d (1, []) P" "wk_script ?s = []"
    unfolding underway_def by blast
  then show ?thesis
  proof cases
    case before
    obtain q where q: "on_consumers ?e (wk_queue ?s) = ret False q" "wq_at st q N [] False (0, [w]) P" using joins [OF before(1)] by auto
    then show ?thesis using with_queue_others [where g = "on_consumers ?e", OF q(1)] before(2) assms(1)
      by (intro exI [of _ "?s\<lparr>wk_queue := q\<rparr>"]) (simp add: underway_def later_def)
  next
    case after
    obtain q where q: "on_consumers ?e (wk_queue ?s) = ret d q" "wq_at st q n ys d (if d then (1, []) else (0, [w])) P"
      "d \<longrightarrow> owned (wq_consumers q) w" using joins [OF after(1)] by blast
    then show ?thesis using with_queue_others [where g = "on_consumers ?e", OF q(1)] after(2) assms(1)
      by (intro exI [of _ "?s\<lparr>wk_queue := q\<rparr>"]) (simp add: underway_def)
  qed
qed

text \<open>A closed queue ends the park of a consumer that is still on the list.\<close>

lemma parked_closed:
  assumes "wk_script s = []" "d" "wq_at st (wk_queue s) n ys d (0, [w]) P" "fits dst"
  shows "\<exists>s1. with_queue (leaveConsumerList w False) s = ret False s1
    \<and> (\<exists>v s2. with_queue (drainCheck dst) s1 = ret v s2 \<and> concluded st dst n ys d P {w} (ret v s2))"
proof -
  obtain q where q: "leaveConsumerList w False (wk_queue s) = ret False q" "wq_at st q n ys d (0, []) P" "owned (wq_consumers q) w"
    using leaveConsumerList_listed [OF assms(3)] by blast
  have "with_queue (leaveConsumerList w False) s = ret False (s\<lparr>wk_queue := q\<rparr>)" using q(1) assms(1) by (simp add: with_queue_def)
  then show ?thesis using drain_done [of st "s\<lparr>wk_queue := q\<rparr>" n ys d P dst "{w}"] q(2,3) assms(1,4) by auto
qed

abbreviation retries :: "'a work \<Rightarrow> nat \<times> nat list \<Rightarrow> bool" where
  "retries s P \<equiv> \<not> d \<and> wk_script s = [] \<and> cx_left (wk_ctx s) = None \<and> wq_at st (wk_queue s) n ys d (1, []) P"

lemma select_ends:
  assumes "fits dst" "cx_left (wk_ctx s) = None"
    and at: "wq_at st (wk_queue s) N [] False (0, [w]) P \<and> later f s
      \<or> wk_script s = [] \<and> d \<and> wq_at st (wk_queue s) n ys d (0, [w]) P"
    and eq: "out = and_then (park_select wq_consumers sel w s) (\<lambda>selected s3. case selected of
       ParkToken \<Rightarrow> ret None (update_consumers (\<lambda>side. take_token side w) s3)
     | ParkContext \<Rightarrow> F s3
     | ParkDone \<Rightarrow> and_then (with_queue (leaveConsumerList w False) s3) (\<lambda>_ s4.
         and_then (with_queue (drainCheck dst) s4) (\<lambda>r. ret (Some r))))"
  shows "ends dst P {w} out \<or> (\<exists>s'. out = ret None s' \<and> retries s' P \<and> owned (wq_consumers (wk_queue s')) w)"
proof (cases d)
  case True
  obtain s' where s': "wk_script s' = []" "park_select wq_consumers sel w s = ret ParkDone s'" "wq_at st (wk_queue s') n ys d (0, [w]) P"
    using at select_event [of s w P sel] select_done [OF _ assms(2) True, of w P sel] assms(2) True by auto
  then show ?thesis using eq parked_closed [OF s'(1) True s'(3) assms(1)] by auto
next
  case False
  obtain s' where s': "wk_script s' = []" "cx_left (wk_ctx s') = None" "park_select wq_consumers sel w s = ret ParkToken s'"
    "wq_at st (wk_queue s') n ys d (1, []) P" "ws_heap (wq_consumers (wk_queue s')) w = zero_waiter\<lparr>wt_token := True\<rparr>"
    using at select_event [of s w P sel] assms(2) False by auto
  have "side_in (wq_consumers (wk_queue s')) (1, []) d" using s'(4) by (simp add: wq_at_def)
  note t = token_in [OF this s'(5)]
  have "wq_at st (wk_queue (update_consumers (\<lambda>side. take_token side w) s')) n ys d (1, []) P"
    by (rule wq_at_update_consumers [OF s'(4)]) (rule t(1))
  then show ?thesis using eq s'(1-3) t(2) False by simp
qed

lemma park_as_event:
  assumes "at_work s (1, []) P" "owned (wq_consumers (wk_queue s)) w" "fits dst"
  shows "ends dst P {w} (parkForItems_as ch dst w s)
    \<or> (\<exists>s'. parkForItems_as ch dst w s = ret None s' \<and> retries s' P \<and> owned (wq_consumers (wk_queue s')) w)"
proof -
  let ?e = "on_consumers (\<lambda>side. enlist side w atNewest)"
  from enlist_slot [OF assms(1,2)] obtain s1 where ctx: "cx_left (wk_ctx s1) = None" and
    s1: "with_queue ?e s = ret False s1 \<and> wq_at st (wk_queue s1) N [] False (0, [w]) P \<and> later f s1
     \<or> wk_script s1 = [] \<and> with_queue ?e s = ret d s1
       \<and> wq_at st (wk_queue s1) n ys d (if d then (1, []) else (0, [w])) P \<and> (d \<longrightarrow> owned (wq_consumers (wk_queue s1)) w)"
    by blast
  consider (closed) "d" "with_queue ?e s = ret True s1" "wk_script s1 = []" "wq_at st (wk_queue s1) n ys d (1, []) P" "owned (wq_consumers (wk_queue s1)) w"
    | (listed) "with_queue ?e s = ret False s1" "\<not> d" "wk_script s1 = []" "wq_at st (wk_queue s1) n ys False (0, [w]) P"
    | (before) "with_queue ?e s = ret False s1" "wq_at st (wk_queue s1) N [] False (0, [w]) P" "later f s1"
    using s1 by (cases d) auto
  then show ?thesis
  proof cases
    case closed
    then show ?thesis using leavePollingAndDrain_done [of st s1 n ys d P dst "{w}"] assms(3) by (auto simp: parkForItems_as_def)
  next
    case listed
    then show ?thesis using extra_found [of s1 "(0, [w])" P dst w] assms(3) by (auto simp: parkForItems_as_def)
  next
    case before
    let ?wait = "\<lambda>s2. and_then (park_select wq_consumers (pick_case ch) w s2) (\<lambda>selected s3. case selected of
       ParkToken \<Rightarrow> ret None (update_consumers (\<lambda>side. take_token side w) s3)
     | ParkContext \<Rightarrow> and_then (with_queue (leaveConsumerList w False) s3) (\<lambda>_ s4. and_then (look_at consumers_closed s4) (\<lambda>closed s5.
         if closed then and_then (with_queue (drainCheck dst) s5) (\<lambda>r. ret (Some r)) else ret (Some (0, dst, Some (ctx_Err s5))) s5))
     | ParkDone \<Rightarrow> and_then (with_queue (leaveConsumerList w False) s3) (\<lambda>_ s4.
         and_then (with_queue (drainCheck dst) s4) (\<lambda>r. ret (Some r))))"
    have empty: "\<exists>s2. parkForItems_as ch dst w s = ?wait s2 \<and> wk_script s2 = wk_script (others s1) \<and> cx_left (wk_ctx s2) = None
        \<and> wq_at st (wk_queue s2) k [] c (0, [w]) P"
      if at: "wq_at st (wk_queue (others s1)) k [] c (0, [w]) P" for k c
    proof -
      obtain q where q: "dequeueAttempt dst (wk_queue (others s1)) = ret (0, dst) q" "wq_at st q k [] c (0, [w]) P"
        using dequeue_empty [OF at] assms(3) by blast
      then show ?thesis using with_queue_others [where g = "dequeueAttempt dst", OF q(1)] before(1) ctx
        by (intro exI [of _ "(others s1)\<lparr>wk_queue := q\<rparr>"]) (simp add: parkForItems_as_def)
    qed
    from listed_slot [OF before(2,3)] show ?thesis
    proof (elim disjE conjE)
      assume at: "wq_at st (wk_queue (others s1)) N [] False (0, [w]) P" "later f (others s1)"
      from empty [OF at(1)] obtain s2 where s2: "parkForItems_as ch dst w s = ?wait s2" "wk_script s2 = wk_script (others s1)"
        "cx_left (wk_ctx s2) = None" "wq_at st (wk_queue s2) N [] False (0, [w]) P" by blast
      then show ?thesis using at(2) by (intro select_ends [OF assms(3) s2(3) _ s2(1)]) (simp add: later_def)
    next
      assume at: "wk_script (others s1) = []" d "wq_at st (wk_queue (others s1)) n ys d (0, [w]) P"
      have "ys = []" using effect at(2) by simp
      with empty [of n d] at(3) obtain s2 where s2: "parkForItems_as ch dst w s = ?wait s2" "wk_script s2 = wk_script (others s1)"
        "cx_left (wk_ctx s2) = None" "wq_at st (wk_queue s2) n ys d (0, [w]) P" by blast
      then show ?thesis using at(1,2) by (intro select_ends [OF assms(3) s2(3) _ s2(1)]) simp
    next
      assume at: "wk_script (others s1) = []" "\<not> d" "wq_at st (wk_queue (others s1)) n ys d (1, []) P"
        "ws_heap (wq_consumers (wk_queue (others s1))) w = zero_waiter\<lparr>wt_token := True\<rparr>"
      note eq = with_queue_done [OF at(1), of "dequeueAttempt dst"]
      show ?thesis using extra_found [of "others s1" "(1, [])" P dst w] at before(1) assms(3)
        by (auto simp: parkForItems_as_def eq)
    qed
  qed
qed

lemma put_back_consumer:
  assumes "wq_at st (wk_queue s) k xs c C P" "owned (wq_consumers (wk_queue s)) w"
  shows "wq_at st (wk_queue (update_consumers (\<lambda>side. putWaiter side w) s)) k xs c C P"
proof -
  have "side_in (wq_consumers (wk_queue s)) C c" using assms(1) by (simp add: wq_at_def)
  then show ?thesis using putWaiter_in assms(2) by (intro wq_at_update_consumers [OF assms(1)]) blast
qed

lemma park_event:
  assumes "at_work s (1, []) P" "fits dst"
  shows "ends dst P {} (parkForItems ch dst None s) \<or> (\<exists>s'. parkForItems ch dst None s = ret None s' \<and> retries s' P)"
proof -
  obtain side w where g: "getWaiter (pick_pool ch) (wq_consumers (wk_queue s)) = (side, w)"
    by (cases "getWaiter (pick_pool ch) (wq_consumers (wk_queue s))")
  let ?s = "update_consumers (\<lambda>_. side) s" and ?put = "update_consumers (\<lambda>side. putWaiter side w)"
  have get: "wq_at st (wk_queue ?s) k xs c (1, []) P \<and> owned side w" if "wq_at st (wk_queue s) k xs c (1, []) P" for k xs c
    using that getWaiter_in [OF _ g, of "(1, [])" c] wq_at_update_consumers [OF that, of "\<lambda>_. side"] by (simp add: wq_at_def)
  then have at: "at_work ?s (1, []) P" "owned (wq_consumers (wk_queue ?s)) w" using assms(1) by (auto simp: underway_def later_def)
  have eq: "parkForItems ch dst None s = finally_do ?put (parkForItems_as ch dst w ?s)" by (simp add: parkForItems_def g)
  from park_as_event [OF at assms(2), of ch] show ?thesis
  proof (elim disjE exE conjE)
    fix v s' assume r: "parkForItems_as ch dst w ?s = ret (Some v) s'" "concluded st dst n ys d P {w} (ret v s')"
    have "concluded st dst n ys d P {} (ret v (?put s'))" using r(2) put_back_consumer unfolding concluded_def by fastforce
    then show ?thesis unfolding eq r(1) by auto
  next
    fix s' assume "parkForItems_as ch dst w ?s = ret None s'" "\<not> d" "wk_script s' = []" "cx_left (wk_ctx s') = None"
      "wq_at st (wk_queue s') n ys d (1, []) P" "owned (wq_consumers (wk_queue s')) w"
    then show ?thesis using put_back_consumer [of s' n ys d "(1, [])" P w] by (simp add: eq)
  qed
qed

lemma loop_event:
  assumes "at_work s (1, []) P" "fits dst"
  shows "concluded st dst n ys d P {} (receiveWait_loop ch dst None False s)"
proof -
  have "ends dst P {} (yieldForItems dst False s) \<or> (\<exists>s'. yieldForItems dst False s = ret None s' \<and> at_work s' (1, []) P)"
    using yield_event [OF assms] by (simp add: yieldForItems_def)
  then show ?thesis
  proof (elim disjE exE conjE)
    fix v s' assume "yieldForItems dst False s = ret (Some v) s'" "concluded st dst n ys d P {} (ret v s')"
    then show ?thesis by (subst receiveWait_loop.simps) simp
  next
    fix s1 assume y: "yieldForItems dst False s = ret None s1" and at: "at_work s1 (1, []) P"
    have eq: "receiveWait_loop ch dst None False s = (if st_NeverPark (wq_consumerWait (wk_queue s1)) then pollWithoutParking dst s1
        else and_then (parkForItems ch dst None s1) (\<lambda>r s2. case r of Some v \<Rightarrow> ret v s2 | None \<Rightarrow> receiveWait_loop ch dst None True s2))"
      using y by (subst receiveWait_loop.simps) simp
    from park_event [OF at assms(2), of ch] show ?thesis
    proof (elim disjE exE conjE)
      fix v s' assume "parkForItems ch dst None s1 = ret (Some v) s'" "concluded st dst n ys d P {} (ret v s')"
      then show ?thesis using eq never_park_event [OF at assms(2)] by simp
    next
      fix s2 assume p: "parkForItems ch dst None s1 = ret None s2" "wk_script s2 = []" "wq_at st (wk_queue s2) n ys d (1, []) P"
      obtain v s3 where v: "pollRegistered dst s2 = ret (Some v) s3" "concluded st dst n ys d P {} (ret v s3)"
        using poll_done [OF p(3,2) assms(2)] by blast
      obtain l where "nat (max (st_Yields (wq_consumerWait (wk_queue s2))) 1) = Suc l"
        by (cases "nat (max (st_Yields (wq_consumerWait (wk_queue s2))) 1)") auto
      then have "yieldForItems dst True s2 = ret (Some v) s3" using v(1) by (simp add: yieldForItems_def del: not_None_eq)
      then have "receiveWait_loop ch dst None True s2 = ret v s3" by (subst receiveWait_loop.simps) simp
      then show ?thesis using eq p(1) v(2) never_park_event [OF at assms(2)] by simp
    qed
  qed
qed

lemma receive_event:
  assumes "at_work s (0, []) P" "fits dst"
  shows "concluded st dst n ys d P {} (receive ch dst None False s)"
proof -
  from attempt_slot [OF assms] show ?thesis
  proof (elim disjE exE conjE)
    fix s1 assume r: "with_queue (dequeueAttempt dst) s = ret (0, dst) s1" and at: "at_work s1 (0, []) P"
    have "ends dst P {} (spinForItems dst s1) \<or> (\<exists>s'. spinForItems dst s1 = ret None s' \<and> at_work s' (0, []) P)"
      using spin_event [OF at assms(2)] by (simp add: spinForItems_def)
    then show ?thesis
    proof (elim disjE exE conjE)
      fix v s' assume "spinForItems dst s1 = ret (Some v) s'" "concluded st dst n ys d P {} (ret v s')"
      then show ?thesis using r by (simp add: receive_def receiveWait_def)
    next
      fix s2 assume sp: "spinForItems dst s1 = ret None s2" and at2: "at_work s2 (0, []) P"
      from register_slot [OF at2] obtain c s3 where reg: "with_queue registerConsumer s2 = ret c s3"
        "if c then wq_at st (wk_queue s3) n ys d (0, []) P \<and> wk_script s3 = [] else at_work s3 (1, []) P" by blast
      have "receive ch dst None False s = (if c then with_queue (drainCheck dst) s3 else receiveWait_loop ch dst None False s3)"
        using r sp reg(1) by (simp add: receive_def receiveWait_def)
      then show ?thesis using reg(2) drain_done [of st s3 n ys d P dst "{}"] loop_event [of s3 P dst ch] assms(2)
        by (cases c) auto
    qed
  next
    fix m s1 s2 P' assume m: "m = min (length dst) (length ys)" "0 < m"
      and r: "with_queue (dequeueAttempt dst) s = ret (int m, take m ys @ drop m dst) s1" "with_queue wakeProducers s1 = ret d s2"
        "wq_at st (wk_queue s2) n (drop m ys) d (0, []) P'" "served P P' True"
    then have "receive ch dst None False s = ret (int m, take m ys @ drop m dst, None) s2" by (simp add: receive_def)
    then show ?thesis using m r(3,4) by (intro concludedI [OF _ m(1) r(3)]) simp_all
  qed
qed

end

section \<open>The actions\<close>

lemma others_push_ok:
  assumes "wq_at st q (Suc n) [] False C P"
  shows "\<exists>k. wakes_consumers st q (others_push x q) n [x] False C P k \<and> (snd C = [] \<or> 0 < fst C + k)"
proof -
  have cap: "0 < qc_cap (sg_conf st)" using assms by (auto simp: wq_at_def settings_ok_def)
  obtain q' k where "tryPush x q = ret (push_result st ([] :: 'a list) False) q'" "wakes_consumers st q q' n (pushed_items st [] False [x]) False C P k"
    "push_result st ([] :: 'a list) False = None \<longrightarrow> snd C = [] \<or> 0 < fst C + k"
    using tryPush_ok [OF assms, of x] by (elim exE conjE) (rule that)
  then show ?thesis using cap
    by (intro exI [of _ k]) (simp add: others_push_def push_result_def pushed_items_def take_Cons')
qed

text \<open>A push that finds nobody parked does not touch the consumers' side.\<close>

lemma others_push_frame:
  assumes "wq_at st q (Suc n) [] False (j, []) P"
  shows "wq_consumers (others_push x q) = wq_consumers q"
proof -
  have cap: "0 < qc_cap (sg_conf st)" using assms by (auto simp: wq_at_def settings_ok_def)
  obtain q1 where q1: "enqueueAttempt x q = ret 1 q1" "wq_at st q1 n [x] False (j, []) P"
    using enqueueAttempt_ok [OF assms, of x] cap by auto
  have "sideWord_parked (ws_word (wq_consumers q1)) = 0"
    using q1(2) side_in_word(2) [of "wq_consumers q1" "(j, [])" False] by (simp add: wq_at_def)
  then have "consumerWakeCheck q1 = ret None q1"
    using q1(2) side_in_word(1) [of "wq_consumers q1" "(j, [])" False]
    by (simp add: consumerWakeCheck_def wakeConsumersAfterPublication_def wq_at_def)
  then show ?thesis using assms q1(1) attempts_frame(1) [OF q1(1)] by (simp add: others_push_def tryPush_def)
qed

lemma others_close_ok:
  assumes "wq_at st q n xs c C P"
  shows "wq_at st (others_close q) n xs True C P"
    "owned (wq_consumers q) w \<Longrightarrow> owned (wq_consumers (others_close q)) w"
    "owned (wq_producers q) w \<Longrightarrow> owned (wq_producers (others_close q)) w"
proof -
  obtain q' where q': "wq_Close q = Some q'" "wq_at st q' n xs True C P" using wq_Close_ok [OF assms] by blast
  then show "wq_at st (others_close q) n xs True C P" by (simp add: others_close_def)
  have keep: "setClosedLocked side = Some (side', first) \<Longrightarrow> owned side w \<Longrightarrow> owned side' w" for side side' first
    by (subst (asm) setClosedLocked.simps)
      (auto simp: setClosedAttempt_def compareAndSwap_def owned_def clean_def split: if_splits)
  show "owned (wq_consumers q) w \<Longrightarrow> owned (wq_consumers (others_close q)) w"
    "owned (wq_producers q) w \<Longrightarrow> owned (wq_producers (others_close q)) w"
    using q'(1) keep by (auto simp: others_close_def wq_Close_def Let_def split: option.splits)
qed

interpretation push_event: consumer_event st "others_push x" "Suc n" n "[x]" False for st x n
proof (unfold_locales, goal_cases)
  case (2 q j P)
  then show ?case using others_push_ok [OF 2, of x] by (auto simp: wakes_consumers_def woken_def)
next
  case (3 q j P w)
  then show ?case using others_push_frame [OF 3(1), of x] by simp
next
  case (4 q w P)
  obtain k where k: "wakes_consumers st q (others_push x q) n [x] False (0, [w]) P k" "0 < k"
    using others_push_ok [OF 4, of x] by auto
  then have "k = 1" by (simp add: wakes_consumers_def woken_def)
  with k show ?case by (simp add: wakes_consumers_def woken_def)
qed simp

interpretation close_event: consumer_event st others_close n n "[]" True for st n
  by unfold_locales (use others_close_ok in auto)

section \<open>Receive\<close>

lemma Receive_concluded:
  assumes at: "wq_at st (wk_queue s) k xs c C P" and dst: "dst \<noteq> []"
    and r: "concluded st (take (qc_maxD (sg_conf st)) dst) n ys d P {} (receive ch (take (qc_maxD (sg_conf st)) dst) None False s)"
  defines "m \<equiv> min (min (length dst) (qc_maxD (sg_conf st))) (length ys)"
  shows "\<exists>s' P'. Receive ch dst s = ret (int m, take m ys @ drop m dst, if m = 0 then Some ErrClosed else None) s'
    \<and> wq_at st (wk_queue s') n (drop m ys) d (0, []) P' \<and> served P P' (0 < m)"
proof -
  let ?D = "qc_maxD (sg_conf st)"
  let ?d = "take ?D dst"
  have m: "min (length ?d) (length ys) = m" by (simp add: m_def)
  obtain s' P' where r': "receive ch ?d None False s = ret (int m, take m ys @ drop m ?d, if m = 0 then Some ErrClosed else None) s'"
    "wq_at st (wk_queue s') n (drop m ys) d (0, []) P'" "served P P' (0 < m)"
    using r unfolding concluded_def m by blast
  have "unclamp dst (int m, take m ys @ drop m ?d, err) = (int m, take m ys @ drop m dst, err)" for err
    by (rule unclamp_eq) (auto simp: m_def)
  then have "Receive ch dst s = ret (int m, take m ys @ drop m dst, if m = 0 then Some ErrClosed else None) s'"
    using Receive_eq [OF at dst, of ch] r'(1) by simp
  then show ?thesis using r'(2,3) by blast
qed

lemma clamp_fits:
  fixes dst :: "('a::zero) list"
  assumes "wq_at st (q :: 'a wq_queue) k xs c C P" "dst \<noteq> []"
  shows "take (qc_maxD (sg_conf st)) dst \<noteq> [] \<and> length (take (qc_maxD (sg_conf st)) dst) \<le> qc_maxD (sg_conf st)"
  using clamped_fits(1,2) [OF assms] clamped_eq [OF assms(1), of dst] by simp

text \<open>
  C14. A consumer that waits gets the item another goroutine pushes, whenever it pushes it. The queue is open
  and empty, no other consumer waits, and the only action of another goroutine during the call is one complete
  \<^verbatim>\<open>TryPush\<close>, after any number of the consumer's own operations: before its first attempt, between two
  polls, between the last poll and the list, between the list and the attempt that follows, or while it is
  parked. \<^verbatim>\<open>Receive\<close> returns exactly that item, whatever the wait strategy and the runtime's choices,
  although its context is never done. Afterwards no consumer is registered or parked and the queue
  is empty: the wake is not lost and the registration is given back.
\<close>

theorem Receive_gets_pushed_item:
  fixes dst :: "('a::zero) list"
  assumes "wq_at st (wk_queue s) (Suc n) [] False (0, []) P" "dst \<noteq> []"
    "wk_script s = replicate k id @ [others_push x]" "cx_left (wk_ctx s) = None"
  shows "\<exists>s' P'. Receive ch dst s = ret (1, x # drop 1 dst, None) s' \<and> wq_at st (wk_queue s') n [] False (0, []) P' \<and> served P P' True"
proof -
  let ?D = "qc_maxD (sg_conf st)"
  note fit = clamp_fits [OF assms(1,2)]
  have "underway st (others_push x) (Suc n) [] n [x] False s (0, []) P" using assms by (auto simp: underway_def later_def)
  note r = Receive_concluded [OF assms(1,2) push_event.receive_event [OF this fit, of ch]]
  have "min (min (length dst) ?D) (length [x]) = 1" using fit by (cases dst; cases ?D) auto
  from r [unfolded this] show ?thesis by simp
qed

theorem Receive_gets_pushed_item_witness:
  "\<exists>q s'. wq_New 4 2 [] = Inr q
    \<and> Receive \<lparr>pick_pool = None, pick_case = 0\<rparr> [0 :: int, 0]
        \<lparr>wk_queue = q, wk_ctx = \<lparr>cx_left = None, cx_err = Canceled\<rparr>, wk_script = replicate 5 id @ [others_push 7]\<rparr>
      = ret (1, [7, 0], None) s'"
proof -
  obtain q :: "int wq_queue" where q: "wq_New 4 2 [] = Inr q" using small_queue_exists by blast
  let ?s = "\<lparr>wk_queue = q, wk_ctx = \<lparr>cx_left = None, cx_err = Canceled\<rparr>, wk_script = replicate 5 id @ [others_push 7]\<rparr>"
  have "wq_at (settings_of q) (wk_queue ?s) (Suc 0) [] False (0, []) (0, [])" using wq_New_ok(1) [OF q, of 1] by simp
  from Receive_gets_pushed_item [OF this, of "[0, 0]" 5 7 "\<lparr>pick_pool = None, pick_case = 0\<rparr>"] q
  show ?thesis by auto
qed

text \<open>
  C15. A consumer that waits on an open, empty queue returns when another goroutine closes the queue, at
  whatever point of the call: no other consumer waits, the only action of another goroutine during the call is one
  \<^verbatim>\<open>Close\<close>, and the context is never done. \<^verbatim>\<open>Receive\<close> reports \<^verbatim>\<open>ErrClosed\<close>, keeps the buffer as it was, and
  leaves no consumer registered or parked, whatever the wait strategy and the runtime's choices.
\<close>

theorem Receive_ends_on_close:
  fixes dst :: "('a::zero) list"
  assumes "wq_at st (wk_queue s) n [] False (0, []) P" "dst \<noteq> []"
    "wk_script s = replicate k id @ [others_close]" "cx_left (wk_ctx s) = None"
  shows "\<exists>s' P'. Receive ch dst s = ret (0, dst, Some ErrClosed) s' \<and> wq_at st (wk_queue s') n [] True (0, []) P' \<and> served P P' False"
proof -
  note fit = clamp_fits [OF assms(1,2)]
  have "underway st others_close n [] n [] True s (0, []) P" using assms by (auto simp: underway_def later_def)
  from Receive_concluded [OF assms(1,2) close_event.receive_event [OF this fit, of ch]] show ?thesis by simp
qed

theorem Receive_ends_on_close_witness:
  "\<exists>q s'. wq_New 4 2 [] = Inr q
    \<and> Receive \<lparr>pick_pool = None, pick_case = 0\<rparr> [3 :: int]
        \<lparr>wk_queue = q, wk_ctx = \<lparr>cx_left = None, cx_err = Canceled\<rparr>, wk_script = replicate 4 id @ [others_close]\<rparr>
      = ret (0, [3], Some ErrClosed) s' \<and> wq_done (wk_queue s')"
proof -
  obtain q :: "int wq_queue" where q: "wq_New 4 2 [] = Inr q" using small_queue_exists by blast
  let ?s = "\<lparr>wk_queue = q, wk_ctx = \<lparr>cx_left = None, cx_err = Canceled\<rparr>, wk_script = replicate 4 id @ [others_close]\<rparr>"
  have "wq_at (settings_of q) (wk_queue ?s) 0 [] False (0, []) (0, [])" using wq_New_ok(1) [OF q, of 0] by simp
  from Receive_ends_on_close [OF this, of "[3]" 4 "\<lparr>pick_pool = None, pick_case = 0\<rparr>"] q
  show ?thesis by (auto simp: wq_at_def)
qed

end
