(* ===== verification/WorkPush.thy ===== *)
theory WorkPush
  imports WorkWait
begin

text \<open>
  The producer's side of waiting: \<^verbatim>\<open>Push\<close> and \<^verbatim>\<open>PushBatch\<close> when no other goroutine acts during the call. The
  wait is written once for any attempt; what it needs of the attempt is that a refusal changes nothing.
  \<open>PushEvents\<close> treats the calls during which another goroutine acts.
\<close>

section \<open>A refused offer takes no position\<close>

lemma fr_mpsc_attempt_none:
  "fr_mpscAttemptProducer r head requested fixed exact = (r1, start, count, rem, retry) \<Longrightarrow> count = 0 \<or> retry \<Longrightarrow> fmb_head r1 = fmb_head r"
  by (auto simp: fr_mpscAttemptProducer_def Let_def split: if_splits)

lemma fr_mpsc_reserve_none:
  assumes "fr_mpscReserveProducer r requested fixed exact = Some (r1, start, 0, rem)"
  shows "fmb_head r1 = fmb_head r"
proof -
  have "fst (snd (snd (r1, start, 0 :: u32, rem))) = 0 \<longrightarrow> fmb_head (fst (r1, start, 0 :: u32, rem)) = fmb_head r"
    by (rule fr_mpscReserveProducer.raw_induct [OF _ assms,
          where P = "\<lambda>r requested fixed exact y. fst (snd (snd y)) = 0 \<longrightarrow> fmb_head (fst y) = fmb_head r"])
      (auto dest: fr_mpsc_attempt_none split: prod.splits if_splits)
  then show ?thesis by simp
qed

lemma engine_Enqueue_refused:
  assumes "engine_inv e" "engine_Enqueue e x = Some (e', Some err)"
  shows "engine_fits e' n = engine_fits e n"
proof (cases e)
  case (MPSC_engine q)
  then show ?thesis using assms(2)
    by (auto dest!: fr_mpsc_reserve_none simp: fr_mpscBase_Enqueue_def Let_def FR_MPSC_fits_def fr_base_fits_def split: option.splits if_splits)
next
  case (SPMC_engine r)
  then show ?thesis using assms FR_SPMC_discovered(4) [of r]
    by (auto simp: FR_SPMC_Enqueue_def Let_def FR_SPMC_fits_def split: if_splits)
next
  case (MPMC_engine r)
  then show ?thesis using assms fr_mpmc_pattempt [of r 1 True False] fr_mpmc_roomy_facts(4) [of r 1 False]
    by (auto simp: FR_MPMC_Enqueue_def Let_def FR_MPMC_fits_def split: if_splits)
qed (use assms in \<open>auto simp: apfst_def map_prod_def split: prod.splits\<close>)

lemma engine_EnqueueBurst_refused:
  assumes "engine_inv e" "engine_EnqueueBurst e xs = Some (e', 0, free)"
  shows "engine_fits e' n = engine_fits e n"
proof (cases e)
  case (MPSC_engine q)
  then show ?thesis using assms(2)
    by (auto dest!: fr_mpsc_reserve_none simp: fr_mpscBase_EnqueueBurst_def Let_def FR_MPSC_fits_def fr_base_fits_def unat_eq_0 split: option.splits if_splits)
next
  case (SPMC_engine r)
  then show ?thesis using assms FR_SPMC_discovered(4) [of r]
    by (auto simp: FR_SPMC_EnqueueBurst_def fr_spmcEnqueueBatch_def Let_def FR_SPMC_fits_def unat_eq_0 split: if_splits)
next
  case (MPMC_engine r)
  then show ?thesis using assms fr_mpmc_pattempt [of r] fr_mpmc_roomy_facts(4) [of r]
    by (auto simp: FR_MPMC_EnqueueBurst_def Let_def FR_MPMC_fits_def unat_eq_0 split: if_splits)
qed (use assms in \<open>auto simp: apfst_def map_prod_def split: prod.splits\<close>)

text \<open>An attempt that a queue with contents \<open>xs\<close> refuses, and one of which it takes \<open>k\<close> elements.\<close>

type_synonym 'a attempt = "'a wq_queue \<Rightarrow> ('a wq_queue, int) outcome option"

definition refuses :: "settings \<Rightarrow> ('a::zero) attempt \<Rightarrow> nat \<Rightarrow> 'a list \<Rightarrow> bool" where
  "refuses st attempt n xs \<longleftrightarrow> length xs = qc_cap (sg_conf st) \<and> (\<forall>q c C P. wq_at st q n xs c C P \<longrightarrow>
     (\<exists>q'. attempt q = ret 0 q' \<and> wq_at st q' n xs c C P \<and> wq_producers q' = wq_producers q))"

definition accepts :: "settings \<Rightarrow> ('a::zero) attempt \<Rightarrow> nat \<Rightarrow> 'a list \<Rightarrow> nat \<Rightarrow> nat \<Rightarrow> 'a list \<Rightarrow> bool" where
  "accepts st attempt n xs k m ys \<longleftrightarrow> 0 < k \<and> (\<forall>q C P. wq_at st q n xs False C P \<longrightarrow>
     (\<exists>q'. attempt q = ret (int k) q' \<and> wq_at st q' m ys False C P \<and> wq_producers q' = wq_producers q))"

lemma enqueue_refuses:
  assumes "length xs = qc_cap (sg_conf st)"
  shows "refuses st (enqueueAttempt x) (Suc n) xs"
  unfolding refuses_def
proof (intro conjI allI impI)
  fix q c C P assume at: "wq_at st q (Suc n) xs c C P"
  obtain q' where q': "enqueueAttempt x q = ret 0 q'" "wq_at st q' n xs c C P"
    using enqueueAttempt_ok [OF at, of x] assms by auto
  then obtain e' err where e: "engine_Enqueue (wq_engine q) x = Some (e', Some err)" "q' = q\<lparr>wq_engine := e'\<rparr>"
    by (auto simp: enqueueAttempt_def split: if_splits)
  have "wq_at st q' (Suc n) xs c C P"
    using q'(2) at engine_Enqueue_refused [OF _ e(1), of "Suc n"] e(2) by (auto simp: wq_at_def)
  then show "\<exists>q'. enqueueAttempt x q = ret 0 q' \<and> wq_at st q' (Suc n) xs c C P \<and> wq_producers q' = wq_producers q"
    using q'(1) e(2) by auto
qed (rule assms)

lemma enqueue_accepts:
  "length xs < qc_cap (sg_conf st) \<Longrightarrow> accepts st (enqueueAttempt x) (Suc n) xs 1 n (xs @ [x])"
  unfolding accepts_def using enqueueAttempt_ok attempts_frame(1) by fastforce

lemma burst_refuses:
  assumes "length xs = qc_cap (sg_conf st)"
  shows "refuses st (burstAttempt rest) (length rest + n) xs"
  unfolding refuses_def
proof (intro conjI allI impI)
  fix q c C P assume at: "wq_at st q (length rest + n) xs c C P"
  obtain q' where q': "burstAttempt rest q = ret 0 q'" "wq_at st q' n xs c C P"
    using burstAttempt_ok [OF at] assms by (auto simp: burst_in_def room_def)
  then obtain e' free where e: "engine_EnqueueBurst (wq_engine q) rest = Some (e', 0, free)" "q' = q\<lparr>wq_engine := e'\<rparr>"
    by (auto simp: burstAttempt_def)
  have "wq_at st q' (length rest + n) xs c C P"
    using q'(2) at engine_EnqueueBurst_refused [OF _ e(1), of "length rest + n"] e(2) by (auto simp: wq_at_def)
  then show "\<exists>q'. burstAttempt rest q = ret 0 q' \<and> wq_at st q' (length rest + n) xs c C P \<and> wq_producers q' = wq_producers q"
    using q'(1) e(2) by auto
qed (rule assms)

section \<open>A producer that waits for room\<close>

lemma attempt_refused:
  assumes "refuses st attempt n xs" "wq_at st (wk_queue s) n xs False C P" "wk_script s = []"
  shows "\<exists>q'. with_queue attempt s = ret 0 (s\<lparr>wk_queue := q'\<rparr>) \<and> wq_at st q' n xs False C P
    \<and> wq_producers q' = wq_producers (wk_queue s)"
proof -
  obtain q' where "attempt (wk_queue s) = ret 0 q'" "wq_at st q' n xs False C P" "wq_producers q' = wq_producers (wk_queue s)"
    using assms(1,2) unfolding refuses_def by blast
  then show ?thesis using with_queue_ret [of s attempt 0 q'] assms(3) by blast
qed

lemma producerContextError_open: "wq_at st (wk_queue s) n xs False C P \<Longrightarrow> wk_script s = [] \<Longrightarrow> producerContextError before s = ret (ctx_Err s) s"
  by (simp add: producerContextError_def)

definition no_room :: "'a work \<Rightarrow> pushed" where
  "no_room s = (0, Some (ctx_Err s))"

lemma spinForRoom_from_idle:
  assumes "refuses st attempt n xs" "wq_at st (wk_queue s) n xs False C P" "wk_script s = []"
  shows "\<exists>r s'. spinForRoom_from attempt before poll left s = ret r s' \<and> wq_at st (wk_queue s') n xs False C P
    \<and> wk_script s' = [] \<and> ctx_later (wk_ctx s) (wk_ctx s')
    \<and> (r = None \<or> r = Some (no_room s) \<and> cx_left (wk_ctx s) \<noteq> None)"
  using assms(2,3)
proof (induction left arbitrary: poll s)
  case 0
  then show ?case by (auto intro!: exI [of _ None] exI [of _ s])
next
  case (Suc left)
  define s1 where "s1 = (if poll mod contextCheckInterval = 0 then s\<lparr>wk_ctx := looked (wk_ctx s)\<rparr> else s)"
  let ?over = "poll mod contextCheckInterval = 0 \<and> cx_left (wk_ctx s) = Some 0"
  have look: "(if poll mod contextCheckInterval = 0 then isDone s else ret False s) = ret ?over s1"
    by (simp add: isDone_eq s1_def)
  have s1: "wk_queue s1 = wk_queue s" "wk_script s1 = []" "ctx_later (wk_ctx s) (wk_ctx s1)" "ctx_Err s1 = ctx_Err s"
    using Suc.prems(2) by (simp_all add: s1_def ctx_Err_def)
  then have at1: "wq_at st (wk_queue s1) n xs False C P" using Suc.prems by simp
  show ?case
  proof (cases ?over)
    case True
    have "spinForRoom_from attempt before poll (Suc left) s = ret (Some (no_room s)) s1"
      using True Suc.prems look s1(4) producerContextError_open [OF at1 s1(2), of before] by (simp add: no_room_def)
    then show ?thesis using True at1 s1 by (intro exI [of _ "Some (no_room s)"] exI [of _ s1]) simp
  next
    case False
    obtain q' where q': "with_queue attempt s1 = ret 0 (s1\<lparr>wk_queue := q'\<rparr>)" "wq_at st q' n xs False C P"
      using attempt_refused [OF assms(1) at1 s1(2)] by blast
    let ?s = "s1\<lparr>wk_queue := q'\<rparr>"
    have step: "spinForRoom_from attempt before poll (Suc left) s = spinForRoom_from attempt before (Suc poll) left ?s"
      using False Suc.prems look q'(1) by auto
    obtain r s' where r: "spinForRoom_from attempt before (Suc poll) left ?s = ret r s'" "wq_at st (wk_queue s') n xs False C P"
      "wk_script s' = []" "ctx_later (wk_ctx ?s) (wk_ctx s')" "r = None \<or> r = Some (no_room ?s) \<and> cx_left (wk_ctx ?s) \<noteq> None"
      using Suc.IH [of ?s "Suc poll"] q'(2) s1(2) by (auto simp del: spinForRoom_from.simps)
    have "no_room ?s = no_room s" using s1(4) by (simp add: no_room_def ctx_Err_def)
    then show ?thesis using step r s1 ctx_later_trans [OF s1(3)]
      by (intro exI [of _ r] exI [of _ s']) (auto simp: ctx_later_def)
  qed
qed

lemma spinForRoom_idle:
  assumes "refuses st attempt n xs" "wq_at st (wk_queue s) n xs False C P" "wk_script s = []"
  shows "\<exists>r s'. spinForRoom attempt before s = ret r s' \<and> wq_at st (wk_queue s') n xs False C P
    \<and> wk_script s' = [] \<and> ctx_later (wk_ctx s) (wk_ctx s')
    \<and> (r = None \<or> r = Some (no_room s) \<and> cx_left (wk_ctx s) \<noteq> None)"
  unfolding spinForRoom_def by (rule spinForRoom_from_idle [OF assms])

lemma attemptRegistered_idle:
  assumes "refuses st attempt n xs" "wq_at st (wk_queue s) n xs False C P" "0 < fst P" "wk_script s = []"
  defines "over \<equiv> cx_left (wk_ctx s) = Some 0"
  shows "\<exists>s'. attemptRegistered attempt before s = ret (if over then Some (no_room s) else None) s'
    \<and> wq_at st (wk_queue s') n xs False C (if over then (fst P - 1, snd P) else P)
    \<and> wk_script s' = [] \<and> wk_ctx s' = looked (wk_ctx s)"
proof -
  obtain q' where q': "with_queue attempt s = ret 0 (s\<lparr>wk_queue := q'\<rparr>)" "wq_at st q' n xs False C P"
    using attempt_refused [OF assms(1,2,4)] by blast
  let ?s = "s\<lparr>wk_queue := q', wk_ctx := looked (wk_ctx s)\<rparr>"
  have eq: "attemptRegistered attempt before s = (if over
      then and_then (with_queue leaveProducerPolling ?s) (\<lambda>_ s4. and_then (producerContextError before s4) (\<lambda>e. ret (Some (0, Some e)))) else ret None ?s)"
    using assms(2,4) q' by (simp add: attemptRegistered_def isDone_eq over_def)
  have full: "length xs = qc_cap (sg_conf st)" using assms(1) by (simp add: refuses_def)
  obtain b q2 where q2: "leaveProducerPolling q' = ret b q2" "wq_at st q2 n xs False C (fst P - 1, snd P)"
    using leaveProducerPolling_ok [OF q'(2) assms(3)] full by auto
  let ?s2 = "?s\<lparr>wk_queue := q2\<rparr>"
  have "with_queue leaveProducerPolling ?s = ret b ?s2" using with_queue_ret [of ?s leaveProducerPolling] q2(1) assms(4) by simp
  moreover have "producerContextError before ?s2 = ret (ctx_Err s) ?s2"
    using producerContextError_open [of st ?s2 n xs C _ before] q2(2) assms(4) by (simp add: ctx_Err_def)
  ultimately show ?thesis using eq q'(2) q2(2) assms(4)
    by (intro exI [of _ "if over then ?s2 else ?s"]) (simp add: no_room_def)
qed

lemma yieldForRoom_from_idle:
  assumes "refuses st attempt n xs" "wq_at st (wk_queue s) n xs False C P" "0 < fst P" "wk_script s = []"
  shows "\<exists>r s'. yieldForRoom_from attempt before poll left s = ret r s' \<and> wk_script s' = [] \<and> ctx_later (wk_ctx s) (wk_ctx s')
    \<and> (r = None \<and> wq_at st (wk_queue s') n xs False C P
      \<or> r = Some (no_room s) \<and> cx_left (wk_ctx s) \<noteq> None \<and> wq_at st (wk_queue s') n xs False C (fst P - 1, snd P))"
  using assms(2,4)
proof (induction left arbitrary: poll s)
  case 0
  then show ?case by (intro exI [of _ None] exI [of _ s]) simp
next
  case (Suc left)
  have g: "(if poll > 0 then Gosched s else s) = s" using Suc.prems(2) by simp
  let ?over = "cx_left (wk_ctx s) = Some 0"
  obtain s1 where s1: "attemptRegistered attempt before s = ret (if ?over then Some (no_room s) else None) s1"
    "wq_at st (wk_queue s1) n xs False C (if ?over then (fst P - 1, snd P) else P)" "wk_script s1 = []" "wk_ctx s1 = looked (wk_ctx s)"
    using attemptRegistered_idle [OF assms(1) Suc.prems(1) assms(3) Suc.prems(2), of before] by auto
  show ?case
  proof (cases ?over)
    case True
    then show ?thesis using s1 by (intro exI [of _ "Some (no_room s)"] exI [of _ s1]) (simp add: g del: not_None_eq)
  next
    case False
    then have at1: "wq_at st (wk_queue s1) n xs False C P" using s1(2) by simp
    have step: "yieldForRoom_from attempt before poll (Suc left) s = yieldForRoom_from attempt before (Suc poll) left s1"
      using False s1(1) by (simp add: g)
    obtain r s' where r: "yieldForRoom_from attempt before (Suc poll) left s1 = ret r s'" "wk_script s' = []" "ctx_later (wk_ctx s1) (wk_ctx s')"
      "r = None \<and> wq_at st (wk_queue s') n xs False C P
        \<or> r = Some (no_room s1) \<and> cx_left (wk_ctx s1) \<noteq> None \<and> wq_at st (wk_queue s') n xs False C (fst P - 1, snd P)"
      using Suc.IH [OF at1 s1(3), of "Suc poll"] by (elim exE conjE) (rule that)
    have "no_room s1 = no_room s" "cx_left (wk_ctx s1) \<noteq> None \<longleftrightarrow> cx_left (wk_ctx s) \<noteq> None"
      using s1(4) by (auto simp: no_room_def ctx_Err_def looked_def)
    then show ?thesis using step r s1(4) by (intro exI [of _ r] exI [of _ s']) (auto simp: ctx_later_def)
  qed
qed

lemma yieldForRoom_idle:
  assumes "refuses st attempt n xs" "wq_at st (wk_queue s) n xs False C P" "0 < fst P" "wk_script s = []"
  shows "\<exists>r s'. yieldForRoom attempt before wkn s = ret r s' \<and> wk_script s' = [] \<and> ctx_later (wk_ctx s) (wk_ctx s')
    \<and> (r = None \<and> wq_at st (wk_queue s') n xs False C P
      \<or> r = Some (no_room s) \<and> cx_left (wk_ctx s) \<noteq> None \<and> wq_at st (wk_queue s') n xs False C (fst P - 1, snd P))"
  unfolding yieldForRoom_def Let_def by (rule yieldForRoom_from_idle [OF assms])

lemma pushWithoutParking_idle:
  assumes "refuses st attempt n xs" "wq_at st (wk_queue s) n xs False C P" "0 < fst P" "wk_script s = []" "cx_left (wk_ctx s) = Some k"
  shows "\<exists>s'. pushWithoutParking attempt before s = ret (no_room s) s' \<and> wq_at st (wk_queue s') n xs False C (fst P - 1, snd P)
    \<and> wk_script s' = [] \<and> ctx_later (wk_ctx s) (wk_ctx s')"
  using assms(2,4,5)
proof (induction k arbitrary: s)
  case 0
  obtain s1 where "attemptRegistered attempt before s = ret (Some (no_room s)) s1"
    "wq_at st (wk_queue s1) n xs False C (fst P - 1, snd P)" "wk_script s1 = []" "wk_ctx s1 = looked (wk_ctx s)"
    using attemptRegistered_idle [OF assms(1) 0(1) assms(3) 0(2), of before] 0(3) by auto
  then show ?case by (subst pushWithoutParking.simps) (intro exI [of _ s1], simp)
next
  case (Suc k)
  obtain s1 where s1: "attemptRegistered attempt before s = ret None s1" "wq_at st (wk_queue s1) n xs False C P" "wk_script s1 = []"
    "wk_ctx s1 = looked (wk_ctx s)"
    using attemptRegistered_idle [OF assms(1) Suc.prems(1) assms(3) Suc.prems(2), of before] Suc.prems(3) by auto
  have g: "Gosched s1 = s1" using s1(3) by simp
  have left: "cx_left (wk_ctx s1) = Some k" using s1(4) Suc.prems(3) by (simp add: looked_def)
  obtain s' where r: "pushWithoutParking attempt before s1 = ret (no_room s1) s'" "wq_at st (wk_queue s') n xs False C (fst P - 1, snd P)"
    "wk_script s' = []" "ctx_later (wk_ctx s1) (wk_ctx s')"
    using Suc.IH [OF s1(2,3) left] by (elim exE conjE) (rule that)
  have "no_room s1 = no_room s" using s1(4) by (simp add: no_room_def ctx_Err_def)
  moreover have "pushWithoutParking attempt before s = pushWithoutParking attempt before (Gosched s1)"
    using s1(1) by (subst pushWithoutParking.simps) simp
  ultimately show ?case using r s1(4) unfolding g by (intro exI [of _ s']) (auto simp: ctx_later_def)
qed

lemma pushWithoutParking_never:
  assumes "refuses st attempt n xs" "wq_at st (wk_queue s) n xs False C P" "0 < fst P" "wk_script s = []" "cx_left (wk_ctx s) = None"
  shows "pushWithoutParking attempt before s = None"
proof (rule ccontr)
  assume "pushWithoutParking attempt before s \<noteq> None"
  then obtain out where "pushWithoutParking attempt before s = Some out" by blast
  then have "\<not> (refuses st attempt n xs \<and> wq_at st (wk_queue s) n xs False C P \<and> wk_script s = [] \<and> cx_left (wk_ctx s) = None)"
  proof (rule pushWithoutParking.raw_induct [rotated], goal_cases)
    case (1 f attempt before s out)
    show ?case
    proof
      assume a: "refuses st attempt n xs \<and> wq_at st (wk_queue s) n xs False C P \<and> wk_script s = [] \<and> cx_left (wk_ctx s) = None"
      then obtain s1 where s1: "attemptRegistered attempt before s = ret None s1" "wq_at st (wk_queue s1) n xs False C P" "wk_script s1 = []"
        "wk_ctx s1 = looked (wk_ctx s)"
        using attemptRegistered_idle [of st attempt n xs s C P before] assms(3) by auto
      then have "f attempt before s1 = Some out" using 1(2) by simp
      from 1(1) [OF this] a s1(2-4) show False by simp
    qed
  qed
  with assms show False by simp
qed

lemma update_producers_frame [simp]:
  "wk_ctx (update_producers f s) = wk_ctx s" "wk_script (update_producers f s) = wk_script s"
  "wq_producers (wk_queue (update_producers f s)) = f (wq_producers (wk_queue s))"
  by (simp_all add: update_producers_def)

lemma wq_at_update_producers:
  "wq_at st (wk_queue s) n xs c C P \<Longrightarrow> side_in (f (wq_producers (wk_queue s))) P' c \<Longrightarrow>
     wq_at st (wk_queue (update_producers f s)) n xs c C P'"
  by (simp add: update_producers_def wq_at_producers)

lemma parked_producer:
  assumes "refuses st attempt n xs" "wq_at st (wk_queue s) n xs False C P" "0 < fst P" "owned (wq_producers (wk_queue s)) w"
    "length (snd P) + 1 < 2 ^ 31" "wk_script s = []"
  shows "\<exists>s1 s2. with_queue (on_producers (\<lambda>side. enlist side w atNewest)) s = ret False s1
    \<and> with_queue attempt s1 = ret 0 s2 \<and> wk_ctx s2 = wk_ctx s \<and> wk_script s2 = []
    \<and> wq_at st (wk_queue s2) n xs False C (fst P - 1, snd P @ [w])
    \<and> w \<notin> set (ws_pool (wq_producers (wk_queue s2))) \<and> w < ws_fresh (wq_producers (wk_queue s2))"
proof -
  have side: "side_in (wq_producers (wk_queue s)) P False" using assms(2) by (simp add: wq_at_def)
  obtain side' where e: "enlist (wq_producers (wk_queue s)) w atNewest = ret False side'"
    "side_in side' (fst P - 1, snd P @ [w]) False" "w \<notin> set (ws_pool side')" "w < ws_fresh side'"
    using enlist_in [OF side assms(3-5), of atNewest] by (auto simp: enlisted_def)
  let ?s1 = "s\<lparr>wk_queue := (wk_queue s)\<lparr>wq_producers := side'\<rparr>\<rparr>"
  have at1: "wq_at st (wk_queue ?s1) n xs False C (fst P - 1, snd P @ [w])" using wq_at_producers [OF assms(2) e(2)] by simp
  obtain q2 where q2: "with_queue attempt ?s1 = ret 0 (?s1\<lparr>wk_queue := q2\<rparr>)" "wq_at st q2 n xs False C (fst P - 1, snd P @ [w])"
    "wq_producers q2 = wq_producers (wk_queue ?s1)"
    using attempt_refused [OF assms(1) at1] assms(6) by auto
  have "with_queue (on_producers (\<lambda>side. enlist side w atNewest)) s = ret False ?s1"
    by (rule with_queue_ret [OF assms(6)], rule on_producers_ret) (rule e(1))
  then show ?thesis using q2 e(3,4) assms(6) by (intro exI [of _ ?s1] exI [of _ "?s1\<lparr>wk_queue := q2\<rparr>"]) simp
qed

lemma leaveProducerList_ok:
  assumes "wq_at st q n xs c C (k, ys @ w # zs)" "w \<notin> set (ws_pool (wq_producers q))" "w < ws_fresh (wq_producers q)"
  shows "\<exists>q'. leaveProducerList w False q = ret False q' \<and> wq_at st q' n xs c C (k, ys @ zs) \<and> owned (wq_producers q') w"
proof -
  have side: "side_in (wq_producers q) (k, ys @ w # zs) c" using assms(1) by (simp add: wq_at_def)
  obtain side' where "leaveListWith (peek_and_wake peekRoom) (wq_engine q) (wq_producers q) w False = ret False (wq_engine q, side')"
    "side_in side' (k, ys @ zs) c" "owned side' w"
    using leaveList_in [OF side assms(2,3), where 'e = "'a engine"] by auto
  with wq_at_producers [OF assms(1)] show ?thesis
    by (intro exI [of _ "q\<lparr>wq_producers := side'\<rparr>"]) (simp add: leaveProducerList_def leaveList_def on_producers_with_def)
qed

lemma parkForRoom_as_idle:
  assumes "refuses st attempt n xs" "wq_at st (wk_queue s) n xs False C P" "0 < fst P" "owned (wq_producers (wk_queue s)) w"
    "length (snd P) + 1 < 2 ^ 31" "wk_script s = []"
  shows "if cx_left (wk_ctx s) = None then parkForRoom_as ch attempt before atNewest w s = None
    else \<exists>s'. parkForRoom_as ch attempt before atNewest w s = ret (Some (no_room s)) s'
      \<and> wq_at st (wk_queue s') n xs False C (fst P - 1, snd P) \<and> owned (wq_producers (wk_queue s')) w"
proof -
  obtain s1 s2 where s: "with_queue (on_producers (\<lambda>side. enlist side w atNewest)) s = ret False s1"
    "with_queue attempt s1 = ret 0 s2" "wk_ctx s2 = wk_ctx s" "wk_script s2 = []"
    "wq_at st (wk_queue s2) n xs False C (fst P - 1, snd P @ [w])"
    "w \<notin> set (ws_pool (wq_producers (wk_queue s2)))" "w < ws_fresh (wq_producers (wk_queue s2))"
    using parked_producer [OF assms(1-6)] by (elim exE conjE) (rule that)
  let ?s3 = "s2\<lparr>wk_ctx := (wk_ctx s)\<lparr>cx_left := Some 0\<rparr>\<rparr>"
  have "\<not> wt_token (ws_heap (wq_producers (wk_queue s2)) w)" "\<not> wq_done (wk_queue s2)"
    using s(5) no_token [of "wq_producers (wk_queue s2)" "fst P - 1" "snd P" w "[]"] by (auto simp: wq_at_def)
  then have sel: "park_select wq_producers (pick_case ch) w s2 = (if cx_left (wk_ctx s) = None then None else ret ParkContext ?s3)"
    using park_select_idle [of wq_producers s2 w] s(3,4) assms(6) by simp
  obtain q' where q': "leaveProducerList w False (wk_queue s2) = ret False q'" "wq_at st q' n xs False C (fst P - 1, snd P)"
    "owned (wq_producers q') w"
    using leaveProducerList_ok [of st "wk_queue s2" n xs False C "fst P - 1" "snd P" w "[]"] s(5-7) by auto
  let ?s4 = "?s3\<lparr>wk_queue := q'\<rparr>"
  have leave: "with_queue (leaveProducerList w False) ?s3 = ret False ?s4" by (rule with_queue_ret) (simp_all add: q'(1) s(4))
  have "producerContextError before ?s4 = ret (ctx_Err s) ?s4"
    using producerContextError_open [of st ?s4 n xs C _ before] q'(2) s(4) by (simp add: ctx_Err_def)
  then have "parkForRoom_as ch attempt before atNewest w s = (if cx_left (wk_ctx s) = None then None else ret (Some (no_room s)) ?s4)"
    using s(1,2) sel leave by (simp add: parkForRoom_as_def no_room_def)
  then show ?thesis using q' by auto
qed

text \<open>The waiter of one call: taken from the pool, used, and put back clean.\<close>

lemma parkForRoom_eq:
  assumes "wq_at st (wk_queue s) n xs False C P"
  obtains w s1 where "parkForRoom ch attempt before False s =
      finally_do (update_producers (\<lambda>side. putWaiter side w)) (parkForRoom_as ch attempt before atNewest w s1)"
    "wq_at st (wk_queue s1) n xs False C P" "owned (wq_producers (wk_queue s1)) w" "wk_ctx s1 = wk_ctx s" "wk_script s1 = wk_script s"
proof -
  obtain side w where g: "getWaiter (pick_pool ch) (wq_producers (wk_queue s)) = (side, w)"
    by (cases "getWaiter (pick_pool ch) (wq_producers (wk_queue s))")
  have in1: "side_in side P False" "owned side w" using getWaiter_in [OF _ g, of P False] assms by (simp_all add: wq_at_def)
  show ?thesis
  proof (rule that [of w "update_producers (\<lambda>_. side) s"])
    show "parkForRoom ch attempt before False s = finally_do (update_producers (\<lambda>side. putWaiter side w))
        (parkForRoom_as ch attempt before atNewest w (update_producers (\<lambda>_. side) s))"
      by (simp add: parkForRoom_def g)
  qed (use in1 wq_at_update_producers [OF assms, of "\<lambda>_. side"] in simp_all)
qed

lemma put_back:
  assumes "wq_at st (wk_queue s) n xs c C P" "owned (wq_producers (wk_queue s)) w"
  shows "wq_at st (wk_queue (update_producers (\<lambda>side. putWaiter side w) s)) n xs c C P"
proof -
  have "side_in (wq_producers (wk_queue s)) P c" using assms(1) by (simp add: wq_at_def)
  then show ?thesis using putWaiter_in assms(2) by (intro wq_at_update_producers [OF assms(1)]) blast
qed

lemma parkForRoom_idle:
  assumes "refuses st attempt n xs" "wq_at st (wk_queue s) n xs False C P" "0 < fst P" "length (snd P) + 1 < 2 ^ 31" "wk_script s = []"
  shows "if cx_left (wk_ctx s) = None then parkForRoom ch attempt before False s = None
    else \<exists>s'. parkForRoom ch attempt before False s = ret (Some (no_room s)) s' \<and> wq_at st (wk_queue s') n xs False C (fst P - 1, snd P)"
proof -
  obtain w s1 where w: "parkForRoom ch attempt before False s =
      finally_do (update_producers (\<lambda>side. putWaiter side w)) (parkForRoom_as ch attempt before atNewest w s1)"
    "wq_at st (wk_queue s1) n xs False C P" "owned (wq_producers (wk_queue s1)) w" "wk_ctx s1 = wk_ctx s" "wk_script s1 = wk_script s"
    by (rule parkForRoom_eq [OF assms(2)])
  have "no_room s1 = no_room s" using w(4) by (simp add: no_room_def ctx_Err_def)
  note p = parkForRoom_as_idle [OF assms(1) w(2) assms(3) w(3) assms(4), of ch before, unfolded this w(4,5), OF assms(5)]
  show ?thesis
  proof (cases "cx_left (wk_ctx s) = None")
    case True
    then show ?thesis using p w(1) by simp
  next
    case False
    then obtain s' where s': "parkForRoom_as ch attempt before atNewest w s1 = ret (Some (no_room s)) s'"
      "wq_at st (wk_queue s') n xs False C (fst P - 1, snd P)" "owned (wq_producers (wk_queue s')) w"
      using p by auto
    then have "\<exists>s'. parkForRoom ch attempt before False s = ret (Some (no_room s)) s' \<and> wq_at st (wk_queue s') n xs False C (fst P - 1, snd P)"
      using w(1) put_back [OF s'(2,3)] by (intro exI [of _ "update_producers (\<lambda>side. putWaiter side w) s'"]) simp
    then show ?thesis unfolding if_not_P [OF False] .
  qed
qed

lemma pushWait_loop_idle:
  assumes "refuses st attempt n xs" "wq_at st (wk_queue s) n xs False C P" "0 < fst P" "length (snd P) + 1 < 2 ^ 31" "wk_script s = []"
  shows "if cx_left (wk_ctx s) = None then pushWait_loop ch attempt before False s = None
    else \<exists>s'. pushWait_loop ch attempt before False s = ret (no_room s) s' \<and> wq_at st (wk_queue s') n xs False C (fst P - 1, snd P)"
proof -
  obtain r s1 where y: "yieldForRoom attempt before False s = ret r s1" "wk_script s1 = []" "ctx_later (wk_ctx s) (wk_ctx s1)"
    "r = None \<and> wq_at st (wk_queue s1) n xs False C P
      \<or> r = Some (no_room s) \<and> cx_left (wk_ctx s) \<noteq> None \<and> wq_at st (wk_queue s1) n xs False C (fst P - 1, snd P)"
    using yieldForRoom_idle [OF assms(1-3,5), where wkn = False and before = before] by (elim exE conjE) (rule that)
  show ?thesis
  proof (cases r)
    case (Some v)
    then have "pushWait_loop ch attempt before False s = ret v s1" using y(1) by (subst pushWait_loop.simps) simp
    then show ?thesis using Some y(4) by auto
  next
    case None
    then have at1: "wq_at st (wk_queue s1) n xs False C P" using y(4) by simp
    have same: "no_room s1 = no_room s" "cx_left (wk_ctx s1) = None \<longleftrightarrow> cx_left (wk_ctx s) = None"
      using y(3) by (auto simp: no_room_def ctx_Err_def ctx_later_def)
    have eq: "pushWait_loop ch attempt before False s = (if st_NeverPark (sg_producerWait st) then pushWithoutParking attempt before s1
        else and_then (parkForRoom ch attempt before False s1) (\<lambda>r s2. case r of Some v \<Rightarrow> ret v s2 | None \<Rightarrow> pushWait_loop ch attempt before True s2))"
      using y(1) None settings_waits [OF at1] by (subst pushWait_loop.simps) simp
    show ?thesis
    proof (cases "st_NeverPark (sg_producerWait st)")
      case True
      then show ?thesis using eq same pushWithoutParking_never [OF assms(1) at1 assms(3) y(2), of before]
          pushWithoutParking_idle [OF assms(1) at1 assms(3) y(2), of _ before] by (cases "cx_left (wk_ctx s1)") auto
    next
      case False
      then show ?thesis using eq same parkForRoom_idle [OF assms(1) at1 assms(3,4) y(2), of ch before] by auto
    qed
  qed
qed

lemma registerProducer_ok:
  assumes "wq_at st q n xs c C P" "fst P + 1 < 2 ^ 31"
  shows "\<exists>q'. registerProducer q = ret c q' \<and> wq_at st q' n xs c C (if c then P else (fst P + 1, snd P))"
proof -
  have "side_in (wq_producers q) P c" using assms(1) by (simp add: wq_at_def)
  from register_in [OF this assms(2)] obtain side where s: "register (wq_producers q) = Some (side, c)"
    "side_in side (if c then P else (fst P + 1, snd P)) c" by blast
  have "registerProducer q = ret c (q\<lparr>wq_producers := side\<rparr>)"
    unfolding registerProducer_def by (rule on_producers_ret) (simp add: s(1))
  with wq_at_producers [OF assms(1) s(2)] show ?thesis by blast
qed

lemma pushWait_idle:
  assumes "refuses st attempt n xs" "wq_at st (wk_queue s) n xs False C P" "fst P + 1 < 2 ^ 31" "length (snd P) + 1 < 2 ^ 31" "wk_script s = []"
  shows "if cx_left (wk_ctx s) = None then pushWait ch attempt before s = None
    else \<exists>s'. pushWait ch attempt before s = ret (no_room s) s' \<and> wq_at st (wk_queue s') n xs False C P"
proof -
  obtain r s1 where sp: "spinForRoom attempt before s = ret r s1" "wq_at st (wk_queue s1) n xs False C P" "wk_script s1 = []"
    "ctx_later (wk_ctx s) (wk_ctx s1)" "r = None \<or> r = Some (no_room s) \<and> cx_left (wk_ctx s) \<noteq> None"
    using spinForRoom_idle [OF assms(1,2,5), of before] by (elim exE conjE) (rule that)
  show ?thesis
  proof (cases r)
    case (Some v)
    then show ?thesis using sp by (simp add: pushWait_def)
  next
    case None
    obtain q1 where reg: "registerProducer (wk_queue s1) = ret False q1" "wq_at st q1 n xs False C (fst P + 1, snd P)"
      using registerProducer_ok [OF sp(2) assms(3)] by auto
    let ?s = "s1\<lparr>wk_queue := q1\<rparr>"
    have at1: "wq_at st (wk_queue ?s) n xs False C (fst P + 1, snd P)" using reg(2) by simp
    have same: "no_room ?s = no_room s" "cx_left (wk_ctx ?s) = None \<longleftrightarrow> cx_left (wk_ctx s) = None"
      using sp(4) by (auto simp: no_room_def ctx_Err_def ctx_later_def)
    have "pushWait ch attempt before s = pushWait_loop ch attempt before False ?s"
      using sp(1) None with_queue_ret [where f = registerProducer, OF sp(3) reg(1)] by (simp add: pushWait_def)
    then show ?thesis
      using pushWait_loop_idle [OF assms(1) at1, of ch before] assms(4) sp(3) same by auto
  qed
qed

section \<open>Push\<close>

text \<open>
  C17. \<^verbatim>\<open>Push\<close>, when no other goroutine acts during the call. It reports \<^verbatim>\<open>ErrClosed\<close> on a closed queue and
  changes nothing; it appends the item when there is room and then leaves no consumer parked without
  somebody polling; on a full queue it waits, returns the context's error once the context is done, having
  given back its registration and left the queue as it was, and never returns when the context is
  never done.
\<close>

theorem Push_decides:
  fixes x :: "'a::zero"
  assumes "wq_at st (wk_queue s) (Suc n) xs c C P" "fst P + 1 < 2 ^ 31" "length (snd P) + 1 < 2 ^ 31" "wk_script s = []"
  shows "if c then Push ch x s = ret (Some ErrClosed) s
    else if length xs < qc_cap (sg_conf st) then \<exists>s' C'. Push ch x s = ret None s'
        \<and> wq_at st (wk_queue s') n (xs @ [x]) False C' P \<and> served C C' True
    else if cx_left (wk_ctx s) = None then Push ch x s = None
    else \<exists>s'. Push ch x s = ret (Some (ctx_Err s)) s' \<and> wq_at st (wk_queue s') (Suc n) xs False C P"
proof -
  consider c | "\<not> c" "length xs < qc_cap (sg_conf st)" | "\<not> c" "\<not> length xs < qc_cap (sg_conf st)" by blast
  then show ?thesis
  proof cases
    case 1
    then show ?thesis using assms(1,4) by (simp add: Push_def)
  next
    case 2
    have at: "wq_at st (wk_queue s) (Suc n) xs False C P" using assms(1) 2(1) by simp
    obtain q1 where q1: "enqueueAttempt x (wk_queue s) = ret 1 q1" "wq_at st q1 n (xs @ [x]) False C P"
      using enqueueAttempt_ok [OF at, of x] 2(2) by auto
    obtain q2 j where c: "consumerWakeCheck q1 = ret None q2" "wakes_consumers st q1 q2 n (xs @ [x]) False C P j" "snd C = [] \<or> 0 < fst C + j"
      using consumerWakeCheck_ok [OF q1(2)] by (elim exE conjE) (simp add: that)
    have "Push ch x s = ret None (s\<lparr>wk_queue := q2\<rparr>)" using at q1(1) c(1) assms(4) by (simp add: Push_def with_queue_def)
    moreover have "served C (fst C + j, drop j (snd C)) True" using wakes_consumers_at [OF c(2)] c(3) by (auto simp: served_def)
    ultimately show ?thesis using 2 wakes_consumers_at [OF c(2)] by auto
  next
    case 3
    have at: "wq_at st (wk_queue s) (Suc n) xs False C P" using assms(1) 3(1) by simp
    have "length xs = qc_cap (sg_conf st)" using wq_at_room [OF assms(1)] 3(2) by simp
    note full = enqueue_refuses [OF this, of x n]
    obtain q1 where q1: "with_queue (enqueueAttempt x) s = ret 0 (s\<lparr>wk_queue := q1\<rparr>)" "wq_at st q1 (Suc n) xs False C P"
      using attempt_refused [OF full at assms(4)] by blast
    let ?s = "s\<lparr>wk_queue := q1\<rparr>"
    have at1: "wq_at st (wk_queue ?s) (Suc n) xs False C P" using q1(2) by simp
    have eq: "Push ch x s = and_then (pushWait ch (enqueueAttempt x) 0 ?s) (\<lambda>(_, err). ret err)"
      using at q1(1) assms(4) by (simp add: Push_def)
    have "no_room ?s = (0, Some (ctx_Err s))" by (simp add: no_room_def ctx_Err_def)
    with pushWait_idle [OF full at1 assms(2,3), of ch 0] assms(4) show ?thesis
      using 3 eq by auto
  qed
qed

theorem Push_decides_witness:
  "\<exists>q s'. wq_New 4 2 [] = Inr q
    \<and> Push \<lparr>pick_pool = None, pick_case = 0\<rparr> (7 :: int)
        \<lparr>wk_queue = q, wk_ctx = \<lparr>cx_left = None, cx_err = Canceled\<rparr>, wk_script = []\<rparr> = ret None s'
    \<and> engine_contents (wq_engine (wk_queue s')) = [7]"
proof -
  obtain q :: "int wq_queue" where q: "wq_New 4 2 [] = Inr q" using small_queue_exists by blast
  let ?s = "\<lparr>wk_queue = q, wk_ctx = \<lparr>cx_left = None, cx_err = Canceled\<rparr>, wk_script = []\<rparr>"
  have cap: "qc_cap (sg_conf (settings_of q)) = 2" using wq_New_ok(2) [OF q, of 1] by simp
  have "wq_at (settings_of q) (wk_queue ?s) (Suc 0) [] False (0, []) (0, [])" using wq_New_ok(1) [OF q, of 1] by simp
  from Push_decides [OF this, of "\<lparr>pick_pool = None, pick_case = 0\<rparr>" 7] q cap
  show ?thesis by (auto simp: wq_at_def)
qed

section \<open>PushBatch\<close>

lemma pushChunk_full:
  assumes "wq_at st (wk_queue s) (length (drop pushed chunk) + n) xs False C P" "length xs = qc_cap (sg_conf st)" "pushed < length chunk"
    "fst P + 1 < 2 ^ 31" "length (snd P) + 1 < 2 ^ 31" "wk_script s = []"
  shows "if cx_left (wk_ctx s) = None then pushChunk ch chunk before pushed s = None
    else \<exists>s'. pushChunk ch chunk before pushed s = ret (pushed, Some (ctx_Err s)) s' \<and> wq_at st (wk_queue s') n xs False C P"
proof -
  note full = burst_refuses [OF assms(2), of "drop pushed chunk" n]
  obtain q1 where q1: "with_queue (burstAttempt (drop pushed chunk)) s = ret 0 (s\<lparr>wk_queue := q1\<rparr>)"
    "wq_at st q1 (length (drop pushed chunk) + n) xs False C P"
    using attempt_refused [OF full assms(1,6)] by blast
  let ?s = "s\<lparr>wk_queue := q1\<rparr>"
  have at1: "wq_at st (wk_queue ?s) (length (drop pushed chunk) + n) xs False C P" using q1(2) by simp
  have eq: "pushChunk ch chunk before pushed s =
      and_then (pushWait ch (burstAttempt (drop pushed chunk)) (before + pushed) ?s) (\<lambda>(moved, err) s2.
        if err \<noteq> None then ret (pushed + nat moved, err) s2 else pushChunk ch chunk before (pushed + nat moved) s2)"
    using assms(3) q1(1) by (subst pushChunk.simps) simp
  have "no_room ?s = (0, Some (ctx_Err s))" by (simp add: no_room_def ctx_Err_def)
  with pushWait_idle [OF full at1 assms(4,5), of ch "before + pushed"] assms(6) show ?thesis
    using eq wq_at_less [of st _ "length (drop pushed chunk) + n" xs False C P n] by auto
qed

text \<open>One chunk: what fits of it, then the wait for the rest.\<close>

lemma pushChunk_idle:
  assumes "wq_at st (wk_queue s) (2 * length chunk + n) xs False C P" "length chunk \<le> qc_maxE (sg_conf st)"
    "fst P + 1 < 2 ^ 31" "length (snd P) + 1 < 2 ^ 31" "wk_script s = []"
    "m = min (length chunk) (qc_cap (sg_conf st) - length xs)"
  shows "if m < length chunk \<and> cx_left (wk_ctx s) = None then pushChunk ch chunk before 0 s = None
    else \<exists>s' C'. pushChunk ch chunk before 0 s = ret (m, if m < length chunk then Some (ctx_Err s) else None) s'
      \<and> wq_at st (wk_queue s') n (xs @ take m chunk) False C' P \<and> served C C' (0 < m)
      \<and> (m = length chunk \<longrightarrow> wk_ctx s' = wk_ctx s \<and> wk_script s' = [])"
proof (cases "m = 0")
  case zero: True
  show ?thesis
  proof (cases "chunk = []")
    case True
    then have "pushChunk ch chunk before 0 s = ret (0, None) s" by (subst pushChunk.simps) simp
    then show ?thesis using True assms(1,5) zero by (intro iffD2 [OF if_not_P] exI [of _ s] exI [of _ C]) simp_all
  next
    case False
    then have full: "length xs = qc_cap (sg_conf st)" "0 < length chunk" using zero assms(6) wq_at_room [OF assms(1)] by (auto simp: min_def split: if_splits)
    have "wq_at st (wk_queue s) (length (drop 0 chunk) + n) xs False C P" by (rule wq_at_less [OF assms(1)]) simp
    note r = pushChunk_full [OF this full assms(3-5), of ch before]
    show ?thesis
    proof (cases "cx_left (wk_ctx s) = None")
      case True
      then show ?thesis using r zero False by simp
    next
      case some: False
      then obtain s' where "pushChunk ch chunk before 0 s = ret (0, Some (ctx_Err s)) s'" "wq_at st (wk_queue s') n xs False C P"
        using r by auto
      then show ?thesis using some zero False by (intro iffD2 [OF if_not_P] exI [of _ s'] exI [of _ C]) simp_all
    qed
  qed
next
  case False
  have at: "wq_at st (wk_queue s) (length chunk + (length chunk + n)) xs False C P" using assms(1) by (simp add: mult_2 add.assoc)
  obtain q1 q2 C' where q: "burstAttempt chunk (wk_queue s) = ret (int m) q1" "consumerWakeCheck q1 = ret None q2"
    "wq_at st q2 (length chunk + n) (xs @ take m chunk) False C' P" "served C C' True"
    using push_chunk_ok [OF at assms(2), folded assms(6)] False by auto
  let ?s = "s\<lparr>wk_queue := q2\<rparr>"
  have "0 < length chunk" using False assms(6) by (auto simp: min_def split: if_splits)
  then have eq: "pushChunk ch chunk before 0 s = pushChunk ch chunk before m ?s"
    using q(1,2) False assms(5) by (subst pushChunk.simps) (simp add: with_queue_def)
  show ?thesis
  proof (cases "m < length chunk")
    case True
    then have full: "length (xs @ take m chunk) = qc_cap (sg_conf st)" using assms(6) wq_at_room [OF assms(1)] by (auto simp: min_def split: if_splits)
    have "wq_at st (wk_queue ?s) (length (drop m chunk) + n) (xs @ take m chunk) False C' P"
      by (rule wq_at_less [of _ _ "length chunk + n"]) (use q(3) in simp_all)
    note r = pushChunk_full [OF this full True assms(3,4), of ch before]
    show ?thesis
    proof (cases "cx_left (wk_ctx s) = None")
      case none: True
      then show ?thesis using r eq True assms(5) by simp
    next
      case some: False
      then obtain s' where "pushChunk ch chunk before m ?s = ret (m, Some (ctx_Err s)) s'"
        "wq_at st (wk_queue s') n (xs @ take m chunk) False C' P"
        using r assms(5) by (auto simp: ctx_Err_def)
      then show ?thesis using some True False eq q(4) by (intro iffD2 [OF if_not_P] exI [of _ s'] exI [of _ C']) simp_all
    qed
  next
    case all: False
    then have "m = length chunk" using assms(6) by simp
    moreover have "pushChunk ch chunk before m ?s = ret (m, None) ?s" using all by (subst pushChunk.simps) simp
    moreover have "wq_at st (wk_queue ?s) n (xs @ take m chunk) False C' P" using wq_at_less [OF q(3), of n] by simp
    ultimately show ?thesis using eq q(4) assms(5) False by (cases C') auto
  qed
qed

lemma pushChunk_all:
  assumes "wq_at st (wk_queue s) (2 * length chunk + n) xs False C P" "length chunk \<le> qc_maxE (sg_conf st)"
    "fst P + 1 < 2 ^ 31" "length (snd P) + 1 < 2 ^ 31" "wk_script s = []"
    "length chunk \<le> qc_cap (sg_conf st) - length xs"
  shows "\<exists>s' C'. pushChunk ch chunk before 0 s = ret (length chunk, None) s' \<and> wq_at st (wk_queue s') n (xs @ chunk) False C' P
    \<and> served C C' (0 < length chunk) \<and> wk_ctx s' = wk_ctx s \<and> wk_script s' = []"
  using pushChunk_idle [OF assms(1-5), of "length chunk" ch before] assms(6) by simp

definition batch_accepted :: "settings \<Rightarrow> nat \<Rightarrow> 'a list \<Rightarrow> nat \<Rightarrow> 'a list \<Rightarrow> nat \<times> nat list \<Rightarrow> nat \<times> nat list \<Rightarrow> ctx
    \<Rightarrow> ('a work, nat \<times> work_error option) outcome option \<Rightarrow> bool" where
  "batch_accepted st pushed items n xs C P cx out \<longleftrightarrow> (\<exists>j err s' C'. out = ret (pushed + j, err) s' \<and> j \<le> length items
     \<and> wq_at st (wk_queue s') n (xs @ take j items) False C' P \<and> served C C' (0 < j)
     \<and> (err = None \<longleftrightarrow> j = length items) \<and> (err \<noteq> None \<longrightarrow> err = Some (ContextErr (cx_err cx)) \<and> cx_left cx \<noteq> None))"

lemma batch_acceptedI:
  "out = ret (pushed + j, err) s' \<Longrightarrow> j \<le> length items \<Longrightarrow> wq_at st (wk_queue s') n (xs @ take j items) False C' P \<Longrightarrow>
     served C C' (0 < j) \<Longrightarrow> err = None \<longleftrightarrow> j = length items \<Longrightarrow>
     err \<noteq> None \<longrightarrow> err = Some (ContextErr (cx_err cx)) \<and> cx_left cx \<noteq> None \<Longrightarrow> batch_accepted st pushed items n xs C P cx out"
  unfolding batch_accepted_def by blast

lemma batch_accepted_after:
  assumes "batch_accepted st (pushed + m) (drop m items) n (xs @ take m items) C' P cx' out" "m \<le> length items"
    "served C C' (0 < m)" "ctx_later cx cx'"
  shows "batch_accepted st pushed items n xs C P cx out"
proof -
  obtain j err s' D where r: "out = ret (pushed + m + j, err) s'" "j \<le> length (drop m items)"
    "wq_at st (wk_queue s') n ((xs @ take m items) @ take j (drop m items)) False D P" "served C' D (0 < j)"
    "err = None \<longleftrightarrow> j = length (drop m items)" "err \<noteq> None \<longrightarrow> err = Some (ContextErr (cx_err cx')) \<and> cx_left cx' \<noteq> None"
    using assms(1) unfolding batch_accepted_def by (elim exE conjE) (rule that)
  show ?thesis
  proof (rule batch_acceptedI [where j = "m + j" and err = err and s' = s' and C' = D])
    show "wq_at st (wk_queue s') n (xs @ take (m + j) items) False D P" using r(3) by (simp add: take_add)
    show "served C D (0 < m + j)" using served_trans [OF assms(3) r(4)] by simp
  qed (use r assms(2,4) in \<open>auto simp: ctx_later_def\<close>)
qed

lemma checkBetweenChunks_open:
  assumes "wq_at st (wk_queue s) n xs False C P" "wk_script s = []"
  shows "checkBetweenChunks before s = ret (if cx_left (wk_ctx s) = Some 0 then Some (ctx_Err s) else None) (s\<lparr>wk_ctx := looked (wk_ctx s)\<rparr>)"
  using assms producerContextError_open [of st "s\<lparr>wk_ctx := looked (wk_ctx s)\<rparr>" n xs C P before]
  by (simp add: checkBetweenChunks_def isDone_eq ctx_Err_def)

lemma pushBatch_from_idle:
  assumes "fst P + 1 < 2 ^ 31" "length (snd P) + 1 < 2 ^ 31"
  shows "wq_at st (wk_queue s) (2 * (length items - pushed) + n) xs False C P \<Longrightarrow> pushed \<le> length items \<Longrightarrow> wk_script s = [] \<Longrightarrow>
    if cx_left (wk_ctx s) = None \<and> qc_cap (sg_conf st) - length xs < length items - pushed then pushBatch_from ch items pushed s = None
    else batch_accepted st pushed (drop pushed items) n xs C P (wk_ctx s) (pushBatch_from ch items pushed s)"
proof (induction "length items - pushed" arbitrary: pushed s xs C rule: less_induct)
  case less
  let ?cap = "qc_cap (sg_conf st)" and ?E = "qc_maxE (sg_conf st)" and ?rest = "drop pushed items"
  show ?case
  proof (cases "pushed < length items")
    case False
    then have "pushBatch_from ch items pushed s = ret (pushed + 0, None) s" by (subst pushBatch_from.simps) simp
    then show ?thesis using False wq_at_less [OF less.prems(1), of n] by (auto intro!: batch_acceptedI)
  next
    case True
    define s1 where "s1 = (if 0 < pushed then s\<lparr>wk_ctx := looked (wk_ctx s)\<rparr> else s)"
    let ?over = "0 < pushed \<and> cx_left (wk_ctx s) = Some 0"
    have check: "(if 0 < pushed then checkBetweenChunks pushed s else ret None s) = ret (if ?over then Some (ctx_Err s) else None) s1"
      using checkBetweenChunks_open [OF less.prems(1,3)] by (simp add: s1_def)
    have s1: "wk_queue s1 = wk_queue s" "wk_script s1 = []" "ctx_later (wk_ctx s) (wk_ctx s1)" "ctx_Err s1 = ctx_Err s"
      using less.prems(3) by (simp_all add: s1_def ctx_Err_def)
    show ?thesis
    proof (cases ?over)
      case over: True
      then have "pushBatch_from ch items pushed s = ret (pushed + 0, Some (ctx_Err s)) s1" using True check by (subst pushBatch_from.simps) simp
      then have "batch_accepted st pushed ?rest n xs C P (wk_ctx s) (pushBatch_from ch items pushed s)"
        using wq_at_less [OF less.prems(1), of n] s1(1) True over by (intro batch_acceptedI) (auto simp: ctx_Err_def)
      then show ?thesis using over by simp
    next
      case False
      let ?chunk = "take ?E ?rest"
      have E: "1 \<le> ?E" using less.prems(1) by (simp add: wq_at_def settings_ok_def)
      have chunk: "next_chunk (wk_queue s1) items pushed = ?chunk" using next_chunk_eq [OF less.prems(1)] True s1(1) by simp
      have len: "0 < length ?chunk" "length ?chunk \<le> ?E" "length ?chunk \<le> length ?rest" using True E by auto
      define n1 where "n1 = 2 * (length ?rest - length ?chunk) + n"
      have "2 * length ?chunk + n1 = 2 * (length items - pushed) + n" using len(3) by (simp add: n1_def)
      then have at1: "wq_at st (wk_queue s1) (2 * length ?chunk + n1) xs False C P" using less.prems(1) s1(1) by simp
      define m where "m = min (length ?chunk) (?cap - length xs)"
      have same: "cx_left (wk_ctx s1) = None \<longleftrightarrow> cx_left (wk_ctx s) = None" "cx_err (wk_ctx s1) = cx_err (wk_ctx s)"
        using s1(3) by (auto simp: ctx_later_def)
      have eq: "pushBatch_from ch items pushed s = and_then (pushChunk ch ?chunk pushed 0 s1) (\<lambda>(chunkPushed, err) s2.
          if err \<noteq> None then ret (pushed + chunkPushed, err) s2 else pushBatch_from ch items (pushed + chunkPushed) s2)"
        using True check [unfolded if_not_P [OF False]] chunk by (subst pushBatch_from.simps) simp
      note c = pushChunk_idle [OF at1 len(2) assms s1(2) m_def, of ch pushed, unfolded s1(4)]
      show ?thesis
      proof (cases "m < length ?chunk")
        case part: True
        then have m: "m = ?cap - length xs" "m < length ?rest" using len(3) m_def by linarith+
        show ?thesis
        proof (cases "cx_left (wk_ctx s) = None")
          case none: True
          then show ?thesis using c part eq m same by simp
        next
          case some: False
          then obtain s' C' where c': "pushChunk ch ?chunk pushed 0 s1 = ret (m, Some (ctx_Err s)) s'"
            "wq_at st (wk_queue s') n1 (xs @ take m ?chunk) False C' P" "served C C' (0 < m)"
            using c part same by auto
          have "m \<le> ?E" using part len(2) by linarith
          then have "take m ?chunk = take m ?rest" by (simp add: min_def)
          then have "wq_at st (wk_queue s') n (xs @ take m ?rest) False C' P" using wq_at_less [OF c'(2), of n] by (simp add: n1_def)
          then have "batch_accepted st pushed ?rest n xs C P (wk_ctx s) (pushBatch_from ch items pushed s)"
            using eq c'(1,3) m(2) some by (intro batch_acceptedI [where j = m and err = "Some (ctx_Err s)"]) (auto simp: ctx_Err_def)
          then show ?thesis using some by (simp del: not_None_eq)
        qed
      next
        case all: False
        then have m: "m = length ?chunk" using m_def by linarith
        obtain s' C' where c': "pushChunk ch ?chunk pushed 0 s1 = ret (m, None) s'"
          "wq_at st (wk_queue s') n1 (xs @ ?chunk) False C' P" "served C C' (0 < m)" "wk_ctx s' = wk_ctx s1" "wk_script s' = []"
          using pushChunk_all [OF at1 len(2) assms s1(2), of ch pushed] m m_def by (metis min.cobounded2)
        have at': "wq_at st (wk_queue s') (2 * (length items - (pushed + m)) + n) (xs @ ?chunk) False C' P"
          using c'(2) by (simp add: n1_def m)
        have ih: "if cx_left (wk_ctx s') = None \<and> ?cap - length (xs @ ?chunk) < length items - (pushed + m)
            then pushBatch_from ch items (pushed + m) s' = None
            else batch_accepted st (pushed + m) (drop (pushed + m) items) n (xs @ ?chunk) C' P (wk_ctx s') (pushBatch_from ch items (pushed + m) s')"
          by (rule less.hyps [OF _ at' _ c'(5)]) (use True len(1,3) m same(1) c'(4) in auto)
        have le: "m \<le> ?cap - length xs" "m \<le> length items - pushed" using m m_def len(3) by (linarith, simp)
        have stuck: "cx_left (wk_ctx s') = None \<and> ?cap - length (xs @ ?chunk) < length items - (pushed + m)
            \<longleftrightarrow> cx_left (wk_ctx s) = None \<and> ?cap - length xs < length items - pushed"
          unfolding c'(4) same(1) length_append m [symmetric] using le True by linarith
        have parts: "?chunk = take m ?rest" "drop (pushed + m) items = drop m ?rest"
          unfolding m by (cases "?E \<le> length ?rest") (auto simp: add.commute)
        have next_step: "pushBatch_from ch items pushed s = pushBatch_from ch items (pushed + m) s'" using eq c'(1) by simp
        have "m \<le> length ?rest" using m len(3) by simp
        note after = batch_accepted_after [OF _ this c'(3) s1(3)]
        show ?thesis
          using ih [unfolded stuck, folded next_step] after [of st pushed n xs P "pushBatch_from ch items pushed s"]
          unfolding c'(4) parts by (simp split del: if_split split: if_splits)
      qed
    qed
  qed
qed

text \<open>
  C20. \<^verbatim>\<open>PushBatch\<close>, when no other goroutine acts during the call. On a closed queue it reports \<^verbatim>\<open>ErrClosed\<close> and
  pushes nothing. Otherwise the number it returns is exactly the length of the prefix of the batch that
  was appended, in order, in however many chunks; the error is nil exactly when the prefix is the
  whole batch, and is else the context's error. It never returns only when the batch does not fit and
  the context is never done. The producers' side is as before, and when something was pushed no
  consumer is left parked without somebody polling.
\<close>

theorem PushBatch_reports_accepted:
  fixes items :: "('a::zero) list"
  assumes "wq_at st (wk_queue s) (2 * length items + n) xs c C P" "fst P + 1 < 2 ^ 31" "length (snd P) + 1 < 2 ^ 31" "wk_script s = []"
  shows "if c then PushBatch ch items s = ret (0, Some ErrClosed) s
    else if cx_left (wk_ctx s) = None \<and> qc_cap (sg_conf st) - length xs < length items then PushBatch ch items s = None
    else \<exists>m err s' C'. PushBatch ch items s = ret (m, err) s' \<and> m \<le> length items
      \<and> wq_at st (wk_queue s') n (xs @ take m items) False C' P \<and> served C C' (0 < m)
      \<and> (err = None \<longleftrightarrow> m = length items) \<and> (err \<noteq> None \<longrightarrow> err = Some (ctx_Err s) \<and> cx_left (wk_ctx s) \<noteq> None)"
proof (cases c)
  case True
  then show ?thesis using assms(1,4) by (simp add: PushBatch_def)
next
  case False
  then have at: "wq_at st (wk_queue s) (2 * (length items - 0) + n) xs False C P" using assms(1) by simp
  have eq: "PushBatch ch items s = pushBatch_from ch items 0 s"
    using at assms(4) by (cases items) (simp_all add: PushBatch_def pushBatch_from.simps [of ch "[]"])
  note r = pushBatch_from_idle [OF assms(2,3) at _ assms(4), of ch, folded eq, unfolded batch_accepted_def drop_0 add_0 minus_nat.diff_0]
  show ?thesis unfolding if_not_P [OF False] ctx_Err_def by (rule r) simp
qed

theorem PushBatch_reports_accepted_witness:
  "\<exists>q s'. wq_New 4 2 [] = Inr q
    \<and> PushBatch \<lparr>pick_pool = None, pick_case = 0\<rparr> [7 :: int, 8]
        \<lparr>wk_queue = q, wk_ctx = \<lparr>cx_left = None, cx_err = Canceled\<rparr>, wk_script = []\<rparr> = ret (2, None) s'
    \<and> engine_contents (wq_engine (wk_queue s')) = [7, 8]"
proof -
  obtain q :: "int wq_queue" where q: "wq_New 4 2 [] = Inr q" using small_queue_exists by blast
  let ?s = "\<lparr>wk_queue = q, wk_ctx = \<lparr>cx_left = None, cx_err = Canceled\<rparr>, wk_script = []\<rparr>"
  have cap: "qc_cap (sg_conf (settings_of q)) = 2" using wq_New_ok(2) [OF q, of 4] by simp
  have "wq_at (settings_of q) (wk_queue ?s) (2 * length [7 :: int, 8] + 0) [] False (0, []) (0, [])"
    using wq_New_ok(1) [OF q, of 4] by simp
  from PushBatch_reports_accepted [OF this, of "\<lparr>pick_pool = None, pick_case = 0\<rparr>"] q cap
  show ?thesis by (auto simp: wq_at_def)
qed

end
