(* ===== verification/PushEvents.thy ===== *)
theory PushEvents
  imports ReceiveEvents WorkPush
begin

text \<open>
  A producer's call during which another goroutine acts once, at any point of the call, as in
  \<open>ReceiveEvents\<close>. The locale \<open>producer_event\<close> states what the call relies on of the action; it is interpreted
  for a receive, which makes room, and for a close.
\<close>

section \<open>A side on which no other producer waits\<close>

text \<open>A complete call of \<^verbatim>\<open>TryReceive\<close> with a buffer of one element by another goroutine.\<close>

definition others_receive :: "('a::zero) \<Rightarrow> 'a wq_queue \<Rightarrow> 'a wq_queue" where
  "others_receive e q = (case tryReceive [e] q of Some out \<Rightarrow> out_state out | None \<Rightarrow> q)"

lemma alone_peek: "side_in side (j, []) c \<Longrightarrow> peek_and_wake peek e side (ws_word side) = ret False (e, side)"
  using side_in_word(3) [of side "(j, [])" c] by (simp add: peek_and_wake_def)

lemma leaveProducerPolling_alone:
  assumes "wq_at st q n xs c C (Suc j, [])"
  shows "\<exists>q'. leaveProducerPolling q = ret False q' \<and> wq_at st q' n xs c C (j, [])
    \<and> (\<forall>w. owned (wq_producers q) w \<longrightarrow> owned (wq_producers q') w)"
proof -
  have side: "side_in (wq_producers q) (Suc j, []) c" using assms by (simp add: wq_at_def)
  note a = alone_word [OF side]
  show ?thesis using wq_at_producers [OF assms a(2)] a(3)
    by (intro exI [of _ "q\<lparr>wq_producers := (wq_producers q)\<lparr>ws_word := side_word j 0 c\<rparr>\<rparr>"])
      (simp add: leaveProducerPolling_def leavePolling_def on_producers_with_def a(1) alone_peek [OF a(2), simplified])
qed

lemma leaveProducerList_listed:
  assumes "wq_at st q n xs c C (j, [w])"
  shows "\<exists>q'. leaveProducerList w mv q = ret False q' \<and> wq_at st q' n xs c C (j, []) \<and> owned (wq_producers q') w"
proof -
  have side: "side_in (wq_producers q) (j, [] @ w # []) c" using assms by (simp add: wq_at_def)
  obtain side' where l: "\<forall>cleanup (e :: 'a engine) mv. leaveListWith cleanup e (wq_producers q) w mv =
      (if mv then cleanup e side' (ws_word side') else ret False (e, side'))" "side_in side' (j, []) c" "owned side' w"
    using leaveList_in [OF side] listed_elsewhere [of "wq_producers q" j w c] side by auto
  then show ?thesis using wq_at_producers [OF assms l(2)]
    by (intro exI [of _ "q\<lparr>wq_producers := side'\<rparr>"])
      (simp add: leaveProducerList_def leaveList_def on_producers_with_def alone_peek [OF l(2)])
qed

lemma leaveProducerList_token:
  assumes "wq_at st q n xs c C (Suc j, [])" "ws_heap (wq_producers q) w = zero_waiter\<lparr>wt_token := True\<rparr>"
  shows "\<exists>q'. leaveProducerList w mv q = ret False q' \<and> wq_at st q' n xs c C (j, []) \<and> owned (wq_producers q') w"
proof -
  have side: "side_in (wq_producers q) (Suc j, []) c" using assms by (simp add: wq_at_def)
  note t = token_in [OF side assms(2)]
  note a = alone_word [OF t(1)]
  let ?side = "(take_token (wq_producers q) w)\<lparr>ws_word := side_word j 0 c\<rparr>"
  have "leaveListWith cleanup e (wq_producers q) w mv = cleanup e ?side (ws_word ?side)" for cleanup and e :: "'a engine"
    using assms(2) a(1) by (simp add: leaveListWith_def take_token_def zero_waiter_def)
  then show ?thesis using wq_at_producers [OF assms(1) a(2)] a(3) [OF t(2)]
    by (intro exI [of _ "q\<lparr>wq_producers := ?side\<rparr>"])
      (simp add: leaveProducerList_def leaveList_def on_producers_with_def alone_peek [OF a(2), simplified])
qed

section \<open>A producer that waits\<close>

text \<open>
  What the wait returns once the action is done: the \<open>k\<close> elements the attempt moved, with contents \<open>zs\<close>, or
  the error of a closed queue.
\<close>

definition settled :: "settings \<Rightarrow> nat \<Rightarrow> nat \<Rightarrow> nat \<Rightarrow> 'a list \<Rightarrow> nat \<Rightarrow> 'a list \<Rightarrow> bool \<Rightarrow> nat \<times> nat list \<Rightarrow> nat set
    \<Rightarrow> ('a work, pushed) outcome option \<Rightarrow> bool" where
  "settled st before k n ys m zs d C W out \<longleftrightarrow>
     (\<exists>s'. (if d then out = ret (0, Some (closedWhileWaiting before)) s' \<and> wq_at st (wk_queue s') n ys True C (0, [])
            else \<exists>C'. out = ret (int k, None) s' \<and> wq_at st (wk_queue s') m zs False C' (0, []) \<and> served C C' True)
       \<and> (\<forall>w\<in>W. owned (wq_producers (wk_queue s')) w))"

lemma settled_closed:
  assumes "d" "wq_at st (wk_queue s') n ys True C (0, [])" "\<forall>w\<in>W. owned (wq_producers (wk_queue s')) w"
  shows "settled st before k n ys m zs d C W (ret (0, Some (closedWhileWaiting before)) s')"
  using assms by (auto simp: settled_def)

lemma settled_moved:
  assumes "\<not> d" "wq_at st (wk_queue s') m zs False C' (0, [])" "served C C' True" "\<forall>w\<in>W. owned (wq_producers (wk_queue s')) w"
  shows "settled st before k n ys m zs d C W (ret (int k, None) s')"
  using assms by (cases C') (auto simp: settled_def)

text \<open>After the action: the attempt that finds the room, and the exit from a closed queue.\<close>

lemma moved_done:
  assumes "accepts st attempt n ys k m zs" "wq_at st (wk_queue s) n ys False C P" "wk_script s = []"
  shows "\<exists>s1 s2 C'. with_queue attempt s = ret (int k) s1 \<and> with_queue consumerWakeCheck s1 = ret None s2 \<and> 0 < k
    \<and> wq_at st (wk_queue s2) m zs False C' P \<and> served C C' True \<and> wk_script s2 = []
    \<and> wq_producers (wk_queue s2) = wq_producers (wk_queue s)"
proof -
  obtain q1 where q1: "attempt (wk_queue s) = ret (int k) q1" "wq_at st q1 m zs False C P" "wq_producers q1 = wq_producers (wk_queue s)"
    and k: "0 < k" using assms(1,2) unfolding accepts_def by blast
  obtain q2 j where c: "consumerWakeCheck q1 = ret None q2" "wakes_consumers st q1 q2 m zs False C P j" "snd C = [] \<or> 0 < fst C + j"
    using consumerWakeCheck_ok [OF q1(2)] by (elim exE conjE) (simp add: that)
  let ?C = "(fst C + j, drop j (snd C))"
  have "wq_at st q2 m zs False ?C P" "served C ?C True" "wq_producers q2 = wq_producers q1"
    using wakes_consumers_at [OF c(2)] c(2,3) by (auto simp: served_def wakes_consumers_def)
  moreover have "with_queue attempt s = ret (int k) (s\<lparr>wk_queue := q1\<rparr>)"
    "with_queue consumerWakeCheck (s\<lparr>wk_queue := q1\<rparr>) = ret None (s\<lparr>wk_queue := q2\<rparr>)"
    using q1(1) c(1) assms(3) by (simp_all add: with_queue_def)
  ultimately show ?thesis using q1(3) k assms(3)
    by (intro exI [of _ "s\<lparr>wk_queue := q1\<rparr>"] exI [of _ "s\<lparr>wk_queue := q2\<rparr>"] exI [of _ ?C]) simp
qed

lemma leavePollingClosed_done:
  assumes "wq_at st (wk_queue s) n ys True C (1, [])" "wk_script s = []" "\<forall>w\<in>W. owned (wq_producers (wk_queue s)) w"
  shows "\<exists>s'. leavePollingClosed before s = ret (closedWhileWaiting before) s'
    \<and> settled st before k n ys m zs True C W (ret (0, Some (closedWhileWaiting before)) s')"
proof -
  obtain q where q: "leaveProducerPolling (wk_queue s) = ret False q" "wq_at st q n ys True C (0, [])"
    "\<forall>w. owned (wq_producers (wk_queue s)) w \<longrightarrow> owned (wq_producers q) w"
    using leaveProducerPolling_alone [of st "wk_queue s" n ys True C 0] assms(1) by auto
  have "with_queue leaveProducerPolling s = ret False (s\<lparr>wk_queue := q\<rparr>)" using q(1) assms(2) by (simp add: with_queue_def)
  then show ?thesis using settled_closed [of True st "s\<lparr>wk_queue := q\<rparr>" n ys C W before k m zs] q(2,3) assms(3)
    by (intro exI [of _ "s\<lparr>wk_queue := q\<rparr>"]) (simp add: leavePollingClosed_def)
qed

text \<open>The attempt of the call: refused before the action, and after it unless the action has made room.\<close>

definition suits :: "settings \<Rightarrow> ('a::zero) attempt \<Rightarrow> nat \<Rightarrow> 'a list \<Rightarrow> nat \<Rightarrow> 'a list \<Rightarrow> bool \<Rightarrow> nat \<Rightarrow> nat \<Rightarrow> 'a list \<Rightarrow> bool" where
  "suits st attempt N xs n ys d k m zs \<longleftrightarrow> refuses st attempt N xs
     \<and> (if d then refuses st attempt n ys else accepts st attempt n ys k m zs)"

lemma suits_full: "suits st attempt N xs n ys d k m zs \<Longrightarrow> refuses st attempt N xs"
  by (simp add: suits_def)

text \<open>
  What a waiting producer relies on of the other goroutine's action \<open>f\<close> on an open queue with contents \<open>xs\<close>: the
  action leaves \<open>ys\<close> or closes the queue; it keeps the registered pollers and a waiter that is not on the
  list; and when the one producer on the list has no poller beside it, an action that makes room sends
  it a token.
\<close>

locale producer_event =
  fixes st :: settings and f :: "('a::zero) wq_queue \<Rightarrow> 'a wq_queue"
    and N :: nat and xs :: "'a list" and n :: nat and ys :: "'a list" and d :: bool
  assumes nobody_parked: "wq_at st q N xs False C (j, []) \<Longrightarrow> wq_at st (f q) n ys d C (j, [])"
    and waiter_kept: "wq_at st q N xs False C (j, []) \<Longrightarrow> owned (wq_producers q) w \<Longrightarrow> owned (wq_producers (f q)) w"
    and one_parked: "wq_at st q N xs False C (0, [w]) \<Longrightarrow>
      if d then wq_at st (f q) n ys d C (0, [w])
      else wq_at st (f q) n ys d C (1, []) \<and> ws_heap (wq_producers (f q)) w = zero_waiter\<lparr>wt_token := True\<rparr>"
begin

abbreviation at_work :: "'a work \<Rightarrow> nat \<times> nat list \<Rightarrow> nat \<times> nat list \<Rightarrow> bool" where
  "at_work \<equiv> underway st f N xs n ys d"

abbreviation answers :: "nat \<Rightarrow> nat \<Rightarrow> 'a list \<Rightarrow> nat \<Rightarrow> nat \<times> nat list \<Rightarrow> nat set \<Rightarrow> ('a work, pushed) outcome option \<Rightarrow> bool" where
  "answers k m zs before \<equiv> settled st before k n ys m zs d"

abbreviation ends :: "nat \<Rightarrow> nat \<Rightarrow> 'a list \<Rightarrow> nat \<Rightarrow> nat \<times> nat list \<Rightarrow> nat set \<Rightarrow> ('a work, pushed option) outcome option \<Rightarrow> bool" where
  "ends k m zs before C W out \<equiv> \<exists>v s'. out = ret (Some v) s' \<and> answers k m zs before C W (ret v s')"

lemma slot:
  assumes "at_work s C (j, [])"
  shows "at_work (others s) C (j, [])" "owned (wq_producers (wk_queue s)) w \<Longrightarrow> owned (wq_producers (wk_queue (others s))) w"
proof -
  have "at_work (others s) C (j, []) \<and> (owned (wq_producers (wk_queue s)) w \<longrightarrow> owned (wq_producers (wk_queue (others s))) w)"
  proof (cases "wk_script s = []")
    case True
    then show ?thesis using assms by simp
  next
    case False
    then have s: "wq_at st (wk_queue s) N xs False C (j, [])" "later f s" using assms by (auto simp: underway_def)
    from later_others [OF s(2)] show ?thesis
      using assms s nobody_parked [OF s(1)] waiter_kept [OF s(1)] by (auto simp: underway_def)
  qed
  then show "at_work (others s) C (j, [])" "owned (wq_producers (wk_queue s)) w \<Longrightarrow> owned (wq_producers (wk_queue (others s))) w"
    by blast+
qed

text \<open>The state before an operation, after what the others do: the action is still to come or is done.\<close>

lemma slot_cases:
  assumes "at_work s C (j, [])"
  obtains (before) "wq_at st (wk_queue (others s)) N xs False C (j, [])" "later f (others s)"
    | (after) "wq_at st (wk_queue (others s)) n ys d C (j, [])" "wk_script (others s) = []"
  using slot(1) [OF assms] unfolding underway_def by blast

lemma look_slot:
  assumes "at_work s C (j, [])"
  shows "\<exists>c s'. look_at producers_closed s = ret c s' \<and> at_work s' C (j, [])
    \<and> (c \<longrightarrow> d \<and> wq_at st (wk_queue s') n ys True C (j, []) \<and> wk_script s' = [])"
proof -
  have "look_at producers_closed s = ret (producers_closed (wk_queue (others s))) (others s)" by (simp add: with_queue_def)
  then show ?thesis using slot(1) [OF assms] by (auto simp: underway_def)
qed

text \<open>An attempt fails and the call goes on, or it succeeds once the action has made room.\<close>

lemma attempt_slot:
  assumes "at_work s C (j, [])"
    and suit: "suits st attempt N xs n ys d k m zs"
  shows "(\<exists>s'. with_queue attempt s = ret 0 s' \<and> at_work s' C (j, []))
    \<or> (\<exists>s1 s2 C'. \<not> d \<and> 0 < k \<and> with_queue attempt s = ret (int k) s1 \<and> with_queue consumerWakeCheck s1 = ret None s2
      \<and> wq_at st (wk_queue s2) m zs False C' (j, []) \<and> served C C' True \<and> wk_script s2 = [])"
proof -
  have refused: "\<exists>s'. with_queue attempt s = ret 0 s' \<and> wq_at st (wk_queue s') a as c C (j, [])
      \<and> wk_script s' = wk_script (others s) \<and> wk_ctx s' = wk_ctx s"
    if ref: "refuses st attempt a as" "wq_at st (wk_queue (others s)) a as c C (j, [])" for a as c
  proof -
    obtain q where q: "attempt (wk_queue (others s)) = ret 0 q" "wq_at st q a as c C (j, [])" using ref unfolding refuses_def by blast
    then show ?thesis using with_queue_others [where g = attempt, OF q(1)] by auto
  qed
  from assms show ?thesis
  proof (cases rule: slot_cases)
    case before
    then show ?thesis using refused [OF suits_full [OF suit] before(1)] assms by (auto simp: underway_def later_def)
  next
    case after
    show ?thesis
    proof (cases d)
      case True
      then show ?thesis using refused [of n ys d] suit after assms(1) by (simp only: suits_def if_True if_P)  (auto simp: underway_def)
    next
      case False
      then have acc: "accepts st attempt n ys k m zs" and at: "wq_at st (wk_queue (others s)) n ys False C (j, [])" using suit after(1) by (simp_all add: suits_def)
      show ?thesis using moved_done [OF acc at after(2)] False by (auto simp: with_queue_done [OF after(2), of attempt])
    qed
  qed
qed

lemma spin_event:
  assumes "at_work s C (0, [])"
    and suit: "suits st attempt N xs n ys d k m zs"
  shows "ends k m zs before C {} (spinForRoom_from attempt before poll left s)
    \<or> (\<exists>s'. spinForRoom_from attempt before poll left s = ret None s' \<and> at_work s' C (0, []))"
  using assms(1)
proof (induction left arbitrary: poll s)
  case (Suc left)
  obtain c s0 where l: "look_at producers_closed s = ret c s0" "at_work s0 C (0, [])"
    "c \<longrightarrow> d \<and> wq_at st (wk_queue s0) n ys True C (0, []) \<and> wk_script s0 = []"
    using look_slot [OF Suc.prems] by blast
  show ?case
  proof (cases c)
    case True
    then show ?thesis using l settled_closed [of d st s0 n ys C "{}" before k m zs] by auto
  next
    case False
    obtain s1 where s1: "(if poll mod contextCheckInterval = 0 then isDone s0 else ret False s0) = ret False s1" "at_work s1 C (0, [])"
      using underway_ctx [OF l(2)] l(2) by (cases "poll mod contextCheckInterval = 0") auto
    from attempt_slot [OF s1(2) suit] show ?thesis
    proof (elim disjE exE conjE)
      fix s2 assume "with_queue attempt s1 = ret 0 s2" and at2: "at_work s2 C (0, [])"
      then have "spinForRoom_from attempt before poll (Suc left) s = spinForRoom_from attempt before (Suc poll) left s2"
        using l(1) False s1(1) by simp
      then show ?thesis using Suc.IH [OF at2, of "Suc poll"] by simp
    next
      fix s2 s3 C' assume r: "\<not> d" "0 < k" "with_queue attempt s1 = ret (int k) s2" "with_queue consumerWakeCheck s2 = ret None s3"
        "wq_at st (wk_queue s3) m zs False C' (0, [])" "served C C' True"
      then have "spinForRoom_from attempt before poll (Suc left) s = ret (Some (int k, None)) s3" using l(1) False s1(1) by simp
      then show ?thesis using settled_moved [OF r(1,5,6), of "{}"] by auto
    qed
  qed
qed simp

lemma register_slot:
  assumes "at_work s C (0, [])"
  shows "\<exists>c s'. with_queue registerProducer s = ret c s' \<and>
    (if c then answers k m zs before C {} (ret (0, Some (closedWhileWaiting before)) s') else at_work s' C (1, []))"
  using assms
proof (cases rule: slot_cases)
  case before
  obtain q where q: "registerProducer (wk_queue (others s)) = ret False q" "wq_at st q N xs False C (1, [])"
    using registerProducer_ok [OF before(1)] by auto
  have "at_work ((others s)\<lparr>wk_queue := q\<rparr>) C (1, [])" using q(2) before(2) assms by (simp add: underway_def later_def)
  then show ?thesis using with_queue_others [where g = registerProducer, OF q(1)] by auto
next
  case after
  obtain q where q: "registerProducer (wk_queue (others s)) = ret d q" "wq_at st q n ys d C (if d then (0, []) else (1, []))"
    using registerProducer_ok [OF after(1)] by (cases d) auto
  have "\<not> d \<Longrightarrow> at_work ((others s)\<lparr>wk_queue := q\<rparr>) C (1, [])" using q(2) after(2) assms by (simp add: underway_def)
  then show ?thesis using with_queue_others [where g = registerProducer, OF q(1)] q(2)
      settled_closed [of d st "(others s)\<lparr>wk_queue := q\<rparr>" n ys C "{}" before k m zs] by (cases d) auto
qed

lemma moved_leave:
  assumes "\<not> d" "wq_at st (wk_queue s) m zs False C' (1, [])" "served C C' True" "wk_script s = []"
  shows "\<exists>s'. with_queue leaveProducerPolling s = ret False s' \<and> answers k m zs before C {} (ret (int k, None) s')"
proof -
  obtain q where q: "leaveProducerPolling (wk_queue s) = ret False q" "wq_at st q m zs False C' (0, [])"
    using leaveProducerPolling_alone [of st "wk_queue s" m zs False C' 0] assms(2) by auto
  have "with_queue leaveProducerPolling s = ret False (s\<lparr>wk_queue := q\<rparr>)" using q(1) assms(4) by (simp add: with_queue_def)
  then show ?thesis using settled_moved [OF assms(1) _ assms(3), of st "s\<lparr>wk_queue := q\<rparr>" m zs "{}"] q(2)
    by (intro exI [of _ "s\<lparr>wk_queue := q\<rparr>"]) simp
qed

lemma registered_done:
  assumes "wq_at st (wk_queue s) n ys d C (1, [])" "wk_script s = []"
    and suit: "suits st attempt N xs n ys d k m zs"
  shows "ends k m zs before C {} (attemptRegistered attempt before s)"
proof (cases d)
  case True
  then show ?thesis using leavePollingClosed_done [of st s n ys C "{}" before k m zs] assms by (auto simp: attemptRegistered_def)
next
  case False
  then have acc: "accepts st attempt n ys k m zs" and at: "wq_at st (wk_queue s) n ys False C (1, [])" using suit assms(1) by (simp_all add: suits_def)
  obtain s1 s2 C' where r: "with_queue attempt s = ret (int k) s1" "with_queue consumerWakeCheck s1 = ret None s2" "0 < k"
    "wq_at st (wk_queue s2) m zs False C' (1, [])" "served C C' True" "wk_script s2 = []"
    using moved_done [OF acc at assms(2)] by (elim exE conjE) (rule that)
  from moved_leave [OF False r(4-6), where k = k and before = before] show ?thesis using r(1-3) at assms(2) by (auto simp: attemptRegistered_def)
qed

lemma attempt_event:
  assumes "at_work s C (1, [])"
    and suit: "suits st attempt N xs n ys d k m zs"
  shows "ends k m zs before C {} (attemptRegistered attempt before s)
    \<or> (\<exists>s'. attemptRegistered attempt before s = ret None s' \<and> at_work s' C (1, []) \<and> length (wk_script s') < length (wk_script s))"
proof (cases "wk_script s = []")
  case True
  then have "wq_at st (wk_queue s) n ys d C (1, [])" using assms by (auto simp: underway_def later_def)
  then show ?thesis using registered_done [OF _ True suit] by blast
next
  case script: False
  obtain c s0 where l: "look_at producers_closed s = ret c s0" "at_work s0 C (1, [])"
    "c \<longrightarrow> d \<and> wq_at st (wk_queue s0) n ys True C (1, []) \<and> wk_script s0 = []"
    using look_slot [OF assms(1)] by blast
  have drop: "length (wk_script s0) < length (wk_script s)" using with_queue_frame [OF l(1)] script by (cases "wk_script s") auto
  show ?thesis
  proof (cases c)
    case True
    then show ?thesis using l leavePollingClosed_done [of st s0 n ys C "{}" before k m zs] by (auto simp: attemptRegistered_def)
  next
    case False
    from attempt_slot [OF l(2) suit] show ?thesis
    proof (elim disjE exE conjE)
      fix s1 assume r: "with_queue attempt s0 = ret 0 s1" and at1: "at_work s1 C (1, [])"
      obtain c2 s2 where l2: "look_at producers_closed s1 = ret c2 s2" "at_work s2 C (1, [])"
        "c2 \<longrightarrow> d \<and> wq_at st (wk_queue s2) n ys True C (1, []) \<and> wk_script s2 = []"
        using look_slot [OF at1] by blast
      have "length (wk_script s2) < length (wk_script s)"
        using with_queue_frame [OF r] with_queue_frame [OF l2(1)] drop by simp
      then show ?thesis
        using l(1) False r l2 underway_ctx [OF l2(2)] leavePollingClosed_done [of st s2 n ys C "{}" before k m zs]
        by (cases c2) (auto simp: attemptRegistered_def)
    next
      fix s1 s2 C' assume r: "\<not> d" "0 < k" "with_queue attempt s0 = ret (int k) s1" "with_queue consumerWakeCheck s1 = ret None s2"
        "wq_at st (wk_queue s2) m zs False C' (1, [])" "served C C' True" "wk_script s2 = []"
      from moved_leave [OF r(1,5-7), where k = k and before = before] show ?thesis using l(1) False r(2-4) by (auto simp: attemptRegistered_def)
    qed
  qed
qed

lemma Gosched_slot:
  assumes "at_work s C (j, [])"
  shows "at_work (Gosched s) C (j, [])" "length (wk_script (Gosched s)) \<le> length (wk_script s)"
  using slot(1) [OF assms] by (simp_all add: Gosched_def)

lemma yield_event:
  assumes "at_work s C (1, [])"
    and suit: "suits st attempt N xs n ys d k m zs"
  shows "ends k m zs before C {} (yieldForRoom_from attempt before poll left s)
    \<or> (\<exists>s'. yieldForRoom_from attempt before poll left s = ret None s' \<and> at_work s' C (1, []))"
  using assms(1)
proof (induction left arbitrary: poll s)
  case (Suc left)
  let ?s = "if poll > 0 then Gosched s else s"
  have at: "at_work ?s C (1, [])" using Suc.prems Gosched_slot(1) [OF Suc.prems] by simp
  from attempt_event [OF at suit, of before] show ?case
  proof (elim disjE exE conjE)
    fix v s' assume "attemptRegistered attempt before ?s = ret (Some v) s'" "answers k m zs before C {} (ret v s')"
    then show ?thesis by (auto simp del: not_None_eq)
  next
    fix s' assume "attemptRegistered attempt before ?s = ret None s'" "at_work s' C (1, [])"
    then show ?thesis using Suc.IH [of s' "Suc poll"] by (auto simp del: not_None_eq)
  qed
qed simp

lemma never_park_event:
  assumes suit: "suits st attempt N xs n ys d k m zs"
  shows "at_work s C (1, []) \<Longrightarrow> answers k m zs before C {} (pushWithoutParking attempt before s)"
proof (induction "length (wk_script s)" arbitrary: s rule: less_induct)
  case less
  from attempt_event [OF less.prems suit, of before] show ?case
  proof (elim disjE exE conjE)
    fix v s' assume "attemptRegistered attempt before s = ret (Some v) s'" "answers k m zs before C {} (ret v s')"
    then show ?thesis by (subst pushWithoutParking.simps) simp
  next
    fix s' assume r: "attemptRegistered attempt before s = ret None s'" and at: "at_work s' C (1, [])" and l: "length (wk_script s') < length (wk_script s)"
    have "answers k m zs before C {} (pushWithoutParking attempt before (Gosched s'))"
      by (rule less.hyps) (use Gosched_slot [OF at] l in auto)
    then show ?thesis using r by (subst pushWithoutParking.simps) simp
  qed
qed

subsection \<open>Parking\<close>

lemma listed_slot:
  assumes "wq_at st (wk_queue s) N xs False C (0, [w])" "later f s"
  shows "wq_at st (wk_queue (others s)) N xs False C (0, [w]) \<and> later f (others s)
    \<or> wk_script (others s) = [] \<and> d \<and> wq_at st (wk_queue (others s)) n ys d C (0, [w])
    \<or> wk_script (others s) = [] \<and> \<not> d \<and> wq_at st (wk_queue (others s)) n ys d C (1, [])
      \<and> ws_heap (wq_producers (wk_queue (others s))) w = zero_waiter\<lparr>wt_token := True\<rparr>"
  using later_others [OF assms(2)] assms(1) one_parked [OF assms(1)] by (cases d) auto

lemma select_done:
  assumes "wk_script s = []" "cx_left (wk_ctx s) = None" "d" "wq_at st (wk_queue s) n ys d C (0, [w])"
  shows "park_select wq_producers sel w s = ret ParkDone s"
proof -
  have "\<not> wt_token (ws_heap (wq_producers (wk_queue s)) w)" "wq_done (wk_queue s)"
    using assms(3,4) no_token [of "wq_producers (wk_queue s)" 0 "[]" w "[]"] by (auto simp: wq_at_def)
  then show ?thesis using assms(2) by (subst park_select.simps) (simp add: ready_cases_def)
qed

lemma select_token:
  assumes "cx_left (wk_ctx s) = None" "\<not> d" "wq_at st (wk_queue s) n ys d C (1, [])"
    "ws_heap (wq_producers (wk_queue s)) w = zero_waiter\<lparr>wt_token := True\<rparr>"
  shows "park_select wq_producers sel w s = ret ParkToken s"
proof -
  have "\<not> wq_done (wk_queue s)" using assms(2,3) by (simp add: wq_at_def)
  then show ?thesis using assms(1,4) by (subst park_select.simps) (simp add: ready_cases_def zero_waiter_def)
qed

lemma select_event:
  "wq_at st (wk_queue s) N xs False C (0, [w]) \<Longrightarrow> later f s \<Longrightarrow> cx_left (wk_ctx s) = None \<Longrightarrow>
     \<exists>s'. wk_script s' = [] \<and> cx_left (wk_ctx s') = None \<and>
       (if d then park_select wq_producers sel w s = ret ParkDone s' \<and> wq_at st (wk_queue s') n ys d C (0, [w])
        else park_select wq_producers sel w s = ret ParkToken s' \<and> wq_at st (wk_queue s') n ys d C (1, [])
          \<and> ws_heap (wq_producers (wk_queue s')) w = zero_waiter\<lparr>wt_token := True\<rparr>)"
proof (induction "length (wk_script s)" arbitrary: s rule: less_induct)
  case less
  have "\<not> wt_token (ws_heap (wq_producers (wk_queue s)) w)" "\<not> wq_done (wk_queue s)"
    using less.prems(1) no_token [of "wq_producers (wk_queue s)" 0 "[]" w "[]"] by (auto simp: wq_at_def)
  then have step: "park_select wq_producers sel w s = park_select wq_producers sel w (others s)"
    using less.prems(3) later_script [OF less.prems(2)] by (subst park_select.simps) (simp add: ready_cases_def Gosched_def)
  have ctx: "cx_left (wk_ctx (others s)) = None" using less.prems(3) by simp
  from listed_slot [OF less.prems(1,2)] show ?case
  proof (elim disjE conjE)
    assume at: "wq_at st (wk_queue (others s)) N xs False C (0, [w])" "later f (others s)"
    have "length (wk_script (others s)) < length (wk_script s)" using later_script [OF less.prems(2)] by (cases "wk_script s") auto
    from less.hyps [OF this at ctx] show ?thesis unfolding step .
  next
    assume "wk_script (others s) = []" d "wq_at st (wk_queue (others s)) n ys d C (0, [w])"
    then show ?thesis using select_done [OF _ ctx] step ctx by (intro exI [of _ "others s"]) simp
  next
    assume "wk_script (others s) = []" "\<not> d" "wq_at st (wk_queue (others s)) n ys d C (1, [])"
      "ws_heap (wq_producers (wk_queue (others s))) w = zero_waiter\<lparr>wt_token := True\<rparr>"
    then show ?thesis using select_token [OF ctx] step ctx by (intro exI [of _ "others s"]) simp
  qed
qed

lemma extra_moved:
  assumes "wq_at st (wk_queue s) n ys False C P" "wk_script s = []" "\<not> d"
    and P: "P = (0, [w]) \<or> P = (1, []) \<and> ws_heap (wq_producers (wk_queue s)) w = zero_waiter\<lparr>wt_token := True\<rparr>"
    and suit: "suits st attempt N xs n ys d k m zs"
  shows "\<exists>s1 s2 s3. 0 < k \<and> with_queue attempt s = ret (int k) s1 \<and> with_queue consumerWakeCheck s1 = ret None s2
    \<and> with_queue (leaveProducerList w True) s2 = ret False s3 \<and> answers k m zs before C {w} (ret (int k, None) s3)"
proof -
  have acc: "accepts st attempt n ys k m zs" using suit assms(3) by (simp add: suits_def)
  obtain s1 s2 C' where r: "with_queue attempt s = ret (int k) s1" "with_queue consumerWakeCheck s1 = ret None s2" "0 < k"
    "wq_at st (wk_queue s2) m zs False C' P" "served C C' True" "wk_script s2 = []" "wq_producers (wk_queue s2) = wq_producers (wk_queue s)"
    using moved_done [OF acc assms(1,2)] by (elim exE conjE) (rule that)
  obtain q where q: "leaveProducerList w True (wk_queue s2) = ret False q" "wq_at st q m zs False C' (0, [])" "owned (wq_producers q) w"
    using P leaveProducerList_listed [of st "wk_queue s2" m zs False C' 0 w True] leaveProducerList_token [of st "wk_queue s2" m zs False C' 0 w True]
      r(4,7) by auto
  have "with_queue (leaveProducerList w True) s2 = ret False (s2\<lparr>wk_queue := q\<rparr>)" using q(1) r(6) by (simp add: with_queue_def)
  moreover have "answers k m zs before C {w} (ret (int k, None) (s2\<lparr>wk_queue := q\<rparr>))"
    by (rule settled_moved [OF assms(3) _ r(5)]) (use q(2,3) in simp_all)
  ultimately show ?thesis using r(1-3) by blast
qed

lemma enlist_slot:
  assumes "at_work s C (1, [])" "owned (wq_producers (wk_queue s)) w"
  shows "\<exists>s'. cx_left (wk_ctx s') = None \<and>
    (with_queue (on_producers (\<lambda>side. enlist side w atNewest)) s = ret False s' \<and> wq_at st (wk_queue s') N xs False C (0, [w]) \<and> later f s'
     \<or> wk_script s' = [] \<and> with_queue (on_producers (\<lambda>side. enlist side w atNewest)) s = ret d s'
       \<and> wq_at st (wk_queue s') n ys d C (if d then (1, []) else (0, [w])) \<and> (d \<longrightarrow> owned (wq_producers (wk_queue s')) w))"
proof -
  let ?s = "others s" and ?e = "\<lambda>side. enlist side w atNewest"
  have own: "owned (wq_producers (wk_queue ?s)) w" using slot(2) [OF assms] .
  have joins: "\<exists>q. on_producers ?e (wk_queue ?s) = ret c q \<and> wq_at st q a as c C (if c then (1, []) else (0, [w]))
      \<and> (c \<longrightarrow> owned (wq_producers q) w)"
    if at: "wq_at st (wk_queue ?s) a as c C (1, [])" for a as c
  proof -
    have "side_in (wq_producers (wk_queue ?s)) (1, []) c" using at by (simp add: wq_at_def)
    then obtain side where e: "enlist (wq_producers (wk_queue ?s)) w atNewest = ret c side"
      "side_in side (if c then (1, []) else (0, [w])) c" "c \<longrightarrow> side = wq_producers (wk_queue ?s)"
      using enlist_in [OF _ _ own, of "(1, [])" c atNewest] by (cases c) (auto simp: enlisted_def)
    then show ?thesis using on_producers_ret [of ?e "wk_queue ?s", OF e(1)] wq_at_producers [OF at e(2)] own by auto
  qed
  from assms(1) show ?thesis
  proof (cases rule: slot_cases)
    case before
    obtain q where q: "on_producers ?e (wk_queue ?s) = ret False q" "wq_at st q N xs False C (0, [w])" using joins [OF before(1)] by auto
    then show ?thesis using with_queue_others [where g = "on_producers ?e", OF q(1)] before(2) assms(1)
      by (intro exI [of _ "?s\<lparr>wk_queue := q\<rparr>"]) (simp add: underway_def later_def)
  next
    case after
    obtain q where q: "on_producers ?e (wk_queue ?s) = ret d q" "wq_at st q n ys d C (if d then (1, []) else (0, [w]))"
      "d \<longrightarrow> owned (wq_producers q) w" using joins [OF after(1)] by blast
    then show ?thesis using with_queue_others [where g = "on_producers ?e", OF q(1)] after(2) assms(1)
      by (intro exI [of _ "?s\<lparr>wk_queue := q\<rparr>"]) (simp add: underway_def)
  qed
qed

lemma parked_closed:
  assumes "wk_script s = []" "d" "wq_at st (wk_queue s) n ys d C (0, [w])"
  shows "\<exists>s1. with_queue (leaveProducerList w False) s = ret False s1 \<and> answers k m zs before C {w} (ret (0, Some (closedWhileWaiting before)) s1)"
proof -
  obtain q where q: "leaveProducerList w False (wk_queue s) = ret False q" "wq_at st q n ys d C (0, [])" "owned (wq_producers q) w"
    using leaveProducerList_listed [OF assms(3)] by blast
  have "with_queue (leaveProducerList w False) s = ret False (s\<lparr>wk_queue := q\<rparr>)" using q(1) assms(1) by (simp add: with_queue_def)
  then show ?thesis using settled_closed [OF assms(2), of st "s\<lparr>wk_queue := q\<rparr>" n ys C "{w}"] q(2,3) assms(2) by auto
qed

abbreviation retries :: "'a work \<Rightarrow> nat \<times> nat list \<Rightarrow> bool" where
  "retries s C \<equiv> \<not> d \<and> wk_script s = [] \<and> cx_left (wk_ctx s) = None \<and> wq_at st (wk_queue s) n ys d C (1, [])"

lemma select_ends:
  assumes "cx_left (wk_ctx s) = None"
    and at: "wq_at st (wk_queue s) N xs False C (0, [w]) \<and> later f s
      \<or> wk_script s = [] \<and> d \<and> wq_at st (wk_queue s) n ys d C (0, [w])"
    and eq: "out = and_then (park_select wq_producers sel w s) (\<lambda>selected s3. case selected of
       ParkToken \<Rightarrow> ret None (update_producers (\<lambda>side. take_token side w) s3)
     | ParkContext \<Rightarrow> F s3
     | ParkDone \<Rightarrow> and_then (with_queue (leaveProducerList w False) s3) (\<lambda>_. ret (Some (0, Some (closedWhileWaiting before)))))"
  shows "ends k m zs before C {w} out \<or> (\<exists>s'. out = ret None s' \<and> retries s' C \<and> owned (wq_producers (wk_queue s')) w)"
proof (cases d)
  case True
  obtain s' where s': "wk_script s' = []" "park_select wq_producers sel w s = ret ParkDone s'" "wq_at st (wk_queue s') n ys d C (0, [w])"
    using at select_event [of s C w sel] select_done [OF _ assms(1) True, of C w sel] assms(1) True by auto
  then show ?thesis using eq parked_closed [OF s'(1) True s'(3), where k = k and m = m and zs = zs and before = before] by auto
next
  case False
  obtain s' where s': "wk_script s' = []" "cx_left (wk_ctx s') = None" "park_select wq_producers sel w s = ret ParkToken s'"
    "wq_at st (wk_queue s') n ys d C (1, [])" "ws_heap (wq_producers (wk_queue s')) w = zero_waiter\<lparr>wt_token := True\<rparr>"
    using at select_event [of s C w sel] assms(1) False by auto
  have "side_in (wq_producers (wk_queue s')) (1, []) d" using s'(4) by (simp add: wq_at_def)
  note t = token_in [OF this s'(5)]
  have "wq_at st (wk_queue (update_producers (\<lambda>side. take_token side w) s')) n ys d C (1, [])"
    by (rule wq_at_update_producers [OF s'(4)]) (rule t(1))
  then show ?thesis using eq s'(1-3) t(2) False by simp
qed

lemma park_as_event:
  assumes "at_work s C (1, [])" "owned (wq_producers (wk_queue s)) w"
    and suit: "suits st attempt N xs n ys d k m zs"
  shows "ends k m zs before C {w} (parkForRoom_as ch attempt before atNewest w s)
    \<or> (\<exists>s'. parkForRoom_as ch attempt before atNewest w s = ret None s' \<and> retries s' C \<and> owned (wq_producers (wk_queue s')) w)"
proof -
  let ?e = "on_producers (\<lambda>side. enlist side w atNewest)"
  from enlist_slot [OF assms(1,2)] obtain s1 where ctx: "cx_left (wk_ctx s1) = None" and
    s1: "with_queue ?e s = ret False s1 \<and> wq_at st (wk_queue s1) N xs False C (0, [w]) \<and> later f s1
     \<or> wk_script s1 = [] \<and> with_queue ?e s = ret d s1
       \<and> wq_at st (wk_queue s1) n ys d C (if d then (1, []) else (0, [w])) \<and> (d \<longrightarrow> owned (wq_producers (wk_queue s1)) w)"
    by blast
  consider (closed) "d" "with_queue ?e s = ret True s1" "wk_script s1 = []" "wq_at st (wk_queue s1) n ys True C (1, [])" "owned (wq_producers (wk_queue s1)) w"
    | (listed) "with_queue ?e s = ret False s1" "\<not> d" "wk_script s1 = []" "wq_at st (wk_queue s1) n ys False C (0, [w])"
    | (before) "with_queue ?e s = ret False s1" "wq_at st (wk_queue s1) N xs False C (0, [w])" "later f s1"
    using s1 by (cases d) auto
  then show ?thesis
  proof cases
    case closed
    then show ?thesis using leavePollingClosed_done [of st s1 n ys C "{w}" before k m zs] by (auto simp: parkForRoom_as_def)
  next
    case listed
    then show ?thesis using extra_moved [OF _ _ _ _ suit, of s1 C "(0, [w])" w before] by (auto simp: parkForRoom_as_def)
  next
    case before
    let ?wait = "\<lambda>s2. and_then (park_select wq_producers (pick_case ch) w s2) (\<lambda>selected s3. case selected of
       ParkToken \<Rightarrow> ret None (update_producers (\<lambda>side. take_token side w) s3)
     | ParkContext \<Rightarrow> and_then (with_queue (leaveProducerList w False) s3) (\<lambda>_ s4.
         and_then (producerContextError before s4) (\<lambda>e. ret (Some (0, Some e))))
     | ParkDone \<Rightarrow> and_then (with_queue (leaveProducerList w False) s3) (\<lambda>_. ret (Some (0, Some (closedWhileWaiting before)))))"
    have refused: "\<exists>s2. parkForRoom_as ch attempt before atNewest w s = ?wait s2 \<and> wk_script s2 = wk_script (others s1) \<and> cx_left (wk_ctx s2) = None
        \<and> wq_at st (wk_queue s2) a as c C (0, [w])"
      if ref: "refuses st attempt a as" "wq_at st (wk_queue (others s1)) a as c C (0, [w])" for a as c
    proof -
      obtain q where q: "attempt (wk_queue (others s1)) = ret 0 q" "wq_at st q a as c C (0, [w])"
        using ref unfolding refuses_def by blast
      then show ?thesis using with_queue_others [where g = attempt, OF q(1)] before(1) ctx
        by (intro exI [of _ "(others s1)\<lparr>wk_queue := q\<rparr>"]) (simp add: parkForRoom_as_def)
    qed
    from listed_slot [OF before(2,3)] show ?thesis
    proof (elim disjE conjE)
      assume at: "wq_at st (wk_queue (others s1)) N xs False C (0, [w])" "later f (others s1)"
      from refused [OF suits_full [OF suit] at(1)] obtain s2 where s2: "parkForRoom_as ch attempt before atNewest w s = ?wait s2"
        "wk_script s2 = wk_script (others s1)" "cx_left (wk_ctx s2) = None" "wq_at st (wk_queue s2) N xs False C (0, [w])" by blast
      then show ?thesis using at(2) by (intro select_ends [OF s2(3) _ s2(1)]) (simp add: later_def)
    next
      assume at: "wk_script (others s1) = []" d "wq_at st (wk_queue (others s1)) n ys d C (0, [w])"
      have "refuses st attempt n ys" using suit at(2) by (simp add: suits_def)
      from refused [OF this at(3)] obtain s2 where s2: "parkForRoom_as ch attempt before atNewest w s = ?wait s2"
        "wk_script s2 = wk_script (others s1)" "cx_left (wk_ctx s2) = None" "wq_at st (wk_queue s2) n ys d C (0, [w])" by blast
      then show ?thesis using at(1,2) by (intro select_ends [OF s2(3) _ s2(1)]) simp
    next
      assume at: "wk_script (others s1) = []" "\<not> d" "wq_at st (wk_queue (others s1)) n ys d C (1, [])"
        "ws_heap (wq_producers (wk_queue (others s1))) w = zero_waiter\<lparr>wt_token := True\<rparr>"
      note eq = with_queue_done [OF at(1), of attempt]
      show ?thesis using extra_moved [OF _ _ _ _ suit, of "others s1" C "(1, [])" w before] at before(1)
        by (auto simp: parkForRoom_as_def eq)
    qed
  qed
qed

lemma park_event:
  assumes "at_work s C (1, [])"
    and suit: "suits st attempt N xs n ys d k m zs"
  shows "ends k m zs before C {} (parkForRoom ch attempt before False s) \<or> (\<exists>s'. parkForRoom ch attempt before False s = ret None s' \<and> retries s' C)"
proof -
  obtain side w where g: "getWaiter (pick_pool ch) (wq_producers (wk_queue s)) = (side, w)"
    by (cases "getWaiter (pick_pool ch) (wq_producers (wk_queue s))")
  let ?s = "update_producers (\<lambda>_. side) s" and ?put = "update_producers (\<lambda>side. putWaiter side w)"
  have get: "wq_at st (wk_queue ?s) a as c C (1, []) \<and> owned side w" if "wq_at st (wk_queue s) a as c C (1, [])" for a as c
    using that getWaiter_in [OF _ g, of "(1, [])" c] wq_at_update_producers [OF that, of "\<lambda>_. side"] by (simp add: wq_at_def)
  then have at: "at_work ?s C (1, [])" "owned (wq_producers (wk_queue ?s)) w" using assms by (auto simp: underway_def later_def)
  have eq: "parkForRoom ch attempt before False s = finally_do ?put (parkForRoom_as ch attempt before atNewest w ?s)"
    by (simp add: parkForRoom_def g)
  from park_as_event [OF at suit, of ch before] show ?thesis
  proof (elim disjE exE conjE)
    fix v s' assume r: "parkForRoom_as ch attempt before atNewest w ?s = ret (Some v) s'" "answers k m zs before C {w} (ret v s')"
    have "answers k m zs before C {} (ret v (?put s'))" using r(2) put_back unfolding settled_def by (cases d) fastforce+
    then show ?thesis unfolding eq r(1) by auto
  next
    fix s' assume "parkForRoom_as ch attempt before atNewest w ?s = ret None s'" "\<not> d" "wk_script s' = []" "cx_left (wk_ctx s') = None"
      "wq_at st (wk_queue s') n ys d C (1, [])" "owned (wq_producers (wk_queue s')) w"
    then show ?thesis using put_back [of st s' n ys d C "(1, [])" w] by (simp add: eq)
  qed
qed

lemma loop_event:
  assumes "at_work s C (1, [])"
    and suit: "suits st attempt N xs n ys d k m zs"
  shows "answers k m zs before C {} (pushWait_loop ch attempt before False s)"
proof -
  have "ends k m zs before C {} (yieldForRoom attempt before False s) \<or> (\<exists>s'. yieldForRoom attempt before False s = ret None s' \<and> at_work s' C (1, []))"
    using yield_event [OF assms] by (simp add: yieldForRoom_def)
  then show ?thesis
  proof (elim disjE exE conjE)
    fix v s' assume "yieldForRoom attempt before False s = ret (Some v) s'" "answers k m zs before C {} (ret v s')"
    then show ?thesis by (subst pushWait_loop.simps) simp
  next
    fix s1 assume y: "yieldForRoom attempt before False s = ret None s1" and at: "at_work s1 C (1, [])"
    have eq: "pushWait_loop ch attempt before False s = (if st_NeverPark (wq_producerWait (wk_queue s1)) then pushWithoutParking attempt before s1
        else and_then (parkForRoom ch attempt before False s1) (\<lambda>r s2. case r of Some v \<Rightarrow> ret v s2 | None \<Rightarrow> pushWait_loop ch attempt before True s2))"
      using y by (subst pushWait_loop.simps) simp
    from park_event [OF at suit, of ch before] show ?thesis
    proof (elim disjE exE conjE)
      fix v s' assume "parkForRoom ch attempt before False s1 = ret (Some v) s'" "answers k m zs before C {} (ret v s')"
      then show ?thesis using eq never_park_event [OF suit at, of before] by simp
    next
      fix s2 assume p: "parkForRoom ch attempt before False s1 = ret None s2" "wk_script s2 = []" "wq_at st (wk_queue s2) n ys d C (1, [])"
      obtain v s3 where v: "attemptRegistered attempt before s2 = ret (Some v) s3" "answers k m zs before C {} (ret v s3)"
        using registered_done [OF p(3,2) suit, of before] by blast
      obtain l where "nat (max (st_Yields (wq_producerWait (wk_queue s2))) 1) = Suc l"
        by (cases "nat (max (st_Yields (wq_producerWait (wk_queue s2))) 1)") auto
      then have "yieldForRoom attempt before True s2 = ret (Some v) s3" using v(1) by (simp add: yieldForRoom_def del: not_None_eq)
      then have "pushWait_loop ch attempt before True s2 = ret v s3" by (subst pushWait_loop.simps) simp
      then show ?thesis using eq p(1) v(2) never_park_event [OF suit at, of before] by simp
    qed
  qed
qed

lemma wait_event:
  assumes "at_work s C (0, [])"
    and suit: "suits st attempt N xs n ys d k m zs"
  shows "answers k m zs before C {} (pushWait ch attempt before s)"
proof -
  have "ends k m zs before C {} (spinForRoom attempt before s) \<or> (\<exists>s'. spinForRoom attempt before s = ret None s' \<and> at_work s' C (0, []))"
    using spin_event [OF assms] by (simp add: spinForRoom_def)
  then show ?thesis
  proof (elim disjE exE conjE)
    fix v s' assume "spinForRoom attempt before s = ret (Some v) s'" "answers k m zs before C {} (ret v s')"
    then show ?thesis by (simp add: pushWait_def)
  next
    fix s1 assume sp: "spinForRoom attempt before s = ret None s1" and at: "at_work s1 C (0, [])"
    from register_slot [OF at, where k = k and m = m and zs = zs and before = before] obtain c s2 where reg: "with_queue registerProducer s1 = ret c s2"
      "if c then answers k m zs before C {} (ret (0, Some (closedWhileWaiting before)) s2) else at_work s2 C (1, [])" by blast
    then show ?thesis using sp loop_event [OF _ suit, of s2 C before ch] by (cases c) (simp_all add: pushWait_def)
  qed
qed

lemma push_ends:
  assumes "at_work s C (0, [])"
    and suit: "suits st (enqueueAttempt x) N xs n ys d k m zs"
  shows "\<exists>s'. if d then Push ch x s = ret (Some ErrClosed) s' \<and> wq_at st (wk_queue s') n ys True C (0, [])
    else \<exists>C'. Push ch x s = ret None s' \<and> wq_at st (wk_queue s') m zs False C' (0, []) \<and> served C C' True"
proof -
  let ?c = "consumers_closed (wk_queue (others s))"
  have look: "look_at consumers_closed s = ret ?c (others s)" by (simp add: with_queue_def)
  have at: "at_work (others s) C (0, [])" using slot(1) [OF assms(1)] .
  show ?thesis
  proof (cases ?c)
    case True
    then have "d \<and> wq_at st (wk_queue (others s)) n ys True C (0, [])" using at by (auto simp: underway_def)
    then show ?thesis using look True by (auto simp: Push_def)
  next
    case False
    from attempt_slot [OF at suit] show ?thesis
    proof (elim disjE exE conjE)
      fix s1 assume r: "with_queue (enqueueAttempt x) (others s) = ret 0 s1" and at1: "at_work s1 C (0, [])"
      have "Push ch x s = and_then (pushWait ch (enqueueAttempt x) 0 s1) (\<lambda>(_, err). ret err)"
        using look False r by (simp add: Push_def)
      then show ?thesis using wait_event [OF at1 suit, of 0 ch] unfolding settled_def
        by (cases d) (fastforce simp: closedWhileWaiting_def)+
    next
      fix s1 s2 C' assume r: "\<not> d" "0 < k" "with_queue (enqueueAttempt x) (others s) = ret (int k) s1" "with_queue consumerWakeCheck s1 = ret None s2"
        "wq_at st (wk_queue s2) m zs False C' (0, [])" "served C C' True"
      have "Push ch x s = ret None s2" using look False r(2-4) by (simp add: Push_def)
      then show ?thesis using r(1,5,6) by (intro exI [of _ s2]) (auto intro!: exI [of _ C'] simp del: split_paired_Ex)
    qed
  qed
qed

end

section \<open>The actions\<close>

lemma others_receive_ok:
  assumes "wq_at st q n (y # ys) False C P"
  defines "k \<equiv> if fst P = 0 \<and> snd P \<noteq> [] then 1 else 0 :: nat"
  shows "wakes_producers st q (others_receive e q) n ys False C P k"
proof -
  note d = clamped_fits [OF assms(1), of "[e]"]
  have one: "clamped q [e] = [e]" using clamped_eq [OF assms(1), of "[e]"] d(1) by (cases "qc_maxD (sg_conf st)") auto
  obtain q1 where q1: "dequeueAttempt [e] q = ret (1, [y]) q1" "wq_at st q1 n ys False C P"
    using dequeueAttempt_ok [OF assms(1), of "[e]"] d one by auto
  obtain q2 where q2: "wakeProducers q1 = ret False q2" "wakes_producers st q1 q2 n ys False C P k"
    using wakeProducers_ok [OF q1(2)] unfolding k_def by blast
  have "others_receive e q = q2" using q1(1) q2(1) one by (simp add: others_receive_def tryReceive_def)
  then show ?thesis using q2(2) attempts_frame(3) [OF q1(1)] by (simp add: wakes_producers_def)
qed

text \<open>A receive that finds no producer parked does not touch the producers' side.\<close>

lemma others_receive_frame:
  assumes "wq_at st q n (y # ys) False C (j, [])"
  shows "wq_producers (others_receive e q) = wq_producers q"
proof -
  note d = clamped_fits [OF assms, of "[e]"]
  have one: "clamped q [e] = [e]" using clamped_eq [OF assms, of "[e]"] d(1) by (cases "qc_maxD (sg_conf st)") auto
  obtain q1 where q1: "dequeueAttempt [e] q = ret (1, [y]) q1" "wq_at st q1 n ys False C (j, [])"
    using dequeueAttempt_ok [OF assms, of "[e]"] d one by auto
  have "side_in (wq_producers q1) (j, []) False" using q1(2) by (simp add: wq_at_def)
  then have "\<not> sideWord_needsWake (ws_word (wq_producers q1))" using side_in_word(3) by fastforce
  then have "wakeCheck (wq_producers q1) = ret (sideWord_closed (ws_word (wq_producers q1))) (wq_producers q1)"
    by (simp add: wakeCheck_def Let_def)
  then have "wakeProducers q1 = ret (sideWord_closed (ws_word (wq_producers q1))) q1"
    using on_producers_ret [of wakeCheck q1] by (simp add: wakeProducers_def)
  then have "others_receive e q = q1" using q1(1) one by (simp add: others_receive_def tryReceive_def)
  then show ?thesis using attempts_frame(3) [OF q1(1)] by simp
qed

interpretation receive_event: producer_event st "others_receive e" n "y # ys" n ys False for st e n y ys
proof (unfold_locales, goal_cases)
  case (1 q C j)
  then show ?case using others_receive_ok [OF 1, of e] by (simp add: wakes_producers_def)
next
  case (2 q C j w)
  then show ?case using others_receive_frame [OF 2(1), of e] by simp
next
  case (3 q C w)
  then show ?case using others_receive_ok [OF 3, of e] by (simp add: wakes_producers_def woken_def)
qed

interpretation producer_close: producer_event st others_close n xs n xs True for st n xs
  by unfold_locales (use others_close_ok in auto)

section \<open>A Push and another goroutine\<close>

lemma full_queue_exists:
  "\<exists>q q1 :: int wq_queue. wq_New 4 2 [] = Inr q \<and> tryPushBatch [1, 2] q = ret (2, None) q1
    \<and> qc_cap (sg_conf (settings_of q)) = 2 \<and> wq_at (settings_of q) q1 (Suc 0) [1, 2] False (0, []) (0, [])"
proof -
  obtain q :: "int wq_queue" where q: "wq_New 4 2 [] = Inr q" using small_queue_exists by blast
  have cap: "qc_cap (sg_conf (settings_of q)) = 2" using wq_New_ok(2) [OF q, of 3] by simp
  have at: "wq_at (settings_of q) q (length [1 :: int, 2] + 1) [] False (0, []) (0, [])" using wq_New_ok(1) [OF q, of 3] by (simp add: numeral_3_eq_3)
  obtain q1 where "tryPushBatch [1, 2] q = ret (2, None) q1" "wq_at (settings_of q) q1 1 [1, 2] False (0, []) (0, [])"
    using tryPushBatch_ok [OF at] cap served_idle by fastforce
  then show ?thesis using q cap by auto
qed

text \<open>
  C18. A producer that waits gets the room another goroutine makes, at whatever point of the call: on a full
  open queue where nobody else waits to push, the only action of another goroutine during the call is one
  successful \<^verbatim>\<open>TryReceive\<close> of one element, and the context is never done. \<^verbatim>\<open>Push\<close> appends its item behind
  what the receive left and returns nil, whatever the wait strategy and the runtime's choices. Afterwards no
  producer is registered or parked, and no consumer is left parked without somebody polling.
\<close>

theorem Push_gets_room:
  fixes x :: "'a::zero"
  assumes "wq_at st (wk_queue s) (Suc n) xs False C (0, [])" "length xs = qc_cap (sg_conf st)"
    "wk_script s = replicate k id @ [others_receive e]" "cx_left (wk_ctx s) = None"
  shows "\<exists>s' C'. Push ch x s = ret None s' \<and> wq_at st (wk_queue s') n (tl xs @ [x]) False C' (0, []) \<and> served C C' True"
proof -
  have "0 < qc_cap (sg_conf st)" using assms(1) by (auto simp: wq_at_def settings_ok_def)
  then obtain y ys where xs: "xs = y # ys" using assms(2) by (cases xs) auto
  have "suits st (enqueueAttempt x) (Suc n) (y # ys) (Suc n) ys False 1 n (ys @ [x])"
    using enqueue_refuses [OF assms(2), of x n] enqueue_accepts [of ys st x n] assms(2) xs by (simp add: suits_def)
  moreover have "underway st (others_receive e) (Suc n) (y # ys) (Suc n) ys False s C (0, [])"
    using assms xs by (auto simp: underway_def later_def)
  ultimately show ?thesis using receive_event.push_ends [of st e "Suc n" y ys s C x 1 n "ys @ [x]" ch] xs by auto
qed

theorem Push_gets_room_witness:
  "\<exists>q q1 s'. wq_New 4 2 [] = Inr q \<and> tryPushBatch [1 :: int, 2] q = ret (2, None) q1
    \<and> Push \<lparr>pick_pool = None, pick_case = 0\<rparr> 7
        \<lparr>wk_queue = q1, wk_ctx = \<lparr>cx_left = None, cx_err = Canceled\<rparr>, wk_script = replicate 5 id @ [others_receive 0]\<rparr> = ret None s'
    \<and> engine_contents (wq_engine (wk_queue s')) = [2, 7]"
proof -
  obtain q q1 :: "int wq_queue" where q: "wq_New 4 2 [] = Inr q" "tryPushBatch [1, 2] q = ret (2, None) q1"
    "qc_cap (sg_conf (settings_of q)) = 2" "wq_at (settings_of q) q1 (Suc 0) [1, 2] False (0, []) (0, [])"
    using full_queue_exists by blast
  let ?s = "\<lparr>wk_queue = q1, wk_ctx = \<lparr>cx_left = None, cx_err = Canceled\<rparr>, wk_script = replicate 5 id @ [others_receive 0]\<rparr>"
  have "wq_at (settings_of q) (wk_queue ?s) (Suc 0) [1, 2] False (0, []) (0, [])" using q(4) by simp
  from Push_gets_room [OF this, of 5 0 "\<lparr>pick_pool = None, pick_case = 0\<rparr>" 7] q(1-3)
  show ?thesis by (auto simp: wq_at_def)
qed

text \<open>
  C19. A producer that waits on a full open queue returns when another goroutine closes the queue, at whatever
  point of the call: nobody else waits to push, the only action of another goroutine during the call is one
  \<^verbatim>\<open>Close\<close>, and the context is never done. \<^verbatim>\<open>Push\<close> reports \<^verbatim>\<open>ErrClosed\<close>, the contents are as they were, and no
  producer is left registered or parked, whatever the wait strategy and the runtime's choices.
\<close>

theorem Push_ends_on_close:
  fixes x :: "'a::zero"
  assumes "wq_at st (wk_queue s) (Suc n) xs False C (0, [])" "length xs = qc_cap (sg_conf st)"
    "wk_script s = replicate k id @ [others_close]" "cx_left (wk_ctx s) = None"
  shows "\<exists>s'. Push ch x s = ret (Some ErrClosed) s' \<and> wq_at st (wk_queue s') (Suc n) xs True C (0, [])"
proof -
  have "suits st (enqueueAttempt x) (Suc n) xs (Suc n) xs True 0 0 []"
    using enqueue_refuses [OF assms(2), of x n] by (simp add: suits_def)
  moreover have "underway st others_close (Suc n) xs (Suc n) xs True s C (0, [])"
    using assms by (auto simp: underway_def later_def)
  ultimately show ?thesis using producer_close.push_ends [of st "Suc n" xs s C x 0 0 "[]" ch] by simp
qed

theorem Push_ends_on_close_witness:
  "\<exists>q q1 s'. wq_New 4 2 [] = Inr q \<and> tryPushBatch [1 :: int, 2] q = ret (2, None) q1
    \<and> Push \<lparr>pick_pool = None, pick_case = 0\<rparr> 7
        \<lparr>wk_queue = q1, wk_ctx = \<lparr>cx_left = None, cx_err = Canceled\<rparr>, wk_script = replicate 4 id @ [others_close]\<rparr>
      = ret (Some ErrClosed) s'
    \<and> engine_contents (wq_engine (wk_queue s')) = [1, 2] \<and> wq_done (wk_queue s')"
proof -
  obtain q q1 :: "int wq_queue" where q: "wq_New 4 2 [] = Inr q" "tryPushBatch [1, 2] q = ret (2, None) q1"
    "qc_cap (sg_conf (settings_of q)) = 2" "wq_at (settings_of q) q1 (Suc 0) [1, 2] False (0, []) (0, [])"
    using full_queue_exists by blast
  let ?s = "\<lparr>wk_queue = q1, wk_ctx = \<lparr>cx_left = None, cx_err = Canceled\<rparr>, wk_script = replicate 4 id @ [others_close]\<rparr>"
  have "wq_at (settings_of q) (wk_queue ?s) (Suc 0) [1, 2] False (0, []) (0, [])" using q(4) by simp
  from Push_ends_on_close [OF this, of 4 "\<lparr>pick_pool = None, pick_case = 0\<rparr>" 7] q(1-3)
  show ?thesis by (auto simp: wq_at_def)
qed

end
