(* ===== verification/Spec2Isabelle.thy ===== *)
theory Spec2Isabelle
  imports XSlices GoSet BytesBuffer BufferPool DpdkSPSC DpdkMPSC DpdkSPMC DpdkMPMC
    FrontierMPSC FrontierSPMC FrontierMPMC WakeHandoff PushEvents
begin

text \<open>
  A verification of the Go module \<^verbatim>\<open>go-data-structures\<close>: byte and element buffers, sets, helpers on
  slices and maps, bounded lock-free queues, and the work queue that blocks on top of them.

  \<^bold>\<open>The parts of the program and how they interact.\<close>
  \<^item> \<^verbatim>\<open>xslices\<close>, \<^verbatim>\<open>xmaps\<close> and \<^verbatim>\<open>set\<close> are pure functions on slices and maps; \<^verbatim>\<open>buffer\<close> is a sliding window
    over a fixed array, with a reader and writer for bytes and a pool that recycles buffers.
  \<^item> \<^verbatim>\<open>ring/dpdk\<close> has four bounded queues for one or many producers and consumers, with 32-bit positions
    that wrap around, and with ordered or relaxed publication of the many side. \<^verbatim>\<open>ring/frontier\<close> has
    three queues with 64-bit positions whose many side publishes by writing an end position into an
    array of records, which the other side scans.
  \<^item> \<^verbatim>\<open>workq\<close> selects one of these queues as its engine by the declared sides, and adds closing, batches
    and blocking. A caller that finds no item or no room spins, yields, registers as a poller in the
    state word of its wait side, and at last parks on a list; whoever moves items wakes parked callers
    of the other side.

  \<^bold>\<open>Which theory models what.\<close>
  \<^item> \<open>Prelude\<close>: Go's \<^verbatim>\<open>int\<close> arithmetic, panics as \<open>outcome\<close>, shared lemmas on lists and words.
  \<^item> \<open>XSlices\<close> (\<^verbatim>\<open>xslices/slices.go\<close>), \<open>GoMaps\<close> (\<^verbatim>\<open>xmaps/maps.go\<close>), \<open>GoSet\<close> (\<^verbatim>\<open>set/set.go\<close>): one definition per
    function. A map is a partial function with a finite domain, its iteration order an argument.
  \<^item> \<open>Buffer\<close> (\<^verbatim>\<open>buffer/buffer.go\<close>), \<open>BytesBuffer\<close> (\<^verbatim>\<open>bytes_buffer.go\<close>), \<open>BufferPool\<close> (\<^verbatim>\<open>pool.go\<close>): a record of the
    backing array and the counters; every method with its bounds checks and overflow.
  \<^item> \<open>RingShared\<close> (\<^verbatim>\<open>ring/internal/shared\<close>, \<^verbatim>\<open>ring/errors.go\<close>), \<open>DpdkOptions\<close> (\<^verbatim>\<open>ring/dpdk/options.go\<close>), \<open>DpdkRing\<close>
    (\<^verbatim>\<open>ring.go\<close>), \<open>DpdkSPSC\<close>, \<open>DpdkMPSC\<close>, \<open>DpdkSPMC\<close>, \<open>DpdkMPMC\<close> (\<^verbatim>\<open>spsc.go\<close>, \<^verbatim>\<open>mpsc.go\<close>, \<^verbatim>\<open>spmc.go\<close>, \<^verbatim>\<open>mpmc.go\<close>).
    \<open>RingStore\<close> and \<open>RingPositions\<close> hold what all rings share: slots, copies and positions that wrap.
  \<^item> \<open>FrontierOptions\<close>, \<open>FrontierRecords\<close>, \<open>FrontierMPSC\<close>, \<open>FrontierSPMC\<close>, \<open>FrontierMPMC\<close>: the files of the same name
    under \<^verbatim>\<open>ring/frontier\<close>, \<open>FrontierMPSC\<close> with the core in \<^verbatim>\<open>mpsc_base.go\<close>.
  \<^item> \<open>RingFifo\<close>: the contract of a bounded queue as the locales \<open>fifo_queue\<close> and \<open>fifo_queue_within\<close>. Every queue
    interprets one of them; the engine interprets it again over the four it selects from.
  \<^item> \<open>WaitSide\<close> (\<^verbatim>\<open>workq/waitside.go\<close>): the state word, the linked list of waiters as a heap, and each operation.
    \<open>WaitProtocol\<close> interleaves callers of one side as a step relation, one load, swap or token a step;
    \<open>WakeHandoff\<close> (with \<^verbatim>\<open>consumer_wake.go\<close>) interleaves consumers and producers, one operation of the side or
    the engine a step.
  \<^item> \<open>WorkDiagnostics\<close> (\<^verbatim>\<open>workq/diagnostics\<close>, \<^verbatim>\<open>workq/internal/diagnostics\<close>): the configuration and the histograms.
    \<open>WorkEngine\<close> (\<^verbatim>\<open>engine.go\<close>): the selection of the engine. \<open>WorkQueue\<close> (\<^verbatim>\<open>workq.go\<close>, \<^verbatim>\<open>queue.go\<close>, \<^verbatim>\<open>push.go\<close>,
    \<^verbatim>\<open>receive.go\<close>, \<^verbatim>\<open>wait.go\<close>): every call of the work queue. \<open>WorkCalls\<close>, \<open>WorkWait\<close> and \<open>WorkPush\<close> prove what they
    do when nobody else acts: the calls that never wait, the consumers that do, and the producers that do.
    \<open>ReceiveEvents\<close> and \<open>PushEvents\<close> prove what a waiting call does when another goroutine acts during it, from
    the locales \<open>consumer_event\<close> and \<open>producer_event\<close> of what such an action does to the queue, which a push, a
    receive and a close interpret.

  \<^bold>\<open>State, errors and loops.\<close> A method is a function from the record of its receiver to the new record
  and the results. A method that may panic returns an \<open>outcome\<close>. A loop whose end depends on others is a
  \<^theory_text>\<open>partial_function\<close> into an option, so that not returning is \<open>None\<close>; that calls return is part of the
  theorems. A call of a queue is one step of the whole call: the loops observe the state its earlier
  operations left. Interference within an operation of a wait side is in the two step relations above. In
  \<open>WorkQueue\<close> a blocking call carries what happens around it: a context that is done after a number of looks
  or never, and a script of what other goroutines do, one entry before each of its operations on the
  engine or a wait side and each load of a closed flag, at \<^verbatim>\<open>runtime.Gosched\<close> and while it is parked; an
  entry may do nothing. What \<^verbatim>\<open>sync.Pool\<close> and \<^verbatim>\<open>select\<close> choose is an argument.

  \<^bold>\<open>What the lemmas show.\<close>
  \<^item> Rings: any sequence of calls on a new queue returns, and returns what a bounded FIFO allows; no
    element is lost, duplicated or reordered; counts and remainders are what the documentation says;
    constructors accept exactly the valid configurations. The look-ahead scan of the records equals the
    scan of one record at a time.
  \<^item> Wait sides: for all interleavings no panic, counts that agree with the list, clean pooled waiters;
    whenever items are visible and a consumer is blocked, somebody is bound to act on them, and everybody
    else has a step to the next point of its call. A waker unlinks a waiter and sends its token in one
    step of these relations, under the mutex; the time between the two is not observed.
  \<^item> Work queue: the calls that never wait refine a bounded FIFO that can be closed; \<^verbatim>\<open>New\<close> is decided by
    its configuration. A blocking call on its own hands over what it finds, reports a closed queue, or
    waits until its context is done, and then leaves its wait side as it was, or never returns. With one
    push, receive or close of another goroutine at any point of the call it returns with that item,
    into that room, or with \<^verbatim>\<open>ErrClosed\<close>, and gives back its registration. Several actions of other
    goroutines during one call, and other callers waiting on the same side, are only in the step
    relations. \<^verbatim>\<open>PushBatch\<close> reports the prefix it
    pushed, and \<^verbatim>\<open>Consume\<close> drains a closed queue.
  \<^item> Buffers, sets, slices and maps: functional correctness of every operation, and the bounds that the
    code misses, \<open>grow_overflow_corrupts\<close> and \<open>Append_overflow_corrupts\<close> in \<open>Buffer\<close>.

  \<^bold>\<open>Bounds.\<close> Positions of the dpdk rings are 32-bit words that wrap, without a limit on the calls. Positions
  of the frontier rings are 64-bit words; their theorems are for fewer than \<open>2^64\<close> offered elements, which
  the predicates named \<open>fits\<close> count down. A state word counts fewer than \<open>2^31\<close> pollers and as many parked
  callers, which \<open>side_state\<close> states. Appends to a buffer are for a capacity and a number of values whose sum
  is below \<open>2^63\<close>, which only elements of size zero can exceed; size histograms are for sizes up to \<open>2^30\<close>,
  duration histograms for durations below \<open>2^63\<close>. There is no fuel.

  \<^bold>\<open>Not modelled.\<close>
  \<^item> Diagnostics recording (\<^verbatim>\<open>workq/diagnostics_record.go\<close> and the endpoint counters): the work queue is
    modelled with diagnostics off, where none of it runs; the counters feed no decision.
  \<^item> \<^verbatim>\<open>workq/runner\<close>: goroutines around handlers that the caller supplies, joined by wait groups and paced by
    timers and random jitter. Its small pure helpers, the validation of results and the bounds of a
    retry, are left out with it.
  \<^item> \<^verbatim>\<open>workq/durable\<close>: its state is a SQLite file that SQL text changes through a third-party driver, with
    locks and synchronisation of the file system; \<^verbatim>\<open>sqlitefault\<close> is the test file system for it.
  \<^item> \<^verbatim>\<open>String\<close> and \<^verbatim>\<open>GoString\<close> of a buffer, which print it, and the panic of \<^verbatim>\<open>make\<close> for a capacity that cannot be
    allocated.
  \<^item> Message texts of errors, the memory model below atomic operations, and finalisation of objects.
  \<^item> \<^verbatim>\<open>benchmark\<close>, \<^verbatim>\<open>scripts\<close> and \<^verbatim>\<open>workq/examples\<close>: programs that measure or demonstrate.
\<close>

end
